(* ===== verification/Float64.thy ===== *)
theory Float64
  imports Complex_Main
begin

text \<open>
  Go's \<open>float64\<close>: IEEE 754 binary64 with round-to-nearest, ties to even. Voting powers, tallies
  and trust values of the program are \<open>float64\<close>, so a quorum is reached or missed by a
  comparison of rounded sums. A finite value is kept as the rational it denotes; every arithmetic
  operation computes the exact rational result and rounds it once (\<open>f64_rnd\<close>). The signed
  zero is not distinguished: no comparison or sum of the program can tell it apart.

  The lemmas give the rounding function by certificates (\<open>f64_rnd_cert\<close>), its exactness on
  representable values, the half-ulp relative error bound for normal values, and the error
  accumulated by repeated addition, which the quorum theorems use.
\<close>

section \<open>Rounding\<close>

fun nbits :: "nat \<Rightarrow> nat" where
  "nbits n = (if n = 0 then 0 else Suc (nbits (n div 2)))"

declare nbits.simps [simp del]

definition pow2 :: "int \<Rightarrow> rat" where
  "pow2 e = (if 0 \<le> e then 2 ^ nat e else 1 / 2 ^ nat (- e))"

definition ilog2 :: "rat \<Rightarrow> int" where
  "ilog2 r =
     (let pq = quotient_of r;
          e = int (nbits (nat (fst pq))) - int (nbits (nat (snd pq)))
      in if r < pow2 e then e - 1 else e)"

definition round_even :: "rat \<Rightarrow> int" where
  "round_even x =
     (let f = \<lfloor>x\<rfloor>; d = x - of_int f
      in if d < 1 / 2 then f
         else if 1 / 2 < d then f + 1
         else if even f then f else f + 1)"

datatype float64 = Fin rat | PosInf | NegInf | NaN

definition ulp_exp :: "rat \<Rightarrow> int" where
  "ulp_exp x = max (- 1074) (ilog2 \<bar>x\<bar> - 52)"

definition f64_rnd :: "rat \<Rightarrow> float64" where
  "f64_rnd x =
     (if x = 0 then Fin 0
      else
        (let e = ulp_exp x; y = of_int (round_even (x / pow2 e)) * pow2 e
         in if 2 ^ 1024 \<le> y then PosInf else if y \<le> - (2 ^ 1024) then NegInf else Fin y))"

section \<open>Arithmetic and comparison\<close>

fun f64_add :: "float64 \<Rightarrow> float64 \<Rightarrow> float64" where
  "f64_add (Fin x) (Fin y) = f64_rnd (x + y)"
| "f64_add NaN _ = NaN"
| "f64_add _ NaN = NaN"
| "f64_add PosInf NegInf = NaN"
| "f64_add NegInf PosInf = NaN"
| "f64_add PosInf _ = PosInf"
| "f64_add _ PosInf = PosInf"
| "f64_add NegInf _ = NegInf"
| "f64_add _ NegInf = NegInf"

text \<open>Multiplication and division are used on finite operands only; a non-finite operand, or a
  zero divisor, follows IEEE 754 with the sign of zero taken as positive.\<close>

fun f64_mul :: "float64 \<Rightarrow> float64 \<Rightarrow> float64" where
  "f64_mul (Fin x) (Fin y) = f64_rnd (x * y)"
| "f64_mul NaN _ = NaN"
| "f64_mul _ NaN = NaN"
| "f64_mul PosInf PosInf = PosInf"
| "f64_mul NegInf NegInf = PosInf"
| "f64_mul PosInf NegInf = NegInf"
| "f64_mul NegInf PosInf = NegInf"
| "f64_mul PosInf (Fin y) = (if y = 0 then NaN else if 0 < y then PosInf else NegInf)"
| "f64_mul NegInf (Fin y) = (if y = 0 then NaN else if 0 < y then NegInf else PosInf)"
| "f64_mul (Fin y) PosInf = (if y = 0 then NaN else if 0 < y then PosInf else NegInf)"
| "f64_mul (Fin y) NegInf = (if y = 0 then NaN else if 0 < y then NegInf else PosInf)"

fun f64_div :: "float64 \<Rightarrow> float64 \<Rightarrow> float64" where
  "f64_div (Fin x) (Fin y) =
     (if y = 0 then (if x = 0 then NaN else if 0 < x then PosInf else NegInf) else f64_rnd (x / y))"
| "f64_div NaN _ = NaN"
| "f64_div _ NaN = NaN"
| "f64_div (Fin x) _ = Fin 0"
| "f64_div PosInf (Fin y) = (if 0 \<le> y then PosInf else NegInf)"
| "f64_div NegInf (Fin y) = (if 0 \<le> y then NegInf else PosInf)"
| "f64_div _ _ = NaN"

fun f64_less :: "float64 \<Rightarrow> float64 \<Rightarrow> bool" where
  "f64_less (Fin x) (Fin y) = (x < y)"
| "f64_less NaN _ = False"
| "f64_less _ NaN = False"
| "f64_less NegInf NegInf = False"
| "f64_less NegInf _ = True"
| "f64_less _ NegInf = False"
| "f64_less PosInf _ = False"
| "f64_less _ PosInf = True"

fun f64_eq :: "float64 \<Rightarrow> float64 \<Rightarrow> bool" where
  "f64_eq NaN _ = False"
| "f64_eq _ NaN = False"
| "f64_eq x y = (x = y)"

definition f64_le :: "float64 \<Rightarrow> float64 \<Rightarrow> bool" where
  "f64_le x y \<longleftrightarrow> f64_less x y \<or> f64_eq x y"

definition f64_of_int :: "int \<Rightarrow> float64" where
  "f64_of_int n = f64_rnd (of_int n)"

section \<open>Powers of two and the binary exponent\<close>

lemma pow2_pos [simp]: "0 < pow2 e"
  by (simp add: pow2_def)

lemma pow2_nonneg [simp]: "0 \<le> pow2 e"
  by (rule less_imp_le [OF pow2_pos])

lemma pow2_neq_0 [simp]: "pow2 e \<noteq> 0"
  by (rule less_imp_neq [THEN not_sym]) simp

lemma pow2_powi: "pow2 e = 2 powi e"
  by (simp add: pow2_def power_int_def power_one_over inverse_eq_divide)

lemma pow2_add: "pow2 (a + b) = pow2 a * pow2 b"
  by (simp add: pow2_powi power_int_add)

lemma pow2_succ: "pow2 (e + 1) = 2 * pow2 e"
  by (simp add: pow2_powi power_int_add)

lemma pow2_mono: "a \<le> b \<Longrightarrow> pow2 a \<le> pow2 b"
  by (simp add: pow2_powi power_int_increasing)

lemma pow2_less_iff: "pow2 a < pow2 b \<longleftrightarrow> a < b"
proof (cases "a < b")
  case True
  then have "2 * pow2 a \<le> pow2 b" using pow2_mono [of "a + 1" b] by (simp add: pow2_succ)
  then have "pow2 a < pow2 b" using pow2_pos [of a] by linarith
  then show ?thesis using True by simp
next
  case False
  then show ?thesis using pow2_mono [of b a] by simp
qed

lemma pow2_nat: "pow2 (int n) = 2 ^ n"
  by (simp add: pow2_def)

lemma nbits_bounds: "0 < n \<Longrightarrow> 2 ^ nbits n \<le> 2 * n \<and> n < 2 ^ nbits n"
proof (induction n rule: nbits.induct)
  case (1 n)
  show ?case
  proof (cases "n div 2 = 0")
    case True
    then have "n = 1" using 1 by auto
    then show ?thesis by (simp add: nbits.simps [of "Suc 0"] nbits.simps [of 0])
  next
    case False
    then have "2 ^ nbits (n div 2) \<le> 2 * (n div 2)" and "n div 2 < 2 ^ nbits (n div 2)"
      using 1 by auto
    moreover have "nbits n = Suc (nbits (n div 2))"
      using 1 by (subst nbits.simps) simp
    ultimately show ?thesis by auto
  qed
qed

lemma ilog2_bounds:
  assumes "0 < r"
  shows "pow2 (ilog2 r) \<le> r" and "r < pow2 (ilog2 r + 1)"
proof -
  obtain p q where pq: "quotient_of r = (p, q)" by (cases "quotient_of r")
  then have r: "r = of_int p / of_int q" and q: "0 < q"
    using quotient_of_div quotient_of_denom_pos by auto
  with assms have p: "0 < p" by (simp add: zero_less_divide_iff)
  define a where "a = nbits (nat p)"
  define b where "b = nbits (nat q)"
  define e where "e = int a - int b"
  have "2 ^ a \<le> 2 * nat p" "nat p < 2 ^ a"
    using nbits_bounds [of "nat p"] p by (auto simp: a_def)
  then have "int (2 ^ a) \<le> int (2 * nat p)" "int (nat p) < int (2 ^ a)"
    by (simp_all only: of_nat_le_iff of_nat_less_iff)
  then have "2 ^ a \<le> 2 * p" "p < 2 ^ a"
    using p by simp_all
  then have "(of_int (2 ^ a) :: rat) \<le> of_int (2 * p)" "(of_int p :: rat) < of_int (2 ^ a)"
    by (simp_all only: of_int_le_iff of_int_less_iff)
  then have pa: "(2::rat) ^ a \<le> 2 * of_int p" "of_int p < (2::rat) ^ a"
    by simp_all
  have "2 ^ b \<le> 2 * nat q" "nat q < 2 ^ b"
    using nbits_bounds [of "nat q"] q by (auto simp: b_def)
  then have "int (2 ^ b) \<le> int (2 * nat q)" "int (nat q) < int (2 ^ b)"
    by (simp_all only: of_nat_le_iff of_nat_less_iff)
  then have "2 ^ b \<le> 2 * q" "q < 2 ^ b"
    using q by simp_all
  then have "(of_int (2 ^ b) :: rat) \<le> of_int (2 * q)" "(of_int q :: rat) < of_int (2 ^ b)"
    by (simp_all only: of_int_le_iff of_int_less_iff)
  then have qb: "(2::rat) ^ b \<le> 2 * of_int q" "of_int q < (2::rat) ^ b"
    by simp_all
  have e_eq: "pow2 e = 2 ^ a / 2 ^ b"
    by (simp add: e_def pow2_powi power_int_diff)
  have il: "ilog2 r = (if r < pow2 e then e - 1 else e)"
    by (simp add: ilog2_def pq e_def a_def b_def)
  have up: "r < pow2 (e + 1)"
  proof -
    have "of_int p * (2::rat) ^ b < 2 ^ a * (2 * of_int q)"
      using pa(2) qb(1) q p by (intro mult_less_le_imp_less) auto
    moreover have "pow2 (e + 1) = 2 * (2 ^ a / 2 ^ b)" by (simp only: pow2_succ e_eq)
    ultimately show ?thesis
      using q by (simp only: r) (simp add: field_simps)
  qed
  have lo: "pow2 (e - 1) \<le> r"
  proof -
    have "(2::rat) ^ a * of_int q \<le> (2 * of_int p) * 2 ^ b"
      using pa(1) qb(2) q p by (intro mult_mono) auto
    then have "2 ^ a / 2 ^ b \<le> 2 * r"
      using q by (simp only: r) (simp add: field_simps)
    moreover have "2 * pow2 (e - 1) = 2 ^ a / 2 ^ b"
      using pow2_succ [of "e - 1"] by (simp add: e_eq)
    ultimately show ?thesis by linarith
  qed
  show "pow2 (ilog2 r) \<le> r" using lo by (simp add: il)
  show "r < pow2 (ilog2 r + 1)" using up by (simp add: il)
qed

lemma ilog2_unique:
  assumes "pow2 k \<le> r" and "r < pow2 (k + 1)"
  shows "ilog2 r = k"
proof -
  have "0 < r" using assms(1) pow2_pos [of k] by linarith
  note b = ilog2_bounds [OF this]
  have "pow2 k < pow2 (ilog2 r + 1)" using assms(1) b(2) by linarith
  moreover have "pow2 (ilog2 r) < pow2 (k + 1)" using assms(2) b(1) by linarith
  ultimately show ?thesis by (simp add: pow2_less_iff)
qed

section \<open>Round to nearest even\<close>

lemma round_even_error: "\<bar>of_int (round_even x) - x\<bar> \<le> 1 / 2"
proof -
  have "of_int \<lfloor>x\<rfloor> \<le> x" and "x < of_int \<lfloor>x\<rfloor> + 1" by linarith+
  then show ?thesis
    by (simp add: round_even_def Let_def abs_le_iff)
qed

lemma round_even_of_int [simp]: "round_even (of_int m) = m"
  by (simp add: round_even_def)

lemma round_even_unique: "\<bar>of_int m - x\<bar> < 1 / 2 \<Longrightarrow> round_even x = m"
proof -
  assume "\<bar>of_int m - x\<bar> < 1 / 2"
  moreover have "\<bar>of_int (round_even x) - x\<bar> \<le> 1 / 2" by (rule round_even_error)
  ultimately have "\<bar>of_int m - of_int (round_even x) :: rat\<bar> < 1" by linarith
  then have "\<bar>m - round_even x\<bar> < 1"
    by (simp only: of_int_diff [symmetric] of_int_abs [symmetric] of_int_less_1_iff)
  then show ?thesis by simp
qed

text \<open>A certificate for one rounding: the binary exponent of the argument and the nearest
  multiple of the unit in the last place.\<close>

lemma f64_rnd_cert:
  assumes "pow2 (e + 52) \<le> x" and "x < pow2 (e + 53)" and "- 1074 \<le> e" and "e \<le> 970"
    and "\<bar>of_int m - x / pow2 e\<bar> < 1 / 2"
  shows "f64_rnd x = Fin (of_int m * pow2 e)"
proof -
  have x: "0 < x" using assms(1) pow2_pos [of "e + 52"] by linarith
  have "ilog2 x = e + 52"
    using assms(1,2) by (intro ilog2_unique) (simp_all add: add.assoc)
  then have e: "ulp_exp x = e"
    using x assms(3) by (simp add: ulp_exp_def)
  have m: "round_even (x / pow2 e) = m"
    using assms(5) by (rule round_even_unique)
  have "x / pow2 e < pow2 53"
    using assms(2) by (simp add: pow2_add divide_less_eq mult.commute)
  then have "of_int m < pow2 53 + 1 / 2" using assms(5) by linarith
  then have mb: "of_int m \<le> pow2 53"
    by (simp add: pow2_def)
  have "pow2 52 \<le> x / pow2 e"
    using assms(1) by (simp add: pow2_add le_divide_eq mult.commute)
  moreover have "1 < pow2 52" by (simp add: pow2_def)
  ultimately have m0: "0 < (of_int m :: rat)" using assms(5) by linarith
  have "of_int m * pow2 e \<le> pow2 53 * pow2 e"
    using mb by (intro mult_right_mono) auto
  also have "\<dots> = pow2 (53 + e)" by (simp add: pow2_add)
  also have "\<dots> \<le> pow2 1023" using assms(4) by (intro pow2_mono) simp
  also have "\<dots> < pow2 1024" by (simp add: pow2_less_iff)
  finally have lt: "of_int m * pow2 e < 2 ^ 1024" by (simp add: pow2_def)
  moreover have "0 < of_int m * pow2 e" using m0 by (intro mult_pos_pos) auto
  moreover have "- (2 ^ 1024) < (0::rat)" by simp
  ultimately have "\<not> of_int m * pow2 e \<le> - (2 ^ 1024)" by linarith
  then show ?thesis
    using lt x e m by (simp add: f64_rnd_def Let_def)
qed

lemma f64_rnd_zero [simp]: "f64_rnd 0 = Fin 0"
  by (simp add: f64_rnd_def)

text \<open>The standard error model for a positive value in the normal range.\<close>

lemma f64_rnd_normal:
  assumes "pow2 (- 1022) \<le> x" and "x < pow2 1000"
  obtains y where "f64_rnd x = Fin y" and "\<bar>y - x\<bar> \<le> pow2 (- 53) * x"
proof -
  have x: "0 < x" using assms(1) pow2_pos [of "- 1022"] by linarith
  define k where "k = ilog2 x"
  have k: "pow2 k \<le> x" "x < pow2 (k + 1)"
    using ilog2_bounds [OF x] by (simp_all add: k_def)
  have "pow2 (- 1022) < pow2 (k + 1)" using assms(1) k(2) by linarith
  then have k1: "- 1022 \<le> k" by (simp add: pow2_less_iff)
  have "pow2 k < pow2 1000" using assms(2) k(1) by linarith
  then have k2: "k < 1000" by (simp add: pow2_less_iff)
  define e where "e = k - 52"
  have e: "ulp_exp x = e"
    using x k1 by (simp add: ulp_exp_def k_def e_def)
  define m where "m = round_even (x / pow2 e)"
  define y where "y = of_int m * pow2 e"
  have "y - x = (of_int m - x / pow2 e) * pow2 e"
    by (simp add: y_def left_diff_distrib)
  then have "\<bar>y - x\<bar> = \<bar>of_int m - x / pow2 e\<bar> * pow2 e"
    by (simp add: abs_mult)
  also have "\<dots> \<le> 1 / 2 * pow2 e"
    using round_even_error [of "x / pow2 e"] by (intro mult_right_mono) (auto simp: m_def)
  also have "\<dots> = pow2 (- 53) * pow2 k"
  proof -
    have "pow2 k = pow2 52 * pow2 e" by (simp add: e_def flip: pow2_add)
    moreover have "pow2 (- 53) * pow2 52 = 1 / 2" by (simp add: pow2_def)
    ultimately show ?thesis by (metis mult.assoc)
  qed
  also have "\<dots> \<le> pow2 (- 53) * x" using k(1) by (intro mult_left_mono) auto
  finally have err: "\<bar>y - x\<bar> \<le> pow2 (- 53) * x" .
  have "pow2 (- 53) * x \<le> 1 * x"
    using x by (intro mult_right_mono) (auto simp: pow2_def)
  with err have "0 \<le> y" and "y \<le> 2 * x" by linarith+
  have "2 * x < 2 * pow2 1000" using assms(2) by simp
  also have "\<dots> = pow2 1001" by (simp add: pow2_def)
  also have "\<dots> < pow2 1024" by (simp add: pow2_less_iff)
  finally have "y < 2 ^ 1024" using \<open>y \<le> 2 * x\<close> by (simp add: pow2_def)
  moreover have "- (2 ^ 1024) < (0::rat)" by simp
  then have "\<not> y \<le> - (2 ^ 1024)" using \<open>0 \<le> y\<close> by linarith
  ultimately have "f64_rnd x = Fin y"
    using x e by (simp add: f64_rnd_def Let_def m_def y_def)
  then show ?thesis using err by (rule that)
qed

section \<open>Exact results\<close>

lemma f64_rnd_exact:
  assumes x: "x = of_int m * pow2 e" "0 < x" and m: "m < 2 ^ 53"
    and e: "- 1074 \<le> e" "e \<le> 900"
  shows "f64_rnd x = Fin x"
proof -
  have "of_int m < (of_int (2 ^ 53) :: rat)" using m by (simp only: of_int_less_iff)
  then have "of_int m < pow2 53" by (simp add: pow2_def)
  then have ub: "x < pow2 (53 + e)"
    by (simp add: x(1) pow2_add)
  have "pow2 (ilog2 x) < pow2 (53 + e)" using ilog2_bounds(1) [OF x(2)] ub by linarith
  then have le: "ulp_exp x \<le> e" using e(1) x(2) by (simp add: ulp_exp_def pow2_less_iff)
  define d where "d = nat (e - ulp_exp x)"
  have "pow2 e = pow2 (int d) * pow2 (ulp_exp x)"
    using le by (simp add: d_def flip: pow2_add)
  then have "x = of_int (m * 2 ^ d) * pow2 (ulp_exp x)"
    by (subst x(1)) (simp add: pow2_nat)
  then have "x / pow2 (ulp_exp x) = of_int (m * 2 ^ d)"
    by (metis nonzero_mult_div_cancel_right pow2_neq_0)
  then have r: "of_int (round_even (x / pow2 (ulp_exp x))) * pow2 (ulp_exp x) = x"
    by (simp only: round_even_of_int) (metis divide_eq_eq pow2_neq_0)
  have "pow2 (53 + e) < pow2 1024" using e(2) by (simp add: pow2_less_iff)
  then have "x < 2 ^ 1024" using ub by (simp add: pow2_def)
  moreover have "- (2 ^ 1024) < (0::rat)" by simp
  then have "\<not> x \<le> - (2 ^ 1024)" using x(2) by linarith
  ultimately show ?thesis using x(2) r by (simp add: f64_rnd_def Let_def)
qed

lemma f64_rnd_numeral: "m < 2 ^ 53 \<Longrightarrow> 0 < m \<Longrightarrow> f64_rnd (of_int m) = Fin (of_int m)"
  by (rule f64_rnd_exact [of _ m 0]) (simp_all add: pow2_def)

lemma f64_rnd_half: "m < 2 ^ 53 \<Longrightarrow> 0 < m \<Longrightarrow> f64_rnd (of_int m / 2) = Fin (of_int m / 2)"
  by (rule f64_rnd_exact [of _ m "- 1"]) (simp_all add: pow2_def)

lemma f64_of_int_exact: "m < 2 ^ 53 \<Longrightarrow> 0 \<le> m \<Longrightarrow> f64_of_int m = Fin (of_int m)"
  by (cases "m = 0") (simp_all add: f64_of_int_def f64_rnd_numeral)

text \<open>Rounding a second time changes nothing: a result is a \<open>float64\<close> value.\<close>

lemma f64_rnd_again:
  assumes "0 \<le> x" "x < pow2 800" "f64_rnd x = Fin y"
  shows "f64_rnd y = Fin y"
proof (cases "x = 0")
  case False
  then have x: "0 < x" using assms(1) by simp
  define e where "e = ulp_exp x"
  define m where "m = round_even (x / pow2 e)"
  have y: "y = of_int m * pow2 e"
    using assms(3) x by (auto simp: f64_rnd_def Let_def m_def e_def split: if_splits)
  note k = ilog2_bounds[OF x]
  have "pow2 (ilog2 x) < pow2 800" using k(1) assms(2) by linarith
  then have e: "- 1074 \<le> e" "e \<le> 800" "ilog2 x - 52 \<le> e" using x by (simp_all add: e_def ulp_exp_def pow2_less_iff)
  have "x < pow2 (53 + e)" using k(2) pow2_mono[of "ilog2 x + 1" "53 + e"] e(3) by linarith
  then have "x / pow2 e < pow2 53" by (simp add: pow2_add divide_less_eq)
  then have "of_int m < pow2 53 + 1" "- 1 < (of_int m :: rat)"
    using round_even_error[of "x / pow2 e"] divide_nonneg_nonneg[OF assms(1) pow2_nonneg[of e]] unfolding m_def abs_le_iff by linarith+
  then have "of_int m < (of_int (2 ^ 53 + 1) :: rat)" "of_int (- 1) < (of_int m :: rat)" by (simp_all add: pow2_def)
  then have m: "m < 2 ^ 53 + 1" "- 1 < m" by (simp_all only: of_int_less_iff)
  consider "m = 0" | "m = 2 ^ 53" | "0 < m" "m < 2 ^ 53" using m by linarith
  then show ?thesis
  proof cases
    case 2
    then have "y = of_int 1 * pow2 (53 + e)" by (simp add: y pow2_add) (simp add: pow2_def)
    then show ?thesis using e by (intro f64_rnd_exact[of y 1 "53 + e"]) simp_all
  next
    case 3
    then show ?thesis using e y by (intro f64_rnd_exact[of y m e]) simp_all
  qed (simp add: y)
qed (use assms(3) in simp)

section \<open>Accumulated sums\<close>

text \<open>\<open>u64\<close> is the unit roundoff. \<open>tally_bound P c s\<close>: \<open>s\<close> is what \<open>c\<close> additions can make of
  powers whose exact sum is \<open>P\<close>.\<close>

definition u64 :: rat where
  "u64 = pow2 (- 53)"

definition tally_bound :: "rat \<Rightarrow> nat \<Rightarrow> rat \<Rightarrow> bool" where
  "tally_bound P c s \<longleftrightarrow> P * (1 - u64) ^ c \<le> s \<and> s \<le> P * (1 + u64) ^ c"

lemma u64_bounds [simp]: "0 < u64" "0 \<le> u64" "u64 \<le> 1" "u64 < 1" "0 \<le> 1 - u64" "0 \<le> 1 + u64"
  by (simp_all add: u64_def pow2_def)

lemma f64_add_step:
  assumes "0 \<le> s" and "pow2 (- 1000) \<le> p" and "s + p < pow2 1000"
  obtains y where "f64_add (Fin s) (Fin p) = Fin y"
    and "(s + p) * (1 - u64) \<le> y" and "y \<le> (s + p) * (1 + u64)"
proof -
  have "pow2 (- 1022) \<le> pow2 (- 1000)" by (rule pow2_mono) simp
  then have "pow2 (- 1022) \<le> s + p" using assms(1,2) by linarith
  from f64_rnd_normal [OF this assms(3)]
  obtain y where y: "f64_rnd (s + p) = Fin y" and e: "\<bar>y - (s + p)\<bar> \<le> pow2 (- 53) * (s + p)"
    by blast
  show ?thesis
  proof (rule that)
    show "f64_add (Fin s) (Fin p) = Fin y" using y by simp
    show "(s + p) * (1 - u64) \<le> y" using e by (simp add: u64_def abs_le_iff algebra_simps)
    show "y \<le> (s + p) * (1 + u64)" using e by (simp add: u64_def abs_le_iff algebra_simps)
  qed
qed

lemma tally_bound_0 [simp]: "tally_bound 0 0 0"
  by (simp add: tally_bound_def)

lemma tally_bound_nonneg: "tally_bound P c s \<Longrightarrow> 0 \<le> P \<Longrightarrow> 0 \<le> s"
  unfolding tally_bound_def by (meson mult_nonneg_nonneg order_trans u64_bounds(5) zero_le_power)

lemma tally_bound_step:
  assumes "tally_bound P c s" and P: "0 \<le> P" and p: "pow2 (- 1000) \<le> p" "s + p < pow2 1000"
  obtains y where "f64_add (Fin s) (Fin p) = Fin y" and "tally_bound (P + p) (Suc c) y"
proof -
  have p0: "0 \<le> p" using p(1) pow2_pos [of "- 1000"] by linarith
  have s: "P * (1 - u64) ^ c \<le> s" "s \<le> P * (1 + u64) ^ c"
    using assms(1) by (simp_all add: tally_bound_def)
  have "0 \<le> s" using assms(1) P by (rule tally_bound_nonneg)
  from f64_add_step [OF this p] obtain y where y: "f64_add (Fin s) (Fin p) = Fin y"
    and lo: "(s + p) * (1 - u64) \<le> y" and hi: "y \<le> (s + p) * (1 + u64)" by blast
  have "p * (1 - u64) ^ c \<le> p * 1" using p0 by (intro mult_left_mono power_le_one) auto
  then have "(P + p) * (1 - u64) ^ c \<le> s + p" using s(1) by (simp add: distrib_right)
  then have "(P + p) * (1 - u64) ^ c * (1 - u64) \<le> (s + p) * (1 - u64)"
    by (rule mult_right_mono) simp
  from order_trans [OF this lo] have lo': "(P + p) * (1 - u64) ^ Suc c \<le> y"
    by (simp add: ac_simps)
  have "p * 1 \<le> p * (1 + u64) ^ c" using p0 by (intro mult_left_mono one_le_power) auto
  then have "s + p \<le> (P + p) * (1 + u64) ^ c" using s(2) by (simp add: distrib_right)
  then have "(s + p) * (1 + u64) \<le> (P + p) * (1 + u64) ^ c * (1 + u64)"
    by (rule mult_right_mono) simp
  from order_trans [OF hi this] have "y \<le> (P + p) * (1 + u64) ^ Suc c"
    by (simp add: ac_simps)
  with lo' y show ?thesis by (intro that) (auto simp: tally_bound_def)
qed

text \<open>For up to ten thousand additions the accumulated relative error stays below one in a
  thousand million.\<close>

lemma one_plus_u64_power:
  assumes "c \<le> 10000"
  shows "(1 + u64) ^ c \<le> 1 + 1 / 1000000000"
proof -
  have main: "(1 + u64) ^ c \<le> 1 + 2 * of_nat c * u64" if "of_nat c * u64 \<le> 1 / 2" for c
    using that
  proof (induction c)
    case 0
    then show ?case by simp
  next
    case (Suc c)
    have cu: "of_nat c * u64 \<le> 1 / 2 - u64" using Suc.prems by (simp add: algebra_simps)
    then have "(1 + u64) ^ c \<le> 1 + 2 * of_nat c * u64"
      using u64_bounds(1) by (intro Suc.IH) linarith
    then have "(1 + u64) ^ c * (1 + u64) \<le> (1 + 2 * of_nat c * u64) * (1 + u64)"
      by (rule mult_right_mono) simp
    then have "(1 + u64) ^ Suc c \<le> (1 + 2 * of_nat c * u64) * (1 + u64)"
      by (simp only: power_Suc2)
    also have "\<dots> = 1 + 2 * (of_nat c * u64) + (1 + 2 * (of_nat c * u64)) * u64"
      by (simp add: algebra_simps)
    also have "\<dots> \<le> 1 + 2 * (of_nat c * u64) + 2 * u64"
      using cu u64_bounds(1) by (intro add_left_mono mult_right_mono) linarith+
    finally show ?case by (simp add: algebra_simps)
  qed
  have "of_nat c * u64 \<le> of_nat 10000 * u64"
    using assms by (intro mult_right_mono) (simp_all only: of_nat_le_iff u64_bounds)
  also have "\<dots> \<le> 1 / 2000000000" by (simp add: u64_def pow2_def)
  finally have c: "of_nat c * u64 \<le> 1 / 2000000000" .
  then have "(1 + u64) ^ c \<le> 1 + 2 * of_nat c * u64" by (intro main) linarith
  also have "\<dots> \<le> 1 + 1 / 1000000000" using c by (simp add: mult.assoc)
  finally show ?thesis .
qed

end
