(* ===== verification/Prelude.thy ===== *)
theory Prelude
  imports Float64 "HOL-Library.Word" "HOL-Library.List_Lexorder"
begin

text \<open>
  The Go vocabulary shared by every component. Bytes are 8-bit words; a byte slice is a list of
  bytes; \<open>bytes.Compare\<close> is the lexicographic order of lists. Signed integers are \<open>int\<close> with the
  two's complement wrap-around written out where the source adds or subtracts. A run-time panic is
  \<open>None\<close> and a normal return is \<open>Some\<close>; a nil pointer is \<open>None\<close> of an option-valued field; a
  returned \<open>error\<close> is an option or a sum over the error type of the component.
\<close>

unbundle bit_operations_syntax

named_theorems go_simps \<open>unfolding rules for the Go primitives\<close>
named_theorems go_intros \<open>introduction rules for invariants of the model\<close>

type_synonym byte = "8 word"
type_synonym bytes = "byte list"

section \<open>Integers\<close>

definition wrap :: "nat \<Rightarrow> int \<Rightarrow> int" where
  "wrap w x = (x + 2 ^ (w - 1)) mod 2 ^ w - 2 ^ (w - 1)"

definition in_range :: "nat \<Rightarrow> int \<Rightarrow> bool" where
  "in_range w x \<longleftrightarrow> - (2 ^ (w - 1)) \<le> x \<and> x < 2 ^ (w - 1)"

definition add64 :: "int \<Rightarrow> int \<Rightarrow> int" where
  "add64 a b = wrap 64 (a + b)"

definition sub64 :: "int \<Rightarrow> int \<Rightarrow> int" where
  "sub64 a b = wrap 64 (a - b)"

definition add32 :: "int \<Rightarrow> int \<Rightarrow> int" where
  "add32 a b = wrap 32 (a + b)"

definition MaxInt32 :: int where "MaxInt32 = 2147483647"
definition MinInt32 :: int where "MinInt32 = - 2147483648"
definition MaxInt64 :: int where "MaxInt64 = 9223372036854775807"

lemma wrap_id: "0 < w \<Longrightarrow> in_range w x \<Longrightarrow> wrap w x = x"
proof -
  assume w: "0 < w" and "in_range w x"
  then have "0 \<le> x + 2 ^ (w - 1)" "x + 2 ^ (w - 1) < 2 * 2 ^ (w - 1)"
    by (simp_all add: in_range_def)
  moreover have "(2::int) ^ w = 2 * 2 ^ (w - 1)"
    using w by (simp add: power_eq_if)
  ultimately show ?thesis by (simp add: wrap_def)
qed

lemma wrap_in_range: "0 < w \<Longrightarrow> in_range w (wrap w x)"
proof -
  assume w: "0 < w"
  have e: "(2::int) ^ w = 2 * 2 ^ (w - 1)" using w by (simp add: power_eq_if)
  have "0 \<le> (x + 2 ^ (w - 1)) mod 2 ^ w" "(x + 2 ^ (w - 1)) mod 2 ^ w < 2 ^ w"
    by simp_all
  then show ?thesis unfolding in_range_def wrap_def e by linarith
qed

lemma add64_small [go_simps]: "- 9223372036854775808 \<le> a + b \<Longrightarrow> a + b < 9223372036854775808 \<Longrightarrow> add64 a b = a + b"
  by (simp add: add64_def wrap_id in_range_def)

lemma add64_nat: "a + b < 2 ^ 63 \<Longrightarrow> add64 (int a) (int b) = int (a + b)"
  by (simp add: add64_small)

lemma sub64_small [go_simps]: "- 9223372036854775808 \<le> a - b \<Longrightarrow> a - b < 9223372036854775808 \<Longrightarrow> sub64 a b = a - b"
  by (simp add: sub64_def wrap_id in_range_def)

lemma add32_small [go_simps]: "- 2147483648 \<le> a + b \<Longrightarrow> a + b < 2147483648 \<Longrightarrow> add32 a b = a + b"
  by (simp add: add32_def wrap_id in_range_def)

text \<open>Go's integer division truncates towards zero.\<close>

definition go_div :: "int \<Rightarrow> int \<Rightarrow> int" where
  "go_div a b = sgn a * sgn b * (\<bar>a\<bar> div \<bar>b\<bar>)"

definition go_mod :: "int \<Rightarrow> int \<Rightarrow> int" where
  "go_mod a b = a - b * go_div a b"

lemma go_div_nonneg [go_simps]: "0 \<le> a \<Longrightarrow> 0 < b \<Longrightarrow> go_div a b = a div b"
  by (cases "a = 0") (simp_all add: go_div_def)

lemma go_mod_nonneg [go_simps]: "0 \<le> a \<Longrightarrow> 0 < b \<Longrightarrow> go_mod a b = a mod b"
  by (simp add: go_mod_def go_div_nonneg minus_mult_div_eq_mod)

section \<open>Slices\<close>

text \<open>Indexing and assignment panic outside \<open>[0, len)\<close>.\<close>

definition slice_get :: "'a list \<Rightarrow> int \<Rightarrow> 'a option" where
  "slice_get xs i = (if 0 \<le> i \<and> i < int (length xs) then Some (xs ! nat i) else None)"

definition slice_set :: "'a list \<Rightarrow> int \<Rightarrow> 'a \<Rightarrow> 'a list option" where
  "slice_set xs i v = (if 0 \<le> i \<and> i < int (length xs) then Some (xs[nat i := v]) else None)"

lemma slice_get_eq_Some:
  "slice_get xs i = Some x \<longleftrightarrow> 0 \<le> i \<and> i < int (length xs) \<and> xs ! nat i = x"
  by (auto simp: slice_get_def)

lemma slice_get_in [go_simps]: "0 \<le> i \<Longrightarrow> i < int (length xs) \<Longrightarrow> slice_get xs i = Some (xs ! nat i)"
  by (simp add: slice_get_def)

lemma slice_set_eq_Some:
  "slice_set xs i v = Some ys \<longleftrightarrow> 0 \<le> i \<and> i < int (length xs) \<and> ys = xs[nat i := v]"
  by (auto simp: slice_set_def)

lemma slice_set_in [go_simps]:
  "0 \<le> i \<Longrightarrow> i < int (length xs) \<Longrightarrow> slice_set xs i v = Some (xs[nat i := v])"
  by (simp add: slice_set_def)

text \<open>\<open>copy(dst, src)\<close> overwrites the common prefix of the destination.\<close>

definition slice_copy :: "'a list \<Rightarrow> 'a list \<Rightarrow> 'a list" where
  "slice_copy dst src = take (length dst) src @ drop (length src) dst"

lemma length_slice_copy [simp]: "length (slice_copy dst src) = length dst"
  by (simp add: slice_copy_def)

lemma slice_copy_nth: "i < length dst \<Longrightarrow> slice_copy dst src ! i = (if i < length src then src ! i else dst ! i)"
  by (auto simp: slice_copy_def nth_append)

lemma nth_update_iff: "xs[i := x] ! j = (if i = j \<and> j < length xs then x else xs ! j)"
  by (cases "i < length xs") (auto simp: nth_list_update not_less list_update_beyond)

section \<open>Counting\<close>

text \<open>Number of non-nil entries of a slice of pointers, and a weighted count over them.\<close>

definition count_some :: "'a option list \<Rightarrow> nat" where
  "count_some xs = length (filter (\<lambda>x. x \<noteq> None) xs)"

fun weight_some :: "rat list \<Rightarrow> 'a option list \<Rightarrow> rat" where
  "weight_some (w # ws) (x # xs) = (if x = None then 0 else w) + weight_some ws xs"
| "weight_some _ _ = 0"

lemma count_some_replicate_None [simp]: "count_some (replicate n None) = 0"
  by (simp add: count_some_def)

lemma count_some_le: "count_some xs \<le> length xs"
  by (simp add: count_some_def)

lemma count_some_update:
  "i < length xs \<Longrightarrow> xs ! i = None \<Longrightarrow> count_some (xs[i := Some v]) = Suc (count_some xs)"
  by (induction xs arbitrary: i) (auto simp: count_some_def split: nat.splits)

lemma count_some_full: "count_some xs = length xs \<longleftrightarrow> None \<notin> set xs"
proof (induction xs)
  case (Cons x xs)
  have "count_some (None # xs) = count_some xs" "\<And>y. count_some (Some y # xs) = Suc (count_some xs)"
    by (simp_all add: count_some_def)
  then show ?case using Cons count_some_le[of xs] by (cases x) auto
qed (simp add: count_some_def)

lemma count_some_card: "count_some xs = card {i. i < length xs \<and> xs ! i \<noteq> None}"
  by (simp add: count_some_def length_filter_conv_card)

lemma weight_some_replicate_None [simp]: "weight_some ws (replicate n None) = 0"
proof (induction ws arbitrary: n)
  case Nil
  then show ?case by simp
next
  case (Cons w ws)
  then show ?case by (cases n) auto
qed

lemma weight_some_update:
  "length ws = length xs \<Longrightarrow> i < length xs \<Longrightarrow> xs ! i = None \<Longrightarrow>
   weight_some ws (xs[i := Some v]) = weight_some ws xs + ws ! i"
proof (induction ws xs arbitrary: i rule: weight_some.induct)
  case (1 w ws x xs)
  then show ?case by (cases i) auto
qed auto

lemma weight_some_nonneg: "\<forall>w\<in>set ws. 0 \<le> w \<Longrightarrow> 0 \<le> weight_some ws xs"
  by (induction ws xs rule: weight_some.induct) auto

lemma weight_some_const: "length ws = length xs \<Longrightarrow> \<forall>w\<in>set ws. w = p \<Longrightarrow> weight_some ws xs = of_nat (count_some xs) * p"
  by (induction ws xs rule: weight_some.induct) (auto simp: count_some_def algebra_simps)

section \<open>Options\<close>

lemma bind_SomeI: "m = Some x \<Longrightarrow> f x = r \<Longrightarrow> Option.bind m f = r"
  by simp

lemma those_map_Some: "(\<And>x. x \<in> set xs \<Longrightarrow> f x = Some (g x)) \<Longrightarrow> those (map f xs) = Some (map g xs)"
  by (induction xs) auto

lemmas bind_Some = Option.bind_eq_Some_conv

end
