(* ===== verification/Wire.thy ===== *)
theory Wire
  imports Prelude
begin

text \<open>
  The protobuf wire format as the generated code under \<open>proto/types\<close> reads and writes it, and the
  length-delimited framing of \<open>libs/protoio\<close>. The generated \<open>Marshal\<close> functions fill a buffer from its
  end; the model appends the same fields in the order they have in the buffer. The generated
  \<open>Unmarshal\<close> functions are one template: \<open>unmarshalLoop\<close> is the template, a message gives it the wire
  type of each of its fields and what each value does to the message. The unread suffix of the buffer
  stands for the index \<open>iNdEx\<close>.
\<close>

datatype wire_error =
    ErrIntOverflow | ErrUnexpectedEOF | ErrInvalidLength | ErrUnexpectedEndOfGroup
  | ErrEndGroup | ErrIllegalTag | ErrWrongWireType | ErrIllegalWireType | ErrTime

section \<open>Varints\<close>

function putUvarint :: "64 word \<Rightarrow> bytes" where
  "putUvarint v = (if v < 0x80 then [ucast v] else ucast (v AND 0x7f OR 0x80) # putUvarint (drop_bit 7 v))"
  by auto
termination
proof (relation "measure unat")
  fix v :: "64 word"
  assume "\<not> v < 0x80"
  then have "unat v \<ge> 128" by (simp add: word_less_nat_alt)
  then show "(drop_bit 7 v, v) \<in> measure unat"
    by (simp add: unat_drop_bit_eq[symmetric, unfolded drop_bit_eq_div] unat_div drop_bit_eq_div)
qed simp

declare putUvarint.simps [simp del]

fun readVarint :: "nat \<Rightarrow> 64 word \<Rightarrow> bytes \<Rightarrow> wire_error + (64 word \<times> bytes)" where
  "readVarint shift acc bs =
     (if 64 \<le> shift then Inl ErrIntOverflow
      else case bs of
        [] \<Rightarrow> Inl ErrUnexpectedEOF
      | b # r \<Rightarrow>
          let acc' = acc OR push_bit shift (ucast (b AND 0x7f))
          in if b < 0x80 then Inr (acc', r) else readVarint (shift + 7) acc' r)"

declare readVarint.simps [simp del]

definition putUint64 :: "64 word \<Rightarrow> bytes" where
  "putUint64 v = map (\<lambda>i. ucast (drop_bit (8 * i) v)) [0..<8]"

definition getUint64 :: "bytes \<Rightarrow> 64 word" where
  "getUint64 bs = foldr (\<lambda>b w. push_bit 8 w OR ucast b) (take 8 bs) 0"

lemma readVarint_shorter:
  "readVarint s a bs = Inr (v, r) \<Longrightarrow> length r < length bs"
proof (induction s a bs rule: readVarint.induct)
  case (1 s a bs)
  show ?case
  proof (cases bs)
    case Nil
    then show ?thesis using 1(2) by (simp add: readVarint.simps[of _ _ "[]"] split: if_splits)
  next
    case (Cons b r')
    then show ?thesis
      using 1(2) 1(1)[OF _ Cons refl]
      by (fastforce simp: readVarint.simps[of _ _ "b # r'"] Let_def split: if_splits)
  qed
qed

lemma bit_0x7f [simp]: "bit (127 :: nat) n \<longleftrightarrow> n < 7" "bit (127 :: int) n \<longleftrightarrow> n < 7"
proof -
  have "(127 :: nat) = mask 7" "(127 :: int) = mask 7" by (simp_all add: mask_eq_exp_minus_1)
  then show "bit (127 :: nat) n \<longleftrightarrow> n < 7" "bit (127 :: int) n \<longleftrightarrow> n < 7"
    by (simp_all only: bit_mask_iff) auto
qed

lemma bit_0x80 [simp]: "bit (128 :: nat) n \<longleftrightarrow> n = 7" "bit (128 :: int) n \<longleftrightarrow> n = 7"
proof -
  have "(128 :: nat) = push_bit 7 1" "(128 :: int) = push_bit 7 1" by simp_all
  then show "bit (128 :: nat) n \<longleftrightarrow> n = 7" "bit (128 :: int) n \<longleftrightarrow> n = 7"
    by (auto simp only: bit_push_bit_iff bit_1_iff possible_bit_def) auto
qed

lemma byte_less_0x80: "(b :: byte) < 0x80 \<longleftrightarrow> \<not> bit b 7"
proof -
  have "b < 0x80 \<longleftrightarrow> unat b div 2 ^ 7 = 0" by (auto simp: word_less_nat_alt div_eq_0_iff)
  also have "\<dots> \<longleftrightarrow> \<not> odd (unat b div 2 ^ 7)"
  proof -
    have "unat b < 2 ^ 8" using unsigned_less[of b] by simp
    then have "unat b div 2 ^ 7 < 2" by simp
    then show ?thesis by (cases "unat b div 2 ^ 7") auto
  qed
  also have "\<dots> \<longleftrightarrow> \<not> bit b 7" 
    unfolding bit_iff_odd[of "unat b" 7, symmetric] by (simp add: bit_unsigned_iff)
  finally show ?thesis .
qed

lemma low_byte_bits:
  fixes v :: "64 word"
  shows "ucast (ucast (v AND 0x7f OR 0x80) AND 0x7f :: byte) = v AND 0x7f"
    and "\<not> (ucast (v AND 0x7f OR 0x80) :: byte) < 0x80"
proof -
  show "ucast (ucast (v AND 0x7f OR 0x80) AND 0x7f :: byte) = v AND 0x7f"
    by (rule bit_word_eqI) (auto simp: bit_simps)
  show "\<not> (ucast (v AND 0x7f OR 0x80) :: byte) < 0x80"
    by (simp add: byte_less_0x80 bit_simps)
qed

lemma small_byte:
  fixes v :: "64 word"
  assumes "v < 0x80"
  shows "(ucast v :: byte) < 0x80" and "ucast (ucast v AND 0x7f :: byte) = v" and "ucast (ucast v :: byte) = v"
proof -
  have "unat v < 2 ^ 7" using assms by (simp add: word_less_nat_alt)
  then have v: "take_bit 7 v = v"
    by (simp add: word_unat_eq_iff unsigned_take_bit_eq take_bit_nat_eq_self)
  have b: "bit v n \<Longrightarrow> n < 7" for n
    by (metis bit_take_bit_iff v)
  show "(ucast v :: byte) < 0x80" using b[of 7] by (auto simp: byte_less_0x80 bit_simps)
  show "ucast (ucast v AND 0x7f :: byte) = v"
    by (rule bit_word_eqI) (auto simp: bit_simps dest: b)
  show "ucast (ucast v :: byte) = v"
    by (rule bit_word_eqI) (auto simp: bit_simps dest: b)
qed

lemma split_varint:
  fixes acc v :: "64 word"
  shows "(acc OR push_bit s (v AND 0x7f)) OR push_bit (s + 7) (drop_bit 7 v) = acc OR push_bit s v"
proof (rule bit_word_eqI)
  fix n
  show "bit ((acc OR push_bit s (v AND 0x7f)) OR push_bit (s + 7) (drop_bit 7 v)) n = bit (acc OR push_bit s v) n"
  proof (cases "s + 7 \<le> n")
    case True
    then have "7 + (n - (s + 7)) = n - s" by simp
    with True show ?thesis by (auto simp: bit_simps)
  next
    case False
    then have "n - s < 7" by auto
    with False show ?thesis by (auto simp: bit_simps)
  qed
qed

lemma readVarint_putUvarint_gen:
  "unat v < 2 ^ (64 - s) \<Longrightarrow> s < 64 \<Longrightarrow>
   readVarint s acc (putUvarint v @ r) = Inr (acc OR push_bit s v, r)"
proof (induction v arbitrary: s acc rule: putUvarint.induct)
  case (1 v)
  show ?case
  proof (cases "v < 0x80")
    case True
    then show ?thesis using 1(3)
      by (simp add: putUvarint.simps[of v] readVarint.simps[of s] small_byte)
  next
    case False
    then have big: "128 \<le> unat v" by (simp add: word_less_nat_alt)
    then have "(2::nat) ^ 7 < 2 ^ (64 - s)" using 1(2) by simp
    then have s: "7 < 64 - s" by (metis power_less_imp_less_exp one_less_numeral_iff semiring_norm(76))
    have "unat (drop_bit 7 v) < 2 ^ (64 - (s + 7))"
    proof -
      have "(2::nat) ^ (64 - s) = 2 ^ (64 - (s + 7)) * 2 ^ 7" using s
        by (metis (no_types) add.commute diff_add diff_diff_left less_imp_le power_add)
      then have "unat v div 2 ^ 7 < 2 ^ (64 - (s + 7))"
        using 1(2) by (simp only: less_mult_imp_div_less)
      then show ?thesis by (simp add: unat_div drop_bit_eq_div)
    qed
    then have "readVarint (s + 7) (acc OR push_bit s (v AND 0x7f)) (putUvarint (drop_bit 7 v) @ r)
        = Inr (acc OR push_bit s v, r)"
      using 1(1)[OF False] s by (simp add: split_varint del: push_bit_and)
    then show ?thesis
      using 1(3) False by (simp add: putUvarint.simps[of v] readVarint.simps[of s] low_byte_bits)
  qed
qed

lemma readVarint_putUvarint [simp]: "readVarint 0 0 (putUvarint v @ r) = Inr (v, r)"
  using readVarint_putUvarint_gen[of v 0 0 r] unsigned_less[of v] by simp


section \<open>Fixed-width fields\<close>

lemma join_byte:
  fixes v :: "64 word"
  shows "push_bit 8 (drop_bit (8 + k) v) OR ucast (ucast (drop_bit k v) :: byte) = drop_bit k v"
proof (rule bit_word_eqI)
  fix n
  show "bit (push_bit 8 (drop_bit (8 + k) v) OR ucast (ucast (drop_bit k v) :: byte)) n = bit (drop_bit k v) n"
  proof (cases "8 \<le> n")
    case True
    then have "8 + k + (n - 8) = k + n" by simp
    with True show ?thesis by (auto simp: bit_simps dest: bit_imp_le_length)
  next
    case False
    then show ?thesis by (auto simp: bit_simps)
  qed
qed

lemma fold_bytes:
  "k \<le> 8 \<Longrightarrow> foldr (\<lambda>b w. push_bit 8 w OR ucast b) (map (\<lambda>i. ucast (drop_bit (8 * i) v) :: byte) [k..<8]) (0 :: 64 word)
     = drop_bit (8 * k) v"
proof (induction rule: inc_induct)
  case base
  have "drop_bit 64 v = 0" by (rule bit_word_eqI) (simp add: bit_simps)
  then show ?case by simp
next
  case (step k)
  then have "[k..<8] = k # [Suc k..<8]" by (simp add: upt_conv_Cons)
  then show ?case using step join_byte[of "8 * k" v] by simp
qed

lemma getUint64_putUint64 [simp]: "getUint64 (putUint64 v @ r) = v"
  using fold_bytes[of 0 v] by (simp add: getUint64_def putUint64_def)

lemma length_putUint64 [simp]: "length (putUint64 v) = 8"
  by (simp add: putUint64_def)

section \<open>Reading one field\<close>

datatype wire_val = Varint "64 word" | Fixed64 "64 word" | Fixed32 bytes | LenBytes bytes

text \<open>\<open>l\<close> is the length of the whole buffer: \<open>iNdEx\<close> is \<open>l\<close> minus the unread length, and an end index
  past the largest \<open>int\<close> wraps to a negative one.\<close>

definition readLen :: "nat \<Rightarrow> bytes \<Rightarrow> wire_error + (bytes \<times> bytes)" where
  "readLen l bs =
     (case readVarint 0 0 bs of
        Inl e \<Rightarrow> Inl e
      | Inr (w, r) \<Rightarrow>
          let n = sint w
          in if n < 0 then Inl ErrInvalidLength
             else if MaxInt64 < int (l - length r) + n then Inl ErrInvalidLength
             else if int (length r) < n then Inl ErrUnexpectedEOF
             else Inr (take (nat n) r, drop (nat n) r))"

definition readField :: "nat \<Rightarrow> nat \<Rightarrow> bytes \<Rightarrow> wire_error + (wire_val \<times> bytes)" where
  "readField l wt bs =
     (if wt = 0 then case readVarint 0 0 bs of Inl e \<Rightarrow> Inl e | Inr (w, r) \<Rightarrow> Inr (Varint w, r)
      else if wt = 1 then
        if length bs < 8 then Inl ErrUnexpectedEOF else Inr (Fixed64 (getUint64 bs), drop 8 bs)
      else if wt = 2 then case readLen l bs of Inl e \<Rightarrow> Inl e | Inr (b, r) \<Rightarrow> Inr (LenBytes b, r)
      else if wt = 5 then
        if length bs < 4 then Inl ErrUnexpectedEOF else Inr (Fixed32 (take 4 bs), drop 4 bs)
      else Inl ErrIllegalWireType)"

lemma readLen_shorter: "readLen l bs = Inr (b, r) \<Longrightarrow> length r \<le> length bs"
  by (auto simp: readLen_def Let_def split: sum.splits prod.splits if_splits dest!: readVarint_shorter)

lemma readField_shorter: "readField l wt bs = Inr (v, r) \<Longrightarrow> length r \<le> length bs"
  by (auto simp: readField_def split: sum.splits prod.splits if_splits
      dest: readVarint_shorter readLen_shorter)

text \<open>\<open>skipCanonical\<close>: skips one field, or one group with everything nested in it. It runs on the
  slice from the field's first byte \<open>p\<close>, so an index inside a group is relative to \<open>p\<close>; the end of
  the field itself is checked by the caller against the whole buffer.\<close>

function skipField :: "nat \<Rightarrow> nat \<Rightarrow> nat \<Rightarrow> bytes \<Rightarrow> wire_error + bytes" where
  "skipField l p depth bs =
     (if bs = [] then Inl ErrUnexpectedEOF
      else case readVarint 0 0 bs of
        Inl e \<Rightarrow> Inl e
      | Inr (w, r) \<Rightarrow>
          let wt = unat (w AND 7)
          in if wt = 3 then skipField l p (depth + 1) r
             else if wt = 4 then
               if depth = 0 then Inl ErrUnexpectedEndOfGroup
               else if depth = 1 then Inr r else skipField l p (depth - 1) r
             else case readField (if depth = 0 then l else l - p) wt r of
                 Inl e \<Rightarrow> Inl e
               | Inr (_, r') \<Rightarrow> if depth = 0 then Inr r' else skipField l p depth r')"
  by auto
termination
  by (relation "measure (\<lambda>(l, p, d, bs). length bs)") (auto dest!: readVarint_shorter readField_shorter)

declare skipField.simps [simp del]

lemma skipField_shorter: "skipField l p d bs = Inr r \<Longrightarrow> length r < length bs"
proof (induction l p d bs rule: skipField.induct)
  case (1 l p d bs)
  from 1(4) obtain w r1 where w: "bs \<noteq> []" "readVarint 0 0 bs = Inr (w, r1)"
    by (subst (asm) skipField.simps) (auto split: if_splits sum.splits)
  note IH = 1(1)[OF w(1) w(2) refl refl] 1(2)[OF w(1) w(2) refl refl] 1(3)[OF w(1) w(2) refl refl]
  have shorter: "length r1 < length bs" using readVarint_shorter[OF w(2)] .
  show ?case
  proof (cases "unat (w AND 7) = 3 \<or> unat (w AND 7) = 4")
    case True
    then show ?thesis
      using 1(4) w IH(1,2) shorter by (subst (asm) skipField.simps) (fastforce split: if_splits)
  next
    case False
    then obtain v r2 where r2: "readField (if d = 0 then l else l - p) (unat (w AND 7)) r1 = Inr (v, r2)"
      using 1(4) w by (subst (asm) skipField.simps) (auto simp: Let_def split: sum.splits)
    have "length r2 \<le> length r1" using readField_shorter[OF r2] .
    then show ?thesis
      using 1(4) False w r2 IH(3)[OF _ _ r2 refl] shorter
      by (subst (asm) skipField.simps) (fastforce simp: Let_def split: if_splits)
  qed
qed


section \<open>The message template\<close>

text \<open>\<open>kind f\<close> is the wire type the message expects for field \<open>f\<close>, if it has that field; \<open>upd f v m\<close> is
  what the field's case does to the message with the value read; \<open>unknown\<close> appends the bytes of a
  field the message does not have to its \<open>XXX_unrecognized\<close>.\<close>

function unmarshalLoop ::
  "(int \<Rightarrow> nat option) \<Rightarrow> (int \<Rightarrow> wire_val \<Rightarrow> 'm \<Rightarrow> wire_error + 'm) \<Rightarrow> (bytes \<Rightarrow> 'm \<Rightarrow> 'm) \<Rightarrow>
   nat \<Rightarrow> bytes \<Rightarrow> 'm \<Rightarrow> wire_error + 'm" where
  "unmarshalLoop kind upd unknown l bs m =
     (if bs = [] then Inr m
      else case readVarint 0 0 bs of
        Inl e \<Rightarrow> Inl e
      | Inr (wire, r) \<Rightarrow>
          let fieldNum = sint (ucast (drop_bit 3 wire) :: 32 word); wt = unat (wire AND 7)
          in if wt = 4 then Inl ErrEndGroup
             else if fieldNum \<le> 0 then Inl ErrIllegalTag
             else case kind fieldNum of
                 Some k \<Rightarrow>
                   if wt \<noteq> k then Inl ErrWrongWireType
                   else (case readField l wt r of
                       Inl e \<Rightarrow> Inl e
                     | Inr (v, r') \<Rightarrow>
                         (case upd fieldNum v m of
                            Inl e \<Rightarrow> Inl e
                          | Inr m' \<Rightarrow> unmarshalLoop kind upd unknown l r' m'))
               | None \<Rightarrow>
                   (case skipField l (l - length bs) 0 bs of
                      Inl e \<Rightarrow> Inl e
                    | Inr r' \<Rightarrow>
                        unmarshalLoop kind upd unknown l r' (unknown (take (length bs - length r') bs) m)))"
  by auto
termination
  by (relation "measure (\<lambda>(k, u, x, l, bs, m). length bs)")
    (auto dest!: readVarint_shorter readField_shorter skipField_shorter)

declare unmarshalLoop.simps [simp del]

lemma unmarshalLoop_Nil [simp]: "unmarshalLoop kind upd unknown l [] m = Inr m"
  by (simp add: unmarshalLoop.simps)

text \<open>Writing a field: its tag byte, then the value.\<close>

definition tag :: "nat \<Rightarrow> nat \<Rightarrow> bytes" where
  "tag f wt = putUvarint (word_of_nat (8 * f + wt))"

definition putLen :: "bytes \<Rightarrow> bytes" where
  "putLen b = putUvarint (word_of_nat (length b)) @ b"

lemma tag_read:
  assumes "f < 16" "wt < 8"
  shows "unat ((word_of_nat (8 * f + wt) :: 64 word) AND 7) = wt"
    and "sint (ucast (drop_bit 3 (word_of_nat (8 * f + wt) :: 64 word)) :: 32 word) = int f"
proof -
  have 7: "(7 :: 64 word) = mask 3" by (simp add: mask_eq_exp_minus_1)
  have u: "unat (word_of_nat (8 * f + wt) :: 64 word) = 8 * f + wt"
    using assms by (simp add: unsigned_of_nat take_bit_nat_eq_self del: of_nat_add of_nat_mult)
  show "unat ((word_of_nat (8 * f + wt) :: 64 word) AND 7) = wt"
    unfolding 7 using assms u
    by (simp add: unsigned_take_bit_eq take_bit_nat_def flip: take_bit_eq_mask)
  have "unat (drop_bit 3 (word_of_nat (8 * f + wt) :: 64 word)) = f"
    using assms by (simp add: drop_bit_eq_div unat_div u del: of_nat_add of_nat_mult)
  then have d: "drop_bit 3 (word_of_nat (8 * f + wt) :: 64 word) = word_of_nat f"
    using assms by (simp add: word_unat_eq_iff unsigned_of_nat take_bit_nat_eq_self)
  have "ucast (word_of_nat f :: 64 word) = (word_of_nat f :: 32 word)"
    using assms by (simp add: unsigned_of_nat word_of_nat_eq_iff take_bit_nat_eq_self unsigned_ucast_eq)
  moreover have "sint (word_of_nat f :: 32 word) = int f"
    using assms by (simp add: sint_uint unsigned_of_nat take_bit_nat_eq_self signed_take_bit_int_eq_self)
  ultimately show "sint (ucast (drop_bit 3 (word_of_nat (8 * f + wt) :: 64 word)) :: 32 word) = int f"
    unfolding d by simp
qed


lemma putUvarint_nonempty [simp]: "putUvarint v \<noteq> []"
  by (simp add: putUvarint.simps[of v])

text \<open>One turn of the loop on a field that is well written, and the three kinds of value.\<close>

lemma unmarshalLoop_field:
  assumes "f < 16" "0 < f" "wt < 8" "wt \<noteq> 4" "kind (int f) = Some wt"
    and "readField l wt (b @ r) = Inr (v, r)"
  shows "unmarshalLoop kind upd unknown l (tag f wt @ b @ r) m =
     (case upd (int f) v m of Inl e \<Rightarrow> Inl e | Inr m' \<Rightarrow> unmarshalLoop kind upd unknown l r m')"
  using assms tag_read[OF assms(1,3)]
  by (subst unmarshalLoop.simps) (simp add: tag_def Let_def del: of_nat_add of_nat_mult)

lemma readField_Varint: "readField l 0 (putUvarint w @ r) = Inr (Varint w, r)"
  by (simp add: readField_def)

lemma readField_Fixed64: "readField l 1 (putUint64 w @ r) = Inr (Fixed64 w, r)"
  by (simp add: readField_def)

lemma sint_word_of_nat: "int n \<le> MaxInt64 \<Longrightarrow> sint (word_of_nat n :: 64 word) = int n"
  by (simp add: sint_uint MaxInt64_def unsigned_of_nat take_bit_nat_eq_self signed_take_bit_int_eq_self)

lemma readField_LenBytes:
  assumes "length (putLen b @ r) \<le> l" "int l \<le> MaxInt64"
  shows "readField l 2 (putLen b @ r) = Inr (LenBytes b, r)"
proof -
  have len: "int (length b) \<le> MaxInt64" "l - length (b @ r) + length b \<le> l"
    using assms by (auto simp: putLen_def)
  then have "int (l - length (b @ r)) + int (length b) \<le> MaxInt64"
    using assms by linarith
  then show ?thesis
    using len by (simp add: readField_def readLen_def putLen_def sint_word_of_nat Let_def)
qed

lemmas unmarshal_Varint = unmarshalLoop_field[where wt = 0, OF _ _ _ _ _ readField_Varint]
lemmas unmarshal_Fixed64 = unmarshalLoop_field[where wt = 1, OF _ _ _ _ _ readField_Fixed64]
lemmas unmarshal_LenBytes = unmarshalLoop_field[where wt = 2, OF _ _ _ _ _ readField_LenBytes]

section \<open>Length-delimited messages (\<open>libs/protoio\<close>)\<close>

text \<open>\<open>MarshalDelimited\<close> of a message whose encoding is \<open>b\<close>; \<open>readUvarint\<close> is
  \<open>encoding/binary\<close>'s reader, which allows ten bytes and a last one of at most 1.\<close>

definition MarshalDelimited :: "bytes \<Rightarrow> bytes" where
  "MarshalDelimited b = putLen b"

fun readUvarint :: "nat \<Rightarrow> 64 word \<Rightarrow> bytes \<Rightarrow> (64 word \<times> bytes) option" where
  "readUvarint i x bs =
     (if i = 10 then None
      else case bs of
        [] \<Rightarrow> None
      | b # r \<Rightarrow>
          if b < 0x80 then if i = 9 \<and> 1 < b then None else Some (x OR push_bit (7 * i) (ucast b), r)
          else readUvarint (i + 1) (x OR push_bit (7 * i) (ucast (b AND 0x7f))) r)"

declare readUvarint.simps [simp del]

definition UnmarshalDelimited :: "(bytes \<Rightarrow> wire_error + 'm) \<Rightarrow> bytes \<Rightarrow> 'm option" where
  "UnmarshalDelimited unmarshal data =
     (case readUvarint 0 0 data of
        None \<Rightarrow> None
      | Some (w, r) \<Rightarrow>
          let n = int (length data - length r); len = sint w
          in if MaxInt64 \<le> uint w \<or> len < 0 \<or> MaxInt64 < n + len then None
             else if int (length data) < len then None
             else if int (length r) < len then None
             else case unmarshal (take (nat len) r) of Inl _ \<Rightarrow> None | Inr m \<Rightarrow> Some m)"


lemma readUvarint_putUvarint_gen:
  "unat v < 2 ^ (64 - 7 * i) \<Longrightarrow> i < 10 \<Longrightarrow>
   readUvarint i x (putUvarint v @ r) = Some (x OR push_bit (7 * i) v, r)"
proof (induction v arbitrary: i x rule: putUvarint.induct)
  case (1 v)
  show ?case
  proof (cases "v < 0x80")
    case True
    have "\<not> (i = 9 \<and> 1 < (ucast v :: byte))"
    proof
      assume *: "i = 9 \<and> 1 < (ucast v :: byte)"
      then have "unat v < 2" using 1(2) by simp
      then have "v = 0 \<or> v = 1" 
        by (auto simp: word_unat_eq_iff less_2_cases_iff)
      with * show False by auto
    qed
    then show ?thesis using True 1(3)
      by (simp add: putUvarint.simps[of v] readUvarint.simps[of i] small_byte(1,3)[OF True])
  next
    case False
    then have big: "128 \<le> unat v" by (simp add: word_less_nat_alt)
    then have "(2::nat) ^ 7 < 2 ^ (64 - 7 * i)" using 1(2) by simp
    then have s: "7 < 64 - 7 * i" by (metis power_less_imp_less_exp one_less_numeral_iff semiring_norm(76))
    have "unat (drop_bit 7 v) < 2 ^ (64 - (7 * i + 7))"
    proof -
      have "(2::nat) ^ (64 - 7 * i) = 2 ^ (64 - (7 * i + 7)) * 2 ^ 7" using s
        by (metis (no_types) add.commute diff_add diff_diff_left less_imp_le power_add)
      then have "unat v div 2 ^ 7 < 2 ^ (64 - (7 * i + 7))"
        using 1(2) by (simp only: less_mult_imp_div_less)
      then show ?thesis by (simp add: unat_div drop_bit_eq_div)
    qed
    then have "readUvarint (i + 1) (x OR push_bit (7 * i) (v AND 0x7f)) (putUvarint (drop_bit 7 v) @ r)
        = Some (x OR push_bit (7 * i) v, r)"
      using 1(1)[OF False, of "i + 1"] s split_varint[of x "7 * i" v]
      by (simp add: add.commute del: push_bit_and)
    then show ?thesis
      using 1(3) False by (simp add: putUvarint.simps[of v] readUvarint.simps[of i] low_byte_bits)
  qed
qed

lemma readUvarint_putUvarint [simp]: "readUvarint 0 0 (putUvarint v @ r) = Some (v, r)"
  using readUvarint_putUvarint_gen[of v 0 0 r] unsigned_less[of v] by simp

lemma UnmarshalDelimited_MarshalDelimited:
  assumes "unmarshal b = Inr m" "length (MarshalDelimited b) < 2 ^ 62"
  shows "UnmarshalDelimited unmarshal (MarshalDelimited b) = Some m"
proof -
  have len: "length b < 2 ^ 62" using assms(2) by (simp add: MarshalDelimited_def putLen_def)
  then have "sint (word_of_nat (length b) :: 64 word) = int (length b)"
    by (simp add: sint_word_of_nat MaxInt64_def)
  moreover have "uint (word_of_nat (length b) :: 64 word) = int (length b)"
    using len by (simp add: unsigned_of_nat take_bit_nat_eq_self)
  ultimately show ?thesis
    using assms len
    by (simp add: UnmarshalDelimited_def MarshalDelimited_def putLen_def Let_def MaxInt64_def)
qed

end
