(* ===== verification/Hashing.thy ===== *)
theory Hashing
  imports Prelude
begin

text \<open>
  \<open>crypto/srhash/hash.go\<close>: SHA-256 and its truncation. The components are written over the hash
  operation as an argument \<open>H\<close>, so that their laws are the ones of any 32-byte hash; the interface
  \<open>hash32\<close> states what they rely on and \<open>srhash_Sum\<close>, SHA-256 as FIPS 180-4 and Go's
  \<open>crypto/sha256\<close> have it, implements it.
\<close>

section \<open>SHA-256\<close>

text \<open>The round constants and the initial state: the first 32 fractional bits of the cube roots of the
  first 64 primes and of the square roots of the first 8.\<close>

definition sha_K :: "32 word list" where
  "sha_K = [
   1116352408, 1899447441, 3049323471, 3921009573, 961987163, 1508970993, 2453635748, 2870763221,
   3624381080, 310598401, 607225278, 1426881987, 1925078388, 2162078206, 2614888103, 3248222580,
   3835390401, 4022224774, 264347078, 604807628, 770255983, 1249150122, 1555081692, 1996064986,
   2554220882, 2821834349, 2952996808, 3210313671, 3336571891, 3584528711, 113926993, 338241895,
   666307205, 773529912, 1294757372, 1396182291, 1695183700, 1986661051, 2177026350, 2456956037,
   2730485921, 2820302411, 3259730800, 3345764771, 3516065817, 3600352804, 4094571909, 275423344,
   430227734, 506948616, 659060556, 883997877, 958139571, 1322822218, 1537002063, 1747873779,
   1955562222, 2024104815, 2227730452, 2361852424, 2428436474, 2756734187, 3204031479, 3329325298]"

definition sha_init :: "32 word list" where
  "sha_init = [1779033703, 3144134277, 1013904242, 2773480762, 1359893119, 2600822924, 528734635, 1541459225]"

definition rotr32 :: "nat \<Rightarrow> 32 word \<Rightarrow> 32 word" where
  "rotr32 n x = drop_bit n x OR push_bit (32 - n) x"

definition be_word :: "bytes \<Rightarrow> 32 word" where
  "be_word bs = foldl (\<lambda>w b. push_bit 8 w OR ucast b) 0 bs"

definition be_bytes :: "nat \<Rightarrow> 'a::len word \<Rightarrow> bytes" where
  "be_bytes n w = map (\<lambda>i. ucast (drop_bit (8 * (n - 1 - i)) w)) [0..<n]"

definition sha_pad :: "bytes \<Rightarrow> bytes" where
  "sha_pad m = m @ [0x80] @ replicate ((119 - length m mod 64) mod 64) 0 @ be_bytes 8 (word_of_nat (8 * length m) :: 64 word)"

fun chunks :: "nat \<Rightarrow> 'a list \<Rightarrow> 'a list list" where
  "chunks n xs = (if n = 0 \<or> xs = [] then [] else take n xs # chunks n (drop n xs))"

declare chunks.simps [simp del]

definition sha_extend :: "32 word list \<Rightarrow> 32 word list" where
  "sha_extend w =
     (let w15 = w ! (length w - 15); w2 = w ! (length w - 2);
          s0 = rotr32 7 w15 XOR rotr32 18 w15 XOR drop_bit 3 w15;
          s1 = rotr32 17 w2 XOR rotr32 19 w2 XOR drop_bit 10 w2
      in w @ [w ! (length w - 16) + s0 + w ! (length w - 7) + s1])"

fun sha_round :: "32 word list \<Rightarrow> 32 word \<times> 32 word \<Rightarrow> 32 word list" where
  "sha_round [a, b, c, d, e, f, g, h] (k, w) =
     (let S1 = rotr32 6 e XOR rotr32 11 e XOR rotr32 25 e;
          ch = (e AND f) XOR (NOT e AND g);
          t1 = h + S1 + ch + k + w;
          S0 = rotr32 2 a XOR rotr32 13 a XOR rotr32 22 a;
          maj = (a AND b) XOR (a AND c) XOR (b AND c)
      in [t1 + S0 + maj, a, b, c, d + t1, e, f, g])"
| "sha_round s _ = s"

definition sha_block :: "32 word list \<Rightarrow> bytes \<Rightarrow> 32 word list" where
  "sha_block s blk =
     (let w = (sha_extend ^^ 48) (map be_word (chunks 4 blk))
      in map2 (+) s (foldl sha_round s (zip sha_K w)))"

definition srhash_Sum :: "bytes \<Rightarrow> bytes" where
  "srhash_Sum bz = concat (map (be_bytes 4) (foldl sha_block sha_init (chunks 64 (sha_pad bz))))"

definition srhash_Size :: nat where "srhash_Size = 32"
definition TruncatedSize :: nat where "TruncatedSize = 20"

definition SumTruncated :: "(bytes \<Rightarrow> bytes) \<Rightarrow> bytes \<Rightarrow> bytes" where
  "SumTruncated H bz = take TruncatedSize (H bz)"

definition ValidateHash :: "bytes \<Rightarrow> bool" where
  "ValidateHash h \<longleftrightarrow> \<not> (0 < length h \<and> length h \<noteq> srhash_Size)"

section \<open>The interface\<close>

locale hash32 =
  fixes H :: "bytes \<Rightarrow> bytes"
  assumes length_H: "length (H bz) = 32"
begin

lemma H_nonempty: "H bz \<noteq> []"
  using length_H [of bz] by auto

lemma length_SumTruncated: "length (SumTruncated H bz) = 20"
  by (simp add: SumTruncated_def TruncatedSize_def length_H)

lemma ValidateHash_H: "ValidateHash (H bz)"
  by (simp add: ValidateHash_def srhash_Size_def length_H)

end

lemma length_sha_round: "length s = 8 \<Longrightarrow> length (sha_round s kw) = 8"
  by (induction s kw rule: sha_round.induct) (simp_all add: Let_def)

lemma length_sha_block: "length s = 8 \<Longrightarrow> length (sha_block s b) = 8"
proof -
  assume s: "length s = 8"
  have "length (foldl sha_round s kws) = 8" for kws
    using s by (induction kws rule: rev_induct) (simp_all add: length_sha_round)
  with s show ?thesis by (simp add: sha_block_def Let_def)
qed

lemma length_srhash_Sum: "length (srhash_Sum bz) = 32"
proof -
  have len: "length (foldl sha_block sha_init bs) = 8" for bs
    by (induction bs rule: rev_induct) (simp_all add: sha_init_def length_sha_block)
  have "length (concat (map (be_bytes 4) ws)) = 4 * length ws" for ws :: "32 word list"
    by (induction ws) (simp_all add: be_bytes_def)
  then show ?thesis by (simp add: srhash_Sum_def len)
qed

interpretation srhash: hash32 srhash_Sum
  by unfold_locales (rule length_srhash_Sum)

end
