(* ===== verification/Merkle.thy ===== *)
theory Merkle
  imports Hashing
begin

text \<open>
  The Merkle trees of \<open>crypto/merkle\<close> (hash.go, tree.go, proof.go), which commit a block to its
  parts, its transactions, its header fields and its signatures. \<open>HashFromByteSlices\<close> and its
  iterative variant, the proofs built by \<open>trailsFromByteSlices\<close> on a heap of linked nodes, and the
  verification by \<open>computeHashFromAunts\<close>. Shown: the two tree hashes agree; the linked nodes give
  exactly the aunts of a leaf; every generated proof verifies; a verified proof determines its leaf.
\<close>

section \<open>Hashes of leaves and inner nodes\<close>

definition emptyHash :: "(bytes \<Rightarrow> bytes) \<Rightarrow> bytes" where
  "emptyHash H = H []"

definition leafHash :: "(bytes \<Rightarrow> bytes) \<Rightarrow> bytes \<Rightarrow> bytes" where
  "leafHash H leaf = H (0 # leaf)"

definition innerHash :: "(bytes \<Rightarrow> bytes) \<Rightarrow> bytes \<Rightarrow> bytes \<Rightarrow> bytes" where
  "innerHash H left right = H (1 # left @ right)"

section \<open>The split point\<close>

definition splitPoint :: "nat \<Rightarrow> nat" where
  "splitPoint n = (let k = 2 ^ (nbits n - 1) in if k = n then k div 2 else k)"

definition getSplitPoint :: "int \<Rightarrow> int option" where
  "getSplitPoint len =
     (if len < 1 then None else Some (int (splitPoint (nat len))))"

lemma nbits_power: "0 < n \<Longrightarrow> 2 ^ (nbits n - 1) \<le> n \<and> n < 2 * 2 ^ (nbits n - 1)"
proof -
  assume n: "0 < n"
  then have "nbits n = Suc (nbits n - 1)" by (subst (1 2) nbits.simps) simp
  then have "2 ^ nbits n = 2 * (2::nat) ^ (nbits n - 1)" by (metis power_Suc)
  with nbits_bounds [OF n] show ?thesis by simp
qed

lemma splitPoint_cases:
  assumes "2 \<le> n"
  obtains j where "splitPoint n = 2 ^ j" and "2 ^ j < n" and "n \<le> 2 * 2 ^ j"
proof -
  let ?k = "nbits n - 1"
  have k: "2 ^ ?k \<le> n" "n < 2 * 2 ^ ?k" using nbits_power [of n] assms by auto
  show ?thesis
  proof (cases "2 ^ ?k = n")
    case True
    then obtain j where j: "?k = Suc j" using assms by (cases ?k) auto
    with True have "splitPoint n = 2 ^ j" by (simp add: splitPoint_def Let_def)
    then show ?thesis using True j by (intro that [of j]) auto
  next
    case False
    then show ?thesis using k by (intro that [of ?k]) (auto simp: splitPoint_def Let_def)
  qed
qed

lemma splitPoint_unique:
  assumes "2 ^ j < n" and "n \<le> 2 * 2 ^ j"
  shows "splitPoint n = 2 ^ j"
proof -
  have "(1::nat) \<le> 2 ^ j" by simp
  then have "2 \<le> n" using assms(1) by linarith
  then obtain i where i: "splitPoint n = 2 ^ i" "2 ^ i < n" "n \<le> 2 * 2 ^ i" by (rule splitPoint_cases)
  have "(2::nat) ^ i < 2 ^ Suc j" and "(2::nat) ^ j < 2 ^ Suc i" using assms i by auto
  then have "i = j" by (simp only: power_strict_increasing_iff)
  with i show ?thesis by simp
qed

lemma splitPoint_less [simp]: "2 \<le> n \<Longrightarrow> splitPoint n < n"
  by (rule splitPoint_cases [of n]) auto

lemma splitPoint_pos [simp]: "2 \<le> n \<Longrightarrow> 0 < splitPoint n"
  by (rule splitPoint_cases [of n]) auto

lemma splitPoint_half:
  assumes "2 < n"
  shows "even (splitPoint n)" and "splitPoint ((n + 1) div 2) = splitPoint n div 2"
proof -
  obtain j where j: "splitPoint n = 2 ^ j" "2 ^ j < n" "n \<le> 2 * 2 ^ j"
    using splitPoint_cases [of n] assms by auto
  then obtain i where i: "j = Suc i" using assms by (cases j) auto
  show "even (splitPoint n)" using j i by simp
  have "splitPoint ((n + 1) div 2) = 2 ^ i" using j i by (intro splitPoint_unique) auto
  with j i show "splitPoint ((n + 1) div 2) = splitPoint n div 2" by simp
qed

section \<open>The tree hash, recursive and iterative\<close>

function HashFromByteSlices :: "(bytes \<Rightarrow> bytes) \<Rightarrow> bytes list \<Rightarrow> bytes" where
  "HashFromByteSlices H items =
     (if length items = 0 then emptyHash H
      else if length items = 1 then leafHash H (items ! 0)
      else (let k = splitPoint (length items)
            in innerHash H (HashFromByteSlices H (take k items)) (HashFromByteSlices H (drop k items))))"
  by pat_completeness auto
termination
proof (relation "measure (\<lambda>(H, items). length items)", goal_cases)
  case (2 H items k)
  then have l: "2 \<le> length items" by linarith
  then show ?case using 2 splitPoint_less [OF l] by simp
next
  case (3 H items k)
  then have l: "2 \<le> length items" by linarith
  have "length items - splitPoint (length items) < length items"
    using splitPoint_pos [OF l] l by linarith
  then show ?case using 3 by simp
qed simp

declare HashFromByteSlices.simps [simp del]

text \<open>One pass of the iterative version: the write position never overtakes the read position, so
  the pass leaves the pairwise hashes in the prefix it reports.\<close>

fun pairUp :: "(bytes \<Rightarrow> bytes) \<Rightarrow> bytes list \<Rightarrow> bytes list" where
  "pairUp H (x # y # r) = innerHash H x y # pairUp H r"
| "pairUp H [x] = [x]"
| "pairUp H [] = []"

lemma length_pairUp [simp]: "length (pairUp H xs) = (length xs + 1) div 2"
  by (induction H xs rule: pairUp.induct) auto

function hashLevels :: "(bytes \<Rightarrow> bytes) \<Rightarrow> bytes list \<Rightarrow> bytes" where
  "hashLevels H items =
     (if length items = 0 then emptyHash H
      else if length items = 1 then items ! 0
      else hashLevels H (pairUp H items))"
  by pat_completeness auto
termination
proof (relation "measure (\<lambda>(H, items). length items)", goal_cases)
  case (2 H items)
  then have "2 \<le> length items" by linarith
  then have "(length items + 1) div 2 < length items" by linarith
  then show ?case by simp
qed simp

declare hashLevels.simps [simp del]

definition HashFromByteSlicesIterative :: "(bytes \<Rightarrow> bytes) \<Rightarrow> bytes list \<Rightarrow> bytes" where
  "HashFromByteSlicesIterative H input = hashLevels H (map (leafHash H) input)"

lemma pairUp_append: "even (length xs) \<Longrightarrow> pairUp H (xs @ ys) = pairUp H xs @ pairUp H ys"
  by (induction H xs rule: pairUp.induct) auto

lemma hashLevels_pairUp: "xs \<noteq> [] \<Longrightarrow> hashLevels H (pairUp H xs) = hashLevels H xs"
proof (cases "length xs = 1")
  case True
  then obtain x where "xs = [x]" by (auto simp: length_Suc_conv)
  then show ?thesis by simp
next
  case False
  assume "xs \<noteq> []"
  with False show ?thesis by (subst (2) hashLevels.simps) simp
qed

lemma hashLevels_split:
  "2 \<le> length xs \<Longrightarrow> hashLevels H xs =
     innerHash H (hashLevels H (take (splitPoint (length xs)) xs)) (hashLevels H (drop (splitPoint (length xs)) xs))"
proof (induction "length xs" arbitrary: xs rule: less_induct)
  case less
  let ?n = "length xs" and ?k = "splitPoint (length xs)"
  show ?case
  proof (cases "?n = 2")
    case True
    then obtain x y where xs: "xs = [x, y]" by (auto simp: length_Suc_conv numeral_2_eq_2)
    have "splitPoint 2 = 1" using splitPoint_unique [of 0 2] by simp
    then show ?thesis
      by (simp add: xs hashLevels.simps [of H "[x, y]"] hashLevels.simps [of H "[_]"] numeral_2_eq_2)
  next
    case False
    then have n: "2 < ?n" using less.prems by simp
    let ?ys = "pairUp H xs"
    have k: "even ?k" "splitPoint (length ?ys) = ?k div 2" using splitPoint_half [OF n] by auto
    have kb: "0 < ?k" "?k < ?n" using n by simp_all
    have ys: "?ys = pairUp H (take ?k xs) @ pairUp H (drop ?k xs)"
      using pairUp_append [of "take ?k xs" H "drop ?k xs"] k(1) kb(2) by simp
    have lk: "length (pairUp H (take ?k xs)) = ?k div 2"
      using k(1) kb by (simp add: even_Suc_div_two)
    have "hashLevels H xs = hashLevels H ?ys"
      using n by (subst hashLevels.simps) auto
    also have "\<dots> = innerHash H (hashLevels H (take (?k div 2) ?ys)) (hashLevels H (drop (?k div 2) ?ys))"
      using less.hyps [of ?ys] n k(2) by simp
    also have "\<dots> = innerHash H (hashLevels H (pairUp H (take ?k xs))) (hashLevels H (pairUp H (drop ?k xs)))"
      using ys lk by (metis append_eq_conv_conj)
    also have "\<dots> = innerHash H (hashLevels H (take ?k xs)) (hashLevels H (drop ?k xs))"
      using kb by (subst (1 2) hashLevels_pairUp) auto
    finally show ?thesis .
  qed
qed

lemma hashLevels_leaves: "hashLevels H (map (leafHash H) items) = HashFromByteSlices H items"
proof (induction H items rule: HashFromByteSlices.induct)
  case (1 H items)
  show ?case
  proof (cases "2 \<le> length items")
    case True
    then show ?thesis
      using 1 hashLevels_split [of "map (leafHash H) items" H]
      by (subst HashFromByteSlices.simps) (auto simp: Let_def take_map drop_map)
  next
    case False
    then consider "items = []" | x where "items = [x]"
      by (cases items; cases "tl items") auto
    then show ?thesis
      by cases (simp_all add: HashFromByteSlices.simps [of H "[]"] HashFromByteSlices.simps [of H "[_]"]
          hashLevels.simps [of H "[]"] hashLevels.simps [of H "[_]"])
  qed
qed

section \<open>Proofs\<close>

record Proof =
  Total :: int
  Index :: int
  LeafHash :: bytes
  Aunts :: "bytes list"

function computeHashFromAunts :: "(bytes \<Rightarrow> bytes) \<Rightarrow> int \<Rightarrow> int \<Rightarrow> bytes \<Rightarrow> bytes list \<Rightarrow> bytes option" where
  "computeHashFromAunts H index tot leaf innerHashes =
     (if tot \<le> index \<or> index < 0 \<or> tot \<le> 0 then None
      else if tot = 1 then (if innerHashes \<noteq> [] then None else Some leaf)
      else if innerHashes = [] then None
      else (let numLeft = int (splitPoint (nat tot)) in
            if index < numLeft
            then (case computeHashFromAunts H index numLeft leaf (butlast innerHashes) of
                    None \<Rightarrow> None
                  | Some leftHash \<Rightarrow> Some (innerHash H leftHash (last innerHashes)))
            else (case computeHashFromAunts H (index - numLeft) (tot - numLeft) leaf (butlast innerHashes) of
                    None \<Rightarrow> None
                  | Some rightHash \<Rightarrow> Some (innerHash H (last innerHashes) rightHash))))"
  by pat_completeness auto
termination
proof (relation "measure (\<lambda>(H, index, tot, leaf, hs). length hs)", goal_cases)
  case (2 H index tot leaf hs numLeft)
  then show ?case by (cases hs) auto
next
  case (3 H index tot leaf hs numLeft)
  then show ?case by (cases hs) auto
qed simp

declare computeHashFromAunts.simps [simp del]

definition ComputeRootHash :: "(bytes \<Rightarrow> bytes) \<Rightarrow> Proof \<Rightarrow> bytes option" where
  "ComputeRootHash H sp = computeHashFromAunts H (Index sp) (Total sp) (LeafHash sp) (Aunts sp)"

datatype proof_error =
    NegativeTotal | NegativeIndex | InvalidLeafHash | InvalidRootHash
  | LeafHashSize | TooManyAunts | AuntSize | NilProof

text \<open>\<open>Verify\<close> returns the error, \<open>None\<close> meaning success. A nil computed hash equals an empty root
  hash under \<open>bytes.Equal\<close>.\<close>

definition proof_Verify :: "(bytes \<Rightarrow> bytes) \<Rightarrow> Proof \<Rightarrow> bytes \<Rightarrow> bytes \<Rightarrow> proof_error option" where
  "proof_Verify H sp rootHash leaf =
     (if Total sp < 0 then Some NegativeTotal
      else if Index sp < 0 then Some NegativeIndex
      else if LeafHash sp \<noteq> leafHash H leaf then Some InvalidLeafHash
      else if (case ComputeRootHash H sp of None \<Rightarrow> [] | Some h \<Rightarrow> h) \<noteq> rootHash then Some InvalidRootHash
      else None)"

definition MaxAunts :: nat where "MaxAunts = 100"

definition proof_ValidateBasic :: "Proof \<Rightarrow> proof_error option" where
  "proof_ValidateBasic sp =
     (if Total sp < 0 then Some NegativeTotal
      else if Index sp < 0 then Some NegativeIndex
      else if length (LeafHash sp) \<noteq> srhash_Size then Some LeafHashSize
      else if MaxAunts < length (Aunts sp) then Some TooManyAunts
      else if \<not> list_all (\<lambda>a. length a = srhash_Size) (Aunts sp) then Some AuntSize
      else None)"

text \<open>The linked nodes: a heap of nodes addressed by their position. Only roots of finished
  subtrees are written after allocation.\<close>

record ProofNode =
  pn_Hash :: bytes
  pn_Parent :: "nat option"
  pn_Left :: "nat option"
  pn_Right :: "nat option"

definition new_node :: "bytes \<Rightarrow> ProofNode" where
  "new_node h = \<lparr>pn_Hash = h, pn_Parent = None, pn_Left = None, pn_Right = None\<rparr>"

function trailsFromByteSlices ::
    "(bytes \<Rightarrow> bytes) \<Rightarrow> bytes list \<Rightarrow> ProofNode list \<Rightarrow> ProofNode list \<times> nat list \<times> nat" where
  "trailsFromByteSlices H items heap =
     (if length items = 0 then (heap @ [new_node (emptyHash H)], [], length heap)
      else if length items = 1
      then (heap @ [new_node (leafHash H (items ! 0))], [length heap], length heap)
      else
        (let k = splitPoint (length items);
             (heap1, lefts, leftRoot) = trailsFromByteSlices H (take k items) heap;
             (heap2, rights, rightRoot) = trailsFromByteSlices H (drop k items) heap1;
             rootNode = length heap2;
             heap3 = heap2 @ [new_node (innerHash H (pn_Hash (heap2 ! leftRoot)) (pn_Hash (heap2 ! rightRoot)))];
             heap4 = heap3[leftRoot := (heap3 ! leftRoot)\<lparr>pn_Parent := Some rootNode, pn_Right := Some rightRoot\<rparr>];
             heap5 = heap4[rightRoot := (heap4 ! rightRoot)\<lparr>pn_Parent := Some rootNode, pn_Left := Some leftRoot\<rparr>]
         in (heap5, lefts @ rights, rootNode)))"
  by pat_completeness auto
termination
proof (relation "measure (\<lambda>(H, items, heap). length items)", goal_cases)
  case (2 H items heap k)
  then have l: "2 \<le> length items" by linarith
  then show ?case using 2 splitPoint_less [OF l] by simp
next
  case (3 H items heap k)
  then have l: "2 \<le> length items" by linarith
  have "length items - splitPoint (length items) < length items"
    using splitPoint_pos [OF l] l by linarith
  then show ?case using 3 by simp
qed simp

declare trailsFromByteSlices.simps [simp del]

text \<open>The loop of \<open>FlattenAunts\<close> follows the parent pointers; \<open>None\<close> would mean that it never
  reaches a root.\<close>

partial_function (option) flattenLoop :: "ProofNode list \<Rightarrow> nat option \<Rightarrow> bytes list \<Rightarrow> bytes list option" where
  "flattenLoop heap spn innerHashes =
     (case spn of
        None \<Rightarrow> Some innerHashes
      | Some i \<Rightarrow>
          flattenLoop heap (pn_Parent (heap ! i))
            (case pn_Left (heap ! i) of
               Some l \<Rightarrow> innerHashes @ [pn_Hash (heap ! l)]
             | None \<Rightarrow> (case pn_Right (heap ! i) of
                          Some r \<Rightarrow> innerHashes @ [pn_Hash (heap ! r)]
                        | None \<Rightarrow> innerHashes)))"

definition FlattenAunts :: "ProofNode list \<Rightarrow> nat \<Rightarrow> bytes list option" where
  "FlattenAunts heap i = flattenLoop heap (Some i) []"

definition ProofsFromByteSlices :: "(bytes \<Rightarrow> bytes) \<Rightarrow> bytes list \<Rightarrow> (bytes \<times> Proof list) option" where
  "ProofsFromByteSlices H items =
     (case trailsFromByteSlices H items [] of
        (heap, trails, rootSPN) \<Rightarrow>
          map_option (\<lambda>ps. (pn_Hash (heap ! rootSPN), ps))
            (those (map (\<lambda>i. map_option
                (\<lambda>as. \<lparr>Total = int (length items), Index = int i,
                       LeafHash = pn_Hash (heap ! (trails ! i)), Aunts = as\<rparr>)
                (FlattenAunts heap (trails ! i)))
              [0..<length trails])))"

section \<open>What the proofs contain\<close>

text \<open>The reference: the aunts of leaf \<open>i\<close>, from the leaf upwards.\<close>

function auntsOf :: "(bytes \<Rightarrow> bytes) \<Rightarrow> bytes list \<Rightarrow> nat \<Rightarrow> bytes list" where
  "auntsOf H items i =
     (if length items \<le> 1 then []
      else (let k = splitPoint (length items)
            in if i < k then auntsOf H (take k items) i @ [HashFromByteSlices H (drop k items)]
               else auntsOf H (drop k items) (i - k) @ [HashFromByteSlices H (take k items)]))"
  by pat_completeness auto
termination
proof (relation "measure (\<lambda>(H, items, i). length items)", goal_cases)
  case (2 H items i k)
  then have l: "2 \<le> length items" by linarith
  then show ?case using 2 splitPoint_less [OF l] by simp
next
  case (3 H items i k)
  then have l: "2 \<le> length items" by linarith
  have "length items - splitPoint (length items) < length items"
    using splitPoint_pos [OF l] l by linarith
  then show ?case using 3 by simp
qed simp

declare auntsOf.simps [simp del]

lemma HashFromByteSlices_split:
  "2 \<le> length items \<Longrightarrow> HashFromByteSlices H items =
    innerHash H (HashFromByteSlices H (take (splitPoint (length items)) items))
      (HashFromByteSlices H (drop (splitPoint (length items)) items))"
  by (subst HashFromByteSlices.simps) (auto simp: Let_def)

lemma HashFromByteSlices_single [simp]: "HashFromByteSlices H [x] = leafHash H x"
  by (simp add: HashFromByteSlices.simps [of H "[x]"])

text \<open>Recomputing the root from a leaf and its aunts gives the tree hash.\<close>

lemma computeHash_auntsOf:
  "i < length items \<Longrightarrow>
   computeHashFromAunts H (int i) (int (length items)) (leafHash H (items ! i)) (auntsOf H items i)
     = Some (HashFromByteSlices H items)"
proof (induction H items i rule: auntsOf.induct)
  case (1 H items i)
  let ?k = "splitPoint (length items)"
  show ?case
  proof (cases "length items \<le> 1")
    case True
    with 1 have "length items = 1" "i = 0" by auto
    then show ?thesis
      by (auto simp: length_Suc_conv auntsOf.simps [of H "[_]"] computeHashFromAunts.simps [of H 0 1])
  next
    case False
    then have n: "2 \<le> length items" by simp
    have ne: "items \<noteq> []" using n by auto
    note k = splitPoint_pos [OF n] splitPoint_less [OF n]
    show ?thesis
    proof (cases "i < ?k")
      case True
      then have "computeHashFromAunts H (int i) (int ?k) (leafHash H (items ! i)) (auntsOf H (take ?k items) i)
          = Some (HashFromByteSlices H (take ?k items))"
        using 1(1) False k by (simp add: min_def)
      then show ?thesis
        using False True k 1(3) ne
        by (subst auntsOf.simps, subst computeHashFromAunts.simps)
          (simp add: Let_def HashFromByteSlices_split [OF n])
    next
      case ge: False
      then have "computeHashFromAunts H (int (i - ?k)) (int (length items - ?k)) (leafHash H (items ! i))
          (auntsOf H (drop ?k items) (i - ?k)) = Some (HashFromByteSlices H (drop ?k items))"
        using 1(2) 1(3) False k by simp
      then show ?thesis
        using False ge k 1(3) ne
        by (subst auntsOf.simps, subst computeHashFromAunts.simps)
          (simp add: Let_def HashFromByteSlices_split [OF n] of_nat_diff)
    qed
  qed
qed

section \<open>The linked nodes carry the aunts\<close>

text \<open>\<open>climbs heap lo hi i as\<close>: following the parents from \<open>i\<close> inside \<open>[lo, hi)\<close> one arrives at
  \<open>hi\<close>, having met siblings with the hashes \<open>as\<close>.\<close>

inductive climbs :: "ProofNode list \<Rightarrow> nat \<Rightarrow> nat \<Rightarrow> nat \<Rightarrow> bytes list \<Rightarrow> bool" for heap lo hi where
  top: "climbs heap lo hi hi []"
| up: "lo \<le> i \<Longrightarrow> i < hi \<Longrightarrow> lo \<le> s \<Longrightarrow> s < hi \<Longrightarrow> pn_Parent (heap ! i) = Some p \<Longrightarrow>
     pn_Left (heap ! i) = Some s \<or> pn_Left (heap ! i) = None \<and> pn_Right (heap ! i) = Some s \<Longrightarrow>
     climbs heap lo hi p as \<Longrightarrow> climbs heap lo hi i (pn_Hash (heap ! s) # as)"

lemma climbs_cong:
  assumes "climbs heap lo hi i as" and "\<And>j. lo \<le> j \<Longrightarrow> j < hi \<Longrightarrow> heap' ! j = heap ! j"
  shows "climbs heap' lo hi i as"
  using assms(1)
proof induction
  case top
  show ?case by (rule climbs.top)
next
  case (up i s p as)
  then show ?case using climbs.up [of lo i hi s heap' p as] assms(2) by simp
qed

lemma climbs_append:
  assumes "climbs heap lo mid i as" and "climbs heap lo' hi mid bs" and "lo' \<le> lo" and "mid < hi"
  shows "climbs heap lo' hi i (as @ bs)"
  using assms(1)
proof induction
  case top
  then show ?case using assms(2) by simp
next
  case (up i s p as)
  then show ?case using assms(3,4) climbs.up [of lo' i hi s heap p "as @ bs"] by simp
qed

lemma flattenLoop_climbs:
  "climbs heap lo hi i as \<Longrightarrow> flattenLoop heap (Some i) acc = flattenLoop heap (Some hi) (acc @ as)"
proof (induction arbitrary: acc rule: climbs.induct)
  case top
  then show ?case by simp
next
  case (up i s p as)
  then show ?case by (subst flattenLoop.simps) auto
qed

lemma flattenLoop_root:
  "heap ! r = new_node h \<Longrightarrow> flattenLoop heap (Some r) acc = Some acc"
  by (subst flattenLoop.simps, subst flattenLoop.simps) (simp add: new_node_def)

definition built :: "(bytes \<Rightarrow> bytes) \<Rightarrow> bytes list \<Rightarrow> ProofNode list \<Rightarrow> ProofNode list \<times> nat list \<times> nat \<Rightarrow> bool" where
  "built H items heap res =
     (case res of (heap', trails, r) \<Rightarrow>
        length heap' = Suc r \<and> length heap \<le> r \<and> take (length heap) heap' = heap
        \<and> heap' ! r = new_node (HashFromByteSlices H items)
        \<and> length trails = length items
        \<and> (\<forall>i < length items. trails ! i \<le> r \<and> length heap \<le> trails ! i
             \<and> pn_Hash (heap' ! (trails ! i)) = leafHash H (items ! i)
             \<and> climbs heap' (length heap) r (trails ! i) (auntsOf H items i)))"

lemma built_join:
  assumes n: "2 \<le> length items" and k: "k = splitPoint (length items)"
    and l: "built H (take k items) heap (heap1, lefts, lr)"
    and r: "built H (drop k items) heap1 (heap2, rights, rr)"
  defines "heap3 \<equiv> heap2 @ [new_node (innerHash H (pn_Hash (heap2 ! lr)) (pn_Hash (heap2 ! rr)))]"
  defines "heap4 \<equiv> heap3[lr := (heap3 ! lr)\<lparr>pn_Parent := Some (length heap2), pn_Right := Some rr\<rparr>]"
  defines "heap5 \<equiv> heap4[rr := (heap4 ! rr)\<lparr>pn_Parent := Some (length heap2), pn_Left := Some lr\<rparr>]"
  shows "built H items heap (heap5, lefts @ rights, length heap2)"
proof -
  let ?a = "length heap" and ?m = "length heap1" and ?z = "length heap2"
  have kb: "0 < k" "k < length items" using n by (simp_all add: k)
  from l have L: "?m = Suc lr" "?a \<le> lr" "take ?a heap1 = heap" "heap1 ! lr = new_node (HashFromByteSlices H (take k items))"
    "length lefts = k" using kb by (auto simp: built_def)
  from r have R: "?z = Suc rr" "?m \<le> rr" "take ?m heap2 = heap1" "heap2 ! rr = new_node (HashFromByteSlices H (drop k items))"
    "length rights = length items - k" by (auto simp: built_def)
  have h1: "heap2 ! j = heap1 ! j" if "j < ?m" for j using R(3) that by (metis nth_take)
  have ord: "lr < rr" "rr < ?z" using L R by auto
  have h5: "heap5 ! j = heap2 ! j" if "j < ?z" "j \<noteq> lr" "j \<noteq> rr" for j
    using that by (simp add: heap5_def heap4_def heap3_def nth_append)
  have h5z: "heap5 ! ?z = new_node (HashFromByteSlices H items)"
    using ord h1 [of lr] L R by (simp add: heap5_def heap4_def heap3_def nth_append HashFromByteSlices_split [OF n] flip: k)
      (simp add: new_node_def)
  have h5l: "heap5 ! lr = (heap1 ! lr)\<lparr>pn_Parent := Some ?z, pn_Right := Some rr\<rparr>"
    using ord h1 [of lr] L by (simp add: heap5_def heap4_def heap3_def nth_append)
  have h5r: "heap5 ! rr = (heap2 ! rr)\<lparr>pn_Parent := Some ?z, pn_Left := Some lr\<rparr>"
    using ord by (simp add: heap5_def heap4_def heap3_def nth_append)
  have hl: "pn_Hash (heap5 ! lr) = HashFromByteSlices H (take k items)"
    and hr: "pn_Hash (heap5 ! rr) = HashFromByteSlices H (drop k items)"
    using h5l h5r L R by (simp_all add: new_node_def)
  have upl: "climbs heap5 ?a ?z lr [HashFromByteSlices H (drop k items)]"
    using climbs.up [of ?a lr ?z rr heap5 ?z "[]"] climbs.top h5l L R ord hr by (simp add: new_node_def)
  have upr: "climbs heap5 ?a ?z rr [HashFromByteSlices H (take k items)]"
    using climbs.up [of ?a rr ?z lr heap5 ?z "[]"] climbs.top h5r L R ord hl by (simp add: new_node_def)
  have leaf: "(lefts @ rights) ! i \<le> ?z \<and> ?a \<le> (lefts @ rights) ! i
      \<and> pn_Hash (heap5 ! ((lefts @ rights) ! i)) = leafHash H (items ! i)
      \<and> climbs heap5 ?a ?z ((lefts @ rights) ! i) (auntsOf H items i)" if i: "i < length items" for i
  proof (cases "i < k")
    case True
    then have t: "lefts ! i \<le> lr" "?a \<le> lefts ! i" "pn_Hash (heap1 ! (lefts ! i)) = leafHash H (items ! i)"
      "climbs heap1 ?a lr (lefts ! i) (auntsOf H (take k items) i)"
      using l kb by (auto simp: built_def)
    have "climbs heap5 ?a lr (lefts ! i) (auntsOf H (take k items) i)"
      using t(4) by (rule climbs_cong) (use h5 h1 L R ord in auto)
    from climbs_append [OF this upl] have "climbs heap5 ?a ?z (lefts ! i) (auntsOf H items i)"
      using True n kb L R by (subst auntsOf.simps) (simp add: Let_def flip: k)
    moreover have "pn_Hash (heap5 ! (lefts ! i)) = leafHash H (items ! i)"
      using t h5 [of "lefts ! i"] h5l h1 [of "lefts ! i"] L R ord by (cases "lefts ! i = lr") auto
    ultimately show ?thesis using True L R t by (simp add: nth_append)
  next
    case False
    then have t: "rights ! (i - k) \<le> rr" "?m \<le> rights ! (i - k)"
      "pn_Hash (heap2 ! (rights ! (i - k))) = leafHash H (items ! i)"
      "climbs heap2 ?m rr (rights ! (i - k)) (auntsOf H (drop k items) (i - k))"
      using r i kb by (auto simp: built_def)
    have "climbs heap5 ?m rr (rights ! (i - k)) (auntsOf H (drop k items) (i - k))"
      using t(4) by (rule climbs_cong) (use h5 L R ord in auto)
    from climbs_append [OF this upr] have "climbs heap5 ?a ?z (rights ! (i - k)) (auntsOf H items i)"
      using False n kb L R by (subst auntsOf.simps) (simp add: Let_def flip: k)
    moreover have "pn_Hash (heap5 ! (rights ! (i - k))) = leafHash H (items ! i)"
      using t h5 [of "rights ! (i - k)"] h5r L R ord by (cases "rights ! (i - k) = rr") auto
    ultimately show ?thesis using False L R t by (simp add: nth_append)
  qed
  have "take ?a heap5 = heap"
  proof (rule nth_equalityI)
    show "length (take ?a heap5) = ?a" using L R by (simp add: heap5_def heap4_def heap3_def)
    show "take ?a heap5 ! j = heap ! j" if "j < length (take ?a heap5)" for j
      using that h5 [of j] h1 [of j] L R by (metis (no_types, lifting) Suc_lessD less_Suc_eq_le less_le_trans
        length_take min_less_iff_conj nat_less_le not_le nth_take)
  qed
  then show ?thesis
    using leaf h5z L R kb by (simp add: built_def) (simp add: heap5_def heap4_def heap3_def)
qed

lemma trailsFromByteSlices_built: "built H items heap (trailsFromByteSlices H items heap)"
proof (induction H items heap rule: trailsFromByteSlices.induct)
  case (1 H items heap)
  consider "items = []" | x where "items = [x]" | "2 \<le> length items"
    by (cases items; cases "tl items") auto
  then show ?case
  proof cases
    case 1
    then show ?thesis
      by (simp add: trailsFromByteSlices.simps [of H "[]"] built_def HashFromByteSlices.simps [of H "[]"])
  next
    case 2
    then show ?thesis
      by (simp add: trailsFromByteSlices.simps [of H "[_]"] built_def auntsOf.simps [of H "[_]"] climbs.top)
        (simp add: new_node_def)
  next
    case 3
    then have len: "length items \<noteq> 0" "length items \<noteq> 1" by auto
    define k where "k = splitPoint (length items)"
    obtain heap1 lefts lr where T1: "trailsFromByteSlices H (take k items) heap = (heap1, lefts, lr)"
      by (metis prod_cases3)
    obtain heap2 rights rr where T2: "trailsFromByteSlices H (drop k items) heap1 = (heap2, rights, rr)"
      by (metis prod_cases3)
    have "built H (take k items) heap (heap1, lefts, lr)" using 1(1) [OF len k_def] T1 by simp
    moreover have "built H (drop k items) heap1 (heap2, rights, rr)"
      using 1(2) [OF len k_def T1 [symmetric]] T2 by simp
    ultimately show ?thesis
      using built_join [OF 3 k_def] len T1 T2
      by (subst trailsFromByteSlices.simps) (simp add: Let_def flip: k_def)
  qed
qed

lemma ProofsFromByteSlices_eq:
  "ProofsFromByteSlices H items = Some (HashFromByteSlices H items,
     map (\<lambda>i. \<lparr>Total = int (length items), Index = int i, LeafHash = leafHash H (items ! i), Aunts = auntsOf H items i\<rparr>)
       [0..<length items])"
proof -
  obtain heap trails r where T: "trailsFromByteSlices H items [] = (heap, trails, r)" by (metis prod_cases3)
  then have b: "built H items [] (heap, trails, r)" using trailsFromByteSlices_built [of H items "[]"] by simp
  have fl: "FlattenAunts heap (trails ! i) = Some (auntsOf H items i)" if "i < length items" for i
    using b that flattenLoop_climbs [of heap 0 r "trails ! i" "auntsOf H items i" "[]"]
      flattenLoop_root [of heap r "HashFromByteSlices H items"]
    by (simp add: FlattenAunts_def built_def)
  show ?thesis
    using b by (simp add: ProofsFromByteSlices_def T built_def new_node_def)
      (rule those_map_Some, use b fl in \<open>auto simp: built_def\<close>)
qed

section \<open>What a verified proof establishes\<close>

text \<open>The strings hashed while a tree is built, and while a proof is checked.\<close>

function treeInputs :: "(bytes \<Rightarrow> bytes) \<Rightarrow> bytes list \<Rightarrow> bytes list" where
  "treeInputs H items =
     (if length items = 0 then [[]]
      else if length items = 1 then [0 # items ! 0]
      else (let k = splitPoint (length items)
            in (1 # HashFromByteSlices H (take k items) @ HashFromByteSlices H (drop k items))
               # treeInputs H (take k items) @ treeInputs H (drop k items)))"
  by pat_completeness auto
termination
proof (relation "measure (\<lambda>(H, items). length items)", goal_cases)
  case (2 H items k)
  then have l: "2 \<le> length items" by linarith
  then show ?case using 2 splitPoint_less [OF l] by simp
next
  case (3 H items k)
  then have l: "2 \<le> length items" by linarith
  have "length items - splitPoint (length items) < length items"
    using splitPoint_pos [OF l] l by linarith
  then show ?case using 3 by simp
qed simp

declare treeInputs.simps [simp del]

fun pathInputs :: "(bytes \<Rightarrow> bytes) \<Rightarrow> int \<Rightarrow> int \<Rightarrow> bytes \<Rightarrow> bytes list \<Rightarrow> bytes list" where
  "pathInputs H index tot leaf [] = []"
| "pathInputs H index tot leaf (a # hs) =
     (let innerHashes = a # hs; numLeft = int (splitPoint (nat tot)) in
      if index < numLeft
      then (case computeHashFromAunts H index numLeft leaf (butlast innerHashes) of
              None \<Rightarrow> []
            | Some lh \<Rightarrow> (1 # lh @ last innerHashes) # pathInputs H index numLeft leaf (butlast innerHashes))
      else (case computeHashFromAunts H (index - numLeft) (tot - numLeft) leaf (butlast innerHashes) of
              None \<Rightarrow> []
            | Some rh \<Rightarrow> (1 # last innerHashes @ rh)
                # pathInputs H (index - numLeft) (tot - numLeft) leaf (butlast innerHashes)))"

definition collision :: "(bytes \<Rightarrow> bytes) \<Rightarrow> bytes list \<Rightarrow> bytes list \<Rightarrow> bool" where
  "collision H xs ys \<longleftrightarrow> (\<exists>x\<in>set xs. \<exists>y\<in>set ys. x \<noteq> y \<and> H x = H y)"

lemma collision_mono: "collision H a b \<Longrightarrow> set a \<subseteq> set a' \<Longrightarrow> set b \<subseteq> set b' \<Longrightarrow> collision H a' b'"
  unfolding collision_def by blast

lemma collision_heads: "H x = H y \<Longrightarrow> y \<noteq> x \<Longrightarrow> collision H (x # xs) (y # ys)"
  unfolding collision_def by auto

lemma collision_tails: "collision H xs ys \<Longrightarrow> set xs \<subseteq> set xs' \<Longrightarrow> collision H xs' (y # ys)"
  unfolding collision_def by auto

lemma treeInputs_split:
  "2 \<le> length items \<Longrightarrow> k = splitPoint (length items) \<Longrightarrow> treeInputs H items =
    (1 # HashFromByteSlices H (take k items) @ HashFromByteSlices H (drop k items))
     # treeInputs H (take k items) @ treeInputs H (drop k items)"
  by (subst treeInputs.simps) (auto simp: Let_def)

context hash32
begin

lemma length_tree: "length (HashFromByteSlices H items) = 32"
  by (subst HashFromByteSlices.simps) (auto simp: Let_def emptyHash_def leafHash_def innerHash_def length_H)

lemma length_computeHash:
  assumes "computeHashFromAunts H i n lh hs = Some h" and "length lh = 32"
  shows "length h = 32"
proof (cases "n = 1")
  case True
  with assms show ?thesis
    by (subst (asm) computeHashFromAunts.simps) (auto split: if_splits)
next
  case False
  with assms show ?thesis
    by (subst (asm) computeHashFromAunts.simps)
      (auto simp: Let_def innerHash_def length_H split: if_splits option.splits)
qed

lemma computeHash_sound:
  assumes "computeHashFromAunts H (int i) (int (length items)) lh hs = Some (HashFromByteSlices H items)"
    and "i < length items" and "length lh = 32"
  shows "lh = leafHash H (items ! i) \<or> collision H (treeInputs H items) (pathInputs H (int i) (int (length items)) lh hs)"
  using assms
proof (induction "length items" arbitrary: items i hs rule: less_induct)
  case less
  let ?n = "length items" and ?k = "splitPoint (length items)"
  let ?l = "HashFromByteSlices H (take ?k items)" and ?r = "HashFromByteSlices H (drop ?k items)"
  show ?case
  proof (cases "?n \<le> 1")
    case True
    with less.prems(2) have "?n = 1" "i = 0" by auto
    with less.prems(1) show ?thesis
      by (auto simp: length_Suc_conv computeHashFromAunts.simps [of H 0 1] split: if_splits)
  next
    case False
    then have n: "2 \<le> ?n" by simp
    note k = splitPoint_pos [OF n] splitPoint_less [OF n]
    note tin = treeInputs_split [OF n refl]
    have "hs \<noteq> []" using less.prems(1) False by (subst (asm) computeHashFromAunts.simps) (auto split: if_splits)
    then obtain a hs' where hs: "hs = a # hs'" by (cases hs) auto
    show ?thesis
    proof (cases "i < ?k")
      case True
      obtain h where h: "computeHashFromAunts H (int i) (int ?k) lh (butlast hs) = Some h"
        and eq: "innerHash H h (last hs) = innerHash H ?l ?r"
        using less.prems(1,2) False True n
        by (subst (asm) computeHashFromAunts.simps)
          (auto simp: Let_def HashFromByteSlices_split [OF n] split: if_splits option.splits)
      have pin: "pathInputs H (int i) (int ?n) lh hs = (1 # h @ last hs) # pathInputs H (int i) (int ?k) lh (butlast hs)"
        using True h by (simp add: hs Let_def)
      show ?thesis
      proof (cases "1 # h @ last hs = (1::byte) # ?l @ ?r")
        case same: True
        then have "h = ?l" using length_computeHash [OF h less.prems(3)] length_tree by simp
        then have "lh = leafHash H (take ?k items ! i) \<or>
            collision H (treeInputs H (take ?k items)) (pathInputs H (int i) (int (length (take ?k items))) lh (butlast hs))"
          using less.hyps [of "take ?k items" i "butlast hs"] k True h less.prems(3) by simp
        then show ?thesis
        proof
          assume "lh = leafHash H (take ?k items ! i)"
          then show ?thesis using True by simp
        next
          assume "collision H (treeInputs H (take ?k items)) (pathInputs H (int i) (int (length (take ?k items))) lh (butlast hs))"
          then show ?thesis
            using k unfolding tin pin by (intro disjI2 collision_tails [where xs = "treeInputs H (take ?k items)"]) auto
        qed
      next
        case False
        then show ?thesis using eq unfolding tin pin innerHash_def by (intro disjI2 collision_heads) auto
      qed
    next
      case ge: False
      obtain h where h: "computeHashFromAunts H (int (i - ?k)) (int (?n - ?k)) lh (butlast hs) = Some h"
        and eq: "innerHash H (last hs) h = innerHash H ?l ?r"
      proof -
        have c: "\<not> (int ?n \<le> int i \<or> int i < 0 \<or> int ?n \<le> 0)" "int ?n \<noteq> 1" "\<not> int i < int ?k"
          using less.prems(2) n ge by auto
        have d: "int i - int ?k = int (i - ?k)" "int ?n - int ?k = int (?n - ?k)" using ge k by auto
        have "(case computeHashFromAunts H (int (i - ?k)) (int (?n - ?k)) lh (butlast hs) of
            None \<Rightarrow> None | Some rh \<Rightarrow> Some (innerHash H (last hs) rh)) = Some (innerHash H ?l ?r)"
          using less.prems(1) c \<open>hs \<noteq> []\<close>
          by (subst (asm) computeHashFromAunts.simps) (simp only: if_False Let_def nat_int d HashFromByteSlices_split [OF n])
        then show ?thesis using that by (auto split: option.splits)
      qed
      have pin: "pathInputs H (int i) (int ?n) lh hs
          = (1 # last hs @ h) # pathInputs H (int (i - ?k)) (int (?n - ?k)) lh (butlast hs)"
        using ge h k by (simp add: hs Let_def of_nat_diff)
      show ?thesis
      proof (cases "1 # last hs @ h = (1::byte) # ?l @ ?r")
        case same: True
        then have "h = ?r" using length_computeHash [OF h less.prems(3)] length_tree by simp
        then have "lh = leafHash H (drop ?k items ! (i - ?k)) \<or>
            collision H (treeInputs H (drop ?k items)) (pathInputs H (int (i - ?k)) (int (length (drop ?k items))) lh (butlast hs))"
          using less.hyps [of "drop ?k items" "i - ?k" "butlast hs"] k ge h less.prems by simp
        then show ?thesis
        proof
          assume "lh = leafHash H (drop ?k items ! (i - ?k))"
          then show ?thesis using ge less.prems(2) by simp
        next
          assume "collision H (treeInputs H (drop ?k items)) (pathInputs H (int (i - ?k)) (int (length (drop ?k items))) lh (butlast hs))"
          then show ?thesis
            using k unfolding tin pin by (intro disjI2 collision_tails [where xs = "treeInputs H (drop ?k items)"]) auto
        qed
      next
        case False
        then show ?thesis using eq unfolding tin pin innerHash_def by (intro disjI2 collision_heads) auto
      qed
    qed
  qed
qed

lemma leaf_in_treeInputs: "i < length items \<Longrightarrow> 0 # items ! i \<in> set (treeInputs H items)"
proof (induction "length items" arbitrary: items i rule: less_induct)
  case less
  let ?k = "splitPoint (length items)"
  show ?case
  proof (cases "2 \<le> length items")
    case True
    note k = splitPoint_pos [OF True] splitPoint_less [OF True]
    show ?thesis
    proof (cases "i < ?k")
      case i: True
      then have "0 # take ?k items ! i \<in> set (treeInputs H (take ?k items))"
        using k less.prems by (intro less.hyps) auto
      then show ?thesis using i by (simp add: treeInputs_split [OF True refl])
    next
      case False
      then have "0 # drop ?k items ! (i - ?k) \<in> set (treeInputs H (drop ?k items))"
        using k less.prems by (intro less.hyps) auto
      then show ?thesis using False less.prems by (simp add: treeInputs_split [OF True refl])
    qed
  next
    case False
    then have "length items = 1" "i = 0" using less.prems by linarith+
    then show ?thesis by (subst treeInputs.simps) simp
  qed
qed

text \<open>Two lists with the same tree hash are equal, or their trees exhibit a collision: the prefixes of leaves and
  inner nodes keep lists of different lengths apart.\<close>

definition rootInput :: "bytes list \<Rightarrow> bytes" where
  "rootInput xs = hd (treeInputs H xs)"

lemma rootInput_tree: "HashFromByteSlices H xs = H (rootInput xs)" "rootInput xs \<in> set (treeInputs H xs)"
  by (simp_all add: rootInput_def HashFromByteSlices.simps[of H xs] treeInputs.simps[of H xs] Let_def emptyHash_def leafHash_def innerHash_def)

lemma rootInput_cases:
  "rootInput xs = (if xs = [] then [] else if length xs = 1 then 0 # xs ! 0
     else 1 # HashFromByteSlices H (take (splitPoint (length xs)) xs) @ HashFromByteSlices H (drop (splitPoint (length xs)) xs))"
  by (simp add: rootInput_def treeInputs.simps[of H xs] Let_def)

lemma tree_binds:
  assumes "HashFromByteSlices H xs = HashFromByteSlices H ys"
  shows "xs = ys \<or> collision H (treeInputs H xs) (treeInputs H ys)"
  using assms
proof (induction "length xs" arbitrary: xs ys rule: less_induct)
  case less
  have eq: "H (rootInput xs) = H (rootInput ys)" using less.prems rootInput_tree(1) by metis
  show ?case
  proof (cases "rootInput xs = rootInput ys")
    case False
    then show ?thesis using eq rootInput_tree(2) unfolding collision_def by blast
  next
    case True
    show ?thesis
    proof (cases "2 \<le> length xs")
      case False
      then show ?thesis using True
        by (cases xs; cases ys; cases "tl xs"; cases "tl ys") (auto simp: rootInput_cases split: if_splits)
    next
      case n: True
      have "ys \<noteq> []" "length ys \<noteq> 1" using True n by (auto simp: rootInput_cases split: if_splits)
      then have m: "2 \<le> length ys" by (cases ys; cases "tl ys") auto
      let ?k = "splitPoint (length xs)" and ?j = "splitPoint (length ys)" let ?t = "HashFromByteSlices H"
      have "?t (take ?k xs) @ ?t (drop ?k xs) = ?t (take ?j ys) @ ?t (drop ?j ys)"
        using True n m by (simp add: rootInput_cases split: if_splits)
      then have sub: "?t (take ?k xs) = ?t (take ?j ys)" "?t (drop ?k xs) = ?t (drop ?j ys)" using length_tree by auto
      have k: "0 < ?k" "?k < length xs" using n by auto
      have "take ?k xs = take ?j ys \<or> collision H (treeInputs H (take ?k xs)) (treeInputs H (take ?j ys))"
        using k by (intro less.hyps[OF _ sub(1)]) auto
      moreover have "drop ?k xs = drop ?j ys \<or> collision H (treeInputs H (drop ?k xs)) (treeInputs H (drop ?j ys))"
        using k by (intro less.hyps[OF _ sub(2)]) auto
      moreover have "xs = ys" if "take ?k xs = take ?j ys" "drop ?k xs = drop ?j ys" using that by (metis append_take_drop_id)
      moreover have "set (treeInputs H (take ?k xs)) \<union> set (treeInputs H (drop ?k xs)) \<subseteq> set (treeInputs H xs)"
        "set (treeInputs H (take ?j ys)) \<union> set (treeInputs H (drop ?j ys)) \<subseteq> set (treeInputs H ys)"
        unfolding treeInputs_split[OF n refl] treeInputs_split[OF m refl] by auto
      ultimately show ?thesis by (meson Un_subset_iff collision_mono)
    qed
  qed
qed

text \<open>The soundness of \<open>Verify\<close>, with the collision it would otherwise exhibit.\<close>

lemma verify_sound:
  assumes v: "proof_Verify H sp (HashFromByteSlices H items) leaf = None"
    and tot: "Total sp = int (length items)" and ix: "0 \<le> Index sp" "Index sp < int (length items)"
  shows "items ! nat (Index sp) = leaf \<or>
    collision H (treeInputs H items) ((0 # leaf) # pathInputs H (Index sp) (Total sp) (LeafHash sp) (Aunts sp))"
proof -
  let ?i = "nat (Index sp)"
  have lh: "LeafHash sp = H (0 # leaf)" using v by (auto simp: proof_Verify_def leafHash_def split: if_splits)
  have "computeHashFromAunts H (int ?i) (int (length items)) (LeafHash sp) (Aunts sp) = Some (HashFromByteSlices H items)"
    using v tot ix length_tree [of items]
    by (auto simp: proof_Verify_def ComputeRootHash_def split: if_splits option.splits)
  then have "LeafHash sp = leafHash H (items ! ?i) \<or> collision H (treeInputs H items)
      (pathInputs H (int ?i) (int (length items)) (LeafHash sp) (Aunts sp))"
    using ix lh length_H by (intro computeHash_sound) auto
  then show ?thesis
  proof
    assume "LeafHash sp = leafHash H (items ! ?i)"
    then have "H (0 # items ! ?i) = H (0 # leaf)" using lh by (simp add: leafHash_def)
    moreover have "0 # items ! ?i \<in> set (treeInputs H items)" using ix by (intro leaf_in_treeInputs) auto
    ultimately show ?thesis by (auto simp: collision_def)
  next
    assume "collision H (treeInputs H items) (pathInputs H (int ?i) (int (length items)) (LeafHash sp) (Aunts sp))"
    then show ?thesis using tot ix by (auto simp: collision_def)
  qed
qed

end

lemma verified_bytes:
  assumes "\<And>bz. length (H bz) = 32" "proof_Verify H sp (HashFromByteSlices H items) leaf = None"
    "Total sp = int (length items)" "0 \<le> Index sp" "Index sp < int (length items)"
    "\<not> collision H (treeInputs H items) ((0 # leaf) # pathInputs H (Index sp) (Total sp) (LeafHash sp) (Aunts sp))"
  shows "items ! nat (Index sp) = leaf"
  using hash32.verify_sound[of H sp items leaf] assms by (auto intro: hash32.intro)

section \<open>Properties\<close>

text \<open>Property C39: the iterative tree hash computes the same root as the recursive one.\<close>

theorem HashFromByteSlicesIterative_eq: "HashFromByteSlicesIterative H items = HashFromByteSlices H items"
  by (simp add: HashFromByteSlicesIterative_def hashLevels_leaves)

text \<open>Property C37: building proofs on the linked nodes always finishes; the root is the tree hash and
  every proof it returns verifies against that root and its own item.\<close>

theorem generated_proofs_verify:
  "\<exists>proofs. ProofsFromByteSlices H items = Some (HashFromByteSlices H items, proofs)
    \<and> length proofs = length items
    \<and> list_all2 (\<lambda>p item. proof_Verify H p (HashFromByteSlices H items) item = None) proofs items"
  by (simp add: ProofsFromByteSlices_eq list_all2_conv_all_nth proof_Verify_def ComputeRootHash_def
      computeHash_auntsOf)

text \<open>Property C38: a proof that verifies against the root of a list of items, for an index and a total
  of that list, is for the item at that index, unless a string hashed by the check and a different one
  hashed for the tree have the same 32-byte hash.\<close>

theorem verified_proof_is_item:
  assumes "\<And>bz. length (H bz) = 32"
    and "proof_Verify H sp (HashFromByteSlices H items) leaf = None"
    and "Total sp = int (length items)" and "0 \<le> Index sp" and "Index sp < int (length items)"
  shows "items ! nat (Index sp) = leaf \<or>
    collision H (treeInputs H items) ((0 # leaf) # pathInputs H (Index sp) (Total sp) (LeafHash sp) (Aunts sp))"
  using assms by (intro hash32.verify_sound) (auto intro: hash32.intro)

theorem verified_proof_is_item_witness:
  "[[7], [8]] ! 1 = [8::byte] \<or>
    collision srhash_Sum (treeInputs srhash_Sum [[7], [8]])
      ((0 # [8]) # pathInputs srhash_Sum 1 2 (leafHash srhash_Sum [8]) [leafHash srhash_Sum [7]])"
proof -
  let ?sp = "\<lparr>Total = 2, Index = 1, LeafHash = leafHash srhash_Sum [8], Aunts = [leafHash srhash_Sum [7]]\<rparr>"
  have "splitPoint 2 = 1" using splitPoint_unique [of 0 2] by simp
  then have "proof_Verify srhash_Sum ?sp (HashFromByteSlices srhash_Sum [[7], [8]]) [8] = None"
    by (simp add: proof_Verify_def ComputeRootHash_def computeHashFromAunts.simps [of srhash_Sum 1 2]
        computeHashFromAunts.simps [of srhash_Sum 0 1] HashFromByteSlices_split numeral_2_eq_2)
  then show ?thesis
    using verified_proof_is_item [of srhash_Sum ?sp "[[7], [8]]" "[8]"] by (simp add: length_srhash_Sum)
qed

end
