(* ===== verification/Canonical.thy ===== *)
theory Canonical
  imports Wire Merkle
begin

text \<open>
  \<open>types/blockID.go\<close>, the part set header of \<open>types/part_set.go\<close>, \<open>types/canonical.go\<close> and the
  generated encodings of \<open>proto/types/canonical.pb.go\<close> and \<open>types_types.pb.go\<close> that sign bytes and block
  keys are made of. The generated structs \<open>types.BlockID\<close> and \<open>types.PartSetHeader\<close> have the fields of
  the hand-written ones, so both are the same record here and \<open>ToProto\<close> is the identity.
\<close>

section \<open>Part set headers and block ids\<close>

record PartSetHeader =
  psTotal :: int
  psHash :: bytes

record BlockID =
  bidHash :: bytes
  bidParts :: PartSetHeader

definition zero_psh :: PartSetHeader where "zero_psh = \<lparr>psTotal = 0, psHash = []\<rparr>"
definition zero_bid :: BlockID where "zero_bid = \<lparr>bidHash = [], bidParts = zero_psh\<rparr>"

definition psh_IsZero :: "PartSetHeader \<Rightarrow> bool" where
  "psh_IsZero p \<longleftrightarrow> psTotal p = 0 \<and> length (psHash p) = 0"

definition psh_Equals :: "PartSetHeader \<Rightarrow> PartSetHeader \<Rightarrow> bool" where
  "psh_Equals p q \<longleftrightarrow> psTotal p = psTotal q \<and> psHash p = psHash q"

definition psh_ValidateBasic :: "PartSetHeader \<Rightarrow> bool" where
  "psh_ValidateBasic p \<longleftrightarrow> ValidateHash (psHash p)"

definition bid_Equals :: "BlockID \<Rightarrow> BlockID \<Rightarrow> bool" where
  "bid_Equals a b \<longleftrightarrow> bidHash a = bidHash b \<and> psh_Equals (bidParts a) (bidParts b)"

definition bid_ValidateBasic :: "BlockID \<Rightarrow> bool" where
  "bid_ValidateBasic b \<longleftrightarrow> ValidateHash (bidHash b) \<and> psh_ValidateBasic (bidParts b)"

definition bid_IsZero :: "BlockID \<Rightarrow> bool" where
  "bid_IsZero b \<longleftrightarrow> length (bidHash b) = 0 \<and> psh_IsZero (bidParts b)"

definition bid_IsComplete :: "BlockID \<Rightarrow> bool" where
  "bid_IsComplete b \<longleftrightarrow>
     length (bidHash b) = srhash_Size \<and> 0 < psTotal (bidParts b) \<and> length (psHash (bidParts b)) = srhash_Size"

text \<open>A field that is left out when it has its zero value.\<close>

definition opt :: "bool \<Rightarrow> bytes \<Rightarrow> bytes" where
  "opt c b = (if c then b else [])"

definition psh_Marshal :: "PartSetHeader \<Rightarrow> bytes" where
  "psh_Marshal p =
     opt (psTotal p \<noteq> 0) (tag 1 0 @ putUvarint (word_of_int (psTotal p))) @
     opt (0 < length (psHash p)) (tag 2 2 @ putLen (psHash p))"

definition bid_Key :: "BlockID \<Rightarrow> bytes" where
  "bid_Key b = bidHash b @ psh_Marshal (bidParts b)"

text \<open>\<open>PartSetHeaderFromProto\<close> and \<open>BlockIDFromProto\<close>: \<open>None\<close> is the error.\<close>

definition PartSetHeaderFromProto :: "PartSetHeader \<Rightarrow> PartSetHeader option" where
  "PartSetHeaderFromProto p = (if psh_ValidateBasic p then Some p else None)"

definition BlockIDFromProto :: "BlockID \<Rightarrow> BlockID option" where
  "BlockIDFromProto b =
     (case PartSetHeaderFromProto (bidParts b) of
        None \<Rightarrow> None
      | Some ph \<Rightarrow>
          let blockID = \<lparr>bidHash = bidHash b, bidParts = ph\<rparr>
          in if bid_ValidateBasic blockID then Some blockID else None)"

lemma bid_Equals_iff [simp]: "bid_Equals a b \<longleftrightarrow> a = b"
  by (cases a; cases b) (auto simp: bid_Equals_def psh_Equals_def)

lemma psh_Equals_iff [simp]: "psh_Equals a b \<longleftrightarrow> a = b"
  by (cases a; cases b) (auto simp: psh_Equals_def)

lemma bid_IsZero_iff: "bid_IsZero b \<longleftrightarrow> b = zero_bid"
  by (cases b) (auto simp: bid_IsZero_def psh_IsZero_def zero_bid_def zero_psh_def)

lemma BlockIDFromProto_eq: "BlockIDFromProto b = (if bid_ValidateBasic b then Some b else None)"
  by (simp add: BlockIDFromProto_def PartSetHeaderFromProto_def bid_ValidateBasic_def Let_def)

lemma bid_complete_not_zero: "bid_IsComplete b \<Longrightarrow> \<not> bid_IsZero b"
  by (auto simp: bid_IsComplete_def bid_IsZero_def srhash_Size_def)

lemma bid_complete_valid: "bid_IsComplete b \<Longrightarrow> bid_ValidateBasic b"
  by (simp add: bid_IsComplete_def bid_ValidateBasic_def psh_ValidateBasic_def ValidateHash_def srhash_Size_def)

lemma bid_zero_valid: "bid_IsZero b \<Longrightarrow> bid_ValidateBasic b"
  by (simp add: bid_IsZero_def bid_ValidateBasic_def psh_IsZero_def psh_ValidateBasic_def ValidateHash_def)


section \<open>Canonical messages\<close>

record CanonicalPartSetHeader =
  cpTotal :: int
  cpHash :: bytes
  cpUnrec :: bytes

record CanonicalBlockID =
  cbHash :: bytes
  cbParts :: CanonicalPartSetHeader
  cbUnrec :: bytes

record CanonicalVote =
  cvType :: int
  cvHeight :: int
  cvRound :: int
  cvBlockID :: "CanonicalBlockID option"
  cvTimestamp :: int
  cvChainID :: bytes
  cvUnrec :: bytes

record CanonicalPrePrepare =
  ppType :: int
  ppHeight :: int
  ppRound :: int
  ppPOLRound :: int
  ppBlockID :: "CanonicalBlockID option"
  ppTimestamp :: int
  ppChainID :: bytes
  ppUnrec :: bytes

text \<open>What the code takes from outside the repository, and the hash: \<open>ed25519\<close> of the Go library for
  signatures, gogo/protobuf for the encoding of a \<open>time.Time\<close> and for \<open>proto.Equal\<close>. A \<open>time.Time\<close> is its instant in
  nanoseconds, \<open>0\<close> the zero time.\<close>

record env =
  e_Sum :: "bytes \<Rightarrow> bytes"
  e_verify :: "bytes \<Rightarrow> bytes \<Rightarrow> bytes \<Rightarrow> bool"
  e_sign :: "bytes \<Rightarrow> bytes \<Rightarrow> bytes"
  e_timeEnc :: "int \<Rightarrow> bytes option"
  e_timeDec :: "bytes \<Rightarrow> int option"
  e_equalVote :: "CanonicalVote \<Rightarrow> CanonicalVote \<Rightarrow> bool"
  e_equalPrePrepare :: "CanonicalPrePrepare \<Rightarrow> CanonicalPrePrepare \<Rightarrow> bool"

text \<open>The laws the proofs use of them, each as a named hypothesis.\<close>

definition time_codec :: "env \<Rightarrow> bool" where
  "time_codec E \<longleftrightarrow> (\<forall>t b. e_timeEnc E t = Some b \<longrightarrow> e_timeDec E b = Some t)"

definition proto_equal :: "env \<Rightarrow> bool" where
  "proto_equal E \<longleftrightarrow> (\<forall>a b. e_equalVote E a b \<longleftrightarrow> a = b) \<and> (\<forall>a b. e_equalPrePrepare E a b \<longleftrightarrow> a = b)"

definition zero_cpsh :: CanonicalPartSetHeader where
  "zero_cpsh = \<lparr>cpTotal = 0, cpHash = [], cpUnrec = []\<rparr>"

definition zero_cbid :: CanonicalBlockID where
  "zero_cbid = \<lparr>cbHash = [], cbParts = zero_cpsh, cbUnrec = []\<rparr>"

definition zero_cvote :: CanonicalVote where
  "zero_cvote = \<lparr>cvType = 0, cvHeight = 0, cvRound = 0, cvBlockID = None, cvTimestamp = 0, cvChainID = [], cvUnrec = []\<rparr>"

definition zero_cpp :: CanonicalPrePrepare where
  "zero_cpp = \<lparr>ppType = 0, ppHeight = 0, ppRound = 0, ppPOLRound = 0, ppBlockID = None, ppTimestamp = 0,
     ppChainID = [], ppUnrec = []\<rparr>"

subsection \<open>Marshal\<close>

definition cpsh_Marshal :: "CanonicalPartSetHeader \<Rightarrow> bytes" where
  "cpsh_Marshal m =
     opt (cpTotal m \<noteq> 0) (tag 1 0 @ putUvarint (word_of_int (cpTotal m))) @
     opt (0 < length (cpHash m)) (tag 2 2 @ putLen (cpHash m)) @ cpUnrec m"

definition cbid_Marshal :: "CanonicalBlockID \<Rightarrow> bytes" where
  "cbid_Marshal m =
     opt (0 < length (cbHash m)) (tag 1 2 @ putLen (cbHash m)) @
     tag 2 2 @ putLen (cpsh_Marshal (cbParts m)) @ cbUnrec m"

definition cvote_Marshal :: "env \<Rightarrow> CanonicalVote \<Rightarrow> bytes option" where
  "cvote_Marshal E m =
     (case e_timeEnc E (cvTimestamp m) of
        None \<Rightarrow> None
      | Some t \<Rightarrow> Some (
          opt (cvType m \<noteq> 0) (tag 1 0 @ putUvarint (word_of_int (cvType m))) @
          opt (cvHeight m \<noteq> 0) (tag 2 1 @ putUint64 (word_of_int (cvHeight m))) @
          opt (cvRound m \<noteq> 0) (tag 3 1 @ putUint64 (word_of_int (cvRound m))) @
          (case cvBlockID m of None \<Rightarrow> [] | Some b \<Rightarrow> tag 4 2 @ putLen (cbid_Marshal b)) @
          tag 5 2 @ putLen t @
          opt (0 < length (cvChainID m)) (tag 6 2 @ putLen (cvChainID m)) @ cvUnrec m))"

definition cpp_Marshal :: "env \<Rightarrow> CanonicalPrePrepare \<Rightarrow> bytes option" where
  "cpp_Marshal E m =
     (case e_timeEnc E (ppTimestamp m) of
        None \<Rightarrow> None
      | Some t \<Rightarrow> Some (
          opt (ppType m \<noteq> 0) (tag 1 0 @ putUvarint (word_of_int (ppType m))) @
          opt (ppHeight m \<noteq> 0) (tag 2 1 @ putUint64 (word_of_int (ppHeight m))) @
          opt (ppRound m \<noteq> 0) (tag 3 1 @ putUint64 (word_of_int (ppRound m))) @
          opt (ppPOLRound m \<noteq> 0) (tag 4 0 @ putUvarint (word_of_int (ppPOLRound m))) @
          (case ppBlockID m of None \<Rightarrow> [] | Some b \<Rightarrow> tag 5 2 @ putLen (cbid_Marshal b)) @
          tag 6 2 @ putLen t @
          opt (0 < length (ppChainID m)) (tag 7 2 @ putLen (ppChainID m)) @ ppUnrec m))"

subsection \<open>Unmarshal\<close>

definition cpsh_Unmarshal :: "bytes \<Rightarrow> CanonicalPartSetHeader \<Rightarrow> wire_error + CanonicalPartSetHeader" where
  "cpsh_Unmarshal dAtA =
     unmarshalLoop
       (\<lambda>f. if f = 1 then Some 0 else if f = 2 then Some 2 else None)
       (\<lambda>f v m. case v of
          Varint w \<Rightarrow> Inr (m\<lparr>cpTotal := uint (ucast w :: 32 word)\<rparr>)
        | LenBytes b \<Rightarrow> Inr (m\<lparr>cpHash := b\<rparr>)
        | _ \<Rightarrow> Inl ErrWrongWireType)
       (\<lambda>b m. m\<lparr>cpUnrec := cpUnrec m @ b\<rparr>) (length dAtA) dAtA"

definition cbid_Unmarshal :: "bytes \<Rightarrow> CanonicalBlockID \<Rightarrow> wire_error + CanonicalBlockID" where
  "cbid_Unmarshal dAtA =
     unmarshalLoop
       (\<lambda>f. if f = 1 \<or> f = 2 then Some 2 else None)
       (\<lambda>f v m. case v of
          LenBytes b \<Rightarrow>
            if f = 1 then Inr (m\<lparr>cbHash := b\<rparr>)
            else (case cpsh_Unmarshal b (cbParts m) of Inl e \<Rightarrow> Inl e | Inr p \<Rightarrow> Inr (m\<lparr>cbParts := p\<rparr>))
        | _ \<Rightarrow> Inl ErrWrongWireType)
       (\<lambda>b m. m\<lparr>cbUnrec := cbUnrec m @ b\<rparr>) (length dAtA) dAtA"

definition unmarshalBlockID :: "bytes \<Rightarrow> CanonicalBlockID option \<Rightarrow> wire_error + CanonicalBlockID" where
  "unmarshalBlockID b m = cbid_Unmarshal b (case m of None \<Rightarrow> zero_cbid | Some x \<Rightarrow> x)"

definition cvote_Unmarshal :: "env \<Rightarrow> bytes \<Rightarrow> CanonicalVote \<Rightarrow> wire_error + CanonicalVote" where
  "cvote_Unmarshal E dAtA =
     unmarshalLoop
       (\<lambda>f. if f = 1 then Some 0 else if f = 2 \<or> f = 3 then Some 1 else if f = 4 \<or> f = 5 \<or> f = 6 then Some 2 else None)
       (\<lambda>f v m. case v of
          Varint w \<Rightarrow> Inr (m\<lparr>cvType := sint (ucast w :: 32 word)\<rparr>)
        | Fixed64 w \<Rightarrow> if f = 2 then Inr (m\<lparr>cvHeight := sint w\<rparr>) else Inr (m\<lparr>cvRound := sint w\<rparr>)
        | LenBytes b \<Rightarrow>
            if f = 4 then (case unmarshalBlockID b (cvBlockID m) of Inl e \<Rightarrow> Inl e | Inr x \<Rightarrow> Inr (m\<lparr>cvBlockID := Some x\<rparr>))
            else if f = 5 then (case e_timeDec E b of None \<Rightarrow> Inl ErrTime | Some t \<Rightarrow> Inr (m\<lparr>cvTimestamp := t\<rparr>))
            else Inr (m\<lparr>cvChainID := b\<rparr>)
        | _ \<Rightarrow> Inl ErrWrongWireType)
       (\<lambda>b m. m\<lparr>cvUnrec := cvUnrec m @ b\<rparr>) (length dAtA) dAtA"

definition cpp_Unmarshal :: "env \<Rightarrow> bytes \<Rightarrow> CanonicalPrePrepare \<Rightarrow> wire_error + CanonicalPrePrepare" where
  "cpp_Unmarshal E dAtA =
     unmarshalLoop
       (\<lambda>f. if f = 1 \<or> f = 4 then Some 0 else if f = 2 \<or> f = 3 then Some 1
            else if f = 5 \<or> f = 6 \<or> f = 7 then Some 2 else None)
       (\<lambda>f v m. case v of
          Varint w \<Rightarrow>
            if f = 1 then Inr (m\<lparr>ppType := sint (ucast w :: 32 word)\<rparr>) else Inr (m\<lparr>ppPOLRound := sint w\<rparr>)
        | Fixed64 w \<Rightarrow> if f = 2 then Inr (m\<lparr>ppHeight := sint w\<rparr>) else Inr (m\<lparr>ppRound := sint w\<rparr>)
        | LenBytes b \<Rightarrow>
            if f = 5 then (case unmarshalBlockID b (ppBlockID m) of Inl e \<Rightarrow> Inl e | Inr x \<Rightarrow> Inr (m\<lparr>ppBlockID := Some x\<rparr>))
            else if f = 6 then (case e_timeDec E b of None \<Rightarrow> Inl ErrTime | Some t \<Rightarrow> Inr (m\<lparr>ppTimestamp := t\<rparr>))
            else Inr (m\<lparr>ppChainID := b\<rparr>)
        | _ \<Rightarrow> Inl ErrWrongWireType)
       (\<lambda>b m. m\<lparr>ppUnrec := ppUnrec m @ b\<rparr>) (length dAtA) dAtA"

subsection \<open>Round trips\<close>

text \<open>The values the fields can hold: the integers have their width and there is nothing unrecognized.\<close>

definition cpsh_ok :: "CanonicalPartSetHeader \<Rightarrow> bool" where
  "cpsh_ok m \<longleftrightarrow> 0 \<le> cpTotal m \<and> cpTotal m < 2 ^ 32 \<and> cpUnrec m = []"

definition cbid_ok :: "CanonicalBlockID \<Rightarrow> bool" where
  "cbid_ok m \<longleftrightarrow> cpsh_ok (cbParts m) \<and> cbUnrec m = []"

definition cvote_ok :: "CanonicalVote \<Rightarrow> bool" where
  "cvote_ok m \<longleftrightarrow> in_range 32 (cvType m) \<and> in_range 64 (cvHeight m) \<and> in_range 64 (cvRound m) \<and>
     pred_option cbid_ok (cvBlockID m) \<and> cvUnrec m = []"

definition cpp_ok :: "CanonicalPrePrepare \<Rightarrow> bool" where
  "cpp_ok m \<longleftrightarrow> in_range 32 (ppType m) \<and> in_range 64 (ppHeight m) \<and> in_range 64 (ppRound m) \<and>
     in_range 64 (ppPOLRound m) \<and> pred_option cbid_ok (ppBlockID m) \<and> ppUnrec m = []"

lemma sint64_word_of_int: "in_range 64 x \<Longrightarrow> sint (word_of_int x :: 64 word) = x"
  by (simp add: in_range_def sint_uint unsigned_of_int signed_take_bit_take_bit signed_take_bit_int_eq_self)

lemma int32_of_uint64: "in_range 32 x \<Longrightarrow> sint (ucast (word_of_int x :: 64 word) :: 32 word) = x"
  by (simp add: in_range_def sint_uint unsigned_of_int signed_take_bit_take_bit signed_take_bit_int_eq_self ucast_eq)

lemma uint32_of_uint64: "0 \<le> x \<Longrightarrow> x < 2 ^ 32 \<Longrightarrow> uint (ucast (word_of_int x :: 64 word) :: 32 word) = x"
  by (simp add: unsigned_of_int take_bit_int_eq_self ucast_eq)

lemmas wire_ints = sint64_word_of_int int32_of_uint64 uint32_of_uint64
lemmas wire_fields = unmarshal_Varint unmarshal_Fixed64 unmarshal_LenBytes
  unmarshal_Varint[where r = "[]", unfolded append_Nil2] unmarshal_LenBytes[where r = "[]", unfolded append_Nil2]

lemma cpsh_roundtrip:
  assumes "cpsh_ok m" "int (length (cpsh_Marshal m)) \<le> MaxInt64"
  shows "cpsh_Unmarshal (cpsh_Marshal m) zero_cpsh = Inr m"
  using assms unfolding cpsh_Unmarshal_def
  by (auto simp: cpsh_Marshal_def cpsh_ok_def opt_def zero_cpsh_def wire_fields wire_ints)


lemma cbid_roundtrip:
  assumes "cbid_ok m" "int (length (cbid_Marshal m)) \<le> MaxInt64"
  shows "cbid_Unmarshal (cbid_Marshal m) zero_cbid = Inr m"
proof -
  have "int (length (cpsh_Marshal (cbParts m))) \<le> MaxInt64"
    using assms(2) by (simp add: cbid_Marshal_def putLen_def)
  then have p: "cpsh_Unmarshal (cpsh_Marshal (cbParts m)) zero_cpsh = Inr (cbParts m)"
    using assms(1) by (simp add: cbid_ok_def cpsh_roundtrip)
  show ?thesis
    using assms p unfolding cbid_Unmarshal_def
    by (auto simp: cbid_Marshal_def cbid_ok_def opt_def zero_cbid_def wire_fields)
qed

lemma cvote_roundtrip:
  assumes E: "time_codec E" and ok: "cvote_ok m" and enc: "cvote_Marshal E m = Some b"
    and len: "int (length b) \<le> MaxInt64"
  shows "cvote_Unmarshal E b zero_cvote = Inr m"
proof -
  obtain t where t: "e_timeEnc E (cvTimestamp m) = Some t" "e_timeDec E t = Some (cvTimestamp m)"
    using E enc by (auto simp: cvote_Marshal_def time_codec_def split: option.splits)
  have bid: "cbid_Unmarshal (cbid_Marshal x) zero_cbid = Inr x" if "cvBlockID m = Some x" for x
    using that ok len enc t by (intro cbid_roundtrip) (auto simp: cvote_ok_def cvote_Marshal_def putLen_def)
  have b: "b = the (cvote_Marshal E m)" using enc by simp
  show ?thesis
    using ok len t bid unfolding cvote_Unmarshal_def
    by (cases "cvBlockID m")
      (auto simp: b cvote_Marshal_def cvote_ok_def opt_def zero_cvote_def wire_fields wire_ints unmarshalBlockID_def simp del: One_nat_def)
qed

lemma cpp_roundtrip:
  assumes E: "time_codec E" and ok: "cpp_ok m" and enc: "cpp_Marshal E m = Some b"
    and len: "int (length b) \<le> MaxInt64"
  shows "cpp_Unmarshal E b zero_cpp = Inr m"
proof -
  obtain t where t: "e_timeEnc E (ppTimestamp m) = Some t" "e_timeDec E t = Some (ppTimestamp m)"
    using E enc by (auto simp: cpp_Marshal_def time_codec_def split: option.splits)
  have bid: "cbid_Unmarshal (cbid_Marshal x) zero_cbid = Inr x" if "ppBlockID m = Some x" for x
    using that ok len enc t by (intro cbid_roundtrip) (auto simp: cpp_ok_def cpp_Marshal_def putLen_def)
  have b: "b = the (cpp_Marshal E m)" using enc by simp
  show ?thesis
    using ok len t bid unfolding cpp_Unmarshal_def
    by (cases "ppBlockID m")
      (auto simp: b cpp_Marshal_def cpp_ok_def opt_def zero_cpp_def wire_fields wire_ints unmarshalBlockID_def simp del: One_nat_def)
qed

end
