(* ===== verification/Votes.thy ===== *)
theory Votes
  imports Canonical
begin

text \<open>
  The signed messages: \<open>Vote\<close> (\<open>types/vote.go\<close>), \<open>PrePrepare\<close> (\<open>types/pre_prepare.go\<close>), the canonical
  forms they are signed in (\<open>types/canonical.go\<close>) and the ed25519 public keys that check them
  (\<open>crypto/ed25519/ed25519.go\<close>). \<open>None\<close> is a panic where the Go function has one.
\<close>

section \<open>Public keys\<close>

definition PubKeySize :: nat where "PubKeySize = 32"
definition SignatureSize :: nat where "SignatureSize = 64"
definition AddressSize :: nat where "AddressSize = 20"

definition pk_Address :: "env \<Rightarrow> bytes \<Rightarrow> bytes option" where
  "pk_Address E pk = (if length pk \<noteq> PubKeySize then None else Some (SumTruncated (e_Sum E) pk))"

text \<open>\<open>ed25519.Verify\<close> of the Go library panics on a key of the wrong size.\<close>

definition pk_VerifySignature :: "env \<Rightarrow> bytes \<Rightarrow> bytes \<Rightarrow> bytes \<Rightarrow> bool option" where
  "pk_VerifySignature E pk msg sig =
     (if length sig \<noteq> SignatureSize then Some False
      else if length pk \<noteq> PubKeySize then None
      else Some (e_verify E pk msg sig))"

text \<open>So does \<open>ed25519.Sign\<close> on a private key that is not 64 bytes long.\<close>

definition sk_Sign :: "env \<Rightarrow> bytes \<Rightarrow> bytes \<Rightarrow> bytes option" where
  "sk_Sign E sk msg = (if length sk \<noteq> 64 then None else Some (e_sign E sk msg))"

section \<open>Message types\<close>

definition UnknownType :: int where "UnknownType = 0"
definition PrepareType :: int where "PrepareType = 1"
definition CommitType :: int where "CommitType = 2"
definition PrePrepareType :: int where "PrePrepareType = 32"

definition IsVoteTypeValid :: "int \<Rightarrow> bool" where
  "IsVoteTypeValid t \<longleftrightarrow> t = PrepareType \<or> t = CommitType"

record Vote =
  vType :: int
  vHeight :: int
  vRound :: int
  vBlockID :: BlockID
  vTimestamp :: int
  vAddress :: bytes
  vIndex :: int
  vSignature :: bytes

record PrePrepare =
  prType :: int
  prHeight :: int
  prRound :: int
  prPOLRound :: int
  prBlockID :: BlockID
  prTimestamp :: int
  prSignature :: bytes

section \<open>Canonical forms and sign bytes\<close>

definition CanonicalizePartSetHeader :: "PartSetHeader \<Rightarrow> CanonicalPartSetHeader" where
  "CanonicalizePartSetHeader p = \<lparr>cpTotal = psTotal p, cpHash = psHash p, cpUnrec = []\<rparr>"

definition CanonicalizeBlockID :: "BlockID \<Rightarrow> CanonicalBlockID option option" where
  "CanonicalizeBlockID b =
     (case BlockIDFromProto b of
        None \<Rightarrow> None
      | Some rbid \<Rightarrow>
          if bid_IsZero rbid then Some None
          else Some (Some \<lparr>cbHash = bidHash b, cbParts = CanonicalizePartSetHeader (bidParts b), cbUnrec = []\<rparr>))"

definition CanonicalizeVote :: "bytes \<Rightarrow> Vote \<Rightarrow> CanonicalVote option" where
  "CanonicalizeVote chainID v =
     (case CanonicalizeBlockID (vBlockID v) of
        None \<Rightarrow> None
      | Some b \<Rightarrow> Some \<lparr>cvType = vType v, cvHeight = vHeight v, cvRound = vRound v, cvBlockID = b,
          cvTimestamp = vTimestamp v, cvChainID = chainID, cvUnrec = []\<rparr>)"

definition CanonicalizePrePrepare :: "bytes \<Rightarrow> PrePrepare \<Rightarrow> CanonicalPrePrepare option" where
  "CanonicalizePrePrepare chainID p =
     (case CanonicalizeBlockID (prBlockID p) of
        None \<Rightarrow> None
      | Some b \<Rightarrow> Some \<lparr>ppType = PrePrepareType, ppHeight = prHeight p, ppRound = prRound p, ppPOLRound = prPOLRound p,
          ppBlockID = b, ppTimestamp = prTimestamp p, ppChainID = chainID, ppUnrec = []\<rparr>)"

definition VoteSignBytes :: "env \<Rightarrow> bytes \<Rightarrow> Vote \<Rightarrow> bytes option" where
  "VoteSignBytes E chainID v =
     (case CanonicalizeVote chainID v of
        None \<Rightarrow> None
      | Some pb \<Rightarrow> map_option MarshalDelimited (cvote_Marshal E pb))"

definition PrePrepareSignBytes :: "env \<Rightarrow> bytes \<Rightarrow> PrePrepare \<Rightarrow> bytes option" where
  "PrePrepareSignBytes E chainID p =
     (case CanonicalizePrePrepare chainID p of
        None \<Rightarrow> None
      | Some pb \<Rightarrow> map_option MarshalDelimited (cpp_Marshal E pb))"

section \<open>Validation\<close>

datatype basic_error =
    InvalidType | NegativeHeight | NegativeRound | NegativePOLRound | WrongBlockID
  | BlockIDNotZeroOrComplete | BlockIDNotComplete | WrongAddressSize | NegativeIndex
  | SignatureMissing | SignatureTooBig

definition vote_ValidateBasic :: "Vote \<Rightarrow> basic_error option" where
  "vote_ValidateBasic v =
     (if \<not> IsVoteTypeValid (vType v) then Some InvalidType
      else if vHeight v < 0 then Some NegativeHeight
      else if vRound v < 0 then Some NegativeRound
      else if \<not> bid_ValidateBasic (vBlockID v) then Some WrongBlockID
      else if \<not> bid_IsZero (vBlockID v) \<and> \<not> bid_IsComplete (vBlockID v) then Some BlockIDNotZeroOrComplete
      else if length (vAddress v) \<noteq> AddressSize then Some WrongAddressSize
      else if vIndex v < 0 then Some NegativeIndex
      else if length (vSignature v) = 0 then Some SignatureMissing
      else if 64 < length (vSignature v) then Some SignatureTooBig
      else None)"

definition pp_ValidateBasic :: "PrePrepare \<Rightarrow> basic_error option" where
  "pp_ValidateBasic p =
     (if prType p \<noteq> PrePrepareType then Some InvalidType
      else if prHeight p < 0 then Some NegativeHeight
      else if prRound p < 0 then Some NegativeRound
      else if prPOLRound p < -1 then Some NegativePOLRound
      else if \<not> bid_ValidateBasic (prBlockID p) then Some WrongBlockID
      else if \<not> bid_IsComplete (prBlockID p) then Some BlockIDNotComplete
      else if length (prSignature p) = 0 then Some SignatureMissing
      else if 64 < length (prSignature p) then Some SignatureTooBig
      else None)"

definition VoteFromProto :: "Vote \<Rightarrow> basic_error + Vote" where
  "VoteFromProto pv =
     (case BlockIDFromProto (vBlockID pv) of
        None \<Rightarrow> Inl WrongBlockID
      | Some b \<Rightarrow>
          let vote = pv\<lparr>vBlockID := b\<rparr>
          in case vote_ValidateBasic vote of Some e \<Rightarrow> Inl e | None \<Rightarrow> Inr vote)"

definition PrePrepareFromProto :: "PrePrepare \<Rightarrow> basic_error + PrePrepare" where
  "PrePrepareFromProto pp =
     (case BlockIDFromProto (prBlockID pp) of
        None \<Rightarrow> Inl WrongBlockID
      | Some b \<Rightarrow>
          let p = pp\<lparr>prBlockID := b\<rparr>
          in case pp_ValidateBasic p of Some e \<Rightarrow> Inl e | None \<Rightarrow> Inr p)"

datatype verify_error = ErrVoteInvalidValidatorAddress | ErrVoteInvalidSignature

definition vote_Verify :: "env \<Rightarrow> bytes \<Rightarrow> bytes \<Rightarrow> Vote \<Rightarrow> verify_error option option" where
  "vote_Verify E chainID pk v =
     (case pk_Address E pk of
        None \<Rightarrow> None
      | Some a \<Rightarrow>
          if a \<noteq> vAddress v then Some (Some ErrVoteInvalidValidatorAddress)
          else (case VoteSignBytes E chainID v of
              None \<Rightarrow> None
            | Some sb \<Rightarrow>
                (case pk_VerifySignature E pk sb (vSignature v) of
                   None \<Rightarrow> None
                 | Some ok \<Rightarrow> Some (if ok then None else Some ErrVoteInvalidSignature))))"


section \<open>Sign bytes and keys determine what they encode\<close>

definition bid_typed :: "BlockID \<Rightarrow> bool" where
  "bid_typed b \<longleftrightarrow> 0 \<le> psTotal (bidParts b) \<and> psTotal (bidParts b) < 2 ^ 32"

definition vote_typed :: "Vote \<Rightarrow> bool" where
  "vote_typed v \<longleftrightarrow> in_range 32 (vType v) \<and> in_range 64 (vHeight v) \<and> in_range 32 (vRound v) \<and> bid_typed (vBlockID v)"

definition pp_typed :: "PrePrepare \<Rightarrow> bool" where
  "pp_typed p \<longleftrightarrow> in_range 64 (prHeight p) \<and> in_range 32 (prRound p) \<and> in_range 32 (prPOLRound p) \<and> bid_typed (prBlockID p)"

lemma in_range_32_64: "in_range 32 x \<Longrightarrow> in_range 64 x"
  by (simp add: in_range_def)

lemma CanonicalizeBlockID_ok: "CanonicalizeBlockID b = Some c \<Longrightarrow> bid_typed b \<Longrightarrow> pred_option cbid_ok c"
  by (auto simp: CanonicalizeBlockID_def CanonicalizePartSetHeader_def bid_typed_def cbid_ok_def cpsh_ok_def
      split: option.splits if_splits)

lemma CanonicalizeBlockID_inj:
  "CanonicalizeBlockID a = Some c \<Longrightarrow> CanonicalizeBlockID b = Some c \<Longrightarrow> a = b"
  by (auto simp: CanonicalizeBlockID_def CanonicalizePartSetHeader_def BlockIDFromProto_eq bid_IsZero_iff
      split: option.splits if_splits intro!: BlockID.equality PartSetHeader.equality)

lemma CanonicalizeVote_ok: "CanonicalizeVote c v = Some pb \<Longrightarrow> vote_typed v \<Longrightarrow> cvote_ok pb"
  by (auto simp: CanonicalizeVote_def vote_typed_def cvote_ok_def in_range_32_64 split: option.splits
      dest: CanonicalizeBlockID_ok)

lemma CanonicalizePrePrepare_ok: "CanonicalizePrePrepare c p = Some pb \<Longrightarrow> pp_typed p \<Longrightarrow> cpp_ok pb"
  by (auto simp: CanonicalizePrePrepare_def pp_typed_def cpp_ok_def in_range_32_64 PrePrepareType_def in_range_def
      split: option.splits dest: CanonicalizeBlockID_ok)

lemma VoteSignBytes_signature [simp]: "VoteSignBytes E c (v\<lparr>vSignature := s\<rparr>) = VoteSignBytes E c v"
  by (simp add: VoteSignBytes_def CanonicalizeVote_def cong: option.case_cong)

text \<open>Decoding sign bytes gives the canonical message back, which is what the signer's double-sign
  check relies on.\<close>

lemma VoteSignBytes_decode:
  assumes "time_codec E" "vote_typed v" "VoteSignBytes E c v = Some sb" "length sb < 2 ^ 62"
  shows "\<exists>pb. CanonicalizeVote c v = Some pb \<and>
    UnmarshalDelimited (\<lambda>b. cvote_Unmarshal E b zero_cvote) sb = Some pb"
proof -
  obtain pb body where pb: "CanonicalizeVote c v = Some pb" "cvote_Marshal E pb = Some body" "sb = MarshalDelimited body"
    using assms(3) by (auto simp: VoteSignBytes_def split: option.splits)
  have "int (length body) \<le> MaxInt64"
    using assms(4) pb(3) by (simp add: MarshalDelimited_def putLen_def MaxInt64_def)
  then have "cvote_Unmarshal E body zero_cvote = Inr pb"
    using cvote_roundtrip[OF assms(1) CanonicalizeVote_ok[OF pb(1) assms(2)] pb(2)] by simp
  then show ?thesis
    using pb assms(4) UnmarshalDelimited_MarshalDelimited[of "\<lambda>b. cvote_Unmarshal E b zero_cvote" body pb] by auto
qed

lemma PrePrepareSignBytes_decode:
  assumes "time_codec E" "pp_typed p" "PrePrepareSignBytes E c p = Some sb" "length sb < 2 ^ 62"
  shows "\<exists>pb. CanonicalizePrePrepare c p = Some pb \<and>
    UnmarshalDelimited (\<lambda>b. cpp_Unmarshal E b zero_cpp) sb = Some pb"
proof -
  obtain pb body where pb: "CanonicalizePrePrepare c p = Some pb" "cpp_Marshal E pb = Some body" "sb = MarshalDelimited body"
    using assms(3) by (auto simp: PrePrepareSignBytes_def split: option.splits)
  have "int (length body) \<le> MaxInt64"
    using assms(4) pb(3) by (simp add: MarshalDelimited_def putLen_def MaxInt64_def)
  then have "cpp_Unmarshal E body zero_cpp = Inr pb"
    using cpp_roundtrip[OF assms(1) CanonicalizePrePrepare_ok[OF pb(1) assms(2)] pb(2)] by simp
  then show ?thesis
    using pb assms(4) UnmarshalDelimited_MarshalDelimited[of "\<lambda>b. cpp_Unmarshal E b zero_cpp" body pb] by auto
qed

lemma putUvarint_append_inj: "putUvarint a @ x = putUvarint b @ y \<Longrightarrow> a = b \<and> x = y"
  by (metis Inr_inject prod.inject readVarint_putUvarint)

lemma MarshalDelimited_inj: "MarshalDelimited a = MarshalDelimited b \<Longrightarrow> a = b"
  by (auto simp: MarshalDelimited_def putLen_def dest: putUvarint_append_inj)

text \<open>Two messages whose first field is the type, written as a varint.\<close>

lemma vote_pp_bodies_differ:
  assumes "cvote_Marshal E pb = Some body" "cpp_Marshal E pp = Some body"
    and "in_range 32 (cvType pb)" "cvType pb \<noteq> 0" "in_range 32 (ppType pp)" "ppType pp \<noteq> 0"
  shows "cvType pb = ppType pp"
proof -
  have "\<exists>x. body = tag 1 0 @ putUvarint (word_of_int (cvType pb)) @ x"
    using assms(1,4) by (auto simp: cvote_Marshal_def opt_def split: option.splits)
  moreover have "\<exists>y. body = tag 1 0 @ putUvarint (word_of_int (ppType pp)) @ y"
    using assms(2,6) by (auto simp: cpp_Marshal_def opt_def split: option.splits)
  ultimately have "word_of_int (cvType pb) = (word_of_int (ppType pp) :: 64 word)"
    by (metis putUvarint_append_inj same_append_eq)
  then show ?thesis
    using assms(3,5) by (metis in_range_32_64 sint64_word_of_int)
qed


lemma VoteSignBytes_inj:
  assumes "time_codec E" and "vote_typed v" and "vote_typed v'"
    and "VoteSignBytes E c v = Some sb" and "VoteSignBytes E c' v' = Some sb" and "length sb < 2 ^ 62"
  shows "c = c' \<and> vType v = vType v' \<and> vHeight v = vHeight v' \<and> vRound v = vRound v' \<and>
    vBlockID v = vBlockID v' \<and> vTimestamp v = vTimestamp v'"
proof -
  obtain pb where pb: "CanonicalizeVote c v = Some pb"
      "UnmarshalDelimited (\<lambda>b. cvote_Unmarshal E b zero_cvote) sb = Some pb"
    using VoteSignBytes_decode[OF assms(1,2,4,6)] by blast
  obtain pb' where pb': "CanonicalizeVote c' v' = Some pb'"
      "UnmarshalDelimited (\<lambda>b. cvote_Unmarshal E b zero_cvote) sb = Some pb'"
    using VoteSignBytes_decode[OF assms(1,3,5,6)] by blast
  have "pb = pb'" using pb(2) pb'(2) by simp
  then show ?thesis
    using pb(1) pb'(1) by (auto simp: CanonicalizeVote_def split: option.splits intro: CanonicalizeBlockID_inj)
qed

lemma PrePrepareSignBytes_inj:
  assumes "time_codec E" and "pp_typed p" and "pp_typed p'"
    and "PrePrepareSignBytes E c p = Some sb" and "PrePrepareSignBytes E c' p' = Some sb" and "length sb < 2 ^ 62"
  shows "c = c' \<and> prHeight p = prHeight p' \<and> prRound p = prRound p' \<and> prPOLRound p = prPOLRound p' \<and>
    prBlockID p = prBlockID p' \<and> prTimestamp p = prTimestamp p'"
proof -
  obtain pb where pb: "CanonicalizePrePrepare c p = Some pb"
      "UnmarshalDelimited (\<lambda>b. cpp_Unmarshal E b zero_cpp) sb = Some pb"
    using PrePrepareSignBytes_decode[OF assms(1,2,4,6)] by blast
  obtain pb' where pb': "CanonicalizePrePrepare c' p' = Some pb'"
      "UnmarshalDelimited (\<lambda>b. cpp_Unmarshal E b zero_cpp) sb = Some pb'"
    using PrePrepareSignBytes_decode[OF assms(1,3,5,6)] by blast
  have "pb = pb'" using pb(2) pb'(2) by simp
  then show ?thesis
    using pb(1) pb'(1) by (auto simp: CanonicalizePrePrepare_def split: option.splits intro: CanonicalizeBlockID_inj)
qed

lemma bid_Key_inj:
  assumes "bid_IsZero a \<or> bid_IsComplete a" and "bid_IsZero b \<or> bid_IsComplete b"
    and "bid_typed a" and "bid_typed b" and "bid_Key a = bid_Key b"
  shows "a = b"
proof -
  have zero: "bid_Key x = []" if "bid_IsZero x" for x
    using that by (simp add: bid_IsZero_iff zero_bid_def zero_psh_def bid_Key_def psh_Marshal_def opt_def)
  have complete: "bid_Key x = bidHash x @ tag 1 0 @ putUvarint (word_of_int (psTotal (bidParts x))) @
      tag 2 2 @ putLen (psHash (bidParts x))" "length (bidHash x) = 32"
    if "bid_IsComplete x" for x
    using that by (auto simp: bid_IsComplete_def srhash_Size_def bid_Key_def psh_Marshal_def opt_def)
  show ?thesis
  proof (cases "bid_IsComplete a \<and> bid_IsComplete b")
    case True
    then have h: "bidHash a = bidHash b" and
      "putUvarint (word_of_int (psTotal (bidParts a))) @ tag 2 2 @ putLen (psHash (bidParts a)) =
       putUvarint (word_of_int (psTotal (bidParts b))) @ tag 2 2 @ putLen (psHash (bidParts b))"
      using assms(5) by (simp_all add: complete append_eq_append_conv)
    then have t: "word_of_int (psTotal (bidParts a)) = (word_of_int (psTotal (bidParts b)) :: 64 word)"
      and "MarshalDelimited (psHash (bidParts a)) = MarshalDelimited (psHash (bidParts b))"
      unfolding MarshalDelimited_def by (metis putUvarint_append_inj same_append_eq)+
    then have p: "psHash (bidParts a) = psHash (bidParts b)" by (simp add: MarshalDelimited_inj)
    have "psTotal (bidParts a) = psTotal (bidParts b)"
      using t assms(3,4) uint32_of_uint64 unfolding bid_typed_def by metis
    with h p show ?thesis by (intro BlockID.equality PartSetHeader.equality) auto
  next
    case False
    then show ?thesis
      using assms zero complete bid_IsZero_iff by (metis Nil_is_append_conv length_0_conv zero_neq_numeral)
  qed
qed

text \<open>An environment of the right shape, for the witnesses: the time is written in eight bytes.\<close>

definition sample_env :: env where
  "sample_env = \<lparr>e_Sum = (\<lambda>b. take 32 (b @ replicate 32 0)), e_verify = (\<lambda>pk m s. s = take 64 (m @ replicate 64 0)),
     e_sign = (\<lambda>sk m. take 64 (m @ replicate 64 0)),
     e_timeEnc = (\<lambda>t. if in_range 64 t then Some (putUint64 (word_of_int t)) else None),
     e_timeDec = (\<lambda>b. Some (sint (getUint64 b))), e_equalVote = (=), e_equalPrePrepare = (=)\<rparr>"

lemma sample_time_codec: "time_codec sample_env"
  using getUint64_putUint64[of _ "[]"]
  by (auto simp: time_codec_def sample_env_def sint64_word_of_int split: if_splits)

lemma sample_proto_equal: "proto_equal sample_env"
  by (simp add: proto_equal_def sample_env_def)

definition sample_bid :: BlockID where
  "sample_bid = \<lparr>bidHash = replicate 32 7, bidParts = \<lparr>psTotal = 1, psHash = replicate 32 9\<rparr>\<rparr>"

definition sample_vote :: Vote where
  "sample_vote = \<lparr>vType = PrepareType, vHeight = 3, vRound = 0, vBlockID = sample_bid, vTimestamp = 5,
     vAddress = replicate 20 1, vIndex = 0, vSignature = []\<rparr>"

section \<open>Properties\<close>

text \<open>Property C18: the bytes a vote is signed over determine the chain, type, height, round, block and
  time of the vote: a signature cannot be replayed for a different vote.\<close>

theorem vote_sign_bytes_injective:
  assumes "time_codec E" and "vote_typed v" and "vote_typed v'"
    and "VoteSignBytes E c v = Some sb" and "VoteSignBytes E c' v' = Some sb" and "length sb < 2 ^ 62"
  shows "c = c' \<and> vType v = vType v' \<and> vHeight v = vHeight v' \<and> vRound v = vRound v' \<and>
    vBlockID v = vBlockID v' \<and> vTimestamp v = vTimestamp v'"
  using assms by (rule VoteSignBytes_inj)

theorem vote_sign_bytes_injective_witness:
  "\<exists>sb. VoteSignBytes sample_env [1] sample_vote = Some sb \<and>
     VoteSignBytes sample_env [1] (sample_vote\<lparr>vSignature := [4]\<rparr>) = Some sb \<and>
     vHeight sample_vote = vHeight (sample_vote\<lparr>vSignature := [4]\<rparr>)"
proof -
  have typed: "vote_typed sample_vote" "vote_typed (sample_vote\<lparr>vSignature := [4]\<rparr>)"
    by (simp_all add: vote_typed_def sample_vote_def sample_bid_def bid_typed_def in_range_def PrepareType_def)
  have "case VoteSignBytes sample_env [1] sample_vote of None \<Rightarrow> False | Some sb \<Rightarrow> int (length sb) < 200"
    by code_simp
  then obtain sb where sb: "VoteSignBytes sample_env [1] sample_vote = Some sb" "length sb < 200"
    by (auto split: option.splits)
  moreover have "VoteSignBytes sample_env [1] (sample_vote\<lparr>vSignature := [4]\<rparr>) = Some sb"
    using sb by (simp add: VoteSignBytes_def CanonicalizeVote_def cong: option.case_cong)
  ultimately show ?thesis
    using vote_sign_bytes_injective[OF sample_time_codec typed, of "[1]" sb "[1]"] by auto
qed


text \<open>The bytes of a vote are never the bytes of a proposal, for any chains, so that a
  signature on one cannot be shown for the other.\<close>

theorem vote_and_proposal_sign_bytes_differ:
  assumes "IsVoteTypeValid (vType v)"
    and "VoteSignBytes E c v = Some sb" and "PrePrepareSignBytes E c' p = Some sb'"
  shows "sb \<noteq> sb'"
proof
  assume "sb = sb'"
  obtain pb body where pb: "CanonicalizeVote c v = Some pb" "cvote_Marshal E pb = Some body" "sb = MarshalDelimited body"
    using assms(2) by (auto simp: VoteSignBytes_def split: option.splits)
  obtain pp body' where pp: "CanonicalizePrePrepare c' p = Some pp" "cpp_Marshal E pp = Some body'" "sb' = MarshalDelimited body'"
    using assms(3) by (auto simp: PrePrepareSignBytes_def split: option.splits)
  have "body = body'" using \<open>sb = sb'\<close> pb(3) pp(3) MarshalDelimited_inj by blast
  moreover have "cvType pb = vType v" "ppType pp = PrePrepareType"
    using pb(1) pp(1) by (auto simp: CanonicalizeVote_def CanonicalizePrePrepare_def split: option.splits)
  ultimately show False
    using vote_pp_bodies_differ[of E pb body pp] pb(2) pp(2) assms(1)
    by (auto simp: IsVoteTypeValid_def PrepareType_def CommitType_def PrePrepareType_def in_range_def)
qed

definition sample_pp :: PrePrepare where
  "sample_pp = \<lparr>prType = PrePrepareType, prHeight = 3, prRound = 0, prPOLRound = -1, prBlockID = sample_bid,
     prTimestamp = 5, prSignature = []\<rparr>"

theorem vote_and_proposal_sign_bytes_differ_witness:
  "\<exists>sb sb'. VoteSignBytes sample_env [1] sample_vote = Some sb \<and>
     PrePrepareSignBytes sample_env [1] sample_pp = Some sb' \<and> sb \<noteq> sb'"
proof -
  have "VoteSignBytes sample_env [1] sample_vote \<noteq> None" "PrePrepareSignBytes sample_env [1] sample_pp \<noteq> None"
    by code_simp+
  then obtain sb sb' where "VoteSignBytes sample_env [1] sample_vote = Some sb"
      "PrePrepareSignBytes sample_env [1] sample_pp = Some sb'" by blast
  moreover have "IsVoteTypeValid (vType sample_vote)" by (simp add: IsVoteTypeValid_def sample_vote_def)
  ultimately show ?thesis using vote_and_proposal_sign_bytes_differ by blast
qed

text \<open>\<open>BlockID.Key\<close>, the key of the tables that tally votes per block, tells apart any two
  block ids that a vote may carry (zero or complete).\<close>

theorem bid_Key_injective:
  assumes "bid_IsZero a \<or> bid_IsComplete a" and "bid_IsZero b \<or> bid_IsComplete b"
    and "bid_typed a" and "bid_typed b" and "bid_Key a = bid_Key b"
  shows "a = b"
  using assms by (rule bid_Key_inj)

theorem bid_Key_injective_witness: "bid_Key sample_bid \<noteq> bid_Key zero_bid"
proof
  assume "bid_Key sample_bid = bid_Key zero_bid"
  moreover have "bid_IsComplete sample_bid" "bid_IsZero zero_bid" "bid_typed sample_bid" "bid_typed zero_bid"
    by code_simp+
  ultimately have "sample_bid = zero_bid" using bid_Key_injective by blast
  then show False by (simp add: sample_bid_def zero_bid_def)
qed

end
