(* ===== verification/Validators.thy ===== *)
theory Validators
  imports Votes
begin

text \<open>
  \<open>types/validator.go\<close>, \<open>types/validator_set.go\<close> and the hash distance of \<open>types/utils.go\<close>. A validator
  set keeps its members sorted by address and merges change sets into them; the primary is the
  candidate whose address hash is nearest to the iterated hash of a seed block. Members are changed in
  place only before the primary is chosen, so pointers to them are modelled by their values. A nil
  public key is \<open>None\<close>.
\<close>

section \<open>Members\<close>

definition CANDIDATE_PRIMARY :: int where "CANDIDATE_PRIMARY = 0"
definition TotalVotingPower :: float64 where "TotalVotingPower = Fin 10"

record Validator =
  valAddress :: bytes
  valPubKey :: "bytes option"
  valVotingPower :: float64
  valType :: int
  valTrust :: float64

definition NewValidator :: "env \<Rightarrow> bytes \<Rightarrow> float64 \<Rightarrow> Validator option" where
  "NewValidator E pubkey votingPower =
     (case pk_Address E pubkey of
        None \<Rightarrow> None
      | Some a \<Rightarrow> Some \<lparr>valAddress = a, valPubKey = Some pubkey, valVotingPower = votingPower,
          valType = CANDIDATE_PRIMARY, valTrust = Fin 1\<rparr>)"

datatype val_error = NilValidator | NoPublicKey | NegativeVotingPower | WrongAddressLength | NilOrEmptySet | DuplicateEntry

definition val_ValidateBasic :: "Validator option \<Rightarrow> val_error option" where
  "val_ValidateBasic v =
     (case v of
        None \<Rightarrow> Some NilValidator
      | Some v \<Rightarrow>
          if valPubKey v = None then Some NoPublicKey
          else if f64_less (valVotingPower v) (Fin 0) then Some NegativeVotingPower
          else if length (valAddress v) \<noteq> AddressSize then Some WrongAddressLength
          else None)"

text \<open>\<open>Bytes\<close>: the \<open>SimpleValidator\<close> message around the \<open>PublicKey\<close> message.\<close>

definition val_Bytes :: "Validator \<Rightarrow> bytes option" where
  "val_Bytes v = map_option (\<lambda>pk. tag 1 2 @ putLen (tag 1 2 @ putLen pk)) (valPubKey v)"

section \<open>Validator sets\<close>

record ValidatorSet =
  vsValidators :: "Validator list"
  vsPrimary :: "Validator option"

definition vals_IsNilOrEmpty :: "ValidatorSet option \<Rightarrow> bool" where
  "vals_IsNilOrEmpty vals = (case vals of None \<Rightarrow> True | Some vs \<Rightarrow> vsValidators vs = [])"

fun firstInvalid :: "Validator list \<Rightarrow> val_error option" where
  "firstInvalid [] = None"
| "firstInvalid (v # vs) = (case val_ValidateBasic (Some v) of Some e \<Rightarrow> Some e | None \<Rightarrow> firstInvalid vs)"

definition vals_ValidateBasic :: "ValidatorSet option \<Rightarrow> val_error option" where
  "vals_ValidateBasic vals =
     (case vals of
        None \<Rightarrow> Some NilOrEmptySet
      | Some vs \<Rightarrow>
          if vsValidators vs = [] then Some NilOrEmptySet
          else (case firstInvalid (vsValidators vs) of
              Some e \<Rightarrow> Some e
            | None \<Rightarrow> val_ValidateBasic (vsPrimary vs)))"

definition vals_Size :: "ValidatorSet \<Rightarrow> int" where
  "vals_Size vs = int (length (vsValidators vs))"

definition HasAddress :: "ValidatorSet \<Rightarrow> bytes \<Rightarrow> bool" where
  "HasAddress vs address \<longleftrightarrow> list_ex (\<lambda>v. valAddress v = address) (vsValidators vs)"

fun scanAddress :: "Validator list \<Rightarrow> int \<Rightarrow> bytes \<Rightarrow> int \<times> Validator option" where
  "scanAddress [] idx address = (-1, None)"
| "scanAddress (v # vs) idx address =
     (if valAddress v = address then (wrap 32 idx, Some v) else scanAddress vs (idx + 1) address)"

definition GetByAddress :: "ValidatorSet \<Rightarrow> bytes \<Rightarrow> int \<times> Validator option" where
  "GetByAddress vs address = scanAddress (vsValidators vs) 0 address"

definition vals_GetByIndex :: "ValidatorSet \<Rightarrow> int \<Rightarrow> bytes \<times> Validator option" where
  "vals_GetByIndex vs index =
     (if index < 0 \<or> int (length (vsValidators vs)) \<le> index then ([], None)
      else let v = vsValidators vs ! nat index in (valAddress v, Some v))"

subsection \<open>The primary\<close>

text \<open>\<open>a[i]-b[i]\<close> is a difference of bytes, which wraps before it becomes a float.\<close>

definition diffHash :: "bytes \<Rightarrow> bytes \<Rightarrow> float64 option" where
  "diffHash a b =
     (if length a \<noteq> 32 \<or> length b \<noteq> 32 then None
      else Some (foldl (\<lambda>diff (x, y). f64_add diff (f64_of_int (uint (x - y)))) (Fin 0) (zip a b)))"

fun iterateHash :: "env \<Rightarrow> nat \<Rightarrow> bytes \<Rightarrow> bytes" where
  "iterateHash E 0 h = h"
| "iterateHash E (Suc n) h = iterateHash E n (e_Sum E h)"

definition MaxFloat64 :: float64 where
  "MaxFloat64 = Fin ((2 ^ 53 - 1) * 2 ^ 971)"

fun nearest :: "env \<Rightarrow> bytes \<Rightarrow> Validator list \<Rightarrow> float64 \<Rightarrow> Validator option \<Rightarrow> Validator option option" where
  "nearest E hash [] diff primary = Some primary"
| "nearest E hash (v # vs) diff primary =
     (if valType v = CANDIDATE_PRIMARY then
        (case diffHash hash (e_Sum E (valAddress v)) of
           None \<Rightarrow> None
         | Some err \<Rightarrow>
             if f64_less err diff then nearest E hash vs err (Some v) else nearest E hash vs diff primary)
      else nearest E hash vs diff primary)"

text \<open>\<open>n\<close> (\<open>times\<close>) counts down to below zero, so the seed is hashed \<open>n + 1\<close> times, and not at all when it
  is negative.\<close>

definition iterateToGetPrimary :: "env \<Rightarrow> ValidatorSet \<Rightarrow> BlockID \<Rightarrow> int \<Rightarrow> ValidatorSet option" where
  "iterateToGetPrimary E vs seed n =
     (case nearest E (iterateHash E (nat (n + 1)) (bidHash seed)) (vsValidators vs) MaxFloat64 None of
        None \<Rightarrow> None
      | Some p \<Rightarrow> Some (vs\<lparr>vsPrimary := p\<rparr>))"

definition GetPrimary :: "env \<Rightarrow> ValidatorSet \<Rightarrow> BlockID \<Rightarrow> int \<Rightarrow> (ValidatorSet \<times> Validator option) option" where
  "GetPrimary E vs seed n =
     (if vsValidators vs = [] then Some (vs, None)
      else (case vsPrimary vs of
          Some p \<Rightarrow> Some (vs, Some p)
        | None \<Rightarrow>
            Option.bind (iterateToGetPrimary E vs seed n) (\<lambda>vs'.
              (case vsPrimary vs' of None \<Rightarrow> None | Some p \<Rightarrow> Some (vs', Some p)))))"

text \<open>The receiver gets the new primary too, and the copy shares its members.\<close>

definition CopyIteratePrimary :: "env \<Rightarrow> ValidatorSet \<Rightarrow> BlockID \<Rightarrow> int \<Rightarrow> (ValidatorSet \<times> ValidatorSet option) option" where
  "CopyIteratePrimary E vs seed n =
     (if vsValidators vs = [] then Some (vs, None)
      else map_option (\<lambda>vs'. (vs', Some vs')) (iterateToGetPrimary E vs seed n))"

subsection \<open>Hash\<close>

fun allBytes :: "Validator list \<Rightarrow> bytes list option" where
  "allBytes [] = Some []"
| "allBytes (v # vs) =
     Option.bind (val_Bytes v) (\<lambda>b. Option.bind (allBytes vs) (\<lambda>bs. Some (b # bs)))"

definition vals_Hash :: "env \<Rightarrow> ValidatorSet \<Rightarrow> bytes option" where
  "vals_Hash E vs = map_option (HashFromByteSlices (e_Sum E)) (allBytes (vsValidators vs))"

subsection \<open>Change sets\<close>

text \<open>\<open>sort.Sort\<close> by address: members with equal addresses, whose order it leaves open, keep theirs
  here; \<open>processChanges\<close> refuses them in either order.\<close>

definition sortByAddress :: "Validator list \<Rightarrow> Validator list" where
  "sortByAddress vs = sort_key valAddress vs"

fun checkChanges :: "Validator list \<Rightarrow> bytes \<Rightarrow> Validator list \<Rightarrow> val_error + Validator list" where
  "checkChanges [] prevAddr updates = Inr updates"
| "checkChanges (v # vs) prevAddr updates =
     (if valAddress v = prevAddr then Inl DuplicateEntry
      else if f64_less (valVotingPower v) (Fin 0) then Inl NegativeVotingPower
      else checkChanges vs (valAddress v) (updates @ [v]))"

definition processChanges :: "Validator list \<Rightarrow> val_error + Validator list" where
  "processChanges origChanges = checkChanges (sortByAddress origChanges) [] []"

fun mergeVals :: "Validator list \<Rightarrow> Validator list \<Rightarrow> Validator list" where
  "mergeVals existing [] = existing"
| "mergeVals [] updates = updates"
| "mergeVals (e # es) (u # us) =
     (if valAddress e < valAddress u then e # mergeVals es (u # us)
      else if valAddress e = valAddress u then u # mergeVals es us
      else u # mergeVals (e # es) us)"

definition applyUpdates :: "ValidatorSet \<Rightarrow> Validator list \<Rightarrow> ValidatorSet" where
  "applyUpdates vs updates = vs\<lparr>vsValidators := mergeVals (sortByAddress (vsValidators vs)) updates\<rparr>"

definition updateWithChangeSet :: "ValidatorSet \<Rightarrow> Validator list \<Rightarrow> ValidatorSet \<times> val_error option" where
  "updateWithChangeSet vs changes =
     (if length changes = 0 then (vs, None)
      else (case processChanges changes of
          Inl e \<Rightarrow> (vs, Some e)
        | Inr updates \<Rightarrow>
            let vs' = applyUpdates vs updates
            in (vs'\<lparr>vsValidators := sortByAddress (vsValidators vs')\<rparr>, None)))"

definition NewValidatorSet :: "env \<Rightarrow> Validator list \<Rightarrow> ValidatorSet option" where
  "NewValidatorSet E valz =
     (let (vals, err) = updateWithChangeSet \<lparr>vsValidators = [], vsPrimary = None\<rparr> valz;
          vals' = vals\<lparr>vsValidators := map (\<lambda>v. v\<lparr>valType := CANDIDATE_PRIMARY,
                     valVotingPower := f64_div TotalVotingPower (f64_of_int (int (length valz)))\<rparr>) (vsValidators vals)\<rparr>
      in if err \<noteq> None then None else iterateToGetPrimary E vals' zero_bid 0)"


section \<open>Sorted sets as address tables\<close>

abbreviation addrs :: "Validator list \<Rightarrow> bytes list" where
  "addrs vs \<equiv> map valAddress vs"

definition vals_sorted :: "ValidatorSet \<Rightarrow> bool" where
  "vals_sorted vs \<longleftrightarrow> sorted_wrt (<) (addrs (vsValidators vs))"

definition valAt :: "bytes \<Rightarrow> Validator list \<Rightarrow> Validator option" where
  "valAt a vs = find (\<lambda>v. valAddress v = a) vs"

lemma valAt_simps [simp]:
  "valAt a [] = None" "valAt a (v # vs) = (if valAddress v = a then Some v else valAt a vs)"
  by (simp_all add: valAt_def)

lemma valAt_None: "valAt a vs = None \<longleftrightarrow> a \<notin> set (addrs vs)"
  by (auto simp: valAt_def find_None_iff)

lemma valAt_below: "\<forall>b\<in>set (addrs vs). a < b \<Longrightarrow> valAt a vs = None"
  by (auto simp: valAt_None)

lemma scanAddress_valAt: "snd (scanAddress vs i a) = valAt a vs"
  by (induction vs arbitrary: i) auto

lemma set_mergeVals: "set (addrs (mergeVals es us)) = set (addrs es) \<union> set (addrs us)"
  by (induction es us rule: mergeVals.induct) auto

lemma mergeVals_sorted:
  "sorted_wrt (<) (addrs es) \<Longrightarrow> sorted_wrt (<) (addrs us) \<Longrightarrow> sorted_wrt (<) (addrs (mergeVals es us))"
proof (induction es us rule: mergeVals.induct)
  case (3 e es u us)
  have "\<forall>b\<in>set (addrs es) \<union> set (addrs us). valAddress u < b" if "valAddress u \<le> valAddress e"
    using that 3(4,5) by (auto intro: le_less_trans)
  moreover have "\<forall>b\<in>set (addrs es) \<union> set (addrs (u # us)). valAddress e < b" if "valAddress e < valAddress u"
    using that 3(4,5) by (auto intro: less_trans)
  ultimately show ?case
    using 3 set_mergeVals[of es us] set_mergeVals[of "e # es" us] set_mergeVals[of es "u # us"]
    by (auto simp: not_less)
qed simp_all

lemma valAt_mergeVals:
  "sorted_wrt (<) (addrs es) \<Longrightarrow> sorted_wrt (<) (addrs us) \<Longrightarrow>
   valAt a (mergeVals es us) = (case valAt a us of Some u \<Rightarrow> Some u | None \<Rightarrow> valAt a es)"
proof (induction es us rule: mergeVals.induct)
  case (3 e es u us)
  show ?case
  proof (cases "valAddress e < valAddress u")
    case True
    then have "valAt (valAddress e) (u # us) = None" using 3(5) by (intro valAt_below) (auto intro: less_trans)
    then show ?thesis using 3 True by (auto split: option.splits)
  next
    case False
    then show ?thesis using 3 by (auto split: option.splits)
  qed
qed (simp_all split: option.splits)

lemma sortByAddress_id: "sorted_wrt (<) (addrs vs) \<Longrightarrow> sortByAddress vs = vs"
  by (simp add: sortByAddress_def sort_key_id_if_sorted strict_sorted_imp_sorted)

lemma checkChanges_ok:
  "checkChanges vs p acc = Inr r \<Longrightarrow> sorted (addrs vs) \<Longrightarrow> (\<forall>b\<in>set (addrs vs). p \<le> b) \<Longrightarrow>
   r = acc @ vs \<and> sorted_wrt (<) (addrs vs) \<and> (\<forall>b\<in>set (addrs vs). p < b) \<and>
   list_all (\<lambda>v. \<not> f64_less (valVotingPower v) (Fin 0)) vs"
proof (induction vs p acc rule: checkChanges.induct)
  case (2 v vs p acc)
  have rest: "checkChanges vs (valAddress v) (acc @ [v]) = Inr r" "valAddress v \<noteq> p" "\<not> f64_less (valVotingPower v) (Fin 0)"
    using 2(2) by (auto split: if_splits)
  have "r = (acc @ [v]) @ vs \<and> sorted_wrt (<) (addrs vs) \<and> (\<forall>b\<in>set (addrs vs). valAddress v < b) \<and>
      list_all (\<lambda>v. \<not> f64_less (valVotingPower v) (Fin 0)) vs"
    using 2(1)[OF rest(2,3,1)] 2(3) by simp
  moreover have "p < valAddress v" using rest(2) 2(4) by (simp add: less_le)
  ultimately show ?case using rest(3) by (auto intro: less_trans)
qed simp

lemma processChanges_ok:
  assumes "processChanges changes = Inr updates"
  shows "updates = sortByAddress changes" and "sorted_wrt (<) (addrs updates)"
    and "list_all (\<lambda>v. \<not> f64_less (valVotingPower v) (Fin 0)) updates"
proof -
  have "sorted (addrs (sortByAddress changes))" "\<forall>b\<in>set (addrs (sortByAddress changes)). [] \<le> b"
    by (simp_all add: sortByAddress_def)
  then have "updates = sortByAddress changes \<and> sorted_wrt (<) (addrs (sortByAddress changes)) \<and>
      list_all (\<lambda>v. \<not> f64_less (valVotingPower v) (Fin 0)) (sortByAddress changes)"
    using checkChanges_ok[of "sortByAddress changes" "[]" "[]" updates] assms by (simp add: processChanges_def)
  then show "updates = sortByAddress changes" "sorted_wrt (<) (addrs updates)"
    "list_all (\<lambda>v. \<not> f64_less (valVotingPower v) (Fin 0)) updates" by simp_all
qed

lemma valAt_distinct: "distinct (addrs vs) \<Longrightarrow> v \<in> set vs \<Longrightarrow> valAt (valAddress v) vs = Some v"
  by (induction vs) (auto simp: image_iff)

lemma valAt_sortByAddress:
  assumes "distinct (addrs (sortByAddress vs))"
  shows "valAt a (sortByAddress vs) = valAt a vs"
proof -
  have s: "set (sortByAddress vs) = set vs" by (simp add: sortByAddress_def)
  have d: "distinct (addrs vs)"
    using assms by (simp add: sortByAddress_def distinct_map)
  show ?thesis
  proof (cases "valAt a vs")
    case None
    then show ?thesis using s valAt_None by (metis image_set)
  next
    case (Some v)
    then have "v \<in> set vs" "valAddress v = a" by (auto simp: valAt_def find_Some_iff)
    then show ?thesis using valAt_distinct[OF assms, of v] s Some by simp
  qed
qed


text \<open>What the rest of the program relies on: a table from addresses to members which a change set
  overrides, atomically: a refused change set leaves it as it was.\<close>

locale address_table =
  fixes look :: "'s \<Rightarrow> bytes \<Rightarrow> 'v option"
    and change :: "'s \<Rightarrow> 'v list \<Rightarrow> 's \<times> 'e option"
    and key :: "'v \<Rightarrow> bytes"
    and wf :: "'s \<Rightarrow> bool"
  assumes change_wf: "wf s \<Longrightarrow> wf (fst (change s us))"
    and change_refused: "snd (change s us) \<noteq> None \<Longrightarrow> fst (change s us) = s"
    and look_change: "wf s \<Longrightarrow> snd (change s us) = None \<Longrightarrow>
      look (fst (change s us)) a = (case find (\<lambda>u. key u = a) us of Some u \<Rightarrow> Some u | None \<Rightarrow> look s a)"
begin

primrec changes :: "'s \<Rightarrow> 'v list list \<Rightarrow> 's" where
  "changes s [] = s"
| "changes s (us # uss) = changes (fst (change s us)) uss"

primrec accepted :: "'s \<Rightarrow> 'v list list \<Rightarrow> 'v list list" where
  "accepted s [] = []"
| "accepted s (us # uss) = (if snd (change s us) = None then [us] else []) @ accepted (fst (change s us)) uss"

lemma changes_wf: "wf s \<Longrightarrow> wf (changes s uss)"
  by (induction uss arbitrary: s) (simp_all add: change_wf)

lemma look_changes:
  "wf s \<Longrightarrow> look (changes s uss) a =
     (case find (\<lambda>u. key u = a) (concat (rev (accepted s uss))) of Some u \<Rightarrow> Some u | None \<Rightarrow> look s a)"
proof (induction uss arbitrary: s)
  case (Cons us uss)
  have append: "find P (xs @ ys) = (case find P xs of Some x \<Rightarrow> Some x | None \<Rightarrow> find P ys)" for P and xs ys :: "'v list"
    by (induction xs) auto
  show ?case
    using Cons change_wf[of s us] change_refused[of s us] look_change[of s us a]
    by (auto simp: append split: option.splits)
qed simp

end

lemma updateWithChangeSet_cases:
  assumes "vals_sorted vs"
  shows "vals_sorted (fst (updateWithChangeSet vs us))"
    and "snd (updateWithChangeSet vs us) \<noteq> None \<Longrightarrow> fst (updateWithChangeSet vs us) = vs"
    and "snd (updateWithChangeSet vs us) = None \<Longrightarrow>
      valAt a (vsValidators (fst (updateWithChangeSet vs us))) = (case valAt a us of Some u \<Rightarrow> Some u | None \<Rightarrow> valAt a (vsValidators vs))"
proof -
  have s: "sorted_wrt (<) (addrs (vsValidators vs))" using assms by (simp add: vals_sorted_def)
  show "snd (updateWithChangeSet vs us) \<noteq> None \<Longrightarrow> fst (updateWithChangeSet vs us) = vs"
    by (simp add: updateWithChangeSet_def Let_def split: sum.splits if_splits)
  consider "fst (updateWithChangeSet vs us) = vs" "us = [] \<or> snd (updateWithChangeSet vs us) \<noteq> None"
    | updates where "processChanges us = Inr updates"
        "fst (updateWithChangeSet vs us) = vs\<lparr>vsValidators := mergeVals (vsValidators vs) updates\<rparr>"
  proof (cases "us = []")
    case False
    show ?thesis
    proof (cases "processChanges us")
      case (Inl e)
      then show ?thesis using that(1) False by (simp add: updateWithChangeSet_def)
    next
      case (Inr updates)
      then have "sorted_wrt (<) (addrs (mergeVals (vsValidators vs) updates))"
        using s processChanges_ok mergeVals_sorted by blast
      then show ?thesis
        using that(2)[OF Inr] Inr s False by (simp add: updateWithChangeSet_def applyUpdates_def Let_def sortByAddress_id)
    qed
  qed (use that(1) in \<open>simp add: updateWithChangeSet_def\<close>)
  then have "vals_sorted (fst (updateWithChangeSet vs us)) \<and>
    (snd (updateWithChangeSet vs us) = None \<longrightarrow> valAt a (vsValidators (fst (updateWithChangeSet vs us))) =
      (case valAt a us of Some u \<Rightarrow> Some u | None \<Rightarrow> valAt a (vsValidators vs)))"
  proof cases
    case 1
    then show ?thesis using assms by auto
  next
    case (2 updates)
    have u: "updates = sortByAddress us" "sorted_wrt (<) (addrs updates)" using processChanges_ok[OF 2(1)] by simp_all
    then have "valAt a updates = valAt a us" using valAt_sortByAddress strict_sorted_iff by metis
    then show ?thesis
      using 2(2) s u(2) by (simp add: vals_sorted_def mergeVals_sorted valAt_mergeVals)
  qed
  then show "vals_sorted (fst (updateWithChangeSet vs us))"
    and "snd (updateWithChangeSet vs us) = None \<Longrightarrow>
      valAt a (vsValidators (fst (updateWithChangeSet vs us))) = (case valAt a us of Some u \<Rightarrow> Some u | None \<Rightarrow> valAt a (vsValidators vs))"
    by blast+
qed

interpretation valtab: address_table "\<lambda>vs a. snd (GetByAddress vs a)" updateWithChangeSet valAddress vals_sorted
proof unfold_locales
  fix vs us a
  show "vals_sorted vs \<Longrightarrow> vals_sorted (fst (updateWithChangeSet vs us))"
    by (rule updateWithChangeSet_cases)
  show "snd (updateWithChangeSet vs us) \<noteq> None \<Longrightarrow> fst (updateWithChangeSet vs us) = vs"
    by (simp add: updateWithChangeSet_def Let_def split: sum.splits if_splits)
  show "vals_sorted vs \<Longrightarrow> snd (updateWithChangeSet vs us) = None \<Longrightarrow>
      snd (GetByAddress (fst (updateWithChangeSet vs us)) a) =
      (case find (\<lambda>u. valAddress u = a) us of Some u \<Rightarrow> Some u | None \<Rightarrow> snd (GetByAddress vs a))"
    using updateWithChangeSet_cases(3)[of vs us a] unfolding GetByAddress_def scanAddress_valAt valAt_def by simp
qed


section \<open>The nearest candidate\<close>

definition hash_sizes :: "env \<Rightarrow> bool" where
  "hash_sizes E \<longleftrightarrow> (\<forall>b. length (e_Sum E b) = 32)"

definition dist :: "bytes \<Rightarrow> bytes \<Rightarrow> int" where
  "dist a b = sum_list (map (\<lambda>(x, y). uint (x - y)) (zip a b))"

lemma byte_bound: "uint (b :: byte) \<le> 255"
  using uint_lt2p[of b] by simp

lemma dist_bounds: "0 \<le> dist a b" "dist a b \<le> 255 * int (length a)"
proof -
  have "0 \<le> sum_list (map (\<lambda>(x, y). uint (x - y)) ps) \<and>
      sum_list (map (\<lambda>(x, y). uint (x - y)) ps) \<le> 255 * int (length ps)" for ps :: "(byte \<times> byte) list"
  proof (induction ps)
    case (Cons p ps)
    then show ?case using byte_bound[of "fst p - snd p"] by (cases p) auto
  qed simp
  then have "0 \<le> dist a b \<and> dist a b \<le> 255 * int (length (zip a b))" by (simp only: dist_def)
  then show "0 \<le> dist a b" "dist a b \<le> 255 * int (length a)" by auto
qed

lemma f64_add_ints: "0 \<le> m \<Longrightarrow> 0 \<le> n \<Longrightarrow> m + n < 2 ^ 53 \<Longrightarrow> f64_add (Fin (of_int m)) (Fin (of_int n)) = Fin (of_int (m + n))"
  using f64_rnd_numeral[of "m + n"] by (cases "m + n = 0") (auto simp flip: of_int_add)

lemma diff_fold:
  "length ps \<le> 32 \<Longrightarrow> 0 \<le> m \<Longrightarrow> m + 255 * int (length ps) < 2 ^ 53 \<Longrightarrow>
   foldl (\<lambda>diff (x, y). f64_add diff (f64_of_int (uint (x - y)))) (Fin (of_int m)) ps =
   Fin (of_int (m + sum_list (map (\<lambda>(x, y). uint ((x :: byte) - y)) ps)))"
proof (induction ps arbitrary: m)
  case (Cons p ps)
  obtain x y where p: "p = (x, y)" by (cases p)
  have b: "0 \<le> uint (x - y)" "uint (x - y) \<le> 255" using byte_bound[of "x - y"] by simp_all
  then have "f64_add (Fin (of_int m)) (f64_of_int (uint (x - y))) = Fin (of_int (m + uint (x - y)))"
    using Cons(3,4) f64_add_ints[of m "uint (x - y)"] by (simp add: f64_of_int_exact)
  then show ?case using Cons(1)[of "m + uint (x - y)"] Cons(2-4) b p by (simp add: add.assoc)
qed simp

lemma diffHash_dist: "length a = 32 \<Longrightarrow> length b = 32 \<Longrightarrow> diffHash a b = Some (Fin (of_int (dist a b)))"
  using diff_fold[of "zip a b" 0] by (simp add: diffHash_def dist_def)

definition candidate :: "Validator \<Rightarrow> bool" where
  "candidate v \<longleftrightarrow> valType v = CANDIDATE_PRIMARY"

definition vdist :: "env \<Rightarrow> bytes \<Rightarrow> Validator \<Rightarrow> int" where
  "vdist E h v = dist h (e_Sum E (valAddress v))"

text \<open>The scan keeps the first member that is nearer than all candidates before it.\<close>

definition first_nearest :: "env \<Rightarrow> bytes \<Rightarrow> Validator list \<Rightarrow> Validator \<Rightarrow> bool" where
  "first_nearest E h vs p \<longleftrightarrow> candidate p \<and> (\<exists>pre post. vs = pre @ p # post \<and>
     (\<forall>v\<in>set pre. candidate v \<longrightarrow> vdist E h p < vdist E h v) \<and> (\<forall>v\<in>set post. candidate v \<longrightarrow> vdist E h p \<le> vdist E h v))"

lemma first_nearest_here: "candidate v \<Longrightarrow> \<forall>w\<in>set vs. candidate w \<longrightarrow> vdist E h v \<le> vdist E h w \<Longrightarrow> first_nearest E h (v # vs) v"
  unfolding first_nearest_def by (metis append_Nil empty_iff empty_set)

lemma first_nearest_later: "first_nearest E h vs p \<Longrightarrow> candidate v \<longrightarrow> vdist E h p < vdist E h v \<Longrightarrow> first_nearest E h (v # vs) p"
  unfolding first_nearest_def by (metis append_Cons set_ConsD)

lemma first_nearest_least: "first_nearest E h vs p \<Longrightarrow> p \<in> set vs \<and> candidate p \<and> (\<forall>v\<in>set vs. candidate v \<longrightarrow> vdist E h p \<le> vdist E h v)"
  unfolding first_nearest_def by (elim conjE exE) (auto simp: order.strict_implies_order)

lemma nearest_spec:
  assumes E: "hash_sizes E" and h: "length h = 32"
  shows "\<exists>p'. nearest E h vs (Fin d) p = Some p' \<and>
    (p' = p \<and> (\<forall>v\<in>set vs. candidate v \<longrightarrow> d \<le> of_int (vdist E h v)) \<or>
     (\<exists>v. p' = Some v \<and> of_int (vdist E h v) < d \<and> first_nearest E h vs v))"
proof (induction vs arbitrary: d p)
  case (Cons v vs)
  have step: "nearest E h (v # vs) (Fin d) p =
      (if candidate v \<and> of_int (vdist E h v) < d then nearest E h vs (Fin (of_int (vdist E h v))) (Some v)
       else nearest E h vs (Fin d) p)"
    using E h by (simp add: hash_sizes_def diffHash_dist candidate_def vdist_def)
  show ?case
  proof (cases "candidate v \<and> of_int (vdist E h v) < d")
    case True
    obtain p' where p': "nearest E h vs (Fin (of_int (vdist E h v))) (Some v) = Some p'"
      "p' = Some v \<and> (\<forall>w\<in>set vs. candidate w \<longrightarrow> vdist E h v \<le> vdist E h w) \<or>
       (\<exists>w. p' = Some w \<and> vdist E h w < vdist E h v \<and> first_nearest E h vs w)"
      using Cons[of "of_int (vdist E h v)" "Some v"] by auto
    from p'(2) show ?thesis
    proof (elim disjE exE conjE)
      fix w assume w: "p' = Some w" "vdist E h w < vdist E h v" "first_nearest E h vs w"
      then have "of_int (vdist E h w) < d" using True by (metis less_trans of_int_less_iff)
      then show ?thesis using step True p'(1) w first_nearest_later[OF w(3), of v] by auto
    qed (use step True p'(1) first_nearest_here[of v vs E h] in auto)
  next
    case False
    obtain p' where p': "nearest E h vs (Fin d) p = Some p'"
      "p' = p \<and> (\<forall>w\<in>set vs. candidate w \<longrightarrow> d \<le> of_int (vdist E h w)) \<or>
       (\<exists>w. p' = Some w \<and> of_int (vdist E h w) < d \<and> first_nearest E h vs w)"
      using Cons[of d p] by auto
    have near: "nearest E h (v # vs) (Fin d) p = Some p'" using step False p'(1) by auto
    from p'(2) show ?thesis
    proof (elim disjE exE conjE)
      fix w assume w: "p' = Some w" "of_int (vdist E h w) < d" "first_nearest E h vs w"
      then have "candidate v \<longrightarrow> vdist E h w < vdist E h v" using False by (metis less_le_trans not_less of_int_less_iff)
      then show ?thesis using near w first_nearest_later[OF w(3), of v] by auto
    qed (use near False in auto)
  qed
qed simp

lemma length_iterateHash: "hash_sizes E \<Longrightarrow> 0 < n \<Longrightarrow> length (iterateHash E n h) = 32"
proof (induction n arbitrary: h)
  case (Suc n)
  then show ?case by (cases n) (auto simp: hash_sizes_def)
qed simp

section \<open>Properties\<close>

lemma nearest_primary_first:
  assumes "hash_sizes E" and "\<exists>v\<in>set vs. candidate v" and "0 \<le> n"
  shows "\<exists>p. nearest E (iterateHash E (nat (n + 1)) (bidHash seed)) vs MaxFloat64 None = Some (Some p) \<and>
    first_nearest E (iterateHash E (nat (n + 1)) (bidHash seed)) vs p"
proof -
  let ?h = "iterateHash E (nat (n + 1)) (bidHash seed)"
  have h: "length ?h = 32" using assms(1,3) by (simp add: length_iterateHash)
  have "vdist E ?h v \<le> 255 * 32" for v using dist_bounds(2)[of ?h] h by (simp add: vdist_def)
  then have "of_int (vdist E ?h v) < ((2 ^ 53 - 1) * 2 ^ 971 :: rat)" for v
    by (rule le_less_trans[OF of_int_le_iff[THEN iffD2]]) simp
  then have "\<not> (\<forall>v\<in>set vs. candidate v \<longrightarrow> ((2 ^ 53 - 1) * 2 ^ 971 :: rat) \<le> of_int (vdist E ?h v))"
    using assms(2) by (meson not_le)
  then show ?thesis
    using nearest_spec[OF assms(1) h, of vs "(2 ^ 53 - 1) * 2 ^ 971" None]
    unfolding MaxFloat64_def by metis
qed

lemma nearest_primary:
  assumes "hash_sizes E" and "\<exists>v\<in>set vs. candidate v" and "0 \<le> n"
  shows "\<exists>p. nearest E (iterateHash E (nat (n + 1)) (bidHash seed)) vs MaxFloat64 None = Some (Some p) \<and> p \<in> set vs \<and>
    candidate p \<and> (\<forall>v\<in>set vs. candidate v \<longrightarrow>
       vdist E (iterateHash E (nat (n + 1)) (bidHash seed)) p \<le> vdist E (iterateHash E (nat (n + 1)) (bidHash seed)) v)"
  using nearest_primary_first[OF assms, of seed] first_nearest_least by metis

text \<open>Property C19: a round of at least 0 always has a primary when there is a candidate. It is the first member among the
  candidates whose address hash is at the least distance from the iterated seed hash: the candidates before it are strictly
  farther away, and those after it are not nearer.\<close>

theorem primary_is_nearest:
  assumes "hash_sizes E" and "0 \<le> n" and "\<exists>v\<in>set (vsValidators vs). candidate v"
  shows "\<exists>p pre post. iterateToGetPrimary E vs seed n = Some (vs\<lparr>vsPrimary := Some p\<rparr>) \<and> vsValidators vs = pre @ p # post \<and> candidate p \<and>
    (\<forall>v\<in>set pre. candidate v \<longrightarrow>
       vdist E (iterateHash E (nat (n + 1)) (bidHash seed)) p < vdist E (iterateHash E (nat (n + 1)) (bidHash seed)) v) \<and>
    (\<forall>v\<in>set post. candidate v \<longrightarrow>
       vdist E (iterateHash E (nat (n + 1)) (bidHash seed)) p \<le> vdist E (iterateHash E (nat (n + 1)) (bidHash seed)) v)"
  using nearest_primary_first[OF assms(1,3,2), of seed] unfolding iterateToGetPrimary_def first_nearest_def by fastforce

definition sample_vals :: "nat \<Rightarrow> Validator list" where
  "sample_vals k = map (\<lambda>i. \<lparr>valAddress = replicate 20 (of_nat (i + 1)), valPubKey = Some (replicate 32 (of_nat (i + 1))),
     valVotingPower = Fin 1, valType = CANDIDATE_PRIMARY, valTrust = Fin 1\<rparr>) [0..<k]"

lemma sample_hash_sizes: "hash_sizes sample_env"
  by (auto simp: hash_sizes_def sample_env_def min_def)

theorem primary_is_nearest_witness:
  "\<exists>p. iterateToGetPrimary sample_env \<lparr>vsValidators = sample_vals 4, vsPrimary = None\<rparr> zero_bid 2 =
     Some \<lparr>vsValidators = sample_vals 4, vsPrimary = Some p\<rparr>"
proof -
  have "\<exists>v\<in>set (vsValidators \<lparr>vsValidators = sample_vals 4, vsPrimary = None\<rparr>). candidate v"
    by (rule bexI[of _ "sample_vals 4 ! 0"]) (simp_all add: sample_vals_def candidate_def upt_conv_Cons)
  then show ?thesis
    using primary_is_nearest[OF sample_hash_sizes, of 2 "\<lparr>vsValidators = sample_vals 4, vsPrimary = None\<rparr>" zero_bid] by auto
qed

text \<open>The byte differences of \<open>diffHash\<close> wrap, so the distance it is meant to be is not
  symmetric: a byte one below counts 255, a byte one above counts 1.\<close>

theorem diffHash_wraps:
  "diffHash (replicate 32 0) (1 # replicate 31 0) = Some (Fin 255) \<and>
   diffHash (1 # replicate 31 0) (replicate 32 0) = Some (Fin 1)"
proof -
  have "dist (replicate 32 0) (1 # replicate 31 0) = 255" "dist (1 # replicate 31 0) (replicate 32 0) = 1"
    by code_simp+
  then show ?thesis by (simp add: diffHash_dist)
qed

text \<open>The members stay sorted by address over any sequence of change sets, and the member
  found at an address is the one of the last accepted change set that names it, or the old one.\<close>

theorem change_sets_last_writer_wins:
  assumes "vals_sorted vs"
  shows "vals_sorted (valtab.changes vs uss) \<and>
    snd (GetByAddress (valtab.changes vs uss) a) =
      (case find (\<lambda>u. valAddress u = a) (concat (rev (valtab.accepted vs uss))) of
         Some u \<Rightarrow> Some u | None \<Rightarrow> snd (GetByAddress vs a))"
  using assms valtab.changes_wf valtab.look_changes by blast

definition sample_change :: Validator where
  "sample_change = (sample_vals 3 ! 1)\<lparr>valTrust := Fin 2\<rparr>"

theorem change_sets_last_writer_wins_witness:
  "vals_sorted \<lparr>vsValidators = sample_vals 3, vsPrimary = None\<rparr> \<and>
   snd (GetByAddress (valtab.changes \<lparr>vsValidators = sample_vals 3, vsPrimary = None\<rparr> [[sample_change]]) (replicate 20 2)) =
     Some sample_change"
proof -
  have s: "vals_sorted \<lparr>vsValidators = sample_vals 3, vsPrimary = None\<rparr>"
    by code_simp
  have "snd (updateWithChangeSet \<lparr>vsValidators = sample_vals 3, vsPrimary = None\<rparr> [sample_change]) = None"
      "valAddress sample_change = replicate 20 2"
    by code_simp+
  then show ?thesis using change_sets_last_writer_wins[OF s, of "[[sample_change]]" "replicate 20 2"] s by simp
qed


lemma NewValidatorSet_Some:
  assumes "hash_sizes E" and "processChanges valz = Inr updates" and "valz \<noteq> []"
  shows "\<exists>vs. NewValidatorSet E valz = Some vs"
proof -
  have ok: "updates = sortByAddress valz" "sorted_wrt (<) (addrs updates)" using processChanges_ok[OF assms(2)] by simp_all
  have m: "mergeVals [] updates = updates" by (cases updates) simp_all
  let ?vs = "map (\<lambda>v. v\<lparr>valType := CANDIDATE_PRIMARY, valVotingPower := f64_div TotalVotingPower (f64_of_int (int (length valz)))\<rparr>) updates"
  have "\<exists>v\<in>set ?vs. candidate v"
    using assms(3) ok(1) by (cases valz) (auto simp: candidate_def sortByAddress_def set_insort_key)
  then show ?thesis
    using nearest_primary[OF assms(1), of ?vs 0 zero_bid] assms(2,3) ok(2)
    by (auto simp: NewValidatorSet_def updateWithChangeSet_def applyUpdates_def m sortByAddress_id Let_def iterateToGetPrimary_def)
qed

text \<open>A new validator set has exactly the given members, sorted by address without
  duplicates, every one a candidate with the same share of the total power, and one of them is its
  primary.\<close>

theorem NewValidatorSet_shares_power:
  assumes "hash_sizes E" and "NewValidatorSet E valz = Some vs" and "valz \<noteq> []"
  shows "vals_sorted vs \<and> length (vsValidators vs) = length valz \<and> set (addrs (vsValidators vs)) = set (addrs valz) \<and>
    list_all (\<lambda>v. candidate v \<and> valVotingPower v = f64_div TotalVotingPower (f64_of_int (int (length valz)))) (vsValidators vs) \<and>
    (\<exists>p\<in>set (vsValidators vs). vsPrimary vs = Some p)"
proof -
  let ?f = "\<lambda>v. v\<lparr>valType := CANDIDATE_PRIMARY, valVotingPower := f64_div TotalVotingPower (f64_of_int (int (length valz)))\<rparr>"
  obtain updates where u: "processChanges valz = Inr updates"
    using assms(2,3) by (auto simp: NewValidatorSet_def updateWithChangeSet_def split: sum.splits)
  have ok: "updates = sortByAddress valz" "sorted_wrt (<) (addrs updates)" using processChanges_ok[OF u] by simp_all
  have m: "mergeVals [] updates = updates" by (cases updates) simp_all
  have "iterateToGetPrimary E \<lparr>vsValidators = map ?f updates, vsPrimary = None\<rparr> zero_bid 0 = Some vs"
    using assms(2,3) u ok(2)
    by (simp add: NewValidatorSet_def updateWithChangeSet_def applyUpdates_def m sortByAddress_id Let_def)
  then have vs: "vsValidators vs = map ?f updates"
      "nearest E (iterateHash E 1 (bidHash zero_bid)) (map ?f updates) MaxFloat64 None = Some (vsPrimary vs)"
    by (auto simp: iterateToGetPrimary_def split: option.splits)
  have "\<exists>v\<in>set (map ?f updates). candidate v"
    using assms(3) ok(1) by (cases valz) (auto simp: candidate_def sortByAddress_def set_insort_key)
  then have "\<exists>p\<in>set (map ?f updates). vsPrimary vs = Some p"
    using nearest_primary[OF assms(1), of "map ?f updates" 0 zero_bid] vs(2) by auto
  then show ?thesis
    using vs(1) ok by (auto simp: vals_sorted_def comp_def sortByAddress_def candidate_def list_all_iff)
qed

theorem NewValidatorSet_shares_power_witness:
  "\<exists>vs. NewValidatorSet sample_env (sample_vals 4) = Some vs \<and> length (vsValidators vs) = 4 \<and> vsPrimary vs \<noteq> None"
proof -
  have "processChanges (sample_vals 4) = Inr (sample_vals 4)" "sample_vals 4 \<noteq> []" "length (sample_vals 4) = 4"
    by code_simp+
  then obtain vs where "NewValidatorSet sample_env (sample_vals 4) = Some vs"
    using NewValidatorSet_Some[OF sample_hash_sizes] by blast
  then show ?thesis
    using NewValidatorSet_shares_power[OF sample_hash_sizes, of "sample_vals 4" vs] \<open>sample_vals 4 \<noteq> []\<close> \<open>length (sample_vals 4) = 4\<close> by auto
qed

end
