(* ===== verification/BitArrays.thy ===== *)
theory BitArrays
  imports Prelude
begin

text \<open>
  The bit array of \<open>libs/bits/bit_array.go\<close>, which records the votes and block parts a node holds.
  A \<open>*BitArray\<close> is an optional record (nil is \<open>None\<close>); the mutex serialises the operations, so each
  one is a function of the whole record. \<open>Elems\<close> are 64-bit words and the shifts keep Go's rule that
  a shift count of 64 or more gives 0. The lemmas relate every operation to the indices it holds
  (\<open>ba_test\<close>).
\<close>

section \<open>Data and operations\<close>

record BitArray =
  Bits :: int
  Elems :: "64 word list"

definition shl1 :: "int \<Rightarrow> 64 word" where
  "shl1 k = (if 0 \<le> k \<and> k < 64 then push_bit (nat k) 1 else 0)"

definition NewBitArray :: "int \<Rightarrow> BitArray option" where
  "NewBitArray bits =
     (if bits \<le> 0 then None
      else Some \<lparr>Bits = bits, Elems = replicate (nat (go_div (add64 bits 63) 64)) 0\<rparr>)"

definition ba_Size :: "BitArray option \<Rightarrow> int" where
  "ba_Size bA = (case bA of None \<Rightarrow> 0 | Some b \<Rightarrow> Bits b)"

definition getIndex :: "BitArray \<Rightarrow> int \<Rightarrow> bool option" where
  "getIndex bA i =
     (if Bits bA \<le> i then Some False
      else map_option (\<lambda>e. 0 < (e AND shl1 (go_mod i 64))) (slice_get (Elems bA) (go_div i 64)))"

definition GetIndex :: "BitArray option \<Rightarrow> int \<Rightarrow> bool option" where
  "GetIndex bA i = (case bA of None \<Rightarrow> Some False | Some b \<Rightarrow> getIndex b i)"

definition setIndex :: "BitArray \<Rightarrow> int \<Rightarrow> bool \<Rightarrow> (bool \<times> BitArray) option" where
  "setIndex bA i v =
     (if Bits bA \<le> i then Some (False, bA)
      else Option.bind (slice_get (Elems bA) (go_div i 64)) (\<lambda>e.
           Option.bind (slice_set (Elems bA) (go_div i 64)
             (if v then e OR shl1 (go_mod i 64) else e AND NOT (shl1 (go_mod i 64)))) (\<lambda>es.
           Some (True, bA\<lparr>Elems := es\<rparr>))))"

definition SetIndex :: "BitArray option \<Rightarrow> int \<Rightarrow> bool \<Rightarrow> (bool \<times> BitArray option) option" where
  "SetIndex bA i v =
     (case bA of None \<Rightarrow> Some (False, None)
      | Some b \<Rightarrow> map_option (map_prod id Some) (setIndex b i v))"

definition ba_Copy :: "BitArray option \<Rightarrow> BitArray option" where
  "ba_Copy bA = (case bA of None \<Rightarrow> None | Some b \<Rightarrow> Some \<lparr>Bits = Bits b, Elems = Elems b\<rparr>)"

text \<open>\<open>make\<close> panics on a negative size, which a number of bits below -126 gives.\<close>

definition copyBits :: "BitArray \<Rightarrow> int \<Rightarrow> BitArray option" where
  "copyBits bA bits =
     (let n = go_div (add64 bits 63) 64
      in if n < 0 then None else Some \<lparr>Bits = bits, Elems = slice_copy (replicate (nat n) 0) (Elems bA)\<rparr>)"

text \<open>The element loops write \<open>c.Elems[i]\<close> for \<open>i\<close> below a bound; \<open>zip_prefix f n\<close> is the slice
  they leave. A bound above the length of the copy, or of the other slice, is an index out of range.\<close>

definition zip_prefix :: "('a \<Rightarrow> 'a \<Rightarrow> 'a) \<Rightarrow> nat \<Rightarrow> 'a list \<Rightarrow> 'a list \<Rightarrow> 'a list" where
  "zip_prefix f n cs os = map (\<lambda>(c, p). f c p) (zip (take n cs) os) @ drop n cs"

definition ba_Or :: "BitArray option \<Rightarrow> BitArray option \<Rightarrow> BitArray option option" where
  "ba_Or bA p =
     (case (bA, p) of
        (None, None) \<Rightarrow> Some None
      | (None, Some b) \<Rightarrow> Some (ba_Copy (Some b))
      | (Some a, None) \<Rightarrow> Some (ba_Copy (Some a))
      | (Some a, Some b) \<Rightarrow>
          Option.bind (copyBits a (max (Bits a) (Bits b))) (\<lambda>c.
            let smaller = min (length (Elems a)) (length (Elems b))
            in if smaller \<le> length (Elems c)
               then Some (Some (c\<lparr>Elems := zip_prefix (OR) smaller (Elems c) (Elems b)\<rparr>)) else None))"

text \<open>\<open>and\<close> indexes \<open>o.Elems[i]\<close> for every element of the copy, which panics when the other slice
  is shorter.\<close>

definition and_bits :: "BitArray \<Rightarrow> BitArray \<Rightarrow> BitArray option" where
  "and_bits bA p =
     Option.bind (copyBits bA (min (Bits bA) (Bits p))) (\<lambda>c.
       if length (Elems c) \<le> length (Elems p)
       then Some (c\<lparr>Elems := zip_prefix (AND) (length (Elems c)) (Elems c) (Elems p)\<rparr>)
       else None)"

definition ba_And :: "BitArray option \<Rightarrow> BitArray option \<Rightarrow> BitArray option option" where
  "ba_And bA p =
     (case (bA, p) of
        (Some a, Some b) \<Rightarrow> map_option Some (and_bits a b)
      | _ \<Rightarrow> Some None)"

definition ba_Not :: "BitArray option \<Rightarrow> BitArray option" where
  "ba_Not bA = (case bA of None \<Rightarrow> None | Some b \<Rightarrow> Some (b\<lparr>Elems := map (\<lambda>e. NOT e) (Elems b)\<rparr>))"

definition ba_Sub :: "BitArray option \<Rightarrow> BitArray option \<Rightarrow> BitArray option option" where
  "ba_Sub bA p =
     (case (bA, p) of
        (Some a, Some b) \<Rightarrow>
          Option.bind (copyBits a (Bits a)) (\<lambda>c.
            let smaller = min (length (Elems a)) (length (Elems b))
            in if smaller \<le> length (Elems c)
               then Some (Some (c\<lparr>Elems := zip_prefix (\<lambda>x y. x AND NOT y) smaller (Elems c) (Elems b)\<rparr>)) else None)
      | _ \<Rightarrow> Some None)"

definition ba_IsEmpty :: "BitArray option \<Rightarrow> bool" where
  "ba_IsEmpty bA = (case bA of None \<Rightarrow> True | Some b \<Rightarrow> list_all (\<lambda>e. \<not> 0 < e) (Elems b))"

definition ba_IsFull :: "BitArray option \<Rightarrow> bool option" where
  "ba_IsFull bA =
     (case bA of None \<Rightarrow> Some True
      | Some b \<Rightarrow>
          (if Elems b = [] then None
           else if \<not> list_all (\<lambda>e. NOT e = 0) (butlast (Elems b)) then Some False
           else Some ((last (Elems b) + 1) AND (shl1 (go_mod (add64 (Bits b) 63) 64 + 1) - 1) = 0)))"

definition scanBits :: "64 word \<Rightarrow> nat \<Rightarrow> int \<Rightarrow> int list" where
  "scanBits elem n curBit =
     map (\<lambda>j. curBit + int j) (filter (\<lambda>j. 0 < (elem AND shl1 (int j))) [0..<n])"

fun trueIndicesFrom :: "int \<Rightarrow> int \<Rightarrow> 64 word list \<Rightarrow> int list option" where
  "trueIndicesFrom bits curBit [] = None"
| "trueIndicesFrom bits curBit [lastElem] = Some (scanBits lastElem (nat (bits - curBit)) curBit)"
| "trueIndicesFrom bits curBit (elem # rest) =
     map_option (\<lambda>r. (if elem = 0 then [] else scanBits elem 64 curBit) @ r)
       (trueIndicesFrom bits (curBit + 64) rest)"

text \<open>The capacity given to \<open>make\<close> is the number of bits, which must not be negative.\<close>

definition getTrueIndices :: "BitArray \<Rightarrow> int list option" where
  "getTrueIndices bA = (if Bits bA < 0 then None else trueIndicesFrom (Bits bA) 0 (Elems bA))"

text \<open>\<open>rnd n\<close> stands for \<open>srrand.Intn(n)\<close>, a number below \<open>n\<close>.\<close>

definition PickRandom :: "(nat \<Rightarrow> nat) \<Rightarrow> BitArray option \<Rightarrow> (int \<times> bool) option" where
  "PickRandom rnd bA =
     (case bA of None \<Rightarrow> Some (0, False)
      | Some b \<Rightarrow>
          Option.bind (getTrueIndices b) (\<lambda>is.
            if is = [] then Some (0, False)
            else map_option (\<lambda>i. (i, True)) (slice_get is (int (rnd (length is))))))"

definition ba_Update :: "BitArray option \<Rightarrow> BitArray option \<Rightarrow> BitArray option" where
  "ba_Update bA p =
     (case (bA, p) of
        (Some a, Some b) \<Rightarrow> Some (a\<lparr>Elems := slice_copy (Elems a) (Elems b)\<rparr>)
      | _ \<Rightarrow> bA)"

text \<open>\<open>MarshalJSON\<close>/\<open>UnmarshalJSON\<close>: a quoted string with \<open>x\<close> for a set and \<open>_\<close> for a clear bit.\<close>

definition bitChars :: "BitArray \<Rightarrow> string option" where
  "bitChars bA =
     those (map (\<lambda>i. map_option (\<lambda>b. if b then CHR ''x'' else CHR ''_'') (getIndex bA (int i)))
       [0..<nat (Bits bA)])"

definition ba_MarshalJSON :: "BitArray option \<Rightarrow> string option" where
  "ba_MarshalJSON bA =
     (case bA of None \<Rightarrow> Some ''null''
      | Some b \<Rightarrow> map_option (\<lambda>cs. CHR 0x22 # cs @ [CHR 0x22]) (bitChars b))"

definition matchBits :: "string \<Rightarrow> string option" where
  "matchBits b =
     (if 2 \<le> length b \<and> hd b = CHR 0x22 \<and> last b = CHR 0x22
         \<and> list_all (\<lambda>c. c = CHR ''x'' \<or> c = CHR ''_'') (butlast (tl b))
      then Some (butlast (tl b)) else None)"

datatype json_result = JSONError | JSONNil | JSONArray BitArray

fun setBits :: "BitArray option \<Rightarrow> string \<Rightarrow> int \<Rightarrow> BitArray option option" where
  "setBits bA [] i = Some bA"
| "setBits bA (c # cs) i =
     (if c = CHR ''x''
      then Option.bind (SetIndex bA i True) (\<lambda>r. setBits (snd r) cs (i + 1))
      else setBits bA cs (i + 1))"

definition ba_UnmarshalJSON :: "string \<Rightarrow> json_result option" where
  "ba_UnmarshalJSON b =
     (if b = ''null'' then Some JSONNil
      else case matchBits b of
             None \<Rightarrow> Some JSONError
           | Some bits \<Rightarrow>
               Option.bind (setBits (NewBitArray (int (length bits))) bits 0)
                 (\<lambda>bA2. map_option JSONArray bA2))"

section \<open>Well-formedness and the set of indices\<close>

definition ba_wf :: "BitArray \<Rightarrow> bool" where
  "ba_wf b \<longleftrightarrow> 0 < Bits b \<and> Bits b < 2 ^ 62 \<and> length (Elems b) = nat ((Bits b + 63) div 64)"

definition ba_test :: "BitArray \<Rightarrow> nat \<Rightarrow> bool" where
  "ba_test b i \<longleftrightarrow> int i < Bits b \<and> bit (Elems b ! (i div 64)) (i mod 64)"

definition ba_tidy :: "BitArray \<Rightarrow> bool" where
  "ba_tidy b \<longleftrightarrow> (\<forall>i. i < 64 * length (Elems b) \<longrightarrow> bit (Elems b ! (i div 64)) (i mod 64) \<longrightarrow> int i < Bits b)"

lemma shl1_nat: "k < 64 \<Longrightarrow> shl1 (int k) = push_bit k 1"
  by (simp add: shl1_def)

lemma and_shl1_pos: "k < 64 \<Longrightarrow> 0 < (e AND shl1 (int k)) \<longleftrightarrow> bit e k"
  by (simp add: shl1_nat word_gt_0 bit_iff_and_push_bit_not_eq_0)

lemma go_index [simp]: "go_div (int i) 64 = int (i div 64)" "go_mod (int i) 64 = int (i mod 64)"
  by (simp_all add: go_simps zdiv_int zmod_int)

lemma ba_wf_index:
  assumes "ba_wf b" and "int i < Bits b"
  shows "i div 64 < length (Elems b)"
proof -
  have "int (i div 64) < (Bits b + 63) div 64"
    using assms(2) by (simp add: zdiv_int)
  then show ?thesis
    using assms(1) by (simp add: ba_wf_def nat_less_iff zless_nat_eq_int_zless)
qed

lemma index_split: "i div 64 = j div 64 \<and> i mod 64 = j mod 64 \<longleftrightarrow> i = (j::nat)"
  by (metis div_mult_mod_eq)

lemma getIndex_test: "ba_wf b \<Longrightarrow> getIndex b (int i) = Some (ba_test b i)"
  using ba_wf_index [of b i]
  by (auto simp: getIndex_def ba_test_def slice_get_in and_shl1_pos)

lemma NewBitArray_wf:
  assumes "0 < n" and "n < 2 ^ 62"
  obtains b where "NewBitArray n = Some b" and "ba_wf b" and "Bits b = n" and "\<And>i. \<not> ba_test b i"
    and "ba_tidy b"
proof -
  have a: "add64 n 63 = n + 63" using assms by (simp add: add64_small)
  define b where "b = \<lparr>Bits = n, Elems = replicate (nat ((n + 63) div 64)) (0 :: 64 word)\<rparr>"
  have new: "NewBitArray n = Some b"
    using assms by (simp add: NewBitArray_def a b_def go_div_nonneg)
  have wf: "ba_wf b" using assms by (simp add: ba_wf_def b_def)
  show ?thesis
  proof (rule that [OF new wf])
    show "Bits b = n" by (simp add: b_def)
    show "\<not> ba_test b i" for i
      using ba_wf_index [OF wf, of i] by (auto simp: ba_test_def b_def)
    show "ba_tidy b" by (auto simp: ba_tidy_def b_def less_mult_imp_div_less mult.commute)
  qed
qed

section \<open>The interface its clients use\<close>

text \<open>A set of indices below a fixed size, written one index at a time. The vote sets and part sets
  rely on these laws only.\<close>

locale index_set =
  fixes inv :: "'b \<Rightarrow> bool" and size_of :: "'b \<Rightarrow> nat" and mem :: "'b \<Rightarrow> nat \<Rightarrow> bool"
    and put :: "'b \<Rightarrow> nat \<Rightarrow> bool \<Rightarrow> 'b option"
  assumes put_in: "inv b \<Longrightarrow> i < size_of b \<Longrightarrow>
      \<exists>b'. put b i v = Some b' \<and> inv b' \<and> size_of b' = size_of b \<and> (\<forall>j. mem b' j = (if j = i then v else mem b j))"
    and put_out: "inv b \<Longrightarrow> size_of b \<le> i \<Longrightarrow> put b i v = Some b"
    and mem_bound: "inv b \<Longrightarrow> mem b i \<Longrightarrow> i < size_of b"
begin

lemma put_total: "inv b \<Longrightarrow> \<exists>b'. put b i v = Some b' \<and> inv b' \<and> size_of b' = size_of b"
  using put_in [of b i v] put_out [of b i v] by (cases "i < size_of b") auto

lemma put_mem:
  "inv b \<Longrightarrow> put b i v = Some b' \<Longrightarrow> i < size_of b \<Longrightarrow> mem b' j = (if j = i then v else mem b j)"
  using put_in [of b i v] by auto

lemma put_inv: "inv b \<Longrightarrow> put b i v = Some b' \<Longrightarrow> inv b' \<and> size_of b' = size_of b"
  using put_total [of b i v] by auto

text \<open>Writing the positions where a predicate holds, in increasing order, leaves exactly those
  added.\<close>

fun put_where :: "(nat \<Rightarrow> bool) \<Rightarrow> nat list \<Rightarrow> 'b \<Rightarrow> 'b option" where
  "put_where P [] b = Some b"
| "put_where P (i # is) b =
     (if P i then Option.bind (put b i True) (put_where P is) else put_where P is b)"

lemma put_where_mem:
  assumes "inv b" and "\<forall>i\<in>set is. i < size_of b"
  shows "\<exists>b'. put_where P is b = Some b' \<and> inv b' \<and> size_of b' = size_of b
           \<and> (\<forall>j. mem b' j \<longleftrightarrow> mem b j \<or> j \<in> set is \<and> P j)"
  using assms
proof (induction "is" arbitrary: b)
  case Nil
  then show ?case by simp
next
  case (Cons i "is")
  show ?case
  proof (cases "P i")
    case True
    from put_in [of b i True] Cons.prems obtain b1 where b1: "put b i True = Some b1" "inv b1"
      "size_of b1 = size_of b" "\<forall>j. mem b1 j = (if j = i then True else mem b j)" by auto
    moreover have "\<forall>j\<in>set is. j < size_of b1" using Cons.prems b1(3) by simp
    ultimately show ?thesis using Cons.IH [of b1] True by auto
  next
    case False
    then show ?thesis using Cons.IH [of b] Cons.prems by auto
  qed
qed

end

definition ba_put :: "BitArray \<Rightarrow> nat \<Rightarrow> bool \<Rightarrow> BitArray option" where
  "ba_put b i v = map_option snd (setIndex b (int i) v)"

lemma setIndex_in:
  assumes wf: "ba_wf b" and i: "int i < Bits b"
  obtains b' where "setIndex b (int i) v = Some (True, b')" and "ba_wf b'" and "Bits b' = Bits b"
    and "\<And>j. ba_test b' j = (if j = i then v else ba_test b j)" and "ba_tidy b \<Longrightarrow> ba_tidy b'"
proof -
  let ?k = "i div 64" and ?m = "i mod 64"
  have k: "?k < length (Elems b)" using wf i by (rule ba_wf_index)
  define e where "e = (if v then Elems b ! ?k OR push_bit ?m 1 else Elems b ! ?k AND NOT (push_bit ?m 1))"
  define b' where "b' = b\<lparr>Elems := (Elems b)[?k := e]\<rparr>"
  have set: "setIndex b (int i) v = Some (True, b')"
    using i k by (auto simp: setIndex_def slice_get_in slice_set_in e_def b'_def shl1_nat)
  have bit_e: "bit e n = (if n = ?m then v else bit (Elems b ! ?k) n)" if "n < 64" for n
    using that by (auto simp: e_def bit_or_iff bit_and_iff bit_not_iff bit_exp_iff)
  have bit_b': "bit (Elems b' ! (j div 64)) (j mod 64) = (if j = i then v else bit (Elems b ! (j div 64)) (j mod 64))"
    if "j div 64 < length (Elems b)" for j
    using bit_e [of "j mod 64"] k that index_split [of j i]
    by (cases "j div 64 = ?k") (auto simp: b'_def)
  have wf': "ba_wf b'" using wf by (simp add: ba_wf_def b'_def)
  show ?thesis
  proof (rule that [OF set wf'])
    show bits: "Bits b' = Bits b" by (simp add: b'_def)
    show "ba_test b' j = (if j = i then v else ba_test b j)" for j
      using bit_b' [of j] ba_wf_index [OF wf, of j] i by (auto simp: ba_test_def bits)
    show "ba_tidy b'" if "ba_tidy b"
      unfolding ba_tidy_def
    proof (intro allI impI)
      fix j assume j: "j < 64 * length (Elems b')" and tst: "bit (Elems b' ! (j div 64)) (j mod 64)"
      have "j < 64 * length (Elems b)" using j by (simp add: b'_def)
      then show "int j < Bits b'"
        using that i tst bit_b' [of j] by (auto simp: ba_tidy_def bits less_mult_imp_div_less mult.commute split: if_splits)
    qed
  qed
qed

interpretation ba: index_set ba_wf "\<lambda>b. nat (Bits b)" ba_test ba_put
proof
  fix b :: BitArray and i v
  show "\<exists>b'. ba_put b i v = Some b' \<and> ba_wf b' \<and> nat (Bits b') = nat (Bits b)
      \<and> (\<forall>j. ba_test b' j = (if j = i then v else ba_test b j))"
    if wf: "ba_wf b" and i: "i < nat (Bits b)"
  proof -
    have "int i < Bits b" using i by (simp add: zless_nat_eq_int_zless)
    from setIndex_in [OF wf this, of v] obtain b' where "setIndex b (int i) v = Some (True, b')"
      and "ba_wf b'" and "Bits b' = Bits b" and "\<And>j. ba_test b' j = (if j = i then v else ba_test b j)"
      by metis
    then show ?thesis by (intro exI [of _ b']) (simp add: ba_put_def)
  qed
  show "ba_wf b \<Longrightarrow> nat (Bits b) \<le> i \<Longrightarrow> ba_put b i v = Some b"
    by (simp add: ba_put_def setIndex_def nat_le_iff)
  show "ba_wf b \<Longrightarrow> ba_test b i \<Longrightarrow> i < nat (Bits b)"
    by (simp add: ba_test_def zless_nat_eq_int_zless)
qed

lemma SetIndex_put: "SetIndex (Some b) (int i) v = map_option (\<lambda>b'. (int i < Bits b, Some b')) (ba_put b i v)"
proof (cases "setIndex b (int i) v")
  case None
  then show ?thesis by (simp add: SetIndex_def ba_put_def)
next
  case (Some r)
  then have "fst r = (int i < Bits b)"
    by (auto simp: setIndex_def bind_eq_Some_conv split: if_splits)
  with Some show ?thesis by (cases r) (simp add: SetIndex_def ba_put_def)
qed

lemma ba_Copy_eq: "ba_Copy ba = ba"
  by (cases ba) (simp_all add: ba_Copy_def)

section \<open>A bit array that mirrors a slice of pointers\<close>

definition bits_ok :: "BitArray option \<Rightarrow> 'a option list \<Rightarrow> bool" where
  "bits_ok ba xs \<longleftrightarrow> (\<exists>b. ba = Some b \<and> ba_wf b \<and> ba_tidy b \<and> Bits b = int (length xs) \<and>
     (\<forall>i<length xs. ba_test b i \<longleftrightarrow> xs ! i \<noteq> None))"

lemma bits_ok_new: "0 < n \<Longrightarrow> n < 2 ^ 32 \<Longrightarrow> bits_ok (NewBitArray (int n)) (replicate n None)"
  by (rule NewBitArray_wf[of "int n"]) (auto simp: bits_ok_def)

lemma bits_ok_set:
  assumes "bits_ok ba xs" "i < length xs"
  obtains ba' where "SetIndex ba (int i) True = Some (True, ba')" "bits_ok ba' (xs[i := Some v])"
proof -
  obtain b where b: "ba = Some b" "ba_wf b" "ba_tidy b" "Bits b = int (length xs)" "\<forall>i<length xs. ba_test b i \<longleftrightarrow> xs ! i \<noteq> None"
    using assms(1) by (auto simp: bits_ok_def)
  then obtain b' where b': "setIndex b (int i) True = Some (True, b')" "ba_wf b'" "ba_tidy b \<Longrightarrow> ba_tidy b'" "Bits b' = Bits b"
      "\<And>j. ba_test b' j = (if j = i then True else ba_test b j)"
    using setIndex_in[of b i True] assms(2) by (metis of_nat_less_iff)
  show thesis
  proof (rule that)
    show "SetIndex ba (int i) True = Some (True, Some b')" using b(1) b'(1) by (simp add: SetIndex_def)
    show "bits_ok (Some b') (xs[i := Some v])" using b b' by (auto simp: bits_ok_def nth_update_iff)
  qed
qed

lemma bits_ok_cong:
  "bits_ok ba xs \<Longrightarrow> length ys = length xs \<Longrightarrow> (\<And>i. i < length xs \<Longrightarrow> ys ! i = None \<longleftrightarrow> xs ! i = None) \<Longrightarrow> bits_ok ba ys"
  by (auto simp: bits_ok_def)

section \<open>Pointwise behaviour of the set operations\<close>

lemma length_zip_prefix [simp]:
  "n \<le> length cs \<Longrightarrow> n \<le> length ys \<Longrightarrow> length (zip_prefix f n cs ys) = length cs"
  by (simp add: zip_prefix_def)

lemma zip_prefix_nth:
  "n \<le> length cs \<Longrightarrow> n \<le> length ys \<Longrightarrow> k < length cs \<Longrightarrow>
   zip_prefix f n cs ys ! k = (if k < n then f (cs ! k) (ys ! k) else cs ! k)"
  by (auto simp: zip_prefix_def nth_append)

lemma copyBits_props:
  assumes "0 < n" and "n < 2 ^ 62"
  obtains c where "copyBits a n = Some c" "Bits c = n" "length (Elems c) = nat ((n + 63) div 64)"
    "\<And>k. k < nat ((n + 63) div 64) \<Longrightarrow> Elems c ! k = (if k < length (Elems a) then Elems a ! k else 0)"
proof (rule that)
  show "copyBits a n = Some \<lparr>Bits = n, Elems = slice_copy (replicate (nat ((n + 63) div 64)) 0) (Elems a)\<rparr>"
    using assms by (simp add: copyBits_def add64_small go_div_nonneg Let_def)
qed (simp_all add: slice_copy_nth)

lemmas ba_bits = bit_or_iff bit_and_iff bit_not_iff

lemma ba_And_props:
  assumes "ba_wf a" and "ba_wf b"
  obtains c where "ba_And (Some a) (Some b) = Some (Some c)" and "ba_wf c"
    and "Bits c = min (Bits a) (Bits b)" and "\<And>i. ba_test c i \<longleftrightarrow> ba_test a i \<and> ba_test b i"
proof -
  let ?n = "min (Bits a) (Bits b)"
  have n: "0 < ?n" "?n < 2 ^ 62" using assms by (auto simp: ba_wf_def)
  obtain c0 where c0: "copyBits a ?n = Some c0" and cp: "Bits c0 = ?n" "length (Elems c0) = nat ((?n + 63) div 64)"
    "\<And>k. k < nat ((?n + 63) div 64) \<Longrightarrow> Elems c0 ! k = (if k < length (Elems a) then Elems a ! k else 0)"
    using copyBits_props [OF n, where a = a] by blast
  define c where "c = c0\<lparr>Elems := zip_prefix (AND) (length (Elems c0)) (Elems c0) (Elems b)\<rparr>"
  have la: "nat ((?n + 63) div 64) \<le> length (Elems a)" and lb: "nat ((?n + 63) div 64) \<le> length (Elems b)"
    using assms by (auto simp: ba_wf_def intro!: nat_mono zdiv_mono1)
  have "ba_And (Some a) (Some b) = Some (Some c)"
    using lb c0 by (simp add: ba_And_def and_bits_def c_def cp)
  moreover have bits: "Bits c = ?n" by (simp add: c_def cp)
  moreover have wf: "ba_wf c" using n lb by (simp add: ba_wf_def bits) (simp add: c_def cp)
  moreover have "ba_test c i \<longleftrightarrow> ba_test a i \<and> ba_test b i" for i
  proof (cases "int i < ?n")
    case True
    then have "i div 64 < length (Elems c)" using ba_wf_index [OF wf, of i] bits by simp
    then have "i div 64 < nat ((?n + 63) div 64)" using lb by (simp add: c_def cp)
    then show ?thesis
      using True la lb by (simp add: ba_test_def bits) (simp add: c_def cp zip_prefix_nth ba_bits)
  next
    case False
    then show ?thesis by (auto simp: ba_test_def bits)
  qed
  ultimately show ?thesis using that by blast
qed

lemma ba_Sub_props:
  assumes "ba_wf a" and "ba_wf b" and "ba_tidy b"
  obtains c where "ba_Sub (Some a) (Some b) = Some (Some c)" and "ba_wf c"
    and "Bits c = Bits a" and "\<And>i. ba_test c i \<longleftrightarrow> ba_test a i \<and> \<not> ba_test b i"
proof -
  have n: "0 < Bits a" "Bits a < 2 ^ 62" using assms by (auto simp: ba_wf_def)
  obtain c0 where c0: "copyBits a (Bits a) = Some c0" and cp: "Bits c0 = Bits a" "length (Elems c0) = nat ((Bits a + 63) div 64)"
    "\<And>k. k < nat ((Bits a + 63) div 64) \<Longrightarrow> Elems c0 ! k = (if k < length (Elems a) then Elems a ! k else 0)"
    using copyBits_props [OF n, where a = a] by blast
  let ?s = "min (length (Elems a)) (length (Elems b))"
  define c where "c = c0\<lparr>Elems := zip_prefix (\<lambda>x y. x AND NOT y) ?s (Elems c0) (Elems b)\<rparr>"
  have la: "length (Elems a) = nat ((Bits a + 63) div 64)" using assms(1) by (simp add: ba_wf_def)
  have c: "ba_Sub (Some a) (Some b) = Some (Some c)" using c0 la by (simp add: ba_Sub_def Let_def c_def cp)
  have bits: "Bits c = Bits a" by (simp add: c_def cp)
  have wf: "ba_wf c" using n la by (simp add: ba_wf_def bits) (simp add: c_def cp)
  have "ba_test c i \<longleftrightarrow> ba_test a i \<and> \<not> ba_test b i" for i
  proof (cases "int i < Bits a")
    case True
    then have i: "i div 64 < length (Elems a)" using ba_wf_index [OF assms(1)] by simp
    have elem: "Elems c ! (i div 64) =
        (if i div 64 < length (Elems b) then Elems a ! (i div 64) AND NOT (Elems b ! (i div 64)) else Elems a ! (i div 64))"
      using i la by (simp add: c_def cp zip_prefix_nth)
    show ?thesis
    proof (cases "i div 64 < length (Elems b)")
      case in_b: True
      then have "i < 64 * length (Elems b)" by (simp add: div_less_iff_less_mult mult.commute)
      then have "bit (Elems b ! (i div 64)) (i mod 64) \<longleftrightarrow> ba_test b i"
        using assms(3) by (auto simp: ba_tidy_def ba_test_def)
      then show ?thesis using True in_b elem by (simp add: ba_test_def [of c] ba_test_def [of a] bits ba_bits)
    next
      case False
      then have "\<not> ba_test b i" using ba_wf_index [OF assms(2), of i] by (auto simp: ba_test_def)
      then show ?thesis using False elem by (simp add: ba_test_def [of c] ba_test_def [of a] bits)
    qed
  next
    case False
    then show ?thesis by (auto simp: ba_test_def bits)
  qed
  with c wf bits show ?thesis by (rule that)
qed

text \<open>\<open>Sub\<close> and \<open>Or\<close> on a well-formed array do not panic, whatever the words of the other array.\<close>

lemma ba_Sub_total:
  assumes "ba_wf a"
  obtains c where "ba_Sub (Some a) (Some b) = Some (Some c)" and "ba_wf c"
proof -
  have n: "0 < Bits a" "Bits a < 2 ^ 62" and la: "length (Elems a) = nat ((Bits a + 63) div 64)" using assms by (auto simp: ba_wf_def)
  obtain c0 where c0: "copyBits a (Bits a) = Some c0" "Bits c0 = Bits a" "length (Elems c0) = nat ((Bits a + 63) div 64)"
    using copyBits_props [OF n, where a = a] by blast
  let ?c = "c0\<lparr>Elems := zip_prefix (\<lambda>x y. x AND NOT y) (min (length (Elems a)) (length (Elems b))) (Elems c0) (Elems b)\<rparr>"
  have "ba_wf ?c" using n c0(2,3) la by (simp add: ba_wf_def zip_prefix_def)
  then show ?thesis using that[of ?c] c0 la by (simp add: ba_Sub_def Let_def)
qed

lemma ba_Or_total:
  assumes "ba_wf a" and "Bits b < 2 ^ 62"
  obtains c where "ba_Or (Some a) (Some b) = Some (Some c)" and "Bits c = max (Bits a) (Bits b)"
proof -
  let ?n = "max (Bits a) (Bits b)"
  have n: "0 < ?n" "?n < 2 ^ 62" using assms by (auto simp: ba_wf_def)
  obtain c0 where c0: "copyBits a ?n = Some c0" "Bits c0 = ?n" "length (Elems c0) = nat ((?n + 63) div 64)"
    using copyBits_props [OF n, where a = a] by blast
  moreover have "length (Elems a) \<le> nat ((?n + 63) div 64)" using assms(1) by (auto simp: ba_wf_def intro!: nat_mono zdiv_mono1)
  ultimately show ?thesis by (intro that[of "c0\<lparr>Elems := zip_prefix (OR) (min (length (Elems a)) (length (Elems b))) (Elems c0) (Elems b)\<rparr>"])
    (simp_all add: ba_Or_def Let_def min.coboundedI1)
qed

lemma ba_Not_props:
  assumes "ba_wf a"
  obtains c where "ba_Not (Some a) = Some c" and "ba_wf c" and "Bits c = Bits a"
    and "\<And>i. ba_test c i \<longleftrightarrow> int i < Bits a \<and> \<not> ba_test a i"
  using assms ba_wf_index [OF assms]
  by (intro that [of "a\<lparr>Elems := map (\<lambda>e. NOT e) (Elems a)\<rparr>"])
    (auto simp: ba_Not_def ba_wf_def ba_test_def bit_not_iff)

section \<open>Enumerating the set bits\<close>

lemma scanBits_eq: "n \<le> 64 \<Longrightarrow> scanBits e n c = map (\<lambda>j. c + int j) (filter (bit e) [0..<n])"
  unfolding scanBits_def by (intro arg_cong [where f = "map _"] filter_cong) (auto simp: and_shl1_pos)

lemma upt_split: "64 \<le> n \<Longrightarrow> [0..<n] = [0..<64] @ map (\<lambda>j. j + 64) [0..<n - 64]"
  using upt_add_eq_append [of 0 64 "n - 64"] map_add_upt [of 64 "n - 64"] by simp

lemma trueIndicesFrom_eq:
  assumes "length es = nat ((bits - cur + 63) div 64)" and "cur < bits"
  shows "trueIndicesFrom bits cur es =
    Some (map (\<lambda>j. cur + int j) (filter (\<lambda>j. bit (es ! (j div 64)) (j mod 64)) [0..<nat (bits - cur)]))"
  using assms
proof (induction bits cur es rule: trueIndicesFrom.induct)
  case (1 bits cur)
  then show ?case by simp
next
  case (2 bits cur e)
  then have n: "nat (bits - cur) \<le> 64" by auto
  have "filter (bit e) [0..<nat (bits - cur)]
      = filter (\<lambda>j. bit ([e] ! (j div 64)) (j mod 64)) [0..<nat (bits - cur)]"
    using n by (intro filter_cong) auto
  with n show ?case by (simp add: scanBits_eq)
next
  case (3 bits cur e e' es)
  let ?n = "nat (bits - cur)"
  have len: "Suc (Suc (length es)) = nat ((bits - cur + 63) div 64)" using 3 by simp
  then have n: "64 < bits - cur" by linarith
  then have n': "64 \<le> ?n" by simp
  have IH: "trueIndicesFrom bits (cur + 64) (e' # es) = Some (map (\<lambda>j. cur + 64 + int j)
      (filter (\<lambda>j. bit ((e' # es) ! (j div 64)) (j mod 64)) [0..<nat (bits - (cur + 64))]))"
    using len n by (intro 3) (auto simp: algebra_simps)
  have e: "(if e = 0 then [] else scanBits e 64 cur) = map (\<lambda>j. cur + int j) (filter (bit e) [0..<64])"
    by (auto simp: scanBits_eq)
  have lo: "filter (\<lambda>j. bit ((e # e' # es) ! (j div 64)) (j mod 64)) [0..<64] = filter (bit e) [0..<64]"
    by (intro filter_cong) auto
  have "nat (bits - (cur + 64)) = ?n - 64" using n by simp
  then show ?case
    by (simp add: IH e upt_split [OF n'] lo filter_map o_def algebra_simps)
qed

lemma getTrueIndices_eq:
  assumes "ba_wf b"
  shows "getTrueIndices b = Some (map int (filter (ba_test b) [0..<nat (Bits b)]))"
proof -
  have "filter (\<lambda>j. bit (Elems b ! (j div 64)) (j mod 64)) [0..<nat (Bits b)]
      = filter (ba_test b) [0..<nat (Bits b)]"
    by (intro filter_cong) (auto simp: ba_test_def)
  then show ?thesis
    using assms by (simp add: getTrueIndices_def trueIndicesFrom_eq ba_wf_def)
qed

section \<open>The JSON form\<close>

lemma bitChars_eq:
  assumes "ba_wf b"
  shows "bitChars b = Some (map (\<lambda>i. if ba_test b i then CHR ''x'' else CHR ''_'') [0..<nat (Bits b)])"
proof -
  have "those (map (\<lambda>i. Some (f i)) xs) = Some (map f xs)" for f :: "nat \<Rightarrow> char" and xs
    by (induction xs) auto
  then show ?thesis by (simp add: bitChars_def getIndex_test [OF assms])
qed

lemma setBits_props:
  assumes "ba_wf b" and "ba_tidy b" and "int i + int (length cs) \<le> Bits b"
  shows "\<exists>b'. setBits (Some b) cs (int i) = Some (Some b') \<and> ba_wf b' \<and> ba_tidy b' \<and> Bits b' = Bits b
    \<and> (\<forall>j. ba_test b' j \<longleftrightarrow> ba_test b j \<or> i \<le> j \<and> j < i + length cs \<and> cs ! (j - i) = CHR ''x'')"
  using assms
proof (induction cs arbitrary: b i)
  case Nil
  then show ?case by auto
next
  case (Cons c cs)
  have shift: "(i \<le> j \<and> j < i + length (c # cs) \<and> (c # cs) ! (j - i) = CHR ''x'')
      \<longleftrightarrow> (j = i \<and> c = CHR ''x'') \<or> (Suc i \<le> j \<and> j < Suc i + length cs \<and> cs ! (j - Suc i) = CHR ''x'')" for j
    by (cases "j = i") (auto simp: nth_Cons' Suc_diff_le le_eq_less_or_eq)
  show ?case
  proof (cases "c = CHR ''x''")
    case True
    from Cons.prems(3) have "int i < Bits b" by simp
    from setIndex_in [OF Cons.prems(1) this, of True] obtain b1 where b1:
      "setIndex b (int i) True = Some (True, b1)" "ba_wf b1" "Bits b1 = Bits b"
      "\<And>j. ba_test b1 j = (if j = i then True else ba_test b j)" "ba_tidy b1"
      using Cons.prems(2) by metis
    then have "\<exists>b'. setBits (Some b1) cs (int (Suc i)) = Some (Some b') \<and> ba_wf b' \<and> ba_tidy b' \<and> Bits b' = Bits b1
      \<and> (\<forall>j. ba_test b' j \<longleftrightarrow> ba_test b1 j \<or> Suc i \<le> j \<and> j < Suc i + length cs \<and> cs ! (j - Suc i) = CHR ''x'')"
      using Cons.prems(3) by (intro Cons.IH) auto
    then show ?thesis using True b1 unfolding shift by (auto simp: SetIndex_def add.commute)
  next
    case False
    have "\<exists>b'. setBits (Some b) cs (int (Suc i)) = Some (Some b') \<and> ba_wf b' \<and> ba_tidy b' \<and> Bits b' = Bits b
      \<and> (\<forall>j. ba_test b' j \<longleftrightarrow> ba_test b j \<or> Suc i \<le> j \<and> j < Suc i + length cs \<and> cs ! (j - Suc i) = CHR ''x'')"
      using Cons.prems by (intro Cons.IH) auto
    then show ?thesis using False unfolding shift by (auto simp: add.commute)
  qed
qed

lemma ba_eqI:
  assumes "ba_wf a" "ba_tidy a" "ba_wf b" "ba_tidy b" "Bits a = Bits b" "\<And>i. ba_test a i = ba_test b i"
  shows "a = b"
proof -
  have len: "length (Elems a) = length (Elems b)" using assms by (simp add: ba_wf_def)
  have "Elems a ! k = Elems b ! k" if k: "k < length (Elems a)" for k
  proof (rule bit_word_eqI)
    fix n assume n: "n < LENGTH(64)"
    let ?i = "64 * k + n"
    have i: "?i div 64 = k" "?i mod 64 = n" "?i < 64 * length (Elems a)" using n k by auto
    have "bit (Elems a ! k) n \<longleftrightarrow> ba_test a ?i"
      using assms(2) i k n by (auto simp: ba_tidy_def ba_test_def dest: spec [of _ ?i])
    moreover have "bit (Elems b ! k) n \<longleftrightarrow> ba_test b ?i"
      using assms(4) i k n len by (auto simp: ba_tidy_def ba_test_def dest: spec [of _ ?i])
    ultimately show "bit (Elems a ! k) n \<longleftrightarrow> bit (Elems b ! k) n" using assms(6) by simp
  qed
  with len assms(5) show ?thesis by (intro BitArray.equality nth_equalityI) auto
qed

lemma bits_ok_unique: "bits_ok a xs \<Longrightarrow> bits_ok b xs \<Longrightarrow> a = b"
proof -
  assume "bits_ok a xs" "bits_ok b xs"
  then obtain x y where xy: "a = Some x" "b = Some y" "ba_wf x" "ba_wf y" "ba_tidy x" "ba_tidy y"
    "Bits x = int (length xs)" "Bits y = int (length xs)" "\<forall>i<length xs. ba_test x i = ba_test y i"
    by (auto simp: bits_ok_def)
  moreover have "ba_test x i = ba_test y i" for i
    using xy by (cases "i < length xs") (auto simp: ba_test_def)
  ultimately show "a = b" using ba_eqI[of x y] by simp
qed

lemma matchBits_quoted:
  "list_all (\<lambda>c. c = CHR ''x'' \<or> c = CHR ''_'') cs \<Longrightarrow> matchBits (CHR 0x22 # cs @ [CHR 0x22]) = Some cs"
  by (simp add: matchBits_def)

section \<open>Properties\<close>

text \<open>Writing one bit of a bit array succeeds inside its size, keeps its shape, and
  changes the value read at that index and at no other (\<open>SetIndex\<close>/\<open>GetIndex\<close>).\<close>

theorem SetIndex_GetIndex:
  assumes "ba_wf b" and "0 \<le> i" and "i < Bits b"
  shows "\<exists>b'. SetIndex (Some b) i v = Some (True, Some b') \<and> ba_wf b' \<and> Bits b' = Bits b
    \<and> (\<forall>j\<ge>0. GetIndex (Some b') j = (if j = i then Some v else GetIndex (Some b) j))"
proof -
  have i: "i = int (nat i)" using assms(2) by simp
  from assms(3) i setIndex_in [OF assms(1), of "nat i" v] obtain b' where b':
    "setIndex b (int (nat i)) v = Some (True, b')" "ba_wf b'" "Bits b' = Bits b"
    "\<And>j. ba_test b' j = (if j = nat i then v else ba_test b j)" by metis
  have "GetIndex (Some b') j = (if j = i then Some v else GetIndex (Some b) j)" if "0 \<le> j" for j
    using getIndex_test [OF b'(2), of "nat j"] getIndex_test [OF assms(1), of "nat j"] b'(4) that assms(2)
    by (auto simp: GetIndex_def eq_nat_nat_iff)
  with b' i show ?thesis by (intro exI [of _ b']) (auto simp: SetIndex_def)
qed

theorem SetIndex_GetIndex_witness:
  "\<exists>b'. SetIndex (Some \<lparr>Bits = 70, Elems = [0, 3]\<rparr>) 66 True = Some (True, Some b') \<and> ba_wf b' \<and> Bits b' = 70
    \<and> (\<forall>j\<ge>0. GetIndex (Some b') j = (if j = 66 then Some True else GetIndex (Some \<lparr>Bits = 70, Elems = [0, 3]\<rparr>) j))"
  using SetIndex_GetIndex [of "\<lparr>Bits = 70, Elems = [0, 3]\<rparr>" 66 True] by (simp add: ba_wf_def)

text \<open>\<open>And\<close>, \<open>Sub\<close> and \<open>Not\<close> are intersection, difference and complement of the held
  indices; \<open>Sub\<close> needs the bits of its right operand beyond its size to be clear.\<close>

theorem bit_array_set_operations:
  assumes "ba_wf a" and "ba_wf b" and "ba_tidy b"
  shows "\<exists>c d e. ba_And (Some a) (Some b) = Some (Some c) \<and> Bits c = min (Bits a) (Bits b)
      \<and> (\<forall>i. ba_test c i \<longleftrightarrow> ba_test a i \<and> ba_test b i)
    \<and> ba_Sub (Some a) (Some b) = Some (Some d) \<and> Bits d = Bits a \<and> (\<forall>i. ba_test d i \<longleftrightarrow> ba_test a i \<and> \<not> ba_test b i)
    \<and> ba_Not (Some a) = Some e \<and> Bits e = Bits a \<and> (\<forall>i. ba_test e i \<longleftrightarrow> int i < Bits a \<and> \<not> ba_test a i)"
proof -
  obtain c where c: "ba_And (Some a) (Some b) = Some (Some c)" "ba_wf c" "Bits c = min (Bits a) (Bits b)"
    "\<And>i. ba_test c i \<longleftrightarrow> ba_test a i \<and> ba_test b i" using ba_And_props [OF assms(1,2)] by blast
  obtain d where d: "ba_Sub (Some a) (Some b) = Some (Some d)" "ba_wf d" "Bits d = Bits a"
    "\<And>i. ba_test d i \<longleftrightarrow> ba_test a i \<and> \<not> ba_test b i" using ba_Sub_props [OF assms] by blast
  obtain e where e: "ba_Not (Some a) = Some e" "ba_wf e" "Bits e = Bits a"
    "\<And>i. ba_test e i \<longleftrightarrow> int i < Bits a \<and> \<not> ba_test a i" using ba_Not_props [OF assms(1)] by blast
  from c d e show ?thesis by (intro exI [of _ c] exI [of _ d] exI [of _ e]) simp
qed

theorem bit_array_set_operations_witness:
  "\<exists>c d e. ba_And (Some \<lparr>Bits = 3, Elems = [5]\<rparr>) (Some \<lparr>Bits = 2, Elems = [1]\<rparr>) = Some (Some c) \<and> Bits c = 2
      \<and> (\<forall>i. ba_test c i \<longleftrightarrow> ba_test \<lparr>Bits = 3, Elems = [5]\<rparr> i \<and> ba_test \<lparr>Bits = 2, Elems = [1]\<rparr> i)
    \<and> ba_Sub (Some \<lparr>Bits = 3, Elems = [5]\<rparr>) (Some \<lparr>Bits = 2, Elems = [1]\<rparr>) = Some (Some d)
    \<and> (\<forall>i. ba_test d i \<longleftrightarrow> ba_test \<lparr>Bits = 3, Elems = [5]\<rparr> i \<and> \<not> ba_test \<lparr>Bits = 2, Elems = [1]\<rparr> i)
    \<and> ba_Not (Some \<lparr>Bits = 3, Elems = [5]\<rparr>) = Some e"
proof -
  have "ba_tidy \<lparr>Bits = 2, Elems = [1]\<rparr>"
    by (auto simp: ba_tidy_def bit_1_iff)
  then show ?thesis
    using bit_array_set_operations [of "\<lparr>Bits = 3, Elems = [5]\<rparr>" "\<lparr>Bits = 2, Elems = [1]\<rparr>"]
    by (auto simp: ba_wf_def)
qed

text \<open>Whatever the random source draws, \<open>PickRandom\<close> returns an index whose bit is set,
  and reports failure exactly when no bit is set.\<close>

theorem PickRandom_correct:
  assumes "ba_wf b" and "\<And>n. 0 < n \<Longrightarrow> rnd n < n"
  shows "\<exists>i ok. PickRandom rnd (Some b) = Some (i, ok) \<and> (ok \<longleftrightarrow> (\<exists>j. ba_test b j)) \<and> (ok \<longrightarrow> 0 \<le> i \<and> ba_test b (nat i))"
proof -
  let ?is = "map int (filter (ba_test b) [0..<nat (Bits b)])"
  have ex: "(\<exists>j. ba_test b j) \<longleftrightarrow> ?is \<noteq> []"
    using ba.mem_bound [OF assms(1)] by (auto simp: filter_empty_conv)
  show ?thesis
  proof (cases "?is = []")
    case True
    then show ?thesis using ex
      by (intro exI [of _ 0] exI [of _ False]) (simp add: PickRandom_def getTrueIndices_eq [OF assms(1)])
  next
    case False
    then have r: "rnd (length ?is) < length ?is" by (intro assms(2)) (simp only: length_greater_0_conv not_False_eq_True)
    then have "?is ! rnd (length ?is) \<in> set ?is" by (rule nth_mem)
    then have "0 \<le> ?is ! rnd (length ?is) \<and> ba_test b (nat (?is ! rnd (length ?is)))" by auto
    moreover have "PickRandom rnd (Some b) = Some (?is ! rnd (length ?is), True)"
      using False r by (simp add: PickRandom_def getTrueIndices_eq [OF assms(1)] slice_get_in del: nth_map)
    ultimately show ?thesis using ex False by blast
  qed
qed

theorem PickRandom_correct_witness:
  "\<exists>i ok. PickRandom (\<lambda>n. n - 1) (Some \<lparr>Bits = 3, Elems = [5]\<rparr>) = Some (i, ok)
    \<and> (ok \<longleftrightarrow> (\<exists>j. ba_test \<lparr>Bits = 3, Elems = [5]\<rparr> j)) \<and> (ok \<longrightarrow> 0 \<le> i \<and> ba_test \<lparr>Bits = 3, Elems = [5]\<rparr> (nat i))"
  by (rule PickRandom_correct) (simp_all add: ba_wf_def)

text \<open>Decoding the JSON form of a bit array gives the array back.\<close>

theorem bit_array_JSON_roundtrip:
  assumes "ba_wf b" and "ba_tidy b"
  shows "\<exists>js. ba_MarshalJSON (Some b) = Some js \<and> ba_UnmarshalJSON js = Some (JSONArray b)"
proof -
  let ?cs = "map (\<lambda>i. if ba_test b i then CHR ''x'' else CHR ''_'') [0..<nat (Bits b)]"
  let ?js = "CHR 0x22 # ?cs @ [CHR 0x22]"
  have pos: "0 < Bits b" "Bits b < 2 ^ 62" using assms(1) by (simp_all add: ba_wf_def)
  then obtain b0 where b0: "NewBitArray (Bits b) = Some b0" "ba_wf b0" "Bits b0 = Bits b" "\<And>i. \<not> ba_test b0 i" "ba_tidy b0"
    using NewBitArray_wf by metis
  from setBits_props [OF b0(2,5), of 0 ?cs] pos b0(3,4) obtain b' where b': "setBits (Some b0) ?cs 0 = Some (Some b')"
    "ba_wf b'" "ba_tidy b'" "Bits b' = Bits b" "\<And>j. ba_test b' j \<longleftrightarrow> j < nat (Bits b) \<and> ?cs ! j = CHR ''x''" by auto
  have "ba_test b' j \<longleftrightarrow> ba_test b j" for j
    using ba.mem_bound [OF assms(1), of j] b'(5) [of j] by (cases "ba_test b j") auto
  then have "b' = b" using ba_eqI [OF b'(2,3) assms] b'(4) by simp
  moreover have "matchBits ?js = Some ?cs" by (rule matchBits_quoted) (auto simp: list_all_iff)
  moreover have "?js \<noteq> ''null''" by simp
  ultimately have "ba_UnmarshalJSON ?js = Some (JSONArray b)"
    using b'(1) b0(1) pos by (simp add: ba_UnmarshalJSON_def)
  then show ?thesis by (intro exI [of _ ?js]) (simp add: ba_MarshalJSON_def bitChars_eq [OF assms(1)])
qed

theorem bit_array_JSON_roundtrip_witness:
  "\<exists>js. ba_MarshalJSON (Some \<lparr>Bits = 2, Elems = [1]\<rparr>) = Some js
    \<and> ba_UnmarshalJSON js = Some (JSONArray \<lparr>Bits = 2, Elems = [1]\<rparr>)"
  by (rule bit_array_JSON_roundtrip) (auto simp: ba_wf_def ba_tidy_def bit_1_iff)

text \<open>\<open>Or\<close> is documented as a union padded to the larger size, but it folds in only as
  many words as the shorter operand has: a bit of the longer operand beyond them is lost.\<close>

theorem Or_loses_bits:
  "\<exists>a b c. ba_wf a \<and> ba_wf b \<and> ba_Or (Some a) (Some b) = Some (Some c) \<and> Bits c = max (Bits a) (Bits b)
    \<and> ba_test b 64 \<and> \<not> ba_test c 64"
  by (intro exI [of _ "\<lparr>Bits = 1, Elems = [0]\<rparr>"] exI [of _ "\<lparr>Bits = 65, Elems = [0, 1]\<rparr>"]
      exI [of _ "\<lparr>Bits = 65, Elems = [0, 0]\<rparr>"])
    (simp add: ba_wf_def ba_Or_def Let_def copyBits_def zip_prefix_def slice_copy_def
      add64_small go_div_nonneg ba_test_def numeral_2_eq_2)

end
