(* ===== verification/VoteSets.thy ===== *)
theory VoteSets
  imports Validators BitArrays
begin

text \<open>
  \<open>VoteSet\<close> and \<open>blockVotes\<close> of \<open>types/vote.go\<close>: the votes of one height, round and type, tallied over all
  blocks and per block, with the first block whose votes reach the quorum. The per-block tables sit in a
  map from block keys; the code changes them through the map's pointers, so every change is written
  back. A step that panics is \<open>None\<close>; an operation that returns early keeps the changes made so far.
\<close>

section \<open>State\<close>

record blockVotes =
  bvPeerMaj23 :: bool
  bvBitArray :: "BitArray option"
  bvVotes :: "Vote option list"
  bvSum :: float64

record VoteSet =
  vtChainID :: bytes
  vtHeight :: int
  vtRound :: int
  vtType :: int
  vtVals :: ValidatorSet
  vtBitArray :: "BitArray option"
  vtVotes :: "Vote option list"
  vtSum :: float64
  vtMaj23 :: "BlockID option"
  vtByBlock :: "bytes \<rightharpoonup> blockVotes"
  vtPeerMaj23s :: "string \<rightharpoonup> BlockID"

datatype vote_error =
    ErrVoteNil
  | ErrVoteInvalidIndex
  | ErrVoteEmptyAddress
  | ErrVoteUnexpectedStep
  | ErrVoteNonDeterministicSignature
  | ErrVoteVerify verify_error
  | ErrVoteConflictingVotes Vote Vote

section \<open>Operations\<close>

definition newBlockVotes :: "bool \<Rightarrow> int \<Rightarrow> blockVotes" where
  "newBlockVotes peerMaj23 numValidators =
     \<lparr>bvPeerMaj23 = peerMaj23, bvBitArray = NewBitArray numValidators,
      bvVotes = replicate (nat numValidators) None, bvSum = Fin 0\<rparr>"

definition bv_getByIndex :: "blockVotes option \<Rightarrow> int \<Rightarrow> Vote option option" where
  "bv_getByIndex vs index = (case vs of None \<Rightarrow> Some None | Some bv \<Rightarrow> slice_get (bvVotes bv) index)"

definition bv_addVerifiedVote :: "blockVotes \<Rightarrow> Vote \<Rightarrow> float64 \<Rightarrow> blockVotes option" where
  "bv_addVerifiedVote vs vote votingPower =
     (case slice_get (bvVotes vs) (vIndex vote) of
        None \<Rightarrow> None
      | Some (Some existing) \<Rightarrow> Some vs
      | Some None \<Rightarrow>
          Option.bind (SetIndex (bvBitArray vs) (vIndex vote) True) (\<lambda>(_, ba).
          Option.bind (slice_set (bvVotes vs) (vIndex vote) (Some vote)) (\<lambda>votes.
            Some (vs\<lparr>bvBitArray := ba, bvVotes := votes, bvSum := f64_add (bvSum vs) votingPower\<rparr>))))"

definition NewVoteSet :: "bytes \<Rightarrow> int \<Rightarrow> int \<Rightarrow> int \<Rightarrow> ValidatorSet \<Rightarrow> VoteSet option" where
  "NewVoteSet chainID height rnd signedMsgType valSet =
     (if height = 0 then None
      else Some \<lparr>vtChainID = chainID, vtHeight = height, vtRound = rnd, vtType = signedMsgType, vtVals = valSet,
        vtBitArray = NewBitArray (vals_Size valSet), vtVotes = replicate (nat (vals_Size valSet)) None,
        vtSum = Fin 0, vtMaj23 = None, vtByBlock = Map.empty, vtPeerMaj23s = Map.empty\<rparr>)"

definition getVote :: "VoteSet \<Rightarrow> int \<Rightarrow> bytes \<Rightarrow> Vote option option" where
  "getVote vs valIndex blockKey =
     (case slice_get (vtVotes vs) valIndex of
        None \<Rightarrow> None
      | Some e \<Rightarrow>
          (case e of
             Some existing \<Rightarrow>
               if bid_Key (vBlockID existing) = blockKey then Some (Some existing)
               else bv_getByIndex (vtByBlock vs blockKey) valIndex
           | None \<Rightarrow> bv_getByIndex (vtByBlock vs blockKey) valIndex))"

definition quorum :: float64 where
  "quorum = f64_add (f64_div (f64_mul TotalVotingPower (Fin 2)) (Fin 3)) (Fin 1)"

text \<open>The votes of the winning table replace those of the set where it has one.\<close>

definition overlay :: "'a option list \<Rightarrow> 'a option list \<Rightarrow> 'a option list" where
  "overlay new old = map2 (\<lambda>n w. if n \<noteq> None then n else w) new old"

text \<open>The three parts of \<open>addVerifiedVote\<close>: what it does to \<open>votes\<close>, the choice of the block's table, and
  the tally.\<close>

definition recordVote :: "VoteSet \<Rightarrow> Vote \<Rightarrow> bytes \<Rightarrow> float64 \<Rightarrow> (VoteSet \<times> Vote option) option" where
  "recordVote vs vote blockKey votingPower =
     (let putVote = (\<lambda>vs.
            Option.bind (slice_set (vtVotes vs) (vIndex vote) (Some vote)) (\<lambda>votes.
            Option.bind (SetIndex (vtBitArray vs) (vIndex vote) True) (\<lambda>(_, ba).
              Some (vs\<lparr>vtVotes := votes, vtBitArray := ba\<rparr>))))
      in case slice_get (vtVotes vs) (vIndex vote) of
           None \<Rightarrow> None
         | Some (Some existing) \<Rightarrow>
             if bid_Equals (vBlockID existing) (vBlockID vote) then None
             else if (case vtMaj23 vs of None \<Rightarrow> False | Some m \<Rightarrow> bid_Key m = blockKey)
             then map_option (\<lambda>vs'. (vs', Some existing)) (putVote vs)
             else Some (vs, Some existing)
         | Some None \<Rightarrow>
             map_option (\<lambda>vs'. (vs'\<lparr>vtSum := f64_add (vtSum vs') votingPower\<rparr>, None)) (putVote vs))"

definition tallyVote :: "VoteSet \<Rightarrow> blockVotes \<Rightarrow> Vote \<Rightarrow> bytes \<Rightarrow> float64 \<Rightarrow> VoteSet option" where
  "tallyVote vs bv vote blockKey votingPower =
     (case bv_addVerifiedVote bv vote votingPower of
        None \<Rightarrow> None
      | Some bv' \<Rightarrow>
          let vs1 = vs\<lparr>vtByBlock := (vtByBlock vs)(blockKey \<mapsto> bv')\<rparr>
          in Some (if f64_less (bvSum bv) quorum \<and> f64_le quorum (bvSum bv') \<and> vtMaj23 vs = None
                   then vs1\<lparr>vtMaj23 := Some (vBlockID vote), vtVotes := overlay (bvVotes bv') (vtVotes vs)\<rparr>
                   else vs1))"

definition addVerifiedVote :: "VoteSet \<Rightarrow> Vote \<Rightarrow> bytes \<Rightarrow> float64 \<Rightarrow> (VoteSet \<times> bool \<times> Vote option) option" where
  "addVerifiedVote vs vote blockKey votingPower =
     (case recordVote vs vote blockKey votingPower of
        None \<Rightarrow> None
      | Some (vs1, conflict) \<Rightarrow>
          (case vtByBlock vs1 blockKey of
             Some bv \<Rightarrow>
               if conflict \<noteq> None \<and> \<not> bvPeerMaj23 bv then Some (vs1, False, conflict)
               else map_option (\<lambda>vs2. (vs2, True, conflict)) (tallyVote vs1 bv vote blockKey votingPower)
           | None \<Rightarrow>
               if conflict \<noteq> None then Some (vs1, False, conflict)
               else map_option (\<lambda>vs2. (vs2, True, conflict))
                 (tallyVote vs1 (newBlockVotes False (vals_Size (vtVals vs1))) vote blockKey votingPower)))"

definition addVote :: "env \<Rightarrow> VoteSet \<Rightarrow> Vote option \<Rightarrow> (VoteSet \<times> bool \<times> vote_error option) option" where
  "addVote E vs v =
     (case v of
        None \<Rightarrow> Some (vs, False, Some ErrVoteNil)
      | Some vote \<Rightarrow>
          let valIndex = vIndex vote; blockKey = bid_Key (vBlockID vote)
          in if valIndex < 0 then Some (vs, False, Some ErrVoteInvalidIndex)
             else if length (vAddress vote) = 0 then Some (vs, False, Some ErrVoteEmptyAddress)
             else if vHeight vote \<noteq> vtHeight vs \<or> vRound vote \<noteq> vtRound vs \<or> vType vote \<noteq> vtType vs
             then Some (vs, False, Some ErrVoteUnexpectedStep)
             else (case snd (vals_GetByIndex (vtVals vs) valIndex) of
                 None \<Rightarrow> Some (vs, False, Some ErrVoteInvalidIndex)
               | Some val \<Rightarrow>
                   Option.bind (getVote vs valIndex blockKey) (\<lambda>e.
                     (case e of
                        Some existing \<Rightarrow>
                          if vSignature existing = vSignature vote then Some (vs, False, None)
                          else Some (vs, False, Some ErrVoteNonDeterministicSignature)
                      | None \<Rightarrow>
                          Option.bind (valPubKey val) (\<lambda>pk.
                          Option.bind (vote_Verify E (vtChainID vs) pk vote) (\<lambda>err.
                            (case err of
                               Some err \<Rightarrow> Some (vs, False, Some (ErrVoteVerify err))
                             | None \<Rightarrow>
                                 Option.bind (addVerifiedVote vs vote blockKey (valVotingPower val)) (\<lambda>(vs', added, conflicting).
                                   (case conflicting of
                                      Some c \<Rightarrow> Some (vs', added, Some (ErrVoteConflictingVotes c vote))
                                    | None \<Rightarrow> if \<not> added then None else Some (vs', added, None))))))))))"

text \<open>\<open>AddVote\<close> panics on a nil receiver.\<close>

definition AddVote :: "env \<Rightarrow> VoteSet option \<Rightarrow> Vote option \<Rightarrow> (VoteSet \<times> bool \<times> vote_error option) option" where
  "AddVote E vs vote = Option.bind vs (\<lambda>vs. addVote E vs vote)"

text \<open>\<open>SetPeerMaj23\<close>: the flag is the error for a peer that names a second block.\<close>

definition SetPeerMaj23 :: "VoteSet \<Rightarrow> string \<Rightarrow> BlockID \<Rightarrow> VoteSet \<times> bool" where
  "SetPeerMaj23 vs peerID blockID =
     (let blockKey = bid_Key blockID
      in case vtPeerMaj23s vs peerID of
           Some existing \<Rightarrow> (vs, \<not> bid_Equals existing blockID)
         | None \<Rightarrow>
             let vs1 = vs\<lparr>vtPeerMaj23s := (vtPeerMaj23s vs)(peerID \<mapsto> blockID)\<rparr>
             in case vtByBlock vs1 blockKey of
                  Some bv \<Rightarrow>
                    if bvPeerMaj23 bv then (vs1, False)
                    else (vs1\<lparr>vtByBlock := (vtByBlock vs1)(blockKey \<mapsto> bv\<lparr>bvPeerMaj23 := True\<rparr>)\<rparr>, False)
                | None \<Rightarrow>
                    (vs1\<lparr>vtByBlock := (vtByBlock vs1)(blockKey \<mapsto> newBlockVotes True (vals_Size (vtVals vs1)))\<rparr>, False))"

definition vt_Size :: "VoteSet option \<Rightarrow> int" where
  "vt_Size vs = (case vs of None \<Rightarrow> 0 | Some vs \<Rightarrow> vals_Size (vtVals vs))"

definition vt_BitArray :: "VoteSet option \<Rightarrow> BitArray option" where
  "vt_BitArray vs = (case vs of None \<Rightarrow> None | Some vs \<Rightarrow> ba_Copy (vtBitArray vs))"

definition vt_BitArrayByBlockID :: "VoteSet option \<Rightarrow> BlockID \<Rightarrow> BitArray option" where
  "vt_BitArrayByBlockID vs blockID =
     (case vs of
        None \<Rightarrow> None
      | Some vs \<Rightarrow> (case vtByBlock vs (bid_Key blockID) of None \<Rightarrow> None | Some bv \<Rightarrow> ba_Copy (bvBitArray bv)))"

definition vt_GetByIndex :: "VoteSet option \<Rightarrow> int \<Rightarrow> Vote option option" where
  "vt_GetByIndex vs valIndex = (case vs of None \<Rightarrow> Some None | Some vs \<Rightarrow> slice_get (vtVotes vs) valIndex)"

definition HasTwoThirdsMajority :: "VoteSet option \<Rightarrow> bool" where
  "HasTwoThirdsMajority vs = (case vs of None \<Rightarrow> False | Some vs \<Rightarrow> vtMaj23 vs \<noteq> None)"

definition vt_IsReply :: "VoteSet option \<Rightarrow> bool" where
  "vt_IsReply vs = (case vs of None \<Rightarrow> False | Some vs \<Rightarrow> vtType vs = CommitType \<and> vtMaj23 vs \<noteq> None)"

definition HasTwoThirdsAny :: "VoteSet option \<Rightarrow> bool" where
  "HasTwoThirdsAny vs =
     (case vs of None \<Rightarrow> False
      | Some vs \<Rightarrow> f64_less (f64_div (f64_mul TotalVotingPower (Fin 2)) (Fin 3)) (vtSum vs))"

definition HasAll :: "VoteSet \<Rightarrow> bool" where
  "HasAll vs = f64_eq (vtSum vs) TotalVotingPower"

definition TwoThirdsMajority :: "VoteSet option \<Rightarrow> BlockID \<times> bool" where
  "TwoThirdsMajority vs =
     (case vs of None \<Rightarrow> (zero_bid, False)
      | Some vs \<Rightarrow> (case vtMaj23 vs of Some b \<Rightarrow> (b, True) | None \<Rightarrow> (zero_bid, False)))"

end
