(* ===== verification/Quorum.thy ===== *)
theory Quorum
  imports VoteSets
begin

text \<open>
  How many votes a tally of \<open>float64\<close> powers stands for. The validators that have power at all share the total of ten
  equally: each of \<open>n\<close> powered validators has the rounded power \<open>10/n\<close>, and the others have power zero and stay in the set.
  This is what \<open>NewValidatorSet\<close> gives, where every validator is powered, and what the updates of
  \<open>crtrust/msg.go\<close> give, which set the power of suspected validators to zero. A sum over \<open>c\<close> powered voters is within a
  relative error of the exact \<open>c * (10/n)\<close> that stays below \<open>10^-8\<close> for the \<open>MaxVotesCount\<close> of 10000 votes, and powers
  of zero leave it as it is, so the rounded comparisons of the code can be read as comparisons of counts.
\<close>

definition MaxVotesCount :: nat where "MaxVotesCount = 10000"

definition share :: "nat \<Rightarrow> rat" where
  "share n = (case f64_div TotalVotingPower (f64_of_int (int n)) of Fin p \<Rightarrow> p | _ \<Rightarrow> 0)"

text \<open>The indices of the validators with power, and that they share the total power equally.\<close>

definition powered :: "ValidatorSet \<Rightarrow> nat set" where
  "powered vals = {i. i < length (vsValidators vals) \<and> valVotingPower (vsValidators vals ! i) \<noteq> Fin 0}"

definition vals_shared_power :: "ValidatorSet \<Rightarrow> bool" where
  "vals_shared_power vals \<longleftrightarrow>
     powered vals \<noteq> {} \<and> length (vsValidators vals) \<le> MaxVotesCount \<and>
     (\<forall>i\<in>powered vals. valVotingPower (vsValidators vals ! i) = f64_div TotalVotingPower (f64_of_int (int (card (powered vals)))))"

definition count_in :: "nat set \<Rightarrow> 'a option list \<Rightarrow> nat" where
  "count_in P votes = card {i\<in>P. i < length votes \<and> votes ! i \<noteq> None}"

text \<open>A sum that may be the tally of the votes: a \<open>float64\<close> value near the exact sum of the shares of the powered voters.\<close>

definition tally_ok :: "nat set \<Rightarrow> 'a option list \<Rightarrow> float64 \<Rightarrow> bool" where
  "tally_ok P votes s \<longleftrightarrow>
     (\<exists>r. s = Fin r \<and> f64_rnd r = Fin r \<and> tally_bound (of_nat (count_in P votes) * share (card P)) (count_in P votes) r)"

lemma powered_subset: "powered vals \<subseteq> {..<length (vsValidators vals)}"
  by (auto simp: powered_def)

lemma finite_powered [simp]: "finite (powered vals)"
  by (rule finite_subset[OF powered_subset]) simp

lemma vals_shared_power_size:
  assumes "vals_shared_power vals"
  shows "0 < card (powered vals)" "card (powered vals) \<le> 10000"
    and "0 < length (vsValidators vals)" "length (vsValidators vals) \<le> 10000"
    and "i < length (vsValidators vals) \<Longrightarrow> valVotingPower (vsValidators vals ! i) =
      (if i \<in> powered vals then f64_div TotalVotingPower (f64_of_int (int (card (powered vals)))) else Fin 0)"
proof -
  have "card (powered vals) \<le> length (vsValidators vals)" using card_mono[OF _ powered_subset[of vals]] by simp
  moreover show len: "length (vsValidators vals) \<le> 10000" using assms by (simp add: vals_shared_power_def MaxVotesCount_def)
  ultimately show "card (powered vals) \<le> 10000" by simp
  show "0 < card (powered vals)" using assms by (simp add: vals_shared_power_def card_gt_0_iff)
  then show "0 < length (vsValidators vals)" using \<open>card (powered vals) \<le> length (vsValidators vals)\<close> by linarith
  show "i < length (vsValidators vals) \<Longrightarrow> valVotingPower (vsValidators vals ! i) =
      (if i \<in> powered vals then f64_div TotalVotingPower (f64_of_int (int (card (powered vals)))) else Fin 0)"
    using assms by (auto simp: vals_shared_power_def) (simp add: powered_def)
qed

lemma count_in_le: "finite P \<Longrightarrow> count_in P votes \<le> card P"
  unfolding count_in_def by (rule card_mono) auto

lemma count_in_update:
  assumes "finite P" "i < length votes" "votes ! i = None"
  shows "count_in P (votes[i := Some v]) = (if i \<in> P then Suc (count_in P votes) else count_in P votes)"
proof -
  let ?S = "{j\<in>P. j < length votes \<and> votes ! j \<noteq> None}"
  have "{j\<in>P. j < length (votes[i := Some v]) \<and> votes[i := Some v] ! j \<noteq> None} = (if i \<in> P then insert i ?S else ?S)"
    using assms(2) by (auto simp: nth_list_update)
  moreover have "i \<notin> ?S" "finite ?S" using assms by auto
  ultimately show ?thesis by (simp add: count_in_def)
qed

lemma count_in_cong:
  "length ys = length xs \<Longrightarrow> (\<And>i. i < length xs \<Longrightarrow> ys ! i = None \<longleftrightarrow> xs ! i = None) \<Longrightarrow> count_in P ys = count_in P xs"
  unfolding count_in_def by (intro arg_cong[of _ _ card] Collect_cong conj_cong) simp_all

lemma count_in_empty [simp]: "count_in P (replicate n None) = 0"
  by (auto simp: count_in_def nth_replicate card_eq_0_iff)

section \<open>The constants\<close>

lemma third_val: "f64_div (f64_mul TotalVotingPower (Fin 2)) (Fin 3) = Fin (7505999378950827 / 2 ^ 50)"
proof -
  have "f64_mul TotalVotingPower (Fin 2) = Fin 20"
    using f64_rnd_numeral[of 20] by (simp add: TotalVotingPower_def)
  moreover have "f64_rnd (20 / 3) = Fin (of_int 7505999378950827 * pow2 (- 50))"
    by (rule f64_rnd_cert) (simp_all add: pow2_def)
  ultimately show ?thesis by (simp add: pow2_def)
qed

lemma quorum_val: "quorum = Fin (8631899285793451 / 2 ^ 50)"
proof -
  have "f64_rnd (7505999378950827 / 2 ^ 50 + 1) = Fin (of_int 8631899285793451 * pow2 (- 50))"
    by (rule f64_rnd_cert) (simp_all add: pow2_def)
  then show ?thesis by (simp add: quorum_def third_val pow2_def)
qed

lemma share_val:
  assumes "0 < n" "n \<le> 10000"
  shows "f64_div TotalVotingPower (f64_of_int (int n)) = Fin (share n)"
    and "10 / of_nat n * (1 - u64) \<le> share n" and "share n \<le> 10 / of_nat n * (1 + u64)"
proof -
  have n: "f64_of_int (int n) = Fin (of_nat n)" using assms f64_of_int_exact[of "int n"] by simp
  have "pow2 (- 1022) \<le> pow2 (- 10)" by (rule pow2_mono) simp
  also have "\<dots> \<le> 10 / of_nat n" using assms by (simp add: pow2_def field_simps)
  finally have lo: "pow2 (- 1022) \<le> 10 / of_nat n" .
  have "10 / of_nat n \<le> (10 :: rat)" using assms by (simp add: field_simps)
  also have "\<dots> < pow2 4" by (simp add: pow2_def)
  also have "\<dots> \<le> pow2 1000" by (rule pow2_mono) simp
  finally have hi: "10 / of_nat n < pow2 1000" .
  obtain y where y: "f64_rnd (10 / of_nat n) = Fin y" "\<bar>y - 10 / of_nat n\<bar> \<le> pow2 (- 53) * (10 / of_nat n)"
    using f64_rnd_normal[OF lo hi] by blast
  have div: "f64_div TotalVotingPower (f64_of_int (int n)) = Fin y"
    using assms y(1) by (simp add: n TotalVotingPower_def)
  then have s: "share n = y" by (simp add: share_def)
  show "f64_div TotalVotingPower (f64_of_int (int n)) = Fin (share n)" using div s by simp
  show "10 / of_nat n * (1 - u64) \<le> share n" "share n \<le> 10 / of_nat n * (1 + u64)"
    using y(2) unfolding s u64_def abs_le_iff by (simp_all add: algebra_simps)
qed

lemma one_minus_u64_power: "c \<le> 10000 \<Longrightarrow> 1 - 1 / 1000000000 \<le> (1 - u64) ^ c"
proof -
  assume c: "c \<le> 10000"
  have "1 - of_nat c * u64 \<le> (1 - u64) ^ c"
  proof (induction c)
    case (Suc c)
    have "(1 - of_nat c * u64) * (1 - u64) \<le> (1 - u64) ^ c * (1 - u64)"
      using Suc by (rule mult_right_mono) simp
    moreover have "1 - of_nat (Suc c) * u64 \<le> (1 - of_nat c * u64) * (1 - u64)"
      by (simp add: algebra_simps)
    ultimately have "1 - of_nat (Suc c) * u64 \<le> (1 - u64) ^ c * (1 - u64)" by (rule order_trans[rotated])
    then show ?case by (simp only: power_Suc2)
  qed simp
  moreover have "of_nat c * u64 \<le> 10000 * u64" using c by (intro mult_right_mono) simp_all
  moreover have "10000 * u64 \<le> 1 / 1000000000" by (simp add: u64_def pow2_def)
  ultimately show ?thesis by linarith
qed

section \<open>Counting from sums\<close>

lemma share_bounds:
  assumes "0 < n" "n \<le> 10000"
  shows "(10 - 1 / 1000000) / of_nat n \<le> share n" "share n \<le> (10 + 1 / 1000000) / of_nat n" "0 < share n"
proof -
  have u: "u64 \<le> 1 / 10000000" by (simp add: u64_def pow2_def)
  have n: "(0 :: rat) < of_nat n" using assms by simp
  have "(10 - 1 / 1000000) / of_nat n \<le> 10 * (1 - u64) / of_nat n"
    using u n by (intro divide_right_mono) simp_all
  then show lo: "(10 - 1 / 1000000) / of_nat n \<le> share n" using share_val(2)[OF assms] by simp
  have "10 * (1 + u64) / of_nat n \<le> (10 + 1 / 1000000) / of_nat n"
    using u n by (intro divide_right_mono) simp_all
  then show "share n \<le> (10 + 1 / 1000000) / of_nat n" using share_val(3)[OF assms] by simp
  have "0 < (10 - 1 / 1000000) / (of_nat n :: rat)" using n by simp
  with lo show "0 < share n" by linarith
qed

text \<open>A set whose members all have the share of its size, as \<open>NewValidatorSet\<close> makes it: every validator has power.\<close>

lemma equal_power_shared:
  assumes "0 < length (vsValidators vals)" "length (vsValidators vals) \<le> 10000"
    and "\<forall>v\<in>set (vsValidators vals). valVotingPower v = f64_div TotalVotingPower (f64_of_int (int (length (vsValidators vals))))"
  shows "vals_shared_power vals" "powered vals = {..<length (vsValidators vals)}"
proof -
  have "f64_div TotalVotingPower (f64_of_int (int (length (vsValidators vals)))) \<noteq> Fin 0"
    using share_val(1)[OF assms(1,2)] share_bounds(3)[OF assms(1,2)] by auto
  then show p: "powered vals = {..<length (vsValidators vals)}" using assms(3) by (auto simp: powered_def)
  show "vals_shared_power vals" using assms p by (auto simp: vals_shared_power_def MaxVotesCount_def)
qed

text \<open>The exact fraction \<open>10 c / n\<close> against the rounded sum of \<open>c\<close> shares.\<close>

lemma tally_fraction:
  assumes "0 < card P" "card P \<le> 10000" "tally_ok P votes s"
  obtains r where "s = Fin r" "10 * of_nat (count_in P votes) / of_nat (card P) - 1 / 100000 \<le> r"
    "r \<le> 10 * of_nat (count_in P votes) / of_nat (card P) + 1 / 100000"
proof -
  let ?c = "of_nat (count_in P votes) :: rat" and ?n = "of_nat (card P) :: rat"
  have le: "count_in P votes \<le> card P" using assms(1) by (intro count_in_le) (simp add: card_gt_0_iff)
  have c: "0 \<le> ?c" "?c \<le> ?n" "count_in P votes \<le> 10000" using assms(2) le by simp_all
  obtain r where r: "s = Fin r" "?c * share (card P) * (1 - u64) ^ count_in P votes \<le> r"
      "r \<le> ?c * share (card P) * (1 + u64) ^ count_in P votes"
    using assms(3) by (auto simp: tally_ok_def tally_bound_def)
  have n: "0 < ?n" "?c / ?n \<le> 1" using assms(1) c(2) by (simp_all add: divide_le_eq_1)
  have hi: "?c * share (card P) \<le> ?c * ((10 + 1 / 1000000) / ?n)"
    using share_bounds(2)[OF assms(1,2)] c(1) by (rule mult_left_mono)
  have lo: "?c * ((10 - 1 / 1000000) / ?n) \<le> ?c * share (card P)"
    using share_bounds(1)[OF assms(1,2)] c(1) by (rule mult_left_mono)
  have pos: "0 \<le> ?c * share (card P)" using share_bounds(3)[OF assms(1,2)] c(1) by simp
  have "r \<le> ?c * share (card P) * (1 + 1 / 1000000000)"
    using r(3) mult_left_mono[OF one_plus_u64_power[OF c(3)] pos] by linarith
  also have "\<dots> \<le> ?c * ((10 + 1 / 1000000) / ?n) * (1 + 1 / 1000000000)"
    using hi by (intro mult_right_mono) simp_all
  also have "\<dots> = (10 + 1 / 1000000) * (1 + 1 / 1000000000) * (?c / ?n)" by simp
  also have "\<dots> = 10 * (?c / ?n) + ((10 + 1 / 1000000) * (1 + 1 / 1000000000) - 10) * (?c / ?n)"
    by (simp only: left_diff_distrib)
  also have "\<dots> \<le> 10 * (?c / ?n) + 1 / 100000"
    using mult_left_mono[OF n(2), of "(10 + 1 / 1000000) * (1 + 1 / 1000000000) - 10"] by simp
  finally have upper: "r \<le> 10 * ?c / ?n + 1 / 100000" by simp
  have "(10 - 1 / 1000000) * (1 - 1 / 1000000000) * (?c / ?n) = ?c * ((10 - 1 / 1000000) / ?n) * (1 - 1 / 1000000000)" by simp
  also have "\<dots> \<le> ?c * share (card P) * (1 - 1 / 1000000000)" using lo by (intro mult_right_mono) simp_all
  also have "\<dots> \<le> r"
    using r(2) mult_left_mono[OF one_minus_u64_power[OF c(3)] pos] by linarith
  finally have "(10 - 1 / 1000000) * (1 - 1 / 1000000000) * (?c / ?n) \<le> r" .
  moreover have "10 * (?c / ?n) - (10 - (10 - 1 / 1000000) * (1 - 1 / 1000000000)) * (?c / ?n)
      = (10 - 1 / 1000000) * (1 - 1 / 1000000000) * (?c / ?n)" by (simp only: left_diff_distrib)
  moreover have "(10 - (10 - 1 / 1000000) * (1 - 1 / 1000000000)) * (?c / ?n) \<le> 1 / 100000"
    using mult_left_mono[OF n(2), of "10 - (10 - 1 / 1000000) * (1 - 1 / 1000000000)"] by simp
  ultimately have "10 * (?c / ?n) - 1 / 100000 \<le> r" by linarith
  then show thesis using that[OF r(1)] upper by simp
qed


lemma tally_reaches_quorum:
  assumes "0 < card P" "card P \<le> 10000" "tally_ok P votes s"
  shows "f64_le quorum s \<Longrightarrow> 76 * card P \<le> 100 * count_in P votes"
    and "767 * card P \<le> 1000 * count_in P votes \<Longrightarrow> f64_le quorum s"
    and "f64_le quorum s \<longleftrightarrow> \<not> f64_less s quorum"
proof -
  let ?c = "of_nat (count_in P votes) :: rat" and ?n = "of_nat (card P) :: rat"
  obtain r where r: "s = Fin r" "10 * ?c / ?n - 1 / 100000 \<le> r" "r \<le> 10 * ?c / ?n + 1 / 100000"
    using tally_fraction[OF assms] by blast
  have n: "0 < ?n" using assms(1) by simp
  have q: "f64_le quorum s \<longleftrightarrow> 8631899285793451 / 2 ^ 50 \<le> r"
    by (auto simp: r(1) quorum_val f64_le_def)
  show "76 * card P \<le> 100 * count_in P votes" if "f64_le quorum s"
  proof -
    have "7.6 \<le> 10 * ?c / ?n" using that q r(3) by simp
    then have "76 * ?n \<le> 100 * ?c" using n by (simp add: field_simps)
    then have "of_nat (76 * card P) \<le> (of_nat (100 * count_in P votes) :: rat)" by simp
    then show ?thesis by (simp only: of_nat_le_iff)
  qed
  show "f64_le quorum s" if "767 * card P \<le> 1000 * count_in P votes"
  proof -
    have "(of_nat (767 * card P) :: rat) \<le> of_nat (1000 * count_in P votes)" using that by (simp only: of_nat_le_iff)
    then have "7.67 \<le> 10 * ?c / ?n" using n by (simp add: field_simps)
    then show ?thesis using q r(2) by simp
  qed
  show "f64_le quorum s \<longleftrightarrow> \<not> f64_less s quorum"
    by (auto simp: r(1) quorum_val f64_le_def)
qed

text \<open>The threshold of \<open>HasTwoThirdsAny\<close> and \<open>VerifyReply\<close>: exactly two thirds may pass, by rounding.\<close>

lemma tally_exceeds_third:
  assumes "0 < card P" "card P \<le> 10000" "tally_ok P votes s"
  shows "\<not> f64_le s (f64_div (f64_mul TotalVotingPower (Fin 2)) (Fin 3)) \<Longrightarrow> 2 * card P \<le> 3 * count_in P votes"
    and "67 * card P \<le> 100 * count_in P votes \<Longrightarrow> \<not> f64_le s (f64_div (f64_mul TotalVotingPower (Fin 2)) (Fin 3))"
proof -
  let ?c = "of_nat (count_in P votes) :: rat" and ?n = "of_nat (card P) :: rat"
  obtain r where r: "s = Fin r" "10 * ?c / ?n - 1 / 100000 \<le> r" "r \<le> 10 * ?c / ?n + 1 / 100000"
    using tally_fraction[OF assms] by blast
  have n: "0 < ?n" "?n \<le> 10000" using assms(1,2) by simp_all
  have q: "f64_le s (f64_div (f64_mul TotalVotingPower (Fin 2)) (Fin 3)) \<longleftrightarrow> r \<le> 7505999378950827 / 2 ^ 50"
    by (simp only: r(1) third_val) (auto simp: f64_le_def)
  show "2 * card P \<le> 3 * count_in P votes" if "\<not> f64_le s (f64_div (f64_mul TotalVotingPower (Fin 2)) (Fin 3))"
  proof -
    have "666664 / 100000 \<le> 10 * ?c / ?n" using that q r(3) by simp
    then have "666664 / 100000 * ?n \<le> 10 * ?c" using n by (simp add: field_simps)
    then have "2 * ?n < 3 * ?c + 1" using n(2) by linarith
    then have "of_nat (2 * card P) < (of_nat (3 * count_in P votes + 1) :: rat)" by simp
    then show ?thesis by (simp only: of_nat_less_iff less_Suc_eq_le Suc_eq_plus1[symmetric])
  qed
  show "\<not> f64_le s (f64_div (f64_mul TotalVotingPower (Fin 2)) (Fin 3))" if "67 * card P \<le> 100 * count_in P votes"
  proof -
    have "(of_nat (67 * card P) :: rat) \<le> of_nat (100 * count_in P votes)" using that by (simp only: of_nat_le_iff)
    then have "6.7 \<le> 10 * ?c / ?n" using n by (simp add: field_simps)
    then show ?thesis using q r(2) by simp
  qed
qed

lemma tally_ok_empty: "tally_ok P (replicate m None) (Fin 0)"
  by (simp add: tally_ok_def)

text \<open>One more share: the sum stays finite, is still a tally, and does not fall.\<close>

lemma tally_step:
  assumes "0 < card P" "card P \<le> 10000" "tally_ok P votes (Fin r)"
  obtains y where "f64_add (Fin r) (Fin (share (card P))) = Fin y" "r \<le> y"
    "tally_bound (of_nat (Suc (count_in P votes)) * share (card P)) (Suc (count_in P votes)) y" "f64_rnd y = Fin y"
proof -
  let ?c = "of_nat (count_in P votes) :: rat" and ?n = "of_nat (card P) :: rat"
  have r: "r \<le> 10 * ?c / ?n + 1 / 100000"
    using tally_fraction[OF assms] by (metis float64.inject)
  have tb: "tally_bound (?c * share (card P)) (count_in P votes) r" using assms(3) by (simp add: tally_ok_def)
  have pos: "0 \<le> ?c * share (card P)" using share_bounds(3)[OF assms(1,2)] by simp
  have r0: "0 \<le> r" using tb pos by (rule tally_bound_nonneg)
  have "count_in P votes \<le> card P" using assms(1) by (intro count_in_le) (simp add: card_gt_0_iff)
  then have "?c / ?n \<le> 1" using assms(1) by (simp add: divide_le_eq_1)
  then have r11: "r \<le> 11" using r by simp
  have "(10 + 1 / 1000000) / ?n \<le> (10 + 1 / 1000000) / 1" using assms(1) by (intro divide_left_mono) simp_all
  then have s11: "share (card P) \<le> 11" using share_bounds(2)[OF assms(1,2)] by simp
  have "22 < pow2 5" by (simp add: pow2_def)
  moreover have "pow2 5 \<le> pow2 1000" by (rule pow2_mono) simp
  moreover have "pow2 5 \<le> pow2 800" by (rule pow2_mono) simp
  ultimately have hi: "r + share (card P) < pow2 1000" "r + share (card P) < pow2 800" using r11 s11 by linarith+
  have lo14: "pow2 (- 14) \<le> share (card P)"
  proof -
    have "pow2 (- 14) \<le> (10 - 1 / 1000000) / ?n" using assms(1,2) by (simp add: pow2_def field_simps)
    also have "\<dots> \<le> share (card P)" using share_bounds(1)[OF assms(1,2)] .
    finally show ?thesis .
  qed
  moreover have "pow2 (- 1000) \<le> pow2 (- 14)" by (rule pow2_mono) simp
  ultimately have lo: "pow2 (- 1000) \<le> share (card P)" by linarith
  obtain y where y: "f64_add (Fin r) (Fin (share (card P))) = Fin y" "(r + share (card P)) * (1 - u64) \<le> y"
    using f64_add_step[OF r0 lo hi(1)] by metis
  have "(r + share (card P)) * u64 \<le> 22 * u64" using r11 s11 by (intro mult_right_mono) simp_all
  also have "\<dots> \<le> pow2 (- 14)" by (simp add: u64_def pow2_def)
  finally have "r \<le> (r + share (card P)) * (1 - u64)" using lo14 by (simp add: algebra_simps)
  then have "r \<le> y" using y(2) by linarith
  moreover obtain z where "f64_add (Fin r) (Fin (share (card P))) = Fin z"
      "tally_bound (?c * share (card P) + share (card P)) (Suc (count_in P votes)) z"
    using tally_bound_step[OF tb pos lo hi(1)] by blast
  moreover have "f64_rnd y = Fin y" using y(1) r0 lo14 hi(2) pow2_nonneg[of "- 14"] by (intro f64_rnd_again[of "r + share (card P)"]) (linarith, simp_all)
  ultimately show thesis using that[of y] y(1) by (simp add: algebra_simps)
qed

text \<open>A powered vote adds its share; a vote without power leaves the sum as it is.\<close>

lemma tally_ok_add:
  assumes "0 < card P" "card P \<le> 10000" "tally_ok P votes s" "i < length votes" "votes ! i = None"
    and p: "p = (if i \<in> P then f64_div TotalVotingPower (f64_of_int (int (card P))) else Fin 0)"
  shows "tally_ok P (votes[i := Some v]) (f64_add s p)"
    and "f64_le (Fin q) s \<Longrightarrow> f64_le (Fin q) (f64_add s p)"
proof -
  obtain r where r: "s = Fin r" "f64_rnd r = Fin r" using assms(3) by (auto simp: tally_ok_def)
  have P: "finite P" using assms(1) by (simp add: card_gt_0_iff)
  obtain y where y: "f64_add (Fin r) (Fin (share (card P))) = Fin y" "r \<le> y"
      "tally_bound (of_nat (Suc (count_in P votes)) * share (card P)) (Suc (count_in P votes)) y" "f64_rnd y = Fin y"
    using tally_step[OF assms(1,2)] assms(3) r(1) by metis
  have add: "f64_add s p = (if i \<in> P then Fin y else s)"
    using y(1) r share_val(1)[OF assms(1,2)] by (simp add: p)
  show "tally_ok P (votes[i := Some v]) (f64_add s p)"
    using assms(3) y(3,4) unfolding add by (simp add: tally_ok_def count_in_update[OF P assms(4,5)])
  show "f64_le (Fin q) s \<Longrightarrow> f64_le (Fin q) (f64_add s p)"
    using r(1) y(2) unfolding add by (auto simp: f64_le_def)
qed

end
