(* ===== verification/VoteSafety.thy ===== *)
theory VoteSafety
  imports Quorum
begin

text \<open>
  What a vote set promises: its invariant, that no operation breaks it or panics, that a block it
  reports as the majority has verified votes of more than two thirds of the validators with power, and that two
  vote sets of the same step with different majorities expose more than half of those as double-signers.
\<close>

section \<open>The invariant\<close>

text \<open>What all votes of a set have in common.\<close>

type_synonym vote_ctx = "bytes \<times> int \<times> int \<times> int \<times> ValidatorSet"

definition ctx_of :: "VoteSet \<Rightarrow> vote_ctx" where
  "ctx_of vs = (vtChainID vs, vtHeight vs, vtRound vs, vtType vs, vtVals vs)"

fun ctx_size :: "vote_ctx \<Rightarrow> nat" where
  "ctx_size (c, h, r, t, vals) = length (vsValidators vals)"

fun ctx_powered :: "vote_ctx \<Rightarrow> nat set" where
  "ctx_powered (c, h, r, t, vals) = powered vals"

definition good_bid :: "BlockID \<Rightarrow> bool" where
  "good_bid b \<longleftrightarrow> (bid_IsZero b \<or> bid_IsComplete b) \<and> bid_typed b"

text \<open>A vote of the set's height, round and type that the key of validator \<open>i\<close> verifies.\<close>

fun valid_vote :: "env \<Rightarrow> vote_ctx \<Rightarrow> nat \<Rightarrow> Vote \<Rightarrow> bool" where
  "valid_vote E (c, h, r, t, vals) i v \<longleftrightarrow>
     i < length (vsValidators vals) \<and> vIndex v = int i \<and> vHeight v = h \<and> vRound v = r \<and> vType v = t \<and>
     good_bid (vBlockID v) \<and>
     (\<exists>pk. valPubKey (vsValidators vals ! i) = Some pk \<and> vote_Verify E c pk v = Some None)"

definition votes_ok :: "env \<Rightarrow> vote_ctx \<Rightarrow> Vote option list \<Rightarrow> bool" where
  "votes_ok E ctx votes \<longleftrightarrow> length votes = ctx_size ctx \<and> (\<forall>i<length votes. pred_option (valid_vote E ctx i) (votes ! i))"

definition bv_inv :: "env \<Rightarrow> vote_ctx \<Rightarrow> bytes \<Rightarrow> blockVotes \<Rightarrow> bool" where
  "bv_inv E ctx k bv \<longleftrightarrow> votes_ok E ctx (bvVotes bv) \<and> bits_ok (bvBitArray bv) (bvVotes bv) \<and>
     (\<forall>v. Some v \<in> set (bvVotes bv) \<longrightarrow> bid_Key (vBlockID v) = k) \<and> tally_ok (ctx_powered ctx) (bvVotes bv) (bvSum bv)"

definition covered :: "'a option list \<Rightarrow> 'b option list \<Rightarrow> bool" where
  "covered xs ys \<longleftrightarrow> list_all2 (\<lambda>x y. x \<noteq> None \<longrightarrow> y \<noteq> None) xs ys"

definition table_ok :: "env \<Rightarrow> VoteSet \<Rightarrow> bytes \<Rightarrow> blockVotes \<Rightarrow> bool" where
  "table_ok E vs k bv \<longleftrightarrow> bv_inv E (ctx_of vs) k bv \<and> covered (bvVotes bv) (vtVotes vs) \<and>
     (vtMaj23 vs = None \<longrightarrow> f64_less (bvSum bv) quorum)"

definition maj_ok :: "VoteSet \<Rightarrow> BlockID \<Rightarrow> bool" where
  "maj_ok vs b \<longleftrightarrow> good_bid b \<and> (\<exists>bv. vtByBlock vs (bid_Key b) = Some bv \<and> f64_le quorum (bvSum bv))"

definition vt_inv :: "env \<Rightarrow> VoteSet \<Rightarrow> bool" where
  "vt_inv E vs \<longleftrightarrow> vals_shared_power (vtVals vs) \<and> votes_ok E (ctx_of vs) (vtVotes vs) \<and>
     bits_ok (vtBitArray vs) (vtVotes vs) \<and> tally_ok (ctx_powered (ctx_of vs)) (vtVotes vs) (vtSum vs) \<and>
     (\<forall>k bv. vtByBlock vs k = Some bv \<longrightarrow> table_ok E vs k bv) \<and>
     (\<forall>b. vtMaj23 vs = Some b \<longrightarrow> maj_ok vs b)"

section \<open>Slots\<close>

lemma votes_ok_set: "votes_ok E ctx votes \<Longrightarrow> valid_vote E ctx i v \<Longrightarrow> votes_ok E ctx (votes[i := Some v])"
  by (auto simp: votes_ok_def nth_update_iff)

lemma votes_ok_new: "votes_ok E ctx (replicate (ctx_size ctx) None)"
  by (simp add: votes_ok_def)

lemma covered_set:
  "covered xs ys \<Longrightarrow> covered (xs[i := Some v]) ys \<longleftrightarrow> i < length ys \<longrightarrow> ys ! i \<noteq> None"
  "covered xs ys \<Longrightarrow> covered xs (ys[i := Some w])"
  by (auto simp: covered_def list_all2_conv_all_nth nth_update_iff)

lemma covered_replicate: "covered (replicate n None) ys \<longleftrightarrow> length ys = n"
  by (auto simp: covered_def list_all2_conv_all_nth)

lemma length_overlay [simp]: "length (overlay xs ys) = min (length xs) (length ys)"
  by (simp add: overlay_def)

lemma overlay_nth: "length xs = length ys \<Longrightarrow> i < length ys \<Longrightarrow> overlay xs ys ! i = (if xs ! i \<noteq> None then xs ! i else ys ! i)"
  by (simp add: overlay_def)

lemma votes_ok_overlay: "votes_ok E ctx xs \<Longrightarrow> votes_ok E ctx ys \<Longrightarrow> votes_ok E ctx (overlay xs ys)"
  by (auto simp: votes_ok_def overlay_nth)

lemma overlay_None: "covered xs ys \<Longrightarrow> i < length ys \<Longrightarrow> overlay xs ys ! i = None \<longleftrightarrow> ys ! i = None"
  by (auto simp: covered_def list_all2_conv_all_nth overlay_nth)

lemma covered_length: "covered xs ys \<Longrightarrow> length xs = length ys"
  by (simp add: covered_def list_all2_lengthD)

lemma covered_overlay: "covered xs ys \<Longrightarrow> covered zs ys \<Longrightarrow> covered zs (overlay xs ys)"
  by (auto simp: covered_def list_all2_conv_all_nth overlay_nth)

lemma overlay_same:
  assumes "covered xs ys"
  shows "bits_ok ba ys \<Longrightarrow> bits_ok ba (overlay xs ys)" and "tally_ok P ys s \<Longrightarrow> tally_ok P (overlay xs ys) s"
proof -
  have len: "length (overlay xs ys) = length ys" using covered_length[OF assms] by simp
  show "bits_ok ba ys \<Longrightarrow> bits_ok ba (overlay xs ys)" using bits_ok_cong len overlay_None[OF assms] by metis
  have "count_in P (overlay xs ys) = count_in P ys" using count_in_cong len overlay_None[OF assms] by metis
  then show "tally_ok P ys s \<Longrightarrow> tally_ok P (overlay xs ys) s" by (simp add: tally_ok_def)
qed


section \<open>Steps of \<open>addVerifiedVote\<close>\<close>

lemma ctx_of_size [simp]: "ctx_size (ctx_of vs) = length (vsValidators (vtVals vs))" "ctx_powered (ctx_of vs) = powered (vtVals vs)"
  by (simp_all add: ctx_of_def)

abbreviation power_of :: "VoteSet \<Rightarrow> nat \<Rightarrow> float64" where
  "power_of vs i \<equiv> valVotingPower (vsValidators (vtVals vs) ! i)"

lemma bv_addVerifiedVote_inv:
  assumes vals: "vals_shared_power (vtVals vs)" and bv: "bv_inv E (ctx_of vs) k bv"
    and v: "valid_vote E (ctx_of vs) i v" "bid_Key (vBlockID v) = k"
  obtains bv' where "bv_addVerifiedVote bv v (power_of vs i) = Some bv'" "bv_inv E (ctx_of vs) k bv'"
    "bvVotes bv' ! i \<noteq> None" "bvPeerMaj23 bv' = bvPeerMaj23 bv"
    "\<And>ys. covered (bvVotes bv) ys \<Longrightarrow> ys ! i \<noteq> None \<Longrightarrow> covered (bvVotes bv') ys"
    "f64_le quorum (bvSum bv) \<Longrightarrow> f64_le quorum (bvSum bv')"
proof -
  have n: "length (bvVotes bv) = length (vsValidators (vtVals vs))" using bv by (simp add: bv_inv_def votes_ok_def)
  have i: "i < length (bvVotes bv)" "vIndex v = int i" using v(1) n by (simp_all add: ctx_of_def)
  note pw = vals_shared_power_size(5)[OF vals, of i, folded n, OF i(1)]
  show thesis
  proof (cases "bvVotes bv ! i")
    case (Some w)
    then show thesis
      using that[of bv] bv i by (simp add: bv_addVerifiedVote_def slice_get_in)
  next
    case None
    obtain ba where ba: "SetIndex (bvBitArray bv) (int i) True = Some (True, ba)" "bits_ok ba ((bvVotes bv)[i := Some v])"
      using bits_ok_set[of "bvBitArray bv" "bvVotes bv" i v] bv i(1) by (auto simp: bv_inv_def)
    let ?bv' = "bv\<lparr>bvBitArray := ba, bvVotes := (bvVotes bv)[i := Some v], bvSum := f64_add (bvSum bv) (power_of vs i)\<rparr>"
    have mono: "f64_le quorum (bvSum bv) \<Longrightarrow> f64_le quorum (f64_add (bvSum bv) (power_of vs i))"
      using tally_ok_add(2)[OF vals_shared_power_size(1,2)[OF vals], of "bvVotes bv" "bvSum bv" i "power_of vs i"] bv i None pw
      by (simp add: bv_inv_def quorum_val)
    have "tally_ok (ctx_powered (ctx_of vs)) ((bvVotes bv)[i := Some v]) (f64_add (bvSum bv) (power_of vs i))"
      using tally_ok_add(1)[OF vals_shared_power_size(1,2)[OF vals], of "bvVotes bv" "bvSum bv" i "power_of vs i" v] bv i None pw by (simp add: bv_inv_def)
    moreover have "\<forall>w. Some w \<in> set ((bvVotes bv)[i := Some v]) \<longrightarrow> bid_Key (vBlockID w) = k"
      using bv v(2) set_update_subset_insert[of "bvVotes bv" i "Some v"] by (auto simp: bv_inv_def)
    ultimately have "bv_inv E (ctx_of vs) k ?bv'"
      using bv ba(2) v(1) by (simp add: bv_inv_def votes_ok_set)
    moreover have "bv_addVerifiedVote bv v (power_of vs i) = Some ?bv'"
      using i None ba(1) by (simp add: bv_addVerifiedVote_def slice_get_in slice_set_in)
    moreover have "covered (bvVotes ?bv') ys" if "covered (bvVotes bv) ys" "ys ! i \<noteq> None" for ys
      using that covered_set(1)[OF that(1)] by simp
    ultimately show thesis
      using None i(1) mono by (intro that[of ?bv']) simp_all
  qed
qed

lemma recordVote_inv:
  assumes inv: "vt_inv E vs" and v: "valid_vote E (ctx_of vs) i v"
    and fresh: "\<And>e. vtVotes vs ! i = Some e \<Longrightarrow> vBlockID e \<noteq> vBlockID v"
  obtains vs1 where "recordVote vs v k (power_of vs i) = Some (vs1, vtVotes vs ! i)" "vt_inv E vs1" "ctx_of vs1 = ctx_of vs"
    "vtVotes vs1 ! i \<noteq> None" "vtByBlock vs1 = vtByBlock vs" "vtMaj23 vs1 = vtMaj23 vs" "vtPeerMaj23s vs1 = vtPeerMaj23s vs"
proof -
  have n: "length (vtVotes vs) = length (vsValidators (vtVals vs))" using inv by (simp add: vt_inv_def votes_ok_def)
  have i: "i < length (vtVotes vs)" "vIndex v = int i" using v n by (simp_all add: ctx_of_def)
  obtain ba where ba: "SetIndex (vtBitArray vs) (int i) True = Some (True, ba)" "bits_ok ba ((vtVotes vs)[i := Some v])"
    using bits_ok_set[of "vtBitArray vs" "vtVotes vs" i v] inv i(1) by (auto simp: vt_inv_def)
  let ?put = "vs\<lparr>vtVotes := (vtVotes vs)[i := Some v], vtBitArray := ba\<rparr>"
  have inv_put: "vt_inv E (?put\<lparr>vtSum := s\<rparr>)" if "tally_ok (ctx_powered (ctx_of vs)) ((vtVotes vs)[i := Some v]) s" for s
    using inv ba(2) that v
    by (simp add: vt_inv_def votes_ok_set ctx_of_def table_ok_def maj_ok_def covered_set(2))
  show thesis
  proof (cases "vtVotes vs ! i")
    case None
    have "tally_ok (ctx_powered (ctx_of vs)) ((vtVotes vs)[i := Some v]) (f64_add (vtSum vs) (power_of vs i))"
      using tally_ok_add(1)[OF vals_shared_power_size(1,2), of "vtVals vs" "vtVotes vs" "vtSum vs" i "power_of vs i" v] vals_shared_power_size(5)[of "vtVals vs" i]
        inv n i None by (simp add: vt_inv_def)
    then show thesis
      using that[of "?put\<lparr>vtSum := f64_add (vtSum vs) (power_of vs i)\<rparr>"] inv_put i ba None
      by (simp add: recordVote_def slice_get_in slice_set_in ctx_of_def)
  next
    case (Some e)
    have "count_in P ((vtVotes vs)[i := Some v]) = count_in P (vtVotes vs)" for P
      using Some i(1) by (intro count_in_cong) (auto simp: nth_update_iff)
    then have "tally_ok (ctx_powered (ctx_of vs)) ((vtVotes vs)[i := Some v]) (vtSum vs)"
      using inv by (simp add: vt_inv_def tally_ok_def)
    then have "vt_inv E ?put" using inv_put[of "vtSum vs"] by simp
    show thesis
    proof (cases "case vtMaj23 vs of None \<Rightarrow> False | Some m \<Rightarrow> bid_Key m = k")
      case True
      have "recordVote vs v k (power_of vs i) = Some (?put, vtVotes vs ! i)"
        using i ba(1) Some fresh[OF Some] True by (simp add: recordVote_def slice_get_in slice_set_in)
      then show thesis using that[of ?put] \<open>vt_inv E ?put\<close> i(1) by (simp add: ctx_of_def)
    next
      case False
      have "recordVote vs v k (power_of vs i) = Some (vs, vtVotes vs ! i)"
        using i Some fresh[OF Some] False by (simp add: recordVote_def slice_get_in)
      then show thesis using that[of vs] inv Some by simp
    qed
  qed
qed


lemma good_bid_Key_inj: "good_bid a \<Longrightarrow> good_bid b \<Longrightarrow> bid_Key a = bid_Key b \<Longrightarrow> a = b"
  unfolding good_bid_def by (intro bid_Key_inj) auto

lemma tallyVote_inv:
  assumes inv: "vt_inv E vs" and v: "valid_vote E (ctx_of vs) i v" and has: "vtVotes vs ! i \<noteq> None"
    and bv: "table_ok E vs (bid_Key (vBlockID v)) bv"
    and maj: "\<And>b. vtMaj23 vs = Some b \<Longrightarrow> bid_Key b = bid_Key (vBlockID v) \<Longrightarrow> f64_le quorum (bvSum bv)"
  obtains vs2 where "tallyVote vs bv v (bid_Key (vBlockID v)) (power_of vs i) = Some vs2" "vt_inv E vs2"
    "ctx_of vs2 = ctx_of vs" "vtMaj23 vs \<noteq> None \<longrightarrow> vtMaj23 vs2 = vtMaj23 vs" "vtPeerMaj23s vs2 = vtPeerMaj23s vs"
proof -
  let ?k = "bid_Key (vBlockID v)"
  have vals: "vals_shared_power (vtVals vs)" using inv by (simp add: vt_inv_def)
  have bv0: "bv_inv E (ctx_of vs) ?k bv" "covered (bvVotes bv) (vtVotes vs)" using bv by (simp_all add: table_ok_def)
  obtain bv' where bv': "bv_addVerifiedVote bv v (power_of vs i) = Some bv'" "bv_inv E (ctx_of vs) ?k bv'"
      "covered (bvVotes bv') (vtVotes vs)" "f64_le quorum (bvSum bv) \<Longrightarrow> f64_le quorum (bvSum bv')"
    using bv_addVerifiedVote_inv[OF vals bv0(1) v refl] bv0(2) has by metis
  have le: "f64_le quorum (bvSum bv') \<longleftrightarrow> \<not> f64_less (bvSum bv') quorum"
    using bv'(2) tally_reaches_quorum(3)[OF vals_shared_power_size(1,2)[OF vals], of "bvVotes bv'" "bvSum bv'"] by (simp add: bv_inv_def)
  let ?vs1 = "vs\<lparr>vtByBlock := (vtByBlock vs)(?k \<mapsto> bv')\<rparr>"
  let ?cross = "f64_less (bvSum bv) quorum \<and> f64_le quorum (bvSum bv') \<and> vtMaj23 vs = None"
  let ?vs2 = "?vs1\<lparr>vtMaj23 := Some (vBlockID v), vtVotes := overlay (bvVotes bv') (vtVotes vs)\<rparr>"
  have tables: "table_ok E vs k x" if "vtByBlock vs k = Some x" for k x using inv that by (simp add: vt_inv_def)
  show thesis
  proof (cases ?cross)
    case True
    have "table_ok E ?vs2 k x" if "((vtByBlock vs)(?k \<mapsto> bv')) k = Some x" for k x
      using that tables[of k x] bv'(2,3) covered_overlay[OF bv'(3)]
      by (auto simp: table_ok_def ctx_of_def split: if_splits)
    moreover have "maj_ok ?vs2 (vBlockID v)" using v True by (simp add: maj_ok_def ctx_of_def)
    moreover have "votes_ok E (ctx_of vs) (overlay (bvVotes bv') (vtVotes vs))"
      using inv bv'(2) by (simp add: vt_inv_def bv_inv_def votes_ok_overlay)
    ultimately have "vt_inv E ?vs2"
      using inv overlay_same[OF bv'(3)] by (simp add: vt_inv_def ctx_of_def)
    then show thesis using that[of ?vs2] bv'(1) True by (simp add: tallyVote_def ctx_of_def)
  next
    case False
    have "table_ok E ?vs1 k x" if "((vtByBlock vs)(?k \<mapsto> bv')) k = Some x" for k x
    proof (cases "k = ?k")
      case True
      then have "x = bv'" using that by simp
      moreover have "vtMaj23 vs = None \<longrightarrow> f64_less (bvSum bv') quorum"
        using False bv le by (auto simp: table_ok_def)
      ultimately show ?thesis using True bv'(2,3) by (simp add: table_ok_def ctx_of_def)
    next
      case False
      then show ?thesis using that tables[of k x] by (simp add: table_ok_def ctx_of_def)
    qed
    moreover have "maj_ok ?vs1 b" if "vtMaj23 vs = Some b" for b
      using inv that maj[OF that] bv'(4) by (auto simp: vt_inv_def maj_ok_def)
    ultimately have "vt_inv E ?vs1" using inv by (simp add: vt_inv_def ctx_of_def)
    then show thesis using that[of ?vs1] bv'(1) False by (simp add: tallyVote_def ctx_of_def Let_def)
  qed
qed


section \<open>Operations keep the invariant\<close>

lemma newBlockVotes_ok:
  assumes "vals_shared_power (vtVals vs)" "length (vtVotes vs) = length (vsValidators (vtVals vs))"
  shows "table_ok E vs k (newBlockVotes p (vals_Size (vtVals vs)))"
proof -
  have n: "0 < length (vsValidators (vtVals vs))" "length (vsValidators (vtVals vs)) \<le> 10000"
    using vals_shared_power_size[OF assms(1)] by simp_all
  have "votes_ok E (ctx_of vs) (replicate (length (vsValidators (vtVals vs))) None)"
    using votes_ok_new[of E "ctx_of vs"] by simp
  then show ?thesis
    using bits_ok_new[OF n(1)] n(2) assms(2)
    by (simp add: table_ok_def newBlockVotes_def bv_inv_def vals_Size_def tally_ok_empty covered_replicate quorum_val)
qed

text \<open>A vote as the reactor lets it through: it passed \<open>ValidateBasic\<close> and its integers have their width.\<close>

definition vote_basic :: "Vote \<Rightarrow> bool" where
  "vote_basic v \<longleftrightarrow> vote_ValidateBasic v = None \<and> vote_typed v"

lemma vote_basic_good: "vote_basic v \<Longrightarrow> good_bid (vBlockID v)"
  by (auto simp: vote_basic_def vote_ValidateBasic_def good_bid_def vote_typed_def split: if_splits)

lemma addVerifiedVote_inv:
  assumes inv: "vt_inv E vs" and v: "valid_vote E (ctx_of vs) i v"
    and get: "getVote vs (int i) (bid_Key (vBlockID v)) = Some None"
  obtains vs' added conflict where "addVerifiedVote vs v (bid_Key (vBlockID v)) (power_of vs i) = Some (vs', added, conflict)"
    "vt_inv E vs'" "ctx_of vs' = ctx_of vs" "conflict = None \<Longrightarrow> added" "vtMaj23 vs \<noteq> None \<Longrightarrow> vtMaj23 vs' = vtMaj23 vs"
proof -
  let ?k = "bid_Key (vBlockID v)"
  have n: "length (vtVotes vs) = length (vsValidators (vtVals vs))" using inv by (simp add: vt_inv_def votes_ok_def)
  have i: "i < length (vtVotes vs)" using v n by (simp add: ctx_of_def)
  have fresh: "vBlockID e \<noteq> vBlockID v" if "vtVotes vs ! i = Some e" for e
    using that get i by (auto simp: getVote_def slice_get_in split: if_splits)
  obtain vs1 where vs1: "recordVote vs v ?k (power_of vs i) = Some (vs1, vtVotes vs ! i)" "vt_inv E vs1" "ctx_of vs1 = ctx_of vs"
    "vtVotes vs1 ! i \<noteq> None" "vtByBlock vs1 = vtByBlock vs" "vtMaj23 vs1 = vtMaj23 vs"
    using recordVote_inv[OF inv v fresh] by metis
  have pw: "power_of vs1 i = power_of vs i" using vs1(3) by (simp add: ctx_of_def)
  have v1: "valid_vote E (ctx_of vs1) i v" using v vs1(3) by simp
  have tally: "\<exists>vs2. tallyVote vs1 bv v ?k (power_of vs i) = Some vs2 \<and> vt_inv E vs2 \<and> ctx_of vs2 = ctx_of vs \<and>
      (vtMaj23 vs \<noteq> None \<longrightarrow> vtMaj23 vs2 = vtMaj23 vs)"
    if tab: "table_ok E vs1 ?k bv" and q: "\<And>b. vtMaj23 vs1 = Some b \<Longrightarrow> bid_Key b = ?k \<Longrightarrow> f64_le quorum (bvSum bv)" for bv
  proof -
    obtain vs2 where "tallyVote vs1 bv v ?k (power_of vs1 i) = Some vs2" "vt_inv E vs2" "ctx_of vs2 = ctx_of vs1"
        "vtMaj23 vs1 \<noteq> None \<longrightarrow> vtMaj23 vs2 = vtMaj23 vs1" "vtPeerMaj23s vs2 = vtPeerMaj23s vs1"
      by (rule tallyVote_inv[OF vs1(2) v1 vs1(4) tab q])
    then show ?thesis using vs1(3,6) pw by auto
  qed
  show thesis
  proof (cases "vtByBlock vs1 ?k")
    case (Some bv)
    have "table_ok E vs1 ?k bv" using vs1(2) Some by (simp add: vt_inv_def)
    moreover have "f64_le quorum (bvSum bv)" if "vtMaj23 vs1 = Some b" "bid_Key b = ?k" for b
      using vs1(2) that Some by (auto simp: vt_inv_def maj_ok_def)
    ultimately obtain vs2 where vs2: "tallyVote vs1 bv v ?k (power_of vs i) = Some vs2" "vt_inv E vs2" "ctx_of vs2 = ctx_of vs"
        "vtMaj23 vs \<noteq> None \<longrightarrow> vtMaj23 vs2 = vtMaj23 vs" using tally by blast
    show thesis
    proof (cases "vtVotes vs ! i \<noteq> None \<and> \<not> bvPeerMaj23 bv")
      case True
      then have "addVerifiedVote vs v ?k (power_of vs i) = Some (vs1, False, vtVotes vs ! i)"
        using vs1(1) Some by (simp add: addVerifiedVote_def)
      then show thesis using True vs1(2,3,6) by (intro that[of vs1 False "vtVotes vs ! i"]) simp_all
    next
      case False
      then have "addVerifiedVote vs v ?k (power_of vs i) = Some (vs2, True, vtVotes vs ! i)"
        using vs1(1) vs2(1) Some by (simp add: addVerifiedVote_def)
      then show thesis using vs2(2-4) by (intro that[of vs2 True "vtVotes vs ! i"]) simp_all
    qed
  next
    case None
    have n1: "length (vtVotes vs1) = length (vsValidators (vtVals vs1))" "vals_shared_power (vtVals vs1)"
      using vs1(2) by (simp_all add: vt_inv_def votes_ok_def)
    have "\<not> (vtMaj23 vs1 = Some b \<and> bid_Key b = ?k)" for b
      using vs1(2) None by (auto simp: vt_inv_def maj_ok_def)
    then obtain vs2 where vs2: "tallyVote vs1 (newBlockVotes False (vals_Size (vtVals vs1))) v ?k (power_of vs i) = Some vs2"
        "vt_inv E vs2" "ctx_of vs2 = ctx_of vs" "vtMaj23 vs \<noteq> None \<longrightarrow> vtMaj23 vs2 = vtMaj23 vs"
      using tally[OF newBlockVotes_ok[OF n1(2,1)]] by metis
    show thesis
    proof (cases "vtVotes vs ! i \<noteq> None")
      case True
      then have "addVerifiedVote vs v ?k (power_of vs i) = Some (vs1, False, vtVotes vs ! i)"
        using vs1(1) None by (simp add: addVerifiedVote_def)
      then show thesis using True vs1(2,3,6) by (intro that[of vs1 False "vtVotes vs ! i"]) simp_all
    next
      case False
      then have "addVerifiedVote vs v ?k (power_of vs i) = Some (vs2, True, vtVotes vs ! i)"
        using vs1(1) vs2(1) None by (simp add: addVerifiedVote_def)
      then show thesis using vs2(2-4) by (intro that[of vs2 True "vtVotes vs ! i"]) simp_all
    qed
  qed
qed


text \<open>\<open>AddVote\<close> returns on every vote the reactor lets through, unless the sign bytes of the vote cannot be
  made or a validator's key is nil or of the wrong size; it keeps the invariant and a majority once
  found.\<close>

lemma addVote_inv:
  assumes inv: "vt_inv E vs" and v: "vote_basic v" and sb: "VoteSignBytes E (vtChainID vs) v \<noteq> None"
    and keys: "\<forall>val\<in>set (vsValidators (vtVals vs)). \<exists>pk. valPubKey val = Some pk \<and> length pk = PubKeySize"
  obtains vs' added err where "addVote E vs (Some v) = Some (vs', added, err)" "vt_inv E vs'" "ctx_of vs' = ctx_of vs"
    "vtMaj23 vs \<noteq> None \<Longrightarrow> vtMaj23 vs' = vtMaj23 vs"
proof -
  let ?k = "bid_Key (vBlockID v)" and ?i = "nat (vIndex v)"
  have basic: "0 \<le> vIndex v" "length (vAddress v) \<noteq> 0"
    using v by (auto simp: vote_basic_def vote_ValidateBasic_def AddressSize_def split: if_splits)
  have n: "length (vtVotes vs) = length (vsValidators (vtVals vs))" using inv by (simp add: vt_inv_def votes_ok_def)
  consider "\<exists>e. addVote E vs (Some v) = Some (vs, False, e)"
    | "?i < length (vtVotes vs)" "getVote vs (vIndex v) ?k = Some None" "valid_vote E (ctx_of vs) ?i v"
      "addVote E vs (Some v) = Option.bind (addVerifiedVote vs v ?k (power_of vs ?i)) (\<lambda>(vs', added, conflicting).
         (case conflicting of Some c \<Rightarrow> Some (vs', added, Some (ErrVoteConflictingVotes c v))
          | None \<Rightarrow> if \<not> added then None else Some (vs', added, None)))"
  proof (cases "vHeight v \<noteq> vtHeight vs \<or> vRound v \<noteq> vtRound vs \<or> vType v \<noteq> vtType vs")
    case True
    then show ?thesis using that(1) basic by (auto simp: addVote_def Let_def)
  next
    case False
    show ?thesis
    proof (cases "vIndex v < int (length (vsValidators (vtVals vs)))")
      case False
      then show ?thesis
        using that(1) basic \<open>\<not> (vHeight v \<noteq> _ \<or> _)\<close> by (auto simp: addVote_def Let_def vals_GetByIndex_def)
    next
      case True
      then have i: "?i < length (vtVotes vs)" "vIndex v = int ?i" using basic n by simp_all
      let ?val = "vsValidators (vtVals vs) ! ?i"
      have val: "snd (vals_GetByIndex (vtVals vs) (vIndex v)) = Some ?val"
        using True basic by (simp add: vals_GetByIndex_def Let_def)
      obtain pk where pk: "valPubKey ?val = Some pk" "length pk = PubKeySize" using keys i n by (metis nth_mem)
      have tables: "length (bvVotes bv) = length (vtVotes vs)" if "vtByBlock vs ?k = Some bv" for bv
        using inv that n by (auto simp: vt_inv_def table_ok_def bv_inv_def votes_ok_def)
      have "bv_getByIndex (vtByBlock vs ?k) (vIndex v) \<noteq> None"
        using i tables basic(1) by (cases "vtByBlock vs ?k") (auto simp: bv_getByIndex_def slice_get_def)
      then have "getVote vs (vIndex v) ?k \<noteq> None"
        using i basic(1) by (auto simp: getVote_def slice_get_def split: option.splits)
      then obtain e where e: "getVote vs (vIndex v) ?k = Some e" by blast
      have "vote_Verify E (vtChainID vs) pk v \<noteq> None"
        using sb pk(2) by (auto simp: vote_Verify_def pk_Address_def pk_VerifySignature_def split: option.splits)
      then obtain err where err: "vote_Verify E (vtChainID vs) pk v = Some err" by blast
      show ?thesis
      proof (cases "e = None \<and> err = None")
        case True
        have "valid_vote E (ctx_of vs) ?i v"
          using True err pk i n \<open>\<not> (vHeight v \<noteq> _ \<or> _)\<close> vote_basic_good[OF v] by (auto simp: ctx_of_def)
        then show ?thesis
          using that(2) i True e err pk(1) val basic \<open>\<not> (vHeight v \<noteq> _ \<or> _)\<close> by (simp add: addVote_def Let_def)
      next
        case False
        then show ?thesis
          using that(1) e err pk(1) val basic \<open>\<not> (vHeight v \<noteq> _ \<or> _)\<close>
          by (cases e; cases err) (auto simp: addVote_def Let_def)
      qed
    qed
  qed
  then show thesis
  proof cases
    case 1
    then obtain e where "addVote E vs (Some v) = Some (vs, False, e)" by blast
    then show thesis using inv by (intro that[of vs False e]) simp_all
  next
    case 2
    have idx: "vIndex v = int ?i" using basic by simp
    obtain vs' added conflict where r: "addVerifiedVote vs v ?k (power_of vs ?i) = Some (vs', added, conflict)"
        "vt_inv E vs'" "ctx_of vs' = ctx_of vs" "conflict = None \<Longrightarrow> added" "vtMaj23 vs \<noteq> None \<Longrightarrow> vtMaj23 vs' = vtMaj23 vs"
      using addVerifiedVote_inv[OF inv 2(3)] 2(2) idx by metis
    show thesis
    proof (cases conflict)
      case None
      then show thesis using that[of vs' added None] 2(4) r by simp
    next
      case (Some c)
      then show thesis using that[of vs' added "Some (ErrVoteConflictingVotes c v)"] 2(4) r by simp
    qed
  qed
qed


lemma addVote_accept:
  assumes "addVote E vs (Some v) = Some (vs', added, err)" and inv: "vt_inv E vs" and v: "good_bid (vBlockID v)"
  shows "vs' = vs \<or> (\<exists>i c. valid_vote E (ctx_of vs) i v \<and> getVote vs (int i) (bid_Key (vBlockID v)) = Some None \<and>
    addVerifiedVote vs v (bid_Key (vBlockID v)) (power_of vs i) = Some (vs', added, c))"
proof (cases "vs' = vs")
  case False
  have nn: "\<not> vIndex v < 0" "vAddress v \<noteq> []"
    using assms(1) False by (auto simp: addVote_def Let_def split: if_splits)
  then have idx: "0 \<le> vIndex v" by simp
  note [simp] = addVote_def Let_def nn
  have step: "vHeight v = vtHeight vs" "vRound v = vtRound vs" "vType v = vtType vs"
    using assms(1) False by (auto split: if_splits)
  have "snd (vals_GetByIndex (vtVals vs) (vIndex v)) \<noteq> None"
    using assms(1) False step by (cases "snd (vals_GetByIndex (vtVals vs) (vIndex v))") simp_all
  then obtain val where val: "snd (vals_GetByIndex (vtVals vs) (vIndex v)) = Some val" by blast
  have get: "getVote vs (vIndex v) (bid_Key (vBlockID v)) = Some None"
    using assms(1) False step val by (cases "getVote vs (vIndex v) (bid_Key (vBlockID v))") (auto split: option.splits if_splits)
  have "valPubKey val \<noteq> None" using assms(1) step val get by (cases "valPubKey val") simp_all
  then obtain pk where pk: "valPubKey val = Some pk" by blast
  have ver: "vote_Verify E (vtChainID vs) pk v = Some None"
    using assms(1) False step val get pk by (cases "vote_Verify E (vtChainID vs) pk v") (auto split: option.splits)
  obtain c where c: "addVerifiedVote vs v (bid_Key (vBlockID v)) (valVotingPower val) = Some (vs', added, c)"
    using assms(1) step val get pk ver
    by (cases "addVerifiedVote vs v (bid_Key (vBlockID v)) (valVotingPower val)") (auto split: option.splits if_splits)
  let ?i = "nat (vIndex v)"
  have i: "?i < length (vsValidators (vtVals vs))" "val = vsValidators (vtVals vs) ! ?i"
    using val idx by (auto simp: vals_GetByIndex_def Let_def split: if_splits)
  then show ?thesis
    using c get idx step pk ver v by (auto simp: ctx_of_def simp del: addVote_def intro!: exI[of _ ?i])
qed simp

lemma addVote_keeps:
  assumes "addVote E vs (Some v) = Some (vs', added, err)" "vt_inv E vs" "good_bid (vBlockID v)"
  shows "vt_inv E vs' \<and> ctx_of vs' = ctx_of vs \<and> (vtMaj23 vs \<noteq> None \<longrightarrow> vtMaj23 vs' = vtMaj23 vs)"
proof (cases "vs' = vs")
  case False
  then obtain i c where i: "valid_vote E (ctx_of vs) i v" "getVote vs (int i) (bid_Key (vBlockID v)) = Some None"
    "addVerifiedVote vs v (bid_Key (vBlockID v)) (power_of vs i) = Some (vs', added, c)"
    using addVote_accept[OF assms] by blast
  obtain vs'' where "addVerifiedVote vs v (bid_Key (vBlockID v)) (power_of vs i) = Some (vs'', added, c)"
      "vt_inv E vs''" "ctx_of vs'' = ctx_of vs" "vtMaj23 vs \<noteq> None \<longrightarrow> vtMaj23 vs'' = vtMaj23 vs"
    by (rule addVerifiedVote_inv[OF assms(2) i(1,2)]) (use i(3) in auto)
  then show ?thesis using i(3) by simp
qed (use assms in simp)

lemma SetPeerMaj23_keeps:
  assumes inv: "vt_inv E vs"
  shows "vt_inv E (fst (SetPeerMaj23 vs p b)) \<and> ctx_of (fst (SetPeerMaj23 vs p b)) = ctx_of vs \<and>
    vtMaj23 (fst (SetPeerMaj23 vs p b)) = vtMaj23 vs"
proof -
  have n: "vals_shared_power (vtVals vs)" "length (vtVotes vs) = length (vsValidators (vtVals vs))"
    using inv by (simp_all add: vt_inv_def votes_ok_def)
  have keep: "vt_inv E (vs\<lparr>vtPeerMaj23s := q, vtByBlock := (vtByBlock vs)(k \<mapsto> bv)\<rparr>)"
    if "table_ok E vs k bv" "\<And>m. vtMaj23 vs = Some m \<Longrightarrow> bid_Key m = k \<Longrightarrow> f64_le quorum (bvSum bv)" for q k bv
    using inv that by (auto simp: vt_inv_def ctx_of_def table_ok_def maj_ok_def)
  show ?thesis
  proof (cases "vtPeerMaj23s vs p")
    case (Some e)
    then show ?thesis using inv by (simp add: SetPeerMaj23_def)
  next
    case None
    show ?thesis
    proof (cases "vtByBlock vs (bid_Key b)")
      case (Some bv)
      have "table_ok E vs (bid_Key b) (bv\<lparr>bvPeerMaj23 := True\<rparr>)"
        using inv Some by (simp add: vt_inv_def table_ok_def bv_inv_def)
      moreover have "f64_le quorum (bvSum bv)" if "vtMaj23 vs = Some m" "bid_Key m = bid_Key b" for m
        using inv that Some by (auto simp: vt_inv_def maj_ok_def)
      moreover have "vt_inv E (vs\<lparr>vtPeerMaj23s := q\<rparr>)" for q
        using inv by (simp add: vt_inv_def ctx_of_def table_ok_def maj_ok_def)
      ultimately show ?thesis
        using None Some keep by (simp add: SetPeerMaj23_def Let_def ctx_of_def)
    next
      case (None)
      have "\<not> (vtMaj23 vs = Some m \<and> bid_Key m = bid_Key b)" for m
        using inv None by (auto simp: vt_inv_def maj_ok_def)
      then have "vt_inv E (vs\<lparr>vtPeerMaj23s := q, vtByBlock := (vtByBlock vs)(bid_Key b \<mapsto> newBlockVotes True (vals_Size (vtVals vs)))\<rparr>)" for q
        by (intro keep newBlockVotes_ok n) blast
      then show ?thesis
        using \<open>vtPeerMaj23s vs p = None\<close> None by (simp add: SetPeerMaj23_def Let_def ctx_of_def)
    qed
  qed
qed

lemma NewVoteSet_inv: "NewVoteSet c h r t vals = Some vs \<Longrightarrow> vals_shared_power vals \<Longrightarrow> vt_inv E vs"
  using bits_ok_new[of "length (vsValidators vals)"] votes_ok_new[of E "ctx_of vs"] vals_shared_power_size(1-4)[of vals]
  by (auto simp: NewVoteSet_def vt_inv_def vals_Size_def tally_ok_empty ctx_of_def split: if_splits)

section \<open>Reachable vote sets\<close>

inductive vt_reach :: "env \<Rightarrow> VoteSet \<Rightarrow> bool" for E where
  new: "NewVoteSet c h r t vals = Some vs \<Longrightarrow> vals_shared_power vals \<Longrightarrow> vt_reach E vs"
| add: "vt_reach E vs \<Longrightarrow> good_bid (vBlockID v) \<Longrightarrow> addVote E vs (Some v) = Some (vs', added, err) \<Longrightarrow> vt_reach E vs'"
| peer: "vt_reach E vs \<Longrightarrow> vt_reach E (fst (SetPeerMaj23 vs p b))"

lemma vt_reach_inv: "vt_reach E vs \<Longrightarrow> vt_inv E vs"
  by (induction rule: vt_reach.induct) (auto simp: NewVoteSet_inv dest: addVote_keeps SetPeerMaj23_keeps)

definition voters :: "env \<Rightarrow> VoteSet \<Rightarrow> BlockID \<Rightarrow> nat set" where
  "voters E vs b = {i. i < length (vsValidators (vtVals vs)) \<and>
     (\<exists>v. getVote vs (int i) (bid_Key b) = Some (Some v) \<and> valid_vote E (ctx_of vs) i v \<and> vBlockID v = b)}"

lemma voters_finite [simp]: "finite (voters E vs b)" "voters E vs b \<subseteq> {..<length (vsValidators (vtVals vs))}"
  by (auto simp: voters_def)

lemma table_voters:
  assumes inv: "vt_inv E vs" and good: "good_bid b" and bv: "vtByBlock vs (bid_Key b) = Some bv"
  shows "count_in P (bvVotes bv) \<le> card (voters E vs b \<inter> P)"
proof -
  have tab: "votes_ok E (ctx_of vs) (bvVotes bv)" "\<forall>v. Some v \<in> set (bvVotes bv) \<longrightarrow> bid_Key (vBlockID v) = bid_Key b"
    "votes_ok E (ctx_of vs) (vtVotes vs)"
    using inv bv by (auto simp: vt_inv_def table_ok_def bv_inv_def)
  have "i \<in> voters E vs b" if i: "i < length (bvVotes bv)" "bvVotes bv ! i \<noteq> None" for i
  proof -
    obtain v where v: "bvVotes bv ! i = Some v" using i(2) by blast
    have len: "i < length (vsValidators (vtVals vs))" "i < length (vtVotes vs)" using tab i(1) by (simp_all add: votes_ok_def)
    have valid: "valid_vote E (ctx_of vs) i v" "bid_Key (vBlockID v) = bid_Key b"
      using tab i(1) v by (auto simp: votes_ok_def) (metis nth_mem)
    have old: "valid_vote E (ctx_of vs) i e" if "vtVotes vs ! i = Some e" for e
      using tab(3) len(2) that by (auto simp: votes_ok_def)
    have bid: "vBlockID w = b" if "valid_vote E (ctx_of vs) i w" "bid_Key (vBlockID w) = bid_Key b" for w
      using that good by (intro good_bid_Key_inj) (auto simp: ctx_of_def)
    show ?thesis
      using len i(1) v valid old bid bv
      by (cases "vtVotes vs ! i") (auto simp: voters_def getVote_def bv_getByIndex_def slice_get_in)
  qed
  then have "{i\<in>P. i < length (bvVotes bv) \<and> bvVotes bv ! i \<noteq> None} \<subseteq> voters E vs b \<inter> P" by blast
  then show ?thesis unfolding count_in_def by (rule card_mono[OF finite_Int[OF disjI1[OF voters_finite(1)]]])
qed

lemma majority_share:
  assumes "vt_reach E vs" and "vtMaj23 vs = Some b"
  shows "76 * card (powered (vtVals vs)) \<le> 100 * card (voters E vs b \<inter> powered (vtVals vs))"
proof -
  have inv: "vt_inv E vs" using vt_reach_inv[OF assms(1)] .
  then have maj: "maj_ok vs b" "vals_shared_power (vtVals vs)" using assms(2) by (simp_all add: vt_inv_def)
  then obtain bv where bv: "good_bid b" "vtByBlock vs (bid_Key b) = Some bv" "f64_le quorum (bvSum bv)"
    by (auto simp: maj_ok_def)
  have tab: "tally_ok (powered (vtVals vs)) (bvVotes bv) (bvSum bv)"
    using inv bv(2) by (auto simp: vt_inv_def table_ok_def bv_inv_def)
  have "76 * card (powered (vtVals vs)) \<le> 100 * count_in (powered (vtVals vs)) (bvVotes bv)"
    by (rule tally_reaches_quorum(1)[OF vals_shared_power_size(1,2)[OF maj(2)] tab bv(3)])
  then show ?thesis using table_voters[OF inv bv(1,2), of "powered (vtVals vs)"] by simp
qed


section \<open>Collecting the votes for one block\<close>

text \<open>The set after votes for \<open>b\<close> from the validators in \<open>S\<close>, and from nobody else.\<close>

definition only_for :: "env \<Rightarrow> vote_ctx \<Rightarrow> BlockID \<Rightarrow> nat set \<Rightarrow> VoteSet \<Rightarrow> bool" where
  "only_for E ctx b S vs \<longleftrightarrow> vt_reach E vs \<and> ctx_of vs = ctx \<and>
     (\<forall>i<ctx_size ctx. (vtVotes vs ! i = None) = (i \<notin> S)) \<and> (\<forall>k. k \<noteq> bid_Key b \<longrightarrow> vtByBlock vs k = None) \<and>
     (case vtByBlock vs (bid_Key b) of None \<Rightarrow> S = {} | Some bv \<Rightarrow> \<forall>i<ctx_size ctx. (bvVotes bv ! i = None) = (i \<notin> S))"

lemma only_for_add:
  assumes only: "only_for E ctx b S vs" and v: "valid_vote E ctx i v" "vote_basic v" "vBlockID v = b" and i: "i \<notin> S"
  shows "\<exists>vs'. addVote E vs (Some v) = Some (vs', True, None) \<and> only_for E ctx b (insert i S) vs'"
proof -
  let ?k = "bid_Key b" and ?n = "ctx_size ctx"
  have inv: "vt_inv E vs" and ctx: "ctx_of vs = ctx" and reach: "vt_reach E vs"
    using only vt_reach_inv by (auto simp: only_for_def)
  have len: "length (vtVotes vs) = ?n" using inv ctx by (auto simp: vt_inv_def votes_ok_def)
  have in_n: "i < ?n" "vIndex v = int i" using v(1) by (cases ctx; simp)+
  have none: "vtVotes vs ! i = None" using only in_n i by (simp add: only_for_def)
  have bv_none: "bvVotes bv ! i = None" "length (bvVotes bv) = ?n" if "vtByBlock vs ?k = Some bv" for bv
    using only inv that in_n i ctx by (auto simp: only_for_def vt_inv_def table_ok_def bv_inv_def votes_ok_def)
  have get: "getVote vs (int i) ?k = Some None"
    using none in_n len bv_none
    by (cases "vtByBlock vs ?k") (simp_all add: getVote_def bv_getByIndex_def slice_get_in)
  obtain vs' added conflict where add: "addVerifiedVote vs v ?k (power_of vs i) = Some (vs', added, conflict)"
    "vt_inv E vs'" "ctx_of vs' = ctx_of vs" "conflict = None \<Longrightarrow> added"
    using addVerifiedVote_inv[OF inv, of i v] v get ctx by metis
  have "bits_ok (vtBitArray vs) (vtVotes vs)" "i < length (vtVotes vs)" using inv in_n len by (simp_all add: vt_inv_def)
  then obtain ba where ba: "SetIndex (vtBitArray vs) (int i) True = Some (True, ba)"
    using bits_ok_set[of "vtBitArray vs" "vtVotes vs" i v] by metis
  let ?vs1 = "vs\<lparr>vtVotes := (vtVotes vs)[i := Some v], vtBitArray := ba, vtSum := f64_add (vtSum vs) (power_of vs i)\<rparr>"
  have rec: "recordVote vs v ?k (power_of vs i) = Some (?vs1, None)"
    using none in_n len ba by (simp add: recordVote_def slice_get_in slice_set_in)
  define bv where "bv = (case vtByBlock vs ?k of Some bv \<Rightarrow> bv | None \<Rightarrow> newBlockVotes False (vals_Size (vtVals vs)))"
  have bv: "bvVotes bv ! i = None" "length (bvVotes bv) = ?n" "\<forall>j<?n. (bvVotes bv ! j = None) = (j \<notin> S)"
    using only bv_none in_n i ctx unfolding bv_def only_for_def
    by (auto simp: newBlockVotes_def vals_Size_def ctx_of_def split: option.splits)
  have r: "addVerifiedVote vs v ?k (power_of vs i) = map_option (\<lambda>vs2. (vs2, True, None)) (tallyVote ?vs1 bv v ?k (power_of vs i))"
    using rec by (simp add: addVerifiedVote_def bv_def split: option.splits)
  have tally: "tallyVote ?vs1 bv v ?k (power_of vs i) = Some vs'" "added" "conflict = None"
    using add(1) unfolding r by (auto simp: map_option_eq_Some)
  then obtain bv' where bv': "bv_addVerifiedVote bv v (power_of vs i) = Some bv'" by (auto simp: tallyVote_def simp del: bid_Equals_iff split: option.splits)
  then have votes': "bvVotes bv' = (bvVotes bv)[i := Some v]"
    using bv(1,2) in_n by (auto simp: bv_addVerifiedVote_def slice_get_in slice_set_in bind_Some split: if_splits)
  have vs': "vtByBlock vs' = (vtByBlock vs)(?k \<mapsto> bv')"
    "vtVotes vs' = (vtVotes vs)[i := Some v] \<or> vtVotes vs' = overlay (bvVotes bv') ((vtVotes vs)[i := Some v])"
    using tally(1) bv' by (auto simp: tallyVote_def Let_def)
  have pat: "\<forall>j<?n. (vtVotes vs ! j = None) = (j \<notin> S)" using only by (simp add: only_for_def)
  have "(vtVotes vs' ! j = None) = (j \<notin> insert i S)" if "j < ?n" for j
    using vs'(2) pat[rule_format, OF that] bv(2) bv(3)[rule_format, OF that] votes' len in_n(1) that
    by (cases "j = i") (auto simp: nth_update_iff overlay_nth)
  then have "\<forall>j<?n. (vtVotes vs' ! j = None) = (j \<notin> insert i S)" by blast
  moreover have "\<forall>j<?n. (bvVotes bv' ! j = None) = (j \<notin> insert i S)"
    using votes' bv in_n by (auto simp: nth_update_iff)
  moreover have addv: "addVote E vs (Some v) = Some (vs', True, None)"
  proof -
    obtain c h t r vals where c: "ctx = (c, h, r, t, vals)" by (cases ctx)
    then have f: "vtChainID vs = c" "vtHeight vs = h" "vtRound vs = r" "vtType vs = t" "vtVals vs = vals"
      using ctx by (auto simp: ctx_of_def)
    obtain pk where pk: "valPubKey (vsValidators vals ! i) = Some pk" "vote_Verify E c pk v = Some None"
      using v(1) c by auto
    have "vAddress v \<noteq> []" using v(2) by (auto simp: vote_basic_def vote_ValidateBasic_def AddressSize_def split: if_splits)
    then show ?thesis
      using v(1,3) c f pk in_n get add(1) tally(2,3) by (simp add: addVote_def Let_def vals_GetByIndex_def)
  qed
  moreover have "vt_reach E vs'" using vt_reach.add[OF reach vote_basic_good[OF v(2)] addv] .
  ultimately show ?thesis
    using only add(3) ctx vs'(1) addv by (auto simp: only_for_def)
qed


fun addVotes :: "env \<Rightarrow> VoteSet \<Rightarrow> Vote list \<Rightarrow> VoteSet option" where
  "addVotes E vs [] = Some vs"
| "addVotes E vs (v # r) = Option.bind (addVote E vs (Some v)) (\<lambda>(vs', _, _). addVotes E vs' r)"

definition votes_for :: "env \<Rightarrow> vote_ctx \<Rightarrow> BlockID \<Rightarrow> Vote list \<Rightarrow> bool" where
  "votes_for E ctx b votes \<longleftrightarrow> distinct (map vIndex votes) \<and>
     (\<forall>v\<in>set votes. vote_basic v \<and> vBlockID v = b \<and> valid_vote E ctx (nat (vIndex v)) v)"

lemma valid_vote_index: "valid_vote E ctx i v \<Longrightarrow> vIndex v = int i"
  by (cases ctx) simp

lemma addVotes_only_for:
  assumes "only_for E ctx b S vs" "votes_for E ctx b votes" "\<forall>v\<in>set votes. nat (vIndex v) \<notin> S"
  shows "\<exists>vs'. addVotes E vs votes = Some vs' \<and> only_for E ctx b (S \<union> (nat \<circ> vIndex) ` set votes) vs'"
  using assms
proof (induction votes arbitrary: vs S)
  case (Cons v votes)
  obtain vs1 where vs1: "addVote E vs (Some v) = Some (vs1, True, None)" "only_for E ctx b (insert (nat (vIndex v)) S) vs1"
    using only_for_add[OF Cons(2), of "nat (vIndex v)" v] Cons(3,4) by (auto simp: votes_for_def)
  have other: "nat (vIndex w) \<noteq> nat (vIndex v)" if "w \<in> set votes" for w
  proof
    assume "nat (vIndex w) = nat (vIndex v)"
    moreover have "vIndex w = int (nat (vIndex w))" "vIndex v = int (nat (vIndex v))"
      using Cons(3) that valid_vote_index unfolding votes_for_def by (metis list.set_intros)+
    ultimately have "vIndex w = vIndex v" by simp
    then show False using Cons(3) that unfolding votes_for_def by (metis distinct.simps(2) image_eqI list.map(2) list.set_map)
  qed
  then have "\<exists>vs'. addVotes E vs1 votes = Some vs' \<and>
      only_for E ctx b (insert (nat (vIndex v)) S \<union> (nat \<circ> vIndex) ` set votes) vs'"
    using Cons(3,4) by (intro Cons(1)[OF vs1(2)]) (auto simp: votes_for_def)
  then show ?case using vs1(1) by (auto simp: Un_assoc)
qed simp

lemma NewVoteSet_only_for:
  assumes "NewVoteSet c h r t vals = Some vs" "vals_shared_power vals"
  shows "only_for E (ctx_of vs) b {} vs"
  using assms vt_reach.new[OF assms] by (auto simp: only_for_def NewVoteSet_def ctx_of_def vals_Size_def split: if_splits)

lemma only_for_majority:
  assumes only: "only_for E ctx b S vs" and S: "S \<subseteq> {..<ctx_size ctx}" and good: "good_bid b"
    and many: "767 * card (ctx_powered ctx) \<le> 1000 * card (S \<inter> ctx_powered ctx)"
  shows "vtMaj23 vs = Some b"
proof -
  have inv: "vt_inv E vs" and ctx: "ctx_of vs = ctx" using only vt_reach_inv by (auto simp: only_for_def)
  have n: "0 < card (ctx_powered ctx)" "card (ctx_powered ctx) \<le> 10000"
    using vals_shared_power_size(1,2)[of "vtVals vs"] inv ctx by (auto simp: vt_inv_def)
  have "S \<noteq> {}" using many n by auto
  then obtain bv where bv: "vtByBlock vs (bid_Key b) = Some bv" "\<forall>i<ctx_size ctx. (bvVotes bv ! i = None) = (i \<notin> S)"
    using only by (auto simp: only_for_def split: option.splits)
  have tab: "table_ok E vs (bid_Key b) bv" using inv bv(1) by (simp add: vt_inv_def)
  then have len: "length (bvVotes bv) = ctx_size ctx" "tally_ok (ctx_powered ctx) (bvVotes bv) (bvSum bv)"
    using ctx by (auto simp: table_ok_def bv_inv_def votes_ok_def)
  have "{i\<in>ctx_powered ctx. i < length (bvVotes bv) \<and> bvVotes bv ! i \<noteq> None} = S \<inter> ctx_powered ctx" using bv(2) len(1) S by auto
  then have "767 * card (ctx_powered ctx) \<le> 1000 * count_in (ctx_powered ctx) (bvVotes bv)" using many by (simp add: count_in_def)
  then have "\<not> f64_less (bvSum bv) quorum" using tally_reaches_quorum(2,3)[OF n len(2)] by simp
  then have "vtMaj23 vs \<noteq> None" using tab by (auto simp: table_ok_def)
  then obtain m where m: "vtMaj23 vs = Some m" by blast
  then have mm: "good_bid m" "vtByBlock vs (bid_Key m) \<noteq> None" using inv by (auto simp: vt_inv_def maj_ok_def)
  then have "bid_Key m = bid_Key b" using only by (auto simp: only_for_def)
  then show ?thesis using m good_bid_Key_inj[OF mm(1) good] by simp
qed

lemma votes_for_indices:
  assumes "votes_for E ctx b votes"
  shows "card ((nat \<circ> vIndex) ` set votes \<inter> P) = length (filter (\<lambda>v. nat (vIndex v) \<in> P) votes)"
proof -
  let ?vs = "filter (\<lambda>v. nat (vIndex v) \<in> P) votes"
  have idx: "vIndex v = int (nat (vIndex v))" if "v \<in> set votes" for v
    using assms that valid_vote_index[of E ctx "nat (vIndex v)" v] by (auto simp: votes_for_def)
  have d: "inj_on vIndex (set votes)" "distinct votes" using assms by (simp_all add: votes_for_def distinct_map)
  then have "inj_on (nat \<circ> vIndex) (set ?vs)" using idx unfolding inj_on_def by (metis comp_apply filter_is_subset subsetD)
  then have "card ((nat \<circ> vIndex) ` set ?vs) = length ?vs" using d(2) by (metis card_image distinct_card distinct_filter)
  moreover have "(nat \<circ> vIndex) ` set votes \<inter> P = (nat \<circ> vIndex) ` set ?vs" by auto
  ultimately show ?thesis by simp
qed

lemma enough_votes:
  assumes new: "NewVoteSet c h r t vals = Some vs" "vals_shared_power vals"
    and votes: "votes_for E (ctx_of vs) b votes" "767 * card (powered vals) \<le> 1000 * length (filter (\<lambda>v. nat (vIndex v) \<in> powered vals) votes)"
  shows "\<exists>vs'. addVotes E vs votes = Some vs' \<and> vtMaj23 vs' = Some b \<and> vt_reach E vs' \<and> ctx_of vs' = ctx_of vs"
proof -
  obtain vs' where vs': "addVotes E vs votes = Some vs'" "only_for E (ctx_of vs) b ((nat \<circ> vIndex) ` set votes) vs'"
    using addVotes_only_for[OF NewVoteSet_only_for[OF new] votes(1)] by auto
  have pw: "ctx_powered (ctx_of vs) = powered vals" using new(1) by (auto simp: NewVoteSet_def ctx_of_def split: if_splits)
  have ne: "votes \<noteq> []" using votes(2) vals_shared_power_size(1)[OF new(2)] by auto
  have idx: "nat (vIndex v) < ctx_size (ctx_of vs)" "good_bid (vBlockID v)" if "v \<in> set votes" for v
    using votes(1) that by (auto simp: votes_for_def ctx_of_def)
  have "(nat \<circ> vIndex) ` set votes \<subseteq> {..<ctx_size (ctx_of vs)}" using idx(1) by auto
  moreover have "good_bid b" using idx(2)[of "hd votes"] ne votes(1) by (auto simp: votes_for_def)
  ultimately have "vtMaj23 vs' = Some b"
    using only_for_majority[OF vs'(2)] votes(2) votes_for_indices[OF votes(1), of "powered vals"] pw by simp
  then show ?thesis using vs' by (auto simp: only_for_def)
qed


section \<open>A sample of four validators\<close>

definition equal_vals :: "nat \<Rightarrow> ValidatorSet" where
  "equal_vals n = \<lparr>vsValidators = map (\<lambda>v. v\<lparr>valVotingPower := f64_div TotalVotingPower (f64_of_int (int n))\<rparr>) (sample_vals n),
     vsPrimary = None\<rparr>"

definition unsigned_vote :: "BlockID \<Rightarrow> nat \<Rightarrow> Vote" where
  "unsigned_vote b i = \<lparr>vType = CommitType, vHeight = 3, vRound = 0, vBlockID = b, vTimestamp = 5,
     vAddress = replicate 20 (of_nat (i + 1)), vIndex = int i, vSignature = []\<rparr>"

definition signed_vote :: "BlockID \<Rightarrow> nat \<Rightarrow> Vote" where
  "signed_vote b i = (unsigned_vote b i)\<lparr>vSignature := e_sign sample_env [] (the (VoteSignBytes sample_env [1] (unsigned_vote b i)))\<rparr>"

definition sample_set :: VoteSet where
  "sample_set = the (NewVoteSet [1] 3 0 CommitType (equal_vals 4))"

lemma length_equal_vals [simp]: "length (vsValidators (equal_vals n)) = n"
  by (simp add: equal_vals_def sample_vals_def)

lemma equal_vals_shared:
  assumes "0 < n" "n \<le> 10000"
  shows "vals_shared_power (equal_vals n)" "powered (equal_vals n) = {..<n}"
  using equal_power_shared[of "equal_vals n"] assms by (simp_all add: equal_vals_def sample_vals_def)

lemma sample_set_new: "NewVoteSet [1] 3 0 CommitType (equal_vals 4) = Some sample_set" "vals_shared_power (equal_vals 4)"
  using equal_vals_shared(1)[of 4] by (auto simp: sample_set_def NewVoteSet_def)

lemma sample_votes_powered:
  "filter (\<lambda>v. nat (vIndex v) \<in> powered (equal_vals 4)) (map (signed_vote b) [0..<4]) = map (signed_vote b) [0..<4]"
  by (auto simp: equal_vals_shared(2) signed_vote_def unsigned_vote_def filter_id_conv)

lemma sample_votes_for:
  assumes sb: "VoteSignBytes sample_env [1] (unsigned_vote b 0) \<noteq> None" and good: "good_bid b" "bid_ValidateBasic b"
  shows "votes_for sample_env (ctx_of sample_set) b (map (signed_vote b) [0..<4])"
proof -
  have same: "VoteSignBytes sample_env [1] (unsigned_vote b i) = VoteSignBytes sample_env [1] (unsigned_vote b 0)" for i
    by (simp add: VoteSignBytes_def CanonicalizeVote_def unsigned_vote_def cong: option.case_cong)
  then obtain m where m: "VoteSignBytes sample_env [1] (unsigned_vote b i) = Some m" for i using sb by auto
  have sig: "length (e_sign sample_env [] x) = 64" for x by (simp add: sample_env_def min_def)
  have basic: "vote_basic (signed_vote b i)" for i
    using good sig[of m] m
    by (auto simp: vote_basic_def signed_vote_def unsigned_vote_def vote_ValidateBasic_def IsVoteTypeValid_def AddressSize_def
        vote_typed_def in_range_def CommitType_def good_bid_def)
  have valid: "valid_vote sample_env (ctx_of sample_set) i (signed_vote b i)" if "i < 4" for i
  proof -
    have pk: "valPubKey (vsValidators (equal_vals 4) ! i) = Some (replicate 32 (of_nat (i + 1)))"
      using that by (simp add: equal_vals_def sample_vals_def)
    have addr: "pk_Address sample_env (replicate 32 (of_nat (i + 1))) = Some (replicate 20 (of_nat (i + 1)))"
      by (simp add: pk_Address_def PubKeySize_def SumTruncated_def TruncatedSize_def sample_env_def)
    have "vote_Verify sample_env [1] (replicate 32 (of_nat (i + 1))) (signed_vote b i) = Some None"
      using m[of i] sig[of m] addr
      by (simp add: vote_Verify_def signed_vote_def pk_VerifySignature_def SignatureSize_def PubKeySize_def)
        (simp add: unsigned_vote_def sample_env_def)
    then show ?thesis
      using that pk good(1)
      by (simp add: ctx_of_def sample_set_def NewVoteSet_def) (simp add: signed_vote_def unsigned_vote_def)
  qed
  have "map vIndex (map (signed_vote b) [0..<4]) = map int [0..<4]"
    by (simp add: signed_vote_def unsigned_vote_def)
  moreover have "distinct (map int [0..<4])" by (simp add: distinct_map)
  moreover have "vIndex (signed_vote b i) = int i" "vBlockID (signed_vote b i) = b" for i
    by (simp_all add: signed_vote_def unsigned_vote_def)
  ultimately show ?thesis unfolding votes_for_def using basic valid by (auto simp: comp_def)
qed

lemma sample_sign_bytes:
  "VoteSignBytes sample_env [1] (unsigned_vote sample_bid 0) \<noteq> None" "VoteSignBytes sample_env [1] (unsigned_vote zero_bid 0) \<noteq> None"
  "good_bid sample_bid" "good_bid zero_bid" "bid_ValidateBasic sample_bid" "bid_ValidateBasic zero_bid"
  by code_simp+

lemma sample_majority:
  assumes "b = sample_bid \<or> b = zero_bid"
  shows "\<exists>vs. addVotes sample_env sample_set (map (signed_vote b) [0..<4]) = Some vs \<and> vtMaj23 vs = Some b \<and>
    vt_reach sample_env vs \<and> ctx_of vs = ctx_of sample_set"
  using assms sample_sign_bytes by (intro enough_votes[OF sample_set_new] sample_votes_for) (auto simp only: sample_votes_powered, simp_all add: equal_vals_shared(2))

lemma sample_reach:
  "\<exists>vs. vt_reach sample_env vs \<and> ctx_of vs = ctx_of sample_set \<and> TwoThirdsMajority (Some vs) = (sample_bid, True)"
  "\<exists>vs. vt_reach sample_env vs \<and> ctx_of vs = ctx_of sample_set \<and> TwoThirdsMajority (Some vs) = (zero_bid, True)"
  using sample_majority[of sample_bid] sample_majority[of zero_bid] by (auto simp: TwoThirdsMajority_def)

lemma sample_set_vals: "vtVals sample_set = equal_vals 4" "vtChainID sample_set = [1]"
  by (simp_all add: sample_set_def NewVoteSet_def)


section \<open>The promises of a vote set\<close>

lemma TwoThirdsMajority_iff: "TwoThirdsMajority (Some vs) = (b, True) \<longleftrightarrow> vtMaj23 vs = Some b"
  by (auto simp: TwoThirdsMajority_def split: option.splits)

lemma majority_card:
  assumes "vt_reach E vs" and "TwoThirdsMajority (Some vs) = (b, True)"
  shows "76 * card (powered (vtVals vs)) \<le> 100 * card (voters E vs b \<inter> powered (vtVals vs))" "0 < card (powered (vtVals vs))"
  using majority_share[OF assms(1)] assms vt_reach_inv[OF assms(1)] vals_shared_power_size(1)[of "vtVals vs"]
  by (simp_all add: TwoThirdsMajority_iff vt_inv_def)

text \<open>Property C14: whenever a vote set reports a two-thirds majority for a block, more than two thirds of the validators that
  have voting power have a vote for exactly that block in the set, each of the set's height, round and type and accepted by
  the signature check under that validator's key. The set may hold validators of power zero; those with power, at most ten
  thousand validators in all, share the total of ten equally, as \<open>NewValidatorSet\<close> and the trust updates make it. The powers, their sums and
  the threshold are the floating point numbers of the code.\<close>

theorem majority_has_two_thirds:
  assumes "vt_reach E vs" and "TwoThirdsMajority (Some vs) = (b, True)"
  shows "2 * card (powered (vtVals vs)) < 3 * card (voters E vs b \<inter> powered (vtVals vs))"
  using majority_card[OF assms] by linarith

theorem majority_has_two_thirds_witness:
  "\<exists>vs. TwoThirdsMajority (Some vs) = (sample_bid, True) \<and> 2 * card (powered (vtVals vs)) < 3 * card (voters sample_env vs sample_bid \<inter> powered (vtVals vs))"
  using sample_reach(1) majority_has_two_thirds by blast

lemma card_inter_ge:
  assumes "A \<subseteq> P" "B \<subseteq> P" "finite P"
  shows "card A + card B \<le> card P + card (A \<inter> B)"
proof -
  have "finite A" "finite B" using assms finite_subset by blast+
  then have "card A + card B = card (A \<union> B) + card (A \<inter> B)" by (rule card_Un_Int)
  moreover have "card (A \<union> B) \<le> card P" using card_mono[of P "A \<union> B"] assms by auto
  ultimately show ?thesis by simp
qed

definition double_voters :: "env \<Rightarrow> vote_ctx \<Rightarrow> BlockID \<Rightarrow> BlockID \<Rightarrow> nat set" where
  "double_voters E ctx b1 b2 =
     {i. (\<exists>v. valid_vote E ctx i v \<and> vBlockID v = b1) \<and> (\<exists>v. valid_vote E ctx i v \<and> vBlockID v = b2)}"

lemma double_voters_finite: "finite (double_voters E ctx b1 b2)"
  by (rule finite_subset[of _ "{..<ctx_size ctx}"]) (cases ctx; auto simp: double_voters_def)+

text \<open>Property C12: two vote sets of one height, round, type and validator set, held by any two nodes, that report
  majorities for different blocks convict more than half of the validators with voting power: each of those has signed votes
  for both blocks, and its own key verifies both. The validators with power share the total equally; others may have power zero.\<close>

theorem quorum_intersection:
  assumes "vt_reach E vs1" "vt_reach E vs2" and "ctx_of vs1 = ctx_of vs2"
    and "TwoThirdsMajority (Some vs1) = (b1, True)" "TwoThirdsMajority (Some vs2) = (b2, True)" and "b1 \<noteq> b2"
  shows "card (powered (vtVals vs1)) < 2 * card (double_voters E (ctx_of vs1) b1 b2 \<inter> powered (vtVals vs1))"
proof -
  let ?P = "powered (vtVals vs1)"
  let ?A = "voters E vs1 b1 \<inter> ?P" and ?B = "voters E vs2 b2 \<inter> ?P"
  have n: "vtVals vs2 = vtVals vs1" using assms(3) by (simp add: ctx_of_def)
  have "card ?A + card ?B \<le> card ?P + card (?A \<inter> ?B)" by (rule card_inter_ge) auto
  moreover have "card (?A \<inter> ?B) \<le> card (double_voters E (ctx_of vs1) b1 b2 \<inter> ?P)"
    using assms(3) by (intro card_mono finite_Int disjI1 double_voters_finite) (auto simp: voters_def double_voters_def)
  ultimately show ?thesis using majority_card[OF assms(1,4)] majority_card[OF assms(2,5)] n by simp
qed

theorem quorum_intersection_witness:
  "\<exists>vs1 vs2. TwoThirdsMajority (Some vs1) = (sample_bid, True) \<and> TwoThirdsMajority (Some vs2) = (zero_bid, True) \<and>
     card (powered (vtVals vs1)) < 2 * card (double_voters sample_env (ctx_of vs1) sample_bid zero_bid \<inter> powered (vtVals vs1))"
proof -
  obtain vs1 vs2 where vs: "vt_reach sample_env vs1" "ctx_of vs1 = ctx_of sample_set" "TwoThirdsMajority (Some vs1) = (sample_bid, True)"
    "vt_reach sample_env vs2" "ctx_of vs2 = ctx_of sample_set" "TwoThirdsMajority (Some vs2) = (zero_bid, True)"
    using sample_reach by blast
  have "sample_bid \<noteq> zero_bid" by code_simp
  then show ?thesis using quorum_intersection[OF vs(1,4) _ vs(3,6)] vs by auto
qed

text \<open>Property C16: adding a vote that passed its basic check to a vote set with 32 byte validator keys never panics, and
  leaves a vote set whose majority, if there was one, is the same: \<open>maj23\<close> is written once. The validators of the set that
  have power share the total equally; others may have power zero.\<close>

theorem AddVote_total_majority_stable:
  assumes "vt_reach E vs" and "vote_basic v" and "VoteSignBytes E (vtChainID vs) v \<noteq> None"
    and "\<forall>val\<in>set (vsValidators (vtVals vs)). \<exists>pk. valPubKey val = Some pk \<and> length pk = PubKeySize"
  shows "\<exists>vs' added err. AddVote E (Some vs) (Some v) = Some (vs', added, err) \<and> vt_reach E vs' \<and> ctx_of vs' = ctx_of vs \<and>
    (HasTwoThirdsMajority (Some vs) \<longrightarrow> TwoThirdsMajority (Some vs') = TwoThirdsMajority (Some vs))"
proof -
  obtain vs' added err where add: "addVote E vs (Some v) = Some (vs', added, err)" "ctx_of vs' = ctx_of vs"
    "vtMaj23 vs \<noteq> None \<Longrightarrow> vtMaj23 vs' = vtMaj23 vs"
    by (rule addVote_inv[OF vt_reach_inv[OF assms(1)] assms(2-4)]) (rule that; assumption)
  then show ?thesis
    using vt_reach.add[OF assms(1) vote_basic_good[OF assms(2)] add(1)] by (auto simp: AddVote_def HasTwoThirdsMajority_def TwoThirdsMajority_def)
qed

theorem AddVote_total_majority_stable_witness:
  "\<exists>vs' added err. AddVote sample_env (Some sample_set) (Some (signed_vote sample_bid 0)) = Some (vs', added, err)"
proof -
  have "votes_for sample_env (ctx_of sample_set) sample_bid (map (signed_vote sample_bid) [0..<4])"
    using sample_sign_bytes by (intro sample_votes_for) auto
  then have basic: "vote_basic (signed_vote sample_bid 0)" by (auto simp: votes_for_def)
  have sb: "VoteSignBytes sample_env (vtChainID sample_set) (signed_vote sample_bid 0) \<noteq> None"
    using sample_sign_bytes(1) by (simp add: signed_vote_def VoteSignBytes_signature sample_set_vals)
  have keys: "\<forall>val\<in>set (vsValidators (vtVals sample_set)). \<exists>pk. valPubKey val = Some pk \<and> length pk = PubKeySize"
    by (auto simp: sample_set_vals equal_vals_def sample_vals_def PubKeySize_def)
  show ?thesis
    using AddVote_total_majority_stable[OF vt_reach.new[OF sample_set_new] basic sb keys] by blast
qed

text \<open>Property C15: votes for one block from at least 76.7 percent of the validators that have voting power, together with any
  votes of validators without power, added in any order to a new vote set, are all accepted and give that block the majority.
  The set has at most ten thousand validators, and those with power share the total of ten equally.\<close>

theorem enough_votes_make_majority:
  assumes "NewVoteSet c h r t vals = Some vs" "vals_shared_power vals" and "votes_for E (ctx_of vs) b votes"
    and "767 * card (powered vals) \<le> 1000 * length (filter (\<lambda>v. nat (vIndex v) \<in> powered vals) votes)"
  shows "\<exists>vs'. addVotes E vs votes = Some vs' \<and> TwoThirdsMajority (Some vs') = (b, True)"
  using enough_votes[OF assms] by (auto simp: TwoThirdsMajority_iff)

theorem enough_votes_make_majority_witness:
  "\<exists>vs'. addVotes sample_env sample_set (map (signed_vote sample_bid) [0..<4]) = Some vs' \<and> TwoThirdsMajority (Some vs') = (sample_bid, True)"
proof -
  have "votes_for sample_env (ctx_of sample_set) sample_bid (map (signed_vote sample_bid) [0..<4])"
    using sample_sign_bytes by (intro sample_votes_for) auto
  from enough_votes_make_majority[OF sample_set_new this] show ?thesis
    unfolding sample_votes_powered by (simp add: equal_vals_shared(2))
qed

text \<open>Property C17: the threshold of the code is ten times two thirds plus one, of a total power of ten; with four validators
  that share the power equally it is only reached when all four voted for the block, so one silent validator prevents every decision.\<close>

theorem four_validators_all_vote:
  assumes "vt_reach E vs" and "TwoThirdsMajority (Some vs) = (b, True)" and "card (powered (vtVals vs)) = 4"
  shows "powered (vtVals vs) \<subseteq> voters E vs b"
proof -
  have "card (voters E vs b \<inter> powered (vtVals vs)) \<le> 4" using card_mono[of "powered (vtVals vs)" "voters E vs b \<inter> powered (vtVals vs)"] assms(3) by simp
  then have "card (voters E vs b \<inter> powered (vtVals vs)) = card (powered (vtVals vs))" using majority_card[OF assms(1,2)] assms(3) by simp
  then have "voters E vs b \<inter> powered (vtVals vs) = powered (vtVals vs)" by (intro card_subset_eq) simp_all
  then show ?thesis by blast
qed

theorem four_validators_all_vote_witness:
  "\<exists>vs. TwoThirdsMajority (Some vs) = (sample_bid, True) \<and> {..<4} \<subseteq> voters sample_env vs sample_bid"
proof -
  obtain vs where vs: "vt_reach sample_env vs" "ctx_of vs = ctx_of sample_set" "TwoThirdsMajority (Some vs) = (sample_bid, True)"
    using sample_reach(1) by blast
  then have "powered (vtVals vs) = {..<4}" using sample_set_vals equal_vals_shared(2)[of 4] by (simp add: ctx_of_def)
  then show ?thesis using four_validators_all_vote[OF vs(1,3)] vs(3) by auto
qed

end
