(* ===== verification/Replies.thy ===== *)
theory Replies
  imports VoteSafety
begin

text \<open>
  \<open>types/reply.go\<close>, \<open>VoteSet.MakeReply\<close> and \<open>Vote.ReplySig\<close> of \<open>types/vote.go\<close>, and \<open>VerifyReply\<close> of
  \<open>types/validator_set.go\<close>: the commit certificate of a block, made from a vote set with a majority and checked
  by every node that receives the next block. \<open>None\<close> is a panic; an empty address stands for a nil one; the
  zero \<open>time.Time\<close> is the first instant of year 1, in nanoseconds from the Unix epoch.
\<close>

definition BlockIDFlagAbsent :: int where "BlockIDFlagAbsent = 1"
definition BlockIDFlagCommit :: int where "BlockIDFlagCommit = 2"
definition BlockIDFlagNil :: int where "BlockIDFlagNil = 3"
definition zero_time :: int where "zero_time = - 62135596800000000000"

section \<open>Data\<close>

record ReplySig =
  rsFlag :: int
  rsAddress :: bytes
  rsTimestamp :: int
  rsSignature :: bytes

text \<open>The last two fields of \<open>Reply\<close> memorise the results of \<open>Hash\<close> and \<open>BitArray\<close>.\<close>

record Reply =
  rpHeight :: int
  rpRound :: int
  rpBlockID :: BlockID
  rpSignatures :: "ReplySig list"
  rpHash :: "bytes option"
  rpBitArray :: "BitArray option"

datatype sig_error = UnknownFlag | AddressPresent | TimePresent | SignaturePresent | SigAddressSize | SigMissing | SigTooBig

datatype reply_error =
    ReplyNegativeHeight | ReplyNegativeRound | ReplyNilBlock | ReplyNoSignatures | ReplyWrongSig nat sig_error | ReplyWrongBlockID
  | ErrInvalidCommitSignatures | ErrInvalidCommitHeight | VerifyWrongBlockID | WrongSignature nat | ErrNotEnoughVotingPowerSigned

definition NewCommitSigAbsent :: ReplySig where
  "NewCommitSigAbsent = \<lparr>rsFlag = BlockIDFlagAbsent, rsAddress = [], rsTimestamp = zero_time, rsSignature = []\<rparr>"

definition zero_sig :: ReplySig where
  "zero_sig = \<lparr>rsFlag = 0, rsAddress = [], rsTimestamp = zero_time, rsSignature = []\<rparr>"

definition NewReply :: "int \<Rightarrow> int \<Rightarrow> BlockID \<Rightarrow> ReplySig list \<Rightarrow> Reply" where
  "NewReply height r blockID commitSigs =
     \<lparr>rpHeight = height, rpRound = r, rpBlockID = blockID, rpSignatures = commitSigs, rpHash = None, rpBitArray = None\<rparr>"

definition ForBlock :: "ReplySig \<Rightarrow> bool" where "ForBlock rs \<longleftrightarrow> rsFlag rs = BlockIDFlagCommit"
definition Absent :: "ReplySig \<Rightarrow> bool" where "Absent rs \<longleftrightarrow> rsFlag rs = BlockIDFlagAbsent"

definition rs_BlockID :: "ReplySig \<Rightarrow> BlockID \<Rightarrow> BlockID option" where
  "rs_BlockID rs commitBlockID =
     (if rsFlag rs = BlockIDFlagAbsent then Some zero_bid
      else if rsFlag rs = BlockIDFlagCommit then Some commitBlockID
      else if rsFlag rs = BlockIDFlagNil then Some zero_bid
      else None)"

definition rs_ValidateBasic :: "ReplySig \<Rightarrow> sig_error option" where
  "rs_ValidateBasic rs =
     (if rsFlag rs \<noteq> BlockIDFlagAbsent \<and> rsFlag rs \<noteq> BlockIDFlagCommit \<and> rsFlag rs \<noteq> BlockIDFlagNil then Some UnknownFlag
      else if rsFlag rs = BlockIDFlagAbsent then
        (if length (rsAddress rs) \<noteq> 0 then Some AddressPresent
         else if rsTimestamp rs \<noteq> zero_time then Some TimePresent
         else if length (rsSignature rs) \<noteq> 0 then Some SignaturePresent else None)
      else
        (if length (rsAddress rs) \<noteq> AddressSize then Some SigAddressSize
         else if length (rsSignature rs) = 0 then Some SigMissing
         else if 64 < length (rsSignature rs) then Some SigTooBig else None))"

text \<open>The generated encoding of one signature; the flag is a \<open>uint64\<close> conversion of a small positive number.\<close>

definition rs_Marshal :: "env \<Rightarrow> ReplySig \<Rightarrow> bytes option" where
  "rs_Marshal E rs =
     map_option (\<lambda>tm.
       opt (rsFlag rs \<noteq> 0) (tag 1 0 @ putUvarint (word_of_int (rsFlag rs))) @
       opt (0 < length (rsAddress rs)) (tag 2 2 @ putLen (rsAddress rs)) @
       tag 3 2 @ putLen tm @
       opt (0 < length (rsSignature rs)) (tag 4 2 @ putLen (rsSignature rs)))
     (e_timeEnc E (rsTimestamp rs))"

definition vote_ReplySig :: "Vote option \<Rightarrow> ReplySig option" where
  "vote_ReplySig v =
     (case v of
        None \<Rightarrow> Some NewCommitSigAbsent
      | Some vote \<Rightarrow>
          if bid_IsComplete (vBlockID vote)
          then Some \<lparr>rsFlag = BlockIDFlagCommit, rsAddress = vAddress vote, rsTimestamp = vTimestamp vote, rsSignature = vSignature vote\<rparr>
          else if bid_IsZero (vBlockID vote)
          then Some \<lparr>rsFlag = BlockIDFlagNil, rsAddress = vAddress vote, rsTimestamp = vTimestamp vote, rsSignature = vSignature vote\<rparr>
          else None)"

section \<open>Operations of a reply\<close>

fun findSig :: "ReplySig list \<Rightarrow> bytes \<Rightarrow> ReplySig" where
  "findSig [] address = zero_sig"
| "findSig (s # ss) address = (if rsAddress s = address then s else findSig ss address)"

definition reply_GetVote :: "Reply \<Rightarrow> int \<Rightarrow> bytes \<Rightarrow> Vote option" where
  "reply_GetVote reply valIdx address =
     Option.bind (if address \<noteq> [] then Some (findSig (rpSignatures reply) address) else slice_get (rpSignatures reply) valIdx) (\<lambda>commitSig.
     map_option (\<lambda>blockID.
       \<lparr>vType = CommitType, vHeight = rpHeight reply, vRound = rpRound reply, vBlockID = blockID,
        vTimestamp = rsTimestamp commitSig, vAddress = rsAddress commitSig, vIndex = valIdx, vSignature = rsSignature commitSig\<rparr>)
     (rs_BlockID commitSig (rpBlockID reply)))"

definition reply_VoteSignBytes :: "env \<Rightarrow> bytes \<Rightarrow> Reply \<Rightarrow> int \<Rightarrow> bytes option" where
  "reply_VoteSignBytes E chainID reply valIdx = Option.bind (reply_GetVote reply valIdx []) (VoteSignBytes E chainID)"

definition reply_GetByIndex :: "Reply \<Rightarrow> int \<Rightarrow> Vote option" where
  "reply_GetByIndex reply valIdx = reply_GetVote reply valIdx []"

definition reply_Size :: "Reply option \<Rightarrow> int" where
  "reply_Size reply = (case reply of None \<Rightarrow> 0 | Some r \<Rightarrow> int (length (rpSignatures r)))"

definition reply_IsReply :: "Reply \<Rightarrow> bool" where
  "reply_IsReply reply \<longleftrightarrow> length (rpSignatures reply) \<noteq> 0"

fun markSigs :: "ReplySig list \<Rightarrow> nat \<Rightarrow> BitArray option \<Rightarrow> BitArray option option" where
  "markSigs [] i ba = Some ba"
| "markSigs (s # ss) i ba = Option.bind (SetIndex ba (int i) (\<not> Absent s)) (\<lambda>(_, ba'). markSigs ss (Suc i) ba')"

definition reply_BitArray :: "Reply \<Rightarrow> (BitArray option \<times> Reply) option" where
  "reply_BitArray reply =
     (case rpBitArray reply of
        Some b \<Rightarrow> Some (Some b, reply)
      | None \<Rightarrow> map_option (\<lambda>ba. (ba, reply\<lparr>rpBitArray := ba\<rparr>))
          (markSigs (rpSignatures reply) 0 (NewBitArray (int (length (rpSignatures reply))))))"

fun firstWrongSig :: "ReplySig list \<Rightarrow> nat \<Rightarrow> reply_error option" where
  "firstWrongSig [] i = None"
| "firstWrongSig (s # ss) i = (case rs_ValidateBasic s of Some e \<Rightarrow> Some (ReplyWrongSig i e) | None \<Rightarrow> firstWrongSig ss (Suc i))"

definition reply_ValidateBasic :: "Reply \<Rightarrow> reply_error option" where
  "reply_ValidateBasic reply =
     (if rpHeight reply < 0 then Some ReplyNegativeHeight
      else if rpRound reply < 0 then Some ReplyNegativeRound
      else if 1 \<le> rpHeight reply then
        (if bid_IsZero (rpBlockID reply) then Some ReplyNilBlock
         else if length (rpSignatures reply) = 0 then Some ReplyNoSignatures
         else firstWrongSig (rpSignatures reply) 0)
      else None)"

definition reply_Hash :: "env \<Rightarrow> Reply \<Rightarrow> (bytes \<times> Reply) option" where
  "reply_Hash E reply =
     (case rpHash reply of
        Some h \<Rightarrow> Some (h, reply)
      | None \<Rightarrow> map_option (\<lambda>bs. let h = HashFromByteSlices (e_Sum E) bs in (h, reply\<lparr>rpHash := Some h\<rparr>))
          (those (map (rs_Marshal E) (rpSignatures reply))))"

text \<open>\<open>ReplyFromProto\<close>: the generated struct has the same fields, so conversion checks and clears the memory.\<close>

definition ReplyFromProto :: "Reply \<Rightarrow> reply_error + Reply" where
  "ReplyFromProto cp =
     (case BlockIDFromProto (rpBlockID cp) of
        None \<Rightarrow> Inl ReplyWrongBlockID
      | Some bi \<Rightarrow>
          (case firstWrongSig (rpSignatures cp) 0 of
             Some e \<Rightarrow> Inl e
           | None \<Rightarrow>
               let reply = NewReply (rpHeight cp) (rpRound cp) bi (rpSignatures cp)
               in case reply_ValidateBasic reply of Some e \<Rightarrow> Inl e | None \<Rightarrow> Inr reply))"

definition MaxReplyBytes :: "int \<Rightarrow> int" where
  "MaxReplyBytes valCount = 94 + (99 + 2) * valCount"

section \<open>Making and verifying\<close>

definition replySigFor :: "BlockID \<Rightarrow> Vote option \<Rightarrow> ReplySig option" where
  "replySigFor maj23 v =
     map_option (\<lambda>commitSig.
       if ForBlock commitSig \<and> \<not> bid_Equals (vBlockID (the v)) maj23 then NewCommitSigAbsent else commitSig) (vote_ReplySig v)"

definition MakeReply :: "VoteSet \<Rightarrow> Reply option" where
  "MakeReply vs =
     (if vtType vs \<noteq> CommitType then None
      else (case vtMaj23 vs of
              None \<Rightarrow> None
            | Some maj23 \<Rightarrow>
                map_option (NewReply (vtHeight vs) (vtRound vs) maj23) (those (map (replySigFor maj23) (vtVotes vs)))))"

fun addReplyVotes :: "env \<Rightarrow> Reply \<Rightarrow> nat \<Rightarrow> ReplySig list \<Rightarrow> VoteSet \<Rightarrow> VoteSet option" where
  "addReplyVotes E commit idx [] voteSet = Some voteSet"
| "addReplyVotes E commit idx (s # ss) voteSet =
     (if Absent s then addReplyVotes E commit (Suc idx) ss voteSet
      else Option.bind (reply_GetVote commit (int idx) (rsAddress s)) (\<lambda>vote.
           Option.bind (AddVote E (Some voteSet) (Some vote)) (\<lambda>(voteSet', added, err).
             if \<not> added \<or> err \<noteq> None then None else addReplyVotes E commit (Suc idx) ss voteSet')))"

definition ReplyToVoteSet :: "env \<Rightarrow> bytes \<Rightarrow> Reply \<Rightarrow> ValidatorSet \<Rightarrow> VoteSet option" where
  "ReplyToVoteSet E chainID commit vals =
     Option.bind (NewVoteSet chainID (rpHeight commit) (rpRound commit) CommitType vals)
       (addReplyVotes E commit 0 (rpSignatures commit))"

fun verifySigs :: "env \<Rightarrow> ValidatorSet \<Rightarrow> bytes \<Rightarrow> Reply \<Rightarrow> nat \<Rightarrow> ReplySig list \<Rightarrow> float64 \<Rightarrow> (reply_error + float64) option" where
  "verifySigs E vals chainID reply idx [] tallied = Some (Inr tallied)"
| "verifySigs E vals chainID reply idx (s # ss) tallied =
     (if Absent s then verifySigs E vals chainID reply (Suc idx) ss tallied
      else Option.bind (slice_get (vsValidators vals) (int idx)) (\<lambda>val.
           Option.bind (reply_VoteSignBytes E chainID reply (int idx)) (\<lambda>voteSignBytes.
           Option.bind (valPubKey val) (\<lambda>pk.
           Option.bind (pk_VerifySignature E pk voteSignBytes (rsSignature s)) (\<lambda>ok.
             if \<not> ok then Some (Inl (WrongSignature idx))
             else verifySigs E vals chainID reply (Suc idx) ss
               (if ForBlock s then f64_add tallied (valVotingPower val) else tallied))))))"

definition VerifyReply :: "env \<Rightarrow> ValidatorSet \<Rightarrow> bytes \<Rightarrow> BlockID \<Rightarrow> int \<Rightarrow> Reply \<Rightarrow> reply_error option option" where
  "VerifyReply E vals chainID blockID height reply =
     (if vals_Size vals \<noteq> int (length (rpSignatures reply)) then Some (Some ErrInvalidCommitSignatures)
      else if height \<noteq> rpHeight reply then Some (Some ErrInvalidCommitHeight)
      else if \<not> bid_Equals blockID (rpBlockID reply) then Some (Some VerifyWrongBlockID)
      else Option.bind (verifySigs E vals chainID reply 0 (rpSignatures reply) (Fin 0)) (\<lambda>res.
        (case res of
           Inl e \<Rightarrow> Some (Some e)
         | Inr tallied \<Rightarrow>
             if f64_le tallied (f64_div (f64_mul TotalVotingPower (Fin 2)) (Fin 3)) then Some (Some ErrNotEnoughVotingPowerSigned)
             else Some None)))"


section \<open>The votes behind a majority stay in the set\<close>

definition maj_cover :: "VoteSet \<Rightarrow> bool" where
  "maj_cover vs \<longleftrightarrow> (\<forall>b bv i. vtMaj23 vs = Some b \<and> vtByBlock vs (bid_Key b) = Some bv \<and> i < length (bvVotes bv) \<and> bvVotes bv ! i \<noteq> None \<longrightarrow>
     (\<exists>w. vtVotes vs ! i = Some w \<and> vBlockID w = b))"

lemma vt_inv_table_length: "vt_inv E vs \<Longrightarrow> vtByBlock vs k = Some bv \<Longrightarrow> length (bvVotes bv) = length (vtVotes vs)"
  unfolding vt_inv_def table_ok_def by (blast intro: covered_length)

lemma recordVote_cover:
  assumes inv: "vt_inv E vs" and cov: "maj_cover vs" and v: "valid_vote E (ctx_of vs) i v"
    and rec: "recordVote vs v (bid_Key (vBlockID v)) p = Some (vs1, c)"
  shows "maj_cover vs1 \<and> vtByBlock vs1 = vtByBlock vs \<and> vtMaj23 vs1 = vtMaj23 vs \<and> length (vtVotes vs1) = length (vtVotes vs) \<and>
    (vtMaj23 vs = Some (vBlockID v) \<longrightarrow> vtVotes vs1 ! i = Some v)"
proof -
  let ?k = "bid_Key (vBlockID v)"
  have i: "vIndex v = int i" "i < length (vtVotes vs)" using v inv by (auto simp: ctx_of_def vt_inv_def votes_ok_def)
  have lens: "length (bvVotes bv) = length (vtVotes vs)" if "vtByBlock vs k = Some bv" for k bv
    using vt_inv_table_length[OF inv that] .
  have key: "vBlockID v = b" if "vtMaj23 vs = Some b" "bid_Key b = ?k" for b
    using good_bid_Key_inj[of b "vBlockID v"] that inv v by (auto simp: vt_inv_def maj_ok_def ctx_of_def)
  show ?thesis
  proof (cases "vtVotes vs ! i")
    case None
    then have "vtVotes vs1 = (vtVotes vs)[i := Some v]" "vtByBlock vs1 = vtByBlock vs" "vtMaj23 vs1 = vtMaj23 vs"
      using rec i by (auto simp: recordVote_def slice_get_in slice_set_in bind_Some)
    then show ?thesis using cov None i(2) lens by (fastforce simp: maj_cover_def nth_update_iff)
  next
    case (Some e)
    have ne: "vBlockID e \<noteq> vBlockID v" using rec i Some by (auto simp: recordVote_def slice_get_in)
    show ?thesis
    proof (cases "\<exists>m. vtMaj23 vs = Some m \<and> bid_Key m = ?k")
      case True
      then have "vtVotes vs1 = (vtVotes vs)[i := Some v]" "vtByBlock vs1 = vtByBlock vs" "vtMaj23 vs1 = vtMaj23 vs"
        using rec i Some by (auto simp: recordVote_def slice_get_in slice_set_in bind_Some split: if_splits)
      moreover have "vtMaj23 vs = Some (vBlockID v)" using True key by auto
      ultimately show ?thesis using cov i(2) lens by (fastforce simp: maj_cover_def nth_update_iff)
    next
      case False
      then have "vs1 = vs" using rec i Some by (auto simp: recordVote_def slice_get_in split: if_splits option.splits)
      then show ?thesis using cov False by auto
    qed
  qed
qed

lemma tallyVote_cover:
  assumes cov: "maj_cover vs" and v: "vIndex v = int i" "vtMaj23 vs = Some (vBlockID v) \<longrightarrow> vtVotes vs ! i = Some v"
    and key: "\<And>b. vtMaj23 vs = Some b \<Longrightarrow> bid_Key b = bid_Key (vBlockID v) \<Longrightarrow> b = vBlockID v"
    and bv: "length (bvVotes bv) = length (vtVotes vs)" "vtByBlock vs (bid_Key (vBlockID v)) = Some bv \<or> (\<forall>x\<in>set (bvVotes bv). x = None)"
    and tally: "tallyVote vs bv v (bid_Key (vBlockID v)) p = Some vs2" and inv2: "vt_inv E vs2"
  shows "maj_cover vs2"
proof -
  let ?k = "bid_Key (vBlockID v)"
  obtain bv' where bv': "bv_addVerifiedVote bv v p = Some bv'" "vtByBlock vs2 = (vtByBlock vs)(?k \<mapsto> bv')"
    "vtVotes vs2 = vtVotes vs \<and> vtMaj23 vs2 = vtMaj23 vs \<or>
     vtMaj23 vs = None \<and> vtMaj23 vs2 = Some (vBlockID v) \<and> vtVotes vs2 = overlay (bvVotes bv') (vtVotes vs)"
    using tally by (auto simp: tallyVote_def Let_def split: option.splits if_splits)
  have votes': "bvVotes bv' = bvVotes bv \<or> bvVotes bv' = (bvVotes bv)[i := Some v]"
    using bv'(1) v(1) by (auto simp: bv_addVerifiedVote_def slice_get_def slice_set_def bind_Some split: option.splits if_splits)
  then have len': "length (bvVotes bv') = length (vtVotes vs)" using bv(1) by auto
  have same: "vBlockID w = vBlockID v" if "j < length (bvVotes bv')" "bvVotes bv' ! j = Some w" "vtMaj23 vs2 = Some (vBlockID v)" for j w
  proof -
    have t: "bv_inv E (ctx_of vs2) ?k bv'" using inv2 bv'(2) by (auto simp: vt_inv_def table_ok_def)
    then have "bid_Key (vBlockID w) = ?k" "good_bid (vBlockID w)"
      using that by (auto simp: bv_inv_def votes_ok_def ctx_of_def dest!: spec[of _ j]) (metis nth_mem)
    moreover have "good_bid (vBlockID v)" using inv2 that(3) by (auto simp: vt_inv_def maj_ok_def)
    ultimately show ?thesis using good_bid_Key_inj by blast
  qed
  show ?thesis
    unfolding maj_cover_def
  proof (intro allI impI, elim conjE)
    fix b tb j assume b: "vtMaj23 vs2 = Some b" "vtByBlock vs2 (bid_Key b) = Some tb" "j < length (bvVotes tb)" "bvVotes tb ! j \<noteq> None"
    show "\<exists>w. vtVotes vs2 ! j = Some w \<and> vBlockID w = b"
    proof (cases "vtMaj23 vs")
      case None
      then have *: "b = vBlockID v" "tb = bv'" "vtVotes vs2 = overlay (bvVotes bv') (vtVotes vs)" using b(1,2) bv' by auto
      then show ?thesis using b len' same[of j] by (auto simp: overlay_nth)
    next
      case (Some m)
      then have m: "m = b" "vtVotes vs2 = vtVotes vs" using bv'(3) b(1) by auto
      show ?thesis
      proof (cases "bid_Key b = ?k")
        case True
        then have bk: "b = vBlockID v" "tb = bv'" using key Some m b(2) bv'(2) by auto
        show ?thesis
        proof (cases "j = i")
          case True
          then show ?thesis using v(2) Some m bk by auto
        next
          case False
          then have old: "bvVotes bv ! j \<noteq> None" "j < length (bvVotes bv)" using votes' b(3,4) bk(2) by (auto simp: nth_update_iff)
          then have "vtByBlock vs ?k = Some bv" using bv(2) by (metis nth_mem)
          then show ?thesis using cov old Some m bk by (auto simp: maj_cover_def)
        qed
      next
        case False
        then show ?thesis using cov b(2-4) bv'(2) Some m by (auto simp: maj_cover_def)
      qed
    qed
  qed
qed

lemma addVerifiedVote_cover:
  assumes inv: "vt_inv E vs" and cov: "maj_cover vs" and v: "valid_vote E (ctx_of vs) i v"
    and add: "addVerifiedVote vs v (bid_Key (vBlockID v)) p = Some (vs', added, c)" and inv': "vt_inv E vs'"
  shows "maj_cover vs'"
proof -
  let ?k = "bid_Key (vBlockID v)"
  obtain vs1 c1 where rec: "recordVote vs v ?k p = Some (vs1, c1)" using add by (auto simp: addVerifiedVote_def split: option.splits)
  note c1 = recordVote_cover[OF inv cov v rec]
  have i: "vIndex v = int i" using v by (cases "ctx_of vs") simp
  have key: "b = vBlockID v" if "vtMaj23 vs1 = Some b" "bid_Key b = ?k" for b
    using good_bid_Key_inj[of b "vBlockID v"] that c1 inv v by (auto simp: vt_inv_def maj_ok_def ctx_of_def)
  have n: "length (vsValidators (vtVals vs1)) = length (vtVotes vs1)"
    using inv c1 rec by (auto simp: vt_inv_def votes_ok_def recordVote_def Let_def bind_Some split: option.splits if_splits)
  consider "vs' = vs1" | bv where "tallyVote vs1 bv v ?k p = Some vs'" "length (bvVotes bv) = length (vtVotes vs1)"
      "vtByBlock vs1 ?k = Some bv \<or> (\<forall>x\<in>set (bvVotes bv). x = None)"
  proof (cases "vtByBlock vs1 ?k")
    case None
    then show thesis
      using that(1) that(2)[of "newBlockVotes False (vals_Size (vtVals vs1))"] add rec n
      by (auto simp: addVerifiedVote_def newBlockVotes_def vals_Size_def split: if_splits)
  next
    case (Some bv)
    then have "length (bvVotes bv) = length (vtVotes vs1)"
      using vt_inv_table_length[OF inv] c1 by simp
    then show thesis using that(1) that(2)[of bv] add rec Some by (auto simp: addVerifiedVote_def split: if_splits)
  qed
  then show ?thesis
  proof cases
    case 1
    then show ?thesis using c1 by simp
  next
    case (2 bv)
    show ?thesis by (rule tallyVote_cover[OF _ i _ key 2(2,3,1) inv']) (use c1 in auto)
  qed
qed

lemma vt_reach_cover: "vt_reach E vs \<Longrightarrow> maj_cover vs"
proof (induction rule: vt_reach.induct)
  case (new c h r t vals vs)
  then show ?case by (auto simp: maj_cover_def NewVoteSet_def split: if_splits)
next
  case (add vs v vs' added err)
  have inv: "vt_inv E vs" "vt_inv E vs'" using vt_reach_inv add(1) vt_reach.add[OF add(1-3)] by blast+
  then show ?case using addVote_accept[OF add(3) inv(1) add(2)] addVerifiedVote_cover[OF inv(1) add(4)] add(4) by blast
next
  case (peer vs p b)
  have "vt_inv E vs" using vt_reach_inv[OF peer(1)] .
  then have "\<exists>bv. vtByBlock vs (bid_Key m) = Some bv" if "vtMaj23 vs = Some m" for m using that by (auto simp: vt_inv_def maj_ok_def)
  then show ?case using peer(2)
    by (fastforce simp: maj_cover_def SetPeerMaj23_def Let_def newBlockVotes_def split: option.splits if_splits)
qed


section \<open>Checking the signatures of a reply\<close>

definition sig_ok :: "env \<Rightarrow> ValidatorSet \<Rightarrow> bytes \<Rightarrow> Reply \<Rightarrow> nat \<Rightarrow> bool" where
  "sig_ok E vals chainID reply j \<longleftrightarrow> (\<exists>pk sb. valPubKey (vsValidators vals ! j) = Some pk \<and>
     reply_VoteSignBytes E chainID reply (int j) = Some sb \<and> pk_VerifySignature E pk sb (rsSignature (rpSignatures reply ! j)) = Some True)"

definition block_mask :: "ReplySig list \<Rightarrow> unit option list" where
  "block_mask sigs = map (\<lambda>s. if ForBlock s then Some () else None) sigs"

lemma length_block_mask [simp]: "length (block_mask sigs) = length sigs"
  by (simp add: block_mask_def)

lemma not_Absent_ForBlock: "ForBlock s \<Longrightarrow> \<not> Absent s"
  by (simp add: ForBlock_def Absent_def BlockIDFlagCommit_def BlockIDFlagAbsent_def)

lemma take_mask_step:
  assumes "idx < length xs"
  shows "take (Suc idx) xs @ replicate (length xs - Suc idx) None = (take idx xs @ replicate (length xs - idx) None)[idx := xs ! idx]"
proof -
  have rep: "replicate (length xs - idx) None = None # replicate (length xs - Suc idx) None"
    using assms by (metis Suc_diff_Suc replicate_Suc)
  show ?thesis unfolding rep using assms by (simp add: take_Suc_conv_app_nth list_update_append)
qed

lemma verifySigs_spec:
  assumes pw: "vals_shared_power vals" and n: "length (rpSignatures reply) = length (vsValidators vals)"
    and "idx \<le> length (rpSignatures reply)"
    and "tally_ok (powered vals) (take idx (block_mask (rpSignatures reply)) @ replicate (length (vsValidators vals) - idx) None) t"
  shows "((\<forall>j. idx \<le> j \<and> j < length (rpSignatures reply) \<and> \<not> Absent (rpSignatures reply ! j) \<longrightarrow> sig_ok E vals chainID reply j) \<longleftrightarrow>
      (\<exists>t'. verifySigs E vals chainID reply idx (drop idx (rpSignatures reply)) t = Some (Inr t'))) \<and>
    (\<forall>t'. verifySigs E vals chainID reply idx (drop idx (rpSignatures reply)) t = Some (Inr t') \<longrightarrow>
      tally_ok (powered vals) (block_mask (rpSignatures reply)) t')"
  using assms(3,4)
proof (induction "length (rpSignatures reply) - idx" arbitrary: idx t)
  case 0
  then show ?case using n by auto
next
  case (Suc m)
  let ?sigs = "rpSignatures reply" and ?n = "length (vsValidators vals)" and ?P = "powered vals"
  let ?s = "?sigs ! idx" and ?pad = "\<lambda>i. take i (block_mask ?sigs) @ replicate (?n - i) None"
  let ?t = "if ForBlock ?s then f64_add t (valVotingPower (vsValidators vals ! idx)) else t"
  have lt: "idx < length ?sigs" and m': "m = length ?sigs - Suc idx" using Suc(2) by simp_all
  have step: "drop idx ?sigs = ?s # drop (Suc idx) ?sigs" using lt by (rule Cons_nth_drop_Suc[symmetric])
  have pad: "?pad (Suc idx) = (?pad idx)[idx := block_mask ?sigs ! idx]"
    using take_mask_step[of idx "block_mask ?sigs"] lt n by simp
  have m: "block_mask ?sigs ! idx = (if ForBlock ?s then Some () else None)" using lt by (simp add: block_mask_def)
  have hole: "?pad idx ! idx = None" "length (?pad idx) = ?n" "idx < ?n" using lt n by (simp_all add: nth_append)
  have tal: "tally_ok ?P (?pad (Suc idx)) ?t"
  proof (cases "ForBlock ?s")
    case True
    then show ?thesis
      using tally_ok_add(1)[OF vals_shared_power_size(1,2)[OF pw] Suc(4) _ hole(1) vals_shared_power_size(5)[OF pw hole(3)]] hole(2,3)
      by (simp add: pad m)
  next
    case False
    then have "?pad (Suc idx) = ?pad idx" using hole(1) unfolding pad m by (metis list_update_id)
    then show ?thesis using Suc(4) False by simp
  qed
  have get: "slice_get (vsValidators vals) (int idx) = Some (vsValidators vals ! idx)" using hole(3) by (simp add: slice_get_in)
  have run_abs: "verifySigs E vals chainID reply idx (drop idx ?sigs) t = verifySigs E vals chainID reply (Suc idx) (drop (Suc idx) ?sigs) ?t"
    if "Absent ?s" using that not_Absent_ForBlock by (subst step) auto
  have run_ok: "verifySigs E vals chainID reply idx (drop idx ?sigs) t = verifySigs E vals chainID reply (Suc idx) (drop (Suc idx) ?sigs) ?t"
    if "\<not> Absent ?s" "sig_ok E vals chainID reply idx" using that by (subst step) (auto simp: get sig_ok_def)
  have bad: "verifySigs E vals chainID reply idx (drop idx ?sigs) t \<noteq> Some (Inr t')" if "\<not> Absent ?s" "\<not> sig_ok E vals chainID reply idx" for t'
    using that by (subst step) (auto simp: get sig_ok_def bind_Some split: if_splits)
  note IH = Suc(1)[OF m' Suc_leI[OF lt] tal]
  have split: "(\<forall>j. idx \<le> j \<and> j < length ?sigs \<and> \<not> Absent (?sigs ! j) \<longrightarrow> sig_ok E vals chainID reply j) \<longleftrightarrow>
      (Absent ?s \<or> sig_ok E vals chainID reply idx) \<and>
      (\<forall>j. Suc idx \<le> j \<and> j < length ?sigs \<and> \<not> Absent (?sigs ! j) \<longrightarrow> sig_ok E vals chainID reply j)"
    using lt by (metis Suc_leD Suc_leI le_eq_less_or_eq order_refl)
  show ?case
  proof (cases "Absent ?s \<or> sig_ok E vals chainID reply idx")
    case True
    then have "verifySigs E vals chainID reply idx (drop idx ?sigs) t = verifySigs E vals chainID reply (Suc idx) (drop (Suc idx) ?sigs) ?t"
      using run_abs run_ok by blast
    then show ?thesis unfolding split using IH True by simp
  next
    case False
    then show ?thesis unfolding split using bad by blast
  qed
qed

lemma VerifyReply_ok:
  assumes pw: "vals_shared_power vals"
  shows "VerifyReply E vals chainID blockID height reply = Some None \<longleftrightarrow>
    length (rpSignatures reply) = length (vsValidators vals) \<and> height = rpHeight reply \<and> blockID = rpBlockID reply \<and>
    (\<forall>j<length (rpSignatures reply). \<not> Absent (rpSignatures reply ! j) \<longrightarrow> sig_ok E vals chainID reply j) \<and>
    (\<exists>t. verifySigs E vals chainID reply 0 (rpSignatures reply) (Fin 0) = Some (Inr t) \<and>
       \<not> f64_le t (f64_div (f64_mul TotalVotingPower (Fin 2)) (Fin 3)))"
proof (cases "length (rpSignatures reply) = length (vsValidators vals)")
  case True
  have "tally_ok (powered vals) (take 0 (block_mask (rpSignatures reply)) @ replicate (length (vsValidators vals) - 0) None) (Fin 0)"
    using tally_ok_empty[of "powered vals" "length (vsValidators vals)", where ?'a = unit] by simp
  from verifySigs_spec[OF pw True _ this, of E chainID]
  have all: "(\<forall>j<length (rpSignatures reply). \<not> Absent (rpSignatures reply ! j) \<longrightarrow> sig_ok E vals chainID reply j) \<longleftrightarrow>
      (\<exists>t. verifySigs E vals chainID reply 0 (rpSignatures reply) (Fin 0) = Some (Inr t))" by auto
  have "VerifyReply E vals chainID blockID height reply = Some None \<longleftrightarrow> height = rpHeight reply \<and> blockID = rpBlockID reply \<and>
      (\<exists>t. verifySigs E vals chainID reply 0 (rpSignatures reply) (Fin 0) = Some (Inr t) \<and>
         \<not> f64_le t (f64_div (f64_mul TotalVotingPower (Fin 2)) (Fin 3)))"
    using True by (cases "verifySigs E vals chainID reply 0 (rpSignatures reply) (Fin 0)")
      (simp_all add: VerifyReply_def vals_Size_def split: sum.split)
  then show ?thesis unfolding all using True by blast
qed (auto simp: VerifyReply_def vals_Size_def)

lemma verified_count:
  assumes pw: "vals_shared_power vals" and n: "length (rpSignatures reply) = length (vsValidators vals)"
    and run: "verifySigs E vals chainID reply 0 (rpSignatures reply) (Fin 0) = Some (Inr t)"
  shows "tally_ok (powered vals) (block_mask (rpSignatures reply)) t"
  using verifySigs_spec[OF pw n, of 0 "Fin 0" E chainID] run
    tally_ok_empty[of "powered vals" "length (vsValidators vals)", where ?'a = unit] by simp

lemma block_mask_count: "count_in P (block_mask sigs) = card {j\<in>P. j < length sigs \<and> ForBlock (sigs ! j)}"
  unfolding count_in_def by (rule arg_cong[of _ _ card], rule Collect_cong) (auto simp: block_mask_def split: if_splits)

text \<open>A signature for the block: the key of validator \<open>j\<close> verifies a vote for it, of that height and round.\<close>

definition signers :: "env \<Rightarrow> ValidatorSet \<Rightarrow> bytes \<Rightarrow> int \<Rightarrow> int \<Rightarrow> BlockID \<Rightarrow> nat set" where
  "signers E vals chainID height r b = {j. j < length (vsValidators vals) \<and> (\<exists>v pk sb sig.
     vType v = CommitType \<and> vHeight v = height \<and> vRound v = r \<and> vBlockID v = b \<and> VoteSignBytes E chainID v = Some sb \<and>
     valPubKey (vsValidators vals ! j) = Some pk \<and> pk_VerifySignature E pk sb sig = Some True)}"

lemma sig_ok_signer:
  assumes "sig_ok E vals chainID reply j" "ForBlock (rpSignatures reply ! j)" "j < length (vsValidators vals)" "j < length (rpSignatures reply)"
  shows "j \<in> signers E vals chainID (rpHeight reply) (rpRound reply) (rpBlockID reply)"
proof -
  obtain pk sb where s: "valPubKey (vsValidators vals ! j) = Some pk" "reply_VoteSignBytes E chainID reply (int j) = Some sb"
    "pk_VerifySignature E pk sb (rsSignature (rpSignatures reply ! j)) = Some True"
    using assms(1) by (auto simp: sig_ok_def)
  then obtain v where v: "reply_GetVote reply (int j) [] = Some v" "VoteSignBytes E chainID v = Some sb"
    by (auto simp: reply_VoteSignBytes_def bind_Some)
  then have "vType v = CommitType \<and> vHeight v = rpHeight reply \<and> vRound v = rpRound reply \<and> vBlockID v = rpBlockID reply"
    using assms(2,4) by (auto simp: reply_GetVote_def slice_get_in rs_BlockID_def ForBlock_def BlockIDFlagCommit_def BlockIDFlagAbsent_def)
  then show ?thesis using s v assms(3) unfolding signers_def by blast
qed

lemma VerifyReply_signers:
  assumes pw: "vals_shared_power vals" and ok: "VerifyReply E vals chainID blockID height reply = Some None"
  shows "2 * card (powered vals) \<le> 3 * card (signers E vals chainID height (rpRound reply) blockID \<inter> powered vals)"
proof -
  let ?sigs = "rpSignatures reply" and ?n = "length (vsValidators vals)"
  obtain t where t: "length ?sigs = ?n" "height = rpHeight reply" "blockID = rpBlockID reply"
    "\<forall>j<length ?sigs. \<not> Absent (?sigs ! j) \<longrightarrow> sig_ok E vals chainID reply j"
    "verifySigs E vals chainID reply 0 ?sigs (Fin 0) = Some (Inr t)" "\<not> f64_le t (f64_div (f64_mul TotalVotingPower (Fin 2)) (Fin 3))"
    using ok unfolding VerifyReply_ok[OF pw] by blast
  have "2 * card (powered vals) \<le> 3 * count_in (powered vals) (block_mask ?sigs)"
    by (rule tally_exceeds_third(1)[OF vals_shared_power_size(1,2)[OF pw] verified_count[OF pw t(1,5)] t(6)])
  moreover have "count_in (powered vals) (block_mask ?sigs) \<le> card (signers E vals chainID height (rpRound reply) blockID \<inter> powered vals)"
    unfolding block_mask_count
  proof (rule card_mono)
    show "finite (signers E vals chainID height (rpRound reply) blockID \<inter> powered vals)" by simp
    show "{j\<in>powered vals. j < length ?sigs \<and> ForBlock (?sigs ! j)} \<subseteq> signers E vals chainID height (rpRound reply) blockID \<inter> powered vals"
      using t(1-4) sig_ok_signer[of E vals chainID reply] not_Absent_ForBlock by auto
  qed
  ultimately show ?thesis by simp
qed


section \<open>The reply made from a vote set\<close>

definition sigAt :: "BlockID \<Rightarrow> Vote option \<Rightarrow> ReplySig" where
  "sigAt b v = (case v of None \<Rightarrow> NewCommitSigAbsent | Some w \<Rightarrow>
     if bid_IsZero (vBlockID w) then \<lparr>rsFlag = BlockIDFlagNil, rsAddress = vAddress w, rsTimestamp = vTimestamp w, rsSignature = vSignature w\<rparr>
     else if vBlockID w = b then \<lparr>rsFlag = BlockIDFlagCommit, rsAddress = vAddress w, rsTimestamp = vTimestamp w, rsSignature = vSignature w\<rparr>
     else NewCommitSigAbsent)"

lemma replySigFor_sigAt: "(\<And>w. v = Some w \<Longrightarrow> good_bid (vBlockID w)) \<Longrightarrow> replySigFor b v = Some (sigAt b v)"
  using bid_complete_not_zero
  by (cases v) (auto simp: replySigFor_def vote_ReplySig_def sigAt_def good_bid_def ForBlock_def NewCommitSigAbsent_def
      BlockIDFlagCommit_def BlockIDFlagNil_def BlockIDFlagAbsent_def)

lemma MakeReply_eq:
  assumes inv: "vt_inv E vs" and "vtType vs = CommitType" "vtMaj23 vs = Some b"
  shows "MakeReply vs = Some (NewReply (vtHeight vs) (vtRound vs) b (map (sigAt b) (vtVotes vs)))"
proof -
  have "good_bid (vBlockID w)" if "Some w \<in> set (vtVotes vs)" for w
    using inv that by (auto simp: vt_inv_def votes_ok_def in_set_conv_nth ctx_of_def)
  then have "those (map (replySigFor b) (vtVotes vs)) = Some (map (sigAt b) (vtVotes vs))"
    by (intro those_map_Some replySigFor_sigAt) auto
  then show ?thesis using assms(2,3) by (simp add: MakeReply_def)
qed

lemma MakeReply_sig_ok:
  assumes inv: "vt_inv E vs" and ctype: "vtType vs = CommitType" and j: "j < length (vtVotes vs)" and abs: "\<not> Absent (sigAt b (vtVotes vs ! j))"
  shows "sig_ok E (vtVals vs) (vtChainID vs) (NewReply (vtHeight vs) (vtRound vs) b (map (sigAt b) (vtVotes vs))) j"
proof -
  obtain w where w: "vtVotes vs ! j = Some w" using abs by (cases "vtVotes vs ! j") (auto simp: sigAt_def Absent_def NewCommitSigAbsent_def)
  have valid: "valid_vote E (ctx_of vs) j w" using inv j w by (auto simp: vt_inv_def votes_ok_def dest: spec[of _ j])
  then obtain pk where pk: "valPubKey (vsValidators (vtVals vs) ! j) = Some pk" "vote_Verify E (vtChainID vs) pk w = Some None"
    by (auto simp: ctx_of_def)
  then obtain sb where sb: "VoteSignBytes E (vtChainID vs) w = Some sb" "pk_VerifySignature E pk sb (vSignature w) = Some True"
    by (auto simp: vote_Verify_def split: if_splits option.splits)
  let ?r = "NewReply (vtHeight vs) (vtRound vs) b (map (sigAt b) (vtVotes vs))"
  have "reply_GetVote ?r (int j) [] = Some w"
    using abs w j valid ctype
    by (auto simp: reply_GetVote_def NewReply_def slice_get_in sigAt_def rs_BlockID_def Absent_def NewCommitSigAbsent_def ctx_of_def bid_IsZero_iff
        BlockIDFlagCommit_def BlockIDFlagNil_def BlockIDFlagAbsent_def split: if_splits)
  then show ?thesis using pk sb abs w j by (auto simp: sig_ok_def reply_VoteSignBytes_def NewReply_def sigAt_def Absent_def NewCommitSigAbsent_def)
qed

lemma MakeReply_verified:
  assumes reach: "vt_reach E vs" and ctype: "vtType vs = CommitType" and maj: "vtMaj23 vs = Some b" and nz: "\<not> bid_IsZero b"
  shows "\<exists>r. MakeReply vs = Some r \<and> VerifyReply E (vtVals vs) (vtChainID vs) b (vtHeight vs) r = Some None"
proof -
  let ?r = "NewReply (vtHeight vs) (vtRound vs) b (map (sigAt b) (vtVotes vs))" and ?n = "length (vsValidators (vtVals vs))" and ?P = "powered (vtVals vs)"
  have inv: "vt_inv E vs" using vt_reach_inv[OF reach] .
  then have pw: "vals_shared_power (vtVals vs)" and len: "length (rpSignatures ?r) = ?n" and n: "length (vtVotes vs) = ?n"
    by (simp_all add: vt_inv_def votes_ok_def NewReply_def)
  have sigs: "\<forall>j<length (rpSignatures ?r). \<not> Absent (rpSignatures ?r ! j) \<longrightarrow> sig_ok E (vtVals vs) (vtChainID vs) ?r j"
    using MakeReply_sig_ok[OF inv ctype] by (simp add: NewReply_def)
  obtain bv where bv: "vtByBlock vs (bid_Key b) = Some bv" "f64_le quorum (bvSum bv)"
    using inv maj by (auto simp: vt_inv_def maj_ok_def)
  have tab: "tally_ok ?P (bvVotes bv) (bvSum bv)" "length (bvVotes bv) = ?n"
    using inv bv(1) vt_inv_table_length[OF inv bv(1)] n by (auto simp: vt_inv_def table_ok_def bv_inv_def)
  have "76 * card ?P \<le> 100 * count_in ?P (bvVotes bv)"
    by (rule tally_reaches_quorum(1)[OF vals_shared_power_size(1,2)[OF pw] tab(1) bv(2)])
  moreover have "count_in ?P (bvVotes bv) \<le> count_in ?P (block_mask (rpSignatures ?r))"
    unfolding count_in_def
  proof (rule card_mono)
    show "{i\<in>?P. i < length (bvVotes bv) \<and> bvVotes bv ! i \<noteq> None} \<subseteq> {i\<in>?P. i < length (block_mask (rpSignatures ?r)) \<and> block_mask (rpSignatures ?r) ! i \<noteq> None}"
      using vt_reach_cover[OF reach] maj bv(1) tab(2) n nz
      by (fastforce simp: maj_cover_def NewReply_def block_mask_def sigAt_def ForBlock_def)
  qed simp
  ultimately have many: "67 * card ?P \<le> 100 * count_in ?P (block_mask (rpSignatures ?r))" by linarith
  have start: "tally_ok ?P (take 0 (block_mask (rpSignatures ?r)) @ replicate (?n - 0) None) (Fin 0)"
    using tally_ok_empty[of ?P ?n, where ?'a = unit] by simp
  obtain t where t: "verifySigs E (vtVals vs) (vtChainID vs) ?r 0 (rpSignatures ?r) (Fin 0) = Some (Inr t)"
    using verifySigs_spec[OF pw len _ start, of E "vtChainID vs"] sigs by auto
  have "\<not> f64_le t (f64_div (f64_mul TotalVotingPower (Fin 2)) (Fin 3))"
    by (rule tally_exceeds_third(2)[OF vals_shared_power_size(1,2)[OF pw] verified_count[OF pw len t] many])
  moreover have "rpHeight ?r = vtHeight vs" "rpBlockID ?r = b" by (simp_all add: NewReply_def)
  ultimately have "VerifyReply E (vtVals vs) (vtChainID vs) b (vtHeight vs) ?r = Some None"
    unfolding VerifyReply_ok[OF pw] using len sigs t by auto
  then show ?thesis using MakeReply_eq[OF inv ctype maj] by auto
qed


section \<open>Properties\<close>

text \<open>Property C20: the reply made from a commit vote set that has a majority for a block passes \<open>VerifyReply\<close> for that
  block, height and validator set, so the certificate a node puts in the next block is accepted by the others. The
  validators that have power share the total equally; others may have power zero.\<close>

theorem MakeReply_verifies:
  assumes "vt_reach E vs" and "vtType vs = CommitType" and "TwoThirdsMajority (Some vs) = (b, True)" and "\<not> bid_IsZero b"
  shows "\<exists>r. MakeReply vs = Some r \<and> VerifyReply E (vtVals vs) (vtChainID vs) b (vtHeight vs) r = Some None"
  using MakeReply_verified[OF assms(1,2) _ assms(4)] assms(3) by (simp add: TwoThirdsMajority_iff)

theorem MakeReply_verifies_witness:
  "\<exists>vs r. MakeReply vs = Some r \<and> VerifyReply sample_env (equal_vals 4) [1] sample_bid 3 r = Some None"
proof -
  obtain vs where vs: "vt_reach sample_env vs" "ctx_of vs = ctx_of sample_set" "TwoThirdsMajority (Some vs) = (sample_bid, True)"
    using sample_reach(1) by blast
  then have f: "vtVals vs = equal_vals 4" "vtChainID vs = [1]" "vtHeight vs = 3" "vtType vs = CommitType"
    by (auto simp: ctx_of_def sample_set_def NewVoteSet_def)
  have "\<not> bid_IsZero sample_bid" by code_simp
  then show ?thesis using MakeReply_verifies[OF vs(1) f(4) vs(3)] f by auto
qed

text \<open>Property C21: two replies that \<open>VerifyReply\<close> accepts under one validator set, for one height and round and for different
  blocks, prove that at least a third of the validators with voting power signed commits for both blocks. The validators with
  power, of at most ten thousand in all, share the total of ten equally; the others have power zero.\<close>

theorem verified_replies_intersect:
  assumes "vals_shared_power vals"
    and "VerifyReply E vals chainID b1 height r1 = Some None" "VerifyReply E vals chainID b2 height r2 = Some None"
    and "rpRound r1 = rpRound r2" and "b1 \<noteq> b2"
  shows "card (powered vals) \<le>
    3 * card (signers E vals chainID height (rpRound r1) b1 \<inter> signers E vals chainID height (rpRound r1) b2 \<inter> powered vals)"
proof -
  let ?P = "powered vals"
  let ?A = "signers E vals chainID height (rpRound r1) b1" and ?B = "signers E vals chainID height (rpRound r1) b2"
  have "card (?A \<inter> ?P) + card (?B \<inter> ?P) \<le> card ?P + card ((?A \<inter> ?P) \<inter> (?B \<inter> ?P))" by (rule card_inter_ge) auto
  moreover have "(?A \<inter> ?P) \<inter> (?B \<inter> ?P) = ?A \<inter> ?B \<inter> ?P" by blast
  ultimately show ?thesis
    using VerifyReply_signers[OF assms(1,2)] VerifyReply_signers[OF assms(1,3)] assms(4) by simp
qed

definition sample_bid2 :: BlockID where
  "sample_bid2 = sample_bid\<lparr>bidHash := replicate 32 9\<rparr>"

lemma sample_reply:
  assumes "VoteSignBytes sample_env [1] (unsigned_vote b 0) \<noteq> None" "good_bid b" "bid_ValidateBasic b" "\<not> bid_IsZero b"
  shows "\<exists>r. VerifyReply sample_env (equal_vals 4) [1] b 3 r = Some None \<and> rpRound r = 0"
proof -
  obtain vs where vs: "vtMaj23 vs = Some b" "vt_reach sample_env vs" "ctx_of vs = ctx_of sample_set"
    using enough_votes[OF sample_set_new sample_votes_for[OF assms(1-3)]] unfolding sample_votes_powered by (auto simp: equal_vals_shared(2))
  then have f: "vtVals vs = equal_vals 4" "vtChainID vs = [1]" "vtHeight vs = 3" "vtType vs = CommitType" "vtRound vs = 0"
    by (auto simp: ctx_of_def sample_set_def NewVoteSet_def)
  obtain r where "MakeReply vs = Some r" "VerifyReply sample_env (equal_vals 4) [1] b 3 r = Some None"
    using MakeReply_verified[OF vs(2) f(4) vs(1) assms(4)] f by auto
  moreover have "rpRound r = 0" using MakeReply_eq[OF vt_reach_inv[OF vs(2)] f(4) vs(1)] calculation(1) f(5) by (simp add: NewReply_def)
  ultimately show ?thesis by blast
qed

lemma sample_bid2_facts:
  "VoteSignBytes sample_env [1] (unsigned_vote sample_bid2 0) \<noteq> None" "good_bid sample_bid2" "bid_ValidateBasic sample_bid2"
  "\<not> bid_IsZero sample_bid2" "\<not> bid_IsZero sample_bid" "sample_bid \<noteq> sample_bid2"
  by code_simp+

theorem verified_replies_intersect_witness:
  "card (powered (equal_vals 4)) \<le> 3 * card (signers sample_env (equal_vals 4) [1] 3 0 sample_bid \<inter>
    signers sample_env (equal_vals 4) [1] 3 0 sample_bid2 \<inter> powered (equal_vals 4))"
proof -
  obtain r1 where r1: "VerifyReply sample_env (equal_vals 4) [1] sample_bid 3 r1 = Some None" "rpRound r1 = 0"
    using sample_reply[OF sample_sign_bytes(1,3,5) sample_bid2_facts(5)] by blast
  obtain r2 where r2: "VerifyReply sample_env (equal_vals 4) [1] sample_bid2 3 r2 = Some None" "rpRound r2 = 0"
    using sample_reply[OF sample_bid2_facts(1-4)] by blast
  show ?thesis using verified_replies_intersect[OF sample_set_new(2) r1(1) r2(1) _ sample_bid2_facts(6)] r1 r2 by simp
qed

end
