(* ===== verification/PartSets.thy ===== *)
theory PartSets
  imports Canonical BitArrays
begin

text \<open>
  \<open>types/part_set.go\<close>: a block is sent in parts of a fixed size, each with a Merkle proof against the root
  in the part set header. \<open>uint32\<close> values are non-negative integers with the wrap-around written out
  (\<open>u32\<close>). The mutex serialises the operations, so each is a function of the whole set; the hash
  function is a parameter. \<open>None\<close> is a panic.
\<close>

definition u32 :: "int \<Rightarrow> int" where "u32 x = x mod 2 ^ 32"

definition BlockPartSizeBytes :: int where "BlockPartSizeBytes = 65536"

section \<open>Data and operations\<close>

record Part =
  partIndex :: int
  partBytes :: bytes
  partProof :: Proof

datatype part_error = PartTooBig | PartWrongProof proof_error | ErrPartSetUnexpectedIndex | ErrPartSetInvalidProof

definition part_ValidateBasic :: "Part \<Rightarrow> part_error option" where
  "part_ValidateBasic part =
     (if BlockPartSizeBytes < int (length (partBytes part)) then Some PartTooBig
      else map_option PartWrongProof (proof_ValidateBasic (partProof part)))"

record PartSet =
  setTotal :: int
  setHash :: bytes
  setParts :: "Part option list"
  setBitArray :: "BitArray option"
  setCount :: int
  setByteSize :: int

text \<open>\<open>data[lo:hi]\<close> panics unless \<open>0 \<le> lo \<le> hi\<close>; the upper bounds used here never exceed the length.\<close>

definition slice_range :: "'a list \<Rightarrow> int \<Rightarrow> int \<Rightarrow> 'a list option" where
  "slice_range xs lo hi =
     (if 0 \<le> lo \<and> lo \<le> hi \<and> hi \<le> int (length xs) then Some (take (nat (hi - lo)) (drop (nat lo) xs)) else None)"

definition partRange :: "bytes \<Rightarrow> int \<Rightarrow> nat \<Rightarrow> bytes option" where
  "partRange data partSize i =
     slice_range data (u32 (int i * partSize)) (min (int (length data)) (u32 ((int i + 1) * partSize)))"

text \<open>The loop that marks every index of the bit array.\<close>

fun markAll :: "nat list \<Rightarrow> BitArray option \<Rightarrow> BitArray option option" where
  "markAll [] ba = Some ba"
| "markAll (i # is) ba = Option.bind (SetIndex ba (int i) True) (\<lambda>(_, ba'). markAll is ba')"

definition NewPartSetFromData :: "(bytes \<Rightarrow> bytes) \<Rightarrow> bytes \<Rightarrow> int \<Rightarrow> PartSet option" where
  "NewPartSetFromData H data partSize =
     (if partSize = 0 then None
      else
        let tot = u32 (u32 (u32 (int (length data)) + partSize) - 1) div partSize
        in Option.bind (those (map (partRange data partSize) [0..<nat tot])) (\<lambda>partsBytes.
           Option.bind (markAll [0..<nat tot] (NewBitArray tot)) (\<lambda>partsBitArray.
           Option.bind (ProofsFromByteSlices H partsBytes) (\<lambda>(rootHash, proofs).
             Some \<lparr>setTotal = tot, setHash = rootHash,
               setParts = map (\<lambda>i. Some \<lparr>partIndex = int i, partBytes = partsBytes ! i, partProof = proofs ! i\<rparr>) [0..<nat tot],
               setBitArray = partsBitArray, setCount = tot, setByteSize = int (length data)\<rparr>))))"

definition NewPartSetFromHeader :: "PartSetHeader \<Rightarrow> PartSet" where
  "NewPartSetFromHeader header =
     \<lparr>setTotal = psTotal header, setHash = psHash header, setParts = replicate (nat (psTotal header)) None,
      setBitArray = NewBitArray (psTotal header), setCount = 0, setByteSize = 0\<rparr>"

definition ps_Header :: "PartSet option \<Rightarrow> PartSetHeader" where
  "ps_Header ps = (case ps of None \<Rightarrow> zero_psh | Some ps \<Rightarrow> \<lparr>psTotal = setTotal ps, psHash = setHash ps\<rparr>)"

definition HeaderEqualsTo :: "PartSet option \<Rightarrow> PartSetHeader \<Rightarrow> bool" where
  "HeaderEqualsTo ps header = (case ps of None \<Rightarrow> False | Some _ \<Rightarrow> psh_Equals (ps_Header ps) header)"

definition ps_BitArray :: "PartSet \<Rightarrow> BitArray option" where
  "ps_BitArray ps = ba_Copy (setBitArray ps)"

definition ps_Hash :: "(bytes \<Rightarrow> bytes) \<Rightarrow> PartSet option \<Rightarrow> bytes" where
  "ps_Hash H ps = (case ps of None \<Rightarrow> HashFromByteSlices H [] | Some ps \<Rightarrow> setHash ps)"

definition HashesTo :: "PartSet option \<Rightarrow> bytes \<Rightarrow> bool" where
  "HashesTo ps hash = (case ps of None \<Rightarrow> False | Some ps \<Rightarrow> setHash ps = hash)"

definition ps_Count :: "PartSet option \<Rightarrow> int" where
  "ps_Count ps = (case ps of None \<Rightarrow> 0 | Some ps \<Rightarrow> setCount ps)"

definition ps_ByteSize :: "PartSet option \<Rightarrow> int" where
  "ps_ByteSize ps = (case ps of None \<Rightarrow> 0 | Some ps \<Rightarrow> setByteSize ps)"

definition ps_Total :: "PartSet option \<Rightarrow> int" where
  "ps_Total ps = (case ps of None \<Rightarrow> 0 | Some ps \<Rightarrow> setTotal ps)"

definition AddPart :: "(bytes \<Rightarrow> bytes) \<Rightarrow> PartSet option \<Rightarrow> Part \<Rightarrow> (PartSet option \<times> bool \<times> part_error option) option" where
  "AddPart H nps part =
     (case nps of
        None \<Rightarrow> Some (None, False, None)
      | Some ps \<Rightarrow>
          if setTotal ps \<le> partIndex part then Some (nps, False, Some ErrPartSetUnexpectedIndex)
          else Option.bind (slice_get (setParts ps) (partIndex part)) (\<lambda>old.
            if old \<noteq> None then Some (nps, False, None)
            else if proof_Verify H (partProof part) (ps_Hash H nps) (partBytes part) \<noteq> None
            then Some (nps, False, Some ErrPartSetInvalidProof)
            else Option.bind (slice_set (setParts ps) (partIndex part) (Some part)) (\<lambda>parts.
                 Option.bind (SetIndex (setBitArray ps) (partIndex part) True) (\<lambda>(_, bits).
                   Some (Some (ps\<lparr>setParts := parts, setBitArray := bits, setCount := u32 (setCount ps + 1),
                     setByteSize := add64 (setByteSize ps) (int (length (partBytes part)))\<rparr>), True, None)))))"

definition GetPart :: "PartSet \<Rightarrow> int \<Rightarrow> Part option option" where
  "GetPart ps index = slice_get (setParts ps) index"

definition ps_IsComplete :: "PartSet \<Rightarrow> bool" where
  "ps_IsComplete ps \<longleftrightarrow> setCount ps = setTotal ps"

subsection \<open>The reader\<close>

record PartSetReader =
  rdI :: int
  rdParts :: "Part option list"
  rdReader :: bytes

definition NewPartSetReader :: "Part option list \<Rightarrow> PartSetReader option" where
  "NewPartSetReader parts =
     Option.bind (slice_get parts 0) (map_option (\<lambda>p. \<lparr>rdI = 0, rdParts = parts, rdReader = partBytes p\<rparr>))"

definition GetReader :: "PartSet \<Rightarrow> PartSetReader option" where
  "GetReader ps = (if \<not> ps_IsComplete ps then None else NewPartSetReader (setParts ps))"

text \<open>\<open>Read\<close> into a buffer of \<open>k\<close> bytes: the bytes read and whether the error is \<open>io.EOF\<close>. \<open>bytes.Reader\<close> returns
  EOF when nothing is left, whatever the size of the buffer. The first of the two recursive calls of the middle
  branch asks for exactly the unread bytes, so it is its base case, written out. The index passes
  the number of parts by at most one per call at the end of the data, so its increment does not wrap.\<close>

function psr_Read :: "PartSetReader \<Rightarrow> nat \<Rightarrow> (PartSetReader \<times> bytes \<times> bool) option" where
  "psr_Read r k =
     (let rest = rdReader r in
      if k \<le> length rest then Some (r\<lparr>rdReader := drop k rest\<rparr>, take k rest, rest = [])
      else if 0 < length rest
      then map_option (\<lambda>(r', bz, eof). (r', rest @ bz, eof)) (psr_Read (r\<lparr>rdReader := []\<rparr>) (k - length rest))
      else let i = rdI r + 1 in
           if int (length (rdParts r)) \<le> i then Some (r\<lparr>rdI := i\<rparr>, [], True)
           else Option.bind (slice_get (rdParts r) i) (\<lambda>p.
                Option.bind p (\<lambda>p. psr_Read (r\<lparr>rdI := i, rdReader := partBytes p\<rparr>) k)))"
  by pat_completeness auto
termination
  by (relation "measures [\<lambda>(r, k). nat (int (length (rdParts r)) - rdI r), \<lambda>(r, k). length (rdReader r)]") auto

declare psr_Read.simps [simp del]

text \<open>\<open>io.ReadAll\<close>: read into buffers of the given sizes until EOF; \<open>None\<close> when the sizes run out.\<close>

fun ReadAll :: "PartSetReader \<Rightarrow> nat list \<Rightarrow> bytes option" where
  "ReadAll r [] = None"
| "ReadAll r (k # ks) =
     Option.bind (psr_Read r k) (\<lambda>(r', bz, eof). if eof then Some bz else map_option ((@) bz) (ReadAll r' ks))"


section \<open>Cutting the data into parts\<close>

definition piece :: "bytes \<Rightarrow> nat \<Rightarrow> nat \<Rightarrow> bytes" where
  "piece data p i = take p (drop (i * p) data)"

definition pieces :: "bytes \<Rightarrow> nat \<Rightarrow> bytes list" where
  "pieces data p = map (piece data p) [0..<(length data + p - 1) div p]"

lemma concat_pieces_take: "concat (map (piece data p) [0..<n]) = take (n * p) data"
  by (induction n) (simp_all add: piece_def take_add[symmetric] add.commute)

lemma concat_pieces: "0 < p \<Longrightarrow> concat (pieces data p) = data"
proof -
  assume p: "0 < p"
  have "length data \<le> (length data + p - 1) div p * p"
    using p div_mult_mod_eq[of "length data + p - 1" p] mod_less_divisor[OF p, of "length data + p - 1"] by linarith
  then show ?thesis by (simp add: pieces_def concat_pieces_take)
qed

lemma u32_small: "0 \<le> x \<Longrightarrow> x < 4294967296 \<Longrightarrow> u32 x = x"
  by (simp add: u32_def)

lemma piece_index: "0 < p \<Longrightarrow> i < (length data + p - 1) div p \<Longrightarrow> i * p < length (data :: bytes)"
proof -
  assume p: "0 < p" and "i < (length data + p - 1) div p"
  then have "(i + 1) * p \<le> (length data + p - 1) div p * p" by (intro mult_le_mono1) simp
  also have "\<dots> \<le> length data + p - 1" by (rule div_times_less_eq_dividend)
  finally show ?thesis using p by (simp add: algebra_simps)
qed

lemma slice_range_min:
  "a \<le> b \<Longrightarrow> a \<le> length xs \<Longrightarrow> slice_range xs (int a) (min (int (length xs)) (int b)) = Some (take (b - a) (drop a xs))"
  by (auto simp: slice_range_def min_def nat_diff_distrib')

lemma partRange_piece:
  assumes p: "0 < p" and small: "length data + p < 2 ^ 32" and i: "i < (length data + p - 1) div p"
  shows "partRange data (int p) i = Some (piece data p i)"
proof -
  have lo: "i * p < length data" using piece_index[OF p i] .
  then have "i * p < 4294967296" using small by simp
  then have "int (i * p) < 4294967296" by (metis of_nat_less_iff of_nat_numeral)
  then have "u32 (int i * int p) = int (i * p)" by (subst u32_small) simp_all
  moreover have "(i + 1) * p < 4294967296" using lo small by simp
  then have "int ((i + 1) * p) < 4294967296" by (metis of_nat_less_iff of_nat_numeral)
  then have "u32 ((int i + 1) * int p) = int ((i + 1) * p)" by (subst u32_small) (simp_all add: algebra_simps)
  ultimately show ?thesis
    using slice_range_min[of "i * p" "(i + 1) * p" data] lo unfolding partRange_def by (simp add: piece_def)
qed

lemma markAll_ok:
  assumes "bits_ok ba xs" "\<forall>i\<in>set is. i < length xs" "length ys = length xs"
    "\<forall>i<length xs. ys ! i \<noteq> None \<longleftrightarrow> xs ! i \<noteq> None \<or> i \<in> set is"
  shows "\<exists>ba'. markAll is ba = Some ba' \<and> bits_ok ba' ys"
  using assms
proof (induction "is" arbitrary: ba xs)
  case Nil
  then show ?case using bits_ok_cong[of ba xs ys] by (auto simp del: not_None_eq)
next
  case (Cons i "is")
  obtain ba1 where ba1: "SetIndex ba (int i) True = Some (True, ba1)" "bits_ok ba1 (xs[i := Some undefined])"
    using bits_ok_set[OF Cons(2), of i] Cons(3) by auto
  then show ?case using Cons(1)[OF ba1(2)] Cons(3-5) by (auto simp: nth_update_iff)
qed

definition partAt :: "(bytes \<Rightarrow> bytes) \<Rightarrow> bytes \<Rightarrow> nat \<Rightarrow> nat \<Rightarrow> Part" where
  "partAt H data p i = \<lparr>partIndex = int i, partBytes = piece data p i,
     partProof = \<lparr>Total = int (length (pieces data p)), Index = int i, LeafHash = leafHash H (piece data p i),
       Aunts = auntsOf H (pieces data p) i\<rparr>\<rparr>"

lemma pieces_nth [simp]: "i < length (pieces data p) \<Longrightarrow> pieces data p ! i = piece data p i"
  by (simp add: pieces_def)

lemma length_pieces: "length (pieces data p) = (length data + p - 1) div p"
  by (simp add: pieces_def)

lemma partAt_verifies:
  "i < length (pieces data p) \<Longrightarrow>
   proof_Verify H (partProof (partAt H data p i)) (HashFromByteSlices H (pieces data p)) (partBytes (partAt H data p i)) = None"
  by (simp add: partAt_def proof_Verify_def ComputeRootHash_def computeHash_auntsOf flip: pieces_nth)

definition whole :: "(bytes \<Rightarrow> bytes) \<Rightarrow> bytes \<Rightarrow> nat \<Rightarrow> PartSet \<Rightarrow> bool" where
  "whole H data p ps \<longleftrightarrow> (let n = length (pieces data p) in
     0 < n \<and> n < 2 ^ 32 \<and> setTotal ps = int n \<and> setHash ps = HashFromByteSlices H (pieces data p) \<and>
     setParts ps = map (\<lambda>i. Some (partAt H data p i)) [0..<n] \<and> bits_ok (setBitArray ps) (setParts ps) \<and>
     setCount ps = int n \<and> setByteSize ps = int (length data))"

lemma NewPartSetFromData_whole:
  assumes p: "0 < p" and data: "data \<noteq> []" and small: "length data + p < 2 ^ 32"
  shows "\<exists>ps. NewPartSetFromData H data (int p) = Some ps \<and> whole H data p ps"
proof -
  let ?n = "length (pieces data p)"
  have "p \<le> length data + p - 1" using data by (cases data) auto
  then have n: "0 < ?n" using p by (simp add: length_pieces div_greater_zero_iff)
  have "?n \<le> length data + p - 1" by (simp add: length_pieces)
  then have n32: "?n < 2 ^ 32" using small by linarith
  have len: "u32 (int (length data)) = int (length data)" using small by (intro u32_small) auto
  have "u32 (int (length data) + int p) = int (length data) + int p"
    using small by (intro u32_small) auto
  moreover have "u32 (int (length data) + int p - 1) = int (length data) + int p - 1"
    using small p by (intro u32_small) auto
  moreover have "int (length data) + int p - 1 = int (length data + p - 1)" using p by simp
  ultimately have tot: "u32 (u32 (u32 (int (length data)) + int p) - 1) div int p = int ?n"
    using len by (simp only: length_pieces zdiv_int)
  have ranges: "those (map (partRange data (int p)) [0..<?n]) = Some (pieces data p)"
    unfolding pieces_def length_map length_upt diff_zero
    by (intro those_map_Some partRange_piece[OF p small]) simp
  define parts where "parts = map (\<lambda>i. Some (partAt H data p i)) [0..<?n]"
  obtain ba where ba: "markAll [0..<?n] (NewBitArray (int ?n)) = Some ba" "bits_ok ba parts"
    using markAll_ok[OF bits_ok_new[OF n n32], of "[0..<?n]" parts] by (auto simp: parts_def)
  let ?proofs = "map (\<lambda>i. \<lparr>Total = int ?n, Index = int i, LeafHash = leafHash H (pieces data p ! i), Aunts = auntsOf H (pieces data p) i\<rparr>) [0..<?n]"
  have parts: "map (\<lambda>i. Some \<lparr>partIndex = int i, partBytes = pieces data p ! i, partProof = ?proofs ! i\<rparr>) [0..<?n] = parts"
    by (simp add: parts_def partAt_def)
  show ?thesis
    using p n n32 ba(2) parts_def unfolding NewPartSetFromData_def tot Let_def
    by (simp add: ranges ba(1) ProofsFromByteSlices_eq parts whole_def)
qed


section \<open>Collecting parts\<close>

definition part_ok :: "(bytes \<Rightarrow> bytes) \<Rightarrow> bytes \<Rightarrow> nat \<Rightarrow> Part \<Rightarrow> bool" where
  "part_ok H h i p \<longleftrightarrow> partIndex p = int i \<and> proof_Verify H (partProof p) h (partBytes p) = None"

definition ps_inv :: "(bytes \<Rightarrow> bytes) \<Rightarrow> PartSet \<Rightarrow> bool" where
  "ps_inv H ps \<longleftrightarrow> 0 < setTotal ps \<and> setTotal ps < 2 ^ 32 \<and> length (setParts ps) = nat (setTotal ps) \<and>
     bits_ok (setBitArray ps) (setParts ps) \<and> setCount ps = int (count_some (setParts ps)) \<and>
     (\<forall>i<length (setParts ps). pred_option (part_ok H (setHash ps) i) (setParts ps ! i))"

lemma NewPartSetFromHeader_inv:
  assumes "0 < psTotal h" "psTotal h < 2 ^ 32"
  shows "ps_inv H (NewPartSetFromHeader h)"
proof -
  have "0 < nat (psTotal h)" "nat (psTotal h) < 2 ^ 32" using assms by auto
  from bits_ok_new[OF this] show ?thesis using assms by (simp add: ps_inv_def NewPartSetFromHeader_def)
qed

lemma AddPart_cases:
  assumes inv: "ps_inv H ps" and i: "0 \<le> partIndex part"
  obtains (out) "setTotal ps \<le> partIndex part" "AddPart H (Some ps) part = Some (Some ps, False, Some ErrPartSetUnexpectedIndex)"
  | (dup) p where "partIndex part < setTotal ps" "setParts ps ! nat (partIndex part) = Some p" "AddPart H (Some ps) part = Some (Some ps, False, None)"
  | (bad) "partIndex part < setTotal ps" "setParts ps ! nat (partIndex part) = None"
      "proof_Verify H (partProof part) (setHash ps) (partBytes part) \<noteq> None"
      "AddPart H (Some ps) part = Some (Some ps, False, Some ErrPartSetInvalidProof)"
  | (new) ps' where "partIndex part < setTotal ps" "setParts ps ! nat (partIndex part) = None"
      "proof_Verify H (partProof part) (setHash ps) (partBytes part) = None"
      "AddPart H (Some ps) part = Some (Some ps', True, None)" "ps_inv H ps'"
      "setTotal ps' = setTotal ps" "setHash ps' = setHash ps" "setParts ps' = (setParts ps)[nat (partIndex part) := Some part]"
      "setByteSize ps' = add64 (setByteSize ps) (int (length (partBytes part)))"
proof -
  let ?i = "nat (partIndex part)"
  have len: "length (setParts ps) = nat (setTotal ps)" using inv by (simp add: ps_inv_def)
  consider "setTotal ps \<le> partIndex part" | "partIndex part < setTotal ps" "setParts ps ! ?i \<noteq> None"
    | "partIndex part < setTotal ps" "setParts ps ! ?i = None" "proof_Verify H (partProof part) (setHash ps) (partBytes part) \<noteq> None"
    | "partIndex part < setTotal ps" "setParts ps ! ?i = None" "proof_Verify H (partProof part) (setHash ps) (partBytes part) = None"
    by fastforce
  then show thesis
  proof cases
    case 1
    then show ?thesis using out by (simp add: AddPart_def)
  next
    case 2
    then show ?thesis using dup i len by (auto simp: AddPart_def slice_get_in)
  next
    case 3
    then show ?thesis using bad i len by (simp add: AddPart_def slice_get_in ps_Hash_def)
  next
    case 4
    have lt: "?i < length (setParts ps)" using 4 i len by simp
    obtain ba where ba: "SetIndex (setBitArray ps) (int ?i) True = Some (True, ba)" "bits_ok ba ((setParts ps)[?i := Some part])"
      using bits_ok_set[OF _ lt, of "setBitArray ps" part] inv by (auto simp: ps_inv_def)
    let ?ps' = "ps\<lparr>setParts := (setParts ps)[?i := Some part], setBitArray := ba, setCount := u32 (setCount ps + 1),
      setByteSize := add64 (setByteSize ps) (int (length (partBytes part)))\<rparr>"
    have add: "AddPart H (Some ps) part = Some (Some ?ps', True, None)"
      using 4 i len ba(1) by (simp add: AddPart_def slice_get_in slice_set_in ps_Hash_def)
    have cnt: "count_some ((setParts ps)[?i := Some part]) = Suc (count_some (setParts ps))"
      using count_some_update[OF lt 4(2)] .
    then have "int (Suc (count_some (setParts ps))) \<le> setTotal ps"
      using count_some_le[of "(setParts ps)[?i := Some part]"] len inv by (simp add: ps_inv_def)
    then have "u32 (setCount ps + 1) = int (Suc (count_some (setParts ps)))"
      using inv by (simp add: ps_inv_def u32_small)
    then have "ps_inv H ?ps'"
      using inv ba(2) cnt 4(3) i lt by (auto simp: ps_inv_def part_ok_def nth_update_iff)
    with add show ?thesis using new 4 by simp
  qed
qed

text \<open>The part sets a node can hold for a header: it adds parts received from peers.\<close>

inductive ps_reach :: "(bytes \<Rightarrow> bytes) \<Rightarrow> PartSetHeader \<Rightarrow> PartSet \<Rightarrow> bool" for H h where
  new: "0 < psTotal h \<Longrightarrow> psTotal h < 2 ^ 32 \<Longrightarrow> ps_reach H h (NewPartSetFromHeader h)"
| add: "ps_reach H h ps \<Longrightarrow> 0 \<le> partIndex part \<Longrightarrow> AddPart H (Some ps) part = Some (Some ps', added, err) \<Longrightarrow> ps_reach H h ps'"

lemma ps_reach_inv: "ps_reach H h ps \<Longrightarrow> ps_inv H ps \<and> setTotal ps = psTotal h \<and> setHash ps = psHash h"
proof (induction rule: ps_reach.induct)
  case new
  then show ?case by (simp add: NewPartSetFromHeader_inv) (simp add: NewPartSetFromHeader_def)
next
  case (add ps part ps' added err)
  then have "ps_inv H ps" by simp
  then show ?case by (cases rule: AddPart_cases[OF _ add(2)]) (use add in auto)
qed

lemma ps_inv_complete: "ps_inv H ps \<Longrightarrow> ps_IsComplete ps \<longleftrightarrow> None \<notin> set (setParts ps)"
proof -
  assume inv: "ps_inv H ps"
  then show ?thesis using count_some_full[of "setParts ps"] by (auto simp: ps_inv_def ps_IsComplete_def)
qed


section \<open>Reading a complete set\<close>

definition content :: "PartSetReader \<Rightarrow> bytes" where
  "content r = rdReader r @ concat (map (\<lambda>p. partBytes (the p)) (drop (nat (rdI r + 1)) (rdParts r)))"

lemma psr_Read_content:
  assumes "0 < k" "0 \<le> rdI r" "None \<notin> set (rdParts r)"
  shows "\<exists>r' eof. psr_Read r k = Some (r', take k (content r), eof) \<and> content r' = drop k (content r) \<and>
    rdParts r' = rdParts r \<and> 0 \<le> rdI r' \<and> (if eof then drop k (content r) = [] else k \<le> length (content r))"
  using assms
proof (induction r k rule: psr_Read.induct)
  case (1 r k)
  let ?rest = "rdReader r" and ?i = "rdI r + 1"
  consider "k \<le> length ?rest" | "length ?rest < k" "0 < length ?rest" | "?rest = []" "int (length (rdParts r)) \<le> ?i"
    | "?rest = []" "?i < int (length (rdParts r))" by fastforce
  then show ?case
  proof cases
    case 1
    then have "psr_Read r k = Some (r\<lparr>rdReader := drop k ?rest\<rparr>, take k ?rest, False)"
      using \<open>0 < k\<close> by (subst psr_Read.simps) (auto simp: Let_def)
    then show ?thesis using 1 \<open>0 \<le> rdI r\<close> by (auto simp: content_def)
  next
    case 2
    let ?r = "r\<lparr>rdReader := []\<rparr>"
    have c: "content r = ?rest @ content ?r" by (simp add: content_def)
    obtain r' eof where IH: "psr_Read ?r (k - length ?rest) = Some (r', take (k - length ?rest) (content ?r), eof)"
      "content r' = drop (k - length ?rest) (content ?r)" "rdParts r' = rdParts r" "0 \<le> rdI r'"
      "if eof then drop (k - length ?rest) (content ?r) = [] else k - length ?rest \<le> length (content ?r)"
      using 1(1)[OF refl] 2 1(4,5) by fastforce
    moreover have "psr_Read r k = Some (r', ?rest @ take (k - length ?rest) (content ?r), eof)"
      using 2 IH(1) by (subst psr_Read.simps) (simp add: Let_def)
    ultimately show ?thesis using 2 by (auto simp: c)
  next
    case 3
    then have "psr_Read r k = Some (r\<lparr>rdI := ?i\<rparr>, [], True)" using \<open>0 < k\<close> by (subst psr_Read.simps) (simp add: Let_def)
    then show ?thesis using 3 \<open>0 \<le> rdI r\<close> by (auto simp: content_def)
  next
    case 4
    have lt: "nat ?i < length (rdParts r)" using 4 1(4) by linarith
    then obtain p where p: "rdParts r ! nat ?i = Some p" using 1(5) by (metis nth_mem option.exhaust)
    then have get: "slice_get (rdParts r) ?i = Some (Some p)" using 4 1(4) by (simp add: slice_get_def)
    let ?r = "r\<lparr>rdI := ?i, rdReader := partBytes p\<rparr>"
    have "drop (nat ?i) (rdParts r) = Some p # drop (nat (?i + 1)) (rdParts r)"
      using Cons_nth_drop_Suc[OF lt] p 1(4) by (simp add: Suc_nat_eq_nat_zadd1 add.commute)
    then have c: "content r = content ?r" using 4 by (simp add: content_def)
    have "psr_Read r k = psr_Read ?r k" using 4 \<open>0 < k\<close> get by (subst psr_Read.simps) (simp add: Let_def)
    moreover have "\<exists>r' eof. psr_Read ?r k = Some (r', take k (content ?r), eof) \<and> content r' = drop k (content ?r) \<and>
      rdParts r' = rdParts ?r \<and> 0 \<le> rdI r' \<and> (if eof then drop k (content ?r) = [] else k \<le> length (content ?r))"
      using 4 \<open>0 < k\<close> 1(4,5) by (intro 1(2)[OF refl _ _ refl _ get refl]) auto
    ultimately show ?thesis unfolding c by simp
  qed
qed

lemma ReadAll_content:
  assumes "0 \<notin> set ks" "length (content r) < length ks" "0 \<le> rdI r" "None \<notin> set (rdParts r)"
  shows "ReadAll r ks = Some (content r)"
  using assms
proof (induction ks arbitrary: r)
  case (Cons k ks)
  obtain r' eof where r': "psr_Read r k = Some (r', take k (content r), eof)" "content r' = drop k (content r)"
    "rdParts r' = rdParts r" "0 \<le> rdI r'" "if eof then drop k (content r) = [] else k \<le> length (content r)"
    using psr_Read_content[of k r] Cons by auto
  show ?case
  proof (cases eof)
    case True
    then show ?thesis using r' by (simp add: drop_eq_Nil)
  next
    case False
    have "ReadAll r' ks = Some (content r')" using r' False Cons by (intro Cons(1)) auto
    then show ?thesis using r' False by simp
  qed
qed simp

lemma GetReader_content:
  assumes "ps_inv H ps" "ps_IsComplete ps"
  shows "\<exists>r. GetReader ps = Some r \<and> 0 \<le> rdI r \<and> None \<notin> set (rdParts r) \<and>
    content r = concat (map (\<lambda>p. partBytes (the p)) (setParts ps))"
proof -
  have ne: "setParts ps \<noteq> []" using assms(1) by (auto simp: ps_inv_def)
  have full: "None \<notin> set (setParts ps)" using ps_inv_complete[OF assms(1)] assms(2) by simp
  then obtain p rest where "setParts ps = Some p # rest" using ne by (cases "setParts ps"; cases "hd (setParts ps)") auto
  then show ?thesis
    using assms(2) full by (auto simp: GetReader_def NewPartSetReader_def slice_get_def content_def)
qed


section \<open>Rebuilding the set of the sender\<close>

fun AddParts :: "(bytes \<Rightarrow> bytes) \<Rightarrow> PartSet \<Rightarrow> Part list \<Rightarrow> PartSet option" where
  "AddParts H ps [] = Some ps"
| "AddParts H ps (p # r) = Option.bind (AddPart H (Some ps) p) (\<lambda>(ps', _, _). Option.bind ps' (\<lambda>ps'. AddParts H ps' r))"

text \<open>The receiver holds the parts of the sender with indices in \<open>S\<close>.\<close>

definition holds :: "(bytes \<Rightarrow> bytes) \<Rightarrow> bytes \<Rightarrow> nat \<Rightarrow> nat set \<Rightarrow> PartSet \<Rightarrow> bool" where
  "holds H data p S ps \<longleftrightarrow> ps_inv H ps \<and> setTotal ps = int (length (pieces data p)) \<and>
     setHash ps = HashFromByteSlices H (pieces data p) \<and>
     setParts ps = map (\<lambda>i. if i \<in> S then Some (partAt H data p i) else None) [0..<length (pieces data p)] \<and>
     S \<subseteq> {..<length (pieces data p)} \<and> setByteSize ps = int (\<Sum>i\<in>S. length (piece data p i))"

lemma sum_pieces: "0 < p \<Longrightarrow> (\<Sum>i<length (pieces data p). length (piece data p i)) = length data"
proof -
  assume "0 < p"
  then have "length data = sum_list (map length (pieces data p))" using concat_pieces[of p data] by (metis length_concat)
  also have "\<dots> = (\<Sum>i<length (pieces data p). length (piece data p i))"
    by (simp add: sum_list_sum_nth atLeast0LessThan)
  finally show ?thesis by simp
qed

lemma holds_add:
  assumes h: "holds H data p S ps" and p: "0 < p" and small: "length data < 2 ^ 32" and i: "i < length (pieces data p)"
  shows "\<exists>ps' added. AddPart H (Some ps) (partAt H data p i) = Some (Some ps', added, None) \<and> holds H data p (insert i S) ps'"
proof -
  let ?part = "partAt H data p i"
  have inv: "ps_inv H ps" and ix: "0 \<le> partIndex ?part" "partIndex ?part < setTotal ps" "nat (partIndex ?part) = i"
    and slot: "setParts ps ! i = (if i \<in> S then Some ?part else None)"
    using h i by (simp_all add: holds_def partAt_def)
  have ver: "proof_Verify H (partProof ?part) (setHash ps) (partBytes ?part) = None"
    using partAt_verifies[OF i] h by (simp add: holds_def)
  show ?thesis
  proof (cases rule: AddPart_cases[OF inv ix(1)])
    case 1
    then show ?thesis using ix by simp
  next
    case (2 q)
    then have "insert i S = S" using slot ix by (auto split: if_splits)
    then show ?thesis using 2 h by auto
  next
    case 3
    then show ?thesis using ver by simp
  next
    case (4 ps')
    have iS: "i \<notin> S" using 4(2) slot ix by auto
    have fin: "finite S" using h finite_subset by (auto simp: holds_def)
    have "(\<Sum>j\<in>insert i S. length (piece data p j)) \<le> (\<Sum>j<length (pieces data p). length (piece data p j))"
      using h i by (intro sum_mono2) (auto simp: holds_def)
    then have le: "(\<Sum>j\<in>S. length (piece data p j)) + length (piece data p i) \<le> length data"
      using sum_pieces[OF p, of data] iS fin by simp
    have "add64 (int (\<Sum>j\<in>S. length (piece data p j))) (int (length (piece data p i))) =
        int (\<Sum>j\<in>insert i S. length (piece data p j))"
      using iS fin le small by (subst add64_nat) (simp_all del: of_nat_sum)
    then have "setByteSize ps' = int (\<Sum>j\<in>insert i S. length (piece data p j))"
      using 4(9) h unfolding holds_def by (simp only: partAt_def Part.simps)
    moreover have "setParts ps' = map (\<lambda>j. if j \<in> insert i S then Some (partAt H data p j) else None) [0..<length (pieces data p)]"
      using 4(8) h ix by (auto simp: holds_def nth_update_iff intro!: nth_equalityI)
    ultimately show ?thesis using 4 h i by (auto simp: holds_def)
  qed
qed

lemma holds_AddParts:
  assumes "holds H data p S ps" "0 < p" "length data < 2 ^ 32" "\<forall>i\<in>set is. i < length (pieces data p)"
  shows "\<exists>ps'. AddParts H ps (map (partAt H data p) is) = Some ps' \<and> holds H data p (S \<union> set is) ps'"
  using assms
proof (induction "is" arbitrary: S ps)
  case (Cons i "is")
  obtain ps1 added where ps1: "AddPart H (Some ps) (partAt H data p i) = Some (Some ps1, added, None)" "holds H data p (insert i S) ps1"
    using holds_add[OF Cons(2-4), of i] Cons(5) by auto
  then show ?case using Cons(1)[OF ps1(2) Cons(3,4)] Cons(5) by (auto simp: Un_insert_left)
qed simp

lemma whole_inv: "whole H data p ps \<Longrightarrow> ps_inv H ps"
  using partAt_verifies by (auto simp: whole_def ps_inv_def part_ok_def Let_def count_some_def partAt_def)

lemma holds_new: "whole H data p ps \<Longrightarrow> holds H data p {} (NewPartSetFromHeader (ps_Header (Some ps)))"
  using NewPartSetFromHeader_inv[of "ps_Header (Some ps)" H]
  by (auto simp: whole_def holds_def NewPartSetFromHeader_def ps_Header_def Let_def map_replicate_const)

lemma holds_all:
  assumes "0 < p" "whole H data p ps" "holds H data p {..<length (pieces data p)} ps'"
  shows "ps' = ps"
proof (rule PartSet.equality)
  let ?n = "length (pieces data p)"
  show parts: "setParts ps' = setParts ps" using assms by (simp add: whole_def holds_def Let_def)
  show "setBitArray ps' = setBitArray ps"
  proof (rule bits_ok_unique)
    show "bits_ok (setBitArray ps) (setParts ps)" using whole_inv[OF assms(2)] by (simp add: ps_inv_def)
    have "bits_ok (setBitArray ps') (setParts ps')" using assms(3) unfolding holds_def ps_inv_def by blast
    then show "bits_ok (setBitArray ps') (setParts ps)" unfolding parts .
  qed
  show "setCount ps' = setCount ps" using assms(3) parts whole_inv[OF assms(2)] unfolding holds_def ps_inv_def by metis
  show "setByteSize ps' = setByteSize ps" using assms sum_pieces[OF assms(1), of data] by (simp add: whole_def holds_def Let_def)
qed (use assms in \<open>auto simp: whole_def holds_def Let_def\<close>)

lemma whole_read:
  assumes "0 < p" "whole H data p ps" "0 \<notin> set ks" "length data < length ks"
  shows "ps_IsComplete ps \<and> (\<exists>r. GetReader ps = Some r \<and> ReadAll r ks = Some data)"
proof -
  have c: "ps_IsComplete ps" using assms(2) by (simp add: whole_def ps_IsComplete_def Let_def)
  have "concat (map (\<lambda>q. partBytes (the q)) (setParts ps)) = concat (pieces data p)"
    using assms(2) by (simp add: whole_def Let_def comp_def partAt_def pieces_def)
  then obtain r where r: "GetReader ps = Some r" "0 \<le> rdI r" "None \<notin> set (rdParts r)" "content r = data"
    using GetReader_content[OF whole_inv[OF assms(2)] c] concat_pieces[OF assms(1)] by auto
  then show ?thesis using c ReadAll_content[OF assms(3) _ r(2,3)] assms(4) by simp
qed

lemma AddParts_reach:
  "AddParts H ps parts = Some ps' \<Longrightarrow> ps_reach H h ps \<Longrightarrow> \<forall>p\<in>set parts. 0 \<le> partIndex p \<Longrightarrow> ps_reach H h ps'"
  by (induction parts arbitrary: ps) (auto simp: bind_Some intro: ps_reach.add)

lemma whole_reach:
  assumes "0 < p" "length data < 2 ^ 32" "whole H data p ps"
  shows "ps_reach H (ps_Header (Some ps)) ps"
proof -
  let ?n = "length (pieces data p)" and ?new = "NewPartSetFromHeader (ps_Header (Some ps))"
  obtain ps' where ps': "AddParts H ?new (map (partAt H data p) [0..<?n]) = Some ps'" "holds H data p ({} \<union> set [0..<?n]) ps'"
    using holds_AddParts[OF holds_new[OF assms(3)] assms(1,2), of "[0..<?n]"] by auto
  then have eq: "ps' = ps" using holds_all[OF assms(1,3), of ps'] by (simp add: atLeast0LessThan)
  have "ps_reach H (ps_Header (Some ps)) ?new" using assms(3) by (intro ps_reach.new) (auto simp: ps_Header_def whole_def Let_def)
  then have "ps_reach H (ps_Header (Some ps)) ps'" by (rule AddParts_reach[OF ps'(1)]) (auto simp: partAt_def)
  then show ?thesis using eq by simp
qed


section \<open>Properties\<close>

text \<open>Property C23: cutting data into parts succeeds; a receiver that knows only the header and adds the parts in any order,
  with repetitions, ends with exactly the part set of the sender, which is complete, and reading it through buffers of
  any sizes gives the data back.\<close>

theorem part_set_roundtrip:
  assumes "0 < partSize" "data \<noteq> []" "int (length data) + partSize < 2 ^ 32"
  shows "\<exists>ps. NewPartSetFromData H data partSize = Some ps \<and>
    (\<forall>is. set is = {..<length (setParts ps)} \<longrightarrow>
       AddParts H (NewPartSetFromHeader (ps_Header (Some ps))) (map (\<lambda>i. the (setParts ps ! i)) is) = Some ps) \<and>
    ps_IsComplete ps \<and>
    (\<forall>ks. 0 \<notin> set ks \<and> length data < length ks \<longrightarrow> Option.bind (GetReader ps) (\<lambda>r. ReadAll r ks) = Some data)"
proof -
  define p where "p = nat partSize"
  have p: "0 < p" "partSize = int p" using assms(1) by (auto simp: p_def)
  have small: "length data + p < 2 ^ 32" using assms(3) p by simp
  obtain ps where ps: "NewPartSetFromData H data partSize = Some ps" "whole H data p ps"
    using NewPartSetFromData_whole[OF p(1) assms(2) small] p by auto
  have n: "length (setParts ps) = length (pieces data p)" using ps(2) by (simp add: whole_def Let_def)
  have "AddParts H (NewPartSetFromHeader (ps_Header (Some ps))) (map (\<lambda>i. the (setParts ps ! i)) is) = Some ps"
    if "is": "set is = {..<length (setParts ps)}" for "is"
  proof -
    have "map (\<lambda>i. the (setParts ps ! i)) is = map (partAt H data p) is"
      using "is" n ps(2) by (auto simp: whole_def Let_def)
    moreover obtain ps' where "AddParts H (NewPartSetFromHeader (ps_Header (Some ps))) (map (partAt H data p) is) = Some ps'"
      "holds H data p (set is) ps'"
      using holds_AddParts[OF holds_new[OF ps(2)] p(1), of "is"] small "is" n by auto
    ultimately show ?thesis using holds_all[OF p(1) ps(2), of ps'] "is" n by metis
  qed
  then show ?thesis using ps whole_read[OF p(1) ps(2), of "replicate (Suc (length data)) 1"] whole_read[OF p(1) ps(2)] by fastforce
qed

theorem part_set_roundtrip_witness:
  "\<exists>ps. NewPartSetFromData srhash_Sum [1,2,3] 2 = Some ps \<and> ps_IsComplete ps \<and>
     Option.bind (GetReader ps) (\<lambda>r. ReadAll r [1,1,1,1]) = Some [1,2,3]"
proof -
  obtain ps where "NewPartSetFromData srhash_Sum [1,2,3] 2 = Some ps" "ps_IsComplete ps"
    "\<forall>ks. 0 \<notin> set ks \<and> length [1,2,3::byte] < length ks \<longrightarrow> Option.bind (GetReader ps) (\<lambda>r. ReadAll r ks) = Some [1,2,3]"
    using part_set_roundtrip[of 2 "[1,2,3]" srhash_Sum] by auto
  moreover from this(3) have "Option.bind (GetReader ps) (\<lambda>r. ReadAll r [1,1,1,1]) = Some [1,2,3]"
    by (auto dest: spec[of _ "[1,1,1,1]"] simp del: ReadAll.simps)
  ultimately show ?thesis by blast
qed

text \<open>In every part set a node can build for a header, the bit array answers for each index whether the part
  is there, each part there is at its own index and its proof verifies against the header, the count is the number of
  parts, and the set is complete exactly when no part is missing.\<close>

theorem part_set_invariant:
  assumes "ps_reach H h ps" and "i < nat (psTotal h)"
  shows "GetIndex (ps_BitArray ps) (int i) = Some (setParts ps ! i \<noteq> None) \<and>
    (\<forall>part. GetPart ps (int i) = Some (Some part) \<longrightarrow> partIndex part = int i \<and> proof_Verify H (partProof part) (psHash h) (partBytes part) = None) \<and>
    setCount ps = int (count_some (setParts ps)) \<and>
    (ps_IsComplete ps \<longleftrightarrow> None \<notin> set (setParts ps))"
proof (intro conjI)
  have inv: "ps_inv H ps" "setTotal ps = psTotal h" "setHash ps = psHash h" using ps_reach_inv[OF assms(1)] by auto
  then obtain b where "setBitArray ps = Some b" "ba_wf b" "\<forall>i<length (setParts ps). ba_test b i \<longleftrightarrow> setParts ps ! i \<noteq> None"
    by (auto simp: ps_inv_def bits_ok_def)
  then show "GetIndex (ps_BitArray ps) (int i) = Some (setParts ps ! i \<noteq> None)"
    using assms(2) inv getIndex_test[of b i] by (simp add: ps_BitArray_def ba_Copy_eq GetIndex_def ps_inv_def)
  show "\<forall>part. GetPart ps (int i) = Some (Some part) \<longrightarrow> partIndex part = int i \<and> proof_Verify H (partProof part) (psHash h) (partBytes part) = None"
    using inv assms(2) by (auto simp: ps_inv_def part_ok_def GetPart_def slice_get_def) 
  show "setCount ps = int (count_some (setParts ps))" using inv(1) by (simp add: ps_inv_def)
  show "ps_IsComplete ps \<longleftrightarrow> None \<notin> set (setParts ps)" using ps_inv_complete[OF inv(1)] .
qed

theorem part_set_invariant_witness:
  "\<not> ps_IsComplete (NewPartSetFromHeader \<lparr>psTotal = 3, psHash = []\<rparr>)"
proof -
  have "ps_reach srhash_Sum \<lparr>psTotal = 3, psHash = []\<rparr> (NewPartSetFromHeader \<lparr>psTotal = 3, psHash = []\<rparr>)"
    by (rule ps_reach.new) simp_all
  from part_set_invariant[OF this, of 0] show ?thesis by (simp add: NewPartSetFromHeader_def)
qed

text \<open>Property C24: a complete part set collected for the header of some data reads as that data, if the proof of every part
  that was added is for the index of the part and the total of the set, or the parts exhibit a collision of the 32 byte
  hash. The condition on the proofs is a hypothesis because \<open>AddPart\<close> does not check it (the next property); honest senders meet it.\<close>

theorem assembled_block_is_data:
  assumes "\<And>bz. length (H bz) = 32" and "0 < partSize" "data \<noteq> []" "int (length data) + partSize < 2 ^ 32"
    and "NewPartSetFromData H data partSize = Some ps" and "ps_reach H (ps_Header (Some ps)) cur" and "ps_IsComplete cur"
    and "\<forall>q. Some q \<in> set (setParts cur) \<longrightarrow> Index (partProof q) = partIndex q \<and> Total (partProof q) = setTotal cur"
    and "0 \<notin> set ks" and "length (concat (map (\<lambda>q. partBytes (the q)) (setParts cur))) < length ks"
  shows "Option.bind (GetReader cur) (\<lambda>r. ReadAll r ks) = Some data \<or>
    (\<exists>q. Some q \<in> set (setParts cur) \<and> collision H (treeInputs H (pieces data (nat partSize)))
      ((0 # partBytes q) # pathInputs H (Index (partProof q)) (Total (partProof q)) (LeafHash (partProof q)) (Aunts (partProof q))))"
proof (rule disjCI)
  let ?P = "pieces data (nat partSize)"
  assume none: "\<not> (\<exists>q. Some q \<in> set (setParts cur) \<and> collision H (treeInputs H ?P)
      ((0 # partBytes q) # pathInputs H (Index (partProof q)) (Total (partProof q)) (LeafHash (partProof q)) (Aunts (partProof q))))"
  define p where "p = nat partSize"
  have p: "0 < p" "partSize = int p" using assms(2) by (auto simp: p_def)
  have "length data + p < 2 ^ 32" using assms(4) p by simp
  then have w: "whole H data p ps" using NewPartSetFromData_whole[OF p(1) assms(3), of H] assms(5) p(2) by auto
  have cur: "ps_inv H cur" "setTotal cur = int (length ?P)" "setHash cur = HashFromByteSlices H ?P"
    using ps_reach_inv[OF assms(6)] w p by (auto simp: ps_Header_def whole_def Let_def)
  have len: "length (setParts cur) = length ?P" and full: "None \<notin> set (setParts cur)"
    using cur ps_inv_complete[OF cur(1)] assms(7) by (auto simp: ps_inv_def)
  have same: "partBytes (the (setParts cur ! i)) = ?P ! i" if i: "i < length ?P" for i
  proof -
    obtain q where q: "setParts cur ! i = Some q" "Some q \<in> set (setParts cur)" using full i len by (metis nth_mem option.exhaust)
    then have ok: "part_ok H (setHash cur) i q" using cur(1) i len by (auto simp: ps_inv_def dest: spec[of _ i])
    then have "?P ! nat (Index (partProof q)) = partBytes q"
      using verified_bytes[of H "partProof q" ?P "partBytes q", OF assms(1)] none q(2) assms(8) cur i by (auto simp: part_ok_def)
    then show ?thesis using ok assms(8) q by (simp add: part_ok_def)
  qed
  have "map (\<lambda>q. partBytes (the q)) (setParts cur) = ?P" using same len by (intro nth_equalityI) auto
  then have "concat (map (\<lambda>q. partBytes (the q)) (setParts cur)) = data" using concat_pieces[OF p(1)] p(2) by simp
  then obtain r where r: "GetReader cur = Some r" "0 \<le> rdI r" "None \<notin> set (rdParts r)" "content r = data"
    using GetReader_content[OF cur(1) assms(7)] by auto
  then show "Option.bind (GetReader cur) (\<lambda>r. ReadAll r ks) = Some data"
    using ReadAll_content[OF assms(9) _ r(2,3)] assms(10) \<open>concat _ = data\<close> by simp
qed

theorem assembled_block_is_data_witness:
  "\<exists>ps. NewPartSetFromData srhash_Sum [1,2,3] 2 = Some ps \<and>
    (Option.bind (GetReader ps) (\<lambda>r. ReadAll r [1,1,1,1]) = Some [1,2,3] \<or>
    (\<exists>q. Some q \<in> set (setParts ps) \<and> collision srhash_Sum (treeInputs srhash_Sum (pieces [1,2,3] 2))
      ((0 # partBytes q) # pathInputs srhash_Sum (Index (partProof q)) (Total (partProof q)) (LeafHash (partProof q)) (Aunts (partProof q)))))"
proof -
  obtain ps where ps: "NewPartSetFromData srhash_Sum [1,2,3] 2 = Some ps" "whole srhash_Sum [1,2,3] 2 ps"
    using NewPartSetFromData_whole[of 2 "[1,2,3]" srhash_Sum] by auto
  have parts: "\<forall>q. Some q \<in> set (setParts ps) \<longrightarrow> Index (partProof q) = partIndex q \<and> Total (partProof q) = setTotal ps"
    using ps(2) by (auto simp: whole_def Let_def partAt_def)
  have bytes: "concat (map (\<lambda>q. partBytes (the q)) (setParts ps)) = concat (pieces [1,2,3] 2)"
    using ps(2) by (simp add: whole_def Let_def comp_def partAt_def pieces_def)
  have reach: "ps_reach srhash_Sum (ps_Header (Some ps)) ps" using whole_reach[OF _ _ ps(2)] by simp
  have "ps_IsComplete ps" using ps(2) by (simp add: whole_def ps_IsComplete_def Let_def)
  then show ?thesis
    using assembled_block_is_data[OF length_srhash_Sum _ _ _ ps(1) reach _ parts, of "[1,1,1,1]"] ps(1)
    by (simp add: bytes concat_pieces del: ReadAll.simps)
qed

text \<open>Property C25: \<open>AddPart\<close> does not compare the index of a part with the index its proof is for: the second part of any
  data, relabelled with index 0, is accepted in the place of the first.\<close>

theorem AddPart_ignores_proof_index:
  assumes "0 < partSize" "partSize < int (length data)" "int (length data) + partSize < 2 ^ 32"
    and "NewPartSetFromData H data partSize = Some ps" and "setParts ps ! 1 = Some q"
  shows "\<exists>cur. AddPart H (Some (NewPartSetFromHeader (ps_Header (Some ps)))) (q\<lparr>partIndex := 0\<rparr>) = Some (Some cur, True, None)"
proof -
  define p where "p = nat partSize"
  have p: "0 < p" "partSize = int p" "data \<noteq> []" "length data + p < 2 ^ 32" using assms(1-3) by (auto simp: p_def)
  have w: "whole H data p ps" using NewPartSetFromData_whole[OF p(1,3,4), of H] assms(4) p(2) by auto
  have "Suc (2 * p - 1) \<le> length data + p" using assms(2) p by simp
  then have "2 * p \<le> length data + p - 1" using p assms(2) by simp
  then have two: "1 < length (pieces data p)" using p(1) div_le_mono[of "2 * p" "length data + p - 1" p] by (simp add: length_pieces)
  then have q: "q = partAt H data p 1" using assms(5) w by (simp add: whole_def Let_def)
  let ?new = "NewPartSetFromHeader (ps_Header (Some ps))"
  have inv: "ps_inv H ?new" using holds_new[OF w] by (simp add: holds_def)
  show ?thesis
    by (cases rule: AddPart_cases[OF inv, of "q\<lparr>partIndex := 0\<rparr>"])
      (use w two q partAt_verifies[OF two, of H] in \<open>auto simp: NewPartSetFromHeader_def ps_Header_def whole_def Let_def partAt_def\<close>)
qed

theorem AddPart_ignores_proof_index_witness:
  "\<exists>ps q cur. NewPartSetFromData srhash_Sum [1,2,3] 2 = Some ps \<and> setParts ps ! 1 = Some q \<and>
     AddPart srhash_Sum (Some (NewPartSetFromHeader (ps_Header (Some ps)))) (q\<lparr>partIndex := 0\<rparr>) = Some (Some cur, True, None)"
proof -
  obtain ps where ps: "NewPartSetFromData srhash_Sum [1,2,3] 2 = Some ps" "whole srhash_Sum [1,2,3] 2 ps"
    using NewPartSetFromData_whole[of 2 "[1,2,3]" srhash_Sum] by auto
  then have q: "setParts ps ! 1 = Some (partAt srhash_Sum [1,2,3] 2 1)" by (simp add: whole_def Let_def length_pieces)
  then show ?thesis using AddPart_ignores_proof_index[OF _ _ _ ps(1) q] ps(1) by auto
qed

end
