(* ===== verification/Blocks.thy ===== *)
theory Blocks
  imports Replies PartSets
begin

text \<open>
  Blocks: \<open>types/tx.go\<close>, \<open>types/data.go\<close>, \<open>types/header.go\<close>, \<open>types/block.go\<close>, \<open>types/block_meta.go\<close>,
  \<open>types/encoding_helper.go\<close> and \<open>types/params.go\<close>. The generated structs have the fields of the hand-written
  ones, so \<open>ToProto\<close> is the identity and \<open>FromProto\<close> a check. A nil byte slice is the empty one. \<open>Data\<close> and
  \<open>Reply\<close> memorise their hashes; the checks read the memorised value when there is one. The wrapper messages
  of the protobuf library and the encoding of a whole block are parameters (\<open>codec\<close>).
\<close>

section \<open>Transactions\<close>

definition tx_Hash :: "env \<Rightarrow> bytes \<Rightarrow> bytes" where
  "tx_Hash E tx = e_Sum E tx"

definition txs_Hash :: "env \<Rightarrow> bytes list \<Rightarrow> bytes" where
  "txs_Hash E txs = HashFromByteSlices (e_Sum E) (map (tx_Hash E) txs)"

fun txs_Index_from :: "nat \<Rightarrow> bytes list \<Rightarrow> bytes \<Rightarrow> int" where
  "txs_Index_from i [] tx = - 1"
| "txs_Index_from i (t # ts) tx = (if t = tx then int i else txs_Index_from (Suc i) ts tx)"

definition txs_Index :: "bytes list \<Rightarrow> bytes \<Rightarrow> int" where
  "txs_Index txs tx = txs_Index_from 0 txs tx"

definition txs_IndexByHash :: "env \<Rightarrow> bytes list \<Rightarrow> bytes \<Rightarrow> int" where
  "txs_IndexByHash E txs hash = txs_Index_from 0 (map (tx_Hash E) txs) hash"

record TxProof =
  tpRootHash :: bytes
  tpData :: bytes
  tpProof :: Proof

definition txs_Proof :: "env \<Rightarrow> bytes list \<Rightarrow> int \<Rightarrow> TxProof option" where
  "txs_Proof E txs i =
     (if i < 0 \<or> int (length txs) \<le> i then None
      else map_option (\<lambda>(rootHash, proofs). \<lparr>tpRootHash = rootHash, tpData = txs ! nat i, tpProof = proofs ! nat i\<rparr>)
             (ProofsFromByteSlices (e_Sum E) (map (tx_Hash E) txs)))"

definition tp_Leaf :: "env \<Rightarrow> TxProof \<Rightarrow> bytes" where
  "tp_Leaf E tp = tx_Hash E (tpData tp)"

datatype tp_error = DifferentDataHash | NegativeProofIndex | NonPositiveTotal | NotConsistent

definition tp_Validate :: "env \<Rightarrow> TxProof \<Rightarrow> bytes \<Rightarrow> tp_error option" where
  "tp_Validate E tp dataHash =
     (if dataHash \<noteq> tpRootHash tp then Some DifferentDataHash
      else if Index (tpProof tp) < 0 then Some NegativeProofIndex
      else if Total (tpProof tp) \<le> 0 then Some NonPositiveTotal
      else if proof_Verify (e_Sum E) (tpProof tp) (tpRootHash tp) (tp_Leaf E tp) \<noteq> None then Some NotConsistent
      else None)"

section \<open>Data, header, block\<close>

record Data =
  dTxs :: "bytes list"
  dHash :: "bytes option"

definition data_Hash :: "env \<Rightarrow> Data \<Rightarrow> bytes \<times> Data" where
  "data_Hash E d =
     (case dHash d of Some h \<Rightarrow> (h, d) | None \<Rightarrow> let h = txs_Hash E (dTxs d) in (h, d\<lparr>dHash := Some h\<rparr>))"

definition DataFromProto :: "bytes list \<Rightarrow> Data" where
  "DataFromProto txs = \<lparr>dTxs = txs, dHash = None\<rparr>"

record Header =
  hChainID :: bytes
  hHeight :: int
  hTime :: int
  hLastBlockID :: BlockID
  hLastCommitHash :: bytes
  hDataHash :: bytes
  hConsensusHash :: bytes
  hAppHash :: bytes
  hProposer :: bytes

record Block =
  bHeader :: Header
  bData :: Data
  bLastReply :: "Reply option"

text \<open>\<open>StringValue\<close>, \<open>Int64Value\<close> and \<open>BytesValue\<close> of the protobuf library, and the generated encoding of a block.\<close>

record codec =
  k_String :: "bytes \<Rightarrow> bytes"
  k_Int64 :: "int \<Rightarrow> bytes"
  k_Bytes :: "bytes \<Rightarrow> bytes"
  k_blockEnc :: "Block \<Rightarrow> bytes"
  k_blockDec :: "bytes \<Rightarrow> Block option"

definition cdcEncodeString :: "codec \<Rightarrow> bytes \<Rightarrow> bytes" where
  "cdcEncodeString K s = (if s = [] then [] else k_String K s)"

definition cdcEncodeInt64 :: "codec \<Rightarrow> int \<Rightarrow> bytes" where
  "cdcEncodeInt64 K i = k_Int64 K i"

definition cdcEncodeBytes :: "codec \<Rightarrow> bytes \<Rightarrow> bytes" where
  "cdcEncodeBytes K b = (if b = [] then [] else k_Bytes K b)"

definition bid_Marshal :: "BlockID \<Rightarrow> bytes" where
  "bid_Marshal b =
     opt (0 < length (bidHash b)) (tag 1 2 @ putLen (bidHash b)) @ tag 2 2 @ putLen (psh_Marshal (bidParts b))"

definition MaxChainIDLen :: nat where "MaxChainIDLen = 50"

datatype header_error =
    ChainIDTooLong | HeaderNegativeHeight | HeaderZeroHeight | WrongLastBlockID | WrongLastCommitHash | WrongDataHash
  | InvalidProposerAddress | WrongConsensusHash

definition Populate :: "Header \<Rightarrow> bytes \<Rightarrow> int \<Rightarrow> BlockID \<Rightarrow> bytes \<Rightarrow> bytes \<Rightarrow> bytes \<Rightarrow> Header" where
  "Populate h chainID timestamp lastBlockID consensusHash appHash proposerAddress =
     h\<lparr>hChainID := chainID, hTime := timestamp, hLastBlockID := lastBlockID, hConsensusHash := consensusHash,
       hAppHash := appHash, hProposer := proposerAddress\<rparr>"

definition header_ValidateBasic :: "Header \<Rightarrow> header_error option" where
  "header_ValidateBasic h =
     (if MaxChainIDLen < length (hChainID h) then Some ChainIDTooLong
      else if hHeight h < 0 then Some HeaderNegativeHeight
      else if hHeight h = 0 then Some HeaderZeroHeight
      else if \<not> bid_ValidateBasic (hLastBlockID h) then Some WrongLastBlockID
      else if \<not> ValidateHash (hLastCommitHash h) then Some WrongLastCommitHash
      else if \<not> ValidateHash (hDataHash h) then Some WrongDataHash
      else if length (hProposer h) \<noteq> AddressSize then Some InvalidProposerAddress
      else if \<not> ValidateHash (hConsensusHash h) then Some WrongConsensusHash
      else None)"

definition header_items :: "codec \<Rightarrow> Header \<Rightarrow> bytes \<Rightarrow> bytes list" where
  "header_items K h pbt =
     [cdcEncodeString K (hChainID h), cdcEncodeInt64 K (hHeight h), pbt, bid_Marshal (hLastBlockID h),
      cdcEncodeBytes K (hLastCommitHash h), cdcEncodeBytes K (hDataHash h), cdcEncodeBytes K (hConsensusHash h),
      cdcEncodeBytes K (hAppHash h), cdcEncodeBytes K (hProposer h)]"

definition header_Hash :: "env \<Rightarrow> codec \<Rightarrow> Header \<Rightarrow> bytes" where
  "header_Hash E K h =
     (case e_timeEnc E (hTime h) of None \<Rightarrow> [] | Some pbt \<Rightarrow> HashFromByteSlices (e_Sum E) (header_items K h pbt))"

definition HeaderFromProto :: "Header \<Rightarrow> header_error + Header" where
  "HeaderFromProto ph =
     (case BlockIDFromProto (hLastBlockID ph) of
        None \<Rightarrow> Inl WrongLastBlockID
      | Some bi \<Rightarrow> let h = ph\<lparr>hLastBlockID := bi\<rparr> in case header_ValidateBasic h of Some e \<Rightarrow> Inl e | None \<Rightarrow> Inr h)"

datatype block_error =
    NilBlock | InvalidHeader header_error | NilLastCommits | WrongLastCommits reply_error | LastCommitHashMismatch | DataHashMismatch

text \<open>\<open>fillHeader\<close> fills the two hashes that are still nil. The reply's hash panics when a time cannot be encoded.\<close>

definition fillHeader :: "env \<Rightarrow> Block \<Rightarrow> Reply \<Rightarrow> Block option" where
  "fillHeader E b lastReply =
     Option.bind (if hLastCommitHash (bHeader b) = [] then map_option (\<lambda>(h, r). b\<lparr>bHeader := (bHeader b)\<lparr>hLastCommitHash := h\<rparr>, bLastReply := Some r\<rparr>) (reply_Hash E lastReply) else Some b) (\<lambda>b1.
       Some (if hDataHash (bHeader b1) = []
             then (let (h, d) = data_Hash E (bData b1) in b1\<lparr>bHeader := (bHeader b1)\<lparr>hDataHash := h\<rparr>, bData := d\<rparr>)
             else b1))"

definition MakeBlock :: "env \<Rightarrow> int \<Rightarrow> bytes list \<Rightarrow> Reply \<Rightarrow> Block option" where
  "MakeBlock E height txs lastCommit =
     fillHeader E \<lparr>bHeader = \<lparr>hChainID = [], hHeight = height, hTime = zero_time, hLastBlockID = zero_bid, hLastCommitHash = [],
         hDataHash = [], hConsensusHash = [], hAppHash = [], hProposer = []\<rparr>,
       bData = \<lparr>dTxs = txs, dHash = None\<rparr>, bLastReply = Some lastCommit\<rparr> lastCommit"

definition block_ValidateBasic :: "env \<Rightarrow> Block option \<Rightarrow> block_error option option" where
  "block_ValidateBasic E nb =
     (case nb of
        None \<Rightarrow> Some (Some NilBlock)
      | Some b \<Rightarrow>
          (case header_ValidateBasic (bHeader b) of
             Some e \<Rightarrow> Some (Some (InvalidHeader e))
           | None \<Rightarrow>
               (case bLastReply b of
                  None \<Rightarrow> Some (Some NilLastCommits)
                | Some lastReply \<Rightarrow>
                    (case reply_ValidateBasic lastReply of
                       Some e \<Rightarrow> Some (Some (WrongLastCommits e))
                     | None \<Rightarrow>
                         Option.bind (reply_Hash E lastReply) (\<lambda>(h, _).
                           if hLastCommitHash (bHeader b) \<noteq> h then Some (Some LastCommitHashMismatch)
                           else if hDataHash (bHeader b) \<noteq> fst (data_Hash E (bData b)) then Some (Some DataHashMismatch)
                           else Some None)))))"

text \<open>\<open>Hash\<close> of a nil block, or of one without a last reply, is nil.\<close>

definition block_Hash :: "env \<Rightarrow> codec \<Rightarrow> Block option \<Rightarrow> (bytes \<times> Block option) option" where
  "block_Hash E K nb =
     (case nb of
        None \<Rightarrow> Some ([], None)
      | Some b \<Rightarrow>
          (case bLastReply b of
             None \<Rightarrow> Some ([], nb)
           | Some lastReply \<Rightarrow> map_option (\<lambda>b'. (header_Hash E K (bHeader b'), Some b')) (fillHeader E b lastReply)))"

definition block_MakePartSet :: "env \<Rightarrow> codec \<Rightarrow> Block option \<Rightarrow> int \<Rightarrow> PartSet option option" where
  "block_MakePartSet E K nb partSize =
     (case nb of None \<Rightarrow> Some None | Some b \<Rightarrow> map_option Some (NewPartSetFromData (e_Sum E) (k_blockEnc K b) partSize))"

definition block_EqualsTo :: "env \<Rightarrow> codec \<Rightarrow> Block option \<Rightarrow> bytes \<Rightarrow> bool option" where
  "block_EqualsTo E K nb hash =
     (if length hash = 0 then Some False
      else if nb = None then Some False
      else map_option (\<lambda>(h, _). h = hash) (block_Hash E K nb))"

definition block_Size :: "codec \<Rightarrow> Block \<Rightarrow> int" where
  "block_Size K b = int (length (k_blockEnc K b))"

definition BlockFromProto :: "env \<Rightarrow> Block \<Rightarrow> (block_error + Block) option" where
  "BlockFromProto E bp =
     (case HeaderFromProto (bHeader bp) of
        Inl e \<Rightarrow> Some (Inl (InvalidHeader e))
      | Inr h \<Rightarrow>
          (case (case bLastReply bp of None \<Rightarrow> Inr None | Some r \<Rightarrow> (case ReplyFromProto r of Inl e \<Rightarrow> Inl e | Inr lc \<Rightarrow> Inr (Some lc))) of
             Inl e \<Rightarrow> Some (Inl (WrongLastCommits e))
           | Inr lr \<Rightarrow>
               let b = \<lparr>bHeader = h, bData = DataFromProto (dTxs (bData bp)), bLastReply = lr\<rparr>
               in map_option (\<lambda>e. case e of Some e \<Rightarrow> Inl e | None \<Rightarrow> Inr b) (block_ValidateBasic E (Some b))))"

definition MaxDataBytes :: "int \<Rightarrow> int \<Rightarrow> int option" where
  "MaxDataBytes maxBytes valsCount =
     (let maxDataBytes = maxBytes - 11 - 626 - MaxReplyBytes valsCount
      in if maxDataBytes < 0 then None else Some maxDataBytes)"

subsection \<open>Block meta data\<close>

record BlockMeta =
  bmBlockID :: BlockID
  bmBlockSize :: int
  bmHeader :: Header
  bmNumTxs :: int

definition NewBlockMeta :: "env \<Rightarrow> codec \<Rightarrow> Block \<Rightarrow> PartSet \<Rightarrow> BlockMeta option" where
  "NewBlockMeta E K block blockParts =
     Option.bind (block_Hash E K (Some block)) (\<lambda>(hash, block'). map_option (\<lambda>b.
       \<lparr>bmBlockID = \<lparr>bidHash = hash, bidParts = ps_Header (Some blockParts)\<rparr>, bmBlockSize = block_Size K b,
        bmHeader = bHeader b, bmNumTxs = int (length (dTxs (bData b)))\<rparr>) block')"

datatype meta_error = MetaWrongBlockID | MetaHashMismatch

definition bm_ValidateBasic :: "env \<Rightarrow> codec \<Rightarrow> BlockMeta \<Rightarrow> meta_error option" where
  "bm_ValidateBasic E K bm =
     (if \<not> bid_ValidateBasic (bmBlockID bm) then Some MetaWrongBlockID
      else if bidHash (bmBlockID bm) \<noteq> header_Hash E K (bmHeader bm) then Some MetaHashMismatch
      else None)"

subsection \<open>Consensus parameters\<close>

record ConsensusParams =
  cpMaxBytes :: int
  cpTimeIotaMs :: int
  cpPubKeyTypes :: "string list"

definition MaxBlockSizeBytes :: int where "MaxBlockSizeBytes = 104857600"

definition DefaultConsensusParams :: ConsensusParams where
  "DefaultConsensusParams = \<lparr>cpMaxBytes = 22020096, cpTimeIotaMs = 1000, cpPubKeyTypes = [''ed25519'']\<rparr>"

definition IsValidPubkeyType :: "ConsensusParams \<Rightarrow> string \<Rightarrow> bool" where
  "IsValidPubkeyType params pubkeyType \<longleftrightarrow> pubkeyType \<in> set (cpPubKeyTypes params)"

datatype params_error = MaxBytesNotPositive | MaxBytesTooBig | TimeIotaNotPositive | NoPubKeyTypes | UnknownPubKeyType nat

fun firstUnknownType :: "nat \<Rightarrow> string list \<Rightarrow> params_error option" where
  "firstUnknownType i [] = None"
| "firstUnknownType i (t # ts) = (if t \<noteq> ''ed25519'' then Some (UnknownPubKeyType i) else firstUnknownType (Suc i) ts)"

definition ValidateConsensusParams :: "ConsensusParams \<Rightarrow> params_error option" where
  "ValidateConsensusParams params =
     (if cpMaxBytes params \<le> 0 then Some MaxBytesNotPositive
      else if MaxBlockSizeBytes < cpMaxBytes params then Some MaxBytesTooBig
      else if cpTimeIotaMs params \<le> 0 then Some TimeIotaNotPositive
      else if length (cpPubKeyTypes params) = 0 then Some NoPubKeyTypes
      else firstUnknownType 0 (cpPubKeyTypes params))"

definition HashConsensusParams :: "env \<Rightarrow> ConsensusParams \<Rightarrow> bytes" where
  "HashConsensusParams E params = e_Sum E (opt (cpMaxBytes params \<noteq> 0) (tag 1 0 @ putUvarint (word_of_int (cpMaxBytes params))))"


section \<open>What the encodings identify\<close>

text \<open>The wrapper messages of the protobuf library round-trip, and only the zero value has an empty encoding.\<close>

definition codec_inj :: "codec \<Rightarrow> bool" where
  "codec_inj K \<longleftrightarrow> inj (k_String K) \<and> inj_on (k_Int64 K) {x. in_range 64 x} \<and> inj (k_Bytes K) \<and>
     (\<forall>b. b \<noteq> [] \<longrightarrow> k_String K b \<noteq> [] \<and> k_Bytes K b \<noteq> [])"

lemma cdcEncode_inj:
  assumes "codec_inj K"
  shows "cdcEncodeString K a = cdcEncodeString K b \<Longrightarrow> a = b" "cdcEncodeBytes K a = cdcEncodeBytes K b \<Longrightarrow> a = b"
    "cdcEncodeInt64 K x = cdcEncodeInt64 K y \<Longrightarrow> in_range 64 x \<Longrightarrow> in_range 64 y \<Longrightarrow> x = y"
proof -
  have K: "inj (k_String K)" "inj_on (k_Int64 K) {x. in_range 64 x}" "inj (k_Bytes K)" "\<And>b. b \<noteq> [] \<Longrightarrow> k_String K b \<noteq> []"
    "\<And>b. b \<noteq> [] \<Longrightarrow> k_Bytes K b \<noteq> []" using assms unfolding codec_inj_def by blast+
  show "cdcEncodeString K a = cdcEncodeString K b \<Longrightarrow> a = b" unfolding cdcEncodeString_def using K(4) injD[OF K(1)] by metis
  show "cdcEncodeBytes K a = cdcEncodeBytes K b \<Longrightarrow> a = b" unfolding cdcEncodeBytes_def using K(5) injD[OF K(3)] by metis
  show "cdcEncodeInt64 K x = cdcEncodeInt64 K y \<Longrightarrow> in_range 64 x \<Longrightarrow> in_range 64 y \<Longrightarrow> x = y"
    unfolding cdcEncodeInt64_def using inj_onD[OF K(2)] by blast
qed

lemma bid_Marshal_inj:
  assumes "bid_Marshal a = bid_Marshal b" "bid_typed a" "bid_typed b" "int (length (bid_Marshal a)) \<le> MaxInt64"
  shows "a = b"
proof -
  let ?c = "\<lambda>b. \<lparr>cbHash = bidHash b, cbParts = CanonicalizePartSetHeader (bidParts b), cbUnrec = []\<rparr>"
  have c: "bid_Marshal b = cbid_Marshal (?c b)" for b
    by (simp add: bid_Marshal_def cbid_Marshal_def psh_Marshal_def cpsh_Marshal_def CanonicalizePartSetHeader_def)
  have ok: "cbid_ok (?c b)" if "bid_typed b" for b
    using that by (simp add: cbid_ok_def cpsh_ok_def bid_typed_def CanonicalizePartSetHeader_def)
  have "?c a = ?c b"
    using cbid_roundtrip[OF ok[OF assms(2)]] cbid_roundtrip[OF ok[OF assms(3)]] assms(1,4) unfolding c by (metis sum.inject(2))
  then show ?thesis by (auto simp: CanonicalizePartSetHeader_def intro!: BlockID.equality PartSetHeader.equality)
qed

text \<open>The integers of a header have their width; a byte slice is shorter than an \<open>int\<close> can count.\<close>

definition header_typed :: "Header \<Rightarrow> bool" where
  "header_typed h \<longleftrightarrow> in_range 64 (hHeight h) \<and> bid_typed (hLastBlockID h) \<and> int (length (bid_Marshal (hLastBlockID h))) \<le> MaxInt64"

lemma header_items_inj:
  assumes "time_codec E" "codec_inj K" "header_typed h" "header_typed h'" "e_timeEnc E (hTime h) = Some p" "e_timeEnc E (hTime h') = Some p'"
    and "header_items K h p = header_items K h' p'"
  shows "h = h'"
proof (rule Header.equality)
  note eqs = assms(7)[unfolded header_items_def list.inject]
  show "hTime h = hTime h'" using assms(1,5,6) eqs unfolding time_codec_def by (metis option.inject)
  show "hHeight h = hHeight h'" using cdcEncode_inj(3)[OF assms(2)] eqs assms(3,4) by (simp add: header_typed_def)
  show "hLastBlockID h = hLastBlockID h'" using bid_Marshal_inj eqs assms(3,4) by (simp add: header_typed_def)
  show "hChainID h = hChainID h'" using cdcEncode_inj(1)[OF assms(2)] eqs by blast
  show "hLastCommitHash h = hLastCommitHash h'" using cdcEncode_inj(2)[OF assms(2)] eqs by blast
  show "hDataHash h = hDataHash h'" using cdcEncode_inj(2)[OF assms(2)] eqs by blast
  show "hConsensusHash h = hConsensusHash h'" using cdcEncode_inj(2)[OF assms(2)] eqs by blast
  show "hAppHash h = hAppHash h'" using cdcEncode_inj(2)[OF assms(2)] eqs by blast
  show "hProposer h = hProposer h'" using cdcEncode_inj(2)[OF assms(2)] eqs by blast
qed simp

text \<open>The generated decoder of a reply signature; what it does not recognise is dropped by \<open>FromProto\<close>.\<close>

definition rs_Unmarshal :: "env \<Rightarrow> bytes \<Rightarrow> ReplySig \<Rightarrow> wire_error + ReplySig" where
  "rs_Unmarshal E dAtA =
     unmarshalLoop
       (\<lambda>f. if f = 1 then Some 0 else if f = 2 \<or> f = 3 \<or> f = 4 then Some 2 else None)
       (\<lambda>f v m. case v of
          Varint w \<Rightarrow> Inr (m\<lparr>rsFlag := sint (ucast w :: 32 word)\<rparr>)
        | LenBytes b \<Rightarrow>
            if f = 2 then Inr (m\<lparr>rsAddress := b\<rparr>)
            else if f = 3 then (case e_timeDec E b of None \<Rightarrow> Inl ErrTime | Some t \<Rightarrow> Inr (m\<lparr>rsTimestamp := t\<rparr>))
            else Inr (m\<lparr>rsSignature := b\<rparr>)
        | _ \<Rightarrow> Inl ErrWrongWireType)
       (\<lambda>b m. m) (length dAtA) dAtA"

lemma rs_roundtrip:
  assumes E: "time_codec E" and enc: "rs_Marshal E s = Some b" and flag: "in_range 32 (rsFlag s)" and len: "int (length b) \<le> MaxInt64"
  shows "rs_Unmarshal E b zero_sig = Inr s"
proof -
  obtain tm where tm: "e_timeEnc E (rsTimestamp s) = Some tm" "e_timeDec E tm = Some (rsTimestamp s)"
    using E enc by (auto simp: rs_Marshal_def time_codec_def)
  have b: "b = the (rs_Marshal E s)" using enc by simp
  show ?thesis
    using flag len tm unfolding rs_Unmarshal_def
    by (auto simp: b rs_Marshal_def opt_def zero_sig_def wire_fields wire_ints simp del: One_nat_def)
qed

definition sigs_typed :: "env \<Rightarrow> ReplySig list \<Rightarrow> bool" where
  "sigs_typed E sigs \<longleftrightarrow> (\<forall>s\<in>set sigs. in_range 32 (rsFlag s) \<and> (\<forall>b. rs_Marshal E s = Some b \<longrightarrow> int (length b) \<le> MaxInt64))"

lemma sigs_inj:
  assumes "time_codec E" "sigs_typed E xs" "sigs_typed E ys" "those (map (rs_Marshal E) xs) = Some bs" "those (map (rs_Marshal E) ys) = Some bs"
  shows "xs = ys"
  using assms(2-5)
proof (induction xs arbitrary: ys bs)
  case Nil
  then show ?case by (cases ys) (auto split: option.splits)
next
  case (Cons x xs)
  then obtain y ys' where ys: "ys = y # ys'" by (cases ys) (auto split: option.splits)
  obtain b bs' where b: "bs = b # bs'" "rs_Marshal E x = Some b" "those (map (rs_Marshal E) xs) = Some bs'"
      "rs_Marshal E y = Some b" "those (map (rs_Marshal E) ys') = Some bs'"
    using Cons.prems(3,4) ys by (auto split: option.splits)
  have "x = y" using rs_roundtrip[OF assms(1) b(2)] rs_roundtrip[OF assms(1) b(4)] Cons.prems(1,2) ys b(2) by (auto simp: sigs_typed_def)
  moreover have "xs = ys'" using Cons.prems(1,2) ys b by (intro Cons.IH[OF _ _ b(3,5)]) (auto simp: sigs_typed_def)
  ultimately show ?case using ys by simp
qed


section \<open>What a block hash identifies\<close>

text \<open>A block as \<open>BlockFromProto\<close> builds it: nothing memorised yet.\<close>

definition fresh_block :: "Block \<Rightarrow> bool" where
  "fresh_block b \<longleftrightarrow> dHash (bData b) = None \<and> (\<forall>r. bLastReply b = Some r \<longrightarrow> rpHash r = None)"

definition block_typed :: "env \<Rightarrow> Block \<Rightarrow> bool" where
  "block_typed E b \<longleftrightarrow> header_typed (bHeader b) \<and> (\<forall>r. bLastReply b = Some r \<longrightarrow> sigs_typed E (rpSignatures r)) \<and>
     e_timeEnc E (hTime (bHeader b)) \<noteq> None"

text \<open>The strings hashed for the hash of a valid block: the header tree, the transactions and their tree, the signatures.\<close>

definition blockInputs :: "env \<Rightarrow> codec \<Rightarrow> Block \<Rightarrow> bytes list" where
  "blockInputs E K b = treeInputs (e_Sum E) (header_items K (bHeader b) (the (e_timeEnc E (hTime (bHeader b))))) @
     dTxs (bData b) @ treeInputs (e_Sum E) (map (tx_Hash E) (dTxs (bData b))) @
     treeInputs (e_Sum E) (the (those (map (rs_Marshal E) (rpSignatures (the (bLastReply b))))))"

lemma map_hash_inj: "map H xs = map H ys \<Longrightarrow> xs = ys \<or> collision H xs ys"
proof (induction xs arbitrary: ys)
  case (Cons x xs)
  then obtain y ys' where "ys = y # ys'" "H x = H y" "map H xs = map H ys'" by auto
  then show ?case using Cons.IH[of ys'] by (auto simp: collision_def)
qed simp

lemma ValidateBasic_hashes:
  assumes "block_ValidateBasic E (Some b) = Some None" "fresh_block b"
  obtains r bs where "bLastReply b = Some r" "those (map (rs_Marshal E) (rpSignatures r)) = Some bs"
    "hLastCommitHash (bHeader b) = HashFromByteSlices (e_Sum E) bs" "hDataHash (bHeader b) = txs_Hash E (dTxs (bData b))"
    "rpHeight r \<ge> 0" "reply_ValidateBasic r = None"
  using assms
  by (auto simp: block_ValidateBasic_def fresh_block_def reply_Hash_def data_Hash_def Let_def bind_Some reply_ValidateBasic_def
      split: option.splits if_splits)

lemma valid_block_Hash:
  assumes "\<And>bz. length (e_Sum E bz) = 32" "block_ValidateBasic E (Some b) = Some None" "fresh_block b"
  shows "block_Hash E K (Some b) = Some (header_Hash E K (bHeader b), Some b)"
proof -
  obtain r bs where r: "bLastReply b = Some r" "hLastCommitHash (bHeader b) = HashFromByteSlices (e_Sum E) bs"
    "hDataHash (bHeader b) = txs_Hash E (dTxs (bData b))" using ValidateBasic_hashes[OF assms(2,3)] by metis
  have "length (HashFromByteSlices (e_Sum E) xs) = 32" for xs
    using hash32.length_tree[of "e_Sum E" xs] assms(1) by (simp add: hash32_def)
  then have "length (hLastCommitHash (bHeader b)) = 32" "length (hDataHash (bHeader b)) = 32" using r by (simp_all add: txs_Hash_def)
  then have "hLastCommitHash (bHeader b) \<noteq> []" "hDataHash (bHeader b) \<noteq> []" by auto
  then show ?thesis using r(1) by (simp add: block_Hash_def fillHeader_def)
qed


lemma block_hash_binds:
  assumes H: "\<And>bz. length (e_Sum E bz) = 32" and tc: "time_codec E" and K: "codec_inj K"
    and v: "block_ValidateBasic E (Some b) = Some None" "block_ValidateBasic E (Some b') = Some None"
    and f: "fresh_block b" "fresh_block b'" and ty: "block_typed E b" "block_typed E b'"
    and h: "block_Hash E K (Some b) = Some (h, c)" "block_Hash E K (Some b') = Some (h, c')"
  shows "bHeader b = bHeader b' \<and> dTxs (bData b) = dTxs (bData b') \<and>
      map_option rpSignatures (bLastReply b) = map_option rpSignatures (bLastReply b') \<or>
    collision (e_Sum E) (blockInputs E K b) (blockInputs E K b')"
proof (rule disjCI)
  assume none: "\<not> collision (e_Sum E) (blockInputs E K b) (blockInputs E K b')"
  have tb: "xs = ys" if "HashFromByteSlices (e_Sum E) xs = HashFromByteSlices (e_Sum E) ys"
      "set (treeInputs (e_Sum E) xs) \<subseteq> set (blockInputs E K b)" "set (treeInputs (e_Sum E) ys) \<subseteq> set (blockInputs E K b')" for xs ys
    using hash32.tree_binds[of "e_Sum E" xs ys] H that none by (auto simp: hash32_def dest: collision_mono)
  obtain p p' where p: "e_timeEnc E (hTime (bHeader b)) = Some p" "e_timeEnc E (hTime (bHeader b')) = Some p'"
    using ty by (auto simp: block_typed_def)
  have "header_Hash E K (bHeader b) = header_Hash E K (bHeader b')"
    using h valid_block_Hash[OF H v(1) f(1), of K] valid_block_Hash[OF H v(2) f(2), of K] by simp
  then have "header_items K (bHeader b) p = header_items K (bHeader b') p'"
    using p by (intro tb) (auto simp: header_Hash_def blockInputs_def)
  then have hd: "bHeader b = bHeader b'"
    using header_items_inj[OF tc K _ _ p] ty by (simp add: block_typed_def)
  obtain r bs where r: "bLastReply b = Some r" "those (map (rs_Marshal E) (rpSignatures r)) = Some bs"
    "hLastCommitHash (bHeader b) = HashFromByteSlices (e_Sum E) bs" "hDataHash (bHeader b) = txs_Hash E (dTxs (bData b))"
    using ValidateBasic_hashes[OF v(1) f(1)] by metis
  obtain r' bs' where r': "bLastReply b' = Some r'" "those (map (rs_Marshal E) (rpSignatures r')) = Some bs'"
    "hLastCommitHash (bHeader b') = HashFromByteSlices (e_Sum E) bs'" "hDataHash (bHeader b') = txs_Hash E (dTxs (bData b'))"
    using ValidateBasic_hashes[OF v(2) f(2)] by metis
  have "map (tx_Hash E) (dTxs (bData b)) = map (tx_Hash E) (dTxs (bData b'))"
    using r(4) r'(4) hd by (intro tb) (auto simp: txs_Hash_def blockInputs_def)
  moreover have "tx_Hash E = e_Sum E" by (rule ext) (simp add: tx_Hash_def)
  ultimately have "map (e_Sum E) (dTxs (bData b)) = map (e_Sum E) (dTxs (bData b'))" by simp
  moreover have "\<not> collision (e_Sum E) (dTxs (bData b)) (dTxs (bData b'))"
    using none by (auto simp: blockInputs_def collision_def)
  ultimately have txs: "dTxs (bData b) = dTxs (bData b')" using map_hash_inj by blast
  have "bs = bs'" using r r' hd by (intro tb) (auto simp: blockInputs_def)
  then have "rpSignatures r = rpSignatures r'"
    using sigs_inj[OF tc _ _ r(2)] r r' ty by (simp add: block_typed_def)
  then show "bHeader b = bHeader b' \<and> dTxs (bData b) = dTxs (bData b') \<and>
      map_option rpSignatures (bLastReply b) = map_option rpSignatures (bLastReply b')"
    using hd txs r r' by simp
qed


section \<open>Properties\<close>

text \<open>Property C22: two blocks that pass the basic check and have the same hash agree in the header, the transactions and
  the signatures of the last reply, unless the strings hashed for them exhibit a collision of the 32 byte hash. The
  encodings are those of the code; the time and wrapper encodings of the protobuf library are assumed to round-trip.\<close>

theorem block_hash_binds_block:
  assumes "\<And>bz. length (e_Sum E bz) = 32" and "time_codec E" and "codec_inj K"
    and "block_ValidateBasic E (Some b) = Some None" "block_ValidateBasic E (Some b') = Some None"
    and "fresh_block b" "fresh_block b'" and "block_typed E b" "block_typed E b'"
    and "block_Hash E K (Some b) = Some (h, c)" "block_Hash E K (Some b') = Some (h, c')"
  shows "bHeader b = bHeader b' \<and> dTxs (bData b) = dTxs (bData b') \<and>
      map_option rpSignatures (bLastReply b) = map_option rpSignatures (bLastReply b') \<or>
    collision (e_Sum E) (blockInputs E K b) (blockInputs E K b')"
  using assms by (rule block_hash_binds)

definition sample_codec :: codec where
  "sample_codec = \<lparr>k_String = (\<lambda>b. 1 # b), k_Int64 = (\<lambda>i. putUvarint (word_of_int i)), k_Bytes = (\<lambda>b. 2 # b),
     k_blockEnc = (\<lambda>b. [3]), k_blockDec = (\<lambda>b. None)\<rparr>"

definition sample_block :: Block where
  "sample_block = the (map_option (\<lambda>b. b\<lparr>bHeader := (bHeader b)\<lparr>hProposer := replicate 20 1, hTime := 5\<rparr>,
      bData := (bData b)\<lparr>dHash := None\<rparr>, bLastReply := Some (NewReply 0 0 zero_bid [])\<rparr>)
    (MakeBlock sample_env 1 [[1], [2]] (NewReply 0 0 zero_bid [])))"

lemma sample_codec_inj: "codec_inj sample_codec"
proof -
  have "x = y" if "in_range 64 x" "in_range 64 y" "putUvarint (word_of_int x) = putUvarint (word_of_int y)" for x y
    using putUvarint_append_inj[of "word_of_int x" "[]" "word_of_int y" "[]"] that
    by simp (metis sint64_word_of_int)
  then show ?thesis by (auto simp: codec_inj_def sample_codec_def inj_on_def)
qed

lemma sample_block_facts:
  "block_ValidateBasic sample_env (Some sample_block) = Some None" "dHash (bData sample_block) = None"
  "bLastReply sample_block = Some (NewReply 0 0 zero_bid [])"
  "in_range 64 (hHeight (bHeader sample_block))" "bid_typed (hLastBlockID (bHeader sample_block))"
  "int (length (bid_Marshal (hLastBlockID (bHeader sample_block)))) \<le> MaxInt64" "e_timeEnc sample_env (hTime (bHeader sample_block)) \<noteq> None"
  by code_simp+

theorem block_hash_binds_block_witness:
  "bHeader sample_block = bHeader sample_block \<and> dTxs (bData sample_block) = dTxs (bData sample_block) \<and>
      map_option rpSignatures (bLastReply sample_block) = map_option rpSignatures (bLastReply sample_block) \<or>
    collision (e_Sum sample_env) (blockInputs sample_env sample_codec sample_block) (blockInputs sample_env sample_codec sample_block)"
proof -
  have H: "\<And>bz. length (e_Sum sample_env bz) = 32" by (simp add: sample_env_def)
  have f: "fresh_block sample_block" using sample_block_facts(2,3) by (simp add: fresh_block_def NewReply_def)
  have ty: "block_typed sample_env sample_block"
    using sample_block_facts(3-7) by (simp add: block_typed_def header_typed_def sigs_typed_def NewReply_def)
  show ?thesis
    using block_hash_binds_block[OF H sample_time_codec sample_codec_inj sample_block_facts(1,1) f f ty ty
        valid_block_Hash[OF H sample_block_facts(1) f] valid_block_Hash[OF H sample_block_facts(1) f]] .
qed

text \<open>The proof \<open>Txs.Proof\<close> builds for any transaction of a block carries that transaction and is accepted by
  \<open>TxProof.Validate\<close> against the data hash of the block.\<close>

theorem tx_proof_validates:
  assumes "i < length txs"
  shows "\<exists>tp. txs_Proof E txs (int i) = Some tp \<and> tpData tp = txs ! i \<and> tp_Validate E tp (txs_Hash E txs) = None"
proof -
  let ?hs = "map (tx_Hash E) txs"
  have "proof_Verify (e_Sum E) \<lparr>Total = int (length ?hs), Index = int i, LeafHash = leafHash (e_Sum E) (?hs ! i), Aunts = auntsOf (e_Sum E) ?hs i\<rparr>
      (HashFromByteSlices (e_Sum E) ?hs) (?hs ! i) = None"
    using assms computeHash_auntsOf[of i ?hs "e_Sum E"] by (simp add: proof_Verify_def ComputeRootHash_def)
  then show ?thesis
    using assms by (auto simp: txs_Proof_def ProofsFromByteSlices_eq tp_Validate_def txs_Hash_def tp_Leaf_def)
qed

theorem tx_proof_validates_witness:
  "\<exists>tp. txs_Proof sample_env [[1], [2], [3]] 2 = Some tp \<and> tpData tp = [3] \<and> tp_Validate sample_env tp (txs_Hash sample_env [[1], [2], [3]]) = None"
  using tx_proof_validates[of 2 "[[1], [2], [3]]" sample_env] by simp

end
