(* ===== verification/CLists.thy ===== *)
theory CLists
  imports Prelude
begin

text \<open>
  \<open>libs/clist/clist.go\<close>: the doubly linked list the mempool keeps its transactions in. Elements live in an explicit
  heap: an element is its index, links are optional indices, allocation appends. A wait channel and the wait group
  beside it are one flag, set once they are closed; closing them twice panics, and a panic is \<open>None\<close>. The locks make
  every operation atomic, so operations are steps. Blocking waits (\<open>NextWait\<close>, \<open>FrontWait\<close>, \<dots>) return what \<open>Next\<close>,
  \<open>Front\<close>, \<dots> return once the flag is set.
\<close>

section \<open>Elements and lists\<close>

record 'v CElement =
  cePrev :: "nat option"
  cePrevClosed :: bool
  ceNext :: "nat option"
  ceNextClosed :: bool
  ceRemoved :: bool
  ceValue :: 'v

record 'v CList =
  clHeap :: "'v CElement list"
  clClosed :: bool
  clHead :: "nat option"
  clTail :: "nat option"
  clLen :: int
  clMax :: int

definition elem :: "'v CList \<Rightarrow> nat \<Rightarrow> 'v CElement" where
  "elem l e = clHeap l ! e"

definition put :: "'v CList \<Rightarrow> nat \<Rightarrow> 'v CElement \<Rightarrow> 'v CList" where
  "put l e c = l\<lparr>clHeap := (clHeap l)[e := c]\<rparr>"

definition ce_Next :: "'v CList \<Rightarrow> nat \<Rightarrow> nat option" where
  "ce_Next l e = ceNext (elem l e)"

definition ce_Prev :: "'v CList \<Rightarrow> nat \<Rightarrow> nat option" where
  "ce_Prev l e = cePrev (elem l e)"

definition ce_Removed :: "'v CList \<Rightarrow> nat \<Rightarrow> bool" where
  "ce_Removed l e = ceRemoved (elem l e)"

definition DetachNext :: "'v CList \<Rightarrow> nat \<Rightarrow> 'v CList option" where
  "DetachNext l e = (if \<not> ceRemoved (elem l e) then None else Some (put l e ((elem l e)\<lparr>ceNext := None\<rparr>)))"

definition DetachPrev :: "'v CList \<Rightarrow> nat \<Rightarrow> 'v CList option" where
  "DetachPrev l e = (if \<not> ceRemoved (elem l e) then None else Some (put l e ((elem l e)\<lparr>cePrev := None\<rparr>)))"

definition SetNext :: "'v CList \<Rightarrow> nat \<Rightarrow> nat option \<Rightarrow> 'v CList option" where
  "SetNext l e newNext =
     (let c = elem l e;
          oldNext = ceNext c;
          c1 = c\<lparr>ceNext := newNext\<rparr>;
          c2 = (if oldNext \<noteq> None \<and> newNext = None then c1\<lparr>ceNextClosed := False\<rparr> else c1)
      in if oldNext = None \<and> newNext \<noteq> None
         then (if ceNextClosed c2 then None else Some (put l e (c2\<lparr>ceNextClosed := True\<rparr>)))
         else Some (put l e c2))"

definition SetPrev :: "'v CList \<Rightarrow> nat \<Rightarrow> nat option \<Rightarrow> 'v CList option" where
  "SetPrev l e newPrev =
     (let c = elem l e;
          oldPrev = cePrev c;
          c1 = c\<lparr>cePrev := newPrev\<rparr>;
          c2 = (if oldPrev \<noteq> None \<and> newPrev = None then c1\<lparr>cePrevClosed := False\<rparr> else c1)
      in if oldPrev = None \<and> newPrev \<noteq> None
         then (if cePrevClosed c2 then None else Some (put l e (c2\<lparr>cePrevClosed := True\<rparr>)))
         else Some (put l e c2))"

definition SetRemoved :: "'v CList \<Rightarrow> nat \<Rightarrow> 'v CList option" where
  "SetRemoved l e =
     (let c = (elem l e)\<lparr>ceRemoved := True\<rparr>
      in if cePrev c = None \<and> cePrevClosed c then None
         else let c1 = (if cePrev c = None then c\<lparr>cePrevClosed := True\<rparr> else c)
         in if ceNext c1 = None \<and> ceNextClosed c1 then None
            else Some (put l e (if ceNext c1 = None then c1\<lparr>ceNextClosed := True\<rparr> else c1)))"

definition cl_Init :: "'v CList \<Rightarrow> 'v CList" where
  "cl_Init l = l\<lparr>clClosed := False, clHead := None, clTail := None, clLen := 0\<rparr>"

definition newWithMax :: "int \<Rightarrow> 'v CList" where
  "newWithMax maxLength =
     cl_Init \<lparr>clHeap = [], clClosed = False, clHead = None, clTail = None, clLen = 0, clMax = maxLength\<rparr>"

definition cl_New :: "'v CList" where
  "cl_New = newWithMax MaxInt64"

definition cl_Len :: "'v CList \<Rightarrow> int" where
  "cl_Len l = clLen l"

definition cl_Front :: "'v CList \<Rightarrow> nat option" where
  "cl_Front l = clHead l"

definition cl_Back :: "'v CList \<Rightarrow> nat option" where
  "cl_Back l = clTail l"

definition PushBack :: "'v CList \<Rightarrow> 'v \<Rightarrow> ('v CList \<times> nat) option" where
  "PushBack l v =
     (let e = length (clHeap l);
          l1 = l\<lparr>clHeap := clHeap l @ [\<lparr>cePrev = None, cePrevClosed = False, ceNext = None, ceNextClosed = False, ceRemoved = False, ceValue = v\<rparr>]\<rparr>
      in if clLen l = 0 \<and> clClosed l then None
         else let l2 = (if clLen l = 0 then l1\<lparr>clClosed := True\<rparr> else l1)
         in if clMax l \<le> clLen l then None
            else let l3 = l2\<lparr>clLen := clLen l + 1\<rparr>
            in (case clTail l of
                  None \<Rightarrow> Some (l3\<lparr>clHead := Some e, clTail := Some e\<rparr>, e)
                | Some t \<Rightarrow>
                    Option.bind (SetPrev l3 e (Some t)) (\<lambda>l4.
                    Option.bind (SetNext l4 t (Some e)) (\<lambda>l5.
                    Some (l5\<lparr>clTail := Some e\<rparr>, e)))))"

definition cl_Remove :: "'v CList \<Rightarrow> nat \<Rightarrow> ('v CList \<times> 'v) option" where
  "cl_Remove l e =
     (let prev = ce_Prev l e; nxt = ce_Next l e
      in if clHead l = None \<or> clTail l = None then None
         else if prev = None \<and> clHead l \<noteq> Some e then None
         else if nxt = None \<and> clTail l \<noteq> Some e then None
         else let l1 = (if clLen l = 1 then l\<lparr>clClosed := False\<rparr> else l);
                  l2 = l1\<lparr>clLen := clLen l - 1\<rparr>
         in Option.bind (case prev of None \<Rightarrow> Some (l2\<lparr>clHead := nxt\<rparr>) | Some p \<Rightarrow> SetNext l2 p nxt) (\<lambda>l3.
            Option.bind (case nxt of None \<Rightarrow> Some (l3\<lparr>clTail := prev\<rparr>) | Some n \<Rightarrow> SetPrev l3 n prev) (\<lambda>l4.
            map_option (\<lambda>l5. (l5, ceValue (elem l5 e))) (SetRemoved l4 e))))"


section \<open>Doubly linked segments\<close>

definition first :: "nat list \<Rightarrow> nat option \<Rightarrow> nat option" where
  "first xs q = (case xs of [] \<Rightarrow> q | x # _ \<Rightarrow> Some x)"

definition final :: "nat option \<Rightarrow> nat list \<Rightarrow> nat option" where
  "final p xs = (if xs = [] then p else Some (last xs))"

lemma first_final_simps [simp]:
  "first [] q = q" "first (x # xs) q = Some x" "final p [] = p" "final p (x # xs) = final (Some x) xs"
  "final p (xs @ ys) = final (final p xs) ys" "first (xs @ ys) q = first xs (first ys q)"
  by (auto simp: first_def final_def split: list.splits)

lemma first_final_None [simp]: "first xs None = None \<longleftrightarrow> xs = []" "final None xs = None \<longleftrightarrow> xs = []"
  by (auto simp: first_def final_def split: list.splits)

definition node_ok :: "'v CElement \<Rightarrow> nat option \<Rightarrow> nat option \<Rightarrow> bool" where
  "node_ok c p n \<longleftrightarrow> cePrev c = p \<and> ceNext c = n \<and> cePrevClosed c = (p \<noteq> None) \<and> ceNextClosed c = (n \<noteq> None) \<and> \<not> ceRemoved c"

fun dll :: "'v CElement list \<Rightarrow> nat option \<Rightarrow> nat list \<Rightarrow> nat option \<Rightarrow> bool" where
  "dll h p [] q \<longleftrightarrow> True"
| "dll h p (x # xs) q \<longleftrightarrow> x < length h \<and> node_ok (h ! x) p (first xs q) \<and> dll h (Some x) xs q"

lemma dll_append: "dll h p (xs @ ys) q \<longleftrightarrow> dll h p xs (first ys q) \<and> dll h (final p xs) ys q"
  by (induction xs arbitrary: p) auto

lemma dll_cong: "length h \<le> length h' \<Longrightarrow> \<forall>x\<in>set xs. h ! x = h' ! x \<Longrightarrow> dll h p xs q \<Longrightarrow> dll h' p xs q"
  by (induction xs arbitrary: p) auto

lemma dll_update: "e \<notin> set xs \<Longrightarrow> dll h p xs q \<Longrightarrow> dll (h[e := c]) p xs q"
  by (erule dll_cong[rotated 2]) (simp, metis nth_list_update_neq)

lemma dll_extend: "dll h p xs q \<Longrightarrow> dll (h @ cs) p xs q"
  by (induction xs arbitrary: p) (auto simp: nth_append)

lemma dll_bound: "dll h p xs q \<Longrightarrow> x \<in> set xs \<Longrightarrow> x < length h"
  by (induction xs arbitrary: p) auto

lemma dll_node: "dll h p (ys @ e # zs) q \<Longrightarrow> e < length h \<and> node_ok (h ! e) (final p ys) (first zs q)"
  by (simp add: dll_append)

definition gone :: "'v CElement \<Rightarrow> bool" where
  "gone c \<longleftrightarrow> ceRemoved c \<and> cePrev c = None \<and> ceNextClosed c \<and> cePrevClosed c"

text \<open>The list holds the elements \<open>xs\<close>; every element outside it was removed and detached from its predecessor.\<close>

definition cl_inv :: "'v CList \<Rightarrow> nat list \<Rightarrow> bool" where
  "cl_inv l xs \<longleftrightarrow> dll (clHeap l) None xs None \<and> distinct xs \<and> clHead l = first xs None \<and> clTail l = final None xs \<and>
     clLen l = int (length xs) \<and> clClosed l = (xs \<noteq> []) \<and>
     (\<forall>e<length (clHeap l). e \<notin> set xs \<longrightarrow> gone (elem l e))"

lemma cl_inv_bound: "cl_inv l xs \<Longrightarrow> x \<in> set xs \<Longrightarrow> x < length (clHeap l)"
  by (auto simp: cl_inv_def dest: dll_bound)

lemma cl_inv_Next:
  assumes "cl_inv l (ys @ e # zs)"
  shows "ce_Next l e = first zs None" "ce_Prev l e = final None ys" "\<not> ce_Removed l e"
  using assms dll_node[of "clHeap l" None ys e zs None]
  by (auto simp: cl_inv_def ce_Next_def ce_Prev_def ce_Removed_def elem_def node_ok_def)

lemma cl_inv_New: "cl_inv cl_New []"
  by (simp add: cl_inv_def cl_New_def newWithMax_def cl_Init_def)

lemma PushBack_inv:
  assumes inv: "cl_inv l xs" and max: "int (length xs) < clMax l"
  obtains l' where "PushBack l v = Some (l', length (clHeap l))" "cl_inv l' (xs @ [length (clHeap l)])"
    "clMax l' = clMax l" "length (clHeap l') = Suc (length (clHeap l))"
    "\<And>x. x < length (clHeap l) \<Longrightarrow> ceValue (elem l' x) = ceValue (elem l x)" "ceValue (elem l' (length (clHeap l))) = v"
proof (cases xs rule: rev_cases)
  case Nil
  let ?n = "length (clHeap l)"
  let ?c = "\<lparr>cePrev = None, cePrevClosed = False, ceNext = None, ceNextClosed = False, ceRemoved = False, ceValue = v\<rparr>"
  let ?l = "l\<lparr>clHeap := clHeap l @ [?c], clClosed := True, clLen := 1, clHead := Some ?n, clTail := Some ?n\<rparr>"
  have "PushBack l v = Some (?l, ?n)" using inv max Nil by (simp add: PushBack_def cl_inv_def Let_def)
  moreover have "cl_inv ?l (xs @ [?n])"
    using inv Nil by (auto simp: cl_inv_def elem_def nth_append less_Suc_eq node_ok_def)
  ultimately show ?thesis using that[of ?l] by (simp add: elem_def nth_append)
next
  case (snoc ys t)
  let ?n = "length (clHeap l)"
  have d: "dll (clHeap l) None ys (Some t)" "node_ok (clHeap l ! t) (final None ys) None" "t < ?n" "t \<notin> set ys" "?n \<notin> set ys"
    using inv snoc dll_bound[of "clHeap l" None xs None ?n] by (auto simp: cl_inv_def dll_append)
  let ?c = "\<lparr>cePrev = Some t, cePrevClosed = True, ceNext = None, ceNextClosed = False, ceRemoved = False, ceValue = v\<rparr>"
  let ?t = "(clHeap l ! t)\<lparr>ceNext := Some ?n, ceNextClosed := True\<rparr>"
  let ?l = "l\<lparr>clHeap := (clHeap l @ [?c])[t := ?t], clLen := clLen l + 1, clTail := Some ?n\<rparr>"
  have tail: "clTail l = Some t" "clLen l = int (length xs)" "clLen l \<noteq> 0" using inv snoc by (auto simp: cl_inv_def)
  have "PushBack l v = Some (?l, ?n)"
    using d tail max by (simp add: PushBack_def Let_def SetPrev_def SetNext_def elem_def put_def nth_append node_ok_def list_update_append)
  moreover have "cl_inv ?l (xs @ [?n])"
  proof -
    have "dll ((clHeap l @ [?c])[t := ?t]) None ys (Some t)" using d by (intro dll_update dll_extend)
    moreover have "node_ok ((clHeap l @ [?c])[t := ?t] ! t) (final None ys) (Some ?n)" "node_ok ((clHeap l @ [?c])[t := ?t] ! ?n) (Some t) None"
      using d by (auto simp: node_ok_def nth_append)
    ultimately have "dll (clHeap ?l) None (xs @ [?n]) None" using snoc d(3) by (simp add: dll_append)
    moreover have "distinct (xs @ [?n])" using inv cl_inv_bound[OF inv, of ?n] by (auto simp: cl_inv_def)
    ultimately show ?thesis
      using inv snoc by (auto simp: cl_inv_def elem_def nth_append less_Suc_eq nth_list_update)
  qed
  ultimately show ?thesis
    using that[of ?l] d(3) by (auto simp: elem_def nth_append nth_list_update)
qed

lemma SetNext_ok:
  assumes "node_ok (elem l x) p n"
  obtains c where "SetNext l x new = Some (put l x c)" "node_ok c p new" "ceValue c = ceValue (elem l x)"
  using assms that by (cases n; cases new) (auto simp: SetNext_def Let_def node_ok_def)

lemma SetPrev_ok:
  assumes "node_ok (elem l x) p n"
  obtains c where "SetPrev l x new = Some (put l x c)" "node_ok c new n" "ceValue c = ceValue (elem l x)"
  using assms that by (cases p; cases new) (auto simp: SetPrev_def Let_def node_ok_def)

lemma SetRemoved_ok:
  assumes "node_ok (elem l x) p n"
  obtains c where "SetRemoved l x = Some (put l x c)" "gone (c\<lparr>cePrev := None\<rparr>)" "ceNext c = n" "ceValue c = ceValue (elem l x)"
  using assms that by (cases p; cases n) (auto simp: SetRemoved_def Let_def node_ok_def gone_def)

lemma put_simps [simp]:
  "length (clHeap (put l e c)) = length (clHeap l)" "clHead (put l e c) = clHead l" "clTail (put l e c) = clTail l"
  "clLen (put l e c) = clLen l" "clMax (put l e c) = clMax l" "clClosed (put l e c) = clClosed l"
  "clHeap (put l e c) = (clHeap l)[e := c]"
  "e < length (clHeap l) \<Longrightarrow> elem (put l e c) e = c" "x \<noteq> e \<Longrightarrow> elem (put l e c) x = elem l x"
  by (simp_all add: put_def elem_def)

text \<open>The part of a heap that \<open>Remove\<close> rewrites around the element.\<close>

definition unlinked :: "'v CList \<Rightarrow> 'v CList \<Rightarrow> nat list \<Rightarrow> nat \<Rightarrow> nat list \<Rightarrow> bool" where
  "unlinked l l' ys e zs \<longleftrightarrow> length (clHeap l') = length (clHeap l) \<and> dll (clHeap l') None (ys @ zs) None \<and>
     elem l' e = elem l e \<and> (\<forall>x. ceValue (elem l' x) = ceValue (elem l x)) \<and>
     (\<forall>x. x \<notin> set (ys @ zs) \<longrightarrow> elem l' x = elem l x) \<and> clHead l' = first (ys @ zs) None \<and> clTail l' = final None (ys @ zs) \<and>
     clLen l' = clLen l - 1 \<and> clMax l' = clMax l \<and> clClosed l' = (clLen l \<noteq> 1 \<and> clClosed l)"

lemma unlink:
  assumes inv: "cl_inv l (ys @ e # zs)" and l2: "l2 = (if clLen l = 1 then l\<lparr>clClosed := False\<rparr> else l)\<lparr>clLen := clLen l - 1\<rparr>"
  obtains l3 l4 where
    "(case final None ys of None \<Rightarrow> Some (l2\<lparr>clHead := first zs None\<rparr>) | Some p \<Rightarrow> SetNext l2 p (first zs None)) = Some l3"
    "(case first zs None of None \<Rightarrow> Some (l3\<lparr>clTail := final None ys\<rparr>) | Some n \<Rightarrow> SetPrev l3 n (final None ys)) = Some l4"
    "unlinked l l4 ys e zs"
proof (cases ys rule: rev_cases)
  case Nil
  show ?thesis
  proof (cases zs)
    case zs: Nil
    show ?thesis
      using that[of "l2\<lparr>clHead := None\<rparr>" "l2\<lparr>clHead := None, clTail := None\<rparr>"] inv l2 Nil zs
      by (auto simp: unlinked_def cl_inv_def elem_def)
  next
    case (Cons n zs')
    have n: "node_ok (elem l n) (Some e) (first zs' None)" "n < length (clHeap l)" "n \<notin> set zs'" "e \<noteq> n" "dll (clHeap l) (Some n) zs' None"
      using inv Nil Cons by (auto simp: cl_inv_def elem_def)
    then have "node_ok (elem (l2\<lparr>clHead := Some n\<rparr>) n) (Some e) (first zs' None)" using l2 by (simp add: elem_def)
    from SetPrev_ok[OF this, of None] obtain c where c: "SetPrev (l2\<lparr>clHead := Some n\<rparr>) n None = Some (put (l2\<lparr>clHead := Some n\<rparr>) n c)"
      "node_ok c None (first zs' None)" "ceValue c = ceValue (elem (l2\<lparr>clHead := Some n\<rparr>) n)" by blast
    then show ?thesis
      using that[of "l2\<lparr>clHead := Some n\<rparr>" "put (l2\<lparr>clHead := Some n\<rparr>) n c"] inv l2 Nil Cons n dll_update[OF n(3,5)]
      by (auto simp: unlinked_def cl_inv_def elem_def put_def nth_list_update)
  qed
next
  case (snoc ys' p)
  have p: "node_ok (elem l p) (final None ys') (Some e)" "p < length (clHeap l)" "p \<notin> set ys'" "p \<noteq> e" "p \<notin> set zs"
    "dll (clHeap l) None ys' (Some p)" "dll (clHeap l) (Some e) zs None" "e \<notin> set zs" "set ys' \<inter> set zs = {}" "distinct zs"
    using inv snoc by (auto simp: cl_inv_def elem_def dll_append)
  then have "node_ok (elem l2 p) (final None ys') (Some e)" using l2 by (simp add: elem_def)
  from SetNext_ok[OF this, of "first zs None"] obtain c where c: "SetNext l2 p (first zs None) = Some (put l2 p c)"
    "node_ok c (final None ys') (first zs None)" "ceValue c = ceValue (elem l2 p)" by blast
  show ?thesis
  proof (cases zs)
    case zs: Nil
    show ?thesis
      using that[of "put l2 p c" "(put l2 p c)\<lparr>clTail := Some p\<rparr>"] inv l2 snoc zs p c dll_update[OF p(3,6)]
      by (auto simp: unlinked_def cl_inv_def elem_def put_def nth_list_update dll_append)
  next
    case (Cons n zs')
    let ?l3 = "put l2 p c"
    have n: "node_ok (elem l n) (Some e) (first zs' None)" "n < length (clHeap l)" "n \<notin> set zs'" "e \<noteq> n" "n \<noteq> p" "dll (clHeap l) (Some n) zs' None"
      "n \<notin> set ys'"
      using p Cons by (auto simp: elem_def)
    then have "node_ok (elem ?l3 n) (Some e) (first zs' None)" using l2 by (simp add: elem_def put_def)
    from SetPrev_ok[OF this, of "Some p"] obtain d where d: "SetPrev ?l3 n (Some p) = Some (put ?l3 n d)"
      "node_ok d (Some p) (first zs' None)" "ceValue d = ceValue (elem ?l3 n)" by blast
    have "dll (((clHeap l)[p := c])[n := d]) None ys' (Some p)" using p(3,6) n(7) by (intro dll_update)
    moreover have "dll (((clHeap l)[p := c])[n := d]) (Some n) zs' None" using p(5) n(3,6) Cons by (intro dll_update) auto
    ultimately show ?thesis
      using that[of ?l3 "put ?l3 n d"] inv l2 snoc Cons p c n d
      by (auto simp: unlinked_def cl_inv_def elem_def put_def nth_list_update dll_append)
  qed
qed

definition cl_Drop :: "'v CList \<Rightarrow> nat \<Rightarrow> 'v CList option" where
  "cl_Drop l e = Option.bind (cl_Remove l e) (\<lambda>(l1, _). DetachPrev l1 e)"

lemma Drop_inv:
  assumes inv: "cl_inv l (ys @ e # zs)"
  obtains l' where "cl_Drop l e = Some l'" "cl_inv l' (ys @ zs)" "clMax l' = clMax l"
    "\<And>x. ceValue (elem l' x) = ceValue (elem l x)" "ce_Next l' e = first zs None" "length (clHeap l') = length (clHeap l)"
proof -
  have e: "e < length (clHeap l)" "node_ok (elem l e) (final None ys) (first zs None)" "e \<notin> set (ys @ zs)"
    using inv dll_node[of "clHeap l" None ys e zs None] by (auto simp: cl_inv_def elem_def)
  have ht: "clHead l = first (ys @ e # zs) None" "clTail l = final None (ys @ e # zs)" using inv unfolding cl_inv_def by blast+
  have ends: "clHead l \<noteq> None" "clTail l \<noteq> None" "final None ys = None \<Longrightarrow> clHead l = Some e" "first zs None = None \<Longrightarrow> clTail l = Some e"
    unfolding ht by (auto simp: first_def final_def split: list.splits if_splits)
  define l2 where "l2 = (if clLen l = 1 then l\<lparr>clClosed := False\<rparr> else l)\<lparr>clLen := clLen l - 1\<rparr>"
  obtain l3 l4 where u:
    "(case final None ys of None \<Rightarrow> Some (l2\<lparr>clHead := first zs None\<rparr>) | Some p \<Rightarrow> SetNext l2 p (first zs None)) = Some l3"
    "(case first zs None of None \<Rightarrow> Some (l3\<lparr>clTail := final None ys\<rparr>) | Some n \<Rightarrow> SetPrev l3 n (final None ys)) = Some l4"
    "unlinked l l4 ys e zs" using unlink[OF inv l2_def] .
  obtain c where c: "SetRemoved l4 e = Some (put l4 e c)" "gone (c\<lparr>cePrev := None\<rparr>)" "ceNext c = first zs None" "ceValue c = ceValue (elem l e)"
    using SetRemoved_ok[of l4 e] e(2) u(3) by (metis unlinked_def)
  have int_zero: "int (length ys) + int (length zs) = 0 \<Longrightarrow> ys = [] \<and> zs = []" for ys zs :: "nat list" by (cases ys; cases zs; simp)
  let ?l = "put l4 e (c\<lparr>cePrev := None\<rparr>)"
  have len: "length (clHeap l4) = length (clHeap l)" using u(3) by (simp add: unlinked_def)
  have "cl_Remove l e = Some (put l4 e c, ceValue c)"
    using cl_inv_Next[OF inv] ends e(1) u(1,2) c(1) len 
    unfolding cl_Remove_def Let_def l2_def[symmetric] cl_inv_Next(1,2)[OF inv] u(1) by (simp add: elem_def)
  then have "cl_Drop l e = Some ?l"
    using c(2) e(1) len by (simp add: cl_Drop_def DetachPrev_def gone_def put_def elem_def)
  moreover have "cl_inv ?l (ys @ zs)"
    using inv u(3) e c(2) dll_update[of e "ys @ zs" "clHeap l4"] int_zero[of ys zs]
    by (auto simp: cl_inv_def unlinked_def nth_list_update elem_def put_def)
  moreover have "ceValue (elem ?l x) = ceValue (elem l x)" for x
    using u(3) c(4) e(1) len by (cases "x = e") (auto simp: unlinked_def)
  moreover have "ce_Next ?l e = first zs None" using c(3) e(1) len by (simp add: ce_Next_def)
  ultimately show ?thesis using that u(3) by (auto simp: unlinked_def)
qed


section \<open>The contract of the list\<close>

text \<open>Walking from an element by \<open>Next\<close>. The number of elements ever allocated is enough fuel.\<close>

fun walk :: "'v CList \<Rightarrow> nat \<Rightarrow> nat option \<Rightarrow> nat list option" where
  "walk l f None = Some []"
| "walk l 0 (Some e) = None"
| "walk l (Suc f) (Some e) = map_option ((#) e) (walk l f (ce_Next l e))"

definition elements :: "'v CList \<Rightarrow> nat list option" where
  "elements l = walk l (length (clHeap l)) (cl_Front l)"

lemma walk_inv: "cl_inv l (ys @ zs) \<Longrightarrow> length zs \<le> f \<Longrightarrow> walk l f (first zs None) = Some zs"
proof (induction zs arbitrary: ys f)
  case (Cons z zs)
  then obtain f' where f: "f = Suc f'" by (cases f) auto
  have "walk l f' (first zs None) = Some zs" using Cons.IH[of "ys @ [z]" f'] Cons.prems f by simp
  then show ?case using cl_inv_Next(1)[OF Cons.prems(1)] f by simp
qed (cases f; simp)

lemma cl_inv_length: "cl_inv l xs \<Longrightarrow> length xs \<le> length (clHeap l)"
  using card_mono[of "{..<length (clHeap l)}" "set xs"] distinct_card[of xs] by (auto simp: cl_inv_def dest: dll_bound)

lemma elements_inv: "cl_inv l xs \<Longrightarrow> elements l = Some xs"
  using walk_inv[of l "[]" xs "length (clHeap l)"] cl_inv_length[of l xs] by (auto simp: elements_def cl_Front_def cl_inv_def)

text \<open>What a client of the list may rely on: elements are handles, held in order, whose values never change.\<close>

locale element_list =
  fixes repr :: "'s \<Rightarrow> nat list \<Rightarrow> bool"
    and val :: "'s \<Rightarrow> nat \<Rightarrow> 'v"
    and room :: "'s \<Rightarrow> int"
    and push :: "'s \<Rightarrow> 'v \<Rightarrow> ('s \<times> nat) option"
    and drop_elem :: "'s \<Rightarrow> nat \<Rightarrow> 's option"
    and handles :: "'s \<Rightarrow> nat list option"
  assumes repr_distinct: "repr s xs \<Longrightarrow> distinct xs"
    and push_repr: "repr s xs \<Longrightarrow> int (length xs) < room s \<Longrightarrow>
      \<exists>s' e. push s v = Some (s', e) \<and> repr s' (xs @ [e]) \<and> val s' e = v \<and> (\<forall>x\<in>set xs. val s' x = val s x) \<and> room s' = room s"
    and drop_repr: "repr s (ys @ e # zs) \<Longrightarrow>
      \<exists>s'. drop_elem s e = Some s' \<and> repr s' (ys @ zs) \<and> (\<forall>x. val s' x = val s x) \<and> room s' = room s"
    and handles_repr: "repr s xs \<Longrightarrow> handles s = Some xs"
begin

definition holds_values :: "'s \<Rightarrow> 'v list \<Rightarrow> bool" where
  "holds_values s vs \<longleftrightarrow> (\<exists>xs. repr s xs \<and> map (val s) xs = vs)"

definition at_pos :: "'s \<Rightarrow> nat \<Rightarrow> 's option" where
  "at_pos s i = Option.bind (handles s) (\<lambda>xs. if i < length xs then drop_elem s (xs ! i) else Some s)"

lemma push_values:
  assumes "holds_values s vs" "int (length vs) < room s"
  shows "\<exists>s' e. push s v = Some (s', e) \<and> holds_values s' (vs @ [v]) \<and> room s' = room s"
proof -
  obtain xs where xs: "repr s xs" "map (val s) xs = vs" using assms(1) by (auto simp: holds_values_def)
  then have "int (length xs) < room s" using assms(2) by auto
  from push_repr[OF xs(1) this, of v] obtain s' e where s: "push s v = Some (s', e)" "repr s' (xs @ [e])" "val s' e = v"
    "\<forall>x\<in>set xs. val s' x = val s x" "room s' = room s" by blast
  then have "map (val s') (xs @ [e]) = vs @ [v]" using xs(2) by auto
  then show ?thesis using s by (auto simp: holds_values_def intro!: exI[of _ "xs @ [e]"])
qed

lemma drop_values:
  assumes "holds_values s vs"
  shows "\<exists>s'. at_pos s i = Some s' \<and> holds_values s' (take i vs @ drop (Suc i) vs) \<and> room s' = room s"
proof -
  obtain xs where xs: "repr s xs" "map (val s) xs = vs" using assms(1) by (auto simp: holds_values_def)
  show ?thesis
  proof (cases "i < length xs")
    case True
    then have "repr s (take i xs @ xs ! i # drop (Suc i) xs)" using xs(1) by (simp add: id_take_nth_drop[symmetric])
    from drop_repr[OF this] obtain s' where s: "drop_elem s (xs ! i) = Some s'" "repr s' (take i xs @ drop (Suc i) xs)"
      "\<forall>x. val s' x = val s x" "room s' = room s" by blast
    moreover have "map (val s') (take i xs @ drop (Suc i) xs) = take i vs @ drop (Suc i) vs"
      using xs(2) s(3) by (auto simp: take_map drop_map)
    ultimately show ?thesis using handles_repr[OF xs(1)] True by (auto simp: at_pos_def holds_values_def)
  next
    case False
    then show ?thesis using handles_repr[OF xs(1)] xs assms by (auto simp: at_pos_def)
  qed
qed

end

interpretation cl: element_list cl_inv "\<lambda>l e. ceValue (elem l e)" clMax PushBack cl_Drop elements
proof unfold_locales
  fix l :: "'v CList" and xs v
  assume "cl_inv l xs" "int (length xs) < clMax l"
  from PushBack_inv[OF this, of v] obtain l' where "PushBack l v = Some (l', length (clHeap l))" "cl_inv l' (xs @ [length (clHeap l)])"
    "clMax l' = clMax l" "\<And>x. x < length (clHeap l) \<Longrightarrow> ceValue (elem l' x) = ceValue (elem l x)" "ceValue (elem l' (length (clHeap l))) = v" by metis
  then show "\<exists>l' e. PushBack l v = Some (l', e) \<and> cl_inv l' (xs @ [e]) \<and> ceValue (elem l' e) = v \<and>
      (\<forall>x\<in>set xs. ceValue (elem l' x) = ceValue (elem l x)) \<and> clMax l' = clMax l"
    using cl_inv_bound[OF \<open>cl_inv l xs\<close>] by auto
next
  fix l :: "'v CList" and ys e zs
  assume "cl_inv l (ys @ e # zs)"
  from Drop_inv[OF this] show "\<exists>l'. cl_Drop l e = Some l' \<and> cl_inv l' (ys @ zs) \<and> (\<forall>x. ceValue (elem l' x) = ceValue (elem l x)) \<and> clMax l' = clMax l"
    by metis
qed (auto simp: cl_inv_def elements_inv)


section \<open>Properties\<close>

text \<open>A client script: push a value, or remove and detach the element at a position of the walk. Its specification is a
  plain list.\<close>

datatype 'v cl_op = OpPush 'v | OpDrop nat

fun cl_step :: "'v CList \<Rightarrow> 'v cl_op \<Rightarrow> 'v CList option" where
  "cl_step l (OpPush v) = map_option fst (PushBack l v)"
| "cl_step l (OpDrop i) = Option.bind (elements l) (\<lambda>xs. if i < length xs then cl_Drop l (xs ! i) else Some l)"

fun cl_run :: "'v CList \<Rightarrow> 'v cl_op list \<Rightarrow> 'v CList option" where
  "cl_run l [] = Some l"
| "cl_run l (p # ps) = Option.bind (cl_step l p) (\<lambda>l'. cl_run l' ps)"

fun list_step :: "'v list \<Rightarrow> 'v cl_op \<Rightarrow> 'v list" where
  "list_step vs (OpPush v) = vs @ [v]"
| "list_step vs (OpDrop i) = take i vs @ drop (Suc i) vs"

definition cl_values :: "'v CList \<Rightarrow> 'v list option" where
  "cl_values l = map_option (map (\<lambda>e. ceValue (elem l e))) (elements l)"

lemma cl_run_refines:
  "cl.holds_values l vs \<Longrightarrow> int (length vs + length ps) \<le> clMax l \<Longrightarrow>
   \<exists>l'. cl_run l ps = Some l' \<and> cl.holds_values l' (foldl list_step vs ps)"
proof (induction ps arbitrary: l vs)
  case (Cons p ps)
  have "\<exists>l'. cl_step l p = Some l' \<and> cl.holds_values l' (list_step vs p) \<and> clMax l' = clMax l"
  proof (cases p)
    case (OpPush v)
    then show ?thesis using cl.push_values[OF Cons.prems(1), of v] Cons.prems(2) by auto
  next
    case (OpDrop i)
    then show ?thesis using cl.drop_values[OF Cons.prems(1), of i] by (simp add: cl.at_pos_def)
  qed
  then obtain l' where l': "cl_step l p = Some l'" "cl.holds_values l' (list_step vs p)" "clMax l' = clMax l" by blast
  have "length (list_step vs p) \<le> Suc (length vs)" by (cases p) auto
  then show ?case using Cons.IH[OF l'(2)] l' Cons.prems(2) by simp
qed simp

text \<open>Property C29: every script of pushes and removals runs on the linked list without a panic, walking the links then gives
  the values of the plain list, and \<open>Len\<close> is their number: pointers, length and wait channels stay consistent. A wait
  channel is closed exactly when a waiter must not block: the element has a successor or was removed.\<close>

theorem clist_refines_list:
  assumes "int (length ops) \<le> MaxInt64"
  shows "\<exists>l. cl_run cl_New ops = Some l \<and> cl_values l = Some (foldl list_step [] ops) \<and>
    cl_Len l = int (length (foldl list_step [] ops)) \<and>
    (\<forall>e<length (clHeap l). ceNextClosed (elem l e) \<longleftrightarrow> ce_Next l e \<noteq> None \<or> ce_Removed l e)"
proof -
  have new: "cl.holds_values cl_New ([] :: 'a list)" using cl_inv_New by (auto simp: cl.holds_values_def)
  moreover have "int (length ([] :: 'a list) + length ops) \<le> clMax (cl_New :: 'a CList)"
    using assms by (simp add: cl_New_def newWithMax_def cl_Init_def)
  ultimately obtain l where l: "cl_run cl_New ops = Some l" "cl.holds_values l (foldl list_step [] ops)"
    using cl_run_refines[of cl_New "[]" ops] by blast
  then obtain xs where xs: "cl_inv l xs" "map (\<lambda>e. ceValue (elem l e)) xs = foldl list_step [] ops" by (auto simp: cl.holds_values_def)
  have "ceNextClosed (elem l e) \<longleftrightarrow> ce_Next l e \<noteq> None \<or> ce_Removed l e" if "e < length (clHeap l)" for e
  proof (cases "e \<in> set xs")
    case True
    then obtain ys zs where "xs = ys @ e # zs" by (meson split_list)
    then have "node_ok (elem l e) (final None ys) (first zs None)" 
      using xs(1) dll_node[of "clHeap l" None ys e zs None] by (simp add: cl_inv_def elem_def)
    then show ?thesis by (auto simp: node_ok_def ce_Next_def ce_Removed_def)
  next
    case False
    then show ?thesis using xs(1) that by (auto simp: cl_inv_def gone_def ce_Removed_def)
  qed
  moreover have "cl_values l = Some (foldl list_step [] ops)" using elements_inv[OF xs(1)] xs(2) by (simp add: cl_values_def)
  moreover have "cl_Len l = int (length (foldl list_step [] ops))" using xs(1) unfolding xs(2)[symmetric] by (simp add: cl_Len_def cl_inv_def)
  ultimately show ?thesis using l(1) by blast
qed

theorem clist_refines_list_witness:
  "\<exists>l. cl_run cl_New [OpPush (7::nat), OpPush 8, OpPush 9, OpDrop 1] = Some l \<and> cl_values l = Some [7, 9] \<and> cl_Len l = 2"
  using clist_refines_list[of "[OpPush (7::nat), OpPush 8, OpPush 9, OpDrop 1]"] by (auto simp: MaxInt64_def)

end
