(* ===== verification/Mempool.thy ===== *)
theory Mempool
  imports CLists Wire
begin

text \<open>
  \<open>mempool/clist_mempool.go\<close>: the pool of checked transactions and its cache of transaction hashes. The application
  answers \<open>CheckTx\<close> requests through the local client of \<open>abci/client/local_client.go\<close>, which runs both callbacks
  before it returns; it is a parameter \<open>chk\<close> with a state of its own, that takes the transaction and whether this is a
  recheck. The hash \<open>H\<close> is a parameter, the write-ahead log is the byte string written to it, and the channel
  \<open>txsAvailable\<close> of capacity one is \<open>None\<close> until it is enabled and then tells whether it holds a token. The set of
  senders of an element is kept beside the list, under the element. A panic, or a loop that does not end, is \<open>None\<close>.
\<close>

section \<open>The cache\<close>

text \<open>\<open>container/list\<close> keeps its elements in order; an element is a number and its value.\<close>

record mapTxCache =
  mcSize :: int
  mcMap :: "bytes \<Rightarrow> nat option"
  mcList :: "(nat \<times> bytes) list"
  mcFresh :: nat

type_synonym txCache = "mapTxCache option"

definition newMapTxCache :: "int \<Rightarrow> mapTxCache" where
  "newMapTxCache cacheSize = \<lparr>mcSize = cacheSize, mcMap = (\<lambda>_. None), mcList = [], mcFresh = 0\<rparr>"

definition cache_Reset :: "txCache \<Rightarrow> txCache" where
  "cache_Reset c = map_option (\<lambda>c. c\<lparr>mcMap := (\<lambda>_. None), mcList := []\<rparr>) c"

definition without :: "nat \<Rightarrow> (nat \<times> bytes) list \<Rightarrow> (nat \<times> bytes) list" where
  "without i xs = filter (\<lambda>(j, _). j \<noteq> i) xs"

definition mc_Push :: "mapTxCache \<Rightarrow> bytes \<Rightarrow> mapTxCache \<times> bool" where
  "mc_Push c txHash =
     (case mcMap c txHash of
        Some moved \<Rightarrow> (c\<lparr>mcList := without moved (mcList c) @ filter (\<lambda>(j, _). j = moved) (mcList c)\<rparr>, False)
      | None \<Rightarrow>
          let c1 = (if mcSize c \<le> int (length (mcList c))
                    then (case mcList c of [] \<Rightarrow> c | (i, k) # rest \<Rightarrow> c\<lparr>mcMap := (mcMap c)(k := None), mcList := rest\<rparr>)
                    else c)
          in (c1\<lparr>mcMap := (mcMap c1)(txHash := Some (mcFresh c1)), mcList := mcList c1 @ [(mcFresh c1, txHash)], mcFresh := Suc (mcFresh c1)\<rparr>, True))"

definition mc_Remove :: "mapTxCache \<Rightarrow> bytes \<Rightarrow> mapTxCache" where
  "mc_Remove c txHash =
     (let c1 = c\<lparr>mcMap := (mcMap c)(txHash := None)\<rparr>
      in case mcMap c txHash of None \<Rightarrow> c1 | Some popped \<Rightarrow> c1\<lparr>mcList := without popped (mcList c)\<rparr>)"

text \<open>\<open>nopTxCache\<close>, used when the cache size is zero, accepts everything.\<close>

definition cache_Push :: "(bytes \<Rightarrow> bytes) \<Rightarrow> txCache \<Rightarrow> bytes \<Rightarrow> txCache \<times> bool" where
  "cache_Push H cache tx = (case cache of None \<Rightarrow> (None, True) | Some c \<Rightarrow> (let (c', ok) = mc_Push c (H tx) in (Some c', ok)))"

definition cache_Remove :: "(bytes \<Rightarrow> bytes) \<Rightarrow> txCache \<Rightarrow> bytes \<Rightarrow> txCache" where
  "cache_Remove H cache tx = map_option (\<lambda>c. mc_Remove c (H tx)) cache"


section \<open>The pool\<close>

record MempoolConfig =
  cfgRecheck :: bool
  cfgSize :: int
  cfgMaxTxsBytes :: int
  cfgCacheSize :: int
  cfgMaxTxBytes :: int

definition cfg_ValidateBasic :: "MempoolConfig \<Rightarrow> bool" where
  "cfg_ValidateBasic cfg \<longleftrightarrow> \<not> cfgSize cfg < 0 \<and> \<not> cfgMaxTxsBytes cfg < 0 \<and> \<not> cfgCacheSize cfg < 0 \<and> \<not> cfgMaxTxBytes cfg < 0"

record mempoolTx =
  mtHeight :: int
  mtTx :: bytes

record CListMempool =
  mpHeight :: int
  mpTxsBytes :: int
  mpNotified :: bool
  mpAvailable :: "bool option"
  mpConfig :: MempoolConfig
  mpPreCheck :: "(bytes \<Rightarrow> bool) option"
  mpWal :: "bytes option"
  mpTxs :: "mempoolTx CList"
  mpCursor :: "nat option"
  mpEnd :: "nat option"
  mpMap :: "bytes \<Rightarrow> nat option"
  mpSenders :: "nat \<Rightarrow> string list"
  mpCache :: txCache

datatype mem_error = ErrMempoolIsFull | ErrTxTooLarge | ErrPreCheck | ErrTxInCache

definition NewCListMempool :: "MempoolConfig \<Rightarrow> int \<Rightarrow> CListMempool" where
  "NewCListMempool config height =
     \<lparr>mpHeight = height, mpTxsBytes = 0, mpNotified = False, mpAvailable = None, mpConfig = config, mpPreCheck = None, mpWal = None,
      mpTxs = cl_New, mpCursor = None, mpEnd = None, mpMap = (\<lambda>_. None), mpSenders = (\<lambda>_. []),
      mpCache = (if 0 < cfgCacheSize config then Some (newMapTxCache (cfgCacheSize config)) else None)\<rparr>"

definition EnableTxsAvailable :: "CListMempool \<Rightarrow> CListMempool" where
  "EnableTxsAvailable mem = mem\<lparr>mpAvailable := Some False\<rparr>"

definition mem_Size :: "CListMempool \<Rightarrow> int" where
  "mem_Size mem = cl_Len (mpTxs mem)"

definition TxsBytes :: "CListMempool \<Rightarrow> int" where
  "TxsBytes mem = mpTxsBytes mem"

definition tx_at :: "mempoolTx CList \<Rightarrow> nat \<Rightarrow> bytes" where
  "tx_at l e = mtTx (ceValue (elem l e))"

abbreviation txOf :: "CListMempool \<Rightarrow> nat \<Rightarrow> bytes" where
  "txOf mem e \<equiv> tx_at (mpTxs mem) e"

definition addTx :: "(bytes \<Rightarrow> bytes) \<Rightarrow> CListMempool \<Rightarrow> mempoolTx \<Rightarrow> string \<Rightarrow> CListMempool option" where
  "addTx H mem memTx sender =
     map_option (\<lambda>(l, e). mem\<lparr>mpTxs := l, mpMap := (mpMap mem)(H (mtTx memTx) := Some e), mpSenders := (mpSenders mem)(e := [sender]),
         mpTxsBytes := add64 (mpTxsBytes mem) (int (length (mtTx memTx)))\<rparr>)
       (PushBack (mpTxs mem) memTx)"

definition removeTx :: "(bytes \<Rightarrow> bytes) \<Rightarrow> CListMempool \<Rightarrow> bytes \<Rightarrow> nat \<Rightarrow> CListMempool option" where
  "removeTx H mem tx e =
     Option.bind (cl_Remove (mpTxs mem) e) (\<lambda>(l1, _).
     map_option (\<lambda>l2. mem\<lparr>mpTxs := l2, mpMap := (mpMap mem)(H tx := None), mpTxsBytes := add64 (mpTxsBytes mem) (- int (length tx)),
         mpCache := cache_Remove H (mpCache mem) tx\<rparr>)
       (DetachPrev l1 e))"

definition isFull :: "CListMempool \<Rightarrow> int \<Rightarrow> bool" where
  "isFull mem txSize \<longleftrightarrow> cfgSize (mpConfig mem) \<le> mem_Size mem \<or> cfgMaxTxsBytes (mpConfig mem) < add64 txSize (TxsBytes mem)"

definition notifyTxsAvailable :: "CListMempool \<Rightarrow> CListMempool option" where
  "notifyTxsAvailable mem =
     (if mem_Size mem = 0 then None
      else if mpAvailable mem \<noteq> None \<and> \<not> mpNotified mem then Some (mem\<lparr>mpNotified := True, mpAvailable := Some True\<rparr>)
      else Some mem)"

text \<open>The response code 0 is \<open>CodeTypeOK\<close>.\<close>

definition resCbFirstTime :: "(bytes \<Rightarrow> bytes) \<Rightarrow> CListMempool \<Rightarrow> bytes \<Rightarrow> string \<Rightarrow> int \<Rightarrow> CListMempool option" where
  "resCbFirstTime H mem tx sender code =
     (if code = 0 then
        (if isFull mem (int (length tx)) then Some (mem\<lparr>mpCache := cache_Remove H (mpCache mem) tx\<rparr>)
         else Option.bind (addTx H mem \<lparr>mtHeight = mpHeight mem, mtTx = tx\<rparr> sender) notifyTxsAvailable)
      else Some (mem\<lparr>mpCache := cache_Remove H (mpCache mem) tx\<rparr>))"

definition resCbRecheck :: "(bytes \<Rightarrow> bytes) \<Rightarrow> CListMempool \<Rightarrow> nat \<Rightarrow> bytes \<Rightarrow> int \<Rightarrow> CListMempool option" where
  "resCbRecheck H mem cursor tx code =
     (if tx \<noteq> txOf mem cursor then None
      else Option.bind (if code = 0 then Some mem else removeTx H mem tx cursor) (\<lambda>mem1.
        let c = (if Some cursor = mpEnd mem1 then None else ce_Next (mpTxs mem1) cursor);
            mem2 = mem1\<lparr>mpCursor := c\<rparr>
        in if c = None \<and> 0 < mem_Size mem2 then notifyTxsAvailable mem2 else Some mem2))"

definition globalCb :: "(bytes \<Rightarrow> bytes) \<Rightarrow> CListMempool \<Rightarrow> bytes \<Rightarrow> int \<Rightarrow> CListMempool option" where
  "globalCb H mem tx code = (case mpCursor mem of None \<Rightarrow> Some mem | Some c \<Rightarrow> resCbRecheck H mem c tx code)"

definition reqResCb :: "(bytes \<Rightarrow> bytes) \<Rightarrow> CListMempool \<Rightarrow> bytes \<Rightarrow> string \<Rightarrow> int \<Rightarrow> CListMempool option" where
  "reqResCb H mem tx sender code = (if mpCursor mem \<noteq> None then None else resCbFirstTime H mem tx sender code)"

definition CheckTx ::
  "(bytes \<Rightarrow> bytes) \<Rightarrow> ('a \<Rightarrow> bytes \<Rightarrow> bool \<Rightarrow> 'a \<times> int) \<Rightarrow> CListMempool \<Rightarrow> 'a \<Rightarrow> bytes \<Rightarrow> string \<Rightarrow> (CListMempool \<times> 'a \<times> mem_error option) option" where
  "CheckTx H chk mem a tx sender =
     (let txSize = int (length tx) in
      if isFull mem txSize then Some (mem, a, Some ErrMempoolIsFull)
      else if cfgMaxTxBytes (mpConfig mem) < txSize then Some (mem, a, Some ErrTxTooLarge)
      else if (case mpPreCheck mem of None \<Rightarrow> False | Some f \<Rightarrow> \<not> f tx) then Some (mem, a, Some ErrPreCheck)
      else let mem1 = mem\<lparr>mpWal := map_option (\<lambda>w. w @ tx @ [10]) (mpWal mem)\<rparr>;
               (cache, fresh) = cache_Push H (mpCache mem1) tx;
               mem2 = mem1\<lparr>mpCache := cache\<rparr>
      in if \<not> fresh then
           Some ((case mpMap mem2 (H tx) of
                    None \<Rightarrow> mem2
                  | Some e \<Rightarrow> mem2\<lparr>mpSenders := (mpSenders mem2)(e := List.insert sender (mpSenders mem2 e))\<rparr>),
                 a, Some ErrTxInCache)
         else let (a', code) = chk a tx False
         in Option.bind (globalCb H mem2 tx code) (\<lambda>mem3.
            map_option (\<lambda>mem4. (mem4, a', None)) (reqResCb H mem3 tx sender code)))"

fun flushLoop :: "nat \<Rightarrow> CListMempool \<Rightarrow> nat option \<Rightarrow> CListMempool option" where
  "flushLoop f mem None = Some mem"
| "flushLoop 0 mem (Some e) = None"
| "flushLoop (Suc f) mem (Some e) =
     Option.bind (cl_Remove (mpTxs mem) e) (\<lambda>(l1, _).
     Option.bind (DetachPrev l1 e) (\<lambda>l2.
     flushLoop f (mem\<lparr>mpTxs := l2\<rparr>) (ce_Next l2 e)))"

text \<open>A loop over the list gets as much fuel as elements were ever allocated.\<close>

definition mem_Flush :: "CListMempool \<Rightarrow> CListMempool option" where
  "mem_Flush mem =
     map_option (\<lambda>mem1. mem1\<lparr>mpMap := (\<lambda>_. None)\<rparr>)
       (flushLoop (length (clHeap (mpTxs mem))) (mem\<lparr>mpTxsBytes := 0, mpCache := cache_Reset (mpCache mem)\<rparr>) (cl_Front (mpTxs mem)))"

definition ComputeProtoSizeForTxs :: "bytes list \<Rightarrow> int" where
  "ComputeProtoSizeForTxs txs = (\<Sum>tx\<leftarrow>txs. 1 + int (length (putLen tx)))"

definition PreCheckMaxBytes :: "int \<Rightarrow> bytes \<Rightarrow> bool" where
  "PreCheckMaxBytes maxBytes tx \<longleftrightarrow> \<not> maxBytes < ComputeProtoSizeForTxs [tx]"

fun reapBytes :: "nat \<Rightarrow> CListMempool \<Rightarrow> int \<Rightarrow> nat option \<Rightarrow> bytes list \<Rightarrow> bytes list option" where
  "reapBytes f mem maxBytes None txs = Some txs"
| "reapBytes 0 mem maxBytes (Some e) txs = None"
| "reapBytes (Suc f) mem maxBytes (Some e) txs =
     (if -1 < maxBytes \<and> maxBytes < ComputeProtoSizeForTxs (txs @ [txOf mem e]) then Some txs
      else reapBytes f mem maxBytes (ce_Next (mpTxs mem) e) (txs @ [txOf mem e]))"

definition ReapMaxBytes :: "CListMempool \<Rightarrow> int \<Rightarrow> bytes list option" where
  "ReapMaxBytes mem maxBytes = reapBytes (length (clHeap (mpTxs mem))) mem maxBytes (cl_Front (mpTxs mem)) []"

fun reapTxs :: "nat \<Rightarrow> CListMempool \<Rightarrow> int \<Rightarrow> nat option \<Rightarrow> bytes list \<Rightarrow> bytes list option" where
  "reapTxs f mem mx None txs = Some txs"
| "reapTxs 0 mem mx (Some e) txs = (if int (length txs) \<le> mx then None else Some txs)"
| "reapTxs (Suc f) mem mx (Some e) txs =
     (if int (length txs) \<le> mx then reapTxs f mem mx (ce_Next (mpTxs mem) e) (txs @ [txOf mem e]) else Some txs)"

definition ReapMaxTxs :: "CListMempool \<Rightarrow> int \<Rightarrow> bytes list option" where
  "ReapMaxTxs mem mx =
     (let mx' = (if mx < 0 then cl_Len (mpTxs mem) else mx)
      in reapTxs (length (clHeap (mpTxs mem))) mem mx' (cl_Front (mpTxs mem)) [])"

fun recheckLoop ::
  "(bytes \<Rightarrow> bytes) \<Rightarrow> ('a \<Rightarrow> bytes \<Rightarrow> bool \<Rightarrow> 'a \<times> int) \<Rightarrow> nat \<Rightarrow> CListMempool \<Rightarrow> 'a \<Rightarrow> nat option \<Rightarrow> (CListMempool \<times> 'a) option" where
  "recheckLoop H chk f mem a None = Some (mem, a)"
| "recheckLoop H chk 0 mem a (Some e) = None"
| "recheckLoop H chk (Suc f) mem a (Some e) =
     (let (a', code) = chk a (txOf mem e) True
      in Option.bind (globalCb H mem (txOf mem e) code) (\<lambda>mem'. recheckLoop H chk f mem' a' (ce_Next (mpTxs mem') e)))"

definition recheckTxs :: "(bytes \<Rightarrow> bytes) \<Rightarrow> ('a \<Rightarrow> bytes \<Rightarrow> bool \<Rightarrow> 'a \<times> int) \<Rightarrow> CListMempool \<Rightarrow> 'a \<Rightarrow> (CListMempool \<times> 'a) option" where
  "recheckTxs H chk mem a =
     (if mem_Size mem = 0 then None
      else recheckLoop H chk (length (clHeap (mpTxs mem))) (mem\<lparr>mpCursor := cl_Front (mpTxs mem), mpEnd := cl_Back (mpTxs mem)\<rparr>) a (cl_Front (mpTxs mem)))"

text \<open>The loop of \<open>Update\<close> over the committed transactions and the response codes; a missing response is an index error.\<close>

fun dropCommitted :: "(bytes \<Rightarrow> bytes) \<Rightarrow> CListMempool \<Rightarrow> bytes list \<Rightarrow> int list \<Rightarrow> CListMempool option" where
  "dropCommitted H mem [] codes = Some mem"
| "dropCommitted H mem (tx # txs) [] = None"
| "dropCommitted H mem (tx # txs) (code # codes) =
     (let mem1 = mem\<lparr>mpCache := (if code = 0 then fst (cache_Push H (mpCache mem) tx) else cache_Remove H (mpCache mem) tx)\<rparr>
      in Option.bind (case mpMap mem1 (H tx) of None \<Rightarrow> Some mem1 | Some e \<Rightarrow> removeTx H mem1 tx e) (\<lambda>mem2. dropCommitted H mem2 txs codes))"

definition mem_Update ::
  "(bytes \<Rightarrow> bytes) \<Rightarrow> ('a \<Rightarrow> bytes \<Rightarrow> bool \<Rightarrow> 'a \<times> int) \<Rightarrow> CListMempool \<Rightarrow> 'a \<Rightarrow> int \<Rightarrow> bytes list \<Rightarrow> int list \<Rightarrow> (bytes \<Rightarrow> bool) option \<Rightarrow> (CListMempool \<times> 'a) option" where
  "mem_Update H chk mem a height txs codes preCheck =
     Option.bind (dropCommitted H (mem\<lparr>mpHeight := height, mpNotified := False, mpPreCheck := (if preCheck \<noteq> None then preCheck else mpPreCheck mem)\<rparr>) txs codes) (\<lambda>mem1.
       if 0 < mem_Size mem1 then
         (if cfgRecheck (mpConfig mem1) then recheckTxs H chk mem1 a else map_option (\<lambda>m. (m, a)) (notifyTxsAvailable mem1))
       else Some (mem1, a))"


section \<open>Invariants\<close>

text \<open>The map and the list of the cache agree, and the list is no longer than its size.\<close>

definition mc_inv :: "mapTxCache \<Rightarrow> bool" where
  "mc_inv c \<longleftrightarrow> (\<forall>k i. mcMap c k = Some i \<longleftrightarrow> (i, k) \<in> set (mcList c)) \<and> distinct (map fst (mcList c)) \<and>
     (\<forall>(i, k)\<in>set (mcList c). i < mcFresh c) \<and> int (length (mcList c)) \<le> mcSize c"

definition cache_inv :: "txCache \<Rightarrow> bool" where
  "cache_inv c = (case c of None \<Rightarrow> True | Some c \<Rightarrow> 0 < mcSize c \<and> mc_inv c)"

lemma set_without: "set (without i xs) = {(j, k) \<in> set xs. j \<noteq> i}"
  by (auto simp: without_def)

lemma distinct_fst_unique: "distinct (map fst xs) \<Longrightarrow> (i, k) \<in> set xs \<Longrightarrow> (i, k') \<in> set xs \<Longrightarrow> k = k'"
  by (metis eq_key_imp_eq_value)

lemma length_without: "length (without i xs @ filter (\<lambda>(j, _). j = i) xs) = length xs"
  unfolding without_def by (induction xs) auto

lemma distinct_map_filter: "distinct (map f xs) \<Longrightarrow> distinct (map f (filter P xs))"
  by (induction xs) auto

lemma mc_inv_map: "mc_inv c \<Longrightarrow> mcMap c k = Some i \<longleftrightarrow> (i, k) \<in> set (mcList c)"
  by (simp add: mc_inv_def)

lemma mc_Remove_inv: "mc_inv c \<Longrightarrow> mc_inv (mc_Remove c k)"
proof -
  assume inv: "mc_inv c"
  have len: "length (without i (mcList c)) \<le> length (mcList c)" for i by (simp add: without_def)
  show ?thesis
  proof (cases "mcMap c k")
    case None
    then have "mc_Remove c k = c" by (auto simp: mc_Remove_def Let_def fun_upd_idem)
    then show ?thesis using inv by simp
  next
    case (Some i)
    have uniq: "(i, k') \<in> set (mcList c) \<Longrightarrow> k' = k" for k'
      using inv Some distinct_fst_unique[of "mcList c" i k k'] by (auto simp: mc_inv_def)
    have "distinct (map fst (without i (mcList c)))" using inv by (auto simp: mc_inv_def without_def intro: distinct_map_filter)
    moreover have "((mcMap c)(k := None)) k' = Some i' \<longleftrightarrow> (i', k') \<in> set (without i (mcList c))" for k' i'
    proof (cases "k' = k")
      case True
      then show ?thesis using mc_inv_map[OF inv, of k i'] Some by (auto simp: set_without)
    next
      case False
      then show ?thesis using mc_inv_map[OF inv, of k' i'] uniq[of k'] by (cases "i' = i") (auto simp: set_without)
    qed
    moreover have "\<forall>(j, k')\<in>set (without i (mcList c)). j < mcFresh c" "int (length (without i (mcList c))) \<le> mcSize c"
      using inv len[of i] by (auto simp: mc_inv_def set_without)
    ultimately show ?thesis using Some by (simp add: mc_inv_def mc_Remove_def)
  qed
qed

lemma mc_Push_inv:
  assumes inv: "mc_inv c" and pos: "0 < mcSize c"
  shows "mc_inv (fst (mc_Push c k)) \<and> mcSize (fst (mc_Push c k)) = mcSize c"
proof (cases "mcMap c k")
  case None
  define c1 where "c1 = (if mcSize c \<le> int (length (mcList c))
      then (case mcList c of [] \<Rightarrow> c | (i, k) # rest \<Rightarrow> c\<lparr>mcMap := (mcMap c)(k := None), mcList := rest\<rparr>) else c)"
  have c1: "mc_inv c1" "int (length (mcList c1)) < mcSize c" "mcMap c1 k = None" "mcSize c1 = mcSize c"
  proof -
    consider "int (length (mcList c)) < mcSize c" "c1 = c"
      | i k' rest where "mcSize c \<le> int (length (mcList c))" "mcList c = (i, k') # rest" "c1 = c\<lparr>mcMap := (mcMap c)(k' := None), mcList := rest\<rparr>"
      using pos by (cases "mcSize c \<le> int (length (mcList c))"; cases "mcList c") (auto simp: c1_def not_le)
    then have "mc_inv c1 \<and> int (length (mcList c1)) < mcSize c \<and> mcMap c1 k = None \<and> mcSize c1 = mcSize c"
    proof cases
      case 1
      then show ?thesis using inv None by simp
    next
      case (2 i k' rest)
      have "k' \<notin> snd ` set rest"
      proof
        assume "k' \<in> snd ` set rest"
        then obtain j where "(j, k') \<in> set rest" by auto
        then have "mcMap c k' = Some j" "mcMap c k' = Some i" "j \<noteq> i" using inv 2 by (auto simp: mc_inv_def image_iff)
        then show False by simp
      qed
      then show ?thesis using inv None 2 by (fastforce simp: mc_inv_def image_iff)
    qed
    then show "mc_inv c1" "int (length (mcList c1)) < mcSize c" "mcMap c1 k = None" "mcSize c1 = mcSize c" by blast+
  qed
  have "mc_Push c k = (c1\<lparr>mcMap := (mcMap c1)(k := Some (mcFresh c1)), mcList := mcList c1 @ [(mcFresh c1, k)], mcFresh := Suc (mcFresh c1)\<rparr>, True)"
    using None by (simp add: mc_Push_def c1_def[symmetric])
  moreover have "(mcFresh c1, k') \<notin> set (mcList c1)" for k' using c1(1) by (auto simp: mc_inv_def)
  moreover have "(j, k) \<notin> set (mcList c1)" for j using c1(3) mc_inv_map[OF c1(1)] by (metis option.distinct(1))
  ultimately show ?thesis
    using c1 by (auto simp: mc_inv_def less_Suc_eq split: prod.splits)
next
  case (Some i)
  have "set (without i (mcList c) @ filter (\<lambda>(j, _). j = i) (mcList c)) = set (mcList c)" by (auto simp: set_without)
  moreover have "distinct (map fst (without i (mcList c) @ filter (\<lambda>(j, _). j = i) (mcList c)))"
    using inv distinct_map_filter[of fst "mcList c"] by (auto simp: mc_inv_def without_def)
  moreover have "mc_Push c k = (c\<lparr>mcList := without i (mcList c) @ filter (\<lambda>(j, _). j = i) (mcList c)\<rparr>, False)"
    using Some by (simp add: mc_Push_def)
  ultimately show ?thesis using inv length_without[of i "mcList c"] by (simp add: mc_inv_def del: set_append length_append map_append)
qed

lemma cache_inv_ops [simp]:
  assumes "cache_inv c"
  shows "cache_inv (fst (cache_Push H c tx))" "cache_inv (cache_Remove H c tx)" "cache_inv (cache_Reset c)"
proof -
  show "cache_inv (fst (cache_Push H c tx))"
  proof (cases c)
    case (Some d)
    then have "cache_Push H c tx = (Some (fst (mc_Push d (H tx))), snd (mc_Push d (H tx)))" by (simp add: cache_Push_def split: prod.splits)
    then show ?thesis using assms Some mc_Push_inv[of d "H tx"] by (simp add: cache_inv_def)
  qed (simp add: cache_Push_def cache_inv_def)
  have "mcSize (mc_Remove d k) = mcSize d" for d k by (simp add: mc_Remove_def Let_def split: option.splits)
  then show "cache_inv (cache_Remove H c tx)" using assms mc_Remove_inv by (cases c) (auto simp: cache_inv_def cache_Remove_def)
  show "cache_inv (cache_Reset c)" using assms by (cases c) (auto simp: cache_inv_def cache_Reset_def mc_inv_def)
qed


text \<open>The pool holds the elements \<open>xs\<close>: the counters are exact and within the configured limits, and the map only leads to
  elements of the list. \<open>T\<close> bounds the transactions that are used at all.\<close>

definition cfg_ok :: "MempoolConfig \<Rightarrow> bool" where
  "cfg_ok cfg \<longleftrightarrow> cfg_ValidateBasic cfg \<and> cfgSize cfg \<le> MaxInt64 \<and> cfgMaxTxsBytes cfg \<le> 2 ^ 62"

definition sizes :: "mempoolTx CList \<Rightarrow> nat list \<Rightarrow> int" where
  "sizes l xs = (\<Sum>e\<leftarrow>xs. int (length (tx_at l e)))"

definition mem_inv :: "(bytes \<Rightarrow> bytes) \<Rightarrow> bytes set \<Rightarrow> CListMempool \<Rightarrow> nat list \<Rightarrow> bool" where
  "mem_inv H T mem xs \<longleftrightarrow> cl_inv (mpTxs mem) xs \<and> clMax (mpTxs mem) = MaxInt64 \<and> mpTxsBytes mem = sizes (mpTxs mem) xs \<and>
     (\<forall>e\<in>set xs. txOf mem e \<in> T) \<and> (\<forall>k e. mpMap mem k = Some e \<longrightarrow> e \<in> set xs \<and> H (txOf mem e) = k) \<and>
     int (length xs) \<le> cfgSize (mpConfig mem) \<and> sizes (mpTxs mem) xs \<le> cfgMaxTxsBytes (mpConfig mem) \<and> cfg_ok (mpConfig mem) \<and> cache_inv (mpCache mem)"

lemma sizes_nonneg: "0 \<le> sizes l xs"
  unfolding sizes_def by (induction xs) auto

lemma sizes_append: "sizes l (xs @ ys) = sizes l xs + sizes l ys" "sizes l (e # xs) = int (length (tx_at l e)) + sizes l xs"
  by (simp_all add: sizes_def)

lemma add64_nonneg: "0 \<le> x + y \<Longrightarrow> x + y \<le> 2 ^ 63 - 1 \<Longrightarrow> add64 x y = x + y"
  by (simp add: add64_def wrap_id in_range_def)

lemma removeTx_Drop: "removeTx H mem tx e =
   map_option (\<lambda>l2. mem\<lparr>mpTxs := l2, mpMap := (mpMap mem)(H tx := None), mpTxsBytes := add64 (mpTxsBytes mem) (- int (length tx)),
         mpCache := cache_Remove H (mpCache mem) tx\<rparr>) (cl_Drop (mpTxs mem) e)"
  by (cases "cl_Remove (mpTxs mem) e") (auto simp: removeTx_def cl_Drop_def)

text \<open>The parts of the pool that adding and removing transactions leaves alone.\<close>

definition same_rest :: "CListMempool \<Rightarrow> CListMempool \<Rightarrow> bool" where
  "same_rest mem mem' \<longleftrightarrow> mpConfig mem' = mpConfig mem \<and> mpHeight mem' = mpHeight mem \<and> mpCursor mem' = mpCursor mem \<and>
     mpEnd mem' = mpEnd mem \<and> mpPreCheck mem' = mpPreCheck mem \<and> mpWal mem' = mpWal mem"

lemma removeTx_inv:
  assumes inv: "mem_inv H T mem (ys @ e # zs)" and tx: "txOf mem e = tx"
  obtains mem' where "removeTx H mem tx e = Some mem'" "mem_inv H T mem' (ys @ zs)" "same_rest mem mem'"
    "\<And>x. txOf mem' x = txOf mem x" "ce_Next (mpTxs mem') e = first zs None" "mpMap mem' = (mpMap mem)(H tx := None)"
    "length (clHeap (mpTxs mem')) = length (clHeap (mpTxs mem))" "mpCache mem' = cache_Remove H (mpCache mem) tx"
proof -
  have cl: "cl_inv (mpTxs mem) (ys @ e # zs)" using inv by (simp add: mem_inv_def)
  obtain l where l: "cl_Drop (mpTxs mem) e = Some l" "cl_inv l (ys @ zs)" "clMax l = clMax (mpTxs mem)"
    "\<And>x. ceValue (elem l x) = ceValue (elem (mpTxs mem) x)" "ce_Next l e = first zs None" "length (clHeap l) = length (clHeap (mpTxs mem))"
    using Drop_inv[OF cl] by metis
  let ?m = "mem\<lparr>mpTxs := l, mpMap := (mpMap mem)(H tx := None), mpTxsBytes := add64 (mpTxsBytes mem) (- int (length tx)),
      mpCache := cache_Remove H (mpCache mem) tx\<rparr>"
  have same: "tx_at l x = txOf mem x" for x using l(4) by (simp add: tx_at_def)
  have s: "sizes l xs = sizes (mpTxs mem) xs" for xs by (simp add: sizes_def same)
  have tot: "sizes (mpTxs mem) (ys @ e # zs) = sizes (mpTxs mem) (ys @ zs) + int (length tx)" using tx by (simp add: sizes_append)
  moreover have "sizes (mpTxs mem) (ys @ e # zs) \<le> 2 ^ 62" using inv by (auto simp: mem_inv_def cfg_ok_def)
  ultimately have "add64 (mpTxsBytes mem) (- int (length tx)) = sizes (mpTxs mem) (ys @ zs)"
    using inv sizes_nonneg[of "mpTxs mem" "ys @ zs"] by (subst add64_nonneg) (auto simp: mem_inv_def)
  moreover have "e' \<in> set (ys @ zs) \<and> H (txOf mem e') = k" if "((mpMap mem)(H tx := None)) k = Some e'" for k e'
    using inv that tx by (auto simp: mem_inv_def split: if_splits)
  ultimately have "mem_inv H T ?m (ys @ zs)"
    using inv l same tot by (auto simp: mem_inv_def s)
  moreover have "removeTx H mem tx e = Some ?m" using l(1) by (simp add: removeTx_Drop)
  ultimately show ?thesis using that[of ?m] same l by (simp add: same_rest_def)
qed

lemma mem_inv_Size: "mem_inv H T mem xs \<Longrightarrow> mem_Size mem = int (length xs)"
  by (simp add: mem_inv_def mem_Size_def cl_Len_def cl_inv_def)

lemma mem_inv_touch:
  "mem_inv H T (mem\<lparr>mpHeight := h\<rparr>) xs = mem_inv H T mem xs" "mem_inv H T (mem\<lparr>mpNotified := n\<rparr>) xs = mem_inv H T mem xs"
  "mem_inv H T (mem\<lparr>mpAvailable := v\<rparr>) xs = mem_inv H T mem xs" "mem_inv H T (mem\<lparr>mpPreCheck := p\<rparr>) xs = mem_inv H T mem xs"
  "mem_inv H T (mem\<lparr>mpWal := w\<rparr>) xs = mem_inv H T mem xs" "mem_inv H T (mem\<lparr>mpCursor := c\<rparr>) xs = mem_inv H T mem xs"
  "mem_inv H T (mem\<lparr>mpEnd := e\<rparr>) xs = mem_inv H T mem xs" "mem_inv H T (mem\<lparr>mpSenders := s\<rparr>) xs = mem_inv H T mem xs"
  "cache_inv d \<Longrightarrow> mem_inv H T mem xs \<Longrightarrow> mem_inv H T (mem\<lparr>mpCache := d\<rparr>) xs"
  by (simp_all add: mem_inv_def)

lemma notify_inv:
  assumes "mem_inv H T mem xs" "xs \<noteq> []"
  obtains mem' where "notifyTxsAvailable mem = Some mem'" "mem_inv H T mem' xs" "same_rest mem mem'" "mpTxs mem' = mpTxs mem"
    "mpCache mem' = mpCache mem" "mpMap mem' = mpMap mem"
proof -
  let ?m = "if mpAvailable mem \<noteq> None \<and> \<not> mpNotified mem then mem\<lparr>mpNotified := True, mpAvailable := Some True\<rparr> else mem"
  have "notifyTxsAvailable mem = Some ?m" using assms mem_inv_Size[OF assms(1)] by (simp add: notifyTxsAvailable_def)
  then show ?thesis using that[of ?m] assms(1) by (auto simp: same_rest_def mem_inv_touch)
qed

lemma addTx_inv:
  assumes inv: "mem_inv H T mem xs" and tx: "tx \<in> T" "length tx < 2 ^ 62" and free: "\<not> isFull mem (int (length tx))"
  obtains mem' e where "addTx H mem \<lparr>mtHeight = h, mtTx = tx\<rparr> s = Some mem'" "mem_inv H T mem' (xs @ [e])" "same_rest mem mem'"
    "map (txOf mem') (xs @ [e]) = map (txOf mem) xs @ [tx]" "mpCache mem' = mpCache mem" "mpMap mem' = (mpMap mem)(H tx := Some e)"
proof -
  have b: "sizes (mpTxs mem) xs \<le> 2 ^ 62" using inv by (auto simp: mem_inv_def cfg_ok_def)
  have "int (length tx) < 2 ^ 62" using tx(2) by (metis of_nat_less_iff of_nat_numeral of_nat_power)
  then have add: "add64 (int (length tx)) (sizes (mpTxs mem) xs) = int (length tx) + sizes (mpTxs mem) xs"
    "add64 (sizes (mpTxs mem) xs) (int (length tx)) = sizes (mpTxs mem) xs + int (length tx)"
    using b sizes_nonneg[of "mpTxs mem" xs] by (auto intro!: add64_nonneg)
  have room: "int (length xs) < cfgSize (mpConfig mem)" "sizes (mpTxs mem) xs + int (length tx) \<le> cfgMaxTxsBytes (mpConfig mem)"
    using free inv mem_inv_Size[OF inv] add by (auto simp: isFull_def TxsBytes_def mem_inv_def)
  then have "int (length xs) < clMax (mpTxs mem)" using inv by (auto simp: mem_inv_def cfg_ok_def)
  moreover have "cl_inv (mpTxs mem) xs" using inv by (simp add: mem_inv_def)
  ultimately obtain l where l: "PushBack (mpTxs mem) \<lparr>mtHeight = h, mtTx = tx\<rparr> = Some (l, length (clHeap (mpTxs mem)))"
    "cl_inv l (xs @ [length (clHeap (mpTxs mem))])" "clMax l = clMax (mpTxs mem)"
    "\<And>x. x < length (clHeap (mpTxs mem)) \<Longrightarrow> ceValue (elem l x) = ceValue (elem (mpTxs mem) x)"
    "ceValue (elem l (length (clHeap (mpTxs mem)))) = \<lparr>mtHeight = h, mtTx = tx\<rparr>"
    using PushBack_inv[of "mpTxs mem" xs "\<lparr>mtHeight = h, mtTx = tx\<rparr>"] by metis
  let ?e = "length (clHeap (mpTxs mem))"
  let ?m = "mem\<lparr>mpTxs := l, mpMap := (mpMap mem)(H tx := Some ?e), mpSenders := (mpSenders mem)(?e := [s]),
         mpTxsBytes := add64 (mpTxsBytes mem) (int (length tx))\<rparr>"
  have old: "tx_at l x = txOf mem x" if "x \<in> set xs" for x
    using l(4)[of x] cl_inv_bound[of "mpTxs mem" xs x] that inv by (simp add: tx_at_def mem_inv_def)
  have new: "tx_at l ?e = tx" using l(5) by (simp add: tx_at_def)
  have s: "sizes l (xs @ [?e]) = sizes (mpTxs mem) xs + int (length tx)"
    using old new by (simp add: sizes_def cong: map_cong)
  have "mem_inv H T ?m (xs @ [?e])"
    using inv l old new tx(1) room add(2) by (auto simp: mem_inv_def s)
  moreover have "addTx H mem \<lparr>mtHeight = h, mtTx = tx\<rparr> s = Some ?m" using l(1) by (simp add: addTx_def)
  ultimately show ?thesis using that[of ?m ?e] old new by (simp add: same_rest_def)
qed

definition pool :: "(bytes \<Rightarrow> bytes) \<Rightarrow> bytes set \<Rightarrow> CListMempool \<Rightarrow> bytes list \<Rightarrow> bool" where
  "pool H T mem vs \<longleftrightarrow> mpCursor mem = None \<and> (\<exists>xs. mem_inv H T mem xs \<and> map (txOf mem) xs = vs)"

lemma pool_New: "cfg_ok cfg \<Longrightarrow> pool H T (NewCListMempool cfg h) []"
  using cl_inv_New[where 'a = mempoolTx]
  by (auto simp: pool_def mem_inv_def NewCListMempool_def sizes_def cache_inv_def mc_inv_def newMapTxCache_def cfg_ok_def cfg_ValidateBasic_def
      cl_New_def newWithMax_def cl_Init_def)

lemma pool_cache: "pool H T mem vs \<Longrightarrow> cache_inv d \<Longrightarrow> pool H T (mem\<lparr>mpCache := d\<rparr>) vs"
  by (simp add: pool_def) (metis mem_inv_touch(9))

lemma resCbFirstTime_pool:
  assumes "pool H T mem vs" "tx \<in> T" "length tx < 2 ^ 62"
  shows "\<exists>mem'. resCbFirstTime H mem tx s code = Some mem' \<and> mpConfig mem' = mpConfig mem \<and>
    pool H T mem' (if code = 0 \<and> \<not> isFull mem (int (length tx)) then vs @ [tx] else vs)"
proof (cases "code = 0 \<and> \<not> isFull mem (int (length tx))")
  case True
  obtain xs where xs: "mem_inv H T mem xs" "map (txOf mem) xs = vs" "mpCursor mem = None" using assms(1) by (auto simp: pool_def)
  obtain mem1 e where m1: "addTx H mem \<lparr>mtHeight = mpHeight mem, mtTx = tx\<rparr> s = Some mem1" "mem_inv H T mem1 (xs @ [e])" "same_rest mem mem1"
    "map (txOf mem1) (xs @ [e]) = vs @ [tx]" using addTx_inv[OF xs(1) assms(2,3)] True xs(2) by metis
  obtain mem2 where m2: "notifyTxsAvailable mem1 = Some mem2" "mem_inv H T mem2 (xs @ [e])" "same_rest mem1 mem2" "mpTxs mem2 = mpTxs mem1"
    using notify_inv[OF m1(2)] by (metis append_is_Nil_conv list.distinct(1))
  have "resCbFirstTime H mem tx s code = Some mem2" using True m1(1) m2(1) by (simp add: resCbFirstTime_def)
  then show ?thesis using True m1 m2 xs(3) by (auto simp: same_rest_def pool_def intro!: exI[of _ "xs @ [e]"])
next
  case False
  have "cache_inv (mpCache mem)" using assms(1) by (auto simp: pool_def mem_inv_def)
  then show ?thesis using False assms(1) by (auto simp: resCbFirstTime_def intro: pool_cache)
qed

lemma CheckTx_pool:
  assumes p: "pool H T mem vs" and tx: "tx \<in> T" "length tx < 2 ^ 62"
  shows "\<exists>mem' a' err. CheckTx H chk mem a tx s = Some (mem', a', err) \<and> mpConfig mem' = mpConfig mem \<and>
    (pool H T mem' vs \<or> err = None \<and> pool H T mem' (vs @ [tx]))"
proof -
  let ?m1 = "mem\<lparr>mpWal := map_option (\<lambda>w. w @ tx @ [10]) (mpWal mem)\<rparr>"
  let ?m2 = "?m1\<lparr>mpCache := fst (cache_Push H (mpCache mem) tx)\<rparr>"
  have "cache_inv (mpCache mem)" using p by (auto simp: pool_def mem_inv_def)
  moreover have "pool H T ?m1 vs" using p by (simp add: pool_def mem_inv_touch)
  ultimately have m2: "pool H T ?m2 vs" by (intro pool_cache) auto
  then have snd: "pool H T (?m2\<lparr>mpSenders := f\<rparr>) vs" for f by (simp add: pool_def mem_inv_touch)
  obtain mem' where m': "resCbFirstTime H ?m2 tx s (snd (chk a tx False)) = Some mem'" "mpConfig mem' = mpConfig mem"
    "pool H T mem' vs \<or> pool H T mem' (vs @ [tx])"
    using resCbFirstTime_pool[OF m2 tx, of s "snd (chk a tx False)"] by (auto split: if_splits)
  have "mpCursor mem = None" using p by (simp add: pool_def)
  then show ?thesis
    using m' m2 snd p
    by (auto simp: CheckTx_def Let_def globalCb_def reqResCb_def split: prod.splits option.splits)
qed


subsection \<open>Rechecking\<close>

fun recheckSpec :: "('a \<Rightarrow> bytes \<Rightarrow> bool \<Rightarrow> 'a \<times> int) \<Rightarrow> 'a \<Rightarrow> bytes list \<Rightarrow> bytes list \<times> 'a" where
  "recheckSpec chk a [] = ([], a)"
| "recheckSpec chk a (tx # txs) =
     (let (a', code) = chk a tx True; (kept, a'') = recheckSpec chk a' txs in (if code = 0 then tx # kept else kept, a''))"

lemma recheck_step:
  assumes inv: "mem_inv H T mem (ys @ e # zs)" and ends: "mpEnd mem = final (Some e) zs"
  obtains mem' where "resCbRecheck H mem e (txOf mem e) code = Some mem'" "mem_inv H T mem' (ys @ (if code = 0 then [e] else []) @ zs)"
    "mpCursor mem' = first zs None" "mpEnd mem' = mpEnd mem" "mpConfig mem' = mpConfig mem" "\<And>x. txOf mem' x = txOf mem x"
    "ce_Next (mpTxs mem') e = first zs None"
proof -
  obtain mem1 where m1: "(if code = 0 then Some mem else removeTx H mem (txOf mem e) e) = Some mem1"
    "mem_inv H T mem1 (ys @ (if code = 0 then [e] else []) @ zs)" "mpEnd mem1 = mpEnd mem" "mpConfig mem1 = mpConfig mem"
    "\<And>x. txOf mem1 x = txOf mem x" "ce_Next (mpTxs mem1) e = first zs None"
  proof (cases "code = 0")
    case True
    have "cl_inv (mpTxs mem) (ys @ e # zs)" using inv by (simp add: mem_inv_def)
    then show ?thesis using that[of mem] True inv cl_inv_Next(1) by auto
  next
    case False
    from removeTx_inv[OF inv refl] obtain mem1 where "removeTx H mem (txOf mem e) e = Some mem1" "mem_inv H T mem1 (ys @ zs)" "same_rest mem mem1"
      "\<And>x. txOf mem1 x = txOf mem x" "ce_Next (mpTxs mem1) e = first zs None" by metis
    then show ?thesis using that[of mem1] False by (auto simp: same_rest_def)
  qed
  let ?m2 = "mem1\<lparr>mpCursor := first zs None\<rparr>"
  have "e \<notin> set zs" using inv by (auto simp: mem_inv_def cl_inv_def)
  then have c: "(if Some e = mpEnd mem1 then None else ce_Next (mpTxs mem1) e) = first zs None"
    using ends m1(3,6) by (cases zs rule: rev_cases) auto
  have m2: "mem_inv H T ?m2 (ys @ (if code = 0 then [e] else []) @ zs)" using m1(2) by (simp add: mem_inv_touch)
  show ?thesis
  proof (cases "first zs None = None \<and> 0 < mem_Size ?m2")
    case True
    then have ne: "ys @ (if code = 0 then [e] else []) @ zs \<noteq> []" using mem_inv_Size[OF m2] by auto
    from notify_inv[OF m2 ne] obtain mem3 where m3: "notifyTxsAvailable ?m2 = Some mem3"
      "mem_inv H T mem3 (ys @ (if code = 0 then [e] else []) @ zs)" "same_rest ?m2 mem3" "mpTxs mem3 = mpTxs ?m2" by metis
    have "resCbRecheck H mem e (txOf mem e) code = Some mem3" using m1(1) c True m3(1) by (auto simp: resCbRecheck_def Let_def)
    then show ?thesis using that[of mem3] m1 m3 by (auto simp: same_rest_def)
  next
    case False
    then have "resCbRecheck H mem e (txOf mem e) code = Some ?m2" using m1(1) c by (auto simp: resCbRecheck_def Let_def)
    then show ?thesis using that[of ?m2] m1 m2 by auto
  qed
qed

lemma recheckLoop_pool:
  "mem_inv H T mem (ys @ zs) \<Longrightarrow> mpCursor mem = first zs None \<Longrightarrow> zs \<noteq> [] \<longrightarrow> mpEnd mem = final None zs \<Longrightarrow> length zs \<le> f \<Longrightarrow>
   \<exists>mem' ws. recheckLoop H chk f mem a (first zs None) = Some (mem', snd (recheckSpec chk a (map (txOf mem) zs))) \<and>
     mem_inv H T mem' ws \<and> mpCursor mem' = None \<and> mpConfig mem' = mpConfig mem \<and>
     map (txOf mem') ws = map (txOf mem) ys @ fst (recheckSpec chk a (map (txOf mem) zs))"
proof (induction zs arbitrary: mem ys f a)
  case Nil
  then show ?case by (cases f) (auto intro!: exI[of _ ys])
next
  case (Cons e zs)
  obtain f' where f: "f = Suc f'" using Cons.prems(4) by (cases f) auto
  obtain a' code where ac: "chk a (txOf mem e) True = (a', code)" by fastforce
  have "mpEnd mem = final (Some e) zs" using Cons.prems(3) by simp
  from recheck_step[OF Cons.prems(1) this, of code] obtain mem1 where m1: "resCbRecheck H mem e (txOf mem e) code = Some mem1"
    "mem_inv H T mem1 ((ys @ (if code = 0 then [e] else [])) @ zs)" "mpCursor mem1 = first zs None" "mpEnd mem1 = mpEnd mem" "mpConfig mem1 = mpConfig mem"
    "\<And>x. txOf mem1 x = txOf mem x" "ce_Next (mpTxs mem1) e = first zs None" by (metis append_assoc)
  have "zs \<noteq> [] \<longrightarrow> mpEnd mem1 = final None zs" using m1(4) Cons.prems(3) by (auto simp: final_def)
  from Cons.IH[OF m1(2,3) this, of f' a'] Cons.prems(4) f obtain mem' ws where m':
    "recheckLoop H chk f' mem1 a' (first zs None) = Some (mem', snd (recheckSpec chk a' (map (txOf mem1) zs)))"
    "mem_inv H T mem' ws" "mpCursor mem' = None" "mpConfig mem' = mpConfig mem1"
    "map (txOf mem') ws = map (txOf mem1) (ys @ (if code = 0 then [e] else [])) @ fst (recheckSpec chk a' (map (txOf mem1) zs))" by auto
  have txs: "map (txOf mem1) xs = map (txOf mem) xs" for xs using m1(6) by simp
  have "recheckLoop H chk f mem a (first (e # zs) None) = Some (mem', snd (recheckSpec chk a (map (txOf mem) (e # zs))))"
    using f ac m1(1,7) m'(1) Cons.prems(2) by (simp add: globalCb_def txs split: prod.splits)
  moreover have "map (txOf mem') ws = map (txOf mem) ys @ fst (recheckSpec chk a (map (txOf mem) (e # zs)))"
    using ac m'(5) by (simp add: txs split: prod.splits)
  ultimately show ?case using m' m1(5) by auto
qed

lemma recheckTxs_pool:
  assumes "pool H T mem vs" "vs \<noteq> []"
  shows "\<exists>mem'. recheckTxs H chk mem a = Some (mem', snd (recheckSpec chk a vs)) \<and> pool H T mem' (fst (recheckSpec chk a vs)) \<and> mpConfig mem' = mpConfig mem"
proof -
  obtain xs where xs: "mem_inv H T mem xs" "map (txOf mem) xs = vs" using assms(1) by (auto simp: pool_def)
  let ?m = "mem\<lparr>mpCursor := cl_Front (mpTxs mem), mpEnd := cl_Back (mpTxs mem)\<rparr>"
  have cl: "cl_inv (mpTxs mem) xs" using xs(1) by (simp add: mem_inv_def)
  then have ends: "cl_Front (mpTxs mem) = first xs None" "cl_Back (mpTxs mem) = final None xs" by (auto simp: cl_Front_def cl_Back_def cl_inv_def)
  have "mem_inv H T ?m ([] @ xs)" using xs(1) by (simp add: mem_inv_touch)
  from recheckLoop_pool[OF this, of "length (clHeap (mpTxs mem))" chk a] cl_inv_length[OF cl] ends xs(2)
  obtain mem' ws where "recheckLoop H chk (length (clHeap (mpTxs mem))) ?m a (first xs None) = Some (mem', snd (recheckSpec chk a vs))"
    "mem_inv H T mem' ws" "mpCursor mem' = None" "mpConfig mem' = mpConfig mem" "map (txOf mem') ws = fst (recheckSpec chk a vs)" by auto
  then show ?thesis using assms(2) xs mem_inv_Size[OF xs(1)] ends by (auto simp: recheckTxs_def pool_def)
qed


subsection \<open>Updating and flushing\<close>

text \<open>Every transaction is held once and the map leads to it.\<close>

definition uniq :: "(bytes \<Rightarrow> bytes) \<Rightarrow> CListMempool \<Rightarrow> nat list \<Rightarrow> bool" where
  "uniq H mem xs \<longleftrightarrow> distinct (map (txOf mem) xs) \<and> (\<forall>e\<in>set xs. mpMap mem (H (txOf mem e)) = Some e)"

lemma drop_step:
  assumes inv: "mem_inv H T mem xs" and inj: "inj_on H T" and tx: "tx \<in> T"
  obtains mem' xs' where "(case mpMap mem (H tx) of None \<Rightarrow> Some mem | Some e \<Rightarrow> removeTx H mem tx e) = Some mem'"
    "mem_inv H T mem' xs'" "same_rest mem mem'" "set (map (txOf mem') xs') \<subseteq> set (map (txOf mem) xs)"
    "uniq H mem xs \<Longrightarrow> uniq H mem' xs' \<and> map (txOf mem') xs' = filter (\<lambda>v. v \<noteq> tx) (map (txOf mem) xs)"
proof (cases "mpMap mem (H tx)")
  case None
  have "filter (\<lambda>v. v \<noteq> tx) (map (txOf mem) xs) = map (txOf mem) xs" if "uniq H mem xs"
    using that None by (intro filter_True) (auto simp: uniq_def)
  then show ?thesis using that[of mem xs] None inv by (simp add: same_rest_def)
next
  case (Some e)
  then have e: "e \<in> set xs" "H (txOf mem e) = H tx" using inv by (auto simp: mem_inv_def)
  then have t: "txOf mem e = tx" using inv inj tx by (auto simp: mem_inv_def dest: inj_onD)
  obtain ys zs where xs: "xs = ys @ e # zs" using e(1) by (meson split_list)
  obtain mem' where m: "removeTx H mem tx e = Some mem'" "mem_inv H T mem' (ys @ zs)" "same_rest mem mem'"
    "\<And>x. txOf mem' x = txOf mem x" "mpMap mem' = (mpMap mem)(H tx := None)" using removeTx_inv[OF inv[unfolded xs] t] by metis
  have T: "\<forall>x\<in>set xs. txOf mem x \<in> T" using inv by (auto simp: mem_inv_def)
  have "uniq H mem' (ys @ zs) \<and> map (txOf mem') (ys @ zs) = filter (\<lambda>v. v \<noteq> tx) (map (txOf mem) xs)" if u: "uniq H mem xs"
  proof -
    have "tx \<notin> txOf mem ` set (ys @ zs)" using u t by (auto simp: uniq_def xs)
    then have ne: "txOf mem x \<noteq> tx" if "x \<in> set (ys @ zs)" for x using that by blast
    then have "H (txOf mem x) \<noteq> H tx" if "x \<in> set (ys @ zs)" for x using that inj tx T by (auto simp: xs dest: inj_onD)
    moreover have "filter (\<lambda>v. v \<noteq> tx) (map (txOf mem) ys) = map (txOf mem) ys" "filter (\<lambda>v. v \<noteq> tx) (map (txOf mem) zs) = map (txOf mem) zs"
      using ne by (auto intro!: filter_True)
    ultimately show ?thesis using u t m(4,5) by (auto simp: uniq_def xs)
  qed
  then show ?thesis using that[of mem' "ys @ zs"] Some m xs by (auto simp: m(4))
qed

lemma dropCommitted_inv:
  "mem_inv H T mem xs \<Longrightarrow> inj_on H T \<Longrightarrow> set txs \<subseteq> T \<Longrightarrow> length txs \<le> length codes \<Longrightarrow>
   \<exists>mem' xs'. dropCommitted H mem txs codes = Some mem' \<and> mem_inv H T mem' xs' \<and> same_rest mem mem' \<and>
     set (map (txOf mem') xs') \<subseteq> set (map (txOf mem) xs) \<and>
     (uniq H mem xs \<longrightarrow> uniq H mem' xs' \<and> map (txOf mem') xs' = filter (\<lambda>v. v \<notin> set txs) (map (txOf mem) xs))"
proof (induction txs arbitrary: mem xs codes)
  case Nil
  then show ?case by (auto simp: same_rest_def)
next
  case (Cons tx txs)
  obtain code codes' where codes: "codes = code # codes'" "length txs \<le> length codes'" using Cons.prems(4) by (cases codes) auto
  let ?m1 = "mem\<lparr>mpCache := (if code = 0 then fst (cache_Push H (mpCache mem) tx) else cache_Remove H (mpCache mem) tx)\<rparr>"
  have "cache_inv (mpCache mem)" using Cons.prems(1) by (simp add: mem_inv_def)
  then have m1: "mem_inv H T ?m1 xs" using Cons.prems(1) by (intro mem_inv_touch(9)) auto
  have "tx \<in> T" using Cons.prems(3) by simp
  from drop_step[OF m1 Cons.prems(2) this] obtain mem2 xs2 where m2:
    "(case mpMap ?m1 (H tx) of None \<Rightarrow> Some ?m1 | Some e \<Rightarrow> removeTx H ?m1 tx e) = Some mem2" "mem_inv H T mem2 xs2" "same_rest ?m1 mem2"
    "set (map (txOf mem2) xs2) \<subseteq> set (map (txOf ?m1) xs)"
    "uniq H ?m1 xs \<Longrightarrow> uniq H mem2 xs2 \<and> map (txOf mem2) xs2 = filter (\<lambda>v. v \<noteq> tx) (map (txOf ?m1) xs)" by metis
  obtain mem' xs' where m': "dropCommitted H mem2 txs codes' = Some mem'" "mem_inv H T mem' xs'" "same_rest mem2 mem'"
    "set (map (txOf mem') xs') \<subseteq> set (map (txOf mem2) xs2)"
    "uniq H mem2 xs2 \<longrightarrow> uniq H mem' xs' \<and> map (txOf mem') xs' = filter (\<lambda>v. v \<notin> set txs) (map (txOf mem2) xs2)"
    using Cons.IH[OF m2(2) Cons.prems(2) _ codes(2)] Cons.prems(3) by auto
  have "dropCommitted H mem (tx # txs) codes = Some mem'" using codes(1) m2(1) m'(1) by (simp add: Let_def)
  moreover have "same_rest mem mem'" using m2(3) m'(3) by (simp add: same_rest_def)
  moreover have "set (map (txOf mem') xs') \<subseteq> set (map (txOf mem) xs)" using m2(4) m'(4) by simp
  moreover have "uniq H mem' xs' \<and> map (txOf mem') xs' = filter (\<lambda>v. v \<notin> set (tx # txs)) (map (txOf mem) xs)" if "uniq H mem xs"
  proof -
    have "uniq H ?m1 xs" using that by (simp add: uniq_def)
    from m2(5)[OF this] m'(5) show ?thesis by (simp add: conj_commute)
  qed
  ultimately show ?case using m'(2) by blast
qed

lemma Update_pool:
  assumes p: "pool H T mem vs" and inj: "inj_on H T" and txs: "set txs \<subseteq> T" "length txs \<le> length codes"
  shows "\<exists>mem' a' vs'. mem_Update H chk mem a height txs codes pre = Some (mem', a') \<and> pool H T mem' vs' \<and> mpConfig mem' = mpConfig mem \<and>
    ((\<exists>xs. mem_inv H T mem xs \<and> uniq H mem xs) \<and> cfgRecheck (mpConfig mem) \<longrightarrow> vs' = fst (recheckSpec chk a (filter (\<lambda>v. v \<notin> set txs) vs)))"
proof -
  obtain xs where xs: "mem_inv H T mem xs" "map (txOf mem) xs = vs" "mpCursor mem = None" using p by (auto simp: pool_def)
  have same: "ys = xs" if "mem_inv H T mem ys" for ys
    using that xs(1) elements_inv by (metis mem_inv_def option.inject)
  let ?m = "mem\<lparr>mpHeight := height, mpNotified := False, mpPreCheck := (if pre \<noteq> None then pre else mpPreCheck mem)\<rparr>"
  have "mem_inv H T ?m xs" using xs(1) by (simp add: mem_inv_touch)
  from dropCommitted_inv[OF this inj txs] obtain mem1 xs1 where m1: "dropCommitted H ?m txs codes = Some mem1" "mem_inv H T mem1 xs1" "same_rest ?m mem1"
    "uniq H ?m xs \<longrightarrow> uniq H mem1 xs1 \<and> map (txOf mem1) xs1 = filter (\<lambda>v. v \<notin> set txs) (map (txOf ?m) xs)" by blast
  have u: "map (txOf mem1) xs1 = filter (\<lambda>v. v \<notin> set txs) vs" if "\<exists>xs. mem_inv H T mem xs \<and> uniq H mem xs"
    using m1(4) that same xs(2) by (auto simp: uniq_def)
  have p1: "pool H T mem1 (map (txOf mem1) xs1)" "mpConfig mem1 = mpConfig mem" using m1(2,3) xs(3) by (auto simp: pool_def same_rest_def)
  show ?thesis
  proof (cases "xs1 = []")
    case True
    then have "mem_Update H chk mem a height txs codes pre = Some (mem1, a)" using m1(1) mem_inv_Size[OF m1(2)] by (simp add: mem_Update_def)
    then show ?thesis using p1 u True by (auto intro!: exI[of _ "[]"])
  next
    case False
    then have pos: "0 < mem_Size mem1" using mem_inv_Size[OF m1(2)] by simp
    show ?thesis
    proof (cases "cfgRecheck (mpConfig mem)")
      case True
      from recheckTxs_pool[OF p1(1), of chk a] False obtain mem' where "recheckTxs H chk mem1 a = Some (mem', snd (recheckSpec chk a (map (txOf mem1) xs1)))"
        "pool H T mem' (fst (recheckSpec chk a (map (txOf mem1) xs1)))" "mpConfig mem' = mpConfig mem1" by auto
      then show ?thesis using m1(1) pos True p1(2) u by (fastforce simp: mem_Update_def)
    next
      case norecheck: False
      from notify_inv[OF m1(2) False] obtain mem' where "notifyTxsAvailable mem1 = Some mem'" "mem_inv H T mem' xs1" "same_rest mem1 mem'" by metis
      then show ?thesis using m1(1) pos norecheck p1 by (auto simp: mem_Update_def pool_def same_rest_def)
    qed
  qed
qed


lemma flushLoop_inv:
  "cl_inv (mpTxs mem) zs \<Longrightarrow> clMax (mpTxs mem) = MaxInt64 \<Longrightarrow> length zs \<le> f \<Longrightarrow>
   \<exists>l. flushLoop f mem (first zs None) = Some (mem\<lparr>mpTxs := l\<rparr>) \<and> cl_inv l [] \<and> clMax l = MaxInt64"
proof (induction zs arbitrary: mem f)
  case Nil
  then show ?case by (cases f) (auto intro!: exI[of _ "mpTxs mem"])
next
  case (Cons e zs)
  obtain f' where f: "f = Suc f'" "length zs \<le> f'" using Cons.prems(3) by (cases f) auto
  have "cl_inv (mpTxs mem) ([] @ e # zs)" using Cons.prems(1) by simp
  from Drop_inv[OF this] obtain l where l: "cl_Drop (mpTxs mem) e = Some l" "cl_inv l ([] @ zs)" "clMax l = clMax (mpTxs mem)" "ce_Next l e = first zs None" by metis
  then obtain l1 v where "cl_Remove (mpTxs mem) e = Some (l1, v)" "DetachPrev l1 e = Some l" by (auto simp: cl_Drop_def bind_eq_Some_conv)
  moreover from Cons.IH[of "mem\<lparr>mpTxs := l\<rparr>" f'] l f Cons.prems(2) obtain l' where
    "flushLoop f' (mem\<lparr>mpTxs := l\<rparr>) (first zs None) = Some (mem\<lparr>mpTxs := l, mpTxs := l'\<rparr>)" "cl_inv l' []" "clMax l' = MaxInt64" by auto
  ultimately show ?case using f(1) l(4) by auto
qed

lemma Flush_pool:
  assumes "pool H T mem vs"
  shows "\<exists>mem'. mem_Flush mem = Some mem' \<and> pool H T mem' [] \<and> mpConfig mem' = mpConfig mem"
proof -
  obtain xs where xs: "mem_inv H T mem xs" "mpCursor mem = None" using assms by (auto simp: pool_def)
  let ?m = "mem\<lparr>mpTxsBytes := 0, mpCache := cache_Reset (mpCache mem)\<rparr>"
  have cl: "cl_inv (mpTxs ?m) xs" "clMax (mpTxs ?m) = MaxInt64" "cl_Front (mpTxs mem) = first xs None"
    using xs by (auto simp: mem_inv_def cl_inv_def cl_Front_def)
  then obtain l where l: "flushLoop (length (clHeap (mpTxs mem))) ?m (first xs None) = Some (?m\<lparr>mpTxs := l\<rparr>)" "cl_inv l []" "clMax l = MaxInt64"
    using flushLoop_inv[OF cl(1,2), of "length (clHeap (mpTxs mem))"] cl_inv_length[OF cl(1)] by auto
  have "cfg_ok (mpConfig mem)" "cache_inv (mpCache mem)" using xs(1) by (auto simp: mem_inv_def)
  then show ?thesis
    using l cl(3) xs(2) by (auto simp: mem_Flush_def pool_def mem_inv_def sizes_def cfg_ok_def cfg_ValidateBasic_def)
qed

text \<open>A run of the pool: transactions come in, blocks are committed, the pool is flushed. Steps never get stuck.\<close>

datatype mem_op = OpCheck bytes string | OpUpdate int "bytes list" "int list" | OpFlush

fun mem_step :: "(bytes \<Rightarrow> bytes) \<Rightarrow> ('a \<Rightarrow> bytes \<Rightarrow> bool \<Rightarrow> 'a \<times> int) \<Rightarrow> mem_op \<Rightarrow> CListMempool \<times> 'a \<Rightarrow> (CListMempool \<times> 'a) option" where
  "mem_step H chk (OpCheck tx s) (mem, a) = map_option (\<lambda>(m, a', _). (m, a')) (CheckTx H chk mem a tx s)"
| "mem_step H chk (OpUpdate h txs codes) (mem, a) = mem_Update H chk mem a h txs codes None"
| "mem_step H chk OpFlush (mem, a) = map_option (\<lambda>m. (m, a)) (mem_Flush mem)"

fun mem_run :: "(bytes \<Rightarrow> bytes) \<Rightarrow> ('a \<Rightarrow> bytes \<Rightarrow> bool \<Rightarrow> 'a \<times> int) \<Rightarrow> mem_op list \<Rightarrow> CListMempool \<times> 'a \<Rightarrow> (CListMempool \<times> 'a) option" where
  "mem_run H chk [] s = Some s"
| "mem_run H chk (p # ps) s = Option.bind (mem_step H chk p s) (mem_run H chk ps)"

fun op_ok :: "bytes set \<Rightarrow> mem_op \<Rightarrow> bool" where
  "op_ok T (OpCheck tx s) \<longleftrightarrow> tx \<in> T \<and> length tx < 2 ^ 62"
| "op_ok T (OpUpdate h txs codes) \<longleftrightarrow> set txs \<subseteq> T \<and> length txs \<le> length codes"
| "op_ok T OpFlush \<longleftrightarrow> True"

lemma mem_step_pool:
  assumes "pool H T mem vs" "inj_on H T" "op_ok T p"
  shows "\<exists>mem' a' vs'. mem_step H chk p (mem, a) = Some (mem', a') \<and> pool H T mem' vs' \<and> mpConfig mem' = mpConfig mem"
proof (cases p)
  case (OpCheck tx s)
  then show ?thesis using CheckTx_pool[OF assms(1), of tx chk a s] assms(3) by (fastforce)
next
  case (OpUpdate h txs codes)
  then show ?thesis using Update_pool[OF assms(1,2), of txs codes chk a h None] assms(3) by auto
next
  case OpFlush
  then show ?thesis using Flush_pool[OF assms(1)] by auto
qed

lemma mem_run_pool:
  "pool H T mem vs \<Longrightarrow> inj_on H T \<Longrightarrow> list_all (op_ok T) ps \<Longrightarrow>
   \<exists>mem' a' vs'. mem_run H chk ps (mem, a) = Some (mem', a') \<and> pool H T mem' vs' \<and> mpConfig mem' = mpConfig mem"
proof (induction ps arbitrary: mem a vs)
  case (Cons p ps)
  obtain mem1 a1 vs1 where "mem_step H chk p (mem, a) = Some (mem1, a1)" "pool H T mem1 vs1" "mpConfig mem1 = mpConfig mem"
    using mem_step_pool[OF Cons.prems(1,2), of p chk a] Cons.prems(3) by auto
  then show ?case using Cons.IH[of mem1 vs1 a1] Cons.prems by auto
qed auto

lemma pool_values: "pool H T mem vs \<Longrightarrow> cl_values (mpTxs mem) = Some ms \<Longrightarrow> map mtTx ms = vs"
  using elements_inv by (fastforce simp: pool_def mem_inv_def cl_values_def tx_at_def)


subsection \<open>Reaping\<close>

lemma ComputeProtoSize_mono: "m \<le> n \<Longrightarrow> ComputeProtoSizeForTxs (take m vs) \<le> ComputeProtoSizeForTxs (take n vs)"
proof -
  assume "m \<le> n"
  then have "take n vs = take m vs @ take (n - m) (drop m vs)" by (metis le_add_diff_inverse take_add)
  moreover have "0 \<le> ComputeProtoSizeForTxs xs" for xs unfolding ComputeProtoSizeForTxs_def by (induction xs) auto
  ultimately show ?thesis by (simp add: ComputeProtoSizeForTxs_def)
qed

lemma reapBytes_prefix:
  "cl_inv (mpTxs mem) (ys @ zs) \<Longrightarrow> length zs \<le> f \<Longrightarrow> 0 \<le> mx \<Longrightarrow> ComputeProtoSizeForTxs (map (txOf mem) ys) \<le> mx \<Longrightarrow>
   \<exists>n\<le>length zs. reapBytes f mem mx (first zs None) (map (txOf mem) ys) = Some (map (txOf mem) (ys @ take n zs)) \<and>
     ComputeProtoSizeForTxs (map (txOf mem) (ys @ take n zs)) \<le> mx \<and>
     (n < length zs \<longrightarrow> mx < ComputeProtoSizeForTxs (map (txOf mem) (ys @ take (Suc n) zs)))"
proof (induction zs arbitrary: ys f)
  case Nil
  then show ?case by (cases f) auto
next
  case (Cons e zs)
  obtain f' where f: "f = Suc f'" "length zs \<le> f'" using Cons.prems(2) by (cases f) auto
  show ?case
  proof (cases "mx < ComputeProtoSizeForTxs (map (txOf mem) (ys @ [e]))")
    case True
    then show ?thesis using f Cons.prems by (auto intro!: exI[of _ 0])
  next
    case False
    then obtain n where "n \<le> length zs" "reapBytes f' mem mx (first zs None) (map (txOf mem) (ys @ [e])) = Some (map (txOf mem) ((ys @ [e]) @ take n zs))"
      "ComputeProtoSizeForTxs (map (txOf mem) ((ys @ [e]) @ take n zs)) \<le> mx"
      "n < length zs \<longrightarrow> mx < ComputeProtoSizeForTxs (map (txOf mem) ((ys @ [e]) @ take (Suc n) zs))"
      using Cons.IH[of "ys @ [e]" f'] Cons.prems f by auto
    then show ?thesis using f False cl_inv_Next(1)[OF Cons.prems(1)] by (auto intro!: exI[of _ "Suc n"])
  qed
qed

lemma reapBytes_all:
  "cl_inv (mpTxs mem) (ys @ zs) \<Longrightarrow> length zs \<le> f \<Longrightarrow> mx < 0 \<Longrightarrow>
   reapBytes f mem mx (first zs None) txs = Some (txs @ map (txOf mem) zs)"
proof (induction zs arbitrary: ys f txs)
  case Nil
  then show ?case by (cases f) auto
next
  case (Cons e zs)
  then obtain f' where f: "f = Suc f'" "length zs \<le> f'" by (cases f) auto
  then show ?case using Cons.IH[of "ys @ [e]" f'] Cons.prems cl_inv_Next(1)[OF Cons.prems(1)] by auto
qed

lemma reapTxs_take:
  "cl_inv (mpTxs mem) (ys @ zs) \<Longrightarrow> length zs \<le> f \<Longrightarrow>
   reapTxs f mem mx (first zs None) txs = Some (txs @ map (txOf mem) (take (nat (mx + 1 - int (length txs))) zs))"
proof (induction zs arbitrary: ys f txs)
  case Nil
  then show ?case by (cases f) auto
next
  case (Cons e zs)
  then obtain f' where f: "f = Suc f'" "length zs \<le> f'" by (cases f) auto
  have "nat (mx + 1 - int (length txs)) = Suc (nat (mx + 1 - int (length (txs @ [txOf mem e]))))" if "int (length txs) \<le> mx"
    using that by simp
  then show ?case using f Cons.IH[of "ys @ [e]" f'] Cons.prems cl_inv_Next(1)[OF Cons.prems(1)] by auto
qed


section \<open>Properties\<close>

lemma run_pool:
  assumes "cfg_ok cfg" "inj_on H T" "list_all (op_ok T) ops" "mem_run H chk ops (NewCListMempool cfg h, a) = Some (mem, a')"
    and "cl_values (mpTxs mem) = Some ms"
  shows "pool H T mem (map mtTx ms) \<and> mpConfig mem = cfg"
proof -
  obtain vs where "pool H T mem vs" "mpConfig mem = mpConfig (NewCListMempool cfg h)"
    using mem_run_pool[OF pool_New[OF assms(1), of H T h] assms(2,3), of chk a] assms(4) by auto
  then show ?thesis using pool_values[OF _ assms(5)] by (auto simp: NewCListMempool_def)
qed


definition sample_cfg :: MempoolConfig where
  "sample_cfg = \<lparr>cfgRecheck = True, cfgSize = 5, cfgMaxTxsBytes = 100, cfgCacheSize = 10, cfgMaxTxBytes = 20\<rparr>"

definition sample_chk :: "nat \<Rightarrow> bytes \<Rightarrow> bool \<Rightarrow> nat \<times> int" where
  "sample_chk a tx recheck = (Suc a, 0)"

definition sample_ops :: "mem_op list" where
  "sample_ops = [OpCheck [1, 2] ''p'', OpCheck [3] ''q'', OpCheck [4] ''q'', OpUpdate 1 [[3]] [0]]"

lemma sample_facts: "cfg_ok sample_cfg" "inj_on (\<lambda>tx. tx) (UNIV :: bytes set)" "list_all (op_ok UNIV) sample_ops"
  by (simp_all add: sample_cfg_def cfg_ok_def cfg_ValidateBasic_def MaxInt64_def sample_ops_def)

lemma pool_sample_run:
  "map_option (\<lambda>(m, a). (cl_values (mpTxs m), a)) (mem_run (\<lambda>tx. tx) sample_chk sample_ops (NewCListMempool sample_cfg 0, 0)) =
   Some (Some [\<lparr>mtHeight = 0, mtTx = [1, 2]\<rparr>, \<lparr>mtHeight = 0, mtTx = [4]\<rparr>], 5)"
  by code_simp


text \<open>Property C27: what \<open>ReapMaxBytes\<close> takes for a proposal is a prefix of the pool in arrival order: everything when the
  limit is negative, and otherwise the longest prefix whose encoding fits into the limit.\<close>

theorem ReapMaxBytes_longest_prefix:
  assumes "cfg_ok cfg" and "inj_on H T" and "list_all (op_ok T) ops"
    and "mem_run H chk ops (NewCListMempool cfg h, a) = Some (mem, a')" and "cl_values (mpTxs mem) = Some ms"
  shows "\<exists>n\<le>length ms. ReapMaxBytes mem maxBytes = Some (take n (map mtTx ms)) \<and>
    (if maxBytes < 0 then n = length ms
     else ComputeProtoSizeForTxs (take n (map mtTx ms)) \<le> maxBytes \<and>
       (n < length ms \<longrightarrow> maxBytes < ComputeProtoSizeForTxs (take (Suc n) (map mtTx ms))))"
proof -
  obtain xs where xs: "mem_inv H T mem xs" "map (txOf mem) xs = map mtTx ms" using run_pool[OF assms] by (auto simp: pool_def)
  have len: "length xs = length ms" using xs(2) by (metis length_map)
  have cl: "cl_inv (mpTxs mem) ([] @ xs)" "cl_Front (mpTxs mem) = first xs None" using xs(1) by (auto simp: mem_inv_def cl_inv_def cl_Front_def)
  note fuel = cl_inv_length[OF cl(1), simplified]
  show ?thesis
  proof (cases "maxBytes < 0")
    case True
    then show ?thesis
      using reapBytes_all[OF cl(1) fuel, of maxBytes "[]"] cl(2) xs(2) by (auto simp: ReapMaxBytes_def)
  next
    case False
    then obtain n where "n \<le> length xs" "ReapMaxBytes mem maxBytes = Some (take n (map (txOf mem) xs))"
      "ComputeProtoSizeForTxs (take n (map (txOf mem) xs)) \<le> maxBytes"
      "n < length xs \<longrightarrow> maxBytes < ComputeProtoSizeForTxs (take (Suc n) (map (txOf mem) xs))"
      using reapBytes_prefix[OF cl(1) fuel, of maxBytes] cl(2) by (auto simp: ReapMaxBytes_def ComputeProtoSizeForTxs_def take_map)
    then show ?thesis using False len by (auto simp: xs(2))
  qed
qed

lemma sample_run_obtain:
  obtains mem where "mem_run (\<lambda>tx. tx) sample_chk sample_ops (NewCListMempool sample_cfg 0, 0) = Some (mem, 5)"
    "cl_values (mpTxs mem) = Some [\<lparr>mtHeight = 0, mtTx = [1, 2]\<rparr>, \<lparr>mtHeight = 0, mtTx = [4]\<rparr>]"
  using pool_sample_run that by (cases "mem_run (\<lambda>tx. tx) sample_chk sample_ops (NewCListMempool sample_cfg 0, 0)") auto

theorem ReapMaxBytes_longest_prefix_witness:
  "\<exists>mem. mem_run (\<lambda>tx. tx) sample_chk sample_ops (NewCListMempool sample_cfg 0, 0) = Some (mem, 5) \<and> ReapMaxBytes mem (- 1) = Some [[1, 2], [4]]"
proof -
  obtain mem where m: "mem_run (\<lambda>tx. tx) sample_chk sample_ops (NewCListMempool sample_cfg 0, 0) = Some (mem, 5)"
    "cl_values (mpTxs mem) = Some [\<lparr>mtHeight = 0, mtTx = [1, 2]\<rparr>, \<lparr>mtHeight = 0, mtTx = [4]\<rparr>]" by (rule sample_run_obtain)
  show ?thesis using ReapMaxBytes_longest_prefix[OF sample_facts m, of "- 1"] m(1) by auto
qed

text \<open>\<open>ReapMaxTxs\<close> is documented to return at most \<open>max\<close> transactions, but its loop runs while
  \<open>len(txs) <= max\<close>: from a pool that holds more it returns \<open>max + 1\<close>.\<close>

theorem ReapMaxTxs_one_too_many:
  assumes "cfg_ok cfg" and "inj_on H T" and "list_all (op_ok T) ops"
    and "mem_run H chk ops (NewCListMempool cfg h, a) = Some (mem, a')" and "cl_values (mpTxs mem) = Some ms"
    and "0 \<le> mx" and "mx < int (length ms)"
  shows "\<exists>txs. ReapMaxTxs mem mx = Some txs \<and> txs = take (nat mx + 1) (map mtTx ms) \<and> int (length txs) = mx + 1"
proof -
  obtain xs where xs: "mem_inv H T mem xs" "map (txOf mem) xs = map mtTx ms" using run_pool[OF assms(1-5)] by (auto simp: pool_def)
  have cl: "cl_inv (mpTxs mem) ([] @ xs)" "cl_Front (mpTxs mem) = first xs None" using xs(1) by (auto simp: mem_inv_def cl_inv_def cl_Front_def)
  have "ReapMaxTxs mem mx = Some (take (nat mx + 1) (map mtTx ms))"
    using reapTxs_take[OF cl(1) cl_inv_length[OF cl(1), simplified], of mx "[]"] cl(2) assms(6) xs(2)
    by (simp add: ReapMaxTxs_def nat_add_distrib flip: take_map)
  then show ?thesis using assms(6,7) by auto
qed

theorem ReapMaxTxs_one_too_many_witness:
  "\<exists>mem txs. mem_run (\<lambda>tx. tx) sample_chk sample_ops (NewCListMempool sample_cfg 0, 0) = Some (mem, 5) \<and> ReapMaxTxs mem 0 = Some txs \<and> length txs = 1"
proof -
  obtain mem where m: "mem_run (\<lambda>tx. tx) sample_chk sample_ops (NewCListMempool sample_cfg 0, 0) = Some (mem, 5)"
    "cl_values (mpTxs mem) = Some [\<lparr>mtHeight = 0, mtTx = [1, 2]\<rparr>, \<lparr>mtHeight = 0, mtTx = [4]\<rparr>]" by (rule sample_run_obtain)
  show ?thesis using ReapMaxTxs_one_too_many[OF sample_facts m, of 0] m(1) by auto
qed

lemma uncached_Remove: "cache_Remove H cache tx = Some c \<Longrightarrow> mcMap c (H tx) = None"
  by (auto simp: cache_Remove_def mc_Remove_def Let_def split: option.splits)

lemma uncached_Remove_other: "(\<forall>c. cache = Some c \<longrightarrow> mcMap c k = None) \<Longrightarrow> cache_Remove H cache tx = Some c \<Longrightarrow> mcMap c k = None"
  by (auto simp: cache_Remove_def mc_Remove_def Let_def split: option.splits)

definition uncached :: "bytes \<Rightarrow> CListMempool \<Rightarrow> bool" where
  "uncached k mem \<longleftrightarrow> (\<forall>c. mpCache mem = Some c \<longrightarrow> mcMap c k = None)"

lemma notify_uncached: "notifyTxsAvailable mem = Some mem' \<Longrightarrow> uncached k mem \<Longrightarrow> uncached k mem'"
  by (auto simp: notifyTxsAvailable_def uncached_def split: if_splits)

lemma removeTx_uncached: "removeTx H mem tx e = Some mem' \<Longrightarrow> uncached k mem \<or> k = H tx \<Longrightarrow> uncached k mem'"
  unfolding removeTx_Drop using uncached_Remove uncached_Remove_other by (fastforce simp: uncached_def)

lemma globalCb_uncached: "globalCb H mem tx code = Some mem' \<Longrightarrow> uncached k mem \<Longrightarrow> uncached k mem'"
proof -
  assume g: "globalCb H mem tx code = Some mem'" and u: "uncached k mem"
  have touch: "uncached k (m\<lparr>mpCursor := c\<rparr>) = uncached k m" for m c by (simp add: uncached_def)
  show ?thesis
  proof (cases "mpCursor mem")
    case None
    then show ?thesis using g u by (simp add: globalCb_def)
  next
    case (Some c)
    then obtain mem1 where m1: "(if code = 0 then Some mem else removeTx H mem tx c) = Some mem1"
      "mem' = mem1\<lparr>mpCursor := (if Some c = mpEnd mem1 then None else ce_Next (mpTxs mem1) c)\<rparr> \<or>
       notifyTxsAvailable (mem1\<lparr>mpCursor := (if Some c = mpEnd mem1 then None else ce_Next (mpTxs mem1) c)\<rparr>) = Some mem'"
      using g unfolding globalCb_def resCbRecheck_def by (auto simp: Let_def bind_eq_Some_conv split: if_splits)
    have "uncached k mem1" using m1(1) u removeTx_uncached[of H mem tx c mem1 k] by (auto split: if_splits)
    then show ?thesis using m1(2) notify_uncached touch by blast
  qed
qed

lemma recheckLoop_uncached: "recheckLoop H chk f mem a e = Some (mem', a') \<Longrightarrow> uncached k mem \<Longrightarrow> uncached k mem'"
proof (induction f arbitrary: mem a e)
  case 0
  then show ?case by (cases e) auto
next
  case (Suc f)
  show ?case
  proof (cases e)
    case None
    then show ?thesis using Suc.prems by simp
  next
    case (Some x)
    obtain a1 code where c: "chk a (txOf mem x) True = (a1, code)" by fastforce
    then obtain mem1 where "globalCb H mem (txOf mem x) code = Some mem1" "recheckLoop H chk f mem1 a1 (ce_Next (mpTxs mem1) x) = Some (mem', a')"
      using Suc.prems(1) Some by (auto simp: bind_eq_Some_conv)
    then show ?thesis using Suc.IH globalCb_uncached[OF _ Suc.prems(2)] by blast
  qed
qed

lemma uncached_Push_other: "(\<forall>c. cache = Some c \<longrightarrow> mcMap c k = None) \<Longrightarrow> fst (cache_Push H cache tx) = Some c \<Longrightarrow> H tx \<noteq> k \<Longrightarrow> mcMap c k = None"
  by (auto simp: cache_Push_def mc_Push_def Let_def split: option.splits list.splits if_splits)

lemma removeTx_map: "removeTx H mem tx e = Some mem' \<Longrightarrow> mpMap mem' = (mpMap mem)(H tx := None)"
  by (auto simp: removeTx_def bind_eq_Some_conv)

text \<open>One transaction of a block: it takes its hash out of the pool's map and, if it was there, out of the cache; other hashes
  are only touched by an eviction.\<close>

lemma dropCommitted_step:
  assumes "dropCommitted H mem (tx # txs) (code # codes) = Some mem'"
  obtains mem1 where "dropCommitted H mem1 txs codes = Some mem'" "mpMap mem (H tx) \<noteq> None \<Longrightarrow> uncached (H tx) mem1"
    "\<And>k. k \<noteq> H tx \<Longrightarrow> mpMap mem1 k = mpMap mem k \<and> (uncached k mem \<longrightarrow> uncached k mem1)"
proof -
  define m where "m = mem\<lparr>mpCache := (if code = 0 then fst (cache_Push H (mpCache mem) tx) else cache_Remove H (mpCache mem) tx)\<rparr>"
  obtain mem1 where m1: "(case mpMap m (H tx) of None \<Rightarrow> Some m | Some e \<Rightarrow> removeTx H m tx e) = Some mem1" "dropCommitted H mem1 txs codes = Some mem'"
    using assms unfolding dropCommitted.simps Let_def m_def[symmetric] by (auto simp: bind_eq_Some_conv)
  have m: "mpMap m = mpMap mem" "k \<noteq> H tx \<Longrightarrow> uncached k mem \<Longrightarrow> uncached k m" for k
    by (auto simp: m_def uncached_def intro: uncached_Push_other uncached_Remove_other)
  show ?thesis
  proof (cases "mpMap m (H tx)")
    case None
    then show ?thesis using m1 m by (intro that[of mem1]) auto
  next
    case (Some e)
    then have r: "removeTx H m tx e = Some mem1" using m1(1) by simp
    show ?thesis using m m1(2) removeTx_map[OF r] removeTx_uncached[OF r] by (intro that[of mem1]) auto
  qed
qed

lemma dropCommitted_others: "dropCommitted H mem txs codes = Some mem' \<Longrightarrow> k \<notin> H ` set txs \<Longrightarrow> uncached k mem \<Longrightarrow> uncached k mem'"
proof (induction txs arbitrary: mem codes)
  case (Cons x txs)
  then obtain code cs where c: "codes = code # cs" by (cases codes) auto
  from Cons.prems(1)[unfolded c] show ?case by (rule dropCommitted_step) (use Cons in auto)
qed simp

lemma dropCommitted_uncached:
  "dropCommitted H mem txs codes = Some mem' \<Longrightarrow> distinct (map H txs) \<Longrightarrow> tx \<in> set txs \<Longrightarrow> mpMap mem (H tx) \<noteq> None \<Longrightarrow> uncached (H tx) mem'"
proof (induction txs arbitrary: mem codes)
  case (Cons x txs)
  then obtain code cs where c: "codes = code # cs" by (cases codes) auto
  from Cons.prems(1)[unfolded c] show ?case
  proof (rule dropCommitted_step)
    fix mem1 assume m1: "dropCommitted H mem1 txs cs = Some mem'" "mpMap mem (H x) \<noteq> None \<Longrightarrow> uncached (H x) mem1"
      "\<And>k. k \<noteq> H x \<Longrightarrow> mpMap mem1 k = mpMap mem k \<and> (uncached k mem \<longrightarrow> uncached k mem1)"
    show ?thesis
    proof (cases "tx = x")
      case True
      then show ?thesis using dropCommitted_others[OF m1(1), of "H x"] m1(2) Cons.prems(2,4) by auto
    next
      case False
      then have "tx \<in> set txs" "H tx \<noteq> H x" using Cons.prems(2,3) by (auto simp: image_iff)
      then show ?thesis using Cons.IH[OF m1(1)] m1(3)[of "H tx"] Cons.prems(2,4) by simp
    qed
  qed
qed simp

text \<open>Property C28: \<open>Update\<close> means to keep committed transactions in the cache so that they are not taken in again, but
  \<open>removeTx\<close>, which it calls next, drops the hash from the cache: after the update with a block whose transactions have
  different hashes, every transaction of the block that was in the pool is unknown to the cache, whatever its result code,
  and recheck does not put it back. (A transaction that a block holds twice is put back by its second occurrence.)\<close>

theorem committed_tx_leaves_cache:
  assumes "mem_Update H chk mem a height txs codes pre = Some (mem', a')" and "distinct (map H txs)"
    and "tx \<in> set txs" and "mpMap mem (H tx) = Some e" and "mpCache mem' = Some c"
  shows "mcMap c (H tx) = None"
proof -
  let ?m = "mem\<lparr>mpHeight := height, mpNotified := False, mpPreCheck := (if pre \<noteq> None then pre else mpPreCheck mem)\<rparr>"
  obtain mem1 where m1: "dropCommitted H ?m txs codes = Some mem1" "(if 0 < mem_Size mem1 then
         (if cfgRecheck (mpConfig mem1) then recheckTxs H chk mem1 a else map_option (\<lambda>m. (m, a)) (notifyTxsAvailable mem1))
       else Some (mem1, a)) = Some (mem', a')"
    using assms(1) unfolding mem_Update_def by (auto simp: bind_eq_Some_conv)
  have "uncached (H tx) mem1" by (rule dropCommitted_uncached[OF m1(1) assms(2,3)]) (simp add: assms(4))
  then have "uncached (H tx) (mem1\<lparr>mpCursor := x, mpEnd := y\<rparr>)" "uncached (H tx) mem1" for x y by (simp_all add: uncached_def)
  then have "uncached (H tx) mem'"
    using m1(2) by (auto simp: recheckTxs_def split: if_splits dest: recheckLoop_uncached notify_uncached)
  then show ?thesis using assms(5) by (simp add: uncached_def)
qed

definition sample_mem :: CListMempool where
  "sample_mem = fst (the (mem_run (\<lambda>tx. tx) sample_chk [OpCheck [3] ''p''] (NewCListMempool sample_cfg 0, 0)))"

theorem committed_tx_leaves_cache_witness:
  "\<exists>mem' a' c. mem_Update (\<lambda>tx. tx) sample_chk sample_mem 1 1 [[7], [3]] [0, 0] None = Some (mem', a') \<and> mpCache mem' = Some c \<and> mcMap c [3] = None"
proof -
  have 1: "mpMap sample_mem [3] = Some 0" by code_simp
  have "map_option (\<lambda>(m, a). Option.is_none (mpCache m)) (mem_Update (\<lambda>tx. tx) sample_chk sample_mem 1 1 [[7], [3]] [0, 0] None) = Some False" by code_simp
  then obtain mem' a' c where 2: "mem_Update (\<lambda>tx. tx) sample_chk sample_mem 1 1 [[7], [3]] [0, 0] None = Some (mem', a')" "mpCache mem' = Some c"
    by (auto simp: Option.is_none_def)
  show ?thesis using committed_tx_leaves_cache[where H = "\<lambda>tx. tx", OF 2(1) _ _ 1 2(2)] 2 by auto
qed

end
