(* ===== verification/Chain.thy ===== *)
theory Chain
  imports Blocks Mempool
begin

text \<open>
  The chain state and how a block moves it: \<open>state/state.go\<close>, \<open>state/validation.go\<close>, \<open>state/execution.go\<close>,
  \<open>state/store.go\<close>, \<open>state/tx_filter.go\<close>, \<open>types/genesis.go\<close>, \<open>types/protobuf.go\<close> and \<open>libs/time/time.go\<close>. A time is its
  number of nanoseconds since 1970. The application is a parameter, called through the local client, whose calls do not
  fail. The database of the store keeps the protobuf messages it is given under their height; a message that encodes to
  the empty string reads as absent. A panic is \<open>None\<close>.
\<close>

section \<open>Block time\<close>

record WeightedTime =
  wtTime :: int
  wtWeight :: int

text \<open>\<open>sort.Slice\<close> by \<open>UnixNano\<close>, nil entries last. Entries with the same key have the same time, so their order, which the
  sort leaves open, does not show in the result.\<close>

definition sortTimes :: "WeightedTime option list \<Rightarrow> WeightedTime option list" where
  "sortTimes ws = map Some (sort_key (\<lambda>w. wrap 64 (wtTime w)) (map the (filter (\<lambda>w. w \<noteq> None) ws))) @ filter (\<lambda>w. w = None) ws"

fun pickMedian :: "WeightedTime option list \<Rightarrow> int \<Rightarrow> int" where
  "pickMedian [] median = zero_time"
| "pickMedian (None # ws) median = pickMedian ws median"
| "pickMedian (Some w # ws) median = (if median \<le> wtWeight w then wtTime w else pickMedian ws (sub64 median (wtWeight w)))"

definition WeightedMedian :: "WeightedTime option list \<Rightarrow> int \<Rightarrow> int" where
  "WeightedMedian weightedTimes totalVotingPower = pickMedian (sortTimes weightedTimes) (go_div totalVotingPower 2)"

text \<open>The loop of \<open>MedianTime\<close>. The weight of a signature is the first byte of the signer's address.\<close>

fun weighTimes :: "ValidatorSet \<Rightarrow> ReplySig list \<Rightarrow> int \<Rightarrow> (WeightedTime option list \<times> int) option" where
  "weighTimes vals [] pw = Some ([], pw)"
| "weighTimes vals (s # ss) pw =
     (if Absent s then map_option (\<lambda>(ws, p). (None # ws, p)) (weighTimes vals ss pw)
      else (case snd (GetByAddress vals (rsAddress s)) of
          None \<Rightarrow> map_option (\<lambda>(ws, p). (None # ws, p)) (weighTimes vals ss pw)
        | Some v \<Rightarrow>
            Option.bind (slice_get (valAddress v) 0) (\<lambda>b.
              map_option (\<lambda>(ws, p). (Some \<lparr>wtTime = rsTimestamp s, wtWeight = uint b\<rparr> # ws, p)) (weighTimes vals ss (add64 pw (uint b))))))"

definition MedianTime :: "Reply \<Rightarrow> ValidatorSet \<Rightarrow> int option" where
  "MedianTime commit validators = map_option (\<lambda>(ws, p). WeightedMedian ws p) (weighTimes validators (rpSignatures commit) 0)"


section \<open>State\<close>

record State =
  stChainID :: bytes
  stInitialHeight :: int
  stLastBlockHeight :: int
  stLastBlockID :: BlockID
  stLastBlockTime :: int
  stNextValidators :: "ValidatorSet option"
  stValidators :: ValidatorSet
  stLastValidators :: ValidatorSet
  stLastHeightValidatorsChanged :: int
  stConsensusParams :: ConsensusParams
  stLastResultsHash :: bytes
  stAppHash :: bytes

definition state_MakeBlock :: "env \<Rightarrow> codec \<Rightarrow> State \<Rightarrow> int \<Rightarrow> bytes list \<Rightarrow> Reply \<Rightarrow> bytes \<Rightarrow> (Block \<times> PartSet option) option" where
  "state_MakeBlock E K state height txs commit proposerAddress =
     Option.bind (MakeBlock E height txs commit) (\<lambda>block.
     Option.bind (if height = stInitialHeight state then Some (stLastBlockTime state) else MedianTime commit (stLastValidators state)) (\<lambda>timestamp.
     Option.bind (vals_Hash E (stValidators state)) (\<lambda>_.
     Option.bind (Option.bind (stNextValidators state) (vals_Hash E)) (\<lambda>_.
       let block' = block\<lparr>bHeader := Populate (bHeader block) (stChainID state) timestamp (stLastBlockID state)
             (HashConsensusParams E (stConsensusParams state)) (stAppHash state) proposerAddress\<rparr>
       in map_option (\<lambda>ps. (block', ps)) (block_MakePartSet E K (Some block') BlockPartSizeBytes)))))"

datatype chain_error =
    BasicError block_error | WrongChainID | WrongInitialHeight | WrongHeight | WrongPrevBlockID | WrongAppHash | WrongParamsHash
  | InitialCommitSigs | CommitError reply_error | ProposerSize | ProposerUnknown | TimeNotAfter | TimeNotMedian | TimeNotGenesis
  | HeightBelowInitial

definition checkTime :: "State \<Rightarrow> Header \<Rightarrow> Reply \<Rightarrow> chain_error option option" where
  "checkTime state h lastReply =
     (if stInitialHeight state < hHeight h then
        (if \<not> stLastBlockTime state < hTime h then Some (Some TimeNotAfter)
         else map_option (\<lambda>medianTime. if hTime h \<noteq> medianTime then Some TimeNotMedian else None) (MedianTime lastReply (stLastValidators state)))
      else if hHeight h = stInitialHeight state then
        (if hTime h \<noteq> stLastBlockTime state then Some (Some TimeNotGenesis) else Some None)
      else Some (Some HeightBelowInitial))"

definition validateBlock :: "env \<Rightarrow> State \<Rightarrow> Block \<Rightarrow> chain_error option option" where
  "validateBlock E state block =
     Option.bind (block_ValidateBasic E (Some block)) (\<lambda>err.
       case err of Some e \<Rightarrow> Some (Some (BasicError e))
       | None \<Rightarrow>
       let h = bHeader block; lastReply = the (bLastReply block) in
       if hChainID h \<noteq> stChainID state then Some (Some WrongChainID)
       else if stLastBlockHeight state = 0 \<and> hHeight h \<noteq> stInitialHeight state then Some (Some WrongInitialHeight)
       else if 0 < stLastBlockHeight state \<and> hHeight h \<noteq> add64 (stLastBlockHeight state) 1 then Some (Some WrongHeight)
       else if \<not> bid_Equals (hLastBlockID h) (stLastBlockID state) then Some (Some WrongPrevBlockID)
       else if hAppHash h \<noteq> stAppHash state then Some (Some WrongAppHash)
       else if hConsensusHash h \<noteq> HashConsensusParams E (stConsensusParams state) then Some (Some WrongParamsHash)
       else Option.bind
         (if hHeight h = stInitialHeight state
          then Some (if length (rpSignatures lastReply) \<noteq> 0 then Some InitialCommitSigs else None)
          else map_option (map_option CommitError)
            (VerifyReply E (stLastValidators state) (stChainID state) (stLastBlockID state) (sub64 (hHeight h) 1) lastReply)) (\<lambda>err.
       case err of Some e \<Rightarrow> Some (Some e)
       | None \<Rightarrow>
       if length (hProposer h) \<noteq> AddressSize then Some (Some ProposerSize)
       else if \<not> HasAddress (stValidators state) (hProposer h) then Some (Some ProposerUnknown)
       else checkTime state h lastReply))"


section \<open>Genesis\<close>

record GenesisValidator =
  gvAddress :: bytes
  gvPubKey :: bytes
  gvPower :: float64

record GenesisDoc =
  gdTime :: int
  gdChainID :: bytes
  gdInitialHeight :: int
  gdConsensusParams :: "ConsensusParams option"
  gdValidators :: "GenesisValidator list option"
  gdAppHash :: bytes

datatype genesis_error =
    NoChainID | GenesisChainIDTooLong | NegativeInitialHeight | WrongConsensusParams params_error | NoVotingPower | IncorrectAddress

text \<open>The loop over the validators; the address of a key of the wrong size panics.\<close>

fun completeVals :: "env \<Rightarrow> GenesisValidator list \<Rightarrow> (genesis_error + GenesisValidator list) option" where
  "completeVals E [] = Some (Inr [])"
| "completeVals E (v # vs) =
     (if f64_eq (gvPower v) (Fin 0) then Some (Inl NoVotingPower)
      else Option.bind (pk_Address E (gvPubKey v)) (\<lambda>addr.
        if 0 < length (gvAddress v) \<and> addr \<noteq> gvAddress v then Some (Inl IncorrectAddress)
        else map_option (\<lambda>r. case r of Inl e \<Rightarrow> Inl e | Inr vs' \<Rightarrow> Inr (v\<lparr>gvAddress := addr\<rparr> # vs')) (completeVals E vs)))"

text \<open>\<open>now\<close> is the clock, read when the genesis time is zero.\<close>

definition ValidateAndComplete :: "env \<Rightarrow> int \<Rightarrow> GenesisDoc \<Rightarrow> (genesis_error + GenesisDoc) option" where
  "ValidateAndComplete E now genDoc =
     (if gdChainID genDoc = [] then Some (Inl NoChainID)
      else if MaxChainIDLen < length (gdChainID genDoc) then Some (Inl GenesisChainIDTooLong)
      else if gdInitialHeight genDoc < 0 then Some (Inl NegativeInitialHeight)
      else let doc1 = (if gdInitialHeight genDoc = 0 then genDoc\<lparr>gdInitialHeight := 1\<rparr> else genDoc)
      in (case (case gdConsensusParams doc1 of
             None \<Rightarrow> Inr (doc1\<lparr>gdConsensusParams := Some DefaultConsensusParams\<rparr>)
           | Some p \<Rightarrow> (case ValidateConsensusParams p of Some e \<Rightarrow> Inl (WrongConsensusParams e) | None \<Rightarrow> Inr doc1)) of
         Inl e \<Rightarrow> Some (Inl e)
       | Inr doc2 \<Rightarrow>
           map_option (\<lambda>r. case r of Inl e \<Rightarrow> Inl e
             | Inr vs \<Rightarrow> let doc3 = doc2\<lparr>gdValidators := map_option (\<lambda>_. vs) (gdValidators doc2)\<rparr>
                 in Inr (if gdTime doc3 = zero_time then doc3\<lparr>gdTime := now\<rparr> else doc3))
           (completeVals E (case gdValidators doc2 of None \<Rightarrow> [] | Some vs \<Rightarrow> vs))))"

fun newVals :: "env \<Rightarrow> GenesisValidator list \<Rightarrow> Validator list option" where
  "newVals E [] = Some []"
| "newVals E (g # gs) = Option.bind (NewValidator E (gvPubKey g) (gvPower g)) (\<lambda>v. map_option ((#) v) (newVals E gs))"

definition MakeGenesisState :: "env \<Rightarrow> int \<Rightarrow> GenesisDoc \<Rightarrow> (genesis_error + State) option" where
  "MakeGenesisState E now genDoc =
     Option.bind (ValidateAndComplete E now genDoc) (\<lambda>r. case r of Inl e \<Rightarrow> Some (Inl e) | Inr doc \<Rightarrow>
     Option.bind (NewValidatorSet E []) (\<lambda>none.
     Option.bind
       (case gdValidators doc of
          None \<Rightarrow> Some (none, Some none)
        | Some gs \<Rightarrow>
            Option.bind (newVals E gs) (\<lambda>validators.
            Option.bind (NewValidatorSet E validators) (\<lambda>vs.
            map_option (\<lambda>(_, nxt). (vs, nxt)) (CopyIteratePrimary E vs zero_bid 1)))) (\<lambda>(validatorSet, nextValidatorSet).
     Some (Inr \<lparr>stChainID = gdChainID doc, stInitialHeight = gdInitialHeight doc, stLastBlockHeight = 0, stLastBlockID = zero_bid,
       stLastBlockTime = gdTime doc, stNextValidators = nextValidatorSet, stValidators = validatorSet, stLastValidators = none,
       stLastHeightValidatorsChanged = gdInitialHeight doc, stConsensusParams = the (gdConsensusParams doc), stLastResultsHash = [],
       stAppHash = gdAppHash doc\<rparr>))))"



section \<open>The state store\<close>

text \<open>Conversion of a validator set to its message fails on a member without a key or a missing primary; conversion back
  checks the key sizes and the set.\<close>

definition vals_ToProto :: "ValidatorSet option \<Rightarrow> ValidatorSet option" where
  "vals_ToProto vals =
     (if vals_IsNilOrEmpty vals then Some \<lparr>vsValidators = [], vsPrimary = None\<rparr>
      else let vs = the vals in
        if list_ex (\<lambda>v. valPubKey v = None) (vsValidators vs) then None
        else (case vsPrimary vs of None \<Rightarrow> None | Some p \<Rightarrow> if valPubKey p = None then None else Some vs))"

definition val_FromProto :: "Validator option \<Rightarrow> Validator option" where
  "val_FromProto v = Option.bind v (\<lambda>v. Option.bind (valPubKey v) (\<lambda>pk. if length pk \<noteq> PubKeySize then None else Some v))"

definition vals_FromProto :: "ValidatorSet \<Rightarrow> ValidatorSet option" where
  "vals_FromProto vp =
     (if list_ex (\<lambda>v. val_FromProto (Some v) = None) (vsValidators vp) then None
      else Option.bind (val_FromProto (vsPrimary vp)) (\<lambda>_. if vals_ValidateBasic (Some vp) \<noteq> None then None else Some vp))"

definition state_ToProto :: "State \<Rightarrow> State option" where
  "state_ToProto state =
     Option.bind (vals_ToProto (Some (stValidators state))) (\<lambda>vals.
     Option.bind (vals_ToProto (stNextValidators state)) (\<lambda>nVals.
     map_option (\<lambda>lVals. state\<lparr>stValidators := vals, stNextValidators := Some nVals, stLastValidators := lVals\<rparr>)
       (if 1 \<le> stLastBlockHeight state then vals_ToProto (Some (stLastValidators state)) else Some \<lparr>vsValidators = [], vsPrimary = None\<rparr>)))"

definition StateFromProto :: "State \<Rightarrow> State option" where
  "StateFromProto pb =
     Option.bind (BlockIDFromProto (stLastBlockID pb)) (\<lambda>bi.
     Option.bind (vals_FromProto (stValidators pb)) (\<lambda>vals.
     Option.bind (Option.bind (stNextValidators pb) vals_FromProto) (\<lambda>nVals.
     map_option (\<lambda>lVals. pb\<lparr>stLastBlockID := bi, stValidators := vals, stNextValidators := Some nVals, stLastValidators := lVals\<rparr>)
       (if 1 \<le> stLastBlockHeight pb then vals_FromProto (stLastValidators pb) else Some \<lparr>vsValidators = [], vsPrimary = None\<rparr>))))"

record ValidatorsInfo =
  viLastHeightChanged :: int
  viValidatorSet :: "ValidatorSet option"

record ResponseDeliverTx =
  drCode :: int
  drData :: bytes

record ValidatorUpdate =
  vuPubKey :: "bytes option"
  vuPower :: float64
  vuType :: int

record ABCIResponses =
  arDeliverTxs :: "ResponseDeliverTx list"
  arValidatorUpdates :: "ValidatorUpdate list"

record dbStore =
  dbState :: "State option"
  dbValidators :: "int \<Rightarrow> ValidatorsInfo option"
  dbParams :: "int \<Rightarrow> ConsensusParams option"
  dbResponses :: "int \<Rightarrow> ABCIResponses option"

datatype store_error = LastHeightChangedTooHigh | ValidatorsNotEncodable | ErrNoValSetForHeight | NoStoredValidators | WrongStoredValidators | WrongStoredState

definition valSetCheckpointInterval :: int where "valSetCheckpointInterval = 100000"

definition saveValidatorsInfo :: "dbStore \<Rightarrow> int \<Rightarrow> int \<Rightarrow> ValidatorSet option \<Rightarrow> store_error + dbStore" where
  "saveValidatorsInfo db height lastHeightChanged valSet =
     (if height < lastHeightChanged then Inl LastHeightChangedTooHigh
      else if height = lastHeightChanged \<or> go_mod height valSetCheckpointInterval = 0 then
        (case vals_ToProto valSet of
           None \<Rightarrow> Inl ValidatorsNotEncodable
         | Some pv \<Rightarrow> Inr (db\<lparr>dbValidators := (dbValidators db)(height := Some \<lparr>viLastHeightChanged = lastHeightChanged, viValidatorSet = Some pv\<rparr>)\<rparr>))
      else Inr (db\<lparr>dbValidators := (dbValidators db)(height := Some \<lparr>viLastHeightChanged = lastHeightChanged, viValidatorSet = None\<rparr>)\<rparr>))"

definition saveConsensusParamsInfo :: "dbStore \<Rightarrow> int \<Rightarrow> ConsensusParams \<Rightarrow> dbStore" where
  "saveConsensusParamsInfo db nextHeight params = db\<lparr>dbParams := (dbParams db)(nextHeight := Some params)\<rparr>"

definition store_Save :: "dbStore \<Rightarrow> State \<Rightarrow> (store_error + dbStore) option" where
  "store_Save db state =
     (let nextHeight = add64 (stLastBlockHeight state) 1;
          r = (if nextHeight = 1
               then (stInitialHeight state, saveValidatorsInfo db (stInitialHeight state) (stInitialHeight state) (Some (stValidators state)))
               else (nextHeight, Inr db))
      in (case snd r of
            Inl e \<Rightarrow> Some (Inl e)
          | Inr db1 \<Rightarrow>
              (case saveValidatorsInfo db1 (add64 (fst r) 1) (stLastHeightValidatorsChanged state) (stNextValidators state) of
                 Inl e \<Rightarrow> Some (Inl e)
               | Inr db2 \<Rightarrow>
                   map_option (\<lambda>sm. Inr ((saveConsensusParamsInfo db2 (fst r) (stConsensusParams state))\<lparr>dbState := Some sm\<rparr>)) (state_ToProto state))))"

definition store_Load :: "dbStore \<Rightarrow> store_error + State option" where
  "store_Load db =
     (case dbState db of
        None \<Rightarrow> Inr None
      | Some sp \<Rightarrow> (case StateFromProto sp of None \<Rightarrow> Inl WrongStoredState | Some sm \<Rightarrow> Inr (Some sm)))"

definition loadValidatorsInfo :: "dbStore \<Rightarrow> int \<Rightarrow> ValidatorsInfo option" where
  "loadValidatorsInfo db height =
     Option.bind (dbValidators db height) (\<lambda>v. if v = \<lparr>viLastHeightChanged = 0, viValidatorSet = None\<rparr> then None else Some v)"

definition lastStoredHeightFor :: "int \<Rightarrow> int \<Rightarrow> int" where
  "lastStoredHeightFor height lastHeightChanged = max (sub64 height (go_mod height valSetCheckpointInterval)) lastHeightChanged"

text \<open>When only a reference is stored, the set is read where it was stored last and its primary is chosen anew.\<close>

definition LoadValidators :: "env \<Rightarrow> dbStore \<Rightarrow> int \<Rightarrow> (store_error + ValidatorSet) option" where
  "LoadValidators E db height =
     (let finish = (\<lambda>v. Some (case vals_FromProto v of None \<Rightarrow> Inl WrongStoredValidators | Some vip \<Rightarrow> Inr vip)) in
      case loadValidatorsInfo db height of
        None \<Rightarrow> Some (Inl ErrNoValSetForHeight)
      | Some valInfo \<Rightarrow>
          (case viValidatorSet valInfo of
             Some v \<Rightarrow> finish v
           | None \<Rightarrow>
               (case Option.bind (loadValidatorsInfo db (lastStoredHeightFor height (viLastHeightChanged valInfo))) viValidatorSet of
                  None \<Rightarrow> Some (Inl NoStoredValidators)
                | Some v2 \<Rightarrow>
                    (case vals_FromProto v2 of
                       None \<Rightarrow> Some (Inl WrongStoredValidators)
                     | Some vs \<Rightarrow>
                         (case store_Load db of
                            Inl e \<Rightarrow> Some (Inl e)
                          | Inr st \<Rightarrow>
                              Option.bind (CopyIteratePrimary E vs (case st of None \<Rightarrow> zero_bid | Some state \<Rightarrow> stLastBlockID state) 0) (\<lambda>(vs', _).
                                case vals_ToProto (Some vs') of None \<Rightarrow> Some (Inl ValidatorsNotEncodable) | Some vi2 \<Rightarrow> finish vi2))))))"

definition SaveABCIResponses :: "dbStore \<Rightarrow> int \<Rightarrow> ABCIResponses \<Rightarrow> dbStore" where
  "SaveABCIResponses db height responses = db\<lparr>dbResponses := (dbResponses db)(height := Some responses)\<rparr>"

definition LoadFromDBOrGenesisDoc :: "env \<Rightarrow> int \<Rightarrow> dbStore \<Rightarrow> GenesisDoc \<Rightarrow> (unit + State) option" where
  "LoadFromDBOrGenesisDoc E now db genesisDoc =
     (case store_Load db of
        Inl e \<Rightarrow> Some (Inl ())
      | Inr (Some state) \<Rightarrow> Some (Inr state)
      | Inr None \<Rightarrow> map_option (\<lambda>r. case r of Inl _ \<Rightarrow> Inl () | Inr state \<Rightarrow> Inr state) (MakeGenesisState E now genesisDoc))"


section \<open>Executing a block\<close>

record VoteInfo =
  voAddress :: bytes
  voPower :: float64
  voSigned :: bool

record 'a app =
  a_CheckTx :: "'a \<Rightarrow> bytes \<Rightarrow> bool \<Rightarrow> 'a \<times> int"
  a_BeginBlock :: "'a \<Rightarrow> bytes \<Rightarrow> Header \<Rightarrow> int \<Rightarrow> VoteInfo list \<Rightarrow> 'a"
  a_DeliverTx :: "'a \<Rightarrow> bytes \<Rightarrow> 'a \<times> ResponseDeliverTx"
  a_EndBlock :: "'a \<Rightarrow> int \<Rightarrow> 'a \<times> ValidatorUpdate list"
  a_Commit :: "'a \<Rightarrow> 'a \<times> bytes"

text \<open>The inner loop over the last validators: the last member with the address of the signature counts.\<close>

fun voteInfoFor :: "env \<Rightarrow> Validator list \<Rightarrow> ReplySig \<Rightarrow> VoteInfo \<Rightarrow> VoteInfo option" where
  "voteInfoFor E [] sig info = Some info"
| "voteInfoFor E (v # vs) sig info =
     (if rsAddress sig = valAddress v
      then Option.bind (Option.bind (valPubKey v) (pk_Address E)) (\<lambda>a.
        voteInfoFor E vs sig \<lparr>voAddress = a, voPower = valVotingPower v, voSigned = \<not> Absent sig\<rparr>)
      else voteInfoFor E vs sig info)"

definition getBeginBlockValidatorInfo :: "env \<Rightarrow> dbStore \<Rightarrow> Block \<Rightarrow> int \<Rightarrow> (int \<times> VoteInfo list) option" where
  "getBeginBlockValidatorInfo E db block initialHeight =
     (let none = \<lparr>voAddress = [], voPower = Fin 0, voSigned = False\<rparr> in
      Option.bind (bLastReply block) (\<lambda>reply.
        if initialHeight < hHeight (bHeader block) then
          Option.bind (LoadValidators E db (sub64 (hHeight (bHeader block)) 1)) (\<lambda>r.
            case r of Inl _ \<Rightarrow> None
            | Inr lastValSet \<Rightarrow> map_option (\<lambda>vs. (rpRound reply, vs)) (those (map (\<lambda>sig. voteInfoFor E (vsValidators lastValSet) sig none) (rpSignatures reply))))
        else Some (rpRound reply, map (\<lambda>_. none) (rpSignatures reply))))"

fun deliverTxs :: "'a app \<Rightarrow> 'a \<Rightarrow> bytes list \<Rightarrow> 'a \<times> ResponseDeliverTx list" where
  "deliverTxs app a [] = (a, [])"
| "deliverTxs app a (tx # txs) = (let (a1, r) = a_DeliverTx app a tx; (a2, rs) = deliverTxs app a1 txs in (a2, r # rs))"

definition execBlockOnProxyApp :: "env \<Rightarrow> codec \<Rightarrow> 'a app \<Rightarrow> dbStore \<Rightarrow> 'a \<Rightarrow> Block \<Rightarrow> int \<Rightarrow> ('a \<times> ABCIResponses) option" where
  "execBlockOnProxyApp E K app db a block initialHeight =
     Option.bind (getBeginBlockValidatorInfo E db block initialHeight) (\<lambda>(r, votes).
     map_option (\<lambda>(hash, _).
       let a1 = a_BeginBlock app a hash (bHeader block) r votes;
           (a2, rs) = deliverTxs app a1 (dTxs (bData block));
           (a3, updates) = a_EndBlock app a2 (hHeight (bHeader block))
       in (a3, \<lparr>arDeliverTxs = rs, arValidatorUpdates = updates\<rparr>))
     (block_Hash E K (Some block)))"

datatype update_error = NegativePower | WrongPubKey | UnsupportedPubKey

definition PubKeyFromProto :: "bytes option \<Rightarrow> bytes option" where
  "PubKeyFromProto k = Option.bind k (\<lambda>pk. if length pk \<noteq> PubKeySize then None else Some pk)"

fun validateValidatorUpdates :: "ValidatorUpdate list \<Rightarrow> ConsensusParams \<Rightarrow> update_error option" where
  "validateValidatorUpdates [] params = None"
| "validateValidatorUpdates (u # us) params =
     (if f64_less (vuPower u) (Fin 0) then Some NegativePower
      else if f64_eq (vuPower u) (Fin 0) then validateValidatorUpdates us params
      else if PubKeyFromProto (vuPubKey u) = None then Some WrongPubKey
      else if \<not> IsValidPubkeyType params ''ed25519'' then Some UnsupportedPubKey
      else validateValidatorUpdates us params)"

text \<open>\<open>PB2SR.ValidatorUpdates\<close>: the left value is the error of a bad key.\<close>

fun pb2sr_ValidatorUpdates :: "env \<Rightarrow> ValidatorUpdate list \<Rightarrow> (unit + Validator list) option" where
  "pb2sr_ValidatorUpdates E [] = Some (Inr [])"
| "pb2sr_ValidatorUpdates E (u # us) =
     (case PubKeyFromProto (vuPubKey u) of
        None \<Rightarrow> Some (Inl ())
      | Some pub \<Rightarrow>
          Option.bind (NewValidator E pub (vuPower u)) (\<lambda>v.
          map_option (\<lambda>r. case r of Inl x \<Rightarrow> Inl x | Inr vs \<Rightarrow> Inr (v\<lparr>valType := vuType u\<rparr> # vs)) (pb2sr_ValidatorUpdates E us)))"

definition updateState :: "env \<Rightarrow> State \<Rightarrow> BlockID \<Rightarrow> Header \<Rightarrow> Validator list \<Rightarrow> (val_error + State) option" where
  "updateState E state blockID header updates =
     Option.bind (stNextValidators state) (\<lambda>next.
       let (nValSet, err) = (if 0 < length updates then updateWithChangeSet next updates else (next, None));
           changed = (if 0 < length updates then add64 (add64 (hHeight header) 1) 1 else stLastHeightValidatorsChanged state)
       in (case err of
             Some e \<Rightarrow> Some (Inl e)
           | None \<Rightarrow>
               map_option (\<lambda>(nValSet', _). Inr \<lparr>stChainID = stChainID state, stInitialHeight = stInitialHeight state,
                   stLastBlockHeight = hHeight header, stLastBlockID = blockID, stLastBlockTime = hTime header,
                   stNextValidators = Some nValSet', stValidators = next, stLastValidators = stValidators state,
                   stLastHeightValidatorsChanged = changed, stConsensusParams = stConsensusParams state, stLastResultsHash = [], stAppHash = []\<rparr>)
                 (CopyIteratePrimary E nValSet (stLastBlockID state) 1)))"

definition TxPreCheck :: "State \<Rightarrow> (bytes \<Rightarrow> bool) option" where
  "TxPreCheck state = map_option PreCheckMaxBytes (MaxDataBytes (cpMaxBytes (stConsensusParams state)) (vals_Size (stValidators state)))"

record 'a BlockExecutor =
  exStore :: dbStore
  exApp :: 'a
  exMempool :: CListMempool

definition CreateProposalBlock :: "env \<Rightarrow> codec \<Rightarrow> 'a BlockExecutor \<Rightarrow> int \<Rightarrow> State \<Rightarrow> Reply \<Rightarrow> bytes \<Rightarrow> (Block \<times> PartSet option) option" where
  "CreateProposalBlock E K ex height state commit proposerAddr =
     Option.bind (MaxDataBytes (cpMaxBytes (stConsensusParams state)) (vals_Size (stValidators state))) (\<lambda>maxDataBytes.
     Option.bind (ReapMaxBytes (exMempool ex) maxDataBytes) (\<lambda>txs. state_MakeBlock E K state height txs commit proposerAddr))"

text \<open>\<open>Commit\<close>: the application commits, then the pool drops the transactions of the block.\<close>

definition exec_Commit :: "env \<Rightarrow> 'a app \<Rightarrow> 'a BlockExecutor \<Rightarrow> State \<Rightarrow> Block \<Rightarrow> ResponseDeliverTx list \<Rightarrow> ('a BlockExecutor \<times> bytes) option" where
  "exec_Commit E app ex state block responses =
     (let (a1, hash) = a_Commit app (exApp ex) in
      Option.bind (TxPreCheck state) (\<lambda>pre.
      map_option (\<lambda>(mem, a2). (ex\<lparr>exApp := a2, exMempool := mem\<rparr>, hash))
        (mem_Update (e_Sum E) (a_CheckTx app) (exMempool ex) a1 (hHeight (bHeader block)) (dTxs (bData block)) (map drCode responses) (Some pre))))"

datatype apply_error =
    ErrInvalidBlock chain_error | ErrValidatorUpdates update_error | ErrUpdateKeys | ErrUpdateState val_error | ErrSave store_error

definition ApplyBlock :: "env \<Rightarrow> codec \<Rightarrow> 'a app \<Rightarrow> 'a BlockExecutor \<Rightarrow> State \<Rightarrow> BlockID \<Rightarrow> Block \<Rightarrow> ('a BlockExecutor \<times> State \<times> apply_error option) option" where
  "ApplyBlock E K app ex state blockID block =
     Option.bind (validateBlock E state block) (\<lambda>err. case err of Some e \<Rightarrow> Some (ex, state, Some (ErrInvalidBlock e)) | None \<Rightarrow>
     Option.bind (execBlockOnProxyApp E K app (exStore ex) (exApp ex) block (stInitialHeight state)) (\<lambda>(a1, responses).
       let ex1 = ex\<lparr>exApp := a1, exStore := SaveABCIResponses (exStore ex) (hHeight (bHeader block)) responses\<rparr> in
       case validateValidatorUpdates (arValidatorUpdates responses) (stConsensusParams state) of
         Some e \<Rightarrow> Some (ex1, state, Some (ErrValidatorUpdates e))
       | None \<Rightarrow>
     Option.bind (pb2sr_ValidatorUpdates E (arValidatorUpdates responses)) (\<lambda>r. case r of Inl _ \<Rightarrow> Some (ex1, state, Some ErrUpdateKeys) | Inr updates \<Rightarrow>
     Option.bind (updateState E state blockID (bHeader block) updates) (\<lambda>r. case r of Inl e \<Rightarrow> Some (ex1, state, Some (ErrUpdateState e)) | Inr state1 \<Rightarrow>
     Option.bind (exec_Commit E app ex1 state1 block (arDeliverTxs responses)) (\<lambda>(ex2, appHash).
       let state2 = state1\<lparr>stAppHash := appHash\<rparr> in
       map_option (\<lambda>r. case r of Inl e \<Rightarrow> (ex2, state2, Some (ErrSave e)) | Inr db \<Rightarrow> (ex2\<lparr>exStore := db\<rparr>, state2, None))
         (store_Save (exStore ex2) state2))))))"

end
