(* ===== verification/BlockTime.thy ===== *)
theory BlockTime
  imports Chain "HOL-Library.Multiset"
begin

text \<open>
  What the weighted median of \<open>libs/time/time.go\<close> guarantees, and what it does with the weights \<open>MedianTime\<close> of
  \<open>state/state.go\<close> gives it.
\<close>

section \<open>The weighted median\<close>

definition wsum :: "WeightedTime list \<Rightarrow> int" where
  "wsum ws = sum_list (map wtWeight ws)"

lemma wsum_simps [simp]: "wsum [] = 0" "wsum (w # ws) = wtWeight w + wsum ws" "wsum (xs @ ys) = wsum xs + wsum ys"
  by (simp_all add: wsum_def)

lemma wsum_nonneg: "\<forall>w\<in>set ws. 0 \<le> wtWeight w \<Longrightarrow> 0 \<le> wsum ws"
  by (induction ws) auto

lemma wsum_filter_le: "\<forall>w\<in>set ws. 0 \<le> wtWeight w \<Longrightarrow> \<forall>w\<in>set ws. P w \<longrightarrow> Q w \<Longrightarrow> wsum (filter P ws) \<le> wsum (filter Q ws)"
  by (induction ws) auto

lemma wsum_split: "wsum (filter P ws) + wsum (filter (\<lambda>w. \<not> P w) ws) = wsum ws"
  by (induction ws) auto

lemma wsum_mset: "mset xs = mset ys \<Longrightarrow> wsum xs = wsum ys"
  unfolding wsum_def by (metis mset_map sum_mset_sum_list)

lemma sub64_nonneg: "0 \<le> x - y \<Longrightarrow> x - y \<le> 2 ^ 63 - 1 \<Longrightarrow> sub64 x y = x - y"
  by (simp add: sub64_def wrap_id in_range_def)

lemma pickMedian_sorted:
  assumes "sorted (map wtTime ws)" "\<forall>w\<in>set ws. 0 \<le> wtWeight w" "M \<le> wsum ws" "M < 2 ^ 63" "ws \<noteq> []" "0 \<le> M"
  shows "\<exists>w\<in>set ws. wtTime w = pickMedian (map Some ws @ ns) M \<and>
    M \<le> wsum (filter (\<lambda>v. wtTime v \<le> wtTime w) ws) \<and>
    (wsum (filter (\<lambda>v. wtTime v < wtTime w) ws) < M \<or> wsum (filter (\<lambda>v. wtTime v < wtTime w) ws) = 0)"
  using assms
proof (induction ws arbitrary: M)
  case (Cons x ws)
  have later: "wtTime x \<le> wtTime v" if "v \<in> set ws" for v using Cons.prems(1) that by auto
  have low: "0 \<le> wsum (filter P ws)" for P using Cons.prems(2) by (intro wsum_nonneg) auto
  show ?case
  proof (cases "M \<le> wtWeight x")
    case True
    have "filter (\<lambda>v. wtTime v < wtTime x) ws = []" using later by (force simp: filter_empty_conv)
    then show ?thesis using True low[of "\<lambda>v. wtTime v \<le> wtTime x"] by (intro bexI[of _ x]) auto
  next
    case False
    then have M: "sub64 M (wtWeight x) = M - wtWeight x" "0 \<le> M - wtWeight x" using Cons.prems(2,4) by (auto intro!: sub64_nonneg)
    then have "ws \<noteq> []" using Cons.prems(3) False by auto
    then obtain w where w: "w \<in> set ws" "wtTime w = pickMedian (map Some ws @ ns) (M - wtWeight x)"
      "M - wtWeight x \<le> wsum (filter (\<lambda>v. wtTime v \<le> wtTime w) ws)"
      "wsum (filter (\<lambda>v. wtTime v < wtTime w) ws) < M - wtWeight x \<or> wsum (filter (\<lambda>v. wtTime v < wtTime w) ws) = 0"
      using Cons.IH[of "M - wtWeight x"] Cons.prems M False by auto
    then show ?thesis using False M later[OF w(1)] Cons.prems(2) by (intro bexI[of _ w]) auto
  qed
qed simp

text \<open>Whatever the entries outside \<open>P\<close> do, as long as they weigh less than half, the median lies between two entries of \<open>P\<close>.\<close>

lemma WeightedMedian_between:
  assumes times: "\<forall>w. Some w \<in> set ws \<longrightarrow> in_range 64 (wtTime w) \<and> 0 \<le> wtWeight w"
    and xs: "xs = map the (filter (\<lambda>w. w \<noteq> None) ws)" and tot: "p = wsum xs" "p < 2 ^ 63"
    and few: "wsum (filter (\<lambda>w. \<not> P w) xs) < p div 2"
  shows "\<exists>v w. v \<in> set xs \<and> w \<in> set xs \<and> P v \<and> P w \<and> wtTime v \<le> WeightedMedian ws p \<and> WeightedMedian ws p \<le> wtTime w"
proof -
  have t: "\<forall>w\<in>set xs. in_range 64 (wtTime w) \<and> 0 \<le> wtWeight w" using times xs by auto
  define ss where "ss = sort_key (\<lambda>w. wrap 64 (wtTime w)) xs"
  have ss: "mset ss = mset xs" "set ss = set xs" by (simp_all add: ss_def)
  have "map (\<lambda>w. wrap 64 (wtTime w)) ss = map wtTime ss" using t ss(2) by (auto simp: wrap_id)
  moreover have "sorted (map (\<lambda>w. wrap 64 (wtTime w)) ss)" by (simp add: ss_def)
  ultimately have sorted: "sorted (map wtTime ss)" by metis
  have nn: "\<forall>w\<in>set ss. 0 \<le> wtWeight w" using t ss(2) by auto
  have sums: "wsum (filter Q ss) = wsum (filter Q xs)" for Q using ss(1) by (intro wsum_mset) simp
  have all: "wsum ss = p" using wsum_mset[OF ss(1)] tot by simp
  have p0: "0 \<le> wsum (filter (\<lambda>w. \<not> P w) xs)" using t by (intro wsum_nonneg) auto
  have ne: "ss \<noteq> []" using few all p0 by auto
  have div: "go_div p 2 = p div 2" using few p0 by (simp add: go_div_def)
  have half: "p div 2 \<le> wsum ss" "p div 2 < 2 ^ 63" "0 \<le> p div 2" using few p0 tot(2) all by auto
  let ?t = "WeightedMedian ws p"
  obtain w where w: "w \<in> set ss" "wtTime w = ?t" "p div 2 \<le> wsum (filter (\<lambda>v. wtTime v \<le> ?t) ss)"
    "wsum (filter (\<lambda>v. wtTime v < ?t) ss) < p div 2 \<or> wsum (filter (\<lambda>v. wtTime v < ?t) ss) = 0"
    using pickMedian_sorted[OF sorted nn half(1,2) ne half(3), of "filter (\<lambda>w. w = None) ws"]
    unfolding WeightedMedian_def sortTimes_def xs[symmetric] ss_def[symmetric] div by auto
  have "\<exists>v\<in>set xs. P v \<and> wtTime v \<le> ?t"
  proof (rule ccontr)
    assume "\<not> (\<exists>v\<in>set xs. P v \<and> wtTime v \<le> ?t)"
    then have "wsum (filter (\<lambda>v. wtTime v \<le> ?t) xs) \<le> wsum (filter (\<lambda>w. \<not> P w) xs)" using t by (intro wsum_filter_le) auto
    then show False using w(3) few sums by simp
  qed
  moreover have "\<exists>v\<in>set xs. P v \<and> ?t \<le> wtTime v"
  proof (rule ccontr)
    assume "\<not> (\<exists>v\<in>set xs. P v \<and> ?t \<le> wtTime v)"
    then have "wsum (filter P xs) \<le> wsum (filter (\<lambda>v. wtTime v < ?t) xs)" using t by (intro wsum_filter_le) auto
    moreover have "p - p div 2 < wsum (filter P xs)" using wsum_split[of P xs] tot(1) few by simp
    ultimately show False using w(4) sums few p0 by auto
  qed
  ultimately show ?thesis by blast
qed


section \<open>The weights of the signatures\<close>

definition signer :: "ValidatorSet \<Rightarrow> ReplySig \<Rightarrow> Validator option" where
  "signer vals s = (if Absent s then None else snd (GetByAddress vals (rsAddress s)))"

definition timeWeight :: "ValidatorSet \<Rightarrow> ReplySig \<Rightarrow> int" where
  "timeWeight vals s = (case signer vals s of None \<Rightarrow> 0 | Some v \<Rightarrow> uint (hd (valAddress v)))"

definition entry :: "ValidatorSet \<Rightarrow> ReplySig \<Rightarrow> WeightedTime option" where
  "entry vals s = map_option (\<lambda>v. \<lparr>wtTime = rsTimestamp s, wtWeight = uint (hd (valAddress v))\<rparr>) (signer vals s)"

lemma timeWeight_bounds: "0 \<le> timeWeight vals s" "timeWeight vals s \<le> 255"
proof -
  have "uint (b :: byte) \<le> 255" for b using uint_lt2p[of b] by simp
  then show "0 \<le> timeWeight vals s" "timeWeight vals s \<le> 255" by (auto simp: timeWeight_def split: option.splits)
qed

lemma slice_get_hd: "slice_get xs 0 = Some b \<Longrightarrow> hd xs = b"
  by (cases xs) (auto simp: slice_get_def split: if_splits)

lemma weighTimes_eq:
  "weighTimes vals ss pw = Some (ws, p) \<Longrightarrow> 0 \<le> pw \<Longrightarrow> pw + 255 * int (length ss) < 2 ^ 63 \<Longrightarrow>
   ws = map (entry vals) ss \<and> p = pw + (\<Sum>s\<leftarrow>ss. timeWeight vals s)"
proof (induction ss arbitrary: pw ws p)
  case (Cons s ss)
  show ?case
  proof (cases "signer vals s")
    case None
    then have "weighTimes vals (s # ss) pw = map_option (\<lambda>(ws, p). (None # ws, p)) (weighTimes vals ss pw)"
      by (auto simp: signer_def split: if_splits option.splits)
    then show ?thesis using Cons None by (auto simp: entry_def timeWeight_def)
  next
    case (Some v)
    then obtain b ws' where b: "slice_get (valAddress v) 0 = Some b" "weighTimes vals ss (add64 pw (uint b)) = Some (ws', p)"
      "ws = Some \<lparr>wtTime = rsTimestamp s, wtWeight = uint b\<rparr> # ws'"
      using Cons.prems(1) by (auto simp: signer_def bind_eq_Some_conv split: if_splits)
    have "uint b \<le> 255" using uint_lt2p[of b] by simp
    then have "add64 pw (uint b) = pw + uint b" using Cons.prems by (intro add64_nonneg) auto
    then show ?thesis using Cons.IH[of "pw + uint b" ws' p] b slice_get_hd[OF b(1)] Cons.prems \<open>uint b \<le> 255\<close> Some
      by (auto simp: entry_def timeWeight_def)
  qed
qed simp

lemma entries_sum: "wsum (map the (filter (\<lambda>w. w \<noteq> None) (map (entry vals) ss))) = (\<Sum>s\<leftarrow>ss. timeWeight vals s)"
  by (induction ss) (auto simp: entry_def timeWeight_def split: option.splits)


section \<open>Properties\<close>

lemma MedianTime_between:
  assumes "length (rpSignatures commit) < 2 ^ 32" and "\<forall>s\<in>set (rpSignatures commit). in_range 64 (rsTimestamp s)"
    and "(\<Sum>s\<leftarrow>filter (\<lambda>s. \<not> honest s) (rpSignatures commit). timeWeight vals s) < (\<Sum>s\<leftarrow>rpSignatures commit. timeWeight vals s) div 2"
    and "MedianTime commit vals = Some t"
  shows "\<exists>s s'. s \<in> set (rpSignatures commit) \<and> s' \<in> set (rpSignatures commit) \<and> honest s \<and> honest s' \<and>
    signer vals s \<noteq> None \<and> signer vals s' \<noteq> None \<and> rsTimestamp s \<le> t \<and> t \<le> rsTimestamp s'"
proof -
  let ?ss = "rpSignatures commit"
  let ?es = "\<lambda>ss. map the (filter (\<lambda>w. w \<noteq> None) (map (entry vals) ss))"
  have len: "int (length ?ss) < 2 ^ 32" using assms(1) by simp
  obtain ws p where wp: "weighTimes vals ?ss 0 = Some (ws, p)" "t = WeightedMedian ws p" using assms(4) by (auto simp: MedianTime_def)
  then have eqs: "ws = map (entry vals) ?ss" "p = (\<Sum>s\<leftarrow>?ss. timeWeight vals s)" using weighTimes_eq[OF wp(1)] len by auto
  have "(\<Sum>s\<leftarrow>ss. timeWeight vals s) \<le> 255 * int (length ss)" for ss
    by (induction ss) (auto intro: add_mono simp: timeWeight_bounds(2) algebra_simps)
  from this[of ?ss] have small: "p < 2 ^ 63" using eqs(2) len by simp
  define P where "P w \<longleftrightarrow> (\<exists>s\<in>set ?ss. honest s \<and> signer vals s \<noteq> None \<and> wtTime w = rsTimestamp s)" for w :: WeightedTime
  have few: "set ss \<subseteq> set ?ss \<Longrightarrow> wsum (filter (\<lambda>w. \<not> P w) (?es ss)) \<le> (\<Sum>s\<leftarrow>filter (\<lambda>s. \<not> honest s) ss. timeWeight vals s)" for ss
  proof (induction ss)
    case (Cons s ss)
    show ?case
    proof (cases "signer vals s")
      case None
      then show ?thesis using Cons by (simp add: entry_def timeWeight_def)
    next
      case (Some v)
      have "P \<lparr>wtTime = rsTimestamp s, wtWeight = x\<rparr>" if "honest s" for x using that Cons.prems Some by (auto simp: P_def)
      then show ?thesis using Cons Some by (auto simp: entry_def timeWeight_def intro: add_increasing)
    qed
  qed simp
  have "\<exists>v w. v \<in> set (?es ?ss) \<and> w \<in> set (?es ?ss) \<and> P v \<and> P w \<and> wtTime v \<le> WeightedMedian ws p \<and> WeightedMedian ws p \<le> wtTime w"
  proof (rule WeightedMedian_between)
    show "\<forall>w. Some w \<in> set ws \<longrightarrow> in_range 64 (wtTime w) \<and> 0 \<le> wtWeight w"
      using assms(2) eqs(1) by (auto simp: entry_def eq_commute[of "Some _"])
    show "wsum (filter (\<lambda>w. \<not> P w) (?es ?ss)) < p div 2" using few[of ?ss] assms(3) eqs(2) by simp
  qed (use eqs small entries_sum in auto)
  then show ?thesis using wp(2) unfolding P_def by (metis (mono_tags, lifting))
qed


definition time_val :: "byte \<Rightarrow> Validator" where
  "time_val b = \<lparr>valAddress = b # replicate 19 0, valPubKey = Some (replicate 32 b), valVotingPower = Fin (10 / 4), valType = 0, valTrust = Fin 1\<rparr>"

definition time_vals :: ValidatorSet where
  "time_vals = \<lparr>vsValidators = map time_val [10, 20, 30, 250], vsPrimary = None\<rparr>"

definition time_sig :: "byte \<Rightarrow> int \<Rightarrow> ReplySig" where
  "time_sig b t = \<lparr>rsFlag = 2, rsAddress = b # replicate 19 0, rsTimestamp = t, rsSignature = replicate 64 1\<rparr>"

definition time_commit :: "int \<Rightarrow> Reply" where
  "time_commit t = NewReply 1 0 zero_bid [time_sig 10 1000, time_sig 20 1001, time_sig 30 1002, time_sig 250 t]"

lemma time_commit_weights:
  "map (timeWeight time_vals) (rpSignatures (time_commit t)) = [10, 20, 30, 250]"
  "rpSignatures (time_commit t) = [time_sig 10 1000, time_sig 20 1001, time_sig 30 1002, time_sig 250 t]"
  by (simp_all add: time_commit_def NewReply_def timeWeight_def signer_def time_vals_def time_val_def GetByAddress_def time_sig_def Absent_def
      BlockIDFlagAbsent_def)

lemma time_commit_range: "in_range 64 t \<Longrightarrow> \<forall>s\<in>set (rpSignatures (time_commit t)). in_range 64 (rsTimestamp s)"
  by (auto simp: time_commit_weights(2) time_sig_def in_range_def)

lemma time_commit_median: "MedianTime (time_commit 1003) time_vals = Some 1003" "MedianTime (time_commit 999999) time_vals = Some 999999"
  by code_simp+


text \<open>Property C34: the comment of \<open>MedianTime\<close> promises that a faulty validator cannot move the time at will. The weight it
  uses is not the voting power but the first byte of the address, so a validator whose address starts with a byte at least
  two above those of the other signers together sets the block time to any value it signs, whatever its voting power.\<close>

theorem one_validator_dictates_time:
  assumes "length (rpSignatures commit) < 2 ^ 32" and "\<forall>s\<in>set (rpSignatures commit). in_range 64 (rsTimestamp s)"
    and "(\<Sum>x\<leftarrow>filter (\<lambda>x. \<not> x = s) (rpSignatures commit). timeWeight vals x) < (\<Sum>x\<leftarrow>rpSignatures commit. timeWeight vals x) div 2"
    and "MedianTime commit vals = Some t"
  shows "t = rsTimestamp s"
  using MedianTime_between[OF assms] by auto

theorem one_validator_dictates_time_witness:
  "MedianTime (time_commit 999999) time_vals = Some (rsTimestamp (time_sig 250 999999)) \<and>
   map valVotingPower (vsValidators time_vals) = [Fin (10 / 4), Fin (10 / 4), Fin (10 / 4), Fin (10 / 4)]"
proof -
  have r: "\<forall>s\<in>set (rpSignatures (time_commit 999999)). in_range 64 (rsTimestamp s)" by (rule time_commit_range) (simp add: in_range_def)
  have l: "length (rpSignatures (time_commit 999999)) < 2 ^ 32" by (simp add: time_commit_weights)
  have "(\<Sum>x\<leftarrow>filter (\<lambda>x. \<not> x = time_sig 250 999999) (rpSignatures (time_commit 999999)). timeWeight time_vals x) < 155" by code_simp
  then have w: "(\<Sum>x\<leftarrow>filter (\<lambda>x. \<not> x = time_sig 250 999999) (rpSignatures (time_commit 999999)). timeWeight time_vals x) <
      (\<Sum>x\<leftarrow>rpSignatures (time_commit 999999). timeWeight time_vals x) div 2" by (simp add: time_commit_weights(1))
  show ?thesis using one_validator_dictates_time[OF l r w time_commit_median(2)] time_commit_median(2)
    by (simp add: time_vals_def time_val_def)
qed

end
