(* ===== verification/ChainSafety.thy ===== *)
theory ChainSafety
  imports BlockTime
begin

text \<open>
  Chains of applied blocks: a block the state makes is one it accepts, every accepted block extends the previous one with
  a verified commit, and the id of the last block determines the whole history.
\<close>

section \<open>What validation checks\<close>

lemma validateBlock_ok:
  assumes "validateBlock E s b = Some None"
  obtains r where "block_ValidateBasic E (Some b) = Some None" "bLastReply b = Some r" "hChainID (bHeader b) = stChainID s"
    "stLastBlockHeight s = 0 \<Longrightarrow> hHeight (bHeader b) = stInitialHeight s"
    "0 < stLastBlockHeight s \<Longrightarrow> hHeight (bHeader b) = add64 (stLastBlockHeight s) 1"
    "hLastBlockID (bHeader b) = stLastBlockID s" "HasAddress (stValidators s) (hProposer (bHeader b))"
    "hHeight (bHeader b) \<noteq> stInitialHeight s \<Longrightarrow>
      VerifyReply E (stLastValidators s) (stChainID s) (stLastBlockID s) (sub64 (hHeight (bHeader b)) 1) r = Some None \<and> stInitialHeight s < hHeight (bHeader b) \<and>
      stLastBlockTime s < hTime (bHeader b) \<and> MedianTime r (stLastValidators s) = Some (hTime (bHeader b))"
    "hHeight (bHeader b) = stInitialHeight s \<Longrightarrow> rpSignatures r = [] \<and> hTime (bHeader b) = stLastBlockTime s"
proof -
  have basic: "block_ValidateBasic E (Some b) = Some None"
    using assms by (auto simp: validateBlock_def bind_eq_Some_conv split: option.splits)
  then obtain r where r: "bLastReply b = Some r" by (auto simp: block_ValidateBasic_def split: option.splits)
  show ?thesis
    using assms basic r by (intro that[of r]) (auto simp: validateBlock_def checkTime_def bid_Equals_iff bind_eq_Some_conv Let_def split: if_splits option.splits)
qed

lemma case_sum_eq: "case_sum f g y = z \<longleftrightarrow> (\<exists>a. y = Inl a \<and> f a = z) \<or> (\<exists>b. y = Inr b \<and> g b = z)"
  by (cases y) auto

lemma case_option_eq: "case_option f g y = z \<longleftrightarrow> y = None \<and> f = z \<or> (\<exists>b. y = Some b \<and> g b = z)"
  by (cases y) auto

lemma updateState_ok:
  assumes "updateState E s bid h us = Some (Inr s')"
  shows "stLastBlockHeight s' = hHeight h" "stLastBlockID s' = bid" "stLastBlockTime s' = hTime h"
    "stNextValidators s = Some (stValidators s')" "stLastValidators s' = stValidators s" "stChainID s' = stChainID s" "stInitialHeight s' = stInitialHeight s"
    "stConsensusParams s' = stConsensusParams s"
proof -
  obtain nxt where n: "stNextValidators s = Some nxt" using assms by (cases "stNextValidators s") (auto simp: updateState_def)
  obtain nv err where c: "(if 0 < length us then updateWithChangeSet nxt us else (nxt, None)) = (nv, err)" by (metis surj_pair)
  have "err = None" using assms n unfolding updateState_def Let_def n option.simps bind.bind_lunit c by (auto split: option.split_asm)
  then show "stLastBlockHeight s' = hHeight h" "stLastBlockID s' = bid" "stLastBlockTime s' = hTime h"
    "stNextValidators s = Some (stValidators s')" "stLastValidators s' = stValidators s" "stChainID s' = stChainID s" "stInitialHeight s' = stInitialHeight s"
    "stConsensusParams s' = stConsensusParams s"
    using assms n unfolding updateState_def Let_def n option.simps bind.bind_lunit c by auto
qed

lemma ApplyBlock_updates:
  assumes "ApplyBlock E K app ex s bid b = Some (ex', s', None)"
  obtains us s1 hash where "validateBlock E s b = Some None" "updateState E s bid (bHeader b) us = Some (Inr s1)" "s' = s1\<lparr>stAppHash := hash\<rparr>"
  using assms that unfolding ApplyBlock_def
  by (auto simp: bind_eq_Some_conv Let_def case_sum_eq case_option_eq split: prod.split_asm)

lemma ApplyBlock_ok:
  assumes "ApplyBlock E K app ex s bid b = Some (ex', s', None)"
  shows "validateBlock E s b = Some None" "stLastBlockHeight s' = hHeight (bHeader b)" "stLastBlockID s' = bid" "stLastBlockTime s' = hTime (bHeader b)"
    "stNextValidators s = Some (stValidators s')" "stLastValidators s' = stValidators s" "stChainID s' = stChainID s" "stInitialHeight s' = stInitialHeight s"
    "stConsensusParams s' = stConsensusParams s"
proof -
  obtain us s1 hash where "validateBlock E s b = Some None" "updateState E s bid (bHeader b) us = Some (Inr s1)" "s' = s1\<lparr>stAppHash := hash\<rparr>"
    using ApplyBlock_updates[OF assms] .
  then show "validateBlock E s b = Some None" "stLastBlockHeight s' = hHeight (bHeader b)" "stLastBlockID s' = bid" "stLastBlockTime s' = hTime (bHeader b)"
    "stNextValidators s = Some (stValidators s')" "stLastValidators s' = stValidators s" "stChainID s' = stChainID s" "stInitialHeight s' = stInitialHeight s"
    "stConsensusParams s' = stConsensusParams s"
    using updateState_ok[of E s bid "bHeader b" us s1] by simp_all
qed


section \<open>Runs of applied blocks\<close>

text \<open>The history lists, newest first, the blocks with the id they were applied under and the state they were applied to.
  Between two blocks the application and the pool may change in any way.\<close>

inductive chain_run :: "env \<Rightarrow> codec \<Rightarrow> 'a app \<Rightarrow> State \<Rightarrow> (State \<times> BlockID \<times> Block) list \<Rightarrow> State \<Rightarrow> bool" for E K app s0 where
  genesis: "chain_run E K app s0 [] s0"
| block: "chain_run E K app s0 hist s \<Longrightarrow> ApplyBlock E K app ex s bid b = Some (ex', s', None) \<Longrightarrow> chain_run E K app s0 ((s, bid, b) # hist) s'"

inductive_cases chain_run_consE: "chain_run E K app s0 ((s, bid, b) # hist) s'"
inductive_cases chain_run_nilE: "chain_run E K app s0 [] s"

definition linked :: "env \<Rightarrow> State \<times> BlockID \<times> Block \<Rightarrow> State \<times> BlockID \<times> Block \<Rightarrow> bool" where
  "linked E new old \<longleftrightarrow> (case (new, old) of ((s2, bid2, b2), (s1, bid1, b1)) \<Rightarrow>
     hHeight (bHeader b2) = hHeight (bHeader b1) + 1 \<and> hLastBlockID (bHeader b2) = bid1 \<and> hTime (bHeader b1) < hTime (bHeader b2) \<and>
     stNextValidators s1 = Some (stValidators s2) \<and>
     (\<exists>r. bLastReply b2 = Some r \<and> VerifyReply E (stValidators s1) (stChainID s1) bid1 (hHeight (bHeader b1)) r = Some None))"

fun all_linked :: "env \<Rightarrow> (State \<times> BlockID \<times> Block) list \<Rightarrow> bool" where
  "all_linked E (x # y # hist) \<longleftrightarrow> linked E x y \<and> all_linked E (y # hist)"
| "all_linked E hist \<longleftrightarrow> True"

definition run_inv :: "State \<Rightarrow> (State \<times> BlockID \<times> Block) list \<Rightarrow> State \<Rightarrow> bool" where
  "run_inv s0 hist s \<longleftrightarrow> stInitialHeight s = stInitialHeight s0 \<and> stChainID s = stChainID s0 \<and>
     (case hist of [] \<Rightarrow> s = s0
      | (s1, bid1, b1) # rest \<Rightarrow> stLastBlockHeight s = hHeight (bHeader b1) \<and> stLastBlockID s = bid1 \<and> stLastBlockTime s = hTime (bHeader b1) \<and>
          stLastValidators s = stValidators s1 \<and> stNextValidators s1 = Some (stValidators s) \<and> stChainID s1 = stChainID s0 \<and>
          hHeight (bHeader b1) = stInitialHeight s0 + int (length rest))"

lemma chain_run_inv:
  assumes "chain_run E K app s0 hist s" "stLastBlockHeight s0 = 0" "0 < stInitialHeight s0" "stInitialHeight s0 + int (length hist) \<le> MaxInt64"
  shows "run_inv s0 hist s \<and> all_linked E hist"
  using assms
proof (induction rule: chain_run.induct)
  case genesis
  then show ?case by (simp add: run_inv_def)
next
  case (block hist s ex bid b ex' s')
  then have IH: "run_inv s0 hist s" "all_linked E hist" by auto
  note A = ApplyBlock_ok[OF block.hyps(2)]
  obtain r where r: "bLastReply b = Some r" "stLastBlockHeight s = 0 \<Longrightarrow> hHeight (bHeader b) = stInitialHeight s"
    "0 < stLastBlockHeight s \<Longrightarrow> hHeight (bHeader b) = add64 (stLastBlockHeight s) 1" "hLastBlockID (bHeader b) = stLastBlockID s"
    "hHeight (bHeader b) \<noteq> stInitialHeight s \<Longrightarrow>
      VerifyReply E (stLastValidators s) (stChainID s) (stLastBlockID s) (sub64 (hHeight (bHeader b)) 1) r = Some None \<and> stInitialHeight s < hHeight (bHeader b) \<and>
      stLastBlockTime s < hTime (bHeader b) \<and> MedianTime r (stLastValidators s) = Some (hTime (bHeader b))"
    using validateBlock_ok[OF A(1)] by metis
  show ?case
  proof (cases hist)
    case Nil
    then show ?thesis using A IH r(2) block.prems by (auto simp: run_inv_def)
  next
    case (Cons x rest)
    obtain s1 bid1 b1 where x: "x = (s1, bid1, b1)" by (cases x) auto
    have h: "stLastBlockHeight s = stInitialHeight s0 + int (length rest)" using IH(1) Cons x by (auto simp: run_inv_def)
    then have "add64 (stLastBlockHeight s) 1 = stLastBlockHeight s + 1" using block.prems Cons by (intro add64_nonneg) (auto simp: MaxInt64_def)
    then have hb: "hHeight (bHeader b) = stInitialHeight s0 + int (length rest) + 1" using r(3) h block.prems by simp
    then have sub: "sub64 (hHeight (bHeader b)) 1 = stInitialHeight s0 + int (length rest)"
      using block.prems Cons by (subst sub64_nonneg) (auto simp: MaxInt64_def)
    have "hHeight (bHeader b) \<noteq> stInitialHeight s" using hb IH(1) by (simp add: run_inv_def)
    from r(5)[OF this] show ?thesis
      using A IH hb sub r(1,4) Cons x by (auto simp: run_inv_def linked_def)
  qed
qed


section \<open>Blocks the state makes\<close>

text \<open>The facts of a state that block making relies on; \<open>chain_state_ok\<close> of the genesis state and of every state after a block.\<close>

definition chain_state_ok :: "State \<Rightarrow> bool" where
  "chain_state_ok s \<longleftrightarrow> 0 < stInitialHeight s \<and> length (stChainID s) \<le> MaxChainIDLen \<and> bid_ValidateBasic (stLastBlockID s) \<and>
     (stLastBlockHeight s = 0 \<or> stInitialHeight s \<le> stLastBlockHeight s) \<and> 0 \<le> stLastBlockHeight s \<and> stLastBlockHeight s < MaxInt64"

definition next_height :: "State \<Rightarrow> int" where
  "next_height s = (if stLastBlockHeight s = 0 then stInitialHeight s else stLastBlockHeight s + 1)"

text \<open>The commit a proposer puts in a block, as \<open>createProposalBlock\<close> takes it: an empty one for the initial block, and then the
  reply made of a commit vote set of the last height and its validators that has a majority for the last block.\<close>

definition commit_made :: "env \<Rightarrow> State \<Rightarrow> Reply \<Rightarrow> bool" where
  "commit_made E s c \<longleftrightarrow>
     (if stLastBlockHeight s = 0 then c = NewReply 0 0 zero_bid []
      else \<exists>vs. vt_reach E vs \<and> vtType vs = CommitType \<and> vtChainID vs = stChainID s \<and> vtHeight vs = stLastBlockHeight s \<and> 0 \<le> vtRound vs \<and>
        vtVals vs = stLastValidators s \<and> TwoThirdsMajority (Some vs) = (stLastBlockID s, True) \<and> \<not> bid_IsZero (stLastBlockID s) \<and> MakeReply vs = Some c)"

text \<open>What validation asks of the commit, apart from its time.\<close>

definition commit_ok :: "env \<Rightarrow> State \<Rightarrow> Reply \<Rightarrow> bool" where
  "commit_ok E s c \<longleftrightarrow> reply_ValidateBasic c = None \<and> rpHash c = None \<and>
     (if stLastBlockHeight s = 0 then rpSignatures c = []
      else VerifyReply E (stLastValidators s) (stChainID s) (stLastBlockID s) (stLastBlockHeight s) c = Some None)"

lemma firstWrongSig_None: "\<forall>s\<in>set ss. rs_ValidateBasic s = None \<Longrightarrow> firstWrongSig ss i = None"
  by (induction ss arbitrary: i) auto

text \<open>A verified vote has an address of 20 and a signature of 64 bytes, so the signature made of it is well formed.\<close>

lemma sigAt_valid:
  assumes "\<And>bz. length (e_Sum E bz) = 32" "\<And>w. v = Some w \<Longrightarrow> valid_vote E (ctx_of vs) i w"
  shows "rs_ValidateBasic (sigAt b v) = None"
proof (cases v)
  case (Some w)
  then obtain pk where "vote_Verify E (vtChainID vs) pk w = Some None" using assms(2)[OF Some] by (auto simp: ctx_of_def)
  then have a: "vAddress w = SumTruncated (e_Sum E) pk" "length (vSignature w) = 64"
    by (auto simp: vote_Verify_def pk_Address_def pk_VerifySignature_def SignatureSize_def split: option.splits if_splits)
  have "length (vAddress w) = AddressSize" using assms(1) unfolding a(1) by (simp add: SumTruncated_def TruncatedSize_def AddressSize_def)
  then show ?thesis using Some a(2) by (auto simp: AddressSize_def sigAt_def rs_ValidateBasic_def NewCommitSigAbsent_def BlockIDFlagCommit_def BlockIDFlagNil_def BlockIDFlagAbsent_def)
qed (simp add: sigAt_def rs_ValidateBasic_def NewCommitSigAbsent_def)

lemma commit_made_ok:
  assumes H: "\<And>bz. length (e_Sum E bz) = 32" and c: "commit_made E s c" and st: "0 \<le> stLastBlockHeight s"
  shows "commit_ok E s c"
proof (cases "stLastBlockHeight s = 0")
  case True
  then show ?thesis using c by (simp add: commit_made_def commit_ok_def NewReply_def reply_ValidateBasic_def)
next
  case False
  then obtain vs where vs: "vt_reach E vs" "vtType vs = CommitType" "vtChainID vs = stChainID s" "vtHeight vs = stLastBlockHeight s" "0 \<le> vtRound vs"
    "vtVals vs = stLastValidators s" "vtMaj23 vs = Some (stLastBlockID s)" "\<not> bid_IsZero (stLastBlockID s)" "MakeReply vs = Some c"
    using c by (auto simp: commit_made_def TwoThirdsMajority_iff)
  note inv = vt_reach_inv[OF vs(1)]
  have eq: "c = NewReply (vtHeight vs) (vtRound vs) (stLastBlockID s) (map (sigAt (stLastBlockID s)) (vtVotes vs))"
    using MakeReply_eq[OF inv vs(2,7)] vs(9) by simp
  have "rs_ValidateBasic (sigAt b v) = None" if v: "v \<in> set (vtVotes vs)" for b v
  proof -
    obtain i where "i < length (vtVotes vs)" "vtVotes vs ! i = v" using v by (auto simp: in_set_conv_nth)
    then show ?thesis using inv by (intro sigAt_valid[OF H, of v vs i]) (auto simp: vt_inv_def votes_ok_def)
  qed
  moreover have "vtVotes vs \<noteq> []" using inv vals_shared_power_size(3)[of "vtVals vs"] by (auto simp: vt_inv_def votes_ok_def)
  ultimately have "reply_ValidateBasic c = None"
    using vs(4,5,8) st by (auto simp: eq NewReply_def reply_ValidateBasic_def firstWrongSig_None)
  moreover have "VerifyReply E (stLastValidators s) (stChainID s) (stLastBlockID s) (stLastBlockHeight s) c = Some None"
    using MakeReply_verified[OF vs(1,2,7,8)] vs(3,4,6,9) by auto
  ultimately show ?thesis using False by (simp add: commit_ok_def) (simp add: eq NewReply_def)
qed

lemma MakeBlock_eq:
  assumes "MakeBlock E h txs c = Some b" "rpHash c = None" "\<And>bz. length (e_Sum E bz) = 32"
  obtains bs where "those (map (rs_Marshal E) (rpSignatures c)) = Some bs"
    "b = \<lparr>bHeader = \<lparr>hChainID = [], hHeight = h, hTime = zero_time, hLastBlockID = zero_bid, hLastCommitHash = HashFromByteSlices (e_Sum E) bs,
         hDataHash = txs_Hash E txs, hConsensusHash = [], hAppHash = [], hProposer = []\<rparr>,
       bData = \<lparr>dTxs = txs, dHash = Some (txs_Hash E txs)\<rparr>, bLastReply = Some (c\<lparr>rpHash := Some (HashFromByteSlices (e_Sum E) bs)\<rparr>)\<rparr>"
  using assms that by (auto simp: MakeBlock_def fillHeader_def reply_Hash_def data_Hash_def Let_def bind_eq_Some_conv)

lemma VerifyReply_hash: "VerifyReply E vs ch bid h (c\<lparr>rpHash := x\<rparr>) = VerifyReply E vs ch bid h c"
proof -
  have "reply_VoteSignBytes E ch (c\<lparr>rpHash := x\<rparr>) i = reply_VoteSignBytes E ch c i" for i
    by (simp add: reply_VoteSignBytes_def reply_GetVote_def)
  then have "verifySigs E vs ch (c\<lparr>rpHash := x\<rparr>) i ss p = verifySigs E vs ch c i ss p" for i ss p
    by (induction ss arbitrary: i p) (simp_all cong: if_cong)
  then show ?thesis by (simp add: VerifyReply_def)
qed

lemma made_block_valid:
  assumes H: "\<And>bz. length (e_Sum E bz) = 32" and st: "chain_state_ok s" and c: "commit_ok E s c"
    and pa: "length addr = AddressSize" "HasAddress (stValidators s) addr"
    and mk: "state_MakeBlock E K s (next_height s) txs c addr = Some (b, ps)"
  shows "validateBlock E s b = Some (if stLastBlockHeight s \<noteq> 0 \<and> \<not> stLastBlockTime s < hTime (bHeader b) then Some TimeNotAfter else None)"
proof -
  obtain b0 t where b0: "MakeBlock E (next_height s) txs c = Some b0"
    "(if next_height s = stInitialHeight s then Some (stLastBlockTime s) else MedianTime c (stLastValidators s)) = Some t"
    "b = b0\<lparr>bHeader := Populate (bHeader b0) (stChainID s) t (stLastBlockID s) (HashConsensusParams E (stConsensusParams s)) (stAppHash s) addr\<rparr>"
    using mk by (auto simp: state_MakeBlock_def bind_eq_Some_conv Let_def)
  obtain bs where bs: "those (map (rs_Marshal E) (rpSignatures c)) = Some bs"
    "b0 = \<lparr>bHeader = \<lparr>hChainID = [], hHeight = next_height s, hTime = zero_time, hLastBlockID = zero_bid, hLastCommitHash = HashFromByteSlices (e_Sum E) bs,
         hDataHash = txs_Hash E txs, hConsensusHash = [], hAppHash = [], hProposer = []\<rparr>,
       bData = \<lparr>dTxs = txs, dHash = Some (txs_Hash E txs)\<rparr>, bLastReply = Some (c\<lparr>rpHash := Some (HashFromByteSlices (e_Sum E) bs)\<rparr>)\<rparr>"
    using MakeBlock_eq[OF b0(1) _ H] c by (auto simp: commit_ok_def)
  let ?h = "HashFromByteSlices (e_Sum E) bs"
  let ?r = "c\<lparr>rpHash := Some ?h\<rparr>"
  have len: "length (HashFromByteSlices (e_Sum E) xs) = 32" for xs
    using hash32.length_tree[of "e_Sum E" xs] H by (simp add: hash32_def)
  then have hashes: "ValidateHash ?h" "ValidateHash (txs_Hash E txs)" "ValidateHash (HashConsensusParams E (stConsensusParams s))"
    using H by (simp_all add: ValidateHash_def srhash_Size_def txs_Hash_def HashConsensusParams_def)
  have pos: "0 < next_height s" using st by (auto simp: chain_state_ok_def next_height_def)
  have "reply_ValidateBasic ?r = reply_ValidateBasic c" by (simp add: reply_ValidateBasic_def)
  then have "reply_ValidateBasic ?r = None" using c by (simp add: commit_ok_def)
  then have basic: "block_ValidateBasic E (Some b) = Some None"
    using b0(3) bs(2) hashes pa(1) st pos
    by (simp add: block_ValidateBasic_def header_ValidateBasic_def Populate_def reply_Hash_def data_Hash_def chain_state_ok_def)
  have rest: "bLastReply b = Some ?r" "hHeight (bHeader b) = next_height s" "hTime (bHeader b) = t" "hChainID (bHeader b) = stChainID s"
    "hLastBlockID (bHeader b) = stLastBlockID s" "hAppHash (bHeader b) = stAppHash s" "hProposer (bHeader b) = addr"
    "hConsensusHash (bHeader b) = HashConsensusParams E (stConsensusParams s)"
    using b0(3) bs(2) by (simp_all add: Populate_def)
  show ?thesis
  proof (cases "stLastBlockHeight s = 0")
    case True
    then have "rpSignatures c = []" "next_height s = stInitialHeight s" "t = stLastBlockTime s"
      using c b0(2) by (auto simp: commit_ok_def next_height_def)
    then show ?thesis using basic rest pa True by (simp add: validateBlock_def checkTime_def)
  next
    case False
    then have n: "next_height s = stLastBlockHeight s + 1" "stInitialHeight s < next_height s" "next_height s \<noteq> stInitialHeight s"
      using st by (auto simp: next_height_def chain_state_ok_def)
    moreover have "add64 (stLastBlockHeight s) 1 = stLastBlockHeight s + 1" "sub64 (stLastBlockHeight s + 1) 1 = stLastBlockHeight s"
      using st by (auto simp: chain_state_ok_def MaxInt64_def intro!: add64_nonneg sub64_nonneg[THEN trans])
    moreover have "VerifyReply E (stLastValidators s) (stChainID s) (stLastBlockID s) (stLastBlockHeight s) ?r = Some None" "MedianTime ?r (stLastValidators s) = Some t"
      using c False b0(2) n by (auto simp: commit_ok_def VerifyReply_hash MedianTime_def)
    ultimately show ?thesis
      using basic rest pa False by (simp add: validateBlock_def checkTime_def Let_def)
  qed
qed


section \<open>The id of the last block determines the history\<close>

definition block_of :: "State \<times> BlockID \<times> Block \<Rightarrow> Block" where "block_of x = snd (snd x)"
definition id_of :: "State \<times> BlockID \<times> Block \<Rightarrow> BlockID" where "id_of x = fst (snd x)"

text \<open>The consensus applies a block under its own hash; block memory starts empty and integers have their width.\<close>

definition named_by_hash :: "env \<Rightarrow> codec \<Rightarrow> State \<times> BlockID \<times> Block \<Rightarrow> bool" where
  "named_by_hash E K x \<longleftrightarrow> fresh_block (block_of x) \<and> block_typed E (block_of x) \<and>
     (\<exists>c. block_Hash E K (Some (block_of x)) = Some (bidHash (id_of x), c))"

definition same_block :: "Block \<Rightarrow> Block \<Rightarrow> bool" where
  "same_block b b' \<longleftrightarrow> bHeader b = bHeader b' \<and> dTxs (bData b) = dTxs (bData b') \<and>
     map_option rpSignatures (bLastReply b) = map_option rpSignatures (bLastReply b')"

lemma run_block_valid: "chain_run E K app s0 hist s \<Longrightarrow> x \<in> set hist \<Longrightarrow> block_ValidateBasic E (Some (block_of x)) = Some None"
proof (induction rule: chain_run.induct)
  case (block hist s ex bid b ex' s')
  have "block_ValidateBasic E (Some b) = Some None" using validateBlock_ok[OF ApplyBlock_ok(1)[OF block.hyps(2)]] by metis
  then show ?case using block.IH block.prems by (auto simp: block_of_def)
qed simp

lemma same_id_same_block:
  assumes "\<And>bz. length (e_Sum E bz) = 32" "time_codec E" "codec_inj K" and "id_of x = id_of y"
    and "block_ValidateBasic E (Some (block_of x)) = Some None \<and> named_by_hash E K x" "block_ValidateBasic E (Some (block_of y)) = Some None \<and> named_by_hash E K y"
  shows "same_block (block_of x) (block_of y) \<or> collision (e_Sum E) (blockInputs E K (block_of x)) (blockInputs E K (block_of y))"
proof -
  obtain c c' where "block_Hash E K (Some (block_of x)) = Some (bidHash (id_of x), c)" "block_Hash E K (Some (block_of y)) = Some (bidHash (id_of x), c')"
    using assms(4-6) by (auto simp: named_by_hash_def)
  then show ?thesis
    using block_hash_binds[OF assms(1-3), of "block_of x" "block_of y" "bidHash (id_of x)" c c'] assms(5,6)
    by (auto simp: named_by_hash_def same_block_def)
qed

lemma named_hash_length:
  assumes "\<And>bz. length (e_Sum E bz) = 32" and "block_ValidateBasic E (Some (block_of x)) = Some None \<and> named_by_hash E K x"
  shows "bidHash (id_of x) \<noteq> []"
proof -
  obtain c pbt where c: "block_Hash E K (Some (block_of x)) = Some (bidHash (id_of x), c)" "fresh_block (block_of x)" "e_timeEnc E (hTime (bHeader (block_of x))) = Some pbt"
    using assms(2) by (auto simp: named_by_hash_def block_typed_def)
  then have "bidHash (id_of x) = HashFromByteSlices (e_Sum E) (header_items K (bHeader (block_of x)) pbt)"
    using valid_block_Hash[OF assms(1) _ c(2), of K] assms(2) by (auto simp: header_Hash_def)
  moreover have "length (HashFromByteSlices (e_Sum E) xs) = 32" for xs using hash32.length_tree[of "e_Sum E" xs] assms(1) by (simp add: hash32_def)
  ultimately show ?thesis by (metis list.size(3) zero_neq_numeral)
qed

lemma same_ids_same_blocks:
  assumes H: "\<And>bz. length (e_Sum E bz) = 32" and codecs: "time_codec E" "codec_inj K"
    and "all_linked E xs" "all_linked E ys" "length xs = length ys"
    and "\<forall>x\<in>set xs. block_ValidateBasic E (Some (block_of x)) = Some None \<and> named_by_hash E K x"
    and "\<forall>x\<in>set ys. block_ValidateBasic E (Some (block_of x)) = Some None \<and> named_by_hash E K x"
    and "xs \<noteq> [] \<longrightarrow> id_of (hd xs) = id_of (hd ys)"
  shows "list_all2 (\<lambda>x y. same_block (block_of x) (block_of y)) xs ys \<or>
    (\<exists>i<length xs. collision (e_Sum E) (blockInputs E K (block_of (xs ! i))) (blockInputs E K (block_of (ys ! i))))"
  using assms(4-9)
proof (induction xs arbitrary: ys)
  case (Cons x xs)
  obtain y ys' where ys: "ys = y # ys'" using Cons.prems(3) by (cases ys) auto
  have "same_block (block_of x) (block_of y) \<or> collision (e_Sum E) (blockInputs E K (block_of x)) (blockInputs E K (block_of y))"
    using same_id_same_block[OF H codecs] Cons.prems(4-6) ys by simp
  then consider "same_block (block_of x) (block_of y)" | "collision (e_Sum E) (blockInputs E K (block_of x)) (blockInputs E K (block_of y))" by blast
  then show ?case
  proof cases
    case 1
    have "xs \<noteq> [] \<longrightarrow> id_of (hd xs) = id_of (hd ys')"
      using 1 Cons.prems(1-3) ys by (cases xs; cases ys') (auto simp: linked_def same_block_def block_of_def id_of_def split: prod.splits)
    moreover have "all_linked E xs" "all_linked E ys'" using Cons.prems(1,2) ys by (cases xs; simp; cases ys'; simp)+
    ultimately show ?thesis using Cons.IH[of ys'] Cons.prems ys 1 by (auto intro: exI[of _ "Suc _"])
  next
    case 2
    then show ?thesis using ys by (intro disjI2 exI[of _ 0]) simp
  qed
qed simp


section \<open>A sample chain of one block\<close>

definition sample_app :: "nat app" where
  "sample_app = \<lparr>a_CheckTx = (\<lambda>a tx r. (a, 0)), a_BeginBlock = (\<lambda>a h hd r vs. a), a_DeliverTx = (\<lambda>a tx. (Suc a, \<lparr>drCode = 0, drData = []\<rparr>)),
     a_EndBlock = (\<lambda>a h. (a, [])), a_Commit = (\<lambda>a. (a, [9, 9]))\<rparr>"

definition sample_member :: Validator where
  "sample_member = \<lparr>valAddress = replicate 20 1, valPubKey = Some (replicate 32 1), valVotingPower = Fin 10, valType = CANDIDATE_PRIMARY, valTrust = Fin 1\<rparr>"

definition sample_state :: State where
  "sample_state = \<lparr>stChainID = [1], stInitialHeight = 1, stLastBlockHeight = 0, stLastBlockID = zero_bid, stLastBlockTime = 5,
     stNextValidators = Some \<lparr>vsValidators = [sample_member], vsPrimary = Some sample_member\<rparr>,
     stValidators = \<lparr>vsValidators = [sample_member], vsPrimary = Some sample_member\<rparr>, stLastValidators = \<lparr>vsValidators = [], vsPrimary = None\<rparr>,
     stLastHeightValidatorsChanged = 1, stConsensusParams = DefaultConsensusParams, stLastResultsHash = [], stAppHash = [8]\<rparr>"

definition sample_ex :: "nat BlockExecutor" where
  "sample_ex = \<lparr>exStore = \<lparr>dbState = None, dbValidators = (\<lambda>_. None), dbParams = (\<lambda>_. None), dbResponses = (\<lambda>_. None)\<rparr>, exApp = 0,
     exMempool = NewCListMempool sample_cfg 0\<rparr>"


definition sample_first :: Block where
  "sample_first = \<lparr>bHeader = \<lparr>hChainID = [1], hHeight = 1, hTime = 5, hLastBlockID = zero_bid, hLastCommitHash = HashFromByteSlices (e_Sum sample_env) [],
     hDataHash = txs_Hash sample_env [[1], [2]], hConsensusHash = HashConsensusParams sample_env DefaultConsensusParams, hAppHash = [8], hProposer = replicate 20 1\<rparr>,
     bData = \<lparr>dTxs = [[1], [2]], dHash = None\<rparr>, bLastReply = Some (NewReply 0 0 zero_bid [])\<rparr>"

definition sample_id :: BlockID where
  "sample_id = \<lparr>bidHash = header_Hash sample_env sample_codec (bHeader sample_first), bidParts = \<lparr>psTotal = 1, psHash = replicate 32 9\<rparr>\<rparr>"

abbreviation sample_vset :: ValidatorSet where "sample_vset \<equiv> \<lparr>vsValidators = [sample_member], vsPrimary = Some sample_member\<rparr>"

lemma sample_primary: "CopyIteratePrimary sample_env sample_vset bid 1 = Some (sample_vset, Some sample_vset)"
proof -
  have c: "\<exists>v\<in>set (vsValidators sample_vset). candidate v" by (simp add: candidate_def sample_member_def)
  obtain p where "iterateToGetPrimary sample_env sample_vset bid 1 = Some (sample_vset\<lparr>vsPrimary := Some p\<rparr>)" "p \<in> set (vsValidators sample_vset)"
    using nearest_primary[OF sample_hash_sizes c, of 1 bid] unfolding iterateToGetPrimary_def by auto
  then show ?thesis by (simp add: CopyIteratePrimary_def)
qed

definition next_state :: State where
  "next_state = sample_state\<lparr>stLastBlockHeight := 1, stLastBlockID := sample_id, stLastBlockTime := 5, stLastValidators := sample_vset, stAppHash := []\<rparr>"

lemma sample_update: "updateState sample_env sample_state sample_id (bHeader sample_first) [] = Some (Inr next_state)"
  by (simp add: updateState_def sample_state_def sample_primary next_state_def sample_first_def)

lemma sample_valid: "validateBlock sample_env sample_state sample_first = Some None" by code_simp

lemma sample_exec: "execBlockOnProxyApp sample_env sample_codec sample_app (exStore sample_ex) (exApp sample_ex) sample_first (stInitialHeight sample_state) =
   Some (2, \<lparr>arDeliverTxs = replicate 2 \<lparr>drCode = 0, drData = []\<rparr>, arValidatorUpdates = []\<rparr>)" by code_simp

definition sample_ex1 :: "nat BlockExecutor" where
  "sample_ex1 = sample_ex\<lparr>exApp := 2, exStore := SaveABCIResponses (exStore sample_ex) (hHeight (bHeader sample_first)) \<lparr>arDeliverTxs = replicate 2 \<lparr>drCode = 0, drData = []\<rparr>, arValidatorUpdates = []\<rparr>\<rparr>"

lemma sample_commit: "map_option snd (exec_Commit sample_env sample_app sample_ex1 next_state sample_first (replicate 2 \<lparr>drCode = 0, drData = []\<rparr>)) = Some [9, 9]" by code_simp

lemma sample_save: "map_option isl (store_Save (exStore sample_ex1) (next_state\<lparr>stAppHash := [9, 9]\<rparr>)) = Some False" by code_simp

lemma sample_apply: "\<exists>ex'. ApplyBlock sample_env sample_codec sample_app sample_ex sample_state sample_id sample_first = Some (ex', next_state\<lparr>stAppHash := [9, 9]\<rparr>, None)"
proof -
  obtain ex2 where c: "exec_Commit sample_env sample_app sample_ex1 next_state sample_first (replicate 2 \<lparr>drCode = 0, drData = []\<rparr>) = Some (ex2, [9, 9])"
    using sample_commit by auto
  then have st: "exStore ex2 = exStore sample_ex1" by (auto simp: exec_Commit_def Let_def bind_eq_Some_conv split: prod.split_asm)
  obtain db where "store_Save (exStore ex2) (next_state\<lparr>stAppHash := [9, 9]\<rparr>) = Some (Inr db)" using sample_save st by (auto simp: isl_def) (metis sum.exhaust_sel)
  then show ?thesis using c by (simp add: ApplyBlock_def sample_valid sample_exec sample_update sample_ex1_def[symmetric])
qed

lemma sample_chain: "chain_run sample_env sample_codec sample_app sample_state [(sample_state, sample_id, sample_first)] (next_state\<lparr>stAppHash := [9, 9]\<rparr>)"
  using sample_apply chain_run.block[OF chain_run.genesis] by blast

lemma sample_first_facts:
  "block_ValidateBasic sample_env (Some sample_first) = Some None" "fresh_block sample_first"
  "in_range 64 (hHeight (bHeader sample_first))" "bid_typed (hLastBlockID (bHeader sample_first))"
  "int (length (bid_Marshal (hLastBlockID (bHeader sample_first)))) \<le> MaxInt64" "e_timeEnc sample_env (hTime (bHeader sample_first)) \<noteq> None"
  "bLastReply sample_first = Some (NewReply 0 0 zero_bid [])"
  by (code_simp, simp add: fresh_block_def sample_first_def NewReply_def, code_simp+)

lemma sample_named: "named_by_hash sample_env sample_codec (sample_state, sample_id, sample_first)"
proof -
  have H: "\<And>bz. length (e_Sum sample_env bz) = 32" by (simp add: sample_env_def)
  have "block_typed sample_env sample_first"
    using sample_first_facts(3-7) by (simp add: block_typed_def header_typed_def sigs_typed_def NewReply_def)
  then show ?thesis
    using sample_first_facts(2) valid_block_Hash[OF H sample_first_facts(1,2), of sample_codec]
    by (simp add: named_by_hash_def block_of_def id_of_def sample_id_def)
qed


section \<open>Properties\<close>

text \<open>Property C30: the blocks \<open>ApplyBlock\<close> accepts one after the other from a genesis state form a chain: heights count up
  from the initial height, each block names the id its predecessor was applied under, times strictly increase, the
  validators of a block are the next validators of its predecessor, and each block carries a commit for its predecessor
  that the validators of the predecessor verify. The state after the last block names it.\<close>

theorem applied_blocks_form_chain:
  assumes "chain_run E K app s0 hist s" and "stLastBlockHeight s0 = 0" and "0 < stInitialHeight s0" and "stInitialHeight s0 + int (length hist) \<le> MaxInt64"
  shows "all_linked E hist \<and> (case hist of [] \<Rightarrow> s = s0
    | (s1, bid1, b1) # rest \<Rightarrow> stLastBlockHeight s = stInitialHeight s0 + int (length rest) \<and> hHeight (bHeader b1) = stLastBlockHeight s \<and>
        stLastBlockID s = bid1 \<and> stLastBlockTime s = hTime (bHeader b1) \<and> stLastValidators s = stValidators s1)"
  using chain_run_inv[OF assms] by (auto simp: run_inv_def split: list.splits)

theorem applied_blocks_form_chain_witness:
  "stLastBlockHeight (next_state\<lparr>stAppHash := [9, 9]\<rparr>) = 1 \<and> stLastBlockID (next_state\<lparr>stAppHash := [9, 9]\<rparr>) = sample_id"
  using applied_blocks_form_chain[OF sample_chain] by (simp add: sample_state_def MaxInt64_def)

text \<open>Property C31: two chains applied from one genesis state, each block under its own hash, whose last blocks have the same id
  have equally many blocks and agree in every block - header, transactions and the signatures of the last commit - or the
  strings hashed for two blocks at the same position exhibit a collision of the 32 byte hash.\<close>

theorem last_id_determines_history:
  assumes "\<And>bz. length (e_Sum E bz) = 32" and "time_codec E" and "codec_inj K"
    and "chain_run E K app s0 hist s" and "chain_run E K app' s0 hist' s'"
    and "stLastBlockHeight s0 = 0" and "bidHash (stLastBlockID s0) = []" and "0 < stInitialHeight s0"
    and "stInitialHeight s0 + int (length hist) \<le> MaxInt64" and "stInitialHeight s0 + int (length hist') \<le> MaxInt64"
    and "list_all (named_by_hash E K) hist" and "list_all (named_by_hash E K) hist'" and "stLastBlockID s = stLastBlockID s'"
  shows "list_all2 (\<lambda>x y. same_block (block_of x) (block_of y)) hist hist' \<or>
    (\<exists>i<min (length hist) (length hist'). collision (e_Sum E) (blockInputs E K (block_of (hist ! i))) (blockInputs E K (block_of (hist' ! i))))"
proof -
  have r: "run_inv s0 hist s" "all_linked E hist" "run_inv s0 hist' s'" "all_linked E hist'"
    using chain_run_inv[OF assms(4,6,8,9)] chain_run_inv[OF assms(5,6,8,10)] by auto
  have ok: "\<forall>x\<in>set hist. block_ValidateBasic E (Some (block_of x)) = Some None \<and> named_by_hash E K x"
    "\<forall>x\<in>set hist'. block_ValidateBasic E (Some (block_of x)) = Some None \<and> named_by_hash E K x"
    using run_block_valid[OF assms(4)] run_block_valid[OF assms(5)] assms(11,12) by (auto simp: list_all_iff)
  show ?thesis
  proof (cases "length hist = length hist'")
    case True
    then have "hist \<noteq> [] \<longrightarrow> id_of (hd hist) = id_of (hd hist')"
      using r(1,3) assms(13) by (cases hist; cases hist') (auto simp: run_inv_def id_of_def)
    then show ?thesis using same_ids_same_blocks[OF assms(1-3) r(2,4) True ok] True by simp
  next
    case False
    obtain x xs y ys where xy: "hist = x # xs" "hist' = y # ys"
      using False r(1,3) assms(7,13) ok named_hash_length[OF assms(1)] by (cases hist; cases hist') (fastforce simp: run_inv_def id_of_def)+
    have "id_of x = id_of y" using r(1,3) assms(13) xy by (auto simp: run_inv_def id_of_def)
    then have "same_block (block_of x) (block_of y) \<or> collision (e_Sum E) (blockInputs E K (block_of x)) (blockInputs E K (block_of y))"
      using same_id_same_block[OF assms(1-3)] ok xy by simp
    moreover have "hHeight (bHeader (block_of x)) = stInitialHeight s0 + int (length xs)" "hHeight (bHeader (block_of y)) = stInitialHeight s0 + int (length ys)"
      using r(1,3) xy by (auto simp: run_inv_def block_of_def split: prod.splits)
    ultimately show ?thesis using False xy by (intro disjI2 exI[of _ 0]) (auto simp: same_block_def)
  qed
qed

theorem last_id_determines_history_witness:
  "list_all2 (\<lambda>x y. same_block (block_of x) (block_of y)) [(sample_state, sample_id, sample_first)] [(sample_state, sample_id, sample_first)] \<or>
    (\<exists>i<min (length [(sample_state, sample_id, sample_first)]) (length [(sample_state, sample_id, sample_first)]). collision (e_Sum sample_env)
      (blockInputs sample_env sample_codec (block_of ([(sample_state, sample_id, sample_first)] ! i)))
      (blockInputs sample_env sample_codec (block_of ([(sample_state, sample_id, sample_first)] ! i))))"
proof -
  have H: "\<And>bz. length (e_Sum sample_env bz) = 32" by (simp add: sample_env_def)
  have s: "stLastBlockHeight sample_state = 0" "bidHash (stLastBlockID sample_state) = []" "0 < stInitialHeight sample_state"
    "stInitialHeight sample_state + int (length [(sample_state, sample_id, sample_first)]) \<le> MaxInt64" by (simp_all add: sample_state_def MaxInt64_def zero_bid_def)
  show ?thesis
    using sample_named by (intro last_id_determines_history[OF H sample_time_codec sample_codec_inj sample_chain sample_chain s s(4)]) auto
qed

text \<open>Property C32: a block that \<open>State.MakeBlock\<close> makes on a state, for the next height, with the commit a proposer takes (the
  empty one for the initial block, and then the reply made of a vote set with a majority for the last block) and a proposer
  from the validators, passes every check of \<open>validateBlock\<close> on that state but one: it is refused exactly if its time, the
  median time of the commit, is not after the last block, which neither function ensures.\<close>

theorem made_block_is_valid:
  assumes "\<And>bz. length (e_Sum E bz) = 32" and "chain_state_ok s" and "commit_made E s c"
    and "length addr = AddressSize" and "HasAddress (stValidators s) addr"
    and "state_MakeBlock E K s (next_height s) txs c addr = Some (b, ps)"
  shows "validateBlock E s b = Some (if stLastBlockHeight s \<noteq> 0 \<and> \<not> stLastBlockTime s < hTime (bHeader b) then Some TimeNotAfter else None)"
  using made_block_valid[OF assms(1,2) commit_made_ok[OF assms(1,3)] assms(4-6)] assms(2) by (simp add: chain_state_ok_def)

theorem made_block_is_valid_witness:
  "\<exists>b ps. state_MakeBlock sample_env sample_codec sample_state 1 [[1], [2]] (NewReply 0 0 zero_bid []) (replicate 20 1) = Some (b, ps) \<and>
    validateBlock sample_env sample_state b = Some None"
proof -
  have H: "\<And>bz. length (e_Sum sample_env bz) = 32" by (simp add: sample_env_def)
  have ok: "chain_state_ok sample_state" "commit_made sample_env sample_state (NewReply 0 0 zero_bid [])" "HasAddress (stValidators sample_state) (replicate 20 1)"
    by (code_simp, simp add: commit_made_def sample_state_def, code_simp)
  obtain b0 where b0: "MakeBlock sample_env 1 [[1], [2]] (NewReply 0 0 zero_bid []) = Some b0"
    by (auto simp: MakeBlock_def fillHeader_def reply_Hash_def data_Hash_def Let_def NewReply_def)
  have v: "vals_Hash sample_env sample_vset \<noteq> None" by (simp add: vals_Hash_def val_Bytes_def sample_member_def)
  obtain ps where ps: "NewPartSetFromData (e_Sum sample_env) [3] BlockPartSizeBytes = Some ps"
    using NewPartSetFromData_whole[of 65536 "[3]" "e_Sum sample_env"] by (auto simp: BlockPartSizeBytes_def)
  obtain b ps where mk: "state_MakeBlock sample_env sample_codec sample_state (next_height sample_state) [[1], [2]] (NewReply 0 0 zero_bid []) (replicate 20 1) = Some (b, ps)"
    using b0 v ps by (auto simp: state_MakeBlock_def next_height_def sample_state_def block_MakePartSet_def sample_codec_def Let_def)
  then show ?thesis
    using made_block_is_valid[OF H ok(1,2) _ ok(3) mk] by (auto simp: next_height_def sample_state_def AddressSize_def)
qed

end
