(* ===== verification/PrivVal.thy ===== *)
theory PrivVal
  imports Votes
begin

text \<open>
  \<open>types/priv_validator.go\<close>: the signer that keeps its last signed height, round and step on disk and
  refuses to sign two different messages for the same one. The disk holds the JSON of the last sign
  state per file path; \<open>omitempty\<close> drops an empty slice, which is read back as nil. A signature is
  handed out only when the call returns, so a crash after the file is written loses the signature but
  not the state.
\<close>

definition stepNone :: int where "stepNone = 0"
definition PrePrepareStep :: int where "PrePrepareStep = 1"
definition PrepareStep :: int where "PrepareStep = 2"
definition CommitStep :: int where "CommitStep = 3"

definition voteToStep :: "Vote \<Rightarrow> int option" where
  "voteToStep v =
     (if vType v = PrepareType then Some PrepareStep
      else if vType v = CommitType then Some CommitStep
      else None)"

record FilePVKey =
  kAddress :: bytes
  kPubKey :: bytes
  kPrivKey :: bytes
  kFilePath :: string

record FilePVLastSignState =
  lsHeight :: int
  lsRound :: int
  lsStep :: int
  lsSignature :: "bytes option"
  lsSignBytes :: "bytes option"
  lsFilePath :: string

record FilePV =
  pvKey :: FilePVKey
  pvLast :: FilePVLastSignState

type_synonym disk = "string \<rightharpoonup> FilePVLastSignState"

datatype hrs_error = HeightRegression | RoundRegression | StepRegression | SignBytesNil
datatype sign_error = HRSError hrs_error | ConflictingData

definition CheckHRS :: "FilePVLastSignState \<Rightarrow> int \<Rightarrow> int \<Rightarrow> int \<Rightarrow> (hrs_error + bool) option" where
  "CheckHRS lss height rnd step =
     (if height < lsHeight lss then Some (Inl HeightRegression)
      else if lsHeight lss = height then
        if rnd < lsRound lss then Some (Inl RoundRegression)
        else if lsRound lss = rnd then
          if step < lsStep lss then Some (Inl StepRegression)
          else if lsStep lss = step then
            (case lsSignBytes lss of
               None \<Rightarrow> Some (Inl SignBytesNil)
             | Some _ \<Rightarrow> if lsSignature lss = None then None else Some (Inr True))
          else Some (Inr False)
        else Some (Inr False)
      else Some (Inr False))"

definition json_slice :: "bytes option \<Rightarrow> bytes option" where
  "json_slice b = (if b = Some [] then None else b)"

definition json_lss :: "FilePVLastSignState \<Rightarrow> FilePVLastSignState" where
  "json_lss l = l\<lparr>lsSignature := json_slice (lsSignature l), lsSignBytes := json_slice (lsSignBytes l), lsFilePath := ''''\<rparr>"

text \<open>\<open>Save\<close> panics without a path or when the write fails (\<open>io = False\<close>), and leaves the file as it was.\<close>

definition lss_Save :: "bool \<Rightarrow> FilePVLastSignState \<Rightarrow> disk \<Rightarrow> disk option" where
  "lss_Save io lss d =
     (if lsFilePath lss = '''' then None
      else if \<not> io then None
      else Some (d(lsFilePath lss \<mapsto> json_lss lss)))"

definition NewFilePV :: "env \<Rightarrow> bytes \<Rightarrow> bytes \<Rightarrow> string \<Rightarrow> string \<Rightarrow> FilePV option" where
  "NewFilePV E pubKey privKey keyFilePath stateFilePath =
     (case pk_Address E pubKey of
        None \<Rightarrow> None
      | Some a \<Rightarrow> Some \<lparr>pvKey = \<lparr>kAddress = a, kPubKey = pubKey, kPrivKey = privKey, kFilePath = keyFilePath\<rparr>,
          pvLast = \<lparr>lsHeight = 0, lsRound = 0, lsStep = stepNone, lsSignature = None, lsSignBytes = None,
            lsFilePath = stateFilePath\<rparr>\<rparr>)"

text \<open>\<open>loadFilePV\<close> with \<open>loadState = true\<close>; the process exits (\<open>None\<close>) when the file is missing. The key,
  which never changes, is the one read from its own file.\<close>

definition loadFilePV :: "disk \<Rightarrow> FilePVKey \<Rightarrow> string \<Rightarrow> FilePV option" where
  "loadFilePV d key stateFilePath =
     (case d stateFilePath of
        None \<Rightarrow> None
      | Some st \<Rightarrow> Some \<lparr>pvKey = key, pvLast = st\<lparr>lsFilePath := stateFilePath\<rparr>\<rparr>)"

definition saveSigned ::
  "bool \<Rightarrow> FilePV \<Rightarrow> int \<Rightarrow> int \<Rightarrow> int \<Rightarrow> bytes \<Rightarrow> bytes \<Rightarrow> disk \<Rightarrow> (FilePV \<times> disk) option" where
  "saveSigned io pv height rnd step signBytes sig d =
     (let lss = (pvLast pv)\<lparr>lsHeight := height, lsRound := rnd, lsStep := step,
                  lsSignature := Some sig, lsSignBytes := Some signBytes\<rparr>
      in case lss_Save io lss d of None \<Rightarrow> None | Some d' \<Rightarrow> Some (pv\<lparr>pvLast := lss\<rparr>, d'))"

text \<open>Both checks set the two times to the same \<open>now\<close> before they compare.\<close>

definition checkVotesOnlyDifferByTimestamp :: "env \<Rightarrow> int \<Rightarrow> bytes \<Rightarrow> bytes \<Rightarrow> (int \<times> bool) option" where
  "checkVotesOnlyDifferByTimestamp E now lastSignBytes newSignBytes =
     (case UnmarshalDelimited (\<lambda>b. cvote_Unmarshal E b zero_cvote) lastSignBytes of
        None \<Rightarrow> None
      | Some lastVote \<Rightarrow>
          (case UnmarshalDelimited (\<lambda>b. cvote_Unmarshal E b zero_cvote) newSignBytes of
             None \<Rightarrow> None
           | Some newVote \<Rightarrow>
               Some (cvTimestamp lastVote,
                 e_equalVote E (newVote\<lparr>cvTimestamp := now\<rparr>) (lastVote\<lparr>cvTimestamp := now\<rparr>))))"

definition checkProposalsOnlyDifferByTimestamp :: "env \<Rightarrow> int \<Rightarrow> bytes \<Rightarrow> bytes \<Rightarrow> (int \<times> bool) option" where
  "checkProposalsOnlyDifferByTimestamp E now lastSignBytes newSignBytes =
     (case UnmarshalDelimited (\<lambda>b. cpp_Unmarshal E b zero_cpp) lastSignBytes of
        None \<Rightarrow> None
      | Some lastPP \<Rightarrow>
          (case UnmarshalDelimited (\<lambda>b. cpp_Unmarshal E b zero_cpp) newSignBytes of
             None \<Rightarrow> None
           | Some newPP \<Rightarrow>
               Some (ppTimestamp lastPP,
                 e_equalPrePrepare E (newPP\<lparr>ppTimestamp := now\<rparr>) (lastPP\<lparr>ppTimestamp := now\<rparr>))))"

definition signVote ::
  "env \<Rightarrow> int \<Rightarrow> bool \<Rightarrow> bytes \<Rightarrow> Vote \<Rightarrow> FilePV \<Rightarrow> disk \<Rightarrow> (FilePV \<times> disk \<times> Vote \<times> sign_error option) option" where
  "signVote E now io chainID vote pv d =
     Option.bind (voteToStep vote) (\<lambda>step.
       let lss = pvLast pv
       in case CheckHRS lss (vHeight vote) (vRound vote) step of
            None \<Rightarrow> None
          | Some (Inl e) \<Rightarrow> Some (pv, d, vote, Some (HRSError e))
          | Some (Inr sameHRS) \<Rightarrow>
              Option.bind (VoteSignBytes E chainID vote) (\<lambda>signBytes.
                if sameHRS then
                  if lsSignBytes lss = Some signBytes then
                    Some (pv, d, vote\<lparr>vSignature := the (lsSignature lss)\<rparr>, None)
                  else
                    Option.bind (checkVotesOnlyDifferByTimestamp E now (the (lsSignBytes lss)) signBytes)
                      (\<lambda>(timestamp, ok).
                        if ok then
                          Some (pv, d, vote\<lparr>vTimestamp := timestamp, vSignature := the (lsSignature lss)\<rparr>, None)
                        else Some (pv, d, vote, Some ConflictingData))
                else
                  Option.bind (sk_Sign E (kPrivKey (pvKey pv)) signBytes) (\<lambda>sig.
                    Option.bind (saveSigned io pv (vHeight vote) (vRound vote) step signBytes sig d)
                      (\<lambda>(pv', d'). Some (pv', d', vote\<lparr>vSignature := sig\<rparr>, None)))))"

definition signProposal ::
  "env \<Rightarrow> int \<Rightarrow> bool \<Rightarrow> bytes \<Rightarrow> PrePrepare \<Rightarrow> FilePV \<Rightarrow> disk \<Rightarrow> (FilePV \<times> disk \<times> PrePrepare \<times> sign_error option) option" where
  "signProposal E now io chainID pp pv d =
     (let lss = pvLast pv
      in case CheckHRS lss (prHeight pp) (prRound pp) PrePrepareStep of
           None \<Rightarrow> None
         | Some (Inl e) \<Rightarrow> Some (pv, d, pp, Some (HRSError e))
         | Some (Inr sameHRS) \<Rightarrow>
             Option.bind (PrePrepareSignBytes E chainID pp) (\<lambda>signBytes.
               if sameHRS then
                 if lsSignBytes lss = Some signBytes then
                   Some (pv, d, pp\<lparr>prSignature := the (lsSignature lss)\<rparr>, None)
                 else
                   Option.bind (checkProposalsOnlyDifferByTimestamp E now (the (lsSignBytes lss)) signBytes)
                     (\<lambda>(timestamp, ok).
                       if ok then
                         Some (pv, d, pp\<lparr>prTimestamp := timestamp, prSignature := the (lsSignature lss)\<rparr>, None)
                       else Some (pv, d, pp, Some ConflictingData))
               else
                 Option.bind (sk_Sign E (kPrivKey (pvKey pv)) signBytes) (\<lambda>sig.
                   Option.bind (saveSigned io pv (prHeight pp) (prRound pp) PrePrepareStep signBytes sig d)
                     (\<lambda>(pv', d'). Some (pv', d', pp\<lparr>prSignature := sig\<rparr>, None)))))"


definition pv_Save :: "bool \<Rightarrow> FilePV \<Rightarrow> disk \<Rightarrow> disk option" where
  "pv_Save io pv d = (if kFilePath (pvKey pv) = '''' then None else if \<not> io then None else lss_Save io (pvLast pv) d)"

definition pv_Reset :: "bool \<Rightarrow> FilePV \<Rightarrow> disk \<Rightarrow> (FilePV \<times> disk) option" where
  "pv_Reset io pv d =
     (let pv' = pv\<lparr>pvLast := (pvLast pv)\<lparr>lsHeight := 0, lsRound := 0, lsStep := 0, lsSignature := None, lsSignBytes := None\<rparr>\<rparr>
      in case pv_Save io pv' d of None \<Rightarrow> None | Some d' \<Rightarrow> Some (pv', d'))"


section \<open>What a signable message promises\<close>

text \<open>The canonical form of a message, its encoding and the decoder the signer uses to compare two sign
  bytes up to their times. Replacing the time of a new message by the time of an old one that is
  otherwise equal gives back the old sign bytes.\<close>

locale signable =
  fixes signBytes :: "bytes \<Rightarrow> 'm \<Rightarrow> bytes option"
    and canon :: "bytes \<Rightarrow> 'm \<Rightarrow> 'c option"
    and enc :: "'c \<Rightarrow> bytes option"
    and decode :: "bytes \<Rightarrow> 'c option"
    and setTime :: "int \<Rightarrow> 'm \<Rightarrow> 'm"
    and getTime :: "'c \<Rightarrow> int"
    and putTime :: "int \<Rightarrow> 'c \<Rightarrow> 'c"
    and ok :: "'m \<Rightarrow> bool"
  assumes signBytes_canon: "signBytes c m = Option.bind (canon c m) enc"
    and decode_signBytes: "ok m \<Longrightarrow> signBytes c m = Some sb \<Longrightarrow> length sb < 2 ^ 62 \<Longrightarrow> decode sb = canon c m"
    and canon_setTime: "canon c (setTime t m) = map_option (putTime t) (canon c m)"
    and putTime_getTime: "putTime (getTime pb) pb = pb"
    and putTime_putTime: "putTime t (putTime u pb) = putTime t pb"
begin

lemma resign_same_bytes:
  assumes prev: "ok m0" "signBytes c0 m0 = Some old" "length old < 2 ^ 62" "decode old = Some pl"
    and new: "ok m" "signBytes c m = Some sb" "length sb < 2 ^ 62" "decode sb = Some pn"
    and eq: "putTime now pn = putTime now pl"
  shows "signBytes c (setTime (getTime pl) m) = Some old"
proof -
  have canon: "canon c0 m0 = Some pl" "canon c m = Some pn"
    using decode_signBytes prev new by metis+
  have "putTime (getTime pl) pn = pl"
    using arg_cong[OF eq, of "putTime (getTime pl)"] by (simp add: putTime_putTime putTime_getTime)
  then have "signBytes c (setTime (getTime pl) m) = enc pl"
    by (simp add: signBytes_canon canon_setTime canon)
  also have "\<dots> = Some old" using prev(2) canon by (simp add: signBytes_canon)
  finally show ?thesis .
qed

end

interpretation vote_sb: signable "VoteSignBytes E" CanonicalizeVote "\<lambda>pb. map_option MarshalDelimited (cvote_Marshal E pb)"
  "UnmarshalDelimited (\<lambda>b. cvote_Unmarshal E b zero_cvote)" "\<lambda>t v. v\<lparr>vTimestamp := t\<rparr>" cvTimestamp
  "\<lambda>t pb. pb\<lparr>cvTimestamp := t\<rparr>" "\<lambda>v. time_codec E \<and> vote_typed v" for E
proof unfold_locales
  show "VoteSignBytes E c m = Option.bind (CanonicalizeVote c m) (\<lambda>pb. map_option MarshalDelimited (cvote_Marshal E pb))" for c m
    by (simp add: VoteSignBytes_def split: option.splits)
next
  fix m c sb
  assume "time_codec E \<and> vote_typed m" "VoteSignBytes E c m = Some sb" "length sb < 2 ^ 62"
  then show "UnmarshalDelimited (\<lambda>b. cvote_Unmarshal E b zero_cvote) sb = CanonicalizeVote c m"
    using VoteSignBytes_decode[of E m c sb] by auto
qed (auto simp: CanonicalizeVote_def split: option.splits)

interpretation pp_sb: signable "PrePrepareSignBytes E" CanonicalizePrePrepare "\<lambda>pb. map_option MarshalDelimited (cpp_Marshal E pb)"
  "UnmarshalDelimited (\<lambda>b. cpp_Unmarshal E b zero_cpp)" "\<lambda>t p. p\<lparr>prTimestamp := t\<rparr>" ppTimestamp
  "\<lambda>t pb. pb\<lparr>ppTimestamp := t\<rparr>" "\<lambda>p. time_codec E \<and> pp_typed p" for E
proof unfold_locales
  show "PrePrepareSignBytes E c m = Option.bind (CanonicalizePrePrepare c m) (\<lambda>pb. map_option MarshalDelimited (cpp_Marshal E pb))" for c m
    by (simp add: PrePrepareSignBytes_def split: option.splits)
next
  fix m c sb
  assume "time_codec E \<and> pp_typed m" "PrePrepareSignBytes E c m = Some sb" "length sb < 2 ^ 62"
  then show "UnmarshalDelimited (\<lambda>b. cpp_Unmarshal E b zero_cpp) sb = CanonicalizePrePrepare c m"
    using PrePrepareSignBytes_decode[of E m c sb] by auto
qed (auto simp: CanonicalizePrePrepare_def split: option.splits)

section \<open>Runs of the signer\<close>

datatype signed = SignedVote bytes Vote | SignedProposal bytes PrePrepare

fun signed_bytes :: "env \<Rightarrow> signed \<Rightarrow> bytes option" where
  "signed_bytes E (SignedVote c v) = VoteSignBytes E c v"
| "signed_bytes E (SignedProposal c p) = PrePrepareSignBytes E c p"

fun signed_sig :: "signed \<Rightarrow> bytes" where
  "signed_sig (SignedVote c v) = vSignature v"
| "signed_sig (SignedProposal c p) = prSignature p"

fun signed_hrs :: "signed \<Rightarrow> int \<times> int \<times> int" where
  "signed_hrs (SignedVote c v) = (vHeight v, vRound v, the (voteToStep v))"
| "signed_hrs (SignedProposal c p) = (prHeight p, prRound p, PrePrepareStep)"

fun signed_typed :: "signed \<Rightarrow> bool" where
  "signed_typed (SignedVote c v) \<longleftrightarrow> vote_typed v \<and> IsVoteTypeValid (vType v)"
| "signed_typed (SignedProposal c p) \<longleftrightarrow> pp_typed p"

text \<open>A message the signer can be asked to sign: its integers have their width and its sign bytes fit in
  memory.\<close>

definition askable :: "env \<Rightarrow> signed \<Rightarrow> bool" where
  "askable E m \<longleftrightarrow> signed_typed m \<and> (\<forall>sb. signed_bytes E m = Some sb \<longrightarrow> length sb < 2 ^ 62)"

text \<open>A run: the signer is created and saved, signs votes and proposals, and may be stopped and reloaded
  from disk at any point. The last argument lists the messages whose signature left the process; in
  \<open>vote_lost\<close> and \<open>proposal_lost\<close> the call fails or the process stops before the signature is used.\<close>

inductive pv_run :: "env \<Rightarrow> FilePVKey \<Rightarrow> string \<Rightarrow> FilePV \<Rightarrow> disk \<Rightarrow> signed list \<Rightarrow> bool" for E key path where
  create: "NewFilePV E pk sk kp path = Some pv \<Longrightarrow> pvKey pv = key \<Longrightarrow> pv_Save True pv d = Some d' \<Longrightarrow>
    pv_run E key path pv d' []"
| vote: "pv_run E key path pv d R \<Longrightarrow> askable E (SignedVote c v) \<Longrightarrow>
    signVote E now io c v pv d = Some (pv', d', v', None) \<Longrightarrow> pv_run E key path pv' d' (SignedVote c v' # R)"
| vote_lost: "pv_run E key path pv d R \<Longrightarrow> askable E (SignedVote c v) \<Longrightarrow>
    signVote E now io c v pv d = Some (pv', d', v', e) \<Longrightarrow> pv_run E key path pv' d' R"
| proposal: "pv_run E key path pv d R \<Longrightarrow> askable E (SignedProposal c p) \<Longrightarrow>
    signProposal E now io c p pv d = Some (pv', d', p', None) \<Longrightarrow> pv_run E key path pv' d' (SignedProposal c p' # R)"
| proposal_lost: "pv_run E key path pv d R \<Longrightarrow> askable E (SignedProposal c p) \<Longrightarrow>
    signProposal E now io c p pv d = Some (pv', d', p', e) \<Longrightarrow> pv_run E key path pv' d' R"
| restart: "pv_run E key path pv d R \<Longrightarrow> loadFilePV d key path = Some pv' \<Longrightarrow> pv_run E key path pv' d R"

text \<open>The order of heights, rounds and steps, and the two ways a request can succeed: the message has the
  sign bytes already on record, or it is for a later step and is recorded, on disk too, before its
  signature is returned.\<close>

fun hrs_less :: "int \<times> int \<times> int \<Rightarrow> int \<times> int \<times> int \<Rightarrow> bool" where
  "hrs_less (h, r, s) (h', r', s') \<longleftrightarrow> h < h' \<or> h = h' \<and> (r < r' \<or> r = r' \<and> s < s')"

definition lss_hrs :: "FilePVLastSignState \<Rightarrow> int \<times> int \<times> int" where
  "lss_hrs l = (lsHeight l, lsRound l, lsStep l)"

definition sign_outcome :: "env \<Rightarrow> FilePV \<Rightarrow> disk \<Rightarrow> int \<times> int \<times> int \<Rightarrow> bytes \<Rightarrow> FilePV \<Rightarrow> disk \<Rightarrow> bool" where
  "sign_outcome E pv d hrs sb pv' d' \<longleftrightarrow>
     pv' = pv \<and> d' = d \<and> hrs = lss_hrs (pvLast pv) \<and> lsSignBytes (pvLast pv) = Some sb \<or>
     hrs_less (lss_hrs (pvLast pv)) hrs \<and> pvKey pv' = pvKey pv \<and>
       pvLast pv' = \<lparr>lsHeight = fst hrs, lsRound = fst (snd hrs), lsStep = snd (snd hrs),
         lsSignature = Some (e_sign E (kPrivKey (pvKey pv)) sb), lsSignBytes = Some sb,
         lsFilePath = lsFilePath (pvLast pv)\<rparr> \<and>
       d' = d(lsFilePath (pvLast pv) \<mapsto> json_lss (pvLast pv'))"

lemma CheckHRS_Inr:
  "CheckHRS lss h r s = Some (Inr same) \<longleftrightarrow>
     (if same then (h, r, s) = lss_hrs lss \<and> lsSignBytes lss \<noteq> None \<and> lsSignature lss \<noteq> None
      else hrs_less (lss_hrs lss) (h, r, s))"
  by (auto simp: CheckHRS_def lss_hrs_def split: option.splits if_splits)

lemma saveSigned_outcome:
  assumes "saveSigned io pv h r s sb (e_sign E (kPrivKey (pvKey pv)) sb) d = Some (pv', d')"
    and "hrs_less (lss_hrs (pvLast pv)) (h, r, s)"
  shows "sign_outcome E pv d (h, r, s) sb pv' d'"
  using assms by (auto simp: saveSigned_def lss_Save_def sign_outcome_def Let_def split: option.splits if_splits)


text \<open>The invariant: memory and disk agree, the recorded sign bytes are those of a message of the recorded
  step and carry the key's signature, and every message handed out is before the record or is it.\<close>

definition last_origin :: "env \<Rightarrow> FilePV \<Rightarrow> bool" where
  "last_origin E pv \<longleftrightarrow> (\<forall>sb. lsSignBytes (pvLast pv) = Some sb \<longrightarrow>
     lsSignature (pvLast pv) = Some (e_sign E (kPrivKey (pvKey pv)) sb) \<and>
     (\<exists>m. askable E m \<and> signed_bytes E m = Some sb \<and> signed_hrs m = lss_hrs (pvLast pv)))"

definition released_ok :: "env \<Rightarrow> FilePV \<Rightarrow> signed \<Rightarrow> bool" where
  "released_ok E pv m \<longleftrightarrow> askable E m \<and> (\<exists>sb. signed_bytes E m = Some sb \<and> signed_sig m = e_sign E (kPrivKey (pvKey pv)) sb \<and>
     (hrs_less (signed_hrs m) (lss_hrs (pvLast pv)) \<or>
      signed_hrs m = lss_hrs (pvLast pv) \<and> lsSignBytes (pvLast pv) = Some sb))"

definition agree :: "env \<Rightarrow> signed list \<Rightarrow> bool" where
  "agree E R \<longleftrightarrow> (\<forall>m\<in>set R. \<forall>m'\<in>set R. signed_hrs m = signed_hrs m' \<longrightarrow> signed_bytes E m = signed_bytes E m')"

definition pv_inv :: "env \<Rightarrow> FilePVKey \<Rightarrow> string \<Rightarrow> FilePV \<Rightarrow> disk \<Rightarrow> signed list \<Rightarrow> bool" where
  "pv_inv E key path pv d R \<longleftrightarrow>
     pvKey pv = key \<and> lsFilePath (pvLast pv) = path \<and>
     d path = Some ((pvLast pv)\<lparr>lsFilePath := ''''\<rparr>) \<and> last_origin E pv \<and>
     list_all (released_ok E pv) R \<and> agree E R"

definition sign_size :: "env \<Rightarrow> bool" where
  "sign_size E \<longleftrightarrow> (\<forall>sk m. length (e_sign E sk m) = SignatureSize)"

lemma hrs_less_irrefl [simp]: "\<not> hrs_less a a"
  by (cases a) auto

lemma hrs_less_trans: "hrs_less a b \<Longrightarrow> hrs_less b c \<Longrightarrow> hrs_less a c"
  by (cases a; cases b; cases c) auto

lemma signed_bytes_nonempty: "signed_bytes E m = Some sb \<Longrightarrow> sb \<noteq> []"
  by (cases m) (auto simp: VoteSignBytes_def PrePrepareSignBytes_def MarshalDelimited_def putLen_def split: option.splits)

lemma agree_Cons: "agree E (m # R) \<longleftrightarrow> agree E R \<and> (\<forall>x\<in>set R. signed_hrs x = signed_hrs m \<longrightarrow> signed_bytes E x = signed_bytes E m)"
  unfolding agree_def by (metis list.set_intros set_ConsD)

lemma pv_inv_Cons:
  "pv_inv E key path pv d (m # R) \<longleftrightarrow> pv_inv E key path pv d R \<and> released_ok E pv m \<and>
     (\<forall>x\<in>set R. signed_hrs x = signed_hrs m \<longrightarrow> signed_bytes E x = signed_bytes E m)"
  by (auto simp: pv_inv_def agree_Cons)

text \<open>The invariant is kept by any successful request, with the message handed out or not.\<close>

lemma sign_outcome_later:
  assumes inv: "pv_inv E key path pv d R" and later: "hrs_less (lss_hrs (pvLast pv)) (signed_hrs m)"
    and out: "sign_outcome E pv d (signed_hrs m) sb pv' d'"
    and m: "askable E m" "signed_bytes E m = Some sb" and size: "sign_size E"
  shows "pv_inv E key path pv' d' R" and "lsSignBytes (pvLast pv') = Some sb" and "lss_hrs (pvLast pv') = signed_hrs m"
    and "\<And>x. x \<in> set R \<Longrightarrow> signed_hrs x \<noteq> signed_hrs m"
proof -
  have k: "pvKey pv = key" "lsFilePath (pvLast pv) = path" using inv by (simp_all add: pv_inv_def)
  from later have new: "pvKey pv' = key" "lsSignBytes (pvLast pv') = Some sb" "lss_hrs (pvLast pv') = signed_hrs m"
      "lsSignature (pvLast pv') = Some (e_sign E (kPrivKey key) sb)" "lsFilePath (pvLast pv') = path"
      "d' = d(path \<mapsto> json_lss (pvLast pv'))"
    using out k by (auto simp: sign_outcome_def lss_hrs_def)
  have "e_sign E (kPrivKey key) sb \<noteq> []"
    using size by (metis SignatureSize_def length_0_conv sign_size_def zero_neq_numeral)
  then have "json_lss (pvLast pv') = (pvLast pv')\<lparr>lsFilePath := ''''\<rparr>"
    using new signed_bytes_nonempty[OF m(2)] by (simp add: json_lss_def json_slice_def)
  then have disk: "d' path = Some ((pvLast pv')\<lparr>lsFilePath := ''''\<rparr>)" using new(6) by simp
  have origin: "last_origin E pv'" using new m by (auto simp: last_origin_def)
  have old: "hrs_less (signed_hrs x) (signed_hrs m) \<and> released_ok E pv' x" if "x \<in> set R" for x
  proof -
    have "released_ok E pv x" using inv that by (simp add: pv_inv_def list_all_iff)
    then have "hrs_less (signed_hrs x) (signed_hrs m)"
      using later hrs_less_trans unfolding released_ok_def by metis
    then show ?thesis using \<open>released_ok E pv x\<close> new(1,3) k(1) unfolding released_ok_def by metis
  qed
  then have "list_all (released_ok E pv') R" by (simp add: list_all_iff)
  then show "pv_inv E key path pv' d' R"
    using inv new(1,5) disk origin by (simp add: pv_inv_def)
  show "lsSignBytes (pvLast pv') = Some sb" "lss_hrs (pvLast pv') = signed_hrs m" using new by simp_all
  show "signed_hrs x \<noteq> signed_hrs m" if "x \<in> set R" for x
    using old[OF that] by (metis hrs_less_irrefl)
qed

lemma sign_outcome_inv:
  assumes inv: "pv_inv E key path pv d R" and out: "sign_outcome E pv d (signed_hrs m) sb pv' d'"
    and m: "askable E m" "signed_bytes E m = Some sb" "signed_sig m = e_sign E (kPrivKey key) sb"
    and size: "sign_size E"
  shows "pv_inv E key path pv' d' (m # R) \<and> pv_inv E key path pv' d' R"
proof (cases "hrs_less (lss_hrs (pvLast pv)) (signed_hrs m)")
  case True
  note later = sign_outcome_later[OF inv True out m(1,2) size]
  have "pvKey pv' = key" using later(1) by (simp add: pv_inv_def)
  then have "released_ok E pv' m" using later(2,3) m by (simp add: released_ok_def)
  then show ?thesis using later(1,4) by (simp add: pv_inv_Cons)
next
  case False
  then have same: "pv' = pv" "d' = d" "signed_hrs m = lss_hrs (pvLast pv)" "lsSignBytes (pvLast pv) = Some sb"
    using out by (auto simp: sign_outcome_def)
  have key: "pvKey pv = key" using inv by (simp add: pv_inv_def)
  have "signed_bytes E x = signed_bytes E m" if "x \<in> set R" "signed_hrs x = signed_hrs m" for x
  proof -
    have "released_ok E pv x" using inv that(1) by (simp add: pv_inv_def list_all_iff)
    then show ?thesis using that(2) same(3,4) m(2) unfolding released_ok_def by (metis hrs_less_irrefl)
  qed
  moreover have "released_ok E pv m" using same m key by (simp add: released_ok_def)
  ultimately show ?thesis using inv same(1,2) by (simp add: pv_inv_Cons)
qed


section \<open>The two requests\<close>

lemma PrePrepareSignBytes_signature [simp]: "PrePrepareSignBytes E c (p\<lparr>prSignature := s\<rparr>) = PrePrepareSignBytes E c p"
  by (simp add: PrePrepareSignBytes_def CanonicalizePrePrepare_def cong: option.case_cong)

lemma voteToStep_update [simp]:
  "voteToStep (v\<lparr>vSignature := s\<rparr>) = voteToStep v" "voteToStep (v\<lparr>vTimestamp := t\<rparr>) = voteToStep v"
  by (simp_all add: voteToStep_def)

lemma vote_typed_update [simp]:
  "vote_typed (v\<lparr>vSignature := s\<rparr>) = vote_typed v" "vote_typed (v\<lparr>vTimestamp := t\<rparr>) = vote_typed v"
  by (simp_all add: vote_typed_def)

lemma pp_typed_update [simp]:
  "pp_typed (p\<lparr>prSignature := s\<rparr>) = pp_typed p" "pp_typed (p\<lparr>prTimestamp := t\<rparr>) = pp_typed p"
  by (simp_all add: pp_typed_def)

lemma sign_outcome_same:
  assumes "last_origin E pv" "CheckHRS (pvLast pv) h r s = Some (Inr True)" "lsSignBytes (pvLast pv) = Some sb"
  shows "sign_outcome E pv d (h, r, s) sb pv d" and "lsSignature (pvLast pv) = Some (e_sign E (kPrivKey (pvKey pv)) sb)"
    and "\<exists>m. askable E m \<and> signed_bytes E m = Some sb \<and> signed_hrs m = (h, r, s)"
  using assms unfolding sign_outcome_def last_origin_def CheckHRS_Inr by auto

text \<open>A request that only differs by its time from the recorded one ends with the recorded sign bytes.\<close>

lemma checkVotes_resign:
  assumes E: "time_codec E" "proto_equal E"
    and m0: "askable E m0" "signed_bytes E m0 = Some sb0" "signed_hrs m0 = (h, r, s)"
    and v: "askable E (SignedVote c v)" "voteToStep v = Some s" "VoteSignBytes E c v = Some sb"
    and check: "checkVotesOnlyDifferByTimestamp E now sb0 sb = Some (t, True)"
  shows "VoteSignBytes E c (v\<lparr>vTimestamp := t\<rparr>) = Some sb0"
proof -
  obtain c0 v0 where v0: "m0 = SignedVote c0 v0"
    using m0(3) v(2) by (cases m0) (auto simp: voteToStep_def PrePrepareStep_def PrepareStep_def CommitStep_def split: if_splits)
  have len: "length sb0 < 2 ^ 62" "length sb < 2 ^ 62"
    using m0(1,2) v(1,3) by (auto simp: askable_def)
  obtain pl pn where dec: "UnmarshalDelimited (\<lambda>b. cvote_Unmarshal E b zero_cvote) sb0 = Some pl"
      "UnmarshalDelimited (\<lambda>b. cvote_Unmarshal E b zero_cvote) sb = Some pn"
      "t = cvTimestamp pl" "pn\<lparr>cvTimestamp := now\<rparr> = pl\<lparr>cvTimestamp := now\<rparr>"
    using check E(2) by (auto simp: checkVotesOnlyDifferByTimestamp_def proto_equal_def split: option.splits)
  show ?thesis
    unfolding dec(3)
    using vote_sb.resign_same_bytes[where E = E and ?m0.0 = v0 and m = v, OF _ _ len(1) dec(1) _ v(3) len(2) dec(2,4)]
      v0 m0 v E by (auto simp: askable_def)
qed

lemma checkProposals_resign:
  assumes E: "time_codec E" "proto_equal E"
    and m0: "askable E m0" "signed_bytes E m0 = Some sb0" "signed_hrs m0 = (h, r, PrePrepareStep)"
    and p: "askable E (SignedProposal c p)" "PrePrepareSignBytes E c p = Some sb"
    and check: "checkProposalsOnlyDifferByTimestamp E now sb0 sb = Some (t, True)"
  shows "PrePrepareSignBytes E c (p\<lparr>prTimestamp := t\<rparr>) = Some sb0"
proof -
  obtain c0 p0 where p0: "m0 = SignedProposal c0 p0"
    using m0(1,3) by (cases m0)
      (auto simp: askable_def IsVoteTypeValid_def voteToStep_def PrePrepareStep_def PrepareStep_def CommitStep_def split: if_splits)
  have len: "length sb0 < 2 ^ 62" "length sb < 2 ^ 62"
    using m0(1,2) p by (auto simp: askable_def)
  obtain pl pn where dec: "UnmarshalDelimited (\<lambda>b. cpp_Unmarshal E b zero_cpp) sb0 = Some pl"
      "UnmarshalDelimited (\<lambda>b. cpp_Unmarshal E b zero_cpp) sb = Some pn"
      "t = ppTimestamp pl" "pn\<lparr>ppTimestamp := now\<rparr> = pl\<lparr>ppTimestamp := now\<rparr>"
    using check E(2) by (auto simp: checkProposalsOnlyDifferByTimestamp_def proto_equal_def split: option.splits)
  show ?thesis
    unfolding dec(3)
    using pp_sb.resign_same_bytes[where E = E and ?m0.0 = p0 and m = p, OF _ _ len(1) dec(1) _ p(2) len(2) dec(2,4)]
      p0 m0 p E by (auto simp: askable_def)
qed

lemma signVote_outcome:
  assumes E: "time_codec E" "proto_equal E" and origin: "last_origin E pv" and v: "askable E (SignedVote c v)"
    and call: "signVote E now io c v pv d = Some (pv', d', v', None)"
  shows "\<exists>sb. signed_bytes E (SignedVote c v') = Some sb \<and> vSignature v' = e_sign E (kPrivKey (pvKey pv)) sb \<and>
    askable E (SignedVote c v') \<and> sign_outcome E pv d (signed_hrs (SignedVote c v')) sb pv' d'"
proof -
  obtain s where s1: "voteToStep v = Some s" using call by (auto simp: signVote_def bind_Some)
  obtain same sb where s: "voteToStep v = Some s" "CheckHRS (pvLast pv) (vHeight v) (vRound v) s = Some (Inr same)"
      "VoteSignBytes E c v = Some sb"
    using call s1 by (cases "CheckHRS (pvLast pv) (vHeight v) (vRound v) s")
      (auto simp: signVote_def Let_def bind_Some split: sum.splits)
  show ?thesis
  proof (cases same)
    case False
    then show ?thesis
      using call s v saveSigned_outcome[of io pv "vHeight v" "vRound v" s sb E d pv' d']
      by (auto simp: signVote_def Let_def bind_Some CheckHRS_Inr sk_Sign_def askable_def split: if_splits)
  next
    case True
    then obtain sb0 where sb0: "lsSignBytes (pvLast pv) = Some sb0" using s(2) by (auto simp: CheckHRS_Inr)
    have hrs: "CheckHRS (pvLast pv) (vHeight v) (vRound v) s = Some (Inr True)" using s(2) True by simp
    note same0 = sign_outcome_same[OF origin hrs sb0]
    show ?thesis
    proof (cases "sb0 = sb")
      case True
      then show ?thesis
        using call s v \<open>same\<close> sb0 same0(1)[of d] same0(2) by (auto simp: signVote_def askable_def)
    next
      case False
      obtain t where t: "checkVotesOnlyDifferByTimestamp E now sb0 sb = Some (t, True)"
          "pv' = pv" "d' = d" "v' = v\<lparr>vTimestamp := t, vSignature := the (lsSignature (pvLast pv))\<rparr>"
        using call s \<open>same\<close> sb0 False by (auto simp: signVote_def bind_Some split: if_splits)
      obtain m0 where m0: "askable E m0" "signed_bytes E m0 = Some sb0" "signed_hrs m0 = (vHeight v, vRound v, s)"
        using same0(3) by blast
      have "VoteSignBytes E c v' = Some sb0"
        using checkVotes_resign[OF E m0 v s(1,3) t(1)] t(4) by simp
      then show ?thesis
        using same0(1)[of d] same0(2) t s(1) v m0(1,2) by (auto simp: askable_def)
    qed
  qed
qed


lemma signProposal_outcome:
  assumes E: "time_codec E" "proto_equal E" and origin: "last_origin E pv" and p: "askable E (SignedProposal c p)"
    and call: "signProposal E now io c p pv d = Some (pv', d', p', None)"
  shows "\<exists>sb. signed_bytes E (SignedProposal c p') = Some sb \<and> prSignature p' = e_sign E (kPrivKey (pvKey pv)) sb \<and>
    askable E (SignedProposal c p') \<and> sign_outcome E pv d (signed_hrs (SignedProposal c p')) sb pv' d'"
proof -
  obtain same sb where s: "CheckHRS (pvLast pv) (prHeight p) (prRound p) PrePrepareStep = Some (Inr same)"
      "PrePrepareSignBytes E c p = Some sb"
    using call by (cases "CheckHRS (pvLast pv) (prHeight p) (prRound p) PrePrepareStep")
      (auto simp: signProposal_def Let_def bind_Some split: sum.splits)
  show ?thesis
  proof (cases same)
    case False
    then show ?thesis
      using call s p saveSigned_outcome[of io pv "prHeight p" "prRound p" PrePrepareStep sb E d pv' d']
      by (auto simp: signProposal_def Let_def bind_Some CheckHRS_Inr sk_Sign_def askable_def split: if_splits)
  next
    case True
    then obtain sb0 where sb0: "lsSignBytes (pvLast pv) = Some sb0" using s(1) by (auto simp: CheckHRS_Inr)
    have hrs: "CheckHRS (pvLast pv) (prHeight p) (prRound p) PrePrepareStep = Some (Inr True)" using s(1) True by simp
    note same0 = sign_outcome_same[OF origin hrs sb0]
    show ?thesis
    proof (cases "sb0 = sb")
      case True
      then show ?thesis
        using call s p \<open>same\<close> sb0 same0(1)[of d] same0(2) by (auto simp: signProposal_def askable_def)
    next
      case False
      obtain t where t: "checkProposalsOnlyDifferByTimestamp E now sb0 sb = Some (t, True)"
          "pv' = pv" "d' = d" "p' = p\<lparr>prTimestamp := t, prSignature := the (lsSignature (pvLast pv))\<rparr>"
        using call s \<open>same\<close> sb0 False by (auto simp: signProposal_def bind_Some split: if_splits)
      obtain m0 where m0: "askable E m0" "signed_bytes E m0 = Some sb0" "signed_hrs m0 = (prHeight p, prRound p, PrePrepareStep)"
        using same0(3) by blast
      have "PrePrepareSignBytes E c p' = Some sb0"
        using checkProposals_resign[OF E m0 p s(2) t(1)] t(4) by simp
      then show ?thesis
        using same0(1)[of d] same0(2) t p m0(1,2) by (auto simp: askable_def)
    qed
  qed
qed

lemma signVote_error: "signVote E now io c v pv d = Some (pv', d', v', Some e) \<Longrightarrow> pv' = pv \<and> d' = d"
  by (cases "voteToStep v"; cases "CheckHRS (pvLast pv) (vHeight v) (vRound v) (the (voteToStep v))")
    (auto simp: signVote_def Let_def bind_Some split: sum.splits if_splits)

lemma signProposal_error: "signProposal E now io c p pv d = Some (pv', d', p', Some e) \<Longrightarrow> pv' = pv \<and> d' = d"
  by (cases "CheckHRS (pvLast pv) (prHeight p) (prRound p) PrePrepareStep")
    (auto simp: signProposal_def Let_def bind_Some split: sum.splits if_splits)

lemma pv_run_inv:
  assumes "pv_run E key path pv d R" and E: "time_codec E" "proto_equal E" "sign_size E"
  shows "pv_inv E key path pv d R"
  using assms(1)
proof (induction rule: pv_run.induct)
  case (create pk sk kp pv d d')
  then show ?case
    by (auto simp: NewFilePV_def pv_Save_def lss_Save_def pv_inv_def last_origin_def agree_def json_lss_def json_slice_def
        split: option.splits if_splits)
next
  case (vote pv d R c v now io pv' d' v')
  then show ?case
    using signVote_outcome[OF E(1,2) _ vote(2,3)] sign_outcome_inv[OF vote(4) _ _ _ _ E(3)]
    unfolding pv_inv_def[of _ _ _ pv] by fastforce
next
  case (vote_lost pv d R c v now io pv' d' v' e)
  show ?case
  proof (cases e)
    case None
    then show ?thesis
      using signVote_outcome[OF E(1,2) _ vote_lost(2)] vote_lost(3) sign_outcome_inv[OF vote_lost(4) _ _ _ _ E(3)] vote_lost(4)
      unfolding pv_inv_def[of _ _ _ pv] by fastforce
  next
    case (Some x)
    then show ?thesis using signVote_error vote_lost by blast
  qed
next
  case (proposal pv d R c p now io pv' d' p')
  then show ?case
    using signProposal_outcome[OF E(1,2) _ proposal(2,3)] sign_outcome_inv[OF proposal(4) _ _ _ _ E(3)]
    unfolding pv_inv_def[of _ _ _ pv] by fastforce
next
  case (proposal_lost pv d R c p now io pv' d' p' e)
  show ?case
  proof (cases e)
    case None
    then show ?thesis
      using signProposal_outcome[OF E(1,2) _ proposal_lost(2)] proposal_lost(3) sign_outcome_inv[OF proposal_lost(4) _ _ _ _ E(3)]
        proposal_lost(4)
      unfolding pv_inv_def[of _ _ _ pv] by fastforce
  next
    case (Some x)
    then show ?thesis using signProposal_error proposal_lost by blast
  qed
next
  case (restart pv d R pv')
  then have "pv' = pv" by (auto simp: loadFilePV_def pv_inv_def split: option.splits)
  then show ?case using restart by simp
qed


section \<open>Properties\<close>

fun signed_block :: "signed \<Rightarrow> BlockID" where
  "signed_block (SignedVote c v) = vBlockID v"
| "signed_block (SignedProposal c p) = prBlockID p"

lemma signed_bytes_block:
  assumes "time_codec E" "askable E m" "askable E m'" "signed_bytes E m = Some sb" "signed_bytes E m' = Some sb"
    and "signed_hrs m = signed_hrs m'"
  shows "signed_block m = signed_block m'"
proof -
  have len: "length sb < 2 ^ 62" using assms(2,4) by (auto simp: askable_def)
  have steps: "the (voteToStep v) \<noteq> PrePrepareStep" if "IsVoteTypeValid (vType v)" for v
    using that by (auto simp: IsVoteTypeValid_def voteToStep_def PrePrepareStep_def PrepareStep_def CommitStep_def)
  show ?thesis
  proof (cases m; cases m')
    fix c v c' v' assume m: "m = SignedVote c v" "m' = SignedVote c' v'"
    then show ?thesis
      using VoteSignBytes_inj[OF assms(1), of v v' c sb c'] assms(2-5) len by (simp add: askable_def)
  next
    fix c p c' p' assume m: "m = SignedProposal c p" "m' = SignedProposal c' p'"
    then show ?thesis
      using PrePrepareSignBytes_inj[OF assms(1), of p p' c sb c'] assms(2-5) len by (simp add: askable_def)
  qed (use assms(2,3,6) steps in \<open>auto simp: askable_def\<close>, metis+)
qed

text \<open>Property C13: over any history of signing requests, failed requests, crashes and reloads from disk,
  two messages handed out for the same height, round and step have the same sign bytes, the same
  signature and are for the same block: the signer never double-signs.\<close>

theorem no_double_sign:
  assumes "pv_run E key path pv d R" and "time_codec E" and "proto_equal E" and "sign_size E"
    and "m \<in> set R" and "m' \<in> set R" and "signed_hrs m = signed_hrs m'"
  shows "signed_bytes E m = signed_bytes E m' \<and> signed_sig m = signed_sig m' \<and> signed_block m = signed_block m'"
proof -
  have inv: "pv_inv E key path pv d R" using pv_run_inv[OF assms(1-4)] .
  then have same: "signed_bytes E m = signed_bytes E m'"
    using assms(5-7) unfolding pv_inv_def agree_def by blast
  have "released_ok E pv m" "released_ok E pv m'"
    using inv assms(5,6) by (simp_all add: pv_inv_def list_all_iff)
  then obtain sb where "askable E m" "askable E m'" "signed_bytes E m = Some sb" "signed_bytes E m' = Some sb"
      "signed_sig m = signed_sig m'"
    using same unfolding released_ok_def by auto
  then show ?thesis using signed_bytes_block[OF assms(2)] assms(7) by metis
qed


definition sample_pv :: FilePV where
  "sample_pv = the (NewFilePV sample_env (replicate 32 1) (replicate 64 2) ''key'' ''state'')"

lemma sample_sign_size: "sign_size sample_env"
  by (auto simp: sign_size_def sample_env_def SignatureSize_def min_def)

text \<open>Two requests for the same vote at different times: the second gets the time and signature of the
  first.\<close>

lemma sample_requests:
  "case (VoteSignBytes sample_env [1] sample_vote, VoteSignBytes sample_env [1] (sample_vote\<lparr>vTimestamp := 6\<rparr>)) of
     (Some a, Some b) \<Rightarrow> a \<noteq> b \<and> int (length a) < 200 \<and> int (length b) < 200 \<and>
        checkVotesOnlyDifferByTimestamp sample_env 0 a b = Some (5, True)
   | _ \<Rightarrow> False"
  by code_simp

lemma sample_run:
  "\<exists>pv d s. pv_run sample_env (pvKey sample_pv) ''state'' pv d
     [SignedVote [1] (sample_vote\<lparr>vTimestamp := 5, vSignature := s\<rparr>), SignedVote [1] (sample_vote\<lparr>vSignature := s\<rparr>)]"
proof -
  obtain a b where ab: "VoteSignBytes sample_env [1] sample_vote = Some a"
      "VoteSignBytes sample_env [1] (sample_vote\<lparr>vTimestamp := 6\<rparr>) = Some b" "a \<noteq> b" "length a < 200" "length b < 200"
      "checkVotesOnlyDifferByTimestamp sample_env 0 a b = Some (5, True)"
    using sample_requests by (auto split: option.splits)
  have new: "NewFilePV sample_env (replicate 32 1) (replicate 64 2) ''key'' ''state'' = Some sample_pv"
    by (simp add: sample_pv_def NewFilePV_def pk_Address_def PubKeySize_def)
  obtain d0 where "pv_Save True sample_pv Map.empty = Some d0"
    by (simp add: pv_Save_def lss_Save_def sample_pv_def NewFilePV_def pk_Address_def PubKeySize_def)
  then have run0: "pv_run sample_env (pvKey sample_pv) ''state'' sample_pv d0 []"
    using pv_run.create[OF new] by blast
  have ask: "askable sample_env (SignedVote [1] sample_vote)" "askable sample_env (SignedVote [1] (sample_vote\<lparr>vTimestamp := 6\<rparr>))"
    using ab by (simp_all add: askable_def vote_typed_def sample_vote_def sample_bid_def bid_typed_def in_range_def
        PrepareType_def IsVoteTypeValid_def)
  let ?s = "e_sign sample_env (replicate 64 2) a"
  obtain pv1 d1 where call1: "signVote sample_env 0 True [1] sample_vote sample_pv d0 =
      Some (pv1, d1, sample_vote\<lparr>vSignature := ?s\<rparr>, None)"
    and last1: "lss_hrs (pvLast pv1) = (3, 0, 2)" "lsSignBytes (pvLast pv1) = Some a" "lsSignature (pvLast pv1) = Some ?s"
    using ab(1) by (simp add: signVote_def sample_vote_def voteToStep_def CheckHRS_def sample_pv_def NewFilePV_def
        pk_Address_def PubKeySize_def saveSigned_def lss_Save_def sk_Sign_def Let_def lss_hrs_def PrepareStep_def PrepareType_def)
  have "CheckHRS (pvLast pv1) 3 0 2 = Some (Inr True)" using last1 by (simp add: CheckHRS_Inr)
  then have call2: "signVote sample_env 0 True [1] (sample_vote\<lparr>vTimestamp := 6\<rparr>) pv1 d1 =
      Some (pv1, d1, sample_vote\<lparr>vTimestamp := 5, vSignature := ?s\<rparr>, None)"
    using ab last1 by (simp add: signVote_def voteToStep_def Let_def sample_vote_def PrepareStep_def PrepareType_def)
  show ?thesis
    using pv_run.vote[OF pv_run.vote[OF run0 ask(1) call1] ask(2) call2] by blast
qed

theorem no_double_sign_witness:
  "\<exists>pv d s. pv_run sample_env (pvKey sample_pv) ''state'' pv d
     [SignedVote [1] (sample_vote\<lparr>vTimestamp := 5, vSignature := s\<rparr>), SignedVote [1] (sample_vote\<lparr>vSignature := s\<rparr>)] \<and>
     VoteSignBytes sample_env [1] (sample_vote\<lparr>vTimestamp := 5, vSignature := s\<rparr>) =
       VoteSignBytes sample_env [1] (sample_vote\<lparr>vSignature := s\<rparr>)"
proof -
  obtain pv d s where run: "pv_run sample_env (pvKey sample_pv) ''state'' pv d
     [SignedVote [1] (sample_vote\<lparr>vTimestamp := 5, vSignature := s\<rparr>), SignedVote [1] (sample_vote\<lparr>vSignature := s\<rparr>)]"
    using sample_run by blast
  have "signed_bytes sample_env (SignedVote [1] (sample_vote\<lparr>vTimestamp := 5, vSignature := s\<rparr>)) =
      signed_bytes sample_env (SignedVote [1] (sample_vote\<lparr>vSignature := s\<rparr>))"
    using no_double_sign[OF run sample_time_codec sample_proto_equal sample_sign_size,
        of "SignedVote [1] (sample_vote\<lparr>vTimestamp := 5, vSignature := s\<rparr>)" "SignedVote [1] (sample_vote\<lparr>vSignature := s\<rparr>)"]
    by simp
  with run show ?thesis by auto
qed

text \<open>The signer does not refuse what it may sign: a vote for a later height, round or step
  than the last one is signed, and the new state is on disk when the signature is returned.\<close>

theorem later_vote_is_signed:
  assumes "voteToStep v = Some s" and "hrs_less (lss_hrs (pvLast pv)) (vHeight v, vRound v, s)"
    and "VoteSignBytes E c v = Some sb" and "length (kPrivKey (pvKey pv)) = 64" and "lsFilePath (pvLast pv) \<noteq> ''''"
  shows "\<exists>pv' d' v'. signVote E now True c v pv d = Some (pv', d', v', None) \<and>
    vSignature v' = e_sign E (kPrivKey (pvKey pv)) sb \<and> vBlockID v' = vBlockID v \<and>
    lss_hrs (pvLast pv') = (vHeight v, vRound v, s) \<and> d' (lsFilePath (pvLast pv)) = Some (json_lss (pvLast pv'))"
proof -
  have "CheckHRS (pvLast pv) (vHeight v) (vRound v) s = Some (Inr False)" using assms(2) by (simp add: CheckHRS_Inr)
  then show ?thesis
    using assms by (simp add: signVote_def sk_Sign_def saveSigned_def lss_Save_def Let_def lss_hrs_def)
qed

theorem later_vote_is_signed_witness:
  "\<exists>pv' d' v'. signVote sample_env 0 True [1] sample_vote sample_pv Map.empty = Some (pv', d', v', None)"
proof -
  have "VoteSignBytes sample_env [1] sample_vote \<noteq> None" using sample_requests by (auto split: option.splits)
  then obtain sb where sb: "VoteSignBytes sample_env [1] sample_vote = Some sb" by blast
  have "voteToStep sample_vote = Some 2" "hrs_less (lss_hrs (pvLast sample_pv)) (vHeight sample_vote, vRound sample_vote, 2)"
      "length (kPrivKey (pvKey sample_pv)) = 64" "lsFilePath (pvLast sample_pv) \<noteq> ''''"
    by (simp_all add: sample_vote_def voteToStep_def PrepareStep_def lss_hrs_def sample_pv_def NewFilePV_def pk_Address_def PubKeySize_def)
  then show ?thesis using later_vote_is_signed[of sample_vote 2 sample_pv sample_env "[1]" sb] sb by blast
qed

end
