(* ===== verification/HeightVotes.thy ===== *)
theory HeightVotes
  imports VoteSafety "HOL-Library.Monad_Syntax"
begin

text \<open>
  \<open>HeightVoteSet\<close> of \<open>consensus/height_vote_set.go\<close>: for one height, a pair of vote sets per round, and for
  every peer the at most two rounds it may open beyond the tracked ones. Shown: every vote set of a
  height vote set is a reachable vote set of that height, round, type and validator set; a peer opens at
  most two rounds; the search for a proof-of-lock round finds the latest one.
\<close>

section \<open>Checked arithmetic\<close>

definition SafeAddInt32 :: "int \<Rightarrow> int \<Rightarrow> int option" where
  "SafeAddInt32 a b =
     (if 0 < b \<and> MaxInt32 - b < a then None
      else if b < 0 \<and> a < MinInt32 - b then None
      else Some (add32 a b))"

definition SafeSubInt32 :: "int \<Rightarrow> int \<Rightarrow> int option" where
  "SafeSubInt32 a b =
     (if 0 < b \<and> a < MinInt32 + b then None
      else if b < 0 \<and> MaxInt32 + b < a then None
      else Some (wrap 32 (a - b)))"

definition SafeConvertInt32 :: "int \<Rightarrow> int option" where
  "SafeConvertInt32 a = (if MaxInt32 < a then None else if a < MinInt32 then None else Some a)"

lemma SafeAddInt32_eq: "in_range 32 a \<Longrightarrow> in_range 32 b \<Longrightarrow> SafeAddInt32 a b = (if in_range 32 (a + b) then Some (a + b) else None)"
  by (auto simp: SafeAddInt32_def in_range_def MaxInt32_def MinInt32_def add32_small)

lemma SafeSubInt32_eq: "in_range 32 a \<Longrightarrow> in_range 32 b \<Longrightarrow> SafeSubInt32 a b = (if in_range 32 (a - b) then Some (a - b) else None)"
  by (auto simp: SafeSubInt32_def in_range_def MaxInt32_def MinInt32_def intro!: wrap_id)

section \<open>State and operations\<close>

record RoundVoteSet =
  rvPrepares :: VoteSet
  rvPrecommits :: VoteSet

text \<open>A peer without an entry in \<open>peerCatchupRounds\<close> has the empty slice.\<close>

record HeightVoteSet =
  hvChainID :: bytes
  hvHeight :: int
  hvValSet :: ValidatorSet
  hvRound :: int
  hvSets :: "int \<rightharpoonup> RoundVoteSet"
  hvCatchup :: "string \<Rightarrow> int list"

datatype hv_error = ErrGotVoteFromUnwantedRound | InvalidVoteType | VoteError vote_error | ConflictingMaj23

definition addRound :: "HeightVoteSet \<Rightarrow> int \<Rightarrow> HeightVoteSet option" where
  "addRound hvs r =
     (if hvSets hvs r \<noteq> None then None
      else do {
        prevotes \<leftarrow> NewVoteSet (hvChainID hvs) (hvHeight hvs) r PrepareType (hvValSet hvs);
        precommits \<leftarrow> NewVoteSet (hvChainID hvs) (hvHeight hvs) r CommitType (hvValSet hvs);
        Some (hvs\<lparr>hvSets := (hvSets hvs)(r \<mapsto> \<lparr>rvPrepares = prevotes, rvPrecommits = precommits\<rparr>)\<rparr>)
      })"

definition hv_Reset :: "HeightVoteSet \<Rightarrow> int \<Rightarrow> ValidatorSet \<Rightarrow> HeightVoteSet option" where
  "hv_Reset hvs height valSet = do {
     hvs1 \<leftarrow> addRound (hvs\<lparr>hvHeight := height, hvValSet := valSet, hvSets := Map.empty, hvCatchup := (\<lambda>_. [])\<rparr>) 0;
     Some (hvs1\<lparr>hvRound := 0\<rparr>)
   }"

definition NewHeightVoteSet :: "bytes \<Rightarrow> int \<Rightarrow> ValidatorSet \<Rightarrow> HeightVoteSet option" where
  "NewHeightVoteSet chainID height valSet =
     hv_Reset \<lparr>hvChainID = chainID, hvHeight = 0, hvValSet = valSet, hvRound = 0, hvSets = Map.empty, hvCatchup = (\<lambda>_. [])\<rparr> height valSet"

text \<open>The loop of \<open>SetRound\<close> over the rounds that are not there yet. For the largest \<open>int32\<close> the counter wraps
  around and the loop does not end, which is \<open>None\<close> too.\<close>

fun addRounds :: "HeightVoteSet \<Rightarrow> int list \<Rightarrow> HeightVoteSet option" where
  "addRounds hvs [] = Some hvs"
| "addRounds hvs (r # rs) =
     (if hvSets hvs r \<noteq> None then addRounds hvs rs
      else do { hvs1 \<leftarrow> addRound hvs r; addRounds hvs1 rs })"

definition SetRound :: "HeightVoteSet \<Rightarrow> int \<Rightarrow> HeightVoteSet option" where
  "SetRound hvs r = do {
     newRound \<leftarrow> SafeSubInt32 (hvRound hvs) 1;
     if hvRound hvs \<noteq> 0 \<and> r < newRound then None
     else if r = MaxInt32 then None
     else do {
       hvs1 \<leftarrow> addRounds hvs [newRound..r];
       Some (hvs1\<lparr>hvRound := r\<rparr>)
     }
   }"

text \<open>The outer option is the panic on an unknown type, the inner one the nil result.\<close>

definition getVoteSet :: "HeightVoteSet \<Rightarrow> int \<Rightarrow> int \<Rightarrow> VoteSet option option" where
  "getVoteSet hvs r voteType =
     (case hvSets hvs r of
        None \<Rightarrow> Some None
      | Some rvs \<Rightarrow>
          if voteType = PrepareType then Some (Some (rvPrepares rvs))
          else if voteType = CommitType then Some (Some (rvPrecommits rvs))
          else None)"

text \<open>The vote sets are changed through the pointers of the map; the change is written back.\<close>

definition putVoteSet :: "HeightVoteSet \<Rightarrow> int \<Rightarrow> int \<Rightarrow> VoteSet \<Rightarrow> HeightVoteSet" where
  "putVoteSet hvs r voteType vs =
     (case hvSets hvs r of
        None \<Rightarrow> hvs
      | Some rvs \<Rightarrow>
          hvs\<lparr>hvSets := (hvSets hvs)(r \<mapsto>
            (if voteType = PrepareType then rvs\<lparr>rvPrepares := vs\<rparr> else rvs\<lparr>rvPrecommits := vs\<rparr>))\<rparr>)"

definition hv_AddVote :: "env \<Rightarrow> HeightVoteSet \<Rightarrow> Vote \<Rightarrow> string \<Rightarrow> (HeightVoteSet \<times> bool \<times> hv_error option) option" where
  "hv_AddVote E hvs vote peerID =
     (if \<not> IsVoteTypeValid (vType vote) then Some (hvs, False, None)
      else do {
        voteSet \<leftarrow> getVoteSet hvs (vRound vote) (vType vote);
        (case voteSet of
           Some vs \<Rightarrow> Some (Inr (hvs, vs))
         | None \<Rightarrow>
             let rndz = hvCatchup hvs peerID
             in if length rndz < 2 then do {
                  hvs1 \<leftarrow> addRound hvs (vRound vote);
                  voteSet1 \<leftarrow> getVoteSet hvs1 (vRound vote) (vType vote);
                  vs \<leftarrow> voteSet1;
                  Some (Inr (hvs1\<lparr>hvCatchup := (hvCatchup hvs1)(peerID := rndz @ [vRound vote])\<rparr>, vs))
                }
                else Some (Inl ErrGotVoteFromUnwantedRound))
        \<bind> (\<lambda>res. case res of
             Inl e \<Rightarrow> Some (hvs, False, Some e)
           | Inr (hvs1, vs) \<Rightarrow> do {
               (vs', added, err) \<leftarrow> VoteSets.AddVote E (Some vs) (Some vote);
               Some (putVoteSet hvs1 (vRound vote) (vType vote) vs', added, map_option VoteError err)
             })
      })"

definition Prepares :: "HeightVoteSet \<Rightarrow> int \<Rightarrow> VoteSet option" where
  "Prepares hvs r = the (getVoteSet hvs r PrepareType)"

definition Commits :: "HeightVoteSet \<Rightarrow> int \<Rightarrow> VoteSet option" where
  "Commits hvs r = the (getVoteSet hvs r CommitType)"

fun polFrom :: "HeightVoteSet \<Rightarrow> nat \<Rightarrow> int \<times> BlockID" where
  "polFrom hvs n =
     (case TwoThirdsMajority (Prepares hvs (int n)) of
        (b, True) \<Rightarrow> (int n, b)
      | (b, False) \<Rightarrow> (case n of 0 \<Rightarrow> (-1, zero_bid) | Suc m \<Rightarrow> polFrom hvs m))"

definition POLInfo :: "HeightVoteSet \<Rightarrow> int \<times> BlockID" where
  "POLInfo hvs = (if hvRound hvs < 0 then (-1, zero_bid) else polFrom hvs (nat (hvRound hvs)))"

definition hv_SetPeerMaj23 :: "HeightVoteSet \<Rightarrow> int \<Rightarrow> int \<Rightarrow> string \<Rightarrow> BlockID \<Rightarrow> (HeightVoteSet \<times> hv_error option) option" where
  "hv_SetPeerMaj23 hvs r voteType peerID blockID =
     (if \<not> IsVoteTypeValid voteType then Some (hvs, Some InvalidVoteType)
      else do {
        voteSet \<leftarrow> getVoteSet hvs r voteType;
        (case voteSet of
           None \<Rightarrow> Some (hvs, None)
         | Some vs \<Rightarrow>
             let (vs', err) = VoteSets.SetPeerMaj23 vs peerID blockID
             in Some (putVoteSet hvs r voteType vs', if err then Some ConflictingMaj23 else None))
      })"

declare polFrom.simps [simp del]


section \<open>The votes a vote set holds\<close>

definition held :: "Vote option list \<Rightarrow> Vote set" where
  "held votes = {v. Some v \<in> set votes}"

definition stored :: "VoteSet \<Rightarrow> Vote set" where
  "stored vs = held (vtVotes vs) \<union> (\<Union>bv\<in>ran (vtByBlock vs). held (bvVotes bv))"

lemma held_update: "held (votes[i := Some v]) \<subseteq> insert v (held votes)"
  using set_update_subset_insert[of votes i "Some v"] by (auto simp: held_def)

lemma held_overlay: "held (overlay xs ys) \<subseteq> held xs \<union> held ys"
  by (force simp: held_def overlay_def in_set_zip set_conv_nth)

lemma held_replicate [simp]: "held (replicate n None) = {}"
  by (auto simp: held_def)

lemma stored_table: "vtByBlock vs k = Some bv \<Longrightarrow> held (bvVotes bv) \<subseteq> stored vs"
  by (auto simp: stored_def ran_def)

lemma stored_upd:
  assumes "held (vtVotes vs') \<subseteq> S" "vtByBlock vs' = (vtByBlock vs)(k \<mapsto> bv)" "held (bvVotes bv) \<subseteq> S" "stored vs \<subseteq> S"
  shows "stored vs' \<subseteq> S"
  using assms unfolding stored_def ran_def by (simp add: UN_subset_iff split: if_splits) (metis option.inject)

lemma bv_addVerifiedVote_held:
  assumes "bv_addVerifiedVote bv v p = Some bv'"
  shows "held (bvVotes bv') \<subseteq> insert v (held (bvVotes bv))"
proof (cases "the (slice_get (bvVotes bv) (vIndex v))")
  case None
  then show ?thesis using assms held_update[of "bvVotes bv" "nat (vIndex v)" v]
    by (auto simp: bv_addVerifiedVote_def bind_Some slice_set_eq_Some split: option.splits)
next
  case (Some e)
  then show ?thesis using assms by (auto simp: bv_addVerifiedVote_def split: option.splits)
qed

lemma recordVote_stored:
  assumes "recordVote vs v k p = Some (vs', c)"
  shows "held (vtVotes vs') \<subseteq> insert v (held (vtVotes vs)) \<and> vtByBlock vs' = vtByBlock vs"
  using assms held_update[of "vtVotes vs" "nat (vIndex v)" v]
  by (auto simp: recordVote_def Let_def bind_Some slice_set_eq_Some split: option.splits if_splits)

lemma tallyVote_stored:
  assumes "tallyVote vs bv v k p = Some vs'" "held (bvVotes bv) \<subseteq> S" "stored vs \<subseteq> S" "v \<in> S"
  shows "stored vs' \<subseteq> S"
proof -
  obtain bv' where bv': "bv_addVerifiedVote bv v p = Some bv'" "vtByBlock vs' = (vtByBlock vs)(k \<mapsto> bv')"
    "vtVotes vs' = vtVotes vs \<or> vtVotes vs' = overlay (bvVotes bv') (vtVotes vs)"
    using assms(1) by (auto simp: tallyVote_def Let_def split: option.splits if_splits)
  have b: "held (bvVotes bv') \<subseteq> S" using bv_addVerifiedVote_held[OF bv'(1)] assms(2,4) by blast
  have "held (vtVotes vs) \<subseteq> S" using assms(3) by (simp add: stored_def)
  then have "held (vtVotes vs') \<subseteq> S" using bv'(3) b held_overlay[of "bvVotes bv'" "vtVotes vs"] by auto
  then show ?thesis by (rule stored_upd[OF _ bv'(2) b assms(3)])
qed

lemma addVerifiedVote_stored:
  assumes "addVerifiedVote vs v k p = Some (vs', added, c)"
  shows "stored vs' \<subseteq> insert v (stored vs)"
proof -
  obtain vs1 c1 where r: "recordVote vs v k p = Some (vs1, c1)"
    using assms by (auto simp: addVerifiedVote_def split: option.splits)
  have s1: "stored vs1 \<subseteq> insert v (stored vs)" "vtByBlock vs1 = vtByBlock vs"
    using recordVote_stored[OF r] by (auto simp: stored_def)
  let ?S = "insert v (stored vs)"
  have new: "stored vs2 \<subseteq> ?S" if "tallyVote vs1 (newBlockVotes f n) v k p = Some vs2" for vs2 f n
    by (rule tallyVote_stored[OF that]) (use s1 in \<open>auto simp: newBlockVotes_def\<close>)
  have old: "stored vs2 \<subseteq> ?S" if "tallyVote vs1 bv v k p = Some vs2" "vtByBlock vs1 k = Some bv" for vs2 bv
    by (rule tallyVote_stored[OF that(1)]) (use s1 stored_table[OF that(2)] in auto)
  consider "vs' = vs1" | f n where "tallyVote vs1 (newBlockVotes f n) v k p = Some vs'"
    | bv where "tallyVote vs1 bv v k p = Some vs'" "vtByBlock vs1 k = Some bv"
    using assms r by (auto simp: addVerifiedVote_def split: option.splits if_splits)
  then show ?thesis using s1(1) new old by cases simp_all
qed

lemma addVote_stored:
  assumes "VoteSets.addVote E vs (Some v) = Some (vs', added, err)" "vt_inv E vs" "good_bid (vBlockID v)"
  shows "stored vs' \<subseteq> insert v (stored vs)"
  using addVote_accept[OF assms] addVerifiedVote_stored by blast

lemma NewVoteSet_stored: "NewVoteSet c h r t vals = Some vs \<Longrightarrow> stored vs = {} \<and> vtMaj23 vs = None"
  by (auto simp: NewVoteSet_def stored_def split: if_splits)

lemma stored_setTable:
  assumes "held (bvVotes bv) \<subseteq> stored vs"
  shows "stored (vs\<lparr>vtPeerMaj23s := q, vtByBlock := (vtByBlock vs)(k \<mapsto> bv)\<rparr>) \<subseteq> stored vs"
  by (rule stored_upd[OF _ _ assms subset_refl, of _ k]) (simp_all add: stored_def)

lemma stored_peers [simp]: "stored (vs\<lparr>vtPeerMaj23s := q\<rparr>) = stored vs"
  by (simp add: stored_def)

lemma SetPeerMaj23_stored: "stored (fst (VoteSets.SetPeerMaj23 vs p b)) \<subseteq> stored vs"
proof -
  have old: "held (bvVotes (bv\<lparr>bvPeerMaj23 := True\<rparr>)) \<subseteq> stored vs" if "vtByBlock vs (bid_Key b) = Some bv" for bv
    using stored_table[OF that] by simp
  have new: "held (bvVotes (newBlockVotes True n)) \<subseteq> stored vs" for n by (simp add: newBlockVotes_def)
  show ?thesis
    using stored_setTable[OF old] stored_setTable[OF new]
    by (auto simp: VoteSets.SetPeerMaj23_def Let_def simp del: fun_upd_apply split: option.splits)
qed

lemma voters_stored: "i \<in> voters E vs b \<Longrightarrow> \<exists>v\<in>stored vs. valid_vote E (ctx_of vs) i v \<and> vBlockID v = b"
proof -
  assume "i \<in> voters E vs b"
  then obtain v where v: "getVote vs (int i) (bid_Key b) = Some (Some v)" "valid_vote E (ctx_of vs) i v" "vBlockID v = b"
    by (auto simp: voters_def)
  consider "slice_get (vtVotes vs) (int i) = Some (Some v)"
    | bv where "vtByBlock vs (bid_Key b) = Some bv" "slice_get (bvVotes bv) (int i) = Some (Some v)"
    using v(1) by (auto simp: getVote_def bv_getByIndex_def split: option.splits if_splits)
  then have "v \<in> stored vs"
  proof cases
    case 1
    then show ?thesis by (auto simp: slice_get_eq_Some stored_def held_def) (metis nth_mem)
  next
    case 2
    then have "v \<in> held (bvVotes bv)" by (auto simp: slice_get_eq_Some held_def) (metis nth_mem)
    then show ?thesis using stored_table[OF 2(1)] by blast
  qed
  then show ?thesis using v by blast
qed


section \<open>The invariant of a height vote set\<close>

text \<open>Every vote set is reachable, belongs to its height, round and type, and holds only votes of \<open>R\<close>.\<close>

definition set_ok :: "env \<Rightarrow> Vote set \<Rightarrow> vote_ctx \<Rightarrow> VoteSet \<Rightarrow> bool" where
  "set_ok E R ctx vs \<longleftrightarrow> vt_reach E vs \<and> ctx_of vs = ctx \<and> stored vs \<subseteq> R"

definition hv_ctx :: "HeightVoteSet \<Rightarrow> int \<Rightarrow> int \<Rightarrow> vote_ctx" where
  "hv_ctx hvs t r = (hvChainID hvs, hvHeight hvs, r, t, hvValSet hvs)"

definition hv_inv :: "env \<Rightarrow> Vote set \<Rightarrow> HeightVoteSet \<Rightarrow> bool" where
  "hv_inv E R hvs \<longleftrightarrow> vals_shared_power (hvValSet hvs) \<and>
     (\<forall>r rvs. hvSets hvs r = Some rvs \<longrightarrow>
        set_ok E R (hv_ctx hvs PrepareType r) (rvPrepares rvs) \<and> set_ok E R (hv_ctx hvs CommitType r) (rvPrecommits rvs))"

text \<open>The majority of a round and type, and that it is kept.\<close>

definition hv_maj :: "HeightVoteSet \<Rightarrow> int \<Rightarrow> int \<Rightarrow> BlockID option" where
  "hv_maj hvs t r =
     (case hvSets hvs r of None \<Rightarrow> None | Some rvs \<Rightarrow> vtMaj23 (if t = PrepareType then rvPrepares rvs else rvPrecommits rvs))"

definition hv_le :: "HeightVoteSet \<Rightarrow> HeightVoteSet \<Rightarrow> bool" where
  "hv_le hvs hvs' \<longleftrightarrow> hvChainID hvs' = hvChainID hvs \<and> hvHeight hvs' = hvHeight hvs \<and> hvValSet hvs' = hvValSet hvs \<and>
     (\<forall>t r b. hv_maj hvs t r = Some b \<longrightarrow> hv_maj hvs' t r = Some b) \<and> (\<forall>r. hvSets hvs r \<noteq> None \<longrightarrow> hvSets hvs' r \<noteq> None)"

lemma hv_le_refl [simp]: "hv_le hvs hvs"
  by (simp add: hv_le_def)

lemma hv_le_trans: "hv_le a b \<Longrightarrow> hv_le b c \<Longrightarrow> hv_le a c"
  by (simp add: hv_le_def)

lemma PrepareType_neq [simp]: "PrepareType \<noteq> CommitType" "CommitType \<noteq> PrepareType"
  by (simp_all add: PrepareType_def CommitType_def)

lemma Prepares_maj: "TwoThirdsMajority (Prepares hvs r) = (case hv_maj hvs PrepareType r of None \<Rightarrow> (zero_bid, False) | Some b \<Rightarrow> (b, True))"
  by (auto simp: Prepares_def getVoteSet_def hv_maj_def TwoThirdsMajority_def split: option.splits)

lemma Commits_maj: "TwoThirdsMajority (Commits hvs r) = (case hv_maj hvs CommitType r of None \<Rightarrow> (zero_bid, False) | Some b \<Rightarrow> (b, True))"
  by (auto simp: Commits_def getVoteSet_def hv_maj_def TwoThirdsMajority_def split: option.splits)

lemma set_ok_mono: "set_ok E R ctx vs \<Longrightarrow> R \<subseteq> R' \<Longrightarrow> set_ok E R' ctx vs"
  by (auto simp: set_ok_def)

lemma hv_inv_mono: "hv_inv E R hvs \<Longrightarrow> R \<subseteq> R' \<Longrightarrow> hv_inv E R' hvs"
  by (auto simp: hv_inv_def intro: set_ok_mono)

lemma set_ok_new: "NewVoteSet c h r t vals = Some vs \<Longrightarrow> vals_shared_power vals \<Longrightarrow> set_ok E R (c, h, r, t, vals) vs"
  using NewVoteSet_stored[of c h r t vals vs] by (auto simp: set_ok_def ctx_of_def NewVoteSet_def intro: vt_reach.new split: if_splits)

lemma addRound_keeps:
  assumes "addRound hvs r = Some hvs'" "hv_inv E R hvs"
  shows "hv_inv E R hvs' \<and> hv_le hvs hvs' \<and> hvRound hvs' = hvRound hvs \<and> hvCatchup hvs' = hvCatchup hvs"
proof -
  obtain p c where new: "hvSets hvs r = None" "NewVoteSet (hvChainID hvs) (hvHeight hvs) r PrepareType (hvValSet hvs) = Some p"
    "NewVoteSet (hvChainID hvs) (hvHeight hvs) r CommitType (hvValSet hvs) = Some c"
    "hvs' = hvs\<lparr>hvSets := (hvSets hvs)(r \<mapsto> \<lparr>rvPrepares = p, rvPrecommits = c\<rparr>)\<rparr>"
    using assms(1) by (auto simp: addRound_def bind_Some split: if_splits)
  have pw: "vals_shared_power (hvValSet hvs)" using assms(2) by (simp add: hv_inv_def)
  show ?thesis
    using set_ok_new[OF new(2) pw] set_ok_new[OF new(3) pw] assms(2) new(1) unfolding new(4)
    by (auto simp: hv_inv_def hv_ctx_def hv_le_def hv_maj_def split: option.splits)
qed

lemma addRounds_keeps:
  "addRounds hvs rs = Some hvs' \<Longrightarrow> hv_inv E R hvs \<Longrightarrow>
   hv_inv E R hvs' \<and> hv_le hvs hvs' \<and> hvRound hvs' = hvRound hvs \<and> hvCatchup hvs' = hvCatchup hvs"
proof (induction hvs rs rule: addRounds.induct)
  case (2 hvs r rs)
  show ?case
  proof (cases "hvSets hvs r = None")
    case True
    then obtain hvs1 where "addRound hvs r = Some hvs1" "addRounds hvs1 rs = Some hvs'"
      using 2(3) by (auto simp: bind_Some)
    then show ?thesis
      using 2(2)[OF _ \<open>addRound hvs r = Some hvs1\<close>] True addRound_keeps[OF \<open>addRound hvs r = Some hvs1\<close> 2(4)]
        hv_le_trans[of hvs hvs1 hvs'] by auto
  next
    case False
    then show ?thesis using 2 by simp
  qed
qed simp

lemma hv_round_upd [simp]: "hv_inv E R (hvs\<lparr>hvRound := r\<rparr>) = hv_inv E R hvs" "hv_le hvs (hvs'\<lparr>hvRound := r\<rparr>) = hv_le hvs hvs'"
  "hv_maj (hvs\<lparr>hvRound := r\<rparr>) = hv_maj hvs"
  "hv_inv E R (hvs\<lparr>hvCatchup := q\<rparr>) = hv_inv E R hvs" "hv_le hvs (hvs'\<lparr>hvCatchup := q\<rparr>) = hv_le hvs hvs'"
  by (auto simp: hv_inv_def hv_ctx_def hv_le_def hv_maj_def fun_eq_iff)

lemma SetRound_keeps:
  assumes "SetRound hvs r = Some hvs'" "hv_inv E R hvs"
  shows "hv_inv E R hvs' \<and> hv_le hvs hvs' \<and> hvRound hvs' = r"
  using assms addRounds_keeps[OF _ assms(2)] by (auto simp: SetRound_def bind_Some split: if_splits)

lemma NewHeightVoteSet_inv:
  assumes "NewHeightVoteSet c h vals = Some hvs" "vals_shared_power vals"
  shows "hv_inv E R hvs \<and> hvChainID hvs = c \<and> hvHeight hvs = h \<and> hvValSet hvs = vals \<and> hvRound hvs = 0 \<and> (\<forall>t r. hv_maj hvs t r = None)"
proof -
  let ?h0 = "\<lparr>hvChainID = c, hvHeight = h, hvValSet = vals, hvRound = 0, hvSets = Map.empty, hvCatchup = \<lambda>_. []\<rparr>"
  obtain hvs1 where hvs1: "addRound ?h0 0 = Some hvs1" "hvs = hvs1\<lparr>hvRound := 0\<rparr>"
    using assms(1) by (auto simp: NewHeightVoteSet_def hv_Reset_def bind_Some)
  have "hv_inv E R ?h0" using assms(2) by (simp add: hv_inv_def)
  then have "hv_inv E R hvs1" "hv_le ?h0 hvs1" using addRound_keeps[OF hvs1(1)] by blast+
  moreover have "hv_maj hvs1 t r = None" for t r
    using hvs1(1) NewVoteSet_stored by (auto simp: addRound_def bind_Some hv_maj_def split: if_splits)
  ultimately show ?thesis using hvs1(2) by (simp add: hv_le_def)
qed

lemma putVoteSet_keeps:
  assumes inv: "hv_inv E R hvs" and rvs: "hvSets hvs r = Some rvs" and ty: "IsVoteTypeValid ty"
    and ok: "set_ok E R' (hv_ctx hvs ty r) vs'" and R: "R \<subseteq> R'"
    and maj: "\<And>b. hv_maj hvs ty r = Some b \<Longrightarrow> vtMaj23 vs' = Some b"
  shows "hv_inv E R' (putVoteSet hvs r ty vs') \<and> hv_le hvs (putVoteSet hvs r ty vs') \<and>
    hvRound (putVoteSet hvs r ty vs') = hvRound hvs \<and> hvCatchup (putVoteSet hvs r ty vs') = hvCatchup hvs"
proof -
  have inv': "hv_inv E R' hvs" using hv_inv_mono[OF inv R] .
  then have "hv_inv E R' (putVoteSet hvs r ty vs')"
    using ok rvs ty by (auto simp: hv_inv_def putVoteSet_def hv_ctx_def IsVoteTypeValid_def)
  moreover have "hv_le hvs (putVoteSet hvs r ty vs')"
    using maj rvs ty by (auto simp: hv_le_def putVoteSet_def hv_maj_def IsVoteTypeValid_def split: if_splits)
  ultimately show ?thesis using rvs by (simp add: putVoteSet_def)
qed

lemma getVoteSet_Some:
  assumes "getVoteSet hvs r t = Some (Some vs)" "hv_inv E R hvs"
  obtains rvs where "hvSets hvs r = Some rvs" "IsVoteTypeValid t" "set_ok E R (hv_ctx hvs t r) vs" "hv_maj hvs t r = vtMaj23 vs"
  using assms by (auto simp: getVoteSet_def hv_inv_def hv_maj_def IsVoteTypeValid_def split: option.splits if_splits)

lemma set_ok_add:
  assumes "VoteSets.AddVote E (Some vs) (Some v) = Some (vs', added, err)" "set_ok E R ctx vs" "good_bid (vBlockID v)"
  shows "set_ok E (insert v R) ctx vs' \<and> (\<forall>b. vtMaj23 vs = Some b \<longrightarrow> vtMaj23 vs' = Some b)"
proof -
  have a: "VoteSets.addVote E vs (Some v) = Some (vs', added, err)" using assms(1) by (simp add: VoteSets.AddVote_def)
  have reach: "vt_reach E vs" "ctx_of vs = ctx" "stored vs \<subseteq> R" using assms(2) by (simp_all add: set_ok_def)
  show ?thesis
    using vt_reach.add[OF reach(1) assms(3) a] addVote_keeps[OF a vt_reach_inv[OF reach(1)] assms(3)]
      addVote_stored[OF a vt_reach_inv[OF reach(1)] assms(3)] reach
    by (auto simp: set_ok_def)
qed

lemma hv_AddVote_keeps:
  assumes add: "hv_AddVote E hvs v p = Some (hvs', added, err)" and inv: "hv_inv E R hvs" and v: "good_bid (vBlockID v)"
  shows "hv_inv E (insert v R) hvs' \<and> hv_le hvs hvs' \<and> hvRound hvs' = hvRound hvs"
proof -
  have step: "hv_inv E (insert v R) (putVoteSet h (vRound v) (vType v) vs') \<and> hv_le hvs (putVoteSet h (vRound v) (vType v) vs') \<and>
      hvRound (putVoteSet h (vRound v) (vType v) vs') = hvRound hvs"
    if h: "hv_inv E R h" "hv_le hvs h" "hvRound h = hvRound hvs" and get: "getVoteSet h (vRound v) (vType v) = Some (Some vs)"
      and a: "VoteSets.AddVote E (Some vs) (Some v) = Some (vs', x, y)" for h vs vs' x y
  proof -
    obtain rvs where r: "hvSets h (vRound v) = Some rvs" "IsVoteTypeValid (vType v)" "set_ok E R (hv_ctx h (vType v) (vRound v)) vs"
      "hv_maj h (vType v) (vRound v) = vtMaj23 vs" by (rule getVoteSet_Some[OF get h(1)])
    then show ?thesis
      using putVoteSet_keeps[OF h(1) r(1,2), of "insert v R" vs'] set_ok_add[OF a r(3) v] h(2,3) hv_le_trans by auto
  qed
  let ?get = "\<lambda>h. getVoteSet h (vRound v) (vType v)"
  show ?thesis
  proof (cases "IsVoteTypeValid (vType v)")
    case True
    show ?thesis
    proof (cases "?get hvs")
      case (Some o1)
      show ?thesis
      proof (cases o1)
        case (Some vs)
        then obtain vs' e where "VoteSets.AddVote E (Some vs) (Some v) = Some (vs', added, e)" "hvs' = putVoteSet hvs (vRound v) (vType v) vs'"
          using add True \<open>?get hvs = Some o1\<close> by (auto simp: hv_AddVote_def bind_Some)
        then show ?thesis using step[OF inv, of vs vs'] \<open>?get hvs = Some o1\<close> Some by simp
      next
        case None
        show ?thesis
        proof (cases "length (hvCatchup hvs p) < 2")
          case short: True
          obtain h1 vs vs' e where h1: "addRound hvs (vRound v) = Some h1" "?get h1 = Some (Some vs)"
            "VoteSets.AddVote E (Some vs) (Some v) = Some (vs', added, e)"
            "hvs' = putVoteSet (h1\<lparr>hvCatchup := (hvCatchup h1)(p := hvCatchup hvs p @ [vRound v])\<rparr>) (vRound v) (vType v) vs'"
            using add True \<open>?get hvs = Some o1\<close> None short by (auto simp: hv_AddVote_def bind_Some Let_def)
          have "?get (h1\<lparr>hvCatchup := q\<rparr>) = ?get h1" for q by (simp add: getVoteSet_def)
          then show ?thesis using step[OF _ _ _ _ h1(3)] addRound_keeps[OF h1(1) inv] h1(2,4) by simp
        next
          case False
          then have "hvs' = hvs" using add True \<open>?get hvs = Some o1\<close> None by (simp add: hv_AddVote_def)
          then show ?thesis using hv_inv_mono[OF inv, of "insert v R"] by auto
        qed
      qed
    qed (use add True in \<open>simp add: hv_AddVote_def\<close>)
  next
    case False
    then show ?thesis using add hv_inv_mono[OF inv, of "insert v R"] by (auto simp: hv_AddVote_def)
  qed
qed

lemma hv_SetPeerMaj23_keeps:
  assumes "hv_SetPeerMaj23 hvs r t p b = Some (hvs', err)" "hv_inv E R hvs"
  shows "hv_inv E R hvs' \<and> hv_le hvs hvs' \<and> hvRound hvs' = hvRound hvs"
proof (cases "\<exists>vs. getVoteSet hvs r t = Some (Some vs) \<and> IsVoteTypeValid t")
  case True
  then obtain vs where get: "getVoteSet hvs r t = Some (Some vs)" "IsVoteTypeValid t" by blast
  obtain rvs where rvs: "hvSets hvs r = Some rvs" "set_ok E R (hv_ctx hvs t r) vs" "hv_maj hvs t r = vtMaj23 vs"
    by (rule getVoteSet_Some[OF get(1) assms(2)])
  let ?vs = "fst (VoteSets.SetPeerMaj23 vs p b)"
  have reach: "vt_reach E vs" using rvs(2) by (simp add: set_ok_def)
  have "set_ok E R (hv_ctx hvs t r) ?vs" "vtMaj23 ?vs = vtMaj23 vs"
    using vt_reach.peer[OF reach] SetPeerMaj23_keeps[OF vt_reach_inv[OF reach], of p b] SetPeerMaj23_stored[of vs p b] rvs(2)
    by (auto simp: set_ok_def)
  then show ?thesis
    using putVoteSet_keeps[OF assms(2) rvs(1) get(2), of R ?vs] assms(1) get rvs(3)
    by (auto simp: hv_SetPeerMaj23_def split: prod.splits)
next
  case False
  then show ?thesis using assms by (auto simp: hv_SetPeerMaj23_def bind_Some split: if_splits option.splits prod.splits)
qed

end
