(* ===== verification/BlockStores.thy ===== *)
theory BlockStores
  imports Blocks "HOL-Library.Monad_Syntax"
begin

text \<open>
  The block store of \<open>store/store.go\<close>. The database is a map from the textual keys of the code to the stored
  messages, which are kept as the values that \<open>proto.Marshal\<close> encodes; the height filed under a block hash is
  kept as its decimal text. A failing read or write of the database panics and is not modelled. Shown: the key
  families do not overlap, and every block saved in a run is read back, with its commits, at its height and,
  unless a later block has the same hash, by its hash.
\<close>

section \<open>Decimal and hexadecimal text\<close>

definition digit :: "nat \<Rightarrow> char" where
  "digit n = char_of (if n < 10 then 48 + n else 87 + n)"

fun decimal_nat :: "nat \<Rightarrow> string" where
  "decimal_nat n = (if n < 10 then [digit n] else decimal_nat (n div 10) @ [digit (n mod 10)])"

definition decimal :: "int \<Rightarrow> string" where
  "decimal i = (if i < 0 then CHR ''-'' # decimal_nat (nat (- i)) else decimal_nat (nat i))"

definition digit_value :: "char \<Rightarrow> nat" where
  "digit_value c = of_char c - 48"

definition isDigit :: "char \<Rightarrow> bool" where
  "isDigit c \<longleftrightarrow> (48::nat) \<le> of_char c \<and> (of_char c::nat) \<le> 57"

definition parse_nat :: "string \<Rightarrow> nat option" where
  "parse_nat s = (if s = [] \<or> \<not> list_all isDigit s then None else Some (foldl (\<lambda>a c. 10 * a + digit_value c) 0 s))"

text \<open>\<open>strconv.ParseInt(s, 10, 64)\<close> on text as \<open>fmt.Sprintf\<close> writes it; a number out of range is an error.\<close>

definition ParseInt :: "string \<Rightarrow> int option" where
  "ParseInt s =
     (case s of
        [] \<Rightarrow> None
      | c # cs \<Rightarrow>
          let v = (if c = CHR ''-'' then map_option (\<lambda>n. - int n) (parse_nat cs)
                   else if c = CHR ''+'' then map_option int (parse_nat cs) else map_option int (parse_nat s))
          in Option.bind v (\<lambda>n. if in_range 64 n then Some n else None))"

definition hex :: "bytes \<Rightarrow> string" where
  "hex bs = concat (map (\<lambda>b. [digit (unat b div 16), digit (unat b mod 16)]) bs)"

declare decimal_nat.simps [simp del]

section \<open>Keys\<close>

definition calcBlockMetaKey :: "int \<Rightarrow> string" where "calcBlockMetaKey height = ''H:'' @ decimal height"
definition calcBlockPartKey :: "int \<Rightarrow> int \<Rightarrow> string" where
  "calcBlockPartKey height idx = ''P:'' @ decimal height @ '':'' @ decimal idx"
definition calcBlockCommitKey :: "int \<Rightarrow> string" where "calcBlockCommitKey height = ''C:'' @ decimal height"
definition calcSeenCommitKey :: "int \<Rightarrow> string" where "calcSeenCommitKey height = ''SC:'' @ decimal height"
definition calcBlockHashKey :: "bytes \<Rightarrow> string" where "calcBlockHashKey hash = ''BH:'' @ hex hash"
definition blockStoreKey :: string where "blockStoreKey = ''blockStore''"

section \<open>State and operations\<close>

datatype entry = PartEntry Part | MetaEntry BlockMeta | TextEntry string | ReplyEntry Reply | StoreStateEntry int int

record BlockStore =
  bsDB :: "string \<rightharpoonup> entry"
  bsBase :: int
  bsHeight :: int

text \<open>Reading an entry as a message of the wrong kind fails to decode, which panics.\<close>

definition LoadBlockStoreState :: "(string \<rightharpoonup> entry) \<Rightarrow> (int \<times> int) option" where
  "LoadBlockStoreState db =
     (case db blockStoreKey of
        None \<Rightarrow> Some (0, 0)
      | Some (StoreStateEntry b h) \<Rightarrow> Some (if 0 < h \<and> b = 0 then 1 else b, h)
      | Some _ \<Rightarrow> None)"

definition SaveBlockStoreState :: "int \<Rightarrow> int \<Rightarrow> (string \<rightharpoonup> entry) \<Rightarrow> (string \<rightharpoonup> entry)" where
  "SaveBlockStoreState b h db = db(blockStoreKey \<mapsto> StoreStateEntry b h)"

definition NewBlockStore :: "(string \<rightharpoonup> entry) \<Rightarrow> BlockStore option" where
  "NewBlockStore db = do {
     (b, h) \<leftarrow> LoadBlockStoreState db;
     Some \<lparr>bsDB = db, bsBase = b, bsHeight = h\<rparr>
   }"

definition bs_Size :: "BlockStore \<Rightarrow> int" where
  "bs_Size bs = (if bsHeight bs = 0 then 0 else add64 (sub64 (bsHeight bs) (bsBase bs)) 1)"

definition PartFromProto :: "Part \<Rightarrow> Part option" where
  "PartFromProto pb = (if proof_ValidateBasic (partProof pb) \<noteq> None then None else if part_ValidateBasic pb \<noteq> None then None else Some pb)"

definition BlockMetaFromProto :: "env \<Rightarrow> codec \<Rightarrow> BlockMeta \<Rightarrow> BlockMeta option" where
  "BlockMetaFromProto E K pb = do {
     bi \<leftarrow> BlockIDFromProto (bmBlockID pb);
     h \<leftarrow> (case HeaderFromProto (bmHeader pb) of Inl _ \<Rightarrow> None | Inr h \<Rightarrow> Some h);
     let bm = pb\<lparr>bmBlockID := bi, bmHeader := h\<rparr>;
     if bm_ValidateBasic E K bm \<noteq> None then None else Some bm
   }"

text \<open>The outer option of a load is the panic, the inner one the nil result.\<close>

definition LoadBlockPart :: "BlockStore \<Rightarrow> int \<Rightarrow> int \<Rightarrow> Part option option" where
  "LoadBlockPart bs height index =
     (case bsDB bs (calcBlockPartKey height index) of
        None \<Rightarrow> Some None
      | Some (PartEntry pb) \<Rightarrow> map_option Some (PartFromProto pb)
      | Some _ \<Rightarrow> None)"

definition LoadBlockMeta :: "env \<Rightarrow> codec \<Rightarrow> BlockStore \<Rightarrow> int \<Rightarrow> BlockMeta option option" where
  "LoadBlockMeta E K bs height =
     (case bsDB bs (calcBlockMetaKey height) of
        None \<Rightarrow> Some None
      | Some (MetaEntry pb) \<Rightarrow> map_option Some (BlockMetaFromProto E K pb)
      | Some _ \<Rightarrow> None)"

definition loadReply :: "BlockStore \<Rightarrow> string \<Rightarrow> Reply option option" where
  "loadReply bs k =
     (case bsDB bs k of
        None \<Rightarrow> Some None
      | Some (ReplyEntry pbc) \<Rightarrow> (case ReplyFromProto pbc of Inl _ \<Rightarrow> None | Inr r \<Rightarrow> Some (Some r))
      | Some _ \<Rightarrow> None)"

definition LoadBlockReply :: "BlockStore \<Rightarrow> int \<Rightarrow> Reply option option" where
  "LoadBlockReply bs height = loadReply bs (calcBlockCommitKey height)"

definition LoadSeenReply :: "BlockStore \<Rightarrow> int \<Rightarrow> Reply option option" where
  "LoadSeenReply bs height = loadReply bs (calcSeenCommitKey height)"

definition LoadBaseMeta :: "env \<Rightarrow> codec \<Rightarrow> BlockStore \<Rightarrow> BlockMeta option option" where
  "LoadBaseMeta E K bs = (if bsBase bs = 0 then Some None else LoadBlockMeta E K bs (bsBase bs))"

text \<open>The parts in order: nil as soon as one is missing.\<close>

fun loadParts :: "BlockStore \<Rightarrow> int \<Rightarrow> nat list \<Rightarrow> bytes option option" where
  "loadParts bs height [] = Some (Some [])"
| "loadParts bs height (i # is) = do {
     part \<leftarrow> LoadBlockPart bs height (int i);
     case part of
       None \<Rightarrow> Some None
     | Some p \<Rightarrow> do {
         rest \<leftarrow> loadParts bs height is;
         Some (map_option ((@) (partBytes p)) rest)
       }
   }"

definition LoadBlock :: "env \<Rightarrow> codec \<Rightarrow> BlockStore \<Rightarrow> int \<Rightarrow> Block option option" where
  "LoadBlock E K bs height = do {
     blockMeta \<leftarrow> LoadBlockMeta E K bs height;
     case blockMeta of
       None \<Rightarrow> Some None
     | Some bm \<Rightarrow> do {
         buf \<leftarrow> loadParts bs height [0..<nat (psTotal (bidParts (bmBlockID bm)))];
         case buf of
           None \<Rightarrow> Some None
         | Some buf \<Rightarrow> do {
             pbb \<leftarrow> k_blockDec K buf;
             r \<leftarrow> BlockFromProto E pbb;
             case r of Inl _ \<Rightarrow> None | Inr block \<Rightarrow> Some (Some block)
           }
       }
   }"

definition LoadBlockByHash :: "env \<Rightarrow> codec \<Rightarrow> BlockStore \<Rightarrow> bytes \<Rightarrow> Block option option" where
  "LoadBlockByHash E K bs hash =
     (case bsDB bs (calcBlockHashKey hash) of
        None \<Rightarrow> Some None
      | Some (TextEntry s) \<Rightarrow> (case ParseInt s of None \<Rightarrow> None | Some height \<Rightarrow> LoadBlock E K bs height)
      | Some _ \<Rightarrow> None)"

fun saveParts :: "int \<Rightarrow> nat \<Rightarrow> Part option list \<Rightarrow> (string \<rightharpoonup> entry) \<Rightarrow> (string \<rightharpoonup> entry) option" where
  "saveParts height i [] db = Some db"
| "saveParts height i (p # ps) db = do {
     part \<leftarrow> p;
     saveParts height (Suc i) ps (db(calcBlockPartKey height (int i) \<mapsto> PartEntry part))
   }"

text \<open>\<open>GetPart\<close> panics beyond the slice of parts, which has \<open>Total\<close> elements.\<close>

definition SaveBlock :: "env \<Rightarrow> codec \<Rightarrow> BlockStore \<Rightarrow> Block option \<Rightarrow> PartSet option \<Rightarrow> Reply \<Rightarrow> BlockStore option" where
  "SaveBlock E K bs nb blockParts seenCommit = do {
     block \<leftarrow> nb;
     let height = hHeight (bHeader block);
     (hash, _) \<leftarrow> block_Hash E K nb;
     if 0 < bsBase bs \<and> height \<noteq> add64 (bsHeight bs) 1 then None
     else do {
       parts \<leftarrow> blockParts;
       if \<not> ps_IsComplete parts then None
       else do {
         plist \<leftarrow> those (map (\<lambda>i. GetPart parts (int i)) [0..<nat (setTotal parts)]);
         db1 \<leftarrow> saveParts height 0 plist (bsDB bs);
         blockMeta \<leftarrow> NewBlockMeta E K block parts;
         lastReply \<leftarrow> bLastReply block;
         let db2 = db1(calcBlockMetaKey height \<mapsto> MetaEntry blockMeta, calcBlockHashKey hash \<mapsto> TextEntry (decimal height),
               calcBlockCommitKey (sub64 height 1) \<mapsto> ReplyEntry lastReply, calcSeenCommitKey height \<mapsto> ReplyEntry seenCommit);
         let newBase = (if bsBase bs = 0 then height else bsBase bs);
         Some \<lparr>bsDB = SaveBlockStoreState newBase height db2, bsBase = newBase, bsHeight = height\<rparr>
       }
     }
   }"

definition SaveSeenCommit :: "BlockStore \<Rightarrow> int \<Rightarrow> Reply \<Rightarrow> BlockStore" where
  "SaveSeenCommit bs height seenCommit = bs\<lparr>bsDB := (bsDB bs)(calcSeenCommitKey height \<mapsto> ReplyEntry seenCommit)\<rparr>"


section \<open>Keys are unique\<close>

lemma digit_facts: "n < 10 \<Longrightarrow> isDigit (digit n)" "n < 10 \<Longrightarrow> digit_value (digit n) = n" "n < 16 \<Longrightarrow> of_char (digit n) = (if n < 10 then 48 + n else 87 + n)"
  by (simp_all add: isDigit_def digit_value_def digit_def)

lemma decimal_nat_value:
  "decimal_nat n \<noteq> [] \<and> list_all isDigit (decimal_nat n) \<and> foldl (\<lambda>a c. 10 * a + digit_value c) 0 (decimal_nat n) = n"
proof (induction n rule: decimal_nat.induct)
  case (1 n)
  then show ?case by (cases "n < 10") (simp_all add: decimal_nat.simps[of n] digit_facts)
qed

lemma parse_decimal_nat: "parse_nat (decimal_nat n) = Some n"
  using decimal_nat_value[of n] by (simp add: parse_nat_def)

lemma decimal_nat_head: "\<exists>c cs. decimal_nat n = c # cs \<and> isDigit c"
  using decimal_nat_value[of n] by (cases "decimal_nat n") auto

lemma sign_not_digit: "\<not> isDigit CHR ''-''" "\<not> isDigit CHR ''+''" "\<not> isDigit CHR '':''"
  by (simp_all add: isDigit_def)

lemma ParseInt_decimal: "in_range 64 i \<Longrightarrow> ParseInt (decimal i) = Some i"
proof (cases "i < 0")
  case True
  then show "in_range 64 i \<Longrightarrow> ?thesis" by (simp add: decimal_def ParseInt_def parse_decimal_nat Let_def)
next
  case False
  obtain c cs where c: "decimal_nat (nat i) = c # cs" "isDigit c" using decimal_nat_head by blast
  moreover have "c \<noteq> CHR ''-''" "c \<noteq> CHR ''+''" using c(2) sign_not_digit by auto
  ultimately show "in_range 64 i \<Longrightarrow> ?thesis"
    using False parse_decimal_nat[of "nat i"] by (simp add: decimal_def ParseInt_def Let_def)
qed

lemma decimal_inj: "decimal i = decimal j \<longleftrightarrow> i = j"
proof
  assume eq: "decimal i = decimal j"
  have head: "(hd (decimal k) = CHR ''-'') = (k < 0)" for k
    using decimal_nat_head[of "nat k"] sign_not_digit(1) by (auto simp: decimal_def)
  have "(i < 0) = (j < 0)" using eq head[of i] head[of j] by simp
  then have "nat \<bar>i\<bar> = nat \<bar>j\<bar>"
    using eq parse_decimal_nat by (auto simp: decimal_def abs_if split: if_splits) (metis option.inject)+
  then show "i = j" using \<open>(i < 0) = (j < 0)\<close> by linarith
qed simp

lemma decimal_colon: "CHR '':'' \<notin> set (decimal i)"
  using decimal_nat_value[of "nat i"] decimal_nat_value[of "nat (- i)"] sign_not_digit(3) by (auto simp: decimal_def list_all_iff)

lemma append_colon_inj: "xs @ c # ys = xs' @ c # ys' \<Longrightarrow> c \<notin> set xs \<Longrightarrow> c \<notin> set xs' \<Longrightarrow> xs = xs' \<and> ys = ys'"
proof (induction xs arbitrary: xs')
  case Nil
  then show ?case by (cases xs') auto
next
  case (Cons x xs)
  then show ?case by (cases xs') auto
qed

lemma byte_split_inj: "unat (a::byte) div 16 = unat b div 16 \<Longrightarrow> unat a mod 16 = unat b mod 16 \<Longrightarrow> a = b"
  by (metis div_mult_mod_eq word_unat_eq_iff)

lemma digit_inj: "m < 16 \<Longrightarrow> n < 16 \<Longrightarrow> digit m = digit n \<longleftrightarrow> m = n"
proof -
  assume "m < 16" "n < 16"
  then have "(if m < 10 then 48 + m else 87 + m) = (if n < 10 then 48 + n else 87 + n)" if "digit m = digit n"
    using digit_facts(3)[of m] digit_facts(3)[of n] that by metis
  then show ?thesis using \<open>m < 16\<close> \<open>n < 16\<close> by (force split: if_splits)
qed

lemma hex_inj: "hex a = hex b \<longleftrightarrow> a = b"
proof
  show "hex a = hex b \<Longrightarrow> a = b"
  proof (induction a arbitrary: b)
    case Nil
    then show ?case by (cases b) (auto simp: hex_def)
  next
    case (Cons x xs)
    obtain y ys where b: "b = y # ys" using Cons.prems by (cases b) (auto simp: hex_def)
    have "unat z div 16 < 16" for z :: byte using unsigned_less[of z, where 'a = nat] by simp
    then show ?case using Cons b by (auto simp: hex_def digit_inj intro: byte_split_inj)
  qed
qed simp

lemmas key_defs = calcBlockMetaKey_def calcBlockPartKey_def calcBlockCommitKey_def calcSeenCommitKey_def calcBlockHashKey_def blockStoreKey_def

lemma key_inj [simp]:
  "calcBlockMetaKey h = calcBlockMetaKey h' \<longleftrightarrow> h = h'" "calcBlockCommitKey h = calcBlockCommitKey h' \<longleftrightarrow> h = h'"
  "calcSeenCommitKey h = calcSeenCommitKey h' \<longleftrightarrow> h = h'" "calcBlockHashKey x = calcBlockHashKey x' \<longleftrightarrow> x = x'"
  "calcBlockPartKey h i = calcBlockPartKey h' i' \<longleftrightarrow> h = h' \<and> i = i'"
  using append_colon_inj[of "decimal h" "CHR '':''" "decimal i" "decimal h'" "decimal i'"] decimal_colon
  by (auto simp: key_defs decimal_inj hex_inj)

lemma key_disjoint [simp]:
  "calcBlockMetaKey h \<noteq> calcBlockPartKey h' i" "calcBlockMetaKey h \<noteq> calcBlockCommitKey h'" "calcBlockMetaKey h \<noteq> calcSeenCommitKey h'"
  "calcBlockMetaKey h \<noteq> calcBlockHashKey x" "calcBlockMetaKey h \<noteq> blockStoreKey"
  "calcBlockPartKey h i \<noteq> calcBlockCommitKey h'" "calcBlockPartKey h i \<noteq> calcSeenCommitKey h'" "calcBlockPartKey h i \<noteq> calcBlockHashKey x"
  "calcBlockPartKey h i \<noteq> blockStoreKey" "calcBlockCommitKey h \<noteq> calcSeenCommitKey h'" "calcBlockCommitKey h \<noteq> calcBlockHashKey x"
  "calcBlockCommitKey h \<noteq> blockStoreKey" "calcSeenCommitKey h \<noteq> calcBlockHashKey x" "calcSeenCommitKey h \<noteq> blockStoreKey"
  "calcBlockHashKey x \<noteq> blockStoreKey"
  by (simp_all add: key_defs)

lemmas key_disjoint' [simp] = key_disjoint[symmetric]


section \<open>Saving and loading one block\<close>

text \<open>What a node has checked before it saves a block: the set is complete with well-formed parts, its bytes decode to the
  block, and the commit is well formed.\<close>

definition saveable :: "env \<Rightarrow> codec \<Rightarrow> Block \<Rightarrow> PartSet \<Rightarrow> Reply \<Rightarrow> bool" where
  "saveable E K block ps seen \<longleftrightarrow>
     fresh_block block \<and> in_range 64 (hHeight (bHeader block)) \<and>
     ps_IsComplete ps \<and> length (setParts ps) = nat (setTotal ps) \<and> ValidateHash (setHash ps) \<and>
     (\<forall>p\<in>set (setParts ps). \<exists>q. p = Some q \<and> part_ValidateBasic q = None) \<and>
     Option.bind (k_blockDec K (concat (map (partBytes \<circ> the) (setParts ps)))) (BlockFromProto E) = Some (Inr block) \<and>
     ReplyFromProto seen = Inr seen"

definition filed :: "env \<Rightarrow> codec \<Rightarrow> BlockStore \<Rightarrow> Block \<Rightarrow> Reply \<Rightarrow> bool" where
  "filed E K bs block seen \<longleftrightarrow>
     LoadBlock E K bs (hHeight (bHeader block)) = Some (Some block) \<and>
     LoadBlockReply bs (hHeight (bHeader block) - 1) = Some (bLastReply block) \<and>
     LoadSeenReply bs (hHeight (bHeader block)) = Some (Some seen)"

lemma ReplyFromProto_idem: "ReplyFromProto r = Inr r' \<Longrightarrow> ReplyFromProto r' = Inr r'"
  by (auto simp: ReplyFromProto_def NewReply_def BlockIDFromProto_eq Let_def split: option.splits if_splits)

lemma BlockFromProto_facts:
  assumes "BlockFromProto E bp = Some (Inr b)"
  shows "block_ValidateBasic E (Some b) = Some None" "HeaderFromProto (bHeader b) = Inr (bHeader b)"
    "\<exists>r. bLastReply b = Some r \<and> ReplyFromProto r = Inr r" "0 < hHeight (bHeader b)"
proof -
  obtain h lr where h: "HeaderFromProto (bHeader bp) = Inr h" "bHeader b = h" "bLastReply b = lr"
    "lr = None \<or> (\<exists>r r'. lr = Some r' \<and> ReplyFromProto r = Inr r')" and v: "block_ValidateBasic E (Some b) = Some None"
    using assms by (auto simp: BlockFromProto_def Let_def split: sum.splits option.splits) metis
  show "block_ValidateBasic E (Some b) = Some None" by (rule v)
  show "HeaderFromProto (bHeader b) = Inr (bHeader b)" "0 < hHeight (bHeader b)"
    using h(1,2) by (auto simp: HeaderFromProto_def BlockIDFromProto_eq header_ValidateBasic_def Let_def split: option.splits if_splits)
  show "\<exists>r. bLastReply b = Some r \<and> ReplyFromProto r = Inr r"
    using h(3,4) v ReplyFromProto_idem by (auto simp: block_ValidateBasic_def split: option.splits)
qed

lemma saveParts_spec:
  "saveParts h i ps db = Some db' \<Longrightarrow>
   (\<forall>j<length ps. db' (calcBlockPartKey h (int (i + j))) = Some (PartEntry (the (ps ! j)))) \<and>
   (\<forall>k. (\<forall>j\<ge>i. k \<noteq> calcBlockPartKey h (int j)) \<longrightarrow> db' k = db k)"
proof (induction h i ps db rule: saveParts.induct)
  case (2 h i p ps db)
  obtain q where q: "p = Some q" "saveParts h (Suc i) ps (db(calcBlockPartKey h (int i) \<mapsto> PartEntry q)) = Some db'"
    using 2(2) by (auto simp: bind_Some)
  note IH = 2(1)[OF q]
  have "db' (calcBlockPartKey h (int (i + j))) = Some (PartEntry (the ((p # ps) ! j)))" if "j < length (p # ps)" for j
    using IH that q(1) by (cases j) auto
  moreover have "db' k = db k" if "\<forall>j\<ge>i. k \<noteq> calcBlockPartKey h (int j)" for k
    using IH that by (auto simp: Suc_le_eq)
  ultimately show ?case by blast
qed simp

lemma loadParts_all:
  "\<forall>i\<in>set is. LoadBlockPart bs h (int i) = Some (Some (f i)) \<Longrightarrow> loadParts bs h is = Some (Some (concat (map (\<lambda>i. partBytes (f i)) is)))"
  by (induction "is") auto

lemma SaveBlock_db:
  assumes save: "SaveBlock E K bs (Some block) (Some ps) seen = Some bs'" and H: "\<And>bz. length (e_Sum E bz) = 32"
    and ok: "saveable E K block ps seen" and bsr: "in_range 64 (bsHeight bs)"
  obtains r where "bsHeight bs' = hHeight (bHeader block)" "0 < hHeight (bHeader block)" "0 < bsBase bs \<Longrightarrow> hHeight (bHeader block) = bsHeight bs + 1"
    "bsBase bs' = (if bsBase bs = 0 then hHeight (bHeader block) else bsBase bs)" "bLastReply block = Some r"
    "\<forall>j<length (setParts ps). bsDB bs' (calcBlockPartKey (hHeight (bHeader block)) (int j)) = Some (PartEntry (the (setParts ps ! j)))"
    "bsDB bs' (calcBlockMetaKey (hHeight (bHeader block))) =
       Some (MetaEntry \<lparr>bmBlockID = \<lparr>bidHash = header_Hash E K (bHeader block), bidParts = ps_Header (Some ps)\<rparr>, bmBlockSize = block_Size K block,
         bmHeader = bHeader block, bmNumTxs = int (length (dTxs (bData block)))\<rparr>)"
    "bsDB bs' (calcBlockHashKey (header_Hash E K (bHeader block))) = Some (TextEntry (decimal (hHeight (bHeader block))))"
    "bsDB bs' (calcBlockCommitKey (hHeight (bHeader block) - 1)) = Some (ReplyEntry r)"
    "bsDB bs' (calcSeenCommitKey (hHeight (bHeader block))) = Some (ReplyEntry seen)"
    "\<And>k. (\<forall>j. k \<noteq> calcBlockPartKey (hHeight (bHeader block)) (int j)) \<Longrightarrow> k \<noteq> calcBlockMetaKey (hHeight (bHeader block)) \<Longrightarrow>
       k \<noteq> calcBlockHashKey (header_Hash E K (bHeader block)) \<Longrightarrow> k \<noteq> calcBlockCommitKey (hHeight (bHeader block) - 1) \<Longrightarrow>
       k \<noteq> calcSeenCommitKey (hHeight (bHeader block)) \<Longrightarrow> k \<noteq> blockStoreKey \<Longrightarrow> bsDB bs' k = bsDB bs k"
proof -
  let ?h = "hHeight (bHeader block)"
  obtain pb where "BlockFromProto E pb = Some (Inr block)" using ok by (auto simp: saveable_def bind_Some)
  note facts = BlockFromProto_facts[OF this]
  have hash: "block_Hash E K (Some block) = Some (header_Hash E K (bHeader block), Some block)"
    using valid_block_Hash[OF H facts(1)] ok by (simp add: saveable_def)
  have range: "in_range 64 ?h" and len: "length (setParts ps) = nat (setTotal ps)" using ok by (simp_all add: saveable_def)
  then have sub: "sub64 ?h 1 = ?h - 1" using facts(4) by (simp add: sub64_def wrap_id in_range_def)
  have "those (map (\<lambda>i. GetPart ps (int i)) [0..<nat (setTotal ps)]) = Some (map (\<lambda>i. setParts ps ! i) [0..<nat (setTotal ps)])"
    by (rule those_map_Some) (use len in \<open>auto simp: GetPart_def slice_get_eq_Some\<close>)
  then have those: "those (map (\<lambda>i. GetPart ps (int i)) [0..<nat (setTotal ps)]) = Some (setParts ps)"
    using len map_nth[of "setParts ps"] by simp
  obtain r where r: "bLastReply block = Some r" using facts(3) by blast
  obtain db1 where db1: "saveParts ?h 0 (setParts ps) (bsDB bs) = Some db1" and g: "\<not> (0 < bsBase bs \<and> ?h \<noteq> add64 (bsHeight bs) 1)"
    and bs': "bs' = \<lparr>bsDB = SaveBlockStoreState (if bsBase bs = 0 then ?h else bsBase bs) ?h
        (db1(calcBlockMetaKey ?h \<mapsto> MetaEntry \<lparr>bmBlockID = \<lparr>bidHash = header_Hash E K (bHeader block), bidParts = ps_Header (Some ps)\<rparr>, bmBlockSize = block_Size K block,
           bmHeader = bHeader block, bmNumTxs = int (length (dTxs (bData block)))\<rparr>, calcBlockHashKey (header_Hash E K (bHeader block)) \<mapsto> TextEntry (decimal ?h),
           calcBlockCommitKey (?h - 1) \<mapsto> ReplyEntry r, calcSeenCommitKey ?h \<mapsto> ReplyEntry seen)),
        bsBase = (if bsBase bs = 0 then ?h else bsBase bs), bsHeight = ?h\<rparr>"
    using save hash those r sub ok
    by (auto simp: SaveBlock_def bind_Some Let_def NewBlockMeta_def saveable_def split: if_splits)
  have next_h: "?h = bsHeight bs + 1" if "0 < bsBase bs"
  proof -
    have h: "?h = wrap 64 (bsHeight bs + 1)" using g that by (simp add: add64_def)
    have "bsHeight bs \<noteq> 2 ^ 63 - 1" using h facts(4) by (auto simp: wrap_def)
    then show ?thesis using h bsr wrap_id[of 64 "bsHeight bs + 1"] by (simp add: in_range_def)
  qed
  show thesis
    by (rule that[of r]) (use saveParts_spec[OF db1] bs' r facts(4) next_h in \<open>auto simp: SaveBlockStoreState_def\<close>)
qed


lemma LoadBlock_saved:
  assumes ok: "saveable E K block ps seen" and h: "h = hHeight (bHeader block)"
    and parts: "\<forall>j<length (setParts ps). bsDB bs (calcBlockPartKey h (int j)) = Some (PartEntry (the (setParts ps ! j)))"
    and meta: "bsDB bs (calcBlockMetaKey h) =
       Some (MetaEntry \<lparr>bmBlockID = \<lparr>bidHash = header_Hash E K (bHeader block), bidParts = ps_Header (Some ps)\<rparr>, bmBlockSize = z,
         bmHeader = bHeader block, bmNumTxs = n\<rparr>)" and H: "\<And>bz. length (e_Sum E bz) = 32"
  shows "LoadBlock E K bs h = Some (Some block)"
proof -
  obtain pb where pb: "k_blockDec K (concat (map (partBytes \<circ> the) (setParts ps))) = Some pb" "BlockFromProto E pb = Some (Inr block)"
    using ok by (auto simp: saveable_def bind_Some)
  note facts = BlockFromProto_facts[OF pb(2)]
  have len: "length (setParts ps) = nat (setTotal ps)" "ValidateHash (setHash ps)" using ok by (simp_all add: saveable_def)
  have "length (header_Hash E K (bHeader block)) \<in> {0, 32}"
    using hash32.length_tree[of "e_Sum E"] H by (auto simp: header_Hash_def hash32_def split: option.splits)
  then have bid: "bid_ValidateBasic \<lparr>bidHash = header_Hash E K (bHeader block), bidParts = ps_Header (Some ps)\<rparr>"
    using len(2) by (auto simp: bid_ValidateBasic_def ps_Header_def psh_ValidateBasic_def ValidateHash_def srhash_Size_def)
  have p: "\<exists>q. setParts ps ! i = Some q \<and> part_ValidateBasic q = None" if "i < length (setParts ps)" for i
    using ok that by (auto simp: saveable_def)
  have "LoadBlockPart bs h (int i) = Some (Some (the (setParts ps ! i)))" if "i < length (setParts ps)" for i
    using p[OF that] parts that by (auto simp: LoadBlockPart_def PartFromProto_def part_ValidateBasic_def split: if_splits)
  then have "loadParts bs h [0..<length (setParts ps)] = Some (Some (concat (map (\<lambda>i. partBytes (the (setParts ps ! i))) [0..<length (setParts ps)])))"
    by (intro loadParts_all) simp
  also have "map (\<lambda>i. partBytes (the (setParts ps ! i))) [0..<length (setParts ps)] = map (partBytes \<circ> the) (setParts ps)"
    by (rule nth_equalityI) auto
  finally have "loadParts bs h [0..<nat (setTotal ps)] = Some (Some (concat (map (partBytes \<circ> the) (setParts ps))))" using len by simp
  moreover have "LoadBlockMeta E K bs h = Some (Some \<lparr>bmBlockID = \<lparr>bidHash = header_Hash E K (bHeader block), bidParts = ps_Header (Some ps)\<rparr>, bmBlockSize = z,
         bmHeader = bHeader block, bmNumTxs = n\<rparr>)"
    using meta bid facts(2) by (simp add: LoadBlockMeta_def BlockMetaFromProto_def BlockIDFromProto_eq bm_ValidateBasic_def Let_def)
  ultimately show ?thesis using pb by (simp add: LoadBlock_def ps_Header_def)
qed

lemma SaveBlock_filed:
  assumes save: "SaveBlock E K bs (Some block) (Some ps) seen = Some bs'" and H: "\<And>bz. length (e_Sum E bz) = 32"
    and ok: "saveable E K block ps seen" and r: "in_range 64 (bsHeight bs)"
  shows "filed E K bs' block seen" "LoadBlockByHash E K bs' (header_Hash E K (bHeader block)) = Some (Some block)"
proof -
  obtain pb where pb: "BlockFromProto E pb = Some (Inr block)" using ok by (auto simp: saveable_def bind_Some)
  note facts = BlockFromProto_facts[OF pb]
  have "filed E K bs' block seen \<and> LoadBlockByHash E K bs' (header_Hash E K (bHeader block)) = Some (Some block)"
  proof (rule SaveBlock_db[OF assms], goal_cases)
    case (1 r)
    have "LoadBlock E K bs' (hHeight (bHeader block)) = Some (Some block)" by (rule LoadBlock_saved[OF ok refl 1(6,7) H])
    then show ?case
      using 1(5,8-10) facts(3) ok ParseInt_decimal[of "hHeight (bHeader block)"]
      by (auto simp: filed_def LoadBlockReply_def LoadSeenReply_def loadReply_def LoadBlockByHash_def saveable_def)
  qed
  then show "filed E K bs' block seen" "LoadBlockByHash E K bs' (header_Hash E K (bHeader block)) = Some (Some block)" by simp_all
qed

lemma loadParts_cong: "\<forall>i. LoadBlockPart bs' h i = LoadBlockPart bs h i \<Longrightarrow> loadParts bs' h is = loadParts bs h is"
  by (induction "is") simp_all

lemma SaveBlock_other:
  assumes save: "SaveBlock E K bs (Some block) (Some ps) seen = Some bs'" and H: "\<And>bz. length (e_Sum E bz) = 32"
    and ok: "saveable E K block ps seen" and r: "in_range 64 (bsHeight bs)" and h: "h \<noteq> hHeight (bHeader block)"
  shows "LoadBlock E K bs' h = LoadBlock E K bs h" "LoadBlockReply bs' (h - 1) = LoadBlockReply bs (h - 1)"
    "LoadSeenReply bs' h = LoadSeenReply bs h"
    "x \<noteq> header_Hash E K (bHeader block) \<Longrightarrow> bsDB bs' (calcBlockHashKey x) = bsDB bs (calcBlockHashKey x)"
proof -
  have key: "bsDB bs' (calcBlockMetaKey h) = bsDB bs (calcBlockMetaKey h) \<and> (\<forall>i. bsDB bs' (calcBlockPartKey h i) = bsDB bs (calcBlockPartKey h i)) \<and>
    bsDB bs' (calcBlockCommitKey (h - 1)) = bsDB bs (calcBlockCommitKey (h - 1)) \<and> bsDB bs' (calcSeenCommitKey h) = bsDB bs (calcSeenCommitKey h) \<and>
    (\<forall>x. x \<noteq> header_Hash E K (bHeader block) \<longrightarrow> bsDB bs' (calcBlockHashKey x) = bsDB bs (calcBlockHashKey x))"
    by (rule SaveBlock_db[OF save H ok r]) (use h in simp)
  have "loadParts bs' h is = loadParts bs h is" for "is"
    using loadParts_cong[of bs' h bs] key by (simp add: LoadBlockPart_def)
  then show "LoadBlock E K bs' h = LoadBlock E K bs h" "LoadBlockReply bs' (h - 1) = LoadBlockReply bs (h - 1)"
    "LoadSeenReply bs' h = LoadSeenReply bs h"
    "x \<noteq> header_Hash E K (bHeader block) \<Longrightarrow> bsDB bs' (calcBlockHashKey x) = bsDB bs (calcBlockHashKey x)"
    using key by (simp_all add: LoadBlock_def LoadBlockMeta_def LoadBlockReply_def LoadSeenReply_def loadReply_def cong: option.case_cong)
qed

section \<open>Runs of a block store\<close>

inductive bs_run :: "env \<Rightarrow> codec \<Rightarrow> BlockStore \<Rightarrow> (Block \<times> Reply) list \<Rightarrow> bool" for E K where
  start: "NewBlockStore Map.empty = Some bs \<Longrightarrow> bs_run E K bs []"
| save: "bs_run E K bs saved \<Longrightarrow> saveable E K block ps seen \<Longrightarrow> SaveBlock E K bs (Some block) (Some ps) seen = Some bs' \<Longrightarrow>
    bs_run E K bs' ((block, seen) # saved)"

abbreviation height_of :: "Block \<Rightarrow> int" where "height_of b \<equiv> hHeight (bHeader b)"

definition bs_inv :: "env \<Rightarrow> codec \<Rightarrow> BlockStore \<Rightarrow> (Block \<times> Reply) list \<Rightarrow> bool" where
  "bs_inv E K bs saved \<longleftrightarrow> in_range 64 (bsHeight bs) \<and> (saved = [] \<longrightarrow> bsBase bs = 0 \<and> bsHeight bs = 0) \<and>
     (saved \<noteq> [] \<longrightarrow> 0 < bsBase bs \<and> map (\<lambda>(b, s). height_of b) saved = rev [bsBase bs..bsHeight bs]) \<and>
     (\<forall>(b, s)\<in>set saved. filed E K bs b s \<and>
        (bsDB bs (calcBlockHashKey (header_Hash E K (bHeader b))) = Some (TextEntry (decimal (height_of b))) \<or>
         (\<exists>(b', s')\<in>set saved. height_of b' \<noteq> height_of b \<and> header_Hash E K (bHeader b') = header_Hash E K (bHeader b))))"

lemma bs_inv_height: "bs_inv E K bs saved \<Longrightarrow> (b, s) \<in> set saved \<Longrightarrow> bsBase bs \<le> height_of b \<and> height_of b \<le> bsHeight bs"
proof -
  assume inv: "bs_inv E K bs saved" and "(b, s) \<in> set saved"
  then have "height_of b \<in> set (map (\<lambda>(b, s). height_of b) saved)" by force
  moreover have "map (\<lambda>(b, s). height_of b) saved = rev [bsBase bs..bsHeight bs]"
    using inv \<open>(b, s) \<in> set saved\<close> by (auto simp: bs_inv_def)
  ultimately show ?thesis by simp
qed

lemma bs_inv_save:
  assumes inv: "bs_inv E K bs saved" and ok: "saveable E K block ps seen"
    and save: "SaveBlock E K bs (Some block) (Some ps) seen = Some bs'" and H: "\<And>bz. length (e_Sum E bz) = 32"
  shows "bs_inv E K bs' ((block, seen) # saved)"
proof -
  have r: "in_range 64 (bsHeight bs)" using inv by (simp add: bs_inv_def)
  have h: "bsHeight bs' = height_of block \<and> 0 < height_of block \<and> (0 < bsBase bs \<longrightarrow> height_of block = bsHeight bs + 1) \<and>
      bsBase bs' = (if bsBase bs = 0 then height_of block else bsBase bs)"
    by (rule SaveBlock_db[OF save H ok r]) auto
  have base: "saved \<noteq> [] \<Longrightarrow> 0 < bsBase bs" "saved = [] \<Longrightarrow> bsBase bs = 0" using inv by (simp_all add: bs_inv_def)
  have "map (\<lambda>(b, s). height_of b) ((block, seen) # saved) = rev [bsBase bs'..bsHeight bs']"
  proof (cases "saved = []")
    case True
    then show ?thesis using h base by simp
  next
    case False
    obtain b s where b: "hd saved = (b, s)" "(b, s) \<in> set saved" using False by (metis list.set_sel(1) surj_pair)
    have "bsBase bs \<le> bsHeight bs" using bs_inv_height[OF inv b(2)] by simp
    then have "[bsBase bs..bsHeight bs + 1] = [bsBase bs..bsHeight bs] @ [bsHeight bs + 1]" by (simp add: upto_rec2)
    moreover have "map (\<lambda>(b, s). height_of b) saved = rev [bsBase bs..bsHeight bs]" using inv False by (simp add: bs_inv_def)
    ultimately show ?thesis using h base False by simp
  qed
  moreover have "filed E K bs' b s \<and> (bsDB bs' (calcBlockHashKey (header_Hash E K (bHeader b))) = Some (TextEntry (decimal (height_of b))) \<or>
         (\<exists>(b', s')\<in>set ((block, seen) # saved). height_of b' \<noteq> height_of b \<and> header_Hash E K (bHeader b') = header_Hash E K (bHeader b)))"
    if "(b, s) \<in> set saved" for b s
  proof -
    have old: "filed E K bs b s" "bsDB bs (calcBlockHashKey (header_Hash E K (bHeader b))) = Some (TextEntry (decimal (height_of b))) \<or>
         (\<exists>(b', s')\<in>set saved. height_of b' \<noteq> height_of b \<and> header_Hash E K (bHeader b') = header_Hash E K (bHeader b))"
      using inv that by (auto simp: bs_inv_def)
    have ne: "height_of b \<noteq> height_of block" using bs_inv_height[OF inv that] h base that by (cases "saved = []") auto
    note other = SaveBlock_other[OF save H ok r ne]
    show ?thesis
      by (cases "header_Hash E K (bHeader b) = header_Hash E K (bHeader block)") (use old other ne in \<open>auto simp: filed_def\<close>)
  qed
  moreover have "bsDB bs' (calcBlockHashKey (header_Hash E K (bHeader block))) = Some (TextEntry (decimal (height_of block)))"
    by (rule SaveBlock_db[OF save H ok r])
  moreover have "in_range 64 (height_of block)" using ok by (simp add: saveable_def)
  ultimately show ?thesis
    using h SaveBlock_filed(1)[OF save H ok r] base by (auto simp: bs_inv_def)
qed

lemma bs_run_inv: "bs_run E K bs saved \<Longrightarrow> (\<And>bz. length (e_Sum E bz) = 32) \<Longrightarrow> bs_inv E K bs saved"
proof (induction rule: bs_run.induct)
  case (start bs)
  then show ?case by (auto simp: NewBlockStore_def LoadBlockStoreState_def bs_inv_def in_range_def)
next
  case (save bs saved block ps seen bs')
  then show ?case using bs_inv_save by blast
qed

text \<open>Property C2: over every run that starts from an empty database and saves blocks, the store holds the heights from its
  base to its height, one block each, and every saved block is read back: by its height, with the commit of the block
  before it and with the commit seen for it, and also by its hash, unless a saved block of another height has the same hash.\<close>

theorem saved_blocks_load_back:
  assumes "bs_run E K bs saved" and "\<forall>bz. length (e_Sum E bz) = 32" and "saved \<noteq> []"
  shows "map (\<lambda>(b, s). hHeight (bHeader b)) saved = rev [bsBase bs..bsHeight bs] \<and> bs_Size bs = int (length saved) \<and>
    (\<forall>(b, s)\<in>set saved. LoadBlock E K bs (hHeight (bHeader b)) = Some (Some b) \<and>
       LoadBlockReply bs (hHeight (bHeader b) - 1) = Some (bLastReply b) \<and> LoadSeenReply bs (hHeight (bHeader b)) = Some (Some s) \<and>
       (LoadBlockByHash E K bs (header_Hash E K (bHeader b)) = Some (Some b) \<or>
        (\<exists>(b', s')\<in>set saved. hHeight (bHeader b') \<noteq> hHeight (bHeader b) \<and> header_Hash E K (bHeader b') = header_Hash E K (bHeader b))))"
proof -
  have inv: "bs_inv E K bs saved" using bs_run_inv[OF assms(1)] assms(2) by blast
  then have m: "map (\<lambda>(b, s). height_of b) saved = rev [bsBase bs..bsHeight bs]" "0 < bsBase bs" "in_range 64 (bsHeight bs)"
    using assms(3) by (simp_all add: bs_inv_def)
  have "length saved = nat (bsHeight bs - bsBase bs + 1)" using arg_cong[OF m(1), of length] by simp
  moreover have "0 < length saved" using assms(3) by simp
  ultimately have "bs_Size bs = int (length saved)"
    using m(2,3) by (simp add: bs_Size_def sub64_small add64_small in_range_def)
  moreover have "LoadBlockByHash E K bs x = LoadBlock E K bs (height_of b)"
    if "(b, s) \<in> set saved" "bsDB bs (calcBlockHashKey x) = Some (TextEntry (decimal (height_of b)))" for x b s
    using that bs_inv_height[OF inv that(1)] m(2,3) ParseInt_decimal[of "height_of b"] by (simp add: LoadBlockByHash_def in_range_def)
  ultimately show ?thesis using inv m(1) unfolding bs_inv_def filed_def by fastforce
qed


definition store_codec :: codec where
  "store_codec = sample_codec\<lparr>k_blockDec := (\<lambda>b. if b = [3] then Some sample_block else None)\<rparr>"

definition store_parts :: PartSet where
  "store_parts = \<lparr>setTotal = 1, setHash = leafHash (e_Sum sample_env) [3],
     setParts = [Some \<lparr>partIndex = 0, partBytes = [3], partProof = \<lparr>Total = 1, Index = 0, LeafHash = leafHash (e_Sum sample_env) [3], Aunts = []\<rparr>\<rparr>],
     setBitArray = NewBitArray 1, setCount = 1, setByteSize = 1\<rparr>"

definition store_reply :: Reply where "store_reply = NewReply 0 0 zero_bid []"

lemma sample_saveable: "saveable sample_env store_codec sample_block store_parts store_reply"
proof -
  have "in_range 64 (hHeight (bHeader sample_block))" "ps_IsComplete store_parts" "length (setParts store_parts) = nat (setTotal store_parts)"
    "ValidateHash (setHash store_parts)" "ReplyFromProto store_reply = Inr store_reply"
    "list_all (\<lambda>p. p \<noteq> None \<and> part_ValidateBasic (the p) = None) (setParts store_parts)"
    "Option.bind (k_blockDec store_codec (concat (map (partBytes \<circ> the) (setParts store_parts)))) (BlockFromProto sample_env) = Some (Inr sample_block)"
    by code_simp+
  then show ?thesis using sample_block_facts(2,3) by (auto simp: saveable_def fresh_block_def NewReply_def list_all_iff)
qed

lemma sample_store_run: "\<exists>bs. bs_run sample_env store_codec bs [(sample_block, store_reply)]"
proof -
  let ?bs = "\<lparr>bsDB = Map.empty, bsBase = 0, bsHeight = 0\<rparr>"
  have s: "NewBlockStore Map.empty = Some ?bs" by (simp add: NewBlockStore_def LoadBlockStoreState_def)
  have "SaveBlock sample_env store_codec ?bs (Some sample_block) (Some store_parts) store_reply \<noteq> None" by code_simp
  then show ?thesis using bs_run.save[OF bs_run.start[OF s] sample_saveable] by auto
qed

theorem saved_blocks_load_back_witness:
  "\<exists>bs. bs_Size bs = 1 \<and> LoadBlock sample_env store_codec bs 1 = Some (Some sample_block)"
proof -
  obtain bs where "bs_run sample_env store_codec bs [(sample_block, store_reply)]" using sample_store_run by blast
  moreover have "\<forall>bz. length (e_Sum sample_env bz) = 32" by (auto simp: sample_env_def)
  moreover have "hHeight (bHeader sample_block) = 1" by code_simp
  ultimately show ?thesis using saved_blocks_load_back[of sample_env store_codec bs "[(sample_block, store_reply)]"] by auto
qed

end
