(* ===== verification/RoundStates.thy ===== *)
theory RoundStates
  imports HeightVotes BlockStores Chain PrivVal
begin

text \<open>
  The data of the consensus machine: \<open>consensus/round_state.go\<close>, the messages of \<open>consensus/reactor.go\<close>, the
  timeouts of \<open>consensus/ticker.go\<close>, the consensus configuration, and the fields of \<open>State\<close> in
  \<open>consensus/consensus_state.go\<close>. The part sets that the proposal, the lock and the valid block share are
  addresses into a heap, because adding a part through one of them is seen by the others. Blocks are values:
  \<open>Hash\<close> only fills fields of a block that determine the same hash again.

  What a handler gets from outside is read from a \<open>world\<close>: the clock and the outcome of every write to the log,
  of every signature file and of every publication, indexed by the number of such calls so far.
\<close>

section \<open>Steps\<close>

datatype RoundStepType =
    RoundStepNewHeight | RoundStepNewRound | RoundStepPrePrepare | RoundStepPrepare
  | RoundStepPrepareWait | RoundStepCommit | RoundStepCommitWait | RoundStepReply

fun step_code :: "RoundStepType \<Rightarrow> nat" where
  "step_code RoundStepNewHeight = 1"
| "step_code RoundStepNewRound = 2"
| "step_code RoundStepPrePrepare = 3"
| "step_code RoundStepPrepare = 4"
| "step_code RoundStepPrepareWait = 5"
| "step_code RoundStepCommit = 6"
| "step_code RoundStepCommitWait = 7"
| "step_code RoundStepReply = 8"

lemma step_code_inj: "step_code a = step_code b \<longleftrightarrow> a = b"
  by (cases a; cases b) simp_all

instantiation RoundStepType :: linorder
begin

definition less_eq_RoundStepType :: "RoundStepType \<Rightarrow> RoundStepType \<Rightarrow> bool" where
  "less_eq_RoundStepType a b \<longleftrightarrow> step_code a \<le> step_code b"

definition less_RoundStepType :: "RoundStepType \<Rightarrow> RoundStepType \<Rightarrow> bool" where
  "less_RoundStepType a b \<longleftrightarrow> step_code a < step_code b"

instance
  by standard (auto simp: less_eq_RoundStepType_def less_RoundStepType_def step_code_inj)

end

lemmas step_less = less_eq_RoundStepType_def less_RoundStepType_def

section \<open>Configuration\<close>

record ConsensusConfig =
  ccTimeoutPrePrepare :: int
  ccTimeoutPrePrepareDelta :: int
  ccTimeoutPrepare :: int
  ccTimeoutPrepareDelta :: int
  ccTimeoutCommit :: int
  ccTimeoutCommitDelta :: int
  ccTimeoutReply :: int
  ccSkipTimeoutReply :: bool
  ccCreateEmptyBlocks :: bool
  ccCreateEmptyBlocksInterval :: int
  ccPeerGossipSleepDuration :: int
  ccPeerQueryMaj23SleepDuration :: int
  ccTestIsByzantine :: bool
  ccTestWhistleblower :: bool

definition DefaultConsensusConfig :: ConsensusConfig where
  "DefaultConsensusConfig = \<lparr>ccTimeoutPrePrepare = 2500000000, ccTimeoutPrePrepareDelta = 500000000, ccTimeoutPrepare = 1000000000,
     ccTimeoutPrepareDelta = 500000000, ccTimeoutCommit = 1000000000, ccTimeoutCommitDelta = 500000000, ccTimeoutReply = 1000000000,
     ccSkipTimeoutReply = False, ccCreateEmptyBlocks = False, ccCreateEmptyBlocksInterval = 0, ccPeerGossipSleepDuration = 100000000,
     ccPeerQueryMaj23SleepDuration = 2000000000, ccTestIsByzantine = False, ccTestWhistleblower = False\<rparr>"

definition WaitForTxs :: "ConsensusConfig \<Rightarrow> bool" where
  "WaitForTxs cfg \<longleftrightarrow> \<not> ccCreateEmptyBlocks cfg \<or> 0 < ccCreateEmptyBlocksInterval cfg"

definition roundWait :: "int \<Rightarrow> int \<Rightarrow> int \<Rightarrow> int" where
  "roundWait base delta r = add64 base (wrap 64 (delta * r))"

definition PrePrepareWait :: "ConsensusConfig \<Rightarrow> int \<Rightarrow> int" where
  "PrePrepareWait cfg r = roundWait (ccTimeoutPrePrepare cfg) (ccTimeoutPrePrepareDelta cfg) r"

definition PrepareWait :: "ConsensusConfig \<Rightarrow> int \<Rightarrow> int" where
  "PrepareWait cfg r = roundWait (ccTimeoutPrepare cfg) (ccTimeoutPrepareDelta cfg) r"

definition CommitWait :: "ConsensusConfig \<Rightarrow> int \<Rightarrow> int" where
  "CommitWait cfg r = roundWait (ccTimeoutCommit cfg) (ccTimeoutCommitDelta cfg) r"

definition cfg_Commit :: "ConsensusConfig \<Rightarrow> int \<Rightarrow> int" where
  "cfg_Commit cfg t = t + ccTimeoutReply cfg"

datatype config_error =
    NegPrePrepare | NegPrePrepareDelta | NegPrepare | NegPrepareDelta | NegCommit | NegCommitDelta | NegReply | NegInterval | NegGossipSleep | NegMaj23Sleep

definition ccfg_ValidateBasic :: "ConsensusConfig \<Rightarrow> config_error option" where
  "ccfg_ValidateBasic cfg =
     (if ccTimeoutPrePrepare cfg < 0 then Some NegPrePrepare
      else if ccTimeoutPrePrepareDelta cfg < 0 then Some NegPrePrepareDelta
      else if ccTimeoutPrepare cfg < 0 then Some NegPrepare
      else if ccTimeoutPrepareDelta cfg < 0 then Some NegPrepareDelta
      else if ccTimeoutCommit cfg < 0 then Some NegCommit
      else if ccTimeoutCommitDelta cfg < 0 then Some NegCommitDelta
      else if ccTimeoutReply cfg < 0 then Some NegReply
      else if ccCreateEmptyBlocksInterval cfg < 0 then Some NegInterval
      else if ccPeerGossipSleepDuration cfg < 0 then Some NegGossipSleep
      else if ccPeerQueryMaj23SleepDuration cfg < 0 then Some NegMaj23Sleep
      else None)"

text \<open>\<open>Time.Sub\<close> saturates.\<close>

definition time_Sub :: "int \<Rightarrow> int \<Rightarrow> int" where
  "time_Sub t u = max (- 9223372036854775808) (min MaxInt64 (t - u))"

section \<open>Messages, timeouts, log entries and events\<close>

datatype Message =
    NewRoundStepMessage int int int int int
  | NewValidBlockMessage int int PartSetHeader "BitArray option" bool
  | PrePrepareMessage PrePrepare
  | PrePreparePOLMessage int int "BitArray option"
  | BlockPartMessage int int "Part option"
  | VoteMessage Vote
  | HasVoteMessage int int int int
  | VoteSetMaj23Message int int int BlockID
  | VoteSetBitsMessage int int int BlockID "BitArray option"

record msgInfo =
  miMsg :: Message
  miPeerID :: string

record timeoutInfo =
  tiDuration :: int
  tiHeight :: int
  tiRound :: int
  tiStep :: RoundStepType

datatype walMessage = WalRoundState int int RoundStepType | WalMsgInfo msgInfo | WalTimeout timeoutInfo | WalEndHeight int

datatype event =
    EventNewRoundStep int int RoundStepType
  | EventNewRound int int RoundStepType bytes int
  | EventCompleteProposal int int RoundStepType BlockID
  | EventPolka int int RoundStepType
  | EventLock int int RoundStepType
  | EventUnlock int int RoundStepType
  | EventRelock int int RoundStepType
  | EventValidBlock int int RoundStepType
  | EventTimeoutPrePrepare int int RoundStepType
  | EventTimeoutWait int int RoundStepType
  | EventVote Vote
  | FireNewRoundStep | FireValidBlock | FireVote Vote | FireTrust int

datatype trust_call = UpdateBads bytes | UpdateGoods

section \<open>State\<close>

record RoundState =
  rsHeight :: int
  rsRound :: int
  rsStep :: RoundStepType
  rsStartTime :: int
  rsCommitTime :: int
  rsValidators :: ValidatorSet
  rsPrePrepare :: "PrePrepare option"
  rsPrePrepareBlock :: "Block option"
  rsPrePrepareBlockParts :: "nat option"
  rsLockedRound :: int
  rsLockedBlock :: "Block option"
  rsLockedBlockParts :: "nat option"
  rsValidRound :: int
  rsValidBlock :: "Block option"
  rsValidBlockParts :: "nat option"
  rsVotes :: "HeightVoteSet option"
  rsReplyRound :: int
  rsLastCommits :: "VoteSet option"
  rsLastValidators :: ValidatorSet
  rsTriggeredTimeoutCommit :: bool

record 'a ConsensusState = RoundState +
  csConfig :: ConsensusConfig
  csPrivValidator :: "(FilePV \<times> disk) option"
  csBlockStore :: BlockStore
  csBlockExec :: "'a BlockExecutor"
  csState :: "State option"
  csPubKey :: "bytes option"
  csInternal :: "msgInfo list"
  csStats :: "msgInfo list"
  csTicks :: "timeoutInfo list"
  csWal :: "walMessage list"
  csWalOpen :: bool
  csEventBus :: bool
  csEvents :: "event list"
  csTrust :: "trust_call list"
  csTestTimes :: int
  csHeap :: "PartSet list"
  csCalls :: nat

record 'a world =
  wEnv :: env
  wCodec :: codec
  wApp :: "'a app"
  wNow :: "nat \<Rightarrow> int"
  wOk :: "nat \<Rightarrow> bool"

section \<open>Calls to the outside\<close>

definition clock :: "'a world \<Rightarrow> 'a ConsensusState \<Rightarrow> int \<times> 'a ConsensusState" where
  "clock W cs = (wNow W (csCalls cs), cs\<lparr>csCalls := Suc (csCalls cs)\<rparr>)"

definition outcome :: "'a world \<Rightarrow> 'a ConsensusState \<Rightarrow> bool \<times> 'a ConsensusState" where
  "outcome W cs = (wOk W (csCalls cs), cs\<lparr>csCalls := Suc (csCalls cs)\<rparr>)"

text \<open>A log that is not open yet is \<open>nilWAL\<close>: writes succeed and vanish.\<close>

definition wal_Write :: "'a world \<Rightarrow> walMessage \<Rightarrow> 'a ConsensusState \<Rightarrow> bool \<times> 'a ConsensusState" where
  "wal_Write W m cs =
     (if \<not> csWalOpen cs then (True, cs)
      else let (ok, cs1) = outcome W cs in (ok, if ok then cs1\<lparr>csWal := csWal cs1 @ [m]\<rparr> else cs1))"

definition wal_FlushAndSync :: "'a world \<Rightarrow> 'a ConsensusState \<Rightarrow> bool \<times> 'a ConsensusState" where
  "wal_FlushAndSync W cs = (if \<not> csWalOpen cs then (True, cs) else outcome W cs)"

text \<open>Publishing on a nil event bus panics; the event switch is always there.\<close>

definition publish :: "'a world \<Rightarrow> event \<Rightarrow> 'a ConsensusState \<Rightarrow> (bool \<times> 'a ConsensusState) option" where
  "publish W ev cs =
     (if \<not> csEventBus cs then None
      else let (ok, cs1) = outcome W cs in Some (ok, if ok then cs1\<lparr>csEvents := csEvents cs1 @ [ev]\<rparr> else cs1))"

definition publish_logged :: "'a world \<Rightarrow> event \<Rightarrow> 'a ConsensusState \<Rightarrow> 'a ConsensusState option" where
  "publish_logged W ev cs = map_option snd (publish W ev cs)"

definition fire :: "event \<Rightarrow> 'a ConsensusState \<Rightarrow> 'a ConsensusState" where
  "fire ev cs = cs\<lparr>csEvents := csEvents cs @ [ev]\<rparr>"

definition scheduleTimeout :: "int \<Rightarrow> int \<Rightarrow> int \<Rightarrow> RoundStepType \<Rightarrow> 'a ConsensusState \<Rightarrow> 'a ConsensusState" where
  "scheduleTimeout duration height r step cs =
     cs\<lparr>csTicks := csTicks cs @ [\<lparr>tiDuration = duration, tiHeight = height, tiRound = r, tiStep = step\<rparr>]\<rparr>"

text \<open>When the channel is full a goroutine delivers the message later, so it is a bag of messages under way.\<close>

definition sendInternalMessage :: "Message \<Rightarrow> 'a ConsensusState \<Rightarrow> 'a ConsensusState" where
  "sendInternalMessage m cs = cs\<lparr>csInternal := csInternal cs @ [\<lparr>miMsg = m, miPeerID = ''''\<rparr>]\<rparr>"

section \<open>Part sets behind pointers\<close>

definition parts_at :: "'a ConsensusState \<Rightarrow> nat option \<Rightarrow> PartSet option" where
  "parts_at cs p = Option.bind p (\<lambda>i. if i < length (csHeap cs) then Some (csHeap cs ! i) else None)"

definition newParts :: "PartSetHeader \<Rightarrow> 'a ConsensusState \<Rightarrow> 'a ConsensusState" where
  "newParts header cs = cs\<lparr>csHeap := csHeap cs @ [NewPartSetFromHeader header], rsPrePrepareBlockParts := Some (length (csHeap cs))\<rparr>"

section \<open>Small operations\<close>

definition updateHeight :: "int \<Rightarrow> 'a ConsensusState \<Rightarrow> 'a ConsensusState" where
  "updateHeight height cs = cs\<lparr>rsHeight := height\<rparr>"

definition updateRoundStep :: "int \<Rightarrow> RoundStepType \<Rightarrow> 'a ConsensusState \<Rightarrow> 'a ConsensusState" where
  "updateRoundStep r step cs = cs\<lparr>rsRound := r, rsStep := step\<rparr>"

definition newStep :: "'a world \<Rightarrow> 'a ConsensusState \<Rightarrow> 'a ConsensusState" where
  "newStep W cs =
     (let cs1 = snd (wal_Write W (WalRoundState (rsHeight cs) (rsRound cs) (rsStep cs)) cs)
      in if csEventBus cs1
         then (case publish_logged W (EventNewRoundStep (rsHeight cs1) (rsRound cs1) (rsStep cs1)) cs1 of
                 None \<Rightarrow> cs1
               | Some cs2 \<Rightarrow> fire FireNewRoundStep cs2)
         else cs1)"

definition unlock :: "'a ConsensusState \<Rightarrow> 'a ConsensusState" where
  "unlock cs = cs\<lparr>rsLockedRound := -1, rsLockedBlock := None, rsLockedBlockParts := None\<rparr>"

text \<open>\<open>cs.Validators.GetPrimary\<close> chooses and remembers a primary when there is none; reading the address of a nil one panics.\<close>

definition primaryOf :: "'a world \<Rightarrow> int \<Rightarrow> 'a ConsensusState \<Rightarrow> (Validator \<times> 'a ConsensusState) option" where
  "primaryOf W n cs = do {
     st \<leftarrow> csState cs;
     (vs, p) \<leftarrow> GetPrimary (wEnv W) (rsValidators cs) (stLastBlockID st) n;
     val \<leftarrow> p;
     Some (val, cs\<lparr>rsValidators := vs\<rparr>)
   }"

definition CompareHRS :: "int \<Rightarrow> int \<Rightarrow> 's::linorder \<Rightarrow> int \<Rightarrow> int \<Rightarrow> 's \<Rightarrow> int" where
  "CompareHRS h1 r1 s1 h2 r2 s2 =
     (if h1 < h2 then -1 else if h2 < h1 then 1
      else if r1 < r2 then -1 else if r2 < r1 then 1
      else if s1 < s2 then -1 else if s2 < s1 then 1
      else 0)"

end
