(* ===== verification/Consensus.thy ===== *)
theory Consensus
  imports RoundStates
begin

text \<open>
  The consensus machine of \<open>consensus/consensus_state.go\<close>: the steps of a round, the lock, the handling of
  proposals, block parts and votes, the decision of a block, and the receive loop as one function per input. A
  deferred block of a step runs after its body on every return, and not after a panic. The mutex makes every
  handler atomic, so a handler is one state change.
\<close>

section \<open>Signing votes\<close>

definition voteTime :: "'a world \<Rightarrow> State \<Rightarrow> 'a ConsensusState \<Rightarrow> int \<times> 'a ConsensusState" where
  "voteTime W st cs =
     (let (now, cs1) = clock W cs;
          timeIota = wrap 64 (cpTimeIotaMs (stConsensusParams st) * 1000000);
          minVoteTime = (case rsLockedBlock cs of
             Some b \<Rightarrow> hTime (bHeader b) + timeIota
           | None \<Rightarrow> (case rsPrePrepareBlock cs of Some b \<Rightarrow> hTime (bHeader b) + timeIota | None \<Rightarrow> now))
      in (if minVoteTime < now then now else minVoteTime, cs1))"

text \<open>The signed copy may carry the time of an earlier signature; only its signature is copied back.\<close>

definition cs_signVote ::
  "'a world \<Rightarrow> int \<Rightarrow> bytes \<Rightarrow> PartSetHeader \<Rightarrow> 'a ConsensusState \<Rightarrow> (Vote option \<times> 'a ConsensusState) option" where
  "cs_signVote W msgType hash header cs = do {
     let (flushed, cs1) = wal_FlushAndSync W cs;
     if \<not> flushed then Some (None, cs1)
     else (case csPubKey cs1 of
         None \<Rightarrow> Some (None, cs1)
       | Some pk \<Rightarrow> do {
           addr \<leftarrow> pk_Address (wEnv W) pk;
           st \<leftarrow> csState cs1;
           let valIdx = fst (GetByAddress (rsValidators cs1) addr);
           let (tm, cs2) = voteTime W st cs1;
           let vote = \<lparr>vType = msgType, vHeight = rsHeight cs2, vRound = rsRound cs2, vBlockID = \<lparr>bidHash = hash, bidParts = header\<rparr>,
                 vTimestamp = tm, vAddress = addr, vIndex = valIdx, vSignature = []\<rparr>;
           (pv, d) \<leftarrow> csPrivValidator cs2;
           let (now, cs3) = clock W cs2;
           let (io, cs4) = outcome W cs3;
           (pv', d', v, err) \<leftarrow> PrivVal.signVote (wEnv W) now io (stChainID st) vote pv d;
           Some (if err = None then Some (vote\<lparr>vSignature := vSignature v\<rparr>) else None, cs4\<lparr>csPrivValidator := Some (pv', d')\<rparr>)
         })
   }"

definition signAddVote :: "'a world \<Rightarrow> int \<Rightarrow> bytes \<Rightarrow> PartSetHeader \<Rightarrow> 'a ConsensusState \<Rightarrow> 'a ConsensusState option" where
  "signAddVote W msgType hash header cs =
     (if csPrivValidator cs = None then Some cs
      else (case csPubKey cs of
          None \<Rightarrow> Some cs
        | Some pk \<Rightarrow> do {
            addr \<leftarrow> pk_Address (wEnv W) pk;
            if \<not> HasAddress (rsValidators cs) addr then Some cs
            else do {
              (vote, cs1) \<leftarrow> cs_signVote W msgType hash header cs;
              Some (case vote of None \<Rightarrow> cs1 | Some v \<Rightarrow> sendInternalMessage (VoteMessage v) cs1)
            }
          }))"

definition updatePrivValidatorPubKey :: "'a ConsensusState \<Rightarrow> 'a ConsensusState" where
  "updatePrivValidatorPubKey cs =
     (case csPrivValidator cs of None \<Rightarrow> cs | Some (pv, _) \<Rightarrow> cs\<lparr>csPubKey := Some (kPubKey (pvKey pv))\<rparr>)"

section \<open>Prepare\<close>

definition doPrepare :: "'a world \<Rightarrow> 'a ConsensusState \<Rightarrow> 'a ConsensusState option" where
  "doPrepare W cs =
     (case rsLockedBlock cs of
        Some _ \<Rightarrow> do {
          (hash, _) \<leftarrow> block_Hash (wEnv W) (wCodec W) (rsLockedBlock cs);
          signAddVote W PrepareType hash (ps_Header (parts_at cs (rsLockedBlockParts cs))) cs
        }
      | None \<Rightarrow>
          (case rsPrePrepareBlock cs of
             None \<Rightarrow> signAddVote W PrepareType [] zero_psh cs
           | Some block \<Rightarrow> do {
               st \<leftarrow> csState cs;
               err \<leftarrow> validateBlock (wEnv W) st block;
               if err \<noteq> None then signAddVote W PrepareType [] zero_psh cs
               else do {
                 (hash, _) \<leftarrow> block_Hash (wEnv W) (wCodec W) (Some block);
                 signAddVote W PrepareType hash (ps_Header (parts_at cs (rsPrePrepareBlockParts cs))) cs
               }
             }))"

definition enterPrepare :: "'a world \<Rightarrow> int \<Rightarrow> int \<Rightarrow> 'a ConsensusState \<Rightarrow> 'a ConsensusState option" where
  "enterPrepare W height r cs =
     (if rsHeight cs \<noteq> height \<or> r < rsRound cs \<or> rsRound cs = r \<and> RoundStepPrepare \<le> rsStep cs then Some cs
      else do {
        cs1 \<leftarrow> doPrepare W cs;
        Some (newStep W (updateRoundStep r RoundStepPrepare cs1))
      })"

definition enterPrepareWait :: "'a world \<Rightarrow> int \<Rightarrow> int \<Rightarrow> 'a ConsensusState \<Rightarrow> 'a ConsensusState option" where
  "enterPrepareWait W height r cs =
     (if rsHeight cs \<noteq> height \<or> r < rsRound cs \<or> rsRound cs = r \<and> RoundStepPrepareWait \<le> rsStep cs then Some cs
      else Some (newStep W (updateRoundStep r RoundStepPrepareWait
        (scheduleTimeout (PrepareWait (csConfig cs) r) height r RoundStepPrepareWait cs))))"

section \<open>Pre-prepare\<close>

definition isPrePrepareComplete :: "'a ConsensusState \<Rightarrow> bool option" where
  "isPrePrepareComplete cs =
     (case (rsPrePrepare cs, rsPrePrepareBlock cs) of
        (Some p, Some _) \<Rightarrow>
          if prPOLRound p < 0 then Some True
          else do { hvs \<leftarrow> rsVotes cs; Some (HasTwoThirdsMajority (Prepares hvs (prPOLRound p))) }
      | _ \<Rightarrow> Some False)"

text \<open>The outer option is the panic, the inner one the nil block.\<close>

definition createPrePrepareBlock :: "'a world \<Rightarrow> 'a ConsensusState \<Rightarrow> (Block \<times> PartSet option) option option" where
  "createPrePrepareBlock W cs = do {
     st \<leftarrow> csState cs;
     commit \<leftarrow> (if rsHeight cs = stInitialHeight st then Some (Some (NewReply 0 0 zero_bid []))
                else if HasTwoThirdsMajority (rsLastCommits cs) then do { vs \<leftarrow> rsLastCommits cs; map_option Some (MakeReply vs) }
                else Some None);
     (case commit of
        None \<Rightarrow> Some None
      | Some reply \<Rightarrow> do {
          pk \<leftarrow> csPubKey cs;
          proposerAddr \<leftarrow> pk_Address (wEnv W) pk;
          map_option Some (CreateProposalBlock (wEnv W) (wCodec W) (csBlockExec cs) (rsHeight cs) st reply proposerAddr)
        })
   }"

definition decidePrePrepare :: "'a world \<Rightarrow> int \<Rightarrow> int \<Rightarrow> 'a ConsensusState \<Rightarrow> 'a ConsensusState option" where
  "decidePrePrepare W height r cs =
     (if ccTestIsByzantine (csConfig cs) then Some cs
      else do {
        proposal \<leftarrow> (case rsValidBlock cs of
            Some b \<Rightarrow> Some (Some (b, parts_at cs (rsValidBlockParts cs)))
          | None \<Rightarrow> createPrePrepareBlock W cs);
        (case proposal of
           None \<Rightarrow> Some cs
         | Some (block, blockParts) \<Rightarrow> do {
             st \<leftarrow> csState cs;
             let (_, cs1) = wal_FlushAndSync W cs;
             (hash, _) \<leftarrow> block_Hash (wEnv W) (wCodec W) (Some block);
             let (now, cs2) = clock W cs1;
             let prePrepare = \<lparr>prType = PrePrepareType, prHeight = height, prRound = r, prPOLRound = rsValidRound cs2,
                   prBlockID = \<lparr>bidHash = hash, bidParts = ps_Header blockParts\<rparr>, prTimestamp = now, prSignature = []\<rparr>;
             (pv, d) \<leftarrow> csPrivValidator cs2;
             let (now2, cs3) = clock W cs2;
             let (io, cs4) = outcome W cs3;
             (pv', d', p, err) \<leftarrow> signProposal (wEnv W) now2 io (stChainID st) prePrepare pv d;
             let cs5 = cs4\<lparr>csPrivValidator := Some (pv', d')\<rparr>;
             if err \<noteq> None then Some cs5
             else do {
               parts \<leftarrow> those (map (\<lambda>i. Option.bind blockParts (\<lambda>ps. GetPart ps (int i))) [0..<nat (ps_Total blockParts)]);
               Some (fold (\<lambda>part. sendInternalMessage (BlockPartMessage (rsHeight cs5) (rsRound cs5) part)) parts
                 (sendInternalMessage (PrePrepareMessage (prePrepare\<lparr>prSignature := prSignature p\<rparr>)) cs5))
             }
           })
      })"

definition isPrimary :: "'a world \<Rightarrow> bytes \<Rightarrow> 'a ConsensusState \<Rightarrow> (bool \<times> 'a ConsensusState) option" where
  "isPrimary W address cs = do {
     (val, cs1) \<leftarrow> primaryOf W (rsRound cs) cs;
     Some (valAddress val = address, cs1)
   }"

definition proposeIfPrimary :: "'a world \<Rightarrow> int \<Rightarrow> int \<Rightarrow> 'a ConsensusState \<Rightarrow> 'a ConsensusState option" where
  "proposeIfPrimary W height r cs =
     (if csPrivValidator cs = None then Some cs
      else (case csPubKey cs of
          None \<Rightarrow> Some cs
        | Some pk \<Rightarrow> do {
            address \<leftarrow> pk_Address (wEnv W) pk;
            if \<not> HasAddress (rsValidators cs) address then Some cs
            else do {
              (mine, cs1) \<leftarrow> isPrimary W address cs;
              if mine then decidePrePrepare W height r cs1 else Some cs1
            }
          }))"

definition enterPrePrepare :: "'a world \<Rightarrow> int \<Rightarrow> int \<Rightarrow> 'a ConsensusState \<Rightarrow> 'a ConsensusState option" where
  "enterPrePrepare W height r cs =
     (if rsHeight cs \<noteq> height \<or> r < rsRound cs \<or> rsRound cs = r \<and> RoundStepPrePrepare \<le> rsStep cs then Some cs
      else do {
        cs1 \<leftarrow> proposeIfPrimary W height r (scheduleTimeout (PrePrepareWait (csConfig cs) r) height r RoundStepPrePrepare cs);
        let cs2 = newStep W (updateRoundStep r RoundStepPrePrepare cs1);
        complete \<leftarrow> isPrePrepareComplete cs2;
        if complete then enterPrepare W height (rsRound cs2) cs2 else Some cs2
      })"

section \<open>New round\<close>

definition needProofBlock :: "'a world \<Rightarrow> int \<Rightarrow> 'a ConsensusState \<Rightarrow> bool option" where
  "needProofBlock W height cs = do {
     st \<leftarrow> csState cs;
     if height = stInitialHeight st then Some True
     else do {
       lastBlockMeta \<leftarrow> LoadBlockMeta (wEnv W) (wCodec W) (csBlockStore cs) (sub64 height 1);
       bm \<leftarrow> lastBlockMeta;
       Some (stAppHash st \<noteq> hAppHash (bmHeader bm))
     }
   }"

definition enterNewRound :: "'a world \<Rightarrow> int \<Rightarrow> int \<Rightarrow> 'a ConsensusState \<Rightarrow> 'a ConsensusState option" where
  "enterNewRound W height r cs =
     (if rsHeight cs \<noteq> height \<or> r < rsRound cs \<or> rsRound cs = r \<and> rsStep cs \<noteq> RoundStepNewHeight then Some cs
      else do {
        st \<leftarrow> csState cs;
        validators \<leftarrow> (if rsRound cs < r then map_option fst (CopyIteratePrimary (wEnv W) (rsValidators cs) (stLastBlockID st) r)
                       else Some (rsValidators cs));
        let cs1 = (updateRoundStep r RoundStepNewRound cs)\<lparr>rsValidators := validators\<rparr>;
        let cs2 = (if r \<noteq> 0 then cs1\<lparr>rsPrePrepare := None, rsPrePrepareBlock := None, rsPrePrepareBlockParts := None\<rparr> else cs1);
        next \<leftarrow> SafeAddInt32 r 1;
        hvs \<leftarrow> rsVotes cs2;
        hvs' \<leftarrow> SetRound hvs next;
        let cs3 = cs2\<lparr>rsVotes := Some hvs', rsTriggeredTimeoutCommit := False\<rparr>;
        (val, cs4) \<leftarrow> primaryOf W (rsRound cs3) cs3;
        cs5 \<leftarrow> publish_logged W (EventNewRound (rsHeight cs4) (rsRound cs4) (rsStep cs4) (valAddress val)
                  (fst (GetByAddress (rsValidators cs4) (valAddress val)))) cs4;
        waitForTxs \<leftarrow> (if WaitForTxs (csConfig cs5) \<and> r = 0 then map_option Not (needProofBlock W height cs5) else Some False);
        if waitForTxs then
          Some (if 0 < ccCreateEmptyBlocksInterval (csConfig cs5)
                then scheduleTimeout (ccCreateEmptyBlocksInterval (csConfig cs5)) height r RoundStepNewRound cs5 else cs5)
        else enterPrePrepare W height r cs5
      })"

section \<open>Commit\<close>

text \<open>The body of \<open>enterCommit\<close>: the vote for a majority of prepares, and what it does to the lock.\<close>

definition commitPolka :: "'a world \<Rightarrow> int \<Rightarrow> BlockID \<Rightarrow> 'a ConsensusState \<Rightarrow> 'a ConsensusState option" where
  "commitPolka W r blockID cs1 =
     (if length (bidHash blockID) = 0 then do {
        cs2 \<leftarrow> (if rsLockedBlock cs1 = None then Some cs1
               else publish_logged W (EventUnlock (rsHeight cs1) (rsRound cs1) (rsStep cs1)) (unlock cs1));
        signAddVote W CommitType [] zero_psh cs2
      }
      else do {
        isLocked \<leftarrow> block_EqualsTo (wEnv W) (wCodec W) (rsLockedBlock cs1) (bidHash blockID);
        if isLocked then do {
          cs2 \<leftarrow> publish_logged W (EventRelock (rsHeight cs1) (rsRound cs1) (rsStep cs1)) (cs1\<lparr>rsLockedRound := r\<rparr>);
          signAddVote W CommitType (bidHash blockID) (bidParts blockID) cs2
        }
        else do {
          isProposal \<leftarrow> block_EqualsTo (wEnv W) (wCodec W) (rsPrePrepareBlock cs1) (bidHash blockID);
          if isProposal then do {
            st \<leftarrow> csState cs1;
            block \<leftarrow> rsPrePrepareBlock cs1;
            err \<leftarrow> validateBlock (wEnv W) st block;
            if err \<noteq> None then None
            else do {
              cs2 \<leftarrow> publish_logged W (EventLock (rsHeight cs1) (rsRound cs1) (rsStep cs1))
                     (cs1\<lparr>rsLockedRound := r, rsLockedBlock := Some block, rsLockedBlockParts := rsPrePrepareBlockParts cs1\<rparr>);
              signAddVote W CommitType (bidHash blockID) (bidParts blockID) cs2
            }
          }
          else do {
            let cs2 = unlock cs1;
            let cs3 = (if \<not> HeaderEqualsTo (parts_at cs2 (rsPrePrepareBlockParts cs2)) (bidParts blockID)
                       then newParts (bidParts blockID) (cs2\<lparr>rsPrePrepareBlock := None\<rparr>) else cs2);
            cs4 \<leftarrow> publish_logged W (EventUnlock (rsHeight cs3) (rsRound cs3) (rsStep cs3)) cs3;
            signAddVote W CommitType [] zero_psh cs4
          }
        }
      })"

definition commitVote :: "'a world \<Rightarrow> int \<Rightarrow> 'a ConsensusState \<Rightarrow> 'a ConsensusState option" where
  "commitVote W r cs = do {
     hvs \<leftarrow> rsVotes cs;
     let (blockID, ok) = TwoThirdsMajority (Prepares hvs r);
     if \<not> ok then signAddVote W CommitType [] zero_psh cs
     else do {
       cs1 \<leftarrow> publish_logged W (EventPolka (rsHeight cs) (rsRound cs) (rsStep cs)) cs;
       if fst (POLInfo hvs) < r then None
       else commitPolka W r blockID cs1
     }
   }"

definition enterCommit :: "'a world \<Rightarrow> int \<Rightarrow> int \<Rightarrow> 'a ConsensusState \<Rightarrow> 'a ConsensusState option" where
  "enterCommit W height r cs =
     (if rsHeight cs \<noteq> height \<or> r < rsRound cs \<or> rsRound cs = r \<and> RoundStepCommit \<le> rsStep cs then Some cs
      else do {
        cs1 \<leftarrow> commitVote W r cs;
        Some (newStep W (updateRoundStep r RoundStepCommit cs1))
      })"

definition enterCommitWait :: "'a world \<Rightarrow> int \<Rightarrow> int \<Rightarrow> 'a ConsensusState \<Rightarrow> 'a ConsensusState option" where
  "enterCommitWait W height r cs =
     (if rsHeight cs \<noteq> height \<or> r < rsRound cs \<or> rsRound cs = r \<and> rsTriggeredTimeoutCommit cs then Some cs
      else do {
        hvs \<leftarrow> rsVotes cs;
        if \<not> HasTwoThirdsAny (Commits hvs r) then None
        else Some (newStep W ((scheduleTimeout (CommitWait (csConfig cs) r) height r RoundStepCommitWait cs)\<lparr>rsTriggeredTimeoutCommit := True\<rparr>))
      })"

section \<open>Deciding a block\<close>

definition scheduleRound0 :: "'a world \<Rightarrow> 'a ConsensusState \<Rightarrow> 'a ConsensusState" where
  "scheduleRound0 W cs =
     (let (now, cs1) = clock W cs
      in scheduleTimeout (time_Sub (rsStartTime cs1) now) (rsHeight cs1) 0 RoundStepNewHeight cs1)"

definition enterHeight :: "'a world \<Rightarrow> State \<Rightarrow> VoteSet option \<Rightarrow> 'a ConsensusState \<Rightarrow> 'a ConsensusState option" where
  "enterHeight W state lastCommits cs = do {
     let h1 = add64 (stLastBlockHeight state) 1;
     let height = (if h1 = 1 then stInitialHeight state else h1);
     let cs1 = updateRoundStep 0 RoundStepNewHeight (updateHeight height (cs\<lparr>rsLastCommits := lastCommits\<rparr>));
     let (start, cs2) = (if rsCommitTime cs1 = zero_time then (let (now, c) = clock W cs1 in (cfg_Commit (csConfig c) now, c))
                         else (cfg_Commit (csConfig cs1) (rsCommitTime cs1), cs1));
     votes \<leftarrow> NewHeightVoteSet (stChainID state) height (stValidators state);
     Some (newStep W (cs2\<lparr>rsStartTime := start, rsValidators := stValidators state, rsPrePrepare := None, rsPrePrepareBlock := None,
       rsPrePrepareBlockParts := None, rsLockedRound := -1, rsLockedBlock := None, rsLockedBlockParts := None, rsValidRound := -1,
       rsValidBlock := None, rsValidBlockParts := None, rsVotes := Some votes, rsReplyRound := -1,
       rsLastValidators := stLastValidators state, rsTriggeredTimeoutCommit := False, csState := Some state\<rparr>))
   }"

definition updateToState :: "'a world \<Rightarrow> State \<Rightarrow> 'a ConsensusState \<Rightarrow> 'a ConsensusState option" where
  "updateToState W state cs =
     (if -1 < rsReplyRound cs \<and> 0 < rsHeight cs \<and> rsHeight cs \<noteq> stLastBlockHeight state then None
      else if (case csState cs of None \<Rightarrow> False
               | Some st \<Rightarrow> 0 < stLastBlockHeight st \<and> add64 (stLastBlockHeight st) 1 \<noteq> rsHeight cs \<or>
                   0 < stLastBlockHeight st \<and> rsHeight cs = stInitialHeight st) then None
      else if (case csState cs of None \<Rightarrow> False | Some st \<Rightarrow> stLastBlockHeight state \<le> stLastBlockHeight st) then Some (newStep W cs)
      else if stLastBlockHeight state = 0 then enterHeight W state None cs
      else if -1 < rsReplyRound cs \<and> rsVotes cs \<noteq> None then do {
        hvs \<leftarrow> rsVotes cs;
        if \<not> HasTwoThirdsMajority (Commits hvs (rsReplyRound cs)) then None
        else enterHeight W state (Commits hvs (rsReplyRound cs)) cs
      }
      else if rsLastCommits cs = None then None
      else enterHeight W state (rsLastCommits cs) cs)"

definition finalizeAppend :: "'a world \<Rightarrow> int \<Rightarrow> 'a ConsensusState \<Rightarrow> 'a ConsensusState option" where
  "finalizeAppend W height cs =
     (if rsHeight cs \<noteq> height \<or> rsStep cs \<noteq> RoundStepReply then Some cs
      else do {
        hvs \<leftarrow> rsVotes cs;
        let (blockID, ok) = TwoThirdsMajority (Commits hvs (rsReplyRound cs));
        let blockParts = parts_at cs (rsPrePrepareBlockParts cs);
        if \<not> ok then None
        else if \<not> HeaderEqualsTo blockParts (bidParts blockID) then None
        else do {
          same \<leftarrow> block_EqualsTo (wEnv W) (wCodec W) (rsPrePrepareBlock cs) (bidHash blockID);
          if \<not> same then None
          else do {
            st \<leftarrow> csState cs;
            block \<leftarrow> rsPrePrepareBlock cs;
            err \<leftarrow> validateBlock (wEnv W) st block;
            if err \<noteq> None then None
            else do {
              store \<leftarrow> (if bsHeight (csBlockStore cs) < hHeight (bHeader block) then do {
                  precommits \<leftarrow> Commits hvs (rsReplyRound cs);
                  seenCommit \<leftarrow> MakeReply precommits;
                  SaveBlock (wEnv W) (wCodec W) (csBlockStore cs) (Some block) blockParts seenCommit
                } else Some (csBlockStore cs));
              let (written, cs1) = wal_Write W (WalEndHeight height) (cs\<lparr>csBlockStore := store\<rparr>);
              if \<not> written then None
              else do {
                (hash, _) \<leftarrow> block_Hash (wEnv W) (wCodec W) (Some block);
                (ex', st', aerr) \<leftarrow> ApplyBlock (wEnv W) (wCodec W) (wApp W) (csBlockExec cs1) st
                    \<lparr>bidHash = hash, bidParts = ps_Header blockParts\<rparr> block;
                let cs2 = cs1\<lparr>csBlockExec := ex'\<rparr>;
                if aerr \<noteq> None then Some cs2
                else do {
                  cs3 \<leftarrow> updateToState W st' cs2;
                  let cs4 = updatePrivValidatorPubKey cs3;
                  Some (scheduleRound0 W (cs4\<lparr>csTrust := csTrust cs4 @ [UpdateGoods]\<rparr>))
                }
              }
            }
          }
        }
      })"

definition tryFinalizeAppend :: "'a world \<Rightarrow> int \<Rightarrow> 'a ConsensusState \<Rightarrow> 'a ConsensusState option" where
  "tryFinalizeAppend W height cs =
     (if rsHeight cs \<noteq> height then None
      else do {
        hvs \<leftarrow> rsVotes cs;
        let (blockID, ok) = TwoThirdsMajority (Commits hvs (rsReplyRound cs));
        if \<not> ok \<or> length (bidHash blockID) = 0 then Some cs
        else do {
          same \<leftarrow> block_EqualsTo (wEnv W) (wCodec W) (rsPrePrepareBlock cs) (bidHash blockID);
          if \<not> same then Some cs else finalizeAppend W height cs
        }
      })"

definition replyBlock :: "'a world \<Rightarrow> BlockID \<Rightarrow> 'a ConsensusState \<Rightarrow> 'a ConsensusState option" where
  "replyBlock W blockID cs = do {
     isLocked \<leftarrow> block_EqualsTo (wEnv W) (wCodec W) (rsLockedBlock cs) (bidHash blockID);
     let cs1 = (if isLocked then cs\<lparr>rsPrePrepareBlock := rsLockedBlock cs, rsPrePrepareBlockParts := rsLockedBlockParts cs\<rparr> else cs);
     isProposal \<leftarrow> block_EqualsTo (wEnv W) (wCodec W) (rsPrePrepareBlock cs1) (bidHash blockID);
     if \<not> isProposal \<and> \<not> HeaderEqualsTo (parts_at cs1 (rsPrePrepareBlockParts cs1)) (bidParts blockID) then do {
       let cs2 = newParts (bidParts blockID) (cs1\<lparr>rsPrePrepareBlock := None\<rparr>);
       cs3 \<leftarrow> publish_logged W (EventValidBlock (rsHeight cs2) (rsRound cs2) (rsStep cs2)) cs2;
       Some (fire FireValidBlock cs3)
     }
     else Some cs1
   }"

definition enterReply :: "'a world \<Rightarrow> int \<Rightarrow> int \<Rightarrow> 'a ConsensusState \<Rightarrow> 'a ConsensusState option" where
  "enterReply W height commitRound cs =
     (if rsHeight cs \<noteq> height \<or> RoundStepReply \<le> rsStep cs then Some cs
      else do {
        hvs \<leftarrow> rsVotes cs;
        cs1 \<leftarrow> replyBlock W (fst (TwoThirdsMajority (Commits hvs commitRound))) cs;
        let (now, cs2) = clock W ((updateRoundStep (rsRound cs1) RoundStepReply cs1)\<lparr>rsReplyRound := commitRound\<rparr>);
        tryFinalizeAppend W height (newStep W (cs2\<lparr>rsCommitTime := now\<rparr>))
      })"

section \<open>Proposals and block parts\<close>

datatype cs_error =
    ErrInvalidProposalPOLRound | ErrInvalidProposalSignature | ErrAddingVote | ErrPubKeyIsNotSet
  | ErrPart part_error | ErrPartsTooBig | ErrDecode | ErrBlock block_error | ErrVote hv_error | ErrPublish

definition setPrePrepare :: "'a world \<Rightarrow> PrePrepare \<Rightarrow> 'a ConsensusState \<Rightarrow> ('a ConsensusState \<times> cs_error option) option" where
  "setPrePrepare W p cs =
     (if rsPrePrepare cs \<noteq> None then Some (cs, None)
      else if prHeight p \<noteq> rsHeight cs \<or> prRound p \<noteq> rsRound cs then Some (cs, None)
      else if prPOLRound p < -1 \<or> 0 \<le> prPOLRound p \<and> prRound p \<le> prPOLRound p then Some (cs, Some ErrInvalidProposalPOLRound)
      else do {
        (val, cs1) \<leftarrow> primaryOf W (rsRound cs) cs;
        st \<leftarrow> csState cs1;
        pk \<leftarrow> valPubKey val;
        signBytes \<leftarrow> PrePrepareSignBytes (wEnv W) (stChainID st) p;
        ok \<leftarrow> pk_VerifySignature (wEnv W) pk signBytes (prSignature p);
        if \<not> ok then Some (cs1, Some ErrInvalidProposalSignature)
        else let cs2 = cs1\<lparr>rsPrePrepare := Some p\<rparr>
             in Some (if rsPrePrepareBlockParts cs2 = None then newParts (bidParts (prBlockID p)) cs2 else cs2, None)
      })"

text \<open>\<open>ioutil.ReadAll\<close>: the bytes read do not depend on the sizes of the buffers, and one byte per read is enough to end.\<close>

definition readBlock :: "PartSet \<Rightarrow> bytes option" where
  "readBlock ps = do {
     rd \<leftarrow> GetReader ps;
     ReadAll rd (replicate (Suc (Suc (length (concat (map (\<lambda>p. case p of None \<Rightarrow> [] | Some q \<Rightarrow> partBytes q) (setParts ps)))))) 512)
   }"

text \<open>What happens once the last part is in and the block is decoded.\<close>

definition completeBlock :: "'a world \<Rightarrow> int \<Rightarrow> Block \<Rightarrow> 'a ConsensusState \<Rightarrow> 'a ConsensusState option" where
  "completeBlock W height decoded cs = do {
     (hash, block) \<leftarrow> block_Hash (wEnv W) (wCodec W) (Some decoded);
     let cs1 = cs\<lparr>rsPrePrepareBlock := block\<rparr>;
     cs2 \<leftarrow> publish_logged W (EventCompleteProposal (rsHeight cs1) (rsRound cs1) (rsStep cs1)
              \<lparr>bidHash = hash, bidParts = ps_Header (parts_at cs1 (rsPrePrepareBlockParts cs1))\<rparr>) cs1;
     hvs \<leftarrow> rsVotes cs2;
     let (blockID, hasTwoThirds) = TwoThirdsMajority (Prepares hvs (rsRound cs2));
     cs3 \<leftarrow> (if hasTwoThirds \<and> \<not> bid_IsZero blockID \<and> rsValidRound cs2 < rsRound cs2 then do {
         same \<leftarrow> block_EqualsTo (wEnv W) (wCodec W) (rsPrePrepareBlock cs2) (bidHash blockID);
         Some (if same then cs2\<lparr>rsValidRound := rsRound cs2, rsValidBlock := rsPrePrepareBlock cs2, rsValidBlockParts := rsPrePrepareBlockParts cs2\<rparr>
               else cs2)
       } else Some cs2);
     complete \<leftarrow> (if rsStep cs3 \<le> RoundStepPrePrepare then isPrePrepareComplete cs3 else Some False);
     if complete then do {
       cs4 \<leftarrow> enterPrepare W height (rsRound cs3) cs3;
       if hasTwoThirds then enterCommit W height (rsRound cs4) cs4 else Some cs4
     }
     else if rsStep cs3 = RoundStepReply then tryFinalizeAppend W height cs3
     else Some cs3
   }"

definition addPrePrepareBlockPart ::
  "'a world \<Rightarrow> int \<Rightarrow> int \<Rightarrow> Part option \<Rightarrow> 'a ConsensusState \<Rightarrow> ('a ConsensusState \<times> bool \<times> cs_error option) option" where
  "addPrePrepareBlockPart W height r npart cs =
     (if rsHeight cs \<noteq> height then Some (cs, False, None)
      else do {
        part \<leftarrow> npart;
        (case rsPrePrepareBlockParts cs of
           None \<Rightarrow> Some (cs, False, None)
         | Some i \<Rightarrow> do {
             st \<leftarrow> csState cs;
             (nps, added, err) \<leftarrow> AddPart (e_Sum (wEnv W)) (parts_at cs (Some i)) part;
             ps \<leftarrow> nps;
             let cs1 = cs\<lparr>csHeap := (csHeap cs)[i := ps]\<rparr>;
             if err \<noteq> None then Some (cs1, added, map_option ErrPart err)
             else if cpMaxBytes (stConsensusParams st) < ps_ByteSize nps then Some (cs1, added, Some ErrPartsTooBig)
             else if added \<and> ps_IsComplete ps then do {
               bz \<leftarrow> readBlock ps;
               (case k_blockDec (wCodec W) bz of
                  None \<Rightarrow> Some (cs1, added, Some ErrDecode)
                | Some pbb \<Rightarrow> do {
                    res \<leftarrow> BlockFromProto (wEnv W) pbb;
                    (case res of
                       Inl e \<Rightarrow> Some (cs1, added, Some (ErrBlock e))
                     | Inr block \<Rightarrow> map_option (\<lambda>cs2. (cs2, added, None)) (completeBlock W height block cs1))
                  })
             }
             else Some (cs1, added, None)
           })
      })"

section \<open>Votes\<close>

definition lastCommitVote :: "'a world \<Rightarrow> Vote \<Rightarrow> 'a ConsensusState \<Rightarrow> ('a ConsensusState \<times> bool \<times> cs_error option) option" where
  "lastCommitVote W vote cs =
     (if rsStep cs \<noteq> RoundStepNewHeight then Some (cs, False, None)
      else do {
        (vs, added, err) \<leftarrow> VoteSets.AddVote (wEnv W) (rsLastCommits cs) (Some vote);
        let cs1 = cs\<lparr>rsLastCommits := Some vs\<rparr>;
        if \<not> added then Some (cs1, added, map_option (ErrVote \<circ> VoteError) err)
        else do {
          (ok, cs2) \<leftarrow> publish W (EventVote vote) cs1;
          if \<not> ok then Some (cs2, added, Some ErrPublish)
          else do {
            let cs3 = fire (FireVote vote) cs2;
            cs4 \<leftarrow> (if ccSkipTimeoutReply (csConfig cs3) \<and> HasAll vs then enterNewRound W (rsHeight cs3) 0 cs3 else Some cs3);
            Some (cs4, added, map_option (ErrVote \<circ> VoteError) err)
          }
        }
      })"

text \<open>A majority of prepares: unlock on a later majority for another block, and remember a valid block. The flag is an early
  return on a failed publication.\<close>

definition prepareMajority :: "'a world \<Rightarrow> Vote \<Rightarrow> BlockID \<Rightarrow> 'a ConsensusState \<Rightarrow> (bool \<times> 'a ConsensusState) option" where
  "prepareMajority W vote blockID cs = do {
     otherBlock \<leftarrow> (if rsLockedBlock cs \<noteq> None \<and> rsLockedRound cs < vRound vote \<and> vRound vote \<le> rsRound cs
                   then map_option Not (block_EqualsTo (wEnv W) (wCodec W) (rsLockedBlock cs) (bidHash blockID)) else Some False);
     (ok, cs1) \<leftarrow> (if otherBlock
                  then publish W (EventUnlock (rsHeight cs) (rsRound cs) (rsStep cs)) (unlock cs) else Some (True, cs));
     if \<not> ok then Some (False, cs1)
     else if length (bidHash blockID) \<noteq> 0 \<and> rsValidRound cs1 < vRound vote \<and> vRound vote = rsRound cs1 then do {
       isProposal \<leftarrow> block_EqualsTo (wEnv W) (wCodec W) (rsPrePrepareBlock cs1) (bidHash blockID);
       let cs2 = (if isProposal
                  then cs1\<lparr>rsValidRound := vRound vote, rsValidBlock := rsPrePrepareBlock cs1, rsValidBlockParts := rsPrePrepareBlockParts cs1\<rparr>
                  else cs1\<lparr>rsPrePrepareBlock := None\<rparr>);
       let cs3 = (if \<not> HeaderEqualsTo (parts_at cs2 (rsPrePrepareBlockParts cs2)) (bidParts blockID) then newParts (bidParts blockID) cs2 else cs2);
       publish W (EventValidBlock (rsHeight cs3) (rsRound cs3) (rsStep cs3)) (fire FireValidBlock cs3)
     }
     else Some (True, cs1)
   }"

definition prepareVote :: "'a world \<Rightarrow> int \<Rightarrow> Vote \<Rightarrow> 'a ConsensusState \<Rightarrow> (bool \<times> 'a ConsensusState) option" where
  "prepareVote W height vote cs = do {
     hvs \<leftarrow> rsVotes cs;
     let prepares = Prepares hvs (vRound vote);
     let (blockID, ok) = TwoThirdsMajority prepares;
     (go, cs1) \<leftarrow> (if ok then prepareMajority W vote blockID cs else Some (True, cs));
     if \<not> go then Some (False, cs1)
     else if rsRound cs1 < vRound vote \<and> HasTwoThirdsAny prepares then map_option (Pair True) (enterNewRound W height (vRound vote) cs1)
     else if rsRound cs1 = vRound vote \<and> RoundStepPrepare \<le> rsStep cs1 then do {
       complete \<leftarrow> (if ok then isPrePrepareComplete cs1 else Some False);
       if ok \<and> (complete \<or> length (bidHash blockID) = 0) then map_option (Pair True) (enterCommit W height (vRound vote) cs1)
       else if HasTwoThirdsAny prepares then map_option (Pair True) (enterPrepareWait W height (vRound vote) cs1)
       else Some (True, cs1)
     }
     else if (case rsPrePrepare cs1 of None \<Rightarrow> False | Some p \<Rightarrow> 0 \<le> prPOLRound p \<and> prPOLRound p = vRound vote) then do {
       complete \<leftarrow> isPrePrepareComplete cs1;
       if complete then map_option (Pair True) (enterPrepare W height (rsRound cs1) cs1) else Some (True, cs1)
     }
     else Some (True, cs1)
   }"

definition precommitVote :: "'a world \<Rightarrow> int \<Rightarrow> Vote \<Rightarrow> 'a ConsensusState \<Rightarrow> 'a ConsensusState option" where
  "precommitVote W height vote cs = do {
     hvs \<leftarrow> rsVotes cs;
     let precommits = Commits hvs (vRound vote);
     let (blockID, ok) = TwoThirdsMajority precommits;
     if ok then do {
       cs1 \<leftarrow> enterNewRound W height (vRound vote) cs;
       cs2 \<leftarrow> enterCommit W height (vRound vote) cs1;
       if length (bidHash blockID) \<noteq> 0 then do {
         cs3 \<leftarrow> enterReply W height (vRound vote) cs2;
         full \<leftarrow> map_option HasAll precommits;
         if ccSkipTimeoutReply (csConfig cs3) \<and> full then enterNewRound W (rsHeight cs3) 0 cs3 else Some cs3
       }
       else enterCommitWait W height (vRound vote) cs2
     }
     else if rsRound cs \<le> vRound vote \<and> HasTwoThirdsAny precommits then do {
       cs1 \<leftarrow> enterNewRound W height (vRound vote) cs;
       enterCommitWait W height (vRound vote) cs1
     }
     else Some cs
   }"

definition cs_addVote :: "'a world \<Rightarrow> Vote \<Rightarrow> string \<Rightarrow> 'a ConsensusState \<Rightarrow> ('a ConsensusState \<times> bool \<times> cs_error option) option" where
  "cs_addVote W vote peerID cs =
     (if add64 (vHeight vote) 1 = rsHeight cs \<and> vType vote = CommitType then lastCommitVote W vote cs
      else if vHeight vote \<noteq> rsHeight cs then Some (cs, False, None)
      else do {
        let height = rsHeight cs;
        hvs \<leftarrow> rsVotes cs;
        (hvs', added, err) \<leftarrow> hv_AddVote (wEnv W) hvs vote peerID;
        let cs1 = cs\<lparr>rsVotes := Some hvs'\<rparr>;
        if \<not> added then Some (cs1, added, map_option ErrVote err)
        else do {
          (ok, cs2) \<leftarrow> publish W (EventVote vote) cs1;
          if \<not> ok then Some (cs2, added, Some ErrPublish)
          else do {
            let cs3 = fire (FireVote vote) cs2;
            if vType vote = PrepareType then do {
              (go, cs4) \<leftarrow> prepareVote W height vote cs3;
              Some (cs4, added, if go then map_option ErrVote err else Some ErrPublish)
            }
            else if vType vote = CommitType then do {
              cs4 \<leftarrow> precommitVote W height vote cs3;
              Some (cs4, added, map_option ErrVote err)
            }
            else None
          }
        }
      })"

definition tryAddVote :: "'a world \<Rightarrow> Vote \<Rightarrow> string \<Rightarrow> 'a ConsensusState \<Rightarrow> ('a ConsensusState \<times> bool \<times> cs_error option) option" where
  "tryAddVote W vote peerID cs = do {
     (cs1, isSuccess, err) \<leftarrow> cs_addVote W vote peerID cs;
     Some (case err of
         None \<Rightarrow> (cs1, isSuccess, None)
       | Some (ErrVote (VoteError (ErrVoteConflictingVotes a b))) \<Rightarrow>
           if csPubKey cs1 = None then (cs1, False, Some ErrPubKeyIsNotSet) else (cs1, isSuccess, err)
       | Some (ErrVote (VoteError ErrVoteNonDeterministicSignature)) \<Rightarrow> (cs1, isSuccess, None)
       | Some _ \<Rightarrow> (cs1, isSuccess, Some ErrAddingVote))
   }"

section \<open>The receive loop\<close>

definition handleMsg :: "'a world \<Rightarrow> msgInfo \<Rightarrow> 'a ConsensusState \<Rightarrow> 'a ConsensusState option" where
  "handleMsg W mi cs =
     (case miMsg mi of
        PrePrepareMessage p \<Rightarrow> map_option fst (setPrePrepare W p cs)
      | BlockPartMessage h r part \<Rightarrow> do {
          (cs1, added, err) \<leftarrow> addPrePrepareBlockPart W h r part cs;
          Some (if added then cs1\<lparr>csStats := csStats cs1 @ [mi]\<rparr> else cs1)
        }
      | VoteMessage v \<Rightarrow> do {
          (cs1, added, err) \<leftarrow> tryAddVote W v (miPeerID mi) cs;
          Some (if added then cs1\<lparr>csStats := csStats cs1 @ [mi]\<rparr> else cs1)
        }
      | _ \<Rightarrow> Some cs)"

definition handleTimeout :: "'a world \<Rightarrow> timeoutInfo \<Rightarrow> 'a ConsensusState \<Rightarrow> 'a ConsensusState option" where
  "handleTimeout W ti cs =
     (if tiHeight ti \<noteq> rsHeight cs \<or> tiRound ti < rsRound cs \<or> tiRound ti = rsRound cs \<and> tiStep ti < rsStep cs then Some cs
      else (case tiStep ti of
          RoundStepNewHeight \<Rightarrow> enterNewRound W (tiHeight ti) 0 cs
        | RoundStepNewRound \<Rightarrow> enterPrePrepare W (tiHeight ti) 0 cs
        | RoundStepPrePrepare \<Rightarrow> do {
            cs1 \<leftarrow> publish_logged W (EventTimeoutPrePrepare (rsHeight cs) (rsRound cs) (rsStep cs)) cs;
            (val, cs2) \<leftarrow> primaryOf W 0 cs1;
            let cs3 = cs2\<lparr>csTrust := csTrust cs2 @ [UpdateBads (valAddress val)]\<rparr>;
            let cs4 = (if csTestTimes cs3 mod 5 = 0 \<and> ccTestWhistleblower (csConfig cs3) then fire (FireTrust (rsHeight cs3)) cs3 else cs3);
            enterPrepare W (tiHeight ti) (tiRound ti) (cs4\<lparr>csTestTimes := (csTestTimes cs4 + 1) mod 1000000\<rparr>)
          }
        | RoundStepPrepareWait \<Rightarrow> do {
            cs1 \<leftarrow> publish_logged W (EventTimeoutWait (rsHeight cs) (rsRound cs) (rsStep cs)) cs;
            enterCommit W (tiHeight ti) (tiRound ti) cs1
          }
        | RoundStepCommitWait \<Rightarrow> do {
            cs1 \<leftarrow> publish_logged W (EventTimeoutWait (rsHeight cs) (rsRound cs) (rsStep cs)) cs;
            cs2 \<leftarrow> enterCommit W (tiHeight ti) (tiRound ti) cs1;
            enterNewRound W (tiHeight ti) (add32 (tiRound ti) 1) cs2
          }
        | _ \<Rightarrow> None))"

definition handleTxsAvailable :: "'a world \<Rightarrow> 'a ConsensusState \<Rightarrow> 'a ConsensusState option" where
  "handleTxsAvailable W cs =
     (if rsRound cs \<noteq> 0 then Some cs
      else (case rsStep cs of
          RoundStepNewHeight \<Rightarrow> do {
            proofBlock \<leftarrow> needProofBlock W (rsHeight cs) cs;
            if proofBlock then Some cs
            else let (now, cs1) = clock W cs
                 in Some (scheduleTimeout (add64 (time_Sub (rsStartTime cs1) now) 1000000) (rsHeight cs1) 0 RoundStepNewRound cs1)
          }
        | RoundStepNewRound \<Rightarrow> enterPrePrepare W (rsHeight cs) 0 cs
        | _ \<Rightarrow> Some cs))"

text \<open>One turn of \<open>receiveRoutine\<close>. An internal message is any one that is under way; writing it to the log must succeed.\<close>

datatype input = TxsAvailable | PeerMsg msgInfo | InternalMsg nat | Tock timeoutInfo

definition receiveRoutine :: "'a world \<Rightarrow> input \<Rightarrow> 'a ConsensusState \<Rightarrow> 'a ConsensusState option" where
  "receiveRoutine W inp cs =
     (case inp of
        TxsAvailable \<Rightarrow> handleTxsAvailable W cs
      | PeerMsg mi \<Rightarrow> handleMsg W mi (snd (wal_Write W (WalMsgInfo mi) cs))
      | InternalMsg i \<Rightarrow>
          if i < length (csInternal cs) then
            let mi = csInternal cs ! i;
                (ok, cs1) = wal_Write W (WalMsgInfo mi) (cs\<lparr>csInternal := take i (csInternal cs) @ drop (Suc i) (csInternal cs)\<rparr>)
            in if ok then handleMsg W mi cs1 else None
          else Some cs
      | Tock ti \<Rightarrow> handleTimeout W ti (snd (wal_Write W (WalTimeout ti) cs)))"

section \<open>Starting\<close>

definition reconstructLastCommit :: "'a world \<Rightarrow> State \<Rightarrow> 'a ConsensusState \<Rightarrow> 'a ConsensusState option" where
  "reconstructLastCommit W state cs = do {
     seen \<leftarrow> LoadSeenReply (csBlockStore cs) (stLastBlockHeight state);
     seenCommit \<leftarrow> seen;
     lastPrecommits \<leftarrow> ReplyToVoteSet (wEnv W) (stChainID state) seenCommit (stLastValidators state);
     if \<not> HasTwoThirdsMajority (Some lastPrecommits) then None
     else Some (cs\<lparr>rsLastCommits := Some lastPrecommits\<rparr>)
   }"

definition zeroState :: "ConsensusConfig \<Rightarrow> 'a BlockExecutor \<Rightarrow> BlockStore \<Rightarrow> 'a ConsensusState" where
  "zeroState config blockExec blockStore =
     (let none = \<lparr>vsValidators = [], vsPrimary = None\<rparr> in
      \<lparr>rsHeight = 0, rsRound = 0, rsStep = RoundStepNewHeight, rsStartTime = zero_time, rsCommitTime = zero_time, rsValidators = none,
       rsPrePrepare = None, rsPrePrepareBlock = None, rsPrePrepareBlockParts = None, rsLockedRound = 0, rsLockedBlock = None,
       rsLockedBlockParts = None, rsValidRound = 0, rsValidBlock = None, rsValidBlockParts = None, rsVotes = None, rsReplyRound = 0,
       rsLastCommits = None, rsLastValidators = none, rsTriggeredTimeoutCommit = False,
       csConfig = config, csPrivValidator = None, csBlockStore = blockStore, csBlockExec = blockExec, csState = None, csPubKey = None,
       csInternal = [], csStats = [], csTicks = [], csWal = [], csWalOpen = False, csEventBus = False, csEvents = [], csTrust = [],
       csTestTimes = 1, csHeap = [], csCalls = 0\<rparr>)"

definition NewState :: "'a world \<Rightarrow> ConsensusConfig \<Rightarrow> State \<Rightarrow> 'a BlockExecutor \<Rightarrow> BlockStore \<Rightarrow> 'a ConsensusState option" where
  "NewState W config state blockExec blockStore = do {
     let cs = zeroState config blockExec blockStore;
     cs1 \<leftarrow> (if 0 < stLastBlockHeight state then reconstructLastCommit W state cs else Some cs);
     updateToState W state cs1
   }"

definition SetEventBus :: "'a ConsensusState \<Rightarrow> 'a ConsensusState" where
  "SetEventBus cs = cs\<lparr>csEventBus := True\<rparr>"

definition SetPrivValidator :: "FilePV \<Rightarrow> disk \<Rightarrow> 'a ConsensusState \<Rightarrow> 'a ConsensusState" where
  "SetPrivValidator pv d cs = updatePrivValidatorPubKey (cs\<lparr>csPrivValidator := Some (pv, d)\<rparr>)"

text \<open>Starting with an empty log: the log file is opened, nothing is replayed, and round 0 is scheduled.\<close>

definition OnStart :: "'a world \<Rightarrow> 'a ConsensusState \<Rightarrow> 'a ConsensusState" where
  "OnStart W cs = scheduleRound0 W (cs\<lparr>csWalOpen := True\<rparr>)"

definition LoadCommit :: "int \<Rightarrow> 'a ConsensusState \<Rightarrow> Reply option option" where
  "LoadCommit height cs =
     (if height = bsHeight (csBlockStore cs) then LoadSeenReply (csBlockStore cs) height else LoadBlockReply (csBlockStore cs) height)"

end
