(* ===== verification/ConsensusLocks.thy ===== *)
theory ConsensusLocks
  imports Consensus
begin

text \<open>
  The discipline of one node at one height: which votes it signs, and how its lock changes. The votes it has
  received (\<open>R\<close>) and sent (\<open>S\<close>) are the history; the invariant \<open>NI\<close> relates them to the state of the machine
  and is kept by every handler. From it follow the facts that carry agreement: one commit vote per round, a
  commit vote only with a majority of prepares, and a prepare vote against an earlier commit vote only after a
  later majority of prepares.
\<close>

section \<open>The setting\<close>

text \<open>Besides the world and the height, a setting marks a moment of the run: the votes sent by then and the round reached.\<close>

record 'a setting =
  xW :: "'a world"
  xChain :: bytes
  xHeight :: int
  xVals :: ValidatorSet
  xOld :: "Vote set"
  xFrom :: int

abbreviation xE :: "'a setting \<Rightarrow> env" where "xE X \<equiv> wEnv (xW X)"
abbreviation xK :: "'a setting \<Rightarrow> codec" where "xK X \<equiv> wCodec (xW X)"

text \<open>The block decoder only returns times it can encode, as the generated code does.\<close>

definition world_ok :: "'a setting \<Rightarrow> bool" where
  "world_ok X \<longleftrightarrow> 0 < xHeight X \<and> xHeight X < 2 ^ 63 \<and> (\<forall>bz. length (e_Sum (xE X) bz) = 32) \<and>
     (\<forall>bz b. k_blockDec (xK X) bz = Some b \<longrightarrow> e_timeEnc (xE X) (hTime (bHeader b)) \<noteq> None)"

text \<open>The validators that have power share it equally, as in a vote set; others may have power zero.\<close>

definition setting_ok :: "'a setting \<Rightarrow> bool" where
  "setting_ok X \<longleftrightarrow> world_ok X \<and> vals_shared_power (xVals X)"

text \<open>The validators with a valid vote of a type and round for a block among some votes, and that those of them with power
  are a quorum of all that have power.\<close>

definition backers :: "'a setting \<Rightarrow> Vote set \<Rightarrow> int \<Rightarrow> int \<Rightarrow> BlockID \<Rightarrow> nat set" where
  "backers X R t r b = {i. \<exists>v\<in>R. valid_vote (xE X) (xChain X, xHeight X, r, t, xVals X) i v \<and> vBlockID v = b}"

definition quorum_for :: "'a setting \<Rightarrow> Vote set \<Rightarrow> int \<Rightarrow> int \<Rightarrow> BlockID \<Rightarrow> bool" where
  "quorum_for X R t r b \<longleftrightarrow> 76 * card (powered (xVals X)) \<le> 100 * card (backers X R t r b \<inter> powered (xVals X))"

definition bhash :: "'a setting \<Rightarrow> Block \<Rightarrow> bytes" where
  "bhash X b = (case block_Hash (xE X) (xK X) (Some b) of None \<Rightarrow> [] | Some (x, _) \<Rightarrow> x)"

lemma backers_finite: "finite (backers X R t r b)" "backers X R t r b \<subseteq> {..<length (vsValidators (xVals X))}"
proof -
  show "backers X R t r b \<subseteq> {..<length (vsValidators (xVals X))}" by (auto simp: backers_def)
  then show "finite (backers X R t r b)" using finite_subset by blast
qed

lemma backers_mono: "R \<subseteq> R' \<Longrightarrow> backers X R t r b \<subseteq> backers X R' t r b"
  by (auto simp: backers_def)

lemma quorum_mono: "quorum_for X R t r b \<Longrightarrow> R \<subseteq> R' \<Longrightarrow> quorum_for X R' t r b"
  using card_mono[OF _ Int_mono[OF backers_mono[of R R' X t r b] subset_refl[of "powered (xVals X)"]]] by (auto simp: quorum_for_def)

lemma EqualsTo_True: "block_EqualsTo (xE X) (xK X) (Some b) x = Some True \<Longrightarrow> bhash X b = x \<and> x \<noteq> []"
  by (auto simp: block_EqualsTo_def bhash_def split: if_splits)

lemma EqualsTo_False: "block_EqualsTo (xE X) (xK X) (Some b) x = Some False \<Longrightarrow> x \<noteq> [] \<Longrightarrow> bhash X b \<noteq> x"
  by (auto simp: block_EqualsTo_def bhash_def split: if_splits)

lemma EqualsTo_None: "block_EqualsTo E K None x = Some False"
  by (simp add: block_EqualsTo_def)

lemma EqualsTo_D: "block_EqualsTo (xE X) (xK X) nb x = Some True \<Longrightarrow> \<exists>b. nb = Some b \<and> bhash X b = x \<and> x \<noteq> []"
  by (cases nb) (auto simp: EqualsTo_None dest: EqualsTo_True)

section \<open>What the steps leave unchanged\<close>

definition sent :: "'a ConsensusState \<Rightarrow> Vote set" where
  "sent cs = {v. \<exists>m\<in>set (csInternal cs). miMsg m = VoteMessage v}"

definition core :: "'a ConsensusState \<Rightarrow> _" where
  "core cs = (rsHeight cs, rsRound cs, rsStep cs, (rsLockedRound cs, rsLockedBlock cs, rsLockedBlockParts cs),
     (rsPrePrepareBlock cs, rsPrePrepareBlockParts cs), rsVotes cs, (csHeap cs, csTicks cs, sent cs, csState cs))"

lemma core_clock [simp]: "core (snd (clock W cs)) = core cs" "clock W cs = (x, cs') \<Longrightarrow> core cs' = core cs"
  by (auto simp: clock_def core_def sent_def)

lemma core_outcome [simp]: "core (snd (outcome W cs)) = core cs" "outcome W cs = (x, cs') \<Longrightarrow> core cs' = core cs"
  by (auto simp: outcome_def core_def sent_def)

lemma core_wal [simp]: "core (snd (wal_Write W m cs)) = core cs" "wal_Write W m cs = (x, cs') \<Longrightarrow> core cs' = core cs"
  "core (snd (wal_FlushAndSync W cs)) = core cs" "wal_FlushAndSync W cs = (x, cs') \<Longrightarrow> core cs' = core cs"
  by (auto simp: wal_Write_def wal_FlushAndSync_def outcome_def core_def sent_def split: if_splits)

lemma core_publish: "publish W ev cs = Some (x, cs') \<Longrightarrow> core cs' = core cs" "publish_logged W ev cs = Some cs' \<Longrightarrow> core cs' = core cs"
  by (auto simp: publish_def publish_logged_def outcome_def core_def sent_def split: if_splits)

lemma core_fire [simp]: "core (fire ev cs) = core cs"
  by (simp add: fire_def core_def sent_def)

lemma core_newStep [simp]: "core (newStep W cs) = core cs"
proof -
  have "core (case publish_logged W ev c of None \<Rightarrow> c | Some d \<Rightarrow> fire FireNewRoundStep d) = core c" for ev c
    by (cases "publish_logged W ev c") (auto dest: core_publish)
  then show ?thesis by (simp add: newStep_def Let_def)
qed

lemma core_primaryOf: "primaryOf W n cs = Some (v, cs') \<Longrightarrow> core cs' = core cs"
  by (auto simp: primaryOf_def core_def sent_def bind_Some)

lemma core_voteTime [simp]: "core (snd (voteTime W st cs)) = core cs" "voteTime W st cs = (x, cs') \<Longrightarrow> core cs' = core cs"
  by (auto simp: voteTime_def Let_def core_def sent_def clock_def)

lemma core_pubkey [simp]: "core (updatePrivValidatorPubKey cs) = core cs"
  by (auto simp: updatePrivValidatorPubKey_def core_def sent_def split: option.splits prod.splits)

lemma core_other [simp]: "core (cs\<lparr>csPrivValidator := a\<rparr>) = core cs" "core (cs\<lparr>csBlockStore := b\<rparr>) = core cs" "core (cs\<lparr>csBlockExec := ex\<rparr>) = core cs"
  "core (cs\<lparr>csStats := s\<rparr>) = core cs" "core (cs\<lparr>csTrust := t\<rparr>) = core cs" "core (cs\<lparr>csTestTimes := n\<rparr>) = core cs" "core (cs\<lparr>rsValidators := vs\<rparr>) = core cs"
  "core (cs\<lparr>rsPrePrepare := p\<rparr>) = core cs" "core (cs\<lparr>rsTriggeredTimeoutCommit := q\<rparr>) = core cs" "core (cs\<lparr>rsCommitTime := n'\<rparr>) = core cs"
  "core (cs\<lparr>rsReplyRound := n'\<rparr>) = core cs" "core (cs\<lparr>rsLastCommits := lc\<rparr>) = core cs"
  "core (cs\<lparr>rsValidRound := n', rsValidBlock := vb, rsValidBlockParts := vp\<rparr>) = core cs"
  by (simp_all add: core_def sent_def)

lemma coreD: "core cs' = core cs \<Longrightarrow> rsHeight cs' = rsHeight cs \<and> rsRound cs' = rsRound cs \<and> rsStep cs' = rsStep cs \<and> rsLockedRound cs' = rsLockedRound cs \<and>
    rsLockedBlock cs' = rsLockedBlock cs \<and> rsLockedBlockParts cs' = rsLockedBlockParts cs \<and> rsPrePrepareBlock cs' = rsPrePrepareBlock cs \<and>
    rsPrePrepareBlockParts cs' = rsPrePrepareBlockParts cs \<and> rsVotes cs' = rsVotes cs \<and> csHeap cs' = csHeap cs \<and> csTicks cs' = csTicks cs \<and>
    sent cs' = sent cs \<and> csState cs' = csState cs"
  by (simp add: core_def)

section \<open>The invariant\<close>

abbreviation at_height :: "'a setting \<Rightarrow> Vote \<Rightarrow> bool" where "at_height X v \<equiv> vHeight v = xHeight X"
abbreviation vhash :: "Vote \<Rightarrow> bytes" where "vhash v \<equiv> bidHash (vBlockID v)"

definition prepared :: "'a setting \<Rightarrow> Vote set \<Rightarrow> int \<Rightarrow> bytes \<Rightarrow> bool" where
  "prepared X R r x \<longleftrightarrow> (\<exists>b. quorum_for X R PrepareType r b \<and> bidHash b = x)"

text \<open>A later majority of prepares for something else than \<open>x\<close>, not after round \<open>r'\<close>.\<close>

definition overruled :: "'a setting \<Rightarrow> Vote set \<Rightarrow> int \<Rightarrow> int \<Rightarrow> bytes \<Rightarrow> bool" where
  "overruled X R r r' x \<longleftrightarrow> (\<exists>q y. r < q \<and> q \<le> r' \<and> prepared X R q y \<and> y \<noteq> x)"

definition commits_once :: "'a setting \<Rightarrow> Vote set \<Rightarrow> bool" where
  "commits_once X S \<longleftrightarrow> (\<forall>u\<in>S. \<forall>v\<in>S. at_height X u \<and> at_height X v \<and> vType u = CommitType \<and> vType v = CommitType \<and> vRound u = vRound v \<longrightarrow> vhash u = vhash v)"

definition commits_prepared :: "'a setting \<Rightarrow> Vote set \<Rightarrow> Vote set \<Rightarrow> bool" where
  "commits_prepared X R S \<longleftrightarrow> (\<forall>u\<in>S. at_height X u \<and> vType u = CommitType \<and> vhash u \<noteq> [] \<longrightarrow> prepared X R (vRound u) (vhash u))"

definition prepares_loyal :: "'a setting \<Rightarrow> Vote set \<Rightarrow> Vote set \<Rightarrow> bool" where
  "prepares_loyal X R S \<longleftrightarrow> (\<forall>u\<in>S. \<forall>p\<in>S. at_height X u \<and> at_height X p \<and> vType u = CommitType \<and> vType p = PrepareType \<and> vhash u \<noteq> [] \<and>
     vRound u < vRound p \<and> vhash p \<noteq> vhash u \<longrightarrow> overruled X R (vRound u) (vRound p) (vhash u))"

text \<open>What is sent after the mark is of the marked round or a later one.\<close>

definition sends_later :: "'a setting \<Rightarrow> Vote set \<Rightarrow> bool" where
  "sends_later X S \<longleftrightarrow> (\<forall>u\<in>S. at_height X u \<longrightarrow> u \<in> xOld X \<or> xFrom X \<le> vRound u)"

definition history_ok :: "'a setting \<Rightarrow> Vote set \<Rightarrow> Vote set \<Rightarrow> bool" where
  "history_ok X R S \<longleftrightarrow> commits_once X S \<and> commits_prepared X R S \<and> prepares_loyal X R S \<and> sends_later X S"

definition votes_inv :: "'a setting \<Rightarrow> Vote set \<Rightarrow> HeightVoteSet option \<Rightarrow> bool" where
  "votes_inv X R hv \<longleftrightarrow> (\<exists>hvs. hv = Some hvs \<and> hv_inv (xE X) R hvs \<and> hvChainID hvs = xChain X \<and> hvHeight hvs = xHeight X \<and> hvValSet hvs = xVals X)"

definition sent_inv :: "'a setting \<Rightarrow> Vote set \<Rightarrow> int \<Rightarrow> RoundStepType \<Rightarrow> bool" where
  "sent_inv X S r s \<longleftrightarrow> (\<forall>u\<in>S. at_height X u \<longrightarrow> vRound u < r \<or> vRound u = r \<and> (vType u = PrepareType \<longrightarrow> RoundStepPrepare \<le> s) \<and> (vType u = CommitType \<longrightarrow> RoundStepCommit \<le> s))"

definition lock_inv :: "'a setting \<Rightarrow> Vote set \<Rightarrow> Vote set \<Rightarrow> int \<Rightarrow> int \<Rightarrow> Block option \<Rightarrow> bool" where
  "lock_inv X R S r lr lb \<longleftrightarrow> (\<forall>u\<in>S. at_height X u \<and> vType u = CommitType \<and> vhash u \<noteq> [] \<longrightarrow>
     (\<exists>b. lb = Some b \<and> bhash X b = vhash u \<and> vRound u \<le> lr) \<or> overruled X R (vRound u) r (vhash u))"

definition ticks_inv :: "'a setting \<Rightarrow> int \<Rightarrow> timeoutInfo list \<Rightarrow> bool" where
  "ticks_inv X r tis \<longleftrightarrow> (\<forall>ti\<in>set tis. tiHeight ti = xHeight X \<longrightarrow> tiRound ti \<le> r)"

definition good_header :: "PartSet \<Rightarrow> bool" where
  "good_header ps \<longleftrightarrow> 0 < setTotal ps \<and> setTotal ps < 2 ^ 32 \<and> length (setHash ps) = 32"

definition block_inv :: "'a setting \<Rightarrow> PartSet list \<Rightarrow> Block option \<Rightarrow> nat option \<Rightarrow> bool" where
  "block_inv X heap nb p \<longleftrightarrow> (\<forall>b. nb = Some b \<longrightarrow> length (bhash X b) = 32 \<and> (\<exists>i. p = Some i \<and> i < length heap))"

definition parts_inv :: "'a setting \<Rightarrow> 'a ConsensusState \<Rightarrow> bool" where
  "parts_inv X cs \<longleftrightarrow> (\<forall>ps\<in>set (csHeap cs). good_header ps) \<and> block_inv X (csHeap cs) (rsLockedBlock cs) (rsLockedBlockParts cs) \<and>
     block_inv X (csHeap cs) (rsPrePrepareBlock cs) (rsPrePrepareBlockParts cs) \<and>
     (\<forall>i. rsPrePrepareBlockParts cs = Some i \<longrightarrow> i < length (csHeap cs))"

definition sent_good :: "'a ConsensusState \<Rightarrow> bool" where
  "sent_good cs \<longleftrightarrow> (\<forall>v\<in>sent cs. good_bid (vBlockID v))"

text \<open>The chain state is the one the height follows on.\<close>

definition state_inv :: "'a setting \<Rightarrow> State option \<Rightarrow> bool" where
  "state_inv X nst \<longleftrightarrow> (\<exists>st. nst = Some st \<and> 0 \<le> stLastBlockHeight st \<and>
     xHeight X = (if stLastBlockHeight st = 0 then stInitialHeight st else add64 (stLastBlockHeight st) 1))"

definition NI :: "'a setting \<Rightarrow> Vote set \<Rightarrow> Vote set \<Rightarrow> 'a ConsensusState \<Rightarrow> bool" where
  "NI X R S cs \<longleftrightarrow> rsHeight cs = xHeight X \<and> 0 \<le> rsRound cs \<and> xFrom X \<le> rsRound cs \<and> votes_inv X R (rsVotes cs) \<and> sent_inv X (S \<union> sent cs) (rsRound cs) (rsStep cs) \<and>
     lock_inv X R (S \<union> sent cs) (rsRound cs) (rsLockedRound cs) (rsLockedBlock cs) \<and> ticks_inv X (rsRound cs) (csTicks cs) \<and>
     parts_inv X cs \<and> sent_good cs \<and> state_inv X (csState cs) \<and> history_ok X R (S \<union> sent cs)"

lemmas history_defs = history_ok_def commits_once_def commits_prepared_def prepares_loyal_def sends_later_def

lemma NI_core: "core cs' = core cs \<Longrightarrow> NI X R S cs' = NI X R S cs"
  using coreD[of cs' cs] by (simp add: NI_def parts_inv_def sent_good_def)

lemma NI_coreD: "NI X R S cs \<Longrightarrow> core cs' = core cs \<Longrightarrow> NI X R S cs'"
  using NI_core by blast

section \<open>Growth of the history\<close>

lemma prepared_mono: "prepared X R r x \<Longrightarrow> R \<subseteq> R' \<Longrightarrow> prepared X R' r x"
  unfolding prepared_def using quorum_mono by blast

lemma overruled_mono: "overruled X R r r' x \<Longrightarrow> R \<subseteq> R' \<Longrightarrow> r' \<le> r'' \<Longrightarrow> overruled X R' r r'' x"
  unfolding overruled_def by (meson order_trans prepared_mono)

lemma history_mono: "history_ok X R S \<Longrightarrow> R \<subseteq> R' \<Longrightarrow> history_ok X R' S"
  unfolding history_defs by (meson order_refl overruled_mono prepared_mono)

lemma lock_mono: "lock_inv X R S r lr lb \<Longrightarrow> R \<subseteq> R' \<Longrightarrow> r \<le> r' \<Longrightarrow> lock_inv X R' S r' lr lb"
  unfolding lock_inv_def by (meson overruled_mono)

lemma sent_inv_mono: "sent_inv X S r s \<Longrightarrow> r < r' \<or> r = r' \<and> s \<le> s' \<Longrightarrow> sent_inv X S r' s'"
  unfolding sent_inv_def by (elim disjE) (fastforce intro: order_trans)+

lemma ticks_mono: "ticks_inv X r ts \<Longrightarrow> r \<le> r' \<Longrightarrow> ticks_inv X r' ts"
  unfolding ticks_inv_def by (meson order_trans)

lemma majority_quorum:
  assumes "votes_inv X R (Some hvs)" "hv_maj hvs t r = Some b" "IsVoteTypeValid t"
  shows "quorum_for X R t r b \<and> good_bid b"
proof -
  obtain rvs where rvs: "hvSets hvs r = Some rvs" "vtMaj23 (if t = PrepareType then rvPrepares rvs else rvPrecommits rvs) = Some b"
    using assms(2) by (auto simp: hv_maj_def split: option.splits)
  let ?vs = "if t = PrepareType then rvPrepares rvs else rvPrecommits rvs"
  have ok: "set_ok (xE X) R (xChain X, xHeight X, r, t, xVals X) ?vs"
    using assms(1,3) rvs(1) by (auto simp: votes_inv_def hv_inv_def hv_ctx_def IsVoteTypeValid_def)
  then have v: "vt_reach (xE X) ?vs" "ctx_of ?vs = (xChain X, xHeight X, r, t, xVals X)" "stored ?vs \<subseteq> R" by (simp_all add: set_ok_def)
  have "voters (xE X) ?vs b \<subseteq> backers X R t r b" using voters_stored[of _ "xE X" ?vs b] v(2,3) by (fastforce simp: backers_def)
  then have "card (voters (xE X) ?vs b \<inter> powered (xVals X)) \<le> card (backers X R t r b \<inter> powered (xVals X))" by (intro card_mono) auto
  moreover have "vtVals ?vs = xVals X" using v(2) by (simp add: ctx_of_def)
  ultimately have "quorum_for X R t r b" using majority_share[OF v(1) rvs(2)] by (simp add: quorum_for_def)
  moreover have "good_bid b" using vt_reach_inv[OF v(1)] rvs(2) by (auto simp: vt_inv_def maj_ok_def)
  ultimately show ?thesis by blast
qed

lemma good_bid_complete: "good_bid b \<Longrightarrow> bidHash b \<noteq> [] \<Longrightarrow> length (bidHash b) = 32 \<and> good_header (NewPartSetFromHeader (bidParts b))"
  by (auto simp: good_bid_def bid_IsZero_def bid_IsComplete_def good_header_def NewPartSetFromHeader_def srhash_Size_def bid_typed_def)

lemma good_header_bid: "length x = 32 \<Longrightarrow> good_header ps \<Longrightarrow> good_bid \<lparr>bidHash = x, bidParts = ps_Header (Some ps)\<rparr>"
  by (simp add: good_bid_def bid_IsComplete_def good_header_def ps_Header_def srhash_Size_def bid_typed_def)

lemma good_bid_zero: "good_bid \<lparr>bidHash = [], bidParts = zero_psh\<rparr>"
  by (simp add: good_bid_def bid_IsZero_def zero_psh_def psh_IsZero_def bid_typed_def)


section \<open>Elementary changes\<close>

lemma sent_upd [simp]: "sent (updateRoundStep r s cs) = sent cs" "sent (scheduleTimeout d h r s cs) = sent cs" "sent (unlock cs) = sent cs"
  by (simp_all add: sent_def updateRoundStep_def scheduleTimeout_def unlock_def)

lemma NI_raise:
  assumes "NI X R S cs" "rsRound cs < r \<or> rsRound cs = r \<and> rsStep cs \<le> s"
  shows "NI X R S (updateRoundStep r s cs)"
proof -
  have "rsRound cs \<le> r" using assms(2) by auto
  then show ?thesis
    using assms sent_inv_mono[OF _ assms(2), of X "S \<union> sent cs"] lock_mono[of X R "S \<union> sent cs" "rsRound cs" _ _ R r] ticks_mono[of X "rsRound cs" _ r]
    by (auto simp: NI_def parts_inv_def sent_good_def) (auto simp: updateRoundStep_def)
qed

lemma NI_tick: "NI X R S cs \<Longrightarrow> (h = xHeight X \<Longrightarrow> r \<le> rsRound cs) \<Longrightarrow> NI X R S (scheduleTimeout d h r s cs)"
  by (auto simp: NI_def parts_inv_def sent_good_def ticks_inv_def) (auto simp: scheduleTimeout_def)

lemma NI_votes:
  assumes "NI X R S cs" "votes_inv X R' (Some hvs)" "R \<subseteq> R'"
  shows "NI X R' S (cs\<lparr>rsVotes := Some hvs\<rparr>)"
  using assms lock_mono[of X R "S \<union> sent cs" "rsRound cs" "rsLockedRound cs" "rsLockedBlock cs" R' "rsRound cs"] history_mono[of X R "S \<union> sent cs" R']
  by (auto simp: NI_def parts_inv_def sent_good_def sent_def)

lemma block_inv_append: "block_inv X heap nb p \<Longrightarrow> block_inv X (heap @ ys) nb p"
  by (auto simp: block_inv_def)

lemma NI_newParts:
  assumes "NI X R S cs" "good_header (NewPartSetFromHeader hdr)"
  shows "NI X R S (newParts hdr cs)" "NI X R S (newParts hdr (cs\<lparr>rsPrePrepareBlock := None\<rparr>))"
  using assms block_inv_append[of X "csHeap cs" "rsLockedBlock cs" "rsLockedBlockParts cs" "[NewPartSetFromHeader hdr]"]
  by (auto simp: NI_def newParts_def parts_inv_def sent_good_def sent_def block_inv_def)

lemma NI_proposalBlock:
  assumes "NI X R S cs" "block_inv X (csHeap cs) nb p" "\<forall>i. p = Some i \<longrightarrow> i < length (csHeap cs)"
  shows "NI X R S (cs\<lparr>rsPrePrepareBlock := nb, rsPrePrepareBlockParts := p\<rparr>)"
  using assms by (auto simp: NI_def parts_inv_def sent_good_def sent_def)

lemma NI_noBlock: "NI X R S cs \<Longrightarrow> NI X R S (cs\<lparr>rsPrePrepareBlock := None\<rparr>)"
  by (auto simp: NI_def parts_inv_def sent_good_def sent_def block_inv_def)

lemma NI_dropProposal: "NI X R S cs \<Longrightarrow> NI X R S (cs\<lparr>rsPrePrepare := None, rsPrePrepareBlock := None, rsPrePrepareBlockParts := None\<rparr>)"
  by (auto simp: NI_def parts_inv_def sent_good_def sent_def block_inv_def)

lemma NI_heap:
  assumes "NI X R S cs" "good_header ps"
  shows "NI X R S (cs\<lparr>csHeap := (csHeap cs)[i := ps]\<rparr>)"
  using assms set_update_subset_insert[of "csHeap cs" i ps] by (auto simp: NI_def parts_inv_def sent_good_def sent_def block_inv_def)

section \<open>Casting a vote\<close>

definition casts :: "int \<Rightarrow> bytes \<Rightarrow> PartSetHeader \<Rightarrow> 'a ConsensusState \<Rightarrow> 'a ConsensusState \<Rightarrow> bool" where
  "casts t x hdr cs cs' \<longleftrightarrow> core cs' = core cs \<or>
     (\<exists>v. vType v = t \<and> vHeight v = rsHeight cs \<and> vRound v = rsRound cs \<and> vBlockID v = \<lparr>bidHash = x, bidParts = hdr\<rparr> \<and>
        core cs' = core (sendInternalMessage (VoteMessage v) cs))"

lemma cs_signVote_casts:
  assumes "cs_signVote W t x hdr cs = Some (nv, cs')"
  shows "core cs' = core cs \<and> (\<forall>v. nv = Some v \<longrightarrow> vType v = t \<and> vHeight v = rsHeight cs \<and> vRound v = rsRound cs \<and> vBlockID v = \<lparr>bidHash = x, bidParts = hdr\<rparr>)"
proof -
  obtain fl cs1 where f: "wal_FlushAndSync W cs = (fl, cs1)" by fastforce
  have c1: "core cs1 = core cs" using f by simp
  show ?thesis
  proof (cases "fl \<and> csPubKey cs1 \<noteq> None")
    case True
    then obtain pk where pk: "csPubKey cs1 = Some pk" by blast
    obtain addr st where a: "pk_Address (wEnv W) pk = Some addr" "csState cs1 = Some st"
      using assms f True pk by (auto simp: cs_signVote_def bind_Some)
    obtain tm cs2 where tm: "voteTime W st cs1 = (tm, cs2)" by fastforce
    obtain now cs3 where cl: "clock W cs2 = (now, cs3)" by fastforce
    obtain io cs4 where oc: "outcome W cs3 = (io, cs4)" by fastforce
    have c4: "core cs4 = core cs" "core cs2 = core cs" using c1 tm cl oc by simp_all
    show ?thesis
      using assms f True pk a tm cl oc c4 coreD[OF c4(2)] by (auto simp: cs_signVote_def bind_Some Let_def split: if_splits)
  next
    case False
    then show ?thesis using assms f c1 by (auto simp: cs_signVote_def bind_Some split: option.splits if_splits)
  qed
qed

lemma sent_send: "sent (sendInternalMessage m cs) = (case m of VoteMessage v \<Rightarrow> insert v (sent cs) | _ \<Rightarrow> sent cs)"
  by (auto simp: sent_def sendInternalMessage_def split: Message.splits)

lemma core_send: "core cs1 = core cs \<Longrightarrow> core (sendInternalMessage m cs1) = core (sendInternalMessage m cs)"
  using sent_send[of m cs] sent_send[of m cs1] by (auto simp: core_def split: Message.splits) (auto simp: sendInternalMessage_def)

lemma signAddVote_casts: "signAddVote W t x hdr cs = Some cs' \<Longrightarrow> casts t x hdr cs cs'"
proof -
  assume a: "signAddVote W t x hdr cs = Some cs'"
  consider "cs' = cs" | nv cs1 where "cs_signVote W t x hdr cs = Some (nv, cs1)" "cs' = (case nv of None \<Rightarrow> cs1 | Some v \<Rightarrow> sendInternalMessage (VoteMessage v) cs1)"
  proof (cases "csPrivValidator cs = None \<or> csPubKey cs = None \<or> \<not> HasAddress (rsValidators cs) (the (pk_Address (wEnv W) (the (csPubKey cs))))")
    case True
    then show ?thesis using a that(1) by (cases "csPubKey cs") (auto simp: signAddVote_def bind_Some split: if_splits)
  next
    case False
    then obtain pk where "csPubKey cs = Some pk" by auto
    then show ?thesis using a that(2) False by (auto simp: signAddVote_def bind_Some split: if_splits)
  qed
  then show ?thesis
  proof cases
    case 2
    then show ?thesis using cs_signVote_casts[OF 2(1)] core_send[of cs1 cs] by (cases nv) (auto simp: casts_def)
  qed (simp add: casts_def)
qed

lemma casts_sent:
  assumes "casts t x hdr cs cs'"
  shows "sent cs' = sent cs \<and> core cs' = core cs \<or>
    (\<exists>v. sent cs' = insert v (sent cs) \<and> vType v = t \<and> vHeight v = rsHeight cs \<and> vRound v = rsRound cs \<and> vBlockID v = \<lparr>bidHash = x, bidParts = hdr\<rparr>)"
  using assms unfolding casts_def by (elim disjE exE conjE) (auto dest!: coreD simp: sent_send)

lemma casts_fields:
  assumes "casts t x hdr cs cs'"
  shows "rsHeight cs' = rsHeight cs \<and> rsRound cs' = rsRound cs \<and> rsStep cs' = rsStep cs \<and> rsLockedRound cs' = rsLockedRound cs \<and>
    rsLockedBlock cs' = rsLockedBlock cs \<and> rsLockedBlockParts cs' = rsLockedBlockParts cs \<and> rsPrePrepareBlock cs' = rsPrePrepareBlock cs \<and>
    rsPrePrepareBlockParts cs' = rsPrePrepareBlockParts cs \<and> rsVotes cs' = rsVotes cs \<and> csHeap cs' = csHeap cs \<and> csTicks cs' = csTicks cs \<and> csState cs' = csState cs"
  using assms unfolding casts_def by (elim disjE exE conjE) (auto dest!: coreD simp: sendInternalMessage_def)

lemma prepare_history:
  assumes h: "history_ok X R S" and v: "vType v = PrepareType" "vRound v = r" and f: "xFrom X \<le> r"
    and loyal: "\<forall>u\<in>S. at_height X u \<and> vType u = CommitType \<and> vhash u \<noteq> [] \<longrightarrow> vhash v = vhash u \<or> overruled X R (vRound u) r (vhash u)"
  shows "history_ok X R (insert v S)"
proof -
  have "commits_once X (insert v S)" using h v(1) unfolding history_ok_def commits_once_def by (metis insertE PrepareType_neq(1))
  moreover have "commits_prepared X R (insert v S)" using h v(1) unfolding history_ok_def commits_prepared_def by (metis insertE PrepareType_neq(1))
  moreover have "prepares_loyal X R (insert v S)"
    using h v loyal unfolding history_ok_def prepares_loyal_def by (metis insertE PrepareType_neq(1))
  moreover have "sends_later X (insert v S)" using h v(2) f by (simp add: history_ok_def sends_later_def)
  ultimately show ?thesis by (simp add: history_ok_def)
qed

lemma NI_prepare:
  assumes ni: "NI X R S cs" and st: "\<not> RoundStepPrepare \<le> rsStep cs" and c: "casts PrepareType x hdr cs cs1"
    and good: "good_bid \<lparr>bidHash = x, bidParts = hdr\<rparr>"
    and loyal: "\<forall>u\<in>S \<union> sent cs. at_height X u \<and> vType u = CommitType \<and> vhash u \<noteq> [] \<longrightarrow> x = vhash u \<or> overruled X R (vRound u) (rsRound cs) (vhash u)"
  shows "NI X R S (updateRoundStep (rsRound cs) RoundStepPrepare cs1)"
  using casts_sent[OF c]
proof (elim disjE exE conjE)
  assume "core cs1 = core cs"
  then show ?thesis using NI_raise[OF NI_coreD[OF ni], of cs1 "rsRound cs" RoundStepPrepare] coreD[of cs1 cs] st by (simp add: step_less)
next
  fix v assume v: "sent cs1 = insert v (sent cs)" "vType v = PrepareType" "vHeight v = rsHeight cs" "vRound v = rsRound cs" "vBlockID v = \<lparr>bidHash = x, bidParts = hdr\<rparr>"
  note f = casts_fields[OF c]
  have "NI X R S (updateRoundStep (rsRound cs) RoundStepPrepare cs)" by (rule NI_raise[OF ni]) (use st in \<open>simp add: step_less\<close>)
  then have base: "sent_inv X (S \<union> sent cs) (rsRound cs) RoundStepPrepare" "lock_inv X R (S \<union> sent cs) (rsRound cs) (rsLockedRound cs) (rsLockedBlock cs)"
    by (auto simp: NI_def updateRoundStep_def sent_def)
  have "history_ok X R (insert v (S \<union> sent cs))"
    by (rule prepare_history[where r = "rsRound cs"]) (use ni v loyal in \<open>auto simp: NI_def\<close>)
  moreover have "sent_inv X (insert v (S \<union> sent cs)) (rsRound cs) RoundStepPrepare" using base(1) v by (simp add: sent_inv_def)
  moreover have "lock_inv X R (insert v (S \<union> sent cs)) (rsRound cs) (rsLockedRound cs) (rsLockedBlock cs)" using base(2) v by (simp add: lock_inv_def)
  moreover have "sent_good cs1" using ni v good by (auto simp: NI_def sent_good_def)
  ultimately show ?thesis
    using ni f v(1) by (simp add: NI_def parts_inv_def sent_good_def) (simp add: updateRoundStep_def sent_def)
qed


section \<open>The lock\<close>

abbreviation commits_of :: "'a setting \<Rightarrow> Vote set \<Rightarrow> Vote set" where
  "commits_of X S \<equiv> {u\<in>S. at_height X u \<and> vType u = CommitType}"

lemma NI_commits_before: "NI X R S cs \<Longrightarrow> \<not> RoundStepCommit \<le> rsStep cs \<Longrightarrow> u \<in> commits_of X (S \<union> sent cs) \<Longrightarrow> vRound u < rsRound cs"
  unfolding NI_def sent_inv_def by blast

lemma NI_commits_upto: "NI X R S cs \<Longrightarrow> u \<in> commits_of X (S \<union> sent cs) \<Longrightarrow> vRound u \<le> rsRound cs"
  unfolding NI_def sent_inv_def by fastforce

lemma NI_setLock:
  assumes "NI X R S cs" "lock_inv X R (S \<union> sent cs) (rsRound cs) lr lb" "block_inv X (csHeap cs) lb p"
  shows "NI X R S (cs\<lparr>rsLockedRound := lr, rsLockedBlock := lb, rsLockedBlockParts := p\<rparr>)"
  using assms by (simp add: NI_def parts_inv_def sent_good_def sent_def)

lemma lock_inv_unlock:
  assumes "lock_inv X R S r lr lb" and "prepared X R q y" "q \<le> r" and "\<And>b. lb = Some b \<Longrightarrow> bhash X b \<noteq> y"
    and "\<And>u. u \<in> commits_of X S \<Longrightarrow> vRound u \<le> lr \<Longrightarrow> vRound u < q"
  shows "lock_inv X R S r lr' None"
  unfolding lock_inv_def
proof (intro ballI impI)
  fix u assume u: "u \<in> S" "at_height X u \<and> vType u = CommitType \<and> vhash u \<noteq> []"
  then consider b where "lb = Some b" "bhash X b = vhash u" "vRound u \<le> lr" | "overruled X R (vRound u) r (vhash u)"
    using assms(1) unfolding lock_inv_def by blast
  then have "overruled X R (vRound u) r (vhash u)"
  proof cases
    case 1
    then have "vRound u < q" "y \<noteq> vhash u" using assms(4)[OF 1(1)] assms(5)[of u] u by auto
    then show ?thesis using assms(2,3) unfolding overruled_def by blast
  qed
  then show "(\<exists>b. None = Some b \<and> bhash X b = vhash u \<and> vRound u \<le> lr') \<or> overruled X R (vRound u) r (vhash u)" by blast
qed

lemma lock_inv_lock:
  assumes "lock_inv X R S r lr lb" and "prepared X R r (bhash X b)" and "\<And>u. u \<in> commits_of X S \<Longrightarrow> vRound u < r"
  shows "lock_inv X R S r r (Some b)"
  unfolding lock_inv_def
proof (intro ballI impI)
  fix u assume u: "u \<in> S" "at_height X u \<and> vType u = CommitType \<and> vhash u \<noteq> []"
  then have lt: "vRound u < r" using assms(3) by blast
  show "(\<exists>b'. Some b = Some b' \<and> bhash X b' = vhash u \<and> vRound u \<le> r) \<or> overruled X R (vRound u) r (vhash u)"
  proof (cases "bhash X b = vhash u")
    case False
    then have "overruled X R (vRound u) r (vhash u)" using lt assms(2) unfolding overruled_def by blast
    then show ?thesis by blast
  qed (use lt in simp)
qed

lemma NI_unlock:
  assumes "NI X R S cs" "prepared X R q y" "q \<le> rsRound cs" "\<And>b. rsLockedBlock cs = Some b \<Longrightarrow> bhash X b \<noteq> y"
    and "\<And>u. u \<in> commits_of X (S \<union> sent cs) \<Longrightarrow> vRound u \<le> rsLockedRound cs \<Longrightarrow> vRound u < q"
  shows "NI X R S (unlock cs)"
  unfolding unlock_def
proof (rule NI_setLock[OF assms(1)])
  show "lock_inv X R (S \<union> sent cs) (rsRound cs) (-1) None"
    by (rule lock_inv_unlock[OF _ assms(2-5)]) (use assms(1) in \<open>auto simp: NI_def\<close>)
qed (simp add: block_inv_def)

lemma NI_relock:
  assumes "NI X R S cs"
  shows "NI X R S (cs\<lparr>rsLockedRound := rsRound cs\<rparr>)"
proof -
  have "lock_inv X R (S \<union> sent cs) (rsRound cs) (rsRound cs) (rsLockedBlock cs)"
    using assms NI_commits_upto[OF assms] unfolding NI_def lock_inv_def by blast
  then show ?thesis using assms by (simp add: NI_def parts_inv_def sent_good_def sent_def)
qed

lemma NI_lock:
  assumes ni: "NI X R S cs" and st: "\<not> RoundStepCommit \<le> rsStep cs" and b: "rsPrePrepareBlock cs = Some b" and p: "prepared X R (rsRound cs) (bhash X b)"
  shows "NI X R S (cs\<lparr>rsLockedRound := rsRound cs, rsLockedBlock := Some b, rsLockedBlockParts := rsPrePrepareBlockParts cs\<rparr>)"
proof (rule NI_setLock[OF ni])
  show "lock_inv X R (S \<union> sent cs) (rsRound cs) (rsRound cs) (Some b)"
    by (rule lock_inv_lock[OF _ p]) (use ni NI_commits_before[OF ni st] in \<open>auto simp: NI_def\<close>)
  show "block_inv X (csHeap cs) (Some b) (rsPrePrepareBlockParts cs)" using ni b by (simp add: NI_def parts_inv_def)
qed

lemma commit_history:
  assumes h: "history_ok X R S" and v: "vType v = CommitType" "vRound v = r" "at_height X v" and f: "xFrom X \<le> r"
    and pre: "vhash v \<noteq> [] \<Longrightarrow> prepared X R r (vhash v)"
    and old: "\<And>u. u \<in> S \<Longrightarrow> at_height X u \<Longrightarrow> vRound u \<le> r" "\<And>u. u \<in> commits_of X S \<Longrightarrow> vRound u < r"
  shows "history_ok X R (insert v S)"
proof -
  have "commits_once X (insert v S)" using h v(1,2) old(2) unfolding history_ok_def commits_once_def
    by (metis (mono_tags, lifting) insertE less_irrefl mem_Collect_eq)
  moreover have "commits_prepared X R (insert v S)" using h v(2) pre unfolding history_ok_def commits_prepared_def by (metis insertE)
  moreover have "prepares_loyal X R (insert v S)"
    using h v old(1) unfolding history_ok_def prepares_loyal_def by (metis insertE leD PrepareType_neq(2))
  moreover have "sends_later X (insert v S)" using h v(2) f by (simp add: history_ok_def sends_later_def)
  ultimately show ?thesis by (simp add: history_ok_def)
qed

lemma NI_commit:
  assumes ni: "NI X R S cs" and st: "\<not> RoundStepCommit \<le> rsStep cs" and c: "casts CommitType x hdr cs cs1"
    and good: "good_bid \<lparr>bidHash = x, bidParts = hdr\<rparr>"
    and lock: "x \<noteq> [] \<Longrightarrow> prepared X R (rsRound cs) x \<and> (\<exists>b. rsLockedBlock cs = Some b \<and> bhash X b = x) \<and> rsLockedRound cs = rsRound cs"
  shows "NI X R S (updateRoundStep (rsRound cs) RoundStepCommit cs1)"
  using casts_sent[OF c]
proof (elim disjE exE conjE)
  assume "core cs1 = core cs"
  then show ?thesis using NI_raise[OF NI_coreD[OF ni], of cs1 "rsRound cs" RoundStepCommit] coreD[of cs1 cs] st by (simp add: step_less)
next
  fix v assume v: "sent cs1 = insert v (sent cs)" "vType v = CommitType" "vHeight v = rsHeight cs" "vRound v = rsRound cs" "vBlockID v = \<lparr>bidHash = x, bidParts = hdr\<rparr>"
  note f = casts_fields[OF c]
  have "NI X R S (updateRoundStep (rsRound cs) RoundStepCommit cs)" by (rule NI_raise[OF ni]) (use st in \<open>simp add: step_less\<close>)
  then have base: "sent_inv X (S \<union> sent cs) (rsRound cs) RoundStepCommit" "lock_inv X R (S \<union> sent cs) (rsRound cs) (rsLockedRound cs) (rsLockedBlock cs)"
    by (auto simp: NI_def updateRoundStep_def sent_def)
  have "history_ok X R (insert v (S \<union> sent cs))"
  proof (rule commit_history[where r = "rsRound cs"])
    show "at_height X u \<Longrightarrow> u \<in> S \<union> sent cs \<Longrightarrow> vRound u \<le> rsRound cs" for u using ni unfolding NI_def sent_inv_def by fastforce
    show "u \<in> commits_of X (S \<union> sent cs) \<Longrightarrow> vRound u < rsRound cs" for u using NI_commits_before[OF ni st] by blast
  qed (use ni v lock in \<open>auto simp: NI_def\<close>)
  moreover have "sent_inv X (insert v (S \<union> sent cs)) (rsRound cs) RoundStepCommit" using base(1) v by (simp add: sent_inv_def)
  moreover have "lock_inv X R (insert v (S \<union> sent cs)) (rsRound cs) (rsLockedRound cs) (rsLockedBlock cs)"
    using base(2) v lock unfolding lock_inv_def by auto
  moreover have "sent_good cs1" using ni v good by (auto simp: NI_def sent_good_def)
  ultimately show ?thesis
    using ni f v(1) by (simp add: NI_def parts_inv_def sent_good_def) (simp add: updateRoundStep_def sent_def)
qed

end
