(* ===== verification/ConsensusSteps.thy ===== *)
theory ConsensusSteps
  imports ConsensusLocks ChainSafety
begin

text \<open>
  Every handler of the consensus machine keeps the invariant of \<open>ConsensusLocks\<close> as long as the node stays at
  its height, and leaves the height only with a decision: a block for which more than two thirds of the validators
  have sent commit votes.
\<close>

section \<open>Steps that stay at the height\<close>

lemma NI_newStep [simp]: "NI X R S (newStep W cs) = NI X R S cs"
  by (rule NI_core) simp

lemmas newStep_fields [simp] = coreD[OF core_newStep, THEN conjunct1] coreD[OF core_newStep, THEN conjunct2, THEN conjunct1]
  coreD[OF core_newStep, THEN conjunct2, THEN conjunct2, THEN conjunct1]

lemma NI_height: "NI X R S cs \<Longrightarrow> rsHeight cs = xHeight X"
  by (simp add: NI_def)

lemma updateRoundStep_fields [simp]: "rsRound (updateRoundStep r s cs) = r" "rsStep (updateRoundStep r s cs) = s" "rsHeight (updateRoundStep r s cs) = rsHeight cs"
  "rsVotes (updateRoundStep r s cs) = rsVotes cs"
  by (simp_all add: updateRoundStep_def)

lemma block_Hash_bhash: "block_Hash (xE X) (xK X) (Some b) = Some (x, y) \<Longrightarrow> x = bhash X b"
  by (simp add: bhash_def)

lemma block_inv_header:
  assumes "block_inv X (csHeap cs) (Some b) p" "\<forall>ps\<in>set (csHeap cs). good_header ps"
  shows "good_bid \<lparr>bidHash = bhash X b, bidParts = ps_Header (parts_at cs p)\<rparr>"
proof -
  obtain i where i: "p = Some i" "i < length (csHeap cs)" "length (bhash X b) = 32" using assms(1) by (auto simp: block_inv_def)
  then have "parts_at cs p = Some (csHeap cs ! i)" "good_header (csHeap cs ! i)" using assms(2) by (auto simp: parts_at_def)
  then show ?thesis using good_header_bid[OF i(3), of "csHeap cs ! i"] by simp
qed

lemma NI_locked: "NI X R S cs \<Longrightarrow> rsLockedBlock cs = Some b \<Longrightarrow> good_bid \<lparr>bidHash = bhash X b, bidParts = ps_Header (parts_at cs (rsLockedBlockParts cs))\<rparr>"
  by (rule block_inv_header) (auto simp: NI_def parts_inv_def)

lemma NI_proposal: "NI X R S cs \<Longrightarrow> rsPrePrepareBlock cs = Some b \<Longrightarrow> good_bid \<lparr>bidHash = bhash X b, bidParts = ps_Header (parts_at cs (rsPrePrepareBlockParts cs))\<rparr>"
  by (rule block_inv_header) (auto simp: NI_def parts_inv_def)

lemma doPrepare_casts:
  assumes "doPrepare (xW X) cs = Some cs'" "NI X R S cs"
  obtains x hdr where "casts PrepareType x hdr cs cs'" "good_bid \<lparr>bidHash = x, bidParts = hdr\<rparr>" "\<And>b. rsLockedBlock cs = Some b \<Longrightarrow> x = bhash X b"
proof (cases "rsLockedBlock cs")
  case (Some b)
  obtain x y where x: "block_Hash (xE X) (xK X) (Some b) = Some (x, y)"
    "signAddVote (xW X) PrepareType x (ps_Header (parts_at cs (rsLockedBlockParts cs))) cs = Some cs'"
    using assms(1) Some by (auto simp: doPrepare_def bind_Some)
  then show ?thesis
    using that[OF signAddVote_casts[OF x(2)]] NI_locked[OF assms(2) Some] block_Hash_bhash[OF x(1)] Some by simp
next
  case None
  then have no: "rsLockedBlock cs = Some b \<Longrightarrow> P" for b P by simp
  consider "signAddVote (xW X) PrepareType [] zero_psh cs = Some cs'"
    | b x y where "rsPrePrepareBlock cs = Some b" "block_Hash (xE X) (xK X) (Some b) = Some (x, y)"
      "signAddVote (xW X) PrepareType x (ps_Header (parts_at cs (rsPrePrepareBlockParts cs))) cs = Some cs'"
    using assms(1) None by (auto simp: doPrepare_def bind_Some split: option.splits if_splits)
  then show ?thesis
  proof cases
    case 1
    show ?thesis by (rule that[OF signAddVote_casts[OF 1] good_bid_zero no])
  next
    case 2
    have "good_bid \<lparr>bidHash = x, bidParts = ps_Header (parts_at cs (rsPrePrepareBlockParts cs))\<rparr>"
      using NI_proposal[OF assms(2) 2(1)] block_Hash_bhash[OF 2(2)] by simp
    then show ?thesis by (rule that[OF signAddVote_casts[OF 2(3)] _ no])
  qed
qed

lemma enterPrepare_NI:
  assumes e: "enterPrepare (xW X) h r cs = Some cs'" and ni: "NI X R S cs" and r: "r \<le> rsRound cs"
  shows "NI X R S cs' \<and> rsRound cs' = rsRound cs \<and> rsVotes cs' = rsVotes cs"
proof (cases "rsHeight cs \<noteq> h \<or> r < rsRound cs \<or> rsRound cs = r \<and> RoundStepPrepare \<le> rsStep cs")
  case True
  then show ?thesis using e ni by (auto simp: enterPrepare_def)
next
  case False
  then have r': "r = rsRound cs" and st: "\<not> RoundStepPrepare \<le> rsStep cs" using r by auto
  obtain cs1 where cs1: "doPrepare (xW X) cs = Some cs1" "cs' = newStep (xW X) (updateRoundStep r RoundStepPrepare cs1)"
    using e False by (auto simp: enterPrepare_def bind_Some)
  obtain x hdr where c: "casts PrepareType x hdr cs cs1" "good_bid \<lparr>bidHash = x, bidParts = hdr\<rparr>" "\<And>b. rsLockedBlock cs = Some b \<Longrightarrow> x = bhash X b"
    using doPrepare_casts[OF cs1(1) ni] by blast
  have "\<forall>u\<in>S \<union> sent cs. at_height X u \<and> vType u = CommitType \<and> vhash u \<noteq> [] \<longrightarrow> x = vhash u \<or> overruled X R (vRound u) (rsRound cs) (vhash u)"
    using ni c(3) unfolding NI_def lock_inv_def by blast
  from NI_prepare[OF ni st c(1,2) this] show ?thesis using cs1(2) r' casts_fields[OF c(1)] coreD[OF core_newStep, of "xW X" "updateRoundStep r RoundStepPrepare cs1"] by simp
qed

lemma enterPrepareWait_NI:
  assumes "enterPrepareWait (xW X) h r cs = Some cs'" "NI X R S cs" "r \<le> rsRound cs"
  shows "NI X R S cs'"
proof (cases "rsHeight cs \<noteq> h \<or> r < rsRound cs \<or> rsRound cs = r \<and> RoundStepPrepareWait \<le> rsStep cs")
  case True
  then show ?thesis using assms by (auto simp: enterPrepareWait_def)
next
  case False
  then have r: "r = rsRound cs" "rsStep cs \<le> RoundStepPrepareWait" using assms(3) by (auto simp: step_less)
  have "NI X R S (scheduleTimeout d h r s cs)" for d s by (rule NI_tick[OF assms(2)]) (use r in simp)
  then have "NI X R S (updateRoundStep r RoundStepPrepareWait (scheduleTimeout d h r s cs))" for d s
    by (rule NI_raise) (use r in \<open>simp add: scheduleTimeout_def\<close>)
  then show ?thesis using assms(1) False by (auto simp: enterPrepareWait_def)
qed

lemma core_fold_parts: "core (fold (\<lambda>p. sendInternalMessage (BlockPartMessage a b p)) ps cs) = core cs"
proof (induction ps arbitrary: cs)
  case (Cons p ps)
  have "core (sendInternalMessage (BlockPartMessage a b p) cs) = core cs" by (simp add: core_def sent_send) (simp add: sendInternalMessage_def)
  then show ?case using Cons by simp
qed simp

lemma core_sendPrePrepare: "core (sendInternalMessage (PrePrepareMessage p) cs) = core cs"
  by (simp add: core_def sent_send) (simp add: sendInternalMessage_def)

lemma decidePrePrepare_core:
  assumes "decidePrePrepare W h r cs = Some cs'"
  shows "core cs' = core cs"
proof (cases "ccTestIsByzantine (csConfig cs)")
  case True
  then show ?thesis using assms by (simp add: decidePrePrepare_def)
next
  case False
  obtain fl cs1 where f: "wal_FlushAndSync W cs = (fl, cs1)" by fastforce
  obtain now cs2 where cl: "clock W cs1 = (now, cs2)" by fastforce
  obtain now2 cs3 where cl2: "clock W cs2 = (now2, cs3)" by fastforce
  obtain io cs4 where oc: "outcome W cs3 = (io, cs4)" by fastforce
  have c4: "core cs4 = core cs" using f cl cl2 oc by simp
  have pp: "core (sendInternalMessage (PrePrepareMessage p) (cs4\<lparr>csPrivValidator := q\<rparr>)) = core cs" for p q
    by (simp add: core_sendPrePrepare c4)
  show ?thesis
    using assms False f cl cl2 oc c4 pp by (auto simp: decidePrePrepare_def bind_Some Let_def core_fold_parts split: option.splits if_splits)
qed

lemma proposeIfPrimary_core:
  assumes "proposeIfPrimary W h r cs = Some cs'"
  shows "core cs' = core cs"
proof -
  have "core c' = core cs" if "isPrimary W a cs = Some (m, c)" "(if m then decidePrePrepare W h r c else Some c) = Some c'" for a m c c'
  proof -
    have "core c = core cs" using that(1) core_primaryOf by (fastforce simp: isPrimary_def bind_Some)
    then show ?thesis using that(2) decidePrePrepare_core by (fastforce split: if_splits)
  qed
  then show ?thesis
    using assms by (auto simp: proposeIfPrimary_def bind_Some split: option.splits if_splits)
qed

lemma enterPrePrepare_NI:
  assumes e: "enterPrePrepare (xW X) h r cs = Some cs'" and ni: "NI X R S cs" and r: "r \<le> rsRound cs"
  shows "NI X R S cs' \<and> rsRound cs' = rsRound cs \<and> rsVotes cs' = rsVotes cs"
proof (cases "rsHeight cs \<noteq> h \<or> r < rsRound cs \<or> rsRound cs = r \<and> RoundStepPrePrepare \<le> rsStep cs")
  case True
  then show ?thesis using e ni by (auto simp: enterPrePrepare_def)
next
  case False
  then have r': "r = rsRound cs" "rsStep cs \<le> RoundStepPrePrepare" using r by (auto simp: step_less)
  let ?t = "scheduleTimeout (PrePrepareWait (csConfig cs) r) h r RoundStepPrePrepare cs"
  obtain cs1 c where cs1: "proposeIfPrimary (xW X) h r ?t = Some cs1"
    and rest: "isPrePrepareComplete (newStep (xW X) (updateRoundStep r RoundStepPrePrepare cs1)) = Some c"
      "(if c then enterPrepare (xW X) h (rsRound (newStep (xW X) (updateRoundStep r RoundStepPrePrepare cs1))) (newStep (xW X) (updateRoundStep r RoundStepPrePrepare cs1))
        else Some (newStep (xW X) (updateRoundStep r RoundStepPrePrepare cs1))) = Some cs'"
    using e False by (auto simp: enterPrePrepare_def bind_Some Let_def)
  let ?u = "newStep (xW X) (updateRoundStep r RoundStepPrePrepare cs1)"
  have "NI X R S ?t" by (rule NI_tick[OF ni]) (use r' in simp)
  then have n1: "NI X R S cs1" using NI_coreD proposeIfPrimary_core[OF cs1] by blast
  have f: "rsRound cs1 = rsRound cs" "rsStep cs1 = rsStep cs" "rsVotes cs1 = rsVotes cs" using coreD[OF proposeIfPrimary_core[OF cs1]] by (simp_all add: scheduleTimeout_def)
  have "NI X R S (updateRoundStep r RoundStepPrePrepare cs1)" by (rule NI_raise[OF n1]) (use f r' in simp)
  then have u: "NI X R S ?u" "rsRound ?u = r" "rsVotes ?u = rsVotes cs"
    using f coreD[OF core_newStep, of "xW X" "updateRoundStep r RoundStepPrePrepare cs1"] by simp_all
  show ?thesis using rest(2) u r' enterPrepare_NI[OF _ u(1)] by (cases c) auto
qed

lemma NI_noTrigger: "NI X R S cs \<Longrightarrow> NI X R S (cs\<lparr>rsTriggeredTimeoutCommit := q\<rparr>)"
  using NI_core[of "cs\<lparr>rsTriggeredTimeoutCommit := q\<rparr>" cs] by simp

lemma votes_inv_SetRound: "votes_inv X R (Some hvs) \<Longrightarrow> SetRound hvs r = Some hvs' \<Longrightarrow> votes_inv X R (Some hvs')"
  using SetRound_keeps[of hvs r hvs' "xE X" R] by (auto simp: votes_inv_def hv_le_def)

definition raised :: "int \<Rightarrow> ValidatorSet \<Rightarrow> 'a ConsensusState \<Rightarrow> 'a ConsensusState" where
  "raised r vals cs =
     (let cs1 = (updateRoundStep r RoundStepNewRound cs)\<lparr>rsValidators := vals\<rparr>
      in if r \<noteq> 0 then cs1\<lparr>rsPrePrepare := None, rsPrePrepareBlock := None, rsPrePrepareBlockParts := None\<rparr> else cs1)"

lemma raised_fields [simp]: "rsVotes (raised r vals cs) = rsVotes cs" "rsRound (raised r vals cs) = r"
  by (simp_all add: raised_def Let_def)

lemma enterNewRound_raised:
  assumes "enterNewRound W h r cs = Some cs'" "\<not> (rsHeight cs \<noteq> h \<or> r < rsRound cs \<or> rsRound cs = r \<and> rsStep cs \<noteq> RoundStepNewHeight)"
  obtains vals nxt hvs hvs' v cs4 ev cs5 w where "rsVotes cs = Some hvs" "SetRound hvs nxt = Some hvs'"
    "primaryOf W r ((raised r vals cs)\<lparr>rsVotes := Some hvs', rsTriggeredTimeoutCommit := False\<rparr>) = Some (v, cs4)"
    "publish_logged W ev cs4 = Some cs5"
    "(if w then Some (if 0 < ccCreateEmptyBlocksInterval (csConfig cs5)
        then scheduleTimeout (ccCreateEmptyBlocksInterval (csConfig cs5)) h r RoundStepNewRound cs5 else cs5) else enterPrePrepare W h r cs5) = Some cs'"
proof -
  note r = raised_def[unfolded Let_def, symmetric]
  show ?thesis
    using assms(1)[unfolded enterNewRound_def Let_def r if_not_P[OF assms(2)]]
    by (clarsimp simp: bind_Some split del: if_split) (rule that; assumption)
qed

lemma NI_raised:
  assumes "NI X R S cs" "rsRound cs < r \<or> rsRound cs = r \<and> rsStep cs \<le> RoundStepNewRound"
  shows "NI X R S (raised r vals cs)"
proof -
  have "NI X R S ((updateRoundStep r RoundStepNewRound cs)\<lparr>rsValidators := vals\<rparr>)" by (rule NI_coreD[OF NI_raise[OF assms]]) simp
  then show ?thesis using NI_dropProposal by (auto simp: raised_def Let_def)
qed

lemma enterNewRound_NI:
  assumes e: "enterNewRound (xW X) h r cs = Some cs'" and ni: "NI X R S cs" and h: "h = xHeight X"
  shows "NI X R S cs' \<and> rsRound cs \<le> rsRound cs' \<and> r \<le> rsRound cs' \<and> (\<forall>hvs. rsVotes cs = Some hvs \<longrightarrow> (\<exists>hvs'. rsVotes cs' = Some hvs' \<and> hv_le hvs hvs'))"
proof (cases "rsHeight cs \<noteq> h \<or> r < rsRound cs \<or> rsRound cs = r \<and> rsStep cs \<noteq> RoundStepNewHeight")
  case True
  then show ?thesis using e ni h by (auto simp: enterNewRound_def NI_def hv_le_refl)
next
  case False
  then have r: "rsRound cs < r \<or> rsRound cs = r \<and> rsStep cs \<le> RoundStepNewRound" by (auto simp: step_less)
  obtain vals nxt hvs hvs' v cs4 ev cs5 w where st: "rsVotes cs = Some hvs" "SetRound hvs nxt = Some hvs'"
    and p: "primaryOf (xW X) r ((raised r vals cs)\<lparr>rsVotes := Some hvs', rsTriggeredTimeoutCommit := False\<rparr>) = Some (v, cs4)"
    and q: "publish_logged (xW X) ev cs4 = Some cs5"
    and fin: "(if w then Some (if 0 < ccCreateEmptyBlocksInterval (csConfig cs5)
        then scheduleTimeout (ccCreateEmptyBlocksInterval (csConfig cs5)) h r RoundStepNewRound cs5 else cs5) else enterPrePrepare (xW X) h r cs5) = Some cs'"
    by (rule enterNewRound_raised[OF e False]) (rule that; assumption)
  have n2: "NI X R S (raised r vals cs)" by (rule NI_raised[OF ni r])
  have "votes_inv X R (Some hvs')" using ni st(1) votes_inv_SetRound[OF _ st(2)] by (auto simp: NI_def)
  from NI_noTrigger[OF NI_votes[OF n2 this order_refl]]
  have n3: "NI X R S ((raised r vals cs)\<lparr>rsVotes := Some hvs', rsTriggeredTimeoutCommit := False\<rparr>)" .
  have c5: "core cs5 = core ((raised r vals cs)\<lparr>rsVotes := Some hvs', rsTriggeredTimeoutCommit := False\<rparr>)"
    using core_publish(2)[OF q] core_primaryOf[OF p] by simp
  have n5: "NI X R S cs5" using NI_coreD[OF n3 c5] .
  have r5: "rsRound cs5 = r" "rsVotes cs5 = Some hvs'" using coreD[OF c5] by simp_all
  have le: "hv_le hvs hvs'" using SetRound_keeps[OF st(2), of "xE X" R] ni st(1) by (auto simp: NI_def votes_inv_def)
  have "NI X R S (scheduleTimeout d h r RoundStepNewRound cs5)" for d by (rule NI_tick[OF n5]) (use r5 in simp)
  then have "NI X R S cs' \<and> rsRound cs' = r \<and> rsVotes cs' = Some hvs'"
    using fin n5 r5 enterPrePrepare_NI[OF _ n5, of h r cs'] by (auto simp: scheduleTimeout_def split: if_splits)
  then show ?thesis using r le st(1) by auto
qed

section \<open>The commit vote and the lock\<close>

definition commits_soundly :: "'a setting \<Rightarrow> Vote set \<Rightarrow> Vote set \<Rightarrow> 'a ConsensusState \<Rightarrow> 'a ConsensusState \<Rightarrow> bool" where
  "commits_soundly X R S cs cs1 \<longleftrightarrow>
     (\<exists>x hdr cs0. NI X R S cs0 \<and> rsRound cs0 = rsRound cs \<and> rsStep cs0 = rsStep cs \<and> rsVotes cs0 = rsVotes cs \<and> casts CommitType x hdr cs0 cs1 \<and> good_bid \<lparr>bidHash = x, bidParts = hdr\<rparr> \<and>
        (x \<noteq> [] \<longrightarrow> prepared X R (rsRound cs) x \<and> (\<exists>b. rsLockedBlock cs0 = Some b \<and> bhash X b = x) \<and> rsLockedRound cs0 = rsRound cs))"

lemma option_bool: "q = None \<or> q = Some True \<or> q = Some False"
  by (cases q) auto

lemma commits_nil:
  assumes "NI X R S cs0" "rsRound cs0 = rsRound cs" "rsStep cs0 = rsStep cs" "rsVotes cs0 = rsVotes cs" "signAddVote W CommitType [] zero_psh cs0 = Some cs1"
  shows "commits_soundly X R S cs cs1"
  unfolding commits_soundly_def using assms signAddVote_casts[OF assms(5)] good_bid_zero by blast

lemma commits_block:
  assumes "NI X R S cs0" "rsRound cs0 = rsRound cs" "rsStep cs0 = rsStep cs" "rsVotes cs0 = rsVotes cs" "signAddVote W CommitType (bidHash b) (bidParts b) cs0 = Some cs1"
    "quorum_for X R PrepareType (rsRound cs) b" "good_bid b" "rsLockedBlock cs0 = Some bl" "bhash X bl = bidHash b" "rsLockedRound cs0 = rsRound cs"
  shows "commits_soundly X R S cs cs1"
proof -
  have "prepared X R (rsRound cs) (bidHash b)" using assms(6) by (auto simp: prepared_def)
  moreover have "\<lparr>bidHash = bidHash b, bidParts = bidParts b\<rparr> = b" by simp
  ultimately show ?thesis unfolding commits_soundly_def using assms signAddVote_casts[OF assms(5)] by metis
qed

lemma NI_publish_logged: "publish_logged W ev cs = Some cs' \<Longrightarrow> NI X R S cs \<Longrightarrow> NI X R S cs' \<and> rsRound cs' = rsRound cs \<and> rsStep cs' = rsStep cs \<and> rsVotes cs' = rsVotes cs \<and>
    rsLockedBlock cs' = rsLockedBlock cs \<and> rsLockedRound cs' = rsLockedRound cs \<and> rsHeight cs' = rsHeight cs"
  using NI_coreD[OF _ core_publish(2)] coreD[OF core_publish(2)] by metis

lemma unlock_fields [simp]: "rsRound (unlock cs) = rsRound cs" "rsStep (unlock cs) = rsStep cs" "rsHeight (unlock cs) = rsHeight cs" "rsVotes (unlock cs) = rsVotes cs"
  "rsPrePrepareBlockParts (unlock cs) = rsPrePrepareBlockParts cs" "csHeap (unlock cs) = csHeap cs" "rsPrePrepareBlock (unlock cs) = rsPrePrepareBlock cs"
  by (simp_all add: unlock_def)

lemma newParts_fields [simp]: "rsRound (newParts hdr cs) = rsRound cs" "rsStep (newParts hdr cs) = rsStep cs" "rsHeight (newParts hdr cs) = rsHeight cs"
  "rsVotes (newParts hdr cs) = rsVotes cs"
  by (simp_all add: newParts_def)

lemma NI_unlock_now:
  assumes ni: "NI X R S cs" and st: "\<not> RoundStepCommit \<le> rsStep cs" and q: "quorum_for X R PrepareType (rsRound cs) b"
    and other: "\<And>bl. rsLockedBlock cs = Some bl \<Longrightarrow> bhash X bl \<noteq> bidHash b"
  shows "NI X R S (unlock cs)"
proof (rule NI_unlock[OF ni _ order_refl other])
  show "prepared X R (rsRound cs) (bidHash b)" using q by (auto simp: prepared_def)
qed (use NI_commits_before[OF ni st] in auto)

lemma commitPolka_sound:
  assumes e: "commitPolka (xW X) (rsRound cs) b cs = Some cs'" and ni: "NI X R S cs" and st: "\<not> RoundStepCommit \<le> rsStep cs"
    and q: "quorum_for X R PrepareType (rsRound cs) b" "good_bid b"
  shows "commits_soundly X R S cs cs'"
proof -
  have pl: "NI X R S c' \<and> rsRound c' = rsRound c \<and> rsStep c' = rsStep c \<and> rsVotes c' = rsVotes c" if "publish_logged (xW X) ev c = Some c'" "NI X R S c" for ev c c'
    using NI_publish_logged[OF that] by simp
  note e' = e[unfolded commitPolka_def]
  have eq: "bidHash b = [] \<or> block_EqualsTo (xE X) (xK X) (rsLockedBlock cs) (bidHash b) \<noteq> None \<and>
      (block_EqualsTo (xE X) (xK X) (rsLockedBlock cs) (bidHash b) = Some False \<longrightarrow> block_EqualsTo (xE X) (xK X) (rsPrePrepareBlock cs) (bidHash b) \<noteq> None)"
    using e' by (auto simp: bind_Some)
  consider (nil) "bidHash b = []"
    | (locked) bl where "bidHash b \<noteq> []" "rsLockedBlock cs = Some bl" "bhash X bl = bidHash b" "block_EqualsTo (xE X) (xK X) (rsLockedBlock cs) (bidHash b) = Some True"
    | (proposal) bl where "bidHash b \<noteq> []" "rsPrePrepareBlock cs = Some bl" "bhash X bl = bidHash b"
        "block_EqualsTo (xE X) (xK X) (rsLockedBlock cs) (bidHash b) = Some False" "block_EqualsTo (xE X) (xK X) (rsPrePrepareBlock cs) (bidHash b) = Some True"
    | (unknown) "bidHash b \<noteq> []" "block_EqualsTo (xE X) (xK X) (rsLockedBlock cs) (bidHash b) = Some False"
        "block_EqualsTo (xE X) (xK X) (rsPrePrepareBlock cs) (bidHash b) = Some False"
    using eq EqualsTo_D[of X "rsLockedBlock cs" "bidHash b"] EqualsTo_D[of X "rsPrePrepareBlock cs" "bidHash b"]
      option_bool[of "block_EqualsTo (xE X) (xK X) (rsLockedBlock cs) (bidHash b)"] option_bool[of "block_EqualsTo (xE X) (xK X) (rsPrePrepareBlock cs) (bidHash b)"]
    by metis
  then show ?thesis
  proof cases
    case nil
    have "bhash X bl \<noteq> []" if "rsLockedBlock cs = Some bl" for bl using NI_locked[OF ni that] ni that by (auto simp: NI_def parts_inv_def block_inv_def)
    then have u: "NI X R S (unlock cs)" using NI_unlock_now[OF ni st q(1)] nil by simp
    obtain cs2 where "rsLockedBlock cs = None \<and> cs2 = cs \<or> publish_logged (xW X) (EventUnlock (rsHeight cs) (rsRound cs) (rsStep cs)) (unlock cs) = Some cs2"
      "signAddVote (xW X) CommitType [] zero_psh cs2 = Some cs'" using e' nil by (auto simp: bind_Some split: if_splits)
    then show ?thesis using commits_nil[of X R S cs2 cs] pl[OF _ u] ni by auto
  next
    case locked
    obtain cs2 where c: "publish_logged (xW X) (EventRelock (rsHeight cs) (rsRound cs) (rsStep cs)) (cs\<lparr>rsLockedRound := rsRound cs\<rparr>) = Some cs2"
      "signAddVote (xW X) CommitType (bidHash b) (bidParts b) cs2 = Some cs'" using e' locked by (auto simp: bind_Some)
    show ?thesis using NI_publish_logged[OF c(1) NI_relock[OF ni]] commits_block[OF _ _ _ _ c(2) q, of S bl] locked by simp
  next
    case proposal
    obtain cs2 where c: "publish_logged (xW X) (EventLock (rsHeight cs) (rsRound cs) (rsStep cs))
        (cs\<lparr>rsLockedRound := rsRound cs, rsLockedBlock := Some bl, rsLockedBlockParts := rsPrePrepareBlockParts cs\<rparr>) = Some cs2"
      "signAddVote (xW X) CommitType (bidHash b) (bidParts b) cs2 = Some cs'" using e' proposal by (auto simp: bind_Some split: if_splits)
    have "prepared X R (rsRound cs) (bhash X bl)" using q(1) proposal(3) by (auto simp: prepared_def)
    from NI_publish_logged[OF c(1) NI_lock[OF ni st proposal(2) this]] show ?thesis using commits_block[OF _ _ _ _ c(2) q, of S bl] proposal by simp
  next
    case unknown
    have "bhash X bl \<noteq> bidHash b" if "rsLockedBlock cs = Some bl" for bl using unknown(1,2) that EqualsTo_False by auto
    then have u: "NI X R S (unlock cs)" by (rule NI_unlock_now[OF ni st q(1)])
    have "good_header (NewPartSetFromHeader (bidParts b))" using good_bid_complete[OF q(2) unknown(1)] by simp
    note n = NI_newParts(2)[OF u this]
    let ?cs2 = "if \<not> HeaderEqualsTo (parts_at (unlock cs) (rsPrePrepareBlockParts cs)) (bidParts b)
        then newParts (bidParts b) ((unlock cs)\<lparr>rsPrePrepareBlock := None\<rparr>) else unlock cs"
    have c2: "NI X R S ?cs2 \<and> rsRound ?cs2 = rsRound cs \<and> rsStep ?cs2 = rsStep cs \<and> rsVotes ?cs2 = rsVotes cs" using u n by auto
    obtain cs3 where "publish_logged (xW X) (EventUnlock (rsHeight ?cs2) (rsRound ?cs2) (rsStep ?cs2)) ?cs2 = Some cs3"
      "signAddVote (xW X) CommitType [] zero_psh cs3 = Some cs'" using e' unknown by (simp add: bind_Some Let_def) blast
    then show ?thesis using commits_nil[of X R S cs3 cs] pl[of _ ?cs2 cs3] c2 by metis
  qed
qed

lemma commitVote_sound:
  assumes e: "commitVote (xW X) (rsRound cs) cs = Some cs'" and ni: "NI X R S cs" and st: "\<not> RoundStepCommit \<le> rsStep cs"
  shows "commits_soundly X R S cs cs'"
proof -
  obtain hvs where hvs: "rsVotes cs = Some hvs" "votes_inv X R (Some hvs)" using ni by (auto simp: NI_def votes_inv_def)
  note e' = e[unfolded commitVote_def hvs(1) Prepares_maj, simplified]
  show ?thesis
  proof (cases "hv_maj hvs PrepareType (rsRound cs)")
    case None
    then show ?thesis using commits_nil[OF ni] e' by simp
  next
    case (Some b)
    have q: "quorum_for X R PrepareType (rsRound cs) b" "good_bid b" using majority_quorum[OF hvs(2) Some] by (simp_all add: IsVoteTypeValid_def)
    obtain cs1 where p: "publish_logged (xW X) (EventPolka (rsHeight cs) (rsRound cs) (rsStep cs)) cs = Some cs1"
      "commitPolka (xW X) (rsRound cs) b cs1 = Some cs'"
      using e' Some by (auto simp: bind_Some split: if_splits)
    note f = NI_publish_logged[OF p(1) ni]
    have "commits_soundly X R S cs1 cs'" by (rule commitPolka_sound) (use f p(2) st q in auto)
    then show ?thesis using f by (simp add: commits_soundly_def)
  qed
qed

lemma enterCommit_NI:
  assumes e: "enterCommit (xW X) h r cs = Some cs'" and ni: "NI X R S cs" and r: "r \<le> rsRound cs"
  shows "NI X R S cs' \<and> rsRound cs' = rsRound cs \<and> rsVotes cs' = rsVotes cs"
proof (cases "rsHeight cs \<noteq> h \<or> r < rsRound cs \<or> rsRound cs = r \<and> RoundStepCommit \<le> rsStep cs")
  case True
  then show ?thesis using e ni by (auto simp: enterCommit_def)
next
  case False
  then have r': "r = rsRound cs" and st: "\<not> RoundStepCommit \<le> rsStep cs" using r by auto
  obtain cs1 where cs1: "commitVote (xW X) (rsRound cs) cs = Some cs1" "cs' = newStep (xW X) (updateRoundStep (rsRound cs) RoundStepCommit cs1)"
    using e False r' by (auto simp: enterCommit_def bind_Some)
  from commitVote_sound[OF cs1(1) ni st] obtain x hdr cs0 where c: "NI X R S cs0" "rsRound cs0 = rsRound cs" "rsStep cs0 = rsStep cs"
    "casts CommitType x hdr cs0 cs1" "good_bid \<lparr>bidHash = x, bidParts = hdr\<rparr>"
    "x \<noteq> [] \<longrightarrow> prepared X R (rsRound cs) x \<and> (\<exists>b. rsLockedBlock cs0 = Some b \<and> bhash X b = x) \<and> rsLockedRound cs0 = rsRound cs" "rsVotes cs0 = rsVotes cs"
    unfolding commits_soundly_def by blast
  have "NI X R S (updateRoundStep (rsRound cs0) RoundStepCommit cs1)" by (rule NI_commit[OF c(1) _ c(4,5)]) (use c st in auto)
  then show ?thesis using cs1(2) c(2,7) casts_fields[OF c(4)] coreD[OF core_newStep, of "xW X" "updateRoundStep (rsRound cs) RoundStepCommit cs1"] by simp
qed

lemma enterCommitWait_NI:
  assumes "enterCommitWait (xW X) h r cs = Some cs'" "NI X R S cs" "r \<le> rsRound cs"
  shows "NI X R S cs' \<and> rsRound cs' = rsRound cs"
proof -
  have "NI X R S ((scheduleTimeout d h r s cs)\<lparr>rsTriggeredTimeoutCommit := q\<rparr>)" for d s q
    by (rule NI_noTrigger, rule NI_tick[OF assms(2)]) (use assms(3) in simp)
  then show ?thesis using assms by (auto simp: enterCommitWait_def bind_Some scheduleTimeout_def split: if_splits)
qed

end
