(* ===== verification/Decisions.thy ===== *)
theory Decisions
  imports ConsensusSteps
begin

text \<open>
  Leaving a height: a node moves to the next height only by applying a block for which more than two thirds of the
  validators have sent it commit votes, and the votes it sends there are of the new height. With the steps that stay
  at the height this makes every turn of the receive loop keep the invariant.
\<close>

section \<open>Taking a do block apart\<close>

lemma bindE: "Option.bind m f = Some y \<Longrightarrow> (\<And>a. m = Some a \<Longrightarrow> f a = Some y \<Longrightarrow> P) \<Longrightarrow> P"
  by (cases m) auto

lemma guardE: "(if c then None else z) = Some y \<Longrightarrow> (\<not> c \<Longrightarrow> z = Some y \<Longrightarrow> P) \<Longrightarrow> P"
  by (cases c) auto

lemma pairE: "(case p of (a, b) \<Rightarrow> f a b) = y \<Longrightarrow> (\<And>a b. p = (a, b) \<Longrightarrow> f a b = y \<Longrightarrow> P) \<Longrightarrow> P"
  by (cases p) auto

lemmas unwind = bindE guardE pairE

section \<open>Steps at another height\<close>

definition onward :: "'a ConsensusState \<Rightarrow> 'a ConsensusState \<Rightarrow> bool" where
  "onward cs cs' \<longleftrightarrow> rsHeight cs' = rsHeight cs \<and> csState cs' = csState cs \<and> (\<forall>v\<in>sent cs'. v \<in> sent cs \<or> vHeight v = rsHeight cs)"

lemma onward_core: "core cs' = core cs \<Longrightarrow> onward cs cs'"
  by (auto simp: onward_def dest: coreD)

lemma onward_trans: "onward a b \<Longrightarrow> onward b c \<Longrightarrow> onward a c"
  by (auto simp: onward_def)

lemma onward_newStep [simp]: "onward cs (newStep W cs') = onward cs cs'"
  using coreD[OF core_newStep, of W cs'] by (simp add: onward_def)

lemma onward_upd [simp]: "onward cs (updateRoundStep r s cs') = onward cs cs'" "onward cs (scheduleTimeout d h r s cs') = onward cs cs'"
  by (simp_all add: onward_def) (simp_all add: updateRoundStep_def scheduleTimeout_def)

lemma onward_casts: "casts t x hdr cs cs' \<Longrightarrow> onward cs cs'"
  using casts_sent[of t x hdr cs cs'] casts_fields[of t x hdr cs cs'] by (auto simp: onward_def)

lemma onward_doPrepare: "doPrepare W cs = Some cs' \<Longrightarrow> onward cs cs'"
  by (auto simp: doPrepare_def bind_Some split: option.splits if_splits dest!: signAddVote_casts[THEN onward_casts])

lemma onward_enterPrepare: "enterPrepare W h r cs = Some cs' \<Longrightarrow> onward cs cs'"
  by (auto simp: enterPrepare_def bind_Some onward_core split: if_splits dest!: onward_doPrepare)

lemma onward_enterPrePrepare:
  assumes "enterPrePrepare W h r cs = Some cs'"
  shows "onward cs cs'"
proof (cases "rsHeight cs \<noteq> h \<or> r < rsRound cs \<or> rsRound cs = r \<and> RoundStepPrePrepare \<le> rsStep cs")
  case True
  then show ?thesis using assms by (simp add: enterPrePrepare_def onward_core)
next
  case False
  then obtain cs1 c where cs1: "proposeIfPrimary W h r (scheduleTimeout (PrePrepareWait (csConfig cs) r) h r RoundStepPrePrepare cs) = Some cs1"
    and rest: "(if c then enterPrepare W h (rsRound (newStep W (updateRoundStep r RoundStepPrePrepare cs1))) (newStep W (updateRoundStep r RoundStepPrePrepare cs1)) else Some (newStep W (updateRoundStep r RoundStepPrePrepare cs1))) = Some cs'"
    using assms by (auto simp: enterPrePrepare_def bind_Some Let_def)
  have "onward (scheduleTimeout (PrePrepareWait (csConfig cs) r) h r RoundStepPrePrepare cs) cs1" using proposeIfPrimary_core[OF cs1] by (rule onward_core)
  then have "onward cs cs1" using onward_trans[of cs "scheduleTimeout (PrePrepareWait (csConfig cs) r) h r RoundStepPrePrepare cs"] by (simp add: onward_core)
  then have "onward cs (newStep W (updateRoundStep r RoundStepPrePrepare cs1))" by simp
  from onward_trans[OF this onward_enterPrepare] show ?thesis using rest \<open>onward cs cs1\<close> by (cases c) auto
qed

lemma onward_raised: "onward cs ((raised r vals cs)\<lparr>rsVotes := hv, rsTriggeredTimeoutCommit := q\<rparr>)"
  by (cases "r = 0") (simp_all add: onward_def raised_def Let_def updateRoundStep_def sent_def)

lemma onward_enterNewRound:
  assumes "enterNewRound W h r cs = Some cs'"
  shows "onward cs cs'"
proof (cases "rsHeight cs \<noteq> h \<or> r < rsRound cs \<or> rsRound cs = r \<and> rsStep cs \<noteq> RoundStepNewHeight")
  case True
  then show ?thesis using assms by (simp add: enterNewRound_def onward_core)
next
  case False
  show ?thesis
  proof (rule enterNewRound_raised[OF assms False], goal_cases)
    case (1 vals nxt hvs hvs' v cs4 ev cs5 w)
    have "core cs5 = core ((raised r vals cs)\<lparr>rsVotes := Some hvs', rsTriggeredTimeoutCommit := False\<rparr>)"
      using core_publish(2)[OF 1(4)] core_primaryOf[OF 1(3)] by simp
    then have "onward ((raised r vals cs)\<lparr>rsVotes := Some hvs', rsTriggeredTimeoutCommit := False\<rparr>) cs5" by (rule onward_core)
    then have "onward cs cs5" using onward_trans[OF onward_raised] by blast
    then show ?case using 1(5) onward_trans[OF _ onward_enterPrePrepare, of cs cs5 W h r cs'] by (auto split: if_splits)
  qed
qed

section \<open>Leaving the height\<close>

definition decided :: "'a setting \<Rightarrow> Vote set \<Rightarrow> 'a ConsensusState \<Rightarrow> bool" where
  "decided X R cs \<longleftrightarrow> (\<exists>r b st. quorum_for X R CommitType r b \<and> bidHash b \<noteq> [] \<and> csState cs = Some st \<and> stLastBlockHeight st = xHeight X \<and>
     bidHash (stLastBlockID st) = bidHash b)"

definition departed :: "'a setting \<Rightarrow> Vote set \<Rightarrow> Vote set \<Rightarrow> 'a ConsensusState \<Rightarrow> bool" where
  "departed X R S cs \<longleftrightarrow> rsHeight cs \<noteq> xHeight X \<and> history_ok X R (S \<union> sent cs) \<and> decided X R cs"

lemma history_other:
  assumes "history_ok X R S" and sub: "\<And>v. v \<in> S' \<Longrightarrow> at_height X v \<Longrightarrow> v \<in> S"
  shows "history_ok X R S'"
proof -
  have "commits_once X S" "commits_prepared X R S" "prepares_loyal X R S" "sends_later X S" using assms(1) by (simp_all add: history_ok_def)
  then have "commits_once X S'" "commits_prepared X R S'" "prepares_loyal X R S'" "sends_later X S'"
    unfolding commits_once_def commits_prepared_def prepares_loyal_def sends_later_def using sub by blast+
  then show ?thesis by (simp add: history_ok_def)
qed

lemma departed_onward:
  assumes "departed X R S cs" "onward cs cs'"
  shows "departed X R S cs'"
proof -
  have "history_ok X R (S \<union> sent cs')" by (rule history_other[of X R "S \<union> sent cs"]) (use assms in \<open>auto simp: departed_def onward_def\<close>)
  then show ?thesis using assms by (auto simp: departed_def decided_def onward_def)
qed

lemma newStep_more [simp]: "sent (newStep W cs) = sent cs" "csState (newStep W cs) = csState cs" "rsVotes (newStep W cs) = rsVotes cs" "csHeap (newStep W cs) = csHeap cs"
  "csTicks (newStep W cs) = csTicks cs" "rsLockedBlock (newStep W cs) = rsLockedBlock cs" "rsPrePrepareBlock (newStep W cs) = rsPrePrepareBlock cs"
  "rsPrePrepareBlockParts (newStep W cs) = rsPrePrepareBlockParts cs"
  using coreD[OF core_newStep, of W cs] by simp_all

definition height_after :: "State \<Rightarrow> int" where
  "height_after st = (let h1 = add64 (stLastBlockHeight st) 1 in if h1 = 1 then stInitialHeight st else h1)"

lemma enterHeight_fields:
  assumes "enterHeight W st lc cs = Some cs'"
  shows "csState cs' = Some st \<and> sent cs' = sent cs \<and> rsHeight cs' = height_after st \<and> rsRound cs' = 0 \<and> rsStep cs' = RoundStepNewHeight \<and>
    rsLockedBlock cs' = None \<and> rsPrePrepareBlock cs' = None \<and> rsPrePrepareBlockParts cs' = None \<and> csHeap cs' = csHeap cs \<and> csTicks cs' = csTicks cs \<and>
    (\<exists>votes. NewHeightVoteSet (stChainID st) (height_after st) (stValidators st) = Some votes \<and> rsVotes cs' = Some votes)"
proof -
  let ?c = "updateRoundStep 0 RoundStepNewHeight (updateHeight (height_after st) (cs\<lparr>rsLastCommits := lc\<rparr>))"
  obtain start c where c: "(if rsCommitTime ?c = zero_time then (let (now, c) = clock W ?c in (cfg_Commit (csConfig c) now, c))
      else (cfg_Commit (csConfig ?c) (rsCommitTime ?c), ?c)) = (start, c)" by fastforce
  have "core c = core ?c" using c by (auto split: if_splits prod.splits)
  then have "sent c = sent cs" "rsHeight c = height_after st" "rsRound c = 0" "rsStep c = RoundStepNewHeight" "csHeap c = csHeap cs" "csTicks c = csTicks cs"
    by (auto dest!: coreD simp: updateHeight_def updateRoundStep_def sent_def)
  moreover have "sent (c\<lparr>rsStartTime := a1, rsValidators := a2, rsPrePrepare := a3, rsPrePrepareBlock := a4,
       rsPrePrepareBlockParts := a5, rsLockedRound := a6, rsLockedBlock := a7, rsLockedBlockParts := a8, rsValidRound := a9,
       rsValidBlock := b1, rsValidBlockParts := b2, rsVotes := b3, rsReplyRound := b4,
       rsLastValidators := b5, rsTriggeredTimeoutCommit := b6, csState := b7\<rparr>) = sent c" for a1 a2 a3 a4 a5 a6 a7 a8 a9 b1 b2 b3 b4 b5 b6 b7
    by (simp add: sent_def)
  moreover note e = assms[unfolded enterHeight_def Let_def height_after_def[unfolded Let_def, symmetric] c[unfolded Let_def] prod.case]
  ultimately show ?thesis by (auto simp: bind_Some)
qed

lemma updateToState_cases:
  assumes "updateToState W st cs = Some cs'"
  shows "core cs' = core cs \<or> (\<exists>lc. enterHeight W st lc cs = Some cs')"
  using assms by (auto simp: updateToState_def bind_Some split: if_splits)

lemma height_after_next:
  assumes "setting_ok X" "stLastBlockHeight st = xHeight X"
  shows "height_after st = add64 (xHeight X) 1" "height_after st \<noteq> xHeight X"
proof -
  have h: "0 < xHeight X" "xHeight X < 2 ^ 63" using assms(1) by (simp_all add: setting_ok_def world_ok_def)
  have "add64 (xHeight X) 1 = xHeight X + 1 \<or> add64 (xHeight X) 1 < 0"
  proof (cases "xHeight X + 1 < 2 ^ 63")
    case True
    then show ?thesis using h by (simp add: add64_def wrap_id in_range_def)
  next
    case False
    then have "xHeight X + 1 = 2 ^ 63" using h by simp
    then show ?thesis by (simp add: add64_def wrap_def)
  qed
  then show "height_after st = add64 (xHeight X) 1" "height_after st \<noteq> xHeight X" using h assms(2) by (auto simp: height_after_def)
qed

lemma NI_departs:
  assumes ni: "NI X R S cs" and X: "setting_ok X" and u: "updateToState W st' cs = Some cs'"
    and ap: "stLastBlockHeight st' = xHeight X" "bidHash (stLastBlockID st') = bidHash b"
    and q: "quorum_for X R CommitType r b" "bidHash b \<noteq> []"
  shows "NI X R S cs' \<or> departed X R S cs'"
  using updateToState_cases[OF u]
proof
  assume "core cs' = core cs"
  then show ?thesis using NI_coreD[OF ni] by blast
next
  assume "\<exists>lc. enterHeight W st' lc cs = Some cs'"
  then obtain lc where "enterHeight W st' lc cs = Some cs'" by blast
  note f = enterHeight_fields[OF this]
  have "decided X R cs'" unfolding decided_def using f ap q by blast
  then show ?thesis using f height_after_next[OF X ap(1)] ni by (simp add: departed_def NI_def)
qed

lemma valid_block_height:
  assumes "state_inv X (Some st)" "validateBlock E st block = Some None"
  shows "hHeight (bHeader block) = xHeight X"
  by (rule validateBlock_ok[OF assms(2)]) (use assms(1) in \<open>auto simp: state_inv_def split: if_splits\<close>)

definition keeps :: "'a setting \<Rightarrow> Vote set \<Rightarrow> Vote set \<Rightarrow> 'a ConsensusState \<Rightarrow> bool" where
  "keeps X R S cs \<longleftrightarrow> NI X R S cs \<or> departed X R S cs"

lemma keeps_NI: "NI X R S cs \<Longrightarrow> keeps X R S cs"
  by (simp add: keeps_def)

lemma keeps_core: "keeps X R S cs \<Longrightarrow> core cs' = core cs \<Longrightarrow> keeps X R S cs'"
  using NI_coreD departed_onward[OF _ onward_core] unfolding keeps_def by blast

lemma keeps_scheduleRound0: "keeps X R S cs \<Longrightarrow> keeps X R S (scheduleRound0 W cs)"
proof -
  assume k: "keeps X R S cs"
  obtain now c where c: "clock W cs = (now, c)" by fastforce
  then have k': "keeps X R S c" using keeps_core[OF k] by simp
  then have "keeps X R S (scheduleTimeout d (rsHeight c) 0 s c)" for d s
    using NI_tick[of X R S c "rsHeight c" 0 d s] departed_onward[of X R S c] by (auto simp: keeps_def NI_def onward_core)
  then show ?thesis using c by (simp add: scheduleRound0_def)
qed

lemma keeps_enterNewRound: "keeps X R S cs \<Longrightarrow> enterNewRound (xW X) (rsHeight cs) r cs = Some cs' \<Longrightarrow> keeps X R S cs'"
  using enterNewRound_NI[of X "rsHeight cs" r cs cs' R S] departed_onward[OF _ onward_enterNewRound] NI_height unfolding keeps_def by blast

lemma finalizeAppend_keeps:
  assumes e: "finalizeAppend (xW X) h cs = Some cs'" and ni: "NI X R S cs" and X: "setting_ok X"
  shows "keeps X R S cs'"
proof (cases "rsHeight cs \<noteq> h \<or> rsStep cs \<noteq> RoundStepReply")
  case True
  then show ?thesis using e ni by (auto simp: finalizeAppend_def keeps_def)
next
  case False
  obtain hvs st where hvs: "rsVotes cs = Some hvs" "votes_inv X R (Some hvs)" and st: "csState cs = Some st" "state_inv X (Some st)"
    using ni by (auto simp: NI_def votes_inv_def state_inv_def)
  note e' = e[unfolded finalizeAppend_def if_not_P[OF False] hvs(1) Commits_maj st(1) bind.bind_lunit Let_def]
  obtain b where b: "hv_maj hvs CommitType (rsReplyRound cs) = Some b" using e' by (cases "hv_maj hvs CommitType (rsReplyRound cs)") simp_all
  have q: "quorum_for X R CommitType (rsReplyRound cs) b" using majority_quorum[OF hvs(2) b] by (simp add: IsVoteTypeValid_def)
  obtain block store wr cs1 hash y ex' st' aerr where eq: "block_EqualsTo (xE X) (xK X) (rsPrePrepareBlock cs) (bidHash b) = Some True"
    and block: "rsPrePrepareBlock cs = Some block"
    and w: "wal_Write (xW X) (WalEndHeight h) (cs\<lparr>csBlockStore := store\<rparr>) = (wr, cs1)" and hash: "block_Hash (xE X) (xK X) (Some block) = Some (hash, y)"
    and ap: "ApplyBlock (xE X) (xK X) (wApp (xW X)) (csBlockExec cs1) st \<lparr>bidHash = hash, bidParts = ps_Header (parts_at cs (rsPrePrepareBlockParts cs))\<rparr> block = Some (ex', st', aerr)"
    and fin: "(if aerr \<noteq> None then Some (cs1\<lparr>csBlockExec := ex'\<rparr>) else updateToState (xW X) st' (cs1\<lparr>csBlockExec := ex'\<rparr>) \<bind> (\<lambda>cs3.
        Some (scheduleRound0 (xW X) ((updatePrivValidatorPubKey cs3)\<lparr>csTrust := csTrust (updatePrivValidatorPubKey cs3) @ [UpdateGoods]\<rparr>)))) = Some cs'"
    using e'[unfolded b option.case prod.case] by (elim unwind) (rule that; simp)
  have h: "bhash X block = bidHash b" "bidHash b \<noteq> []" "hash = bhash X block"
    using EqualsTo_True[of X block "bidHash b"] eq block block_Hash_bhash[OF hash] by simp_all
  let ?c = "cs1\<lparr>csBlockExec := ex'\<rparr>"
  have c: "core ?c = core cs" using core_wal(2)[OF w] by simp
  have ni': "NI X R S ?c" by (rule NI_coreD[OF ni c])
  show ?thesis
  proof (cases aerr)
    case None
    obtain cs3 where cs3: "updateToState (xW X) st' ?c = Some cs3"
      "cs' = scheduleRound0 (xW X) ((updatePrivValidatorPubKey cs3)\<lparr>csTrust := csTrust (updatePrivValidatorPubKey cs3) @ [UpdateGoods]\<rparr>)"
      using fin None by (auto simp: bind_Some)
    note ok = ApplyBlock_ok[OF ap[unfolded None]]
    have "keeps X R S cs3" unfolding keeps_def
      by (rule NI_departs[OF ni' X cs3(1) _ _ q h(2)]) (use ok h valid_block_height[OF st(2) ok(1)] in simp_all)
    then show ?thesis unfolding cs3(2) by (intro keeps_scheduleRound0) (erule keeps_core, simp)
  next
    case Some
    then show ?thesis using fin ni' by (auto simp: keeps_def)
  qed
qed

lemma tryFinalizeAppend_keeps:
  assumes "tryFinalizeAppend (xW X) h cs = Some cs'" "NI X R S cs" "setting_ok X"
  shows "keeps X R S cs'"
  using assms(1)[unfolded tryFinalizeAppend_def Let_def] finalizeAppend_keeps[of X h cs cs' R S] keeps_NI[OF assms(2)] assms
  by (elim unwind) (auto simp: bind_Some split: if_splits)

lemma NI_takeLocked: "NI X R S cs \<Longrightarrow> NI X R S (cs\<lparr>rsPrePrepareBlock := rsLockedBlock cs, rsPrePrepareBlockParts := rsLockedBlockParts cs\<rparr>)"
  if "rsLockedBlock cs \<noteq> None" for cs
  by (rule NI_proposalBlock) (use that in \<open>auto simp: NI_def parts_inv_def block_inv_def\<close>)

lemma replyBlock_NI:
  assumes e: "replyBlock (xW X) b cs = Some cs'" and ni: "NI X R S cs" and b: "good_bid b" "bidHash b \<noteq> []"
  shows "NI X R S cs' \<and> rsRound cs' = rsRound cs \<and> rsStep cs' = rsStep cs"
proof -
  obtain lk where lk: "block_EqualsTo (xE X) (xK X) (rsLockedBlock cs) (bidHash b) = Some lk" using e by (auto simp: replyBlock_def bind_Some)
  let ?c = "if lk then cs\<lparr>rsPrePrepareBlock := rsLockedBlock cs, rsPrePrepareBlockParts := rsLockedBlockParts cs\<rparr> else cs"
  have "lk \<Longrightarrow> rsLockedBlock cs \<noteq> None" using EqualsTo_D[of X "rsLockedBlock cs" "bidHash b"] lk by auto
  then have c: "NI X R S ?c" "rsRound ?c = rsRound cs" "rsStep ?c = rsStep cs" using NI_takeLocked[OF _ ni] ni by auto
  have g: "good_header (NewPartSetFromHeader (bidParts b))" using good_bid_complete[OF b] by simp
  have n: "NI X R S (newParts (bidParts b) (?c\<lparr>rsPrePrepareBlock := None\<rparr>))" by (rule NI_newParts(2)[OF c(1) g])
  from e[unfolded replyBlock_def lk bind.bind_lunit Let_def] show ?thesis
  proof (elim bindE)
    fix pr assume a: "(if \<not> pr \<and> \<not> HeaderEqualsTo (parts_at ?c (rsPrePrepareBlockParts ?c)) (bidParts b)
        then publish_logged (xW X) (EventValidBlock (rsHeight (newParts (bidParts b) (?c\<lparr>rsPrePrepareBlock := None\<rparr>)))
             (rsRound (newParts (bidParts b) (?c\<lparr>rsPrePrepareBlock := None\<rparr>))) (rsStep (newParts (bidParts b) (?c\<lparr>rsPrePrepareBlock := None\<rparr>))))
             (newParts (bidParts b) (?c\<lparr>rsPrePrepareBlock := None\<rparr>)) \<bind> (\<lambda>cs3. Some (fire FireValidBlock cs3))
        else Some ?c) = Some cs'"
    show ?thesis
    proof (cases "\<not> pr \<and> \<not> HeaderEqualsTo (parts_at ?c (rsPrePrepareBlockParts ?c)) (bidParts b)")
      case True
      from a[unfolded if_P[OF True]] obtain ev c3 where p: "publish_logged (xW X) ev (newParts (bidParts b) (?c\<lparr>rsPrePrepareBlock := None\<rparr>)) = Some c3" "fire FireValidBlock c3 = cs'"
        by (elim bindE) (rule that; simp)
      have "core cs' = core c3" by (simp add: p(2)[symmetric])
      then show ?thesis using NI_publish_logged[OF p(1) n] NI_coreD[of X R S c3 cs'] coreD[of cs' c3] c(2,3) by simp
    next
      case False
      then show ?thesis using a[unfolded if_not_P[OF False]] c by simp
    qed
  qed
qed

lemma enterReply_keeps:
  assumes e: "enterReply (xW X) h r cs = Some cs'" and ni: "NI X R S cs" and X: "setting_ok X"
    and maj: "rsHeight cs = h \<Longrightarrow> rsVotes cs = Some hvs \<Longrightarrow> hv_maj hvs CommitType r = Some b \<and> bidHash b \<noteq> []" "rsVotes cs = Some hvs"
  shows "keeps X R S cs'"
proof (cases "rsHeight cs \<noteq> h \<or> RoundStepReply \<le> rsStep cs")
  case True
  then show ?thesis using e ni by (auto simp: enterReply_def keeps_def)
next
  case False
  then have b: "hv_maj hvs CommitType r = Some b" "bidHash b \<noteq> []" "rsStep cs \<le> RoundStepReply" using maj by auto
  have inv: "votes_inv X R (Some hvs)" using ni maj(2) by (simp add: NI_def)
  have g: "good_bid b" using majority_quorum[OF inv b(1)] by (simp add: IsVoteTypeValid_def)
  obtain cs1 now cs2 where c: "replyBlock (xW X) b cs = Some cs1"
    "clock (xW X) ((updateRoundStep (rsRound cs1) RoundStepReply cs1)\<lparr>rsReplyRound := r\<rparr>) = (now, cs2)"
    "tryFinalizeAppend (xW X) h (newStep (xW X) (cs2\<lparr>rsCommitTime := now\<rparr>)) = Some cs'"
    using e[unfolded enterReply_def if_not_P[OF False] Let_def maj(2) Commits_maj b(1) bind.bind_lunit option.case fst_conv] by (elim unwind) (rule that; simp)
  note n1 = replyBlock_NI[OF c(1) ni g b(2)]
  have "NI X R S (updateRoundStep (rsRound cs1) RoundStepReply cs1)" by (rule NI_raise) (use n1 b(3) in simp_all)
  then have "NI X R S (newStep (xW X) (cs2\<lparr>rsCommitTime := now\<rparr>))" by (rule NI_coreD) (use core_clock(2)[OF c(2)] in simp)
  then show ?thesis by (rule tryFinalizeAppend_keeps[OF c(3) _ X])
qed

section \<open>Proposals and block parts\<close>

lemma setPrePrepare_NI:
  assumes e: "setPrePrepare (xW X) p cs = Some (cs', err)" and ni: "NI X R S cs" and p: "bid_IsComplete (prBlockID p)" "bid_typed (prBlockID p)"
  shows "NI X R S cs'"
proof (cases "cs' = cs")
  case False
  then obtain v cs1 where c: "primaryOf (xW X) (rsRound cs) cs = Some (v, cs1)" and
    d: "cs' = cs1 \<or> cs' = cs1\<lparr>rsPrePrepare := Some p\<rparr> \<or> cs' = newParts (bidParts (prBlockID p)) (cs1\<lparr>rsPrePrepare := Some p\<rparr>)"
    using e by (auto simp: setPrePrepare_def bind_Some Let_def split: if_splits)
  have n: "NI X R S cs1" by (rule NI_coreD[OF ni core_primaryOf[OF c]])
  then have n': "NI X R S (cs1\<lparr>rsPrePrepare := Some p\<rparr>)" by (rule NI_coreD) simp
  have "good_header (NewPartSetFromHeader (bidParts (prBlockID p)))"
    using p by (auto simp: bid_IsComplete_def good_header_def NewPartSetFromHeader_def srhash_Size_def bid_typed_def)
  then show ?thesis using d n n' NI_newParts(1)[OF n'] by blast
qed (use ni in simp)

lemma decoded_hash:
  assumes X: "setting_ok X" and d: "k_blockDec (xK X) bz = Some pbb" "BlockFromProto (xE X) pbb = Some (Inr b)"
  shows "block_Hash (xE X) (xK X) (Some b) = Some (bhash X b, Some b) \<and> length (bhash X b) = 32"
proof -
  have H: "length (e_Sum (xE X) x) = 32" for x using X by (simp add: setting_ok_def world_ok_def)
  have f: "fresh_block b" "hTime (bHeader b) = hTime (bHeader pbb)"
    using d(2) by (auto simp: BlockFromProto_def HeaderFromProto_def ReplyFromProto_def NewReply_def fresh_block_def DataFromProto_def Let_def split: sum.splits option.splits)
  have "block_Hash (xE X) (xK X) (Some b) = Some (header_Hash (xE X) (xK X) (bHeader b), Some b)"
    by (rule valid_block_Hash[OF H BlockFromProto_facts(1)[OF d(2)] f(1)])
  moreover have "length (header_Hash (xE X) (xK X) (bHeader b)) = 32"
    using X d(1) f(2) hash32.length_tree[of "e_Sum (xE X)"] H by (fastforce simp: header_Hash_def hash32_def setting_ok_def world_ok_def split: option.splits)
  ultimately show ?thesis by (simp add: bhash_def)
qed

lemma NI_setBlock:
  assumes "NI X R S cs" "length (bhash X b) = 32" "rsPrePrepareBlockParts cs = Some i"
  shows "NI X R S (cs\<lparr>rsPrePrepareBlock := Some b\<rparr>)"
  using assms by (auto simp: NI_def parts_inv_def sent_good_def sent_def block_inv_def)

lemma completeBlock_keeps:
  assumes e: "completeBlock (xW X) h b cs = Some cs'" and ni: "NI X R S cs" and X: "setting_ok X"
    and b: "block_Hash (xE X) (xK X) (Some b) = Some (bhash X b, Some b)" "length (bhash X b) = 32" and i: "rsPrePrepareBlockParts cs = Some i"
  shows "keeps X R S cs'"
proof -
  let ?c = "cs\<lparr>rsPrePrepareBlock := Some b\<rparr>"
  have n1: "NI X R S ?c" by (rule NI_setBlock[OF ni b(2) i])
  from e[unfolded completeBlock_def b(1) bind.bind_lunit prod.case Let_def]
  obtain ev cs2 hvs bid maj cs3 cmp where p: "publish_logged (xW X) ev ?c = Some cs2" and m: "TwoThirdsMajority (Prepares hvs (rsRound cs2)) = (bid, maj)"
    and c3: "(if maj \<and> \<not> bid_IsZero bid \<and> rsValidRound cs2 < rsRound cs2 then block_EqualsTo (xE X) (xK X) (rsPrePrepareBlock cs2) (bidHash bid) \<bind> (\<lambda>same.
        Some (if same then cs2\<lparr>rsValidRound := rsRound cs2, rsValidBlock := rsPrePrepareBlock cs2, rsValidBlockParts := rsPrePrepareBlockParts cs2\<rparr> else cs2))
        else Some cs2) = Some cs3"
    and fin: "(if cmp then enterPrepare (xW X) h (rsRound cs3) cs3 \<bind> (\<lambda>cs4. if maj then enterCommit (xW X) h (rsRound cs4) cs4 else Some cs4)
        else if rsStep cs3 = RoundStepReply then tryFinalizeAppend (xW X) h cs3 else Some cs3) = Some cs'"
    by (elim unwind) (rule that; assumption)
  have "core cs3 = core cs2" using c3 by (auto simp: bind_Some split: if_splits)
  then have n3: "NI X R S cs3" using NI_publish_logged[OF p n1] NI_coreD by blast
  show ?thesis
  proof (cases cmp)
    case True
    from fin[unfolded if_P[OF True]] obtain cs4 where c4: "enterPrepare (xW X) h (rsRound cs3) cs3 = Some cs4"
      "(if maj then enterCommit (xW X) h (rsRound cs4) cs4 else Some cs4) = Some cs'" by (elim unwind) (rule that; assumption)
    have n4: "NI X R S cs4" using enterPrepare_NI[OF c4(1) n3] by simp
    then show ?thesis using c4(2) enterCommit_NI[OF _ n4, of h "rsRound cs4" cs'] by (cases maj) (auto intro: keeps_NI)
  next
    case False
    then show ?thesis using fin n3 tryFinalizeAppend_keeps[OF _ n3 X] by (auto intro: keeps_NI split: if_splits)
  qed
qed

lemma AddPart_header:
  assumes "AddPart H (Some ps) part = Some (Some ps', added, err)"
  shows "setTotal ps' = setTotal ps \<and> setHash ps' = setHash ps"
  using assms by (auto simp: AddPart_def bind_Some split: if_splits)

lemma addPart_keeps:
  assumes e: "addPrePrepareBlockPart (xW X) h r np cs = Some (cs', added, err)" and ni: "NI X R S cs" and X: "setting_ok X"
  shows "keeps X R S cs'"
proof (cases "rsHeight cs \<noteq> h \<or> rsPrePrepareBlockParts cs = None")
  case True
  then show ?thesis using e ni by (auto simp: addPrePrepareBlockPart_def bind_Some intro: keeps_NI split: if_splits option.splits)
next
  case False
  then obtain i where i: "rsPrePrepareBlockParts cs = Some i" "\<not> rsHeight cs \<noteq> h" by auto
  have old: "parts_at cs (Some i) = Some (csHeap cs ! i)" "good_header (csHeap cs ! i)" using ni i(1) by (auto simp: NI_def parts_inv_def parts_at_def)
  from e[unfolded addPrePrepareBlockPart_def i(1) if_not_P[OF i(2)] option.case]
  obtain part nps ad er ps where a: "AddPart (e_Sum (xE X)) (parts_at cs (Some i)) part = Some (nps, ad, er)" "nps = Some ps"
    and rest: "cs' = cs\<lparr>csHeap := (csHeap cs)[i := ps]\<rparr> \<or> (\<exists>bz pbb block. k_blockDec (xK X) bz = Some pbb \<and> BlockFromProto (xE X) pbb = Some (Inr block) \<and>
       completeBlock (xW X) h block (cs\<lparr>csHeap := (csHeap cs)[i := ps]\<rparr>) = Some cs')"
    by (elim unwind, hypsubst) (rule that, assumption, rule refl, auto simp: Let_def bind_Some case_sum_eq case_option_eq split: if_splits)
  let ?c = "cs\<lparr>csHeap := (csHeap cs)[i := ps]\<rparr>"
  have "good_header ps" using AddPart_header[of "e_Sum (xE X)" "csHeap cs ! i" part ps ad er] a old by (simp add: good_header_def)
  then have n: "NI X R S ?c" by (rule NI_heap[OF ni])
  from rest show ?thesis
  proof (elim disjE exE conjE)
    fix bz pbb block assume d: "k_blockDec (xK X) bz = Some pbb" "BlockFromProto (xE X) pbb = Some (Inr block)" and c: "completeBlock (xW X) h block ?c = Some cs'"
    show ?thesis by (rule completeBlock_keeps[OF c n X]) (use decoded_hash[OF X d] i in auto)
  qed (use n in \<open>auto intro: keeps_NI\<close>)
qed

end
