(* ===== verification/ConsensusTurns.thy ===== *)
theory ConsensusTurns
  imports Decisions
begin

text \<open>
  Votes, timeouts and messages: one turn of the receive loop keeps the invariant of the height or leaves the height
  with a decision.
\<close>

section \<open>Votes\<close>

lemma NI_publish: "publish W ev cs = Some (x, cs') \<Longrightarrow> NI X R S cs \<Longrightarrow> NI X R S cs' \<and> rsRound cs' = rsRound cs \<and> rsStep cs' = rsStep cs \<and> rsVotes cs' = rsVotes cs \<and>
    rsHeight cs' = rsHeight cs"
  using NI_coreD[OF _ core_publish(1)] coreD[OF core_publish(1)] by metis

lemma fire_fields [simp]: "rsRound (fire ev cs) = rsRound cs" "rsStep (fire ev cs) = rsStep cs" "rsHeight (fire ev cs) = rsHeight cs" "rsVotes (fire ev cs) = rsVotes cs"
  by (simp_all add: fire_def)

lemma NI_fire [simp]: "NI X R S (fire ev cs) = NI X R S cs"
  by (rule NI_core) simp

lemma NI_unlock_later:
  assumes ni: "NI X R S cs" and q: "quorum_for X R PrepareType q b" "good_bid b" and r: "rsLockedRound cs < q" "q \<le> rsRound cs"
    and other: "block_EqualsTo (xE X) (xK X) (rsLockedBlock cs) (bidHash b) = Some False"
  shows "NI X R S (unlock cs)"
proof (rule NI_unlock[OF ni _ r(2)])
  show "prepared X R q (bidHash b)" using q(1) by (auto simp: prepared_def)
  fix bl assume bl: "rsLockedBlock cs = Some bl"
  then have "length (bhash X bl) = 32" using ni by (auto simp: NI_def parts_inv_def block_inv_def)
  then show "bhash X bl \<noteq> bidHash b" using EqualsTo_False[of X bl "bidHash b"] other bl by (cases "bidHash b = []") auto
qed (use r(1) in auto)

lemma NI_validBlock: "NI X R S cs \<Longrightarrow> NI X R S (cs\<lparr>rsValidRound := r, rsValidBlock := nb, rsValidBlockParts := np\<rparr>)"
  by (rule NI_coreD[of _ _ _ cs]) simp_all

text \<open>What a majority of prepares does to the proposal.\<close>

lemma validBlock_NI:
  assumes ni: "NI X R S cs1" and b: "good_bid b" "bidHash b \<noteq> []"
    and e: "(let cs2 = (if isProposal then cs1\<lparr>rsValidRound := r, rsValidBlock := rsPrePrepareBlock cs1, rsValidBlockParts := rsPrePrepareBlockParts cs1\<rparr>
                  else cs1\<lparr>rsPrePrepareBlock := None\<rparr>);
          cs3 = (if \<not> HeaderEqualsTo (parts_at cs2 (rsPrePrepareBlockParts cs2)) (bidParts b) then newParts (bidParts b) cs2 else cs2)
      in publish (xW X) (EventValidBlock (rsHeight cs3) (rsRound cs3) (rsStep cs3)) (fire FireValidBlock cs3)) = Some (go, cs')"
  shows "NI X R S cs' \<and> rsRound cs' = rsRound cs1"
proof -
  define cs2 where "cs2 = (if isProposal then cs1\<lparr>rsValidRound := r, rsValidBlock := rsPrePrepareBlock cs1, rsValidBlockParts := rsPrePrepareBlockParts cs1\<rparr>
                  else cs1\<lparr>rsPrePrepareBlock := None\<rparr>)"
  define cs3 where "cs3 = (if \<not> HeaderEqualsTo (parts_at cs2 (rsPrePrepareBlockParts cs2)) (bidParts b) then newParts (bidParts b) cs2 else cs2)"
  have n2: "NI X R S cs2" "rsRound cs2 = rsRound cs1" unfolding cs2_def using NI_validBlock[OF ni] NI_noBlock[OF ni] by simp_all
  have "NI X R S cs3" "rsRound cs3 = rsRound cs1" unfolding cs3_def using n2 NI_newParts(1)[OF n2(1)] good_bid_complete[OF b] by simp_all
  then show ?thesis using NI_publish[OF e[unfolded Let_def, folded cs2_def, folded cs3_def]] by simp
qed

lemma prepareMajority_NI:
  assumes e: "prepareMajority (xW X) v b cs = Some (go, cs')" and ni: "NI X R S cs" and q: "quorum_for X R PrepareType (vRound v) b" "good_bid b"
  shows "NI X R S cs' \<and> rsRound cs' = rsRound cs"
proof -
  from e[unfolded prepareMajority_def]
  obtain ob ok cs1 where ob: "(if rsLockedBlock cs \<noteq> None \<and> rsLockedRound cs < vRound v \<and> vRound v \<le> rsRound cs
        then map_option Not (block_EqualsTo (xE X) (xK X) (rsLockedBlock cs) (bidHash b)) else Some False) = Some ob"
    and c1: "(if ob then publish (xW X) (EventUnlock (rsHeight cs) (rsRound cs) (rsStep cs)) (unlock cs) else Some (True, cs)) = Some (ok, cs1)"
    and rest: "(if \<not> ok then Some (False, cs1)
     else if length (bidHash b) \<noteq> 0 \<and> rsValidRound cs1 < vRound v \<and> vRound v = rsRound cs1 then
       block_EqualsTo (xE X) (xK X) (rsPrePrepareBlock cs1) (bidHash b) \<bind> (\<lambda>isProposal.
       let cs2 = (if isProposal
                  then cs1\<lparr>rsValidRound := vRound v, rsValidBlock := rsPrePrepareBlock cs1, rsValidBlockParts := rsPrePrepareBlockParts cs1\<rparr>
                  else cs1\<lparr>rsPrePrepareBlock := None\<rparr>);
           cs3 = (if \<not> HeaderEqualsTo (parts_at cs2 (rsPrePrepareBlockParts cs2)) (bidParts b) then newParts (bidParts b) cs2 else cs2)
       in publish (xW X) (EventValidBlock (rsHeight cs3) (rsRound cs3) (rsStep cs3)) (fire FireValidBlock cs3))
     else Some (True, cs1)) = Some (go, cs')"
    by (elim unwind, hypsubst) (rule that; assumption)
  have "ob \<Longrightarrow> NI X R S (unlock cs)" using NI_unlock_later[OF ni q] ob by (auto split: if_splits)
  then have n1: "NI X R S cs1" "rsRound cs1 = rsRound cs" using c1 ni NI_publish[of "xW X" _ "unlock cs" ok cs1 X R S] by (auto split: if_splits)
  show ?thesis
  proof (cases "ok \<and> length (bidHash b) \<noteq> 0 \<and> rsValidRound cs1 < vRound v \<and> vRound v = rsRound cs1")
    case True
    then have g: "length (bidHash b) \<noteq> 0 \<and> rsValidRound cs1 < vRound v \<and> vRound v = rsRound cs1" "\<not> \<not> ok" "bidHash b \<noteq> []" by auto
    from rest[unfolded if_not_P[OF g(2)] if_P[OF g(1)]] show ?thesis by (rule bindE) (use validBlock_NI[OF n1(1) q(2) g(3)] n1(2) in metis)
  next
    case False
    then show ?thesis using rest n1 by (auto split: if_splits)
  qed
qed

lemma prepareVote_NI:
  assumes e: "prepareVote (xW X) h v cs = Some (go, cs')" and ni: "NI X R S cs" and h: "h = xHeight X"
  shows "NI X R S cs'"
proof -
  obtain hvs where hvs: "rsVotes cs = Some hvs" "votes_inv X R (Some hvs)" using ni by (auto simp: NI_def votes_inv_def)
  obtain b ok where m: "TwoThirdsMajority (Prepares hvs (vRound v)) = (b, ok)" by fastforce
  have q: "quorum_for X R PrepareType (vRound v) b \<and> good_bid b" if ok
    using majority_quorum[OF hvs(2), of PrepareType "vRound v" b] m that by (auto simp: Prepares_maj IsVoteTypeValid_def split: option.splits)
  from e[unfolded prepareVote_def Let_def hvs(1) bind.bind_lunit m prod.case]
  obtain g1 cs1 where c1: "(if ok then prepareMajority (xW X) v b cs else Some (True, cs)) = Some (g1, cs1)"
    and fin: "cs' = cs1 \<or> enterNewRound (xW X) h (vRound v) cs1 = Some cs' \<or> rsRound cs1 = vRound v \<and> enterCommit (xW X) h (vRound v) cs1 = Some cs' \<or>
      rsRound cs1 = vRound v \<and> enterPrepareWait (xW X) h (vRound v) cs1 = Some cs' \<or> enterPrepare (xW X) h (rsRound cs1) cs1 = Some cs'"
    by (elim unwind, hypsubst) (rule that, assumption, auto simp: bind_Some split: if_splits)
  have n1: "NI X R S cs1" using c1 ni prepareMajority_NI[OF _ ni, of v b] q by (auto split: if_splits)
  show ?thesis
    using fin n1 enterNewRound_NI[OF _ n1 h] enterCommit_NI[OF _ n1] enterPrepareWait_NI[OF _ n1] enterPrepare_NI[OF _ n1] by (metis order_refl)
qed

lemma precommitVote_keeps:
  assumes e: "precommitVote (xW X) h v cs = Some cs'" and ni: "NI X R S cs" and h: "h = xHeight X" and X: "setting_ok X"
  shows "keeps X R S cs'"
proof -
  obtain hvs where hvs: "rsVotes cs = Some hvs" "votes_inv X R (Some hvs)" using ni by (auto simp: NI_def votes_inv_def)
  obtain b ok where m: "TwoThirdsMajority (Commits hvs (vRound v)) = (b, ok)" by fastforce
  note e' = e[unfolded precommitVote_def Let_def hvs(1) bind.bind_lunit m prod.case]
  show ?thesis
  proof (cases ok)
    case True
    then have maj: "hv_maj hvs CommitType (vRound v) = Some b" using m by (auto simp: Commits_maj split: option.splits)
    from e'[unfolded if_P[OF True]] obtain cs1 cs2 where c: "enterNewRound (xW X) h (vRound v) cs = Some cs1" "enterCommit (xW X) h (vRound v) cs1 = Some cs2"
      and fin: "(if length (bidHash b) \<noteq> 0 then enterReply (xW X) h (vRound v) cs2 \<bind> (\<lambda>cs3. map_option HasAll (Commits hvs (vRound v)) \<bind> (\<lambda>full.
         if ccSkipTimeoutReply (csConfig cs3) \<and> full then enterNewRound (xW X) (rsHeight cs3) 0 cs3 else Some cs3)) else enterCommitWait (xW X) h (vRound v) cs2) = Some cs'"
      by (elim unwind) (rule that; assumption)
    note n1 = enterNewRound_NI[OF c(1) ni h]
    note n2 = enterCommit_NI[OF c(2)]
    have ni2: "NI X R S cs2" "vRound v \<le> rsRound cs2" "rsVotes cs2 = rsVotes cs1" using n1 n2[of R S] by auto
    obtain hvs2 where hvs2: "rsVotes cs2 = Some hvs2" "hv_maj hvs2 CommitType (vRound v) = Some b" using n1 hvs(1) ni2(3) maj by (auto simp: hv_le_def)
    show ?thesis
    proof (cases "length (bidHash b) \<noteq> 0")
      case True
      from fin[unfolded if_P[OF True]] obtain cs3 where c3: "enterReply (xW X) h (vRound v) cs2 = Some cs3"
        "enterNewRound (xW X) (rsHeight cs3) 0 cs3 = Some cs' \<or> cs' = cs3"
        by (elim unwind) (rule that, assumption, auto split: if_splits)
      have "keeps X R S cs3" by (rule enterReply_keeps[OF c3(1) ni2(1) X, of hvs2 b]) (use hvs2 True in auto)
      then show ?thesis using c3(2) keeps_enterNewRound by blast
    next
      case False
      then show ?thesis using fin enterCommitWait_NI[OF _ ni2(1,2)] by (auto intro: keeps_NI)
    qed
  next
    case False
    then consider "cs' = cs" | cs1 where "enterNewRound (xW X) h (vRound v) cs = Some cs1" "enterCommitWait (xW X) h (vRound v) cs1 = Some cs'"
      using e' by (auto simp: bind_Some split: if_splits)
    then show ?thesis
    proof cases
      case 2
      note n1 = enterNewRound_NI[OF 2(1) ni h]
      then show ?thesis using enterCommitWait_NI[OF 2(2)] by (auto intro: keeps_NI)
    qed (use ni in \<open>auto intro: keeps_NI\<close>)
  qed
qed

lemma votes_inv_mono: "votes_inv X R hv \<Longrightarrow> R \<subseteq> R' \<Longrightarrow> votes_inv X R' hv"
  by (auto simp: votes_inv_def intro: hv_inv_mono)

lemma NI_mono:
  assumes "NI X R S cs" "R \<subseteq> R'"
  shows "NI X R' S cs"
proof -
  obtain hvs where h: "rsVotes cs = Some hvs" using assms(1) by (auto simp: NI_def votes_inv_def)
  have "votes_inv X R' (Some hvs)" using assms h votes_inv_mono[of X R "Some hvs" R'] by (simp add: NI_def)
  from NI_votes[OF assms(1) this assms(2)] show ?thesis by (rule NI_coreD) (simp add: core_def sent_def h)
qed

lemma NI_lastCommits: "NI X R S cs \<Longrightarrow> NI X R S (cs\<lparr>rsLastCommits := lc\<rparr>)"
  by (rule NI_coreD[of _ _ _ cs]) simp_all

lemma lastCommitVote_NI:
  assumes e: "lastCommitVote (xW X) v cs = Some (cs', added, err)" and ni: "NI X R S cs"
  shows "NI X R S cs'"
proof (cases "rsStep cs \<noteq> RoundStepNewHeight")
  case True
  then show ?thesis using e ni by (simp add: lastCommitVote_def)
next
  case False
  from e[unfolded lastCommitVote_def if_not_P[OF False] Let_def]
  obtain vs ad er where rest: "(if \<not> ad then Some (cs\<lparr>rsLastCommits := Some vs\<rparr>, ad, map_option (ErrVote \<circ> VoteError) er)
      else publish (xW X) (EventVote v) (cs\<lparr>rsLastCommits := Some vs\<rparr>) \<bind> (\<lambda>(ok, cs2).
        if \<not> ok then Some (cs2, ad, Some ErrPublish)
        else (if ccSkipTimeoutReply (csConfig (fire (FireVote v) cs2)) \<and> HasAll vs
              then enterNewRound (xW X) (rsHeight (fire (FireVote v) cs2)) 0 (fire (FireVote v) cs2) else Some (fire (FireVote v) cs2)) \<bind> (\<lambda>cs4.
          Some (cs4, ad, map_option (ErrVote \<circ> VoteError) er)))) = Some (cs', added, err)"
    by (elim bindE[where m = "VoteSets.AddVote E lc nv" for E lc nv] pairE, hypsubst) (rule that; assumption)
  have n1: "NI X R S (cs\<lparr>rsLastCommits := Some vs\<rparr>)" by (rule NI_lastCommits[OF ni])
  show ?thesis
  proof (cases ad)
    case False
    then show ?thesis using rest n1 by simp
  next
    case True
    from rest True obtain ok cs2 where p: "publish (xW X) (EventVote v) (cs\<lparr>rsLastCommits := Some vs\<rparr>) = Some (ok, cs2)"
      and d: "cs' = cs2 \<or> cs' = fire (FireVote v) cs2 \<or> enterNewRound (xW X) (rsHeight (fire (FireVote v) cs2)) 0 (fire (FireVote v) cs2) = Some cs'"
      by (auto simp: bind_Some split: if_splits)
    have n2: "NI X R S cs2" "NI X R S (fire (FireVote v) cs2)" using NI_publish[OF p n1] by simp_all
    then show ?thesis using d enterNewRound_NI[OF _ n2(2) NI_height[OF n2(2)]] by blast
  qed
qed

lemma cs_addVote_keeps:
  assumes e: "cs_addVote (xW X) v p cs = Some (cs', added, err)" and ni: "NI X R S cs" and X: "setting_ok X" and v: "good_bid (vBlockID v)"
  shows "keeps X (insert v R) S cs'"
proof -
  have mono: "NI X (insert v R) S cs" by (rule NI_mono[OF ni]) auto
  show ?thesis
  proof (cases "add64 (vHeight v) 1 = rsHeight cs \<and> vType v = CommitType \<or> vHeight v \<noteq> rsHeight cs")
    case True
    then show ?thesis using e mono lastCommitVote_NI[OF _ mono] by (auto simp: cs_addVote_def intro: keeps_NI split: if_splits)
  next
    case False
    then have g: "\<not> (add64 (vHeight v) 1 = rsHeight cs \<and> vType v = CommitType)" "\<not> vHeight v \<noteq> rsHeight cs" by auto
    obtain hvs where hvs: "rsVotes cs = Some hvs" "votes_inv X R (Some hvs)" using ni by (auto simp: NI_def votes_inv_def)
    from e[unfolded cs_addVote_def if_not_P[OF g(1)] if_not_P[OF g(2)] Let_def hvs(1) bind.bind_lunit]
    obtain hvs' ad er where a: "hv_AddVote (xE X) hvs v p = Some (hvs', ad, er)" and rest: "cs' = cs\<lparr>rsVotes := Some hvs'\<rparr> \<or>
       (\<exists>ok cs2. publish (xW X) (EventVote v) (cs\<lparr>rsVotes := Some hvs'\<rparr>) = Some (ok, cs2) \<and>
          (cs' = cs2 \<or> (\<exists>go. prepareVote (xW X) (rsHeight cs) v (fire (FireVote v) cs2) = Some (go, cs')) \<or>
           precommitVote (xW X) (rsHeight cs) v (fire (FireVote v) cs2) = Some cs'))"
      by (elim bindE[where m = "hv_AddVote E lc nv q" for E lc nv q] pairE, hypsubst) (rule that, assumption, auto simp: bind_Some split: if_splits)
    have "votes_inv X (insert v R) (Some hvs')" using hv_AddVote_keeps[OF a _ v, of R] hvs(2) by (auto simp: votes_inv_def hv_le_def)
    then have n1: "NI X (insert v R) S (cs\<lparr>rsVotes := Some hvs'\<rparr>)" by (rule NI_votes[OF ni]) auto
    from rest show ?thesis
    proof (elim disjE exE conjE)
      fix ok cs2 go assume p: "publish (xW X) (EventVote v) (cs\<lparr>rsVotes := Some hvs'\<rparr>) = Some (ok, cs2)"
        and c: "prepareVote (xW X) (rsHeight cs) v (fire (FireVote v) cs2) = Some (go, cs')"
      show ?thesis by (rule keeps_NI, rule prepareVote_NI[OF c]) (use NI_publish[OF p n1] NI_height[OF ni] in simp_all)
    next
      fix ok cs2 assume p: "publish (xW X) (EventVote v) (cs\<lparr>rsVotes := Some hvs'\<rparr>) = Some (ok, cs2)"
        and c: "precommitVote (xW X) (rsHeight cs) v (fire (FireVote v) cs2) = Some cs'"
      show ?thesis by (rule precommitVote_keeps[OF c _ _ X]) (use NI_publish[OF p n1] NI_height[OF ni] in simp_all)
    next
      fix ok cs2 assume "publish (xW X) (EventVote v) (cs\<lparr>rsVotes := Some hvs'\<rparr>) = Some (ok, cs2)" "cs' = cs2"
      then show ?thesis using NI_publish[OF _ n1] by (auto intro: keeps_NI)
    qed (use n1 in \<open>auto intro: keeps_NI\<close>)
  qed
qed

section \<open>Messages and timeouts\<close>

definition votes_in :: "Message \<Rightarrow> Vote set" where
  "votes_in m = (case m of VoteMessage v \<Rightarrow> {v} | _ \<Rightarrow> {})"

text \<open>What the reactor's validation of a message leaves for the machine: block ids are complete, or zero in a vote.\<close>

definition msg_ok :: "Message \<Rightarrow> bool" where
  "msg_ok m = (case m of VoteMessage v \<Rightarrow> good_bid (vBlockID v) | PrePrepareMessage p \<Rightarrow> bid_IsComplete (prBlockID p) \<and> bid_typed (prBlockID p) | _ \<Rightarrow> True)"

lemma keeps_stats: "keeps X R S (if q then cs\<lparr>csStats := s\<rparr> else cs) = keeps X R S cs"
  using keeps_core[of X R S cs "cs\<lparr>csStats := s\<rparr>"] keeps_core[of X R S "cs\<lparr>csStats := s\<rparr>" cs] by auto

lemma handleMsg_keeps:
  assumes e: "handleMsg (xW X) mi cs = Some cs'" and ni: "NI X R S cs" and X: "setting_ok X" and m: "msg_ok (miMsg mi)"
  shows "keeps X (R \<union> votes_in (miMsg mi)) S cs'"
proof (cases "miMsg mi")
  case (PrePrepareMessage p)
  then obtain er where "setPrePrepare (xW X) p cs = Some (cs', er)" using e by (auto simp: handleMsg_def)
  then show ?thesis using setPrePrepare_NI[OF _ ni] m PrePrepareMessage by (auto simp: msg_ok_def votes_in_def intro: keeps_NI)
next
  case (BlockPartMessage h r part)
  then obtain cs1 ad er where "addPrePrepareBlockPart (xW X) h r part cs = Some (cs1, ad, er)" "cs' = (if ad then cs1\<lparr>csStats := csStats cs1 @ [mi]\<rparr> else cs1)"
    using e by (auto simp: handleMsg_def bind_Some)
  then show ?thesis using addPart_keeps[OF _ ni X] BlockPartMessage by (simp add: keeps_stats votes_in_def)
next
  case (VoteMessage v)
  then obtain cs1 ad er where t: "tryAddVote (xW X) v (miPeerID mi) cs = Some (cs1, ad, er)" "cs' = (if ad then cs1\<lparr>csStats := csStats cs1 @ [mi]\<rparr> else cs1)"
    using e by (auto simp: handleMsg_def bind_Some)
  then obtain ad' er' where "cs_addVote (xW X) v (miPeerID mi) cs = Some (cs1, ad', er')"
    unfolding tryAddVote_def by (elim unwind, hypsubst) (auto split: option.splits cs_error.splits hv_error.splits vote_error.splits if_splits)
  from cs_addVote_keeps[OF this ni X] show ?thesis using m VoteMessage t(2) by (simp add: keeps_stats votes_in_def msg_ok_def)
qed (use e ni in \<open>auto simp: handleMsg_def votes_in_def intro: keeps_NI\<close>)

lemma handleTimeout_NI:
  assumes e: "handleTimeout (xW X) ti cs = Some cs'" and ni: "NI X R S cs" and ti: "tiHeight ti = xHeight X \<Longrightarrow> tiRound ti \<le> rsRound cs"
  shows "NI X R S cs'"
proof (cases "tiHeight ti \<noteq> rsHeight cs \<or> tiRound ti < rsRound cs \<or> tiRound ti = rsRound cs \<and> tiStep ti < rsStep cs")
  case True
  then show ?thesis using e ni by (simp add: handleTimeout_def)
next
  case False
  have h: "tiHeight ti = xHeight X" and r: "tiRound ti \<le> rsRound cs" and z: "0 \<le> rsRound cs" using False ti NI_height[OF ni] ni by (auto simp: NI_def)
  note e' = e[unfolded handleTimeout_def if_not_P[OF False]]
  have pl: "NI X R S c' \<and> rsRound c' = rsRound cs" if "publish_logged (xW X) ev cs = Some c'" for ev c' using NI_publish_logged[OF that ni] by simp
  show ?thesis
  proof (cases "tiStep ti")
    case RoundStepNewHeight
    then show ?thesis using e' enterNewRound_NI[OF _ ni h] by simp
  next
    case RoundStepNewRound
    then show ?thesis using e' enterPrePrepare_NI[OF _ ni z] by simp
  next
    case RoundStepPrePrepare
    from e'[unfolded RoundStepPrePrepare RoundStepType.case Let_def]
    obtain ev cs1 val cs2 cs4 where c: "publish_logged (xW X) ev cs = Some cs1" "primaryOf (xW X) 0 cs1 = Some (val, cs2)"
      "enterPrepare (xW X) (tiHeight ti) (tiRound ti) cs4 = Some cs'" "core cs4 = core cs2"
      by (elim unwind, hypsubst) (rule that, assumption, assumption, assumption, simp)
    have "core cs4 = core cs1" using c(4) core_primaryOf[OF c(2)] by simp
    then have "NI X R S cs4" "rsRound cs4 = rsRound cs" using pl[OF c(1)] NI_coreD[of X R S cs1 cs4] coreD[of cs4 cs1] by auto
    then show ?thesis using enterPrepare_NI[OF c(3)] r by simp
  next
    case RoundStepPrepareWait
    then obtain ev cs1 where c: "publish_logged (xW X) ev cs = Some cs1" "enterCommit (xW X) (tiHeight ti) (tiRound ti) cs1 = Some cs'"
      using e' by (auto simp: bind_Some)
    then show ?thesis using enterCommit_NI[OF c(2)] pl[OF c(1)] r by auto
  next
    case RoundStepCommitWait
    then obtain ev cs1 cs2 where c: "publish_logged (xW X) ev cs = Some cs1" "enterCommit (xW X) (tiHeight ti) (tiRound ti) cs1 = Some cs2"
      "enterNewRound (xW X) (tiHeight ti) (add32 (tiRound ti) 1) cs2 = Some cs'"
      using e' by (auto simp: bind_Some)
    have "NI X R S cs2" using enterCommit_NI[OF c(2)] pl[OF c(1)] r by auto
    then show ?thesis using enterNewRound_NI[OF c(3) _ h] by blast
  qed (use e' in auto)
qed

lemma handleTxsAvailable_NI:
  assumes e: "handleTxsAvailable (xW X) cs = Some cs'" and ni: "NI X R S cs"
  shows "NI X R S cs'"
proof (cases "rsRound cs = 0 \<and> rsStep cs = RoundStepNewHeight")
  case True
  then have g: "\<not> rsRound cs \<noteq> 0" "rsStep cs = RoundStepNewHeight" by simp_all
  from e[unfolded handleTxsAvailable_def if_not_P[OF g(1)] g(2) RoundStepType.case]
  obtain pb where "(if pb then Some cs else let (now, cs1) = clock (xW X) cs
         in Some (scheduleTimeout (add64 (time_Sub (rsStartTime cs1) now) 1000000) (rsHeight cs1) 0 RoundStepNewRound cs1)) = Some cs'"
    by (elim bindE) (rule that; assumption)
  then consider "cs' = cs" | now cs1 d where "clock (xW X) cs = (now, cs1)" "cs' = scheduleTimeout d (rsHeight cs1) 0 RoundStepNewRound cs1"
    by (auto split: if_splits prod.splits)
  then show ?thesis
  proof cases
    case 2
    have n: "NI X R S cs1" using NI_coreD[OF ni core_clock(2)[OF 2(1)]] .
    then show ?thesis unfolding 2(2) by (rule NI_tick) (use n in \<open>simp add: NI_def\<close>)
  qed (use ni in simp)
next
  case False
  then show ?thesis using e ni enterPrePrepare_NI[OF _ ni, of "rsHeight cs" 0 cs'] by (auto simp: handleTxsAvailable_def split: RoundStepType.splits if_splits)
qed

section \<open>One turn of the receive loop\<close>

text \<open>The inputs the loop can get: messages the reactor has validated, timeouts that were scheduled, and the node's own
  messages. \<open>handed\<close> is what it handles; the votes there are those it has received.\<close>

fun input_ok :: "'a ConsensusState \<Rightarrow> input \<Rightarrow> bool" where
  "input_ok cs TxsAvailable = True"
| "input_ok cs (PeerMsg mi) = msg_ok (miMsg mi)"
| "input_ok cs (InternalMsg i) = (i < length (csInternal cs) \<and>
     (case miMsg (csInternal cs ! i) of PrePrepareMessage p \<Rightarrow> msg_ok (PrePrepareMessage p) | _ \<Rightarrow> True))"
| "input_ok cs (Tock ti) = (ti \<in> set (csTicks cs))"

fun handed :: "'a ConsensusState \<Rightarrow> input \<Rightarrow> Vote set" where
  "handed cs (PeerMsg mi) = votes_in (miMsg mi)"
| "handed cs (InternalMsg i) = votes_in (miMsg (csInternal cs ! i))"
| "handed cs _ = {}"

lemma NI_collect:
  assumes "NI X R S cs" "core c = core (cs\<lparr>csInternal := ms\<rparr>)" "set ms \<subseteq> set (csInternal cs)"
  shows "NI X R (S \<union> sent cs) c"
proof -
  have s: "sent (cs\<lparr>csInternal := ms\<rparr>) \<subseteq> sent cs" using assms(3) by (auto simp: sent_def)
  then have "S \<union> sent cs \<union> sent (cs\<lparr>csInternal := ms\<rparr>) = S \<union> sent cs" by blast
  then have "NI X R (S \<union> sent cs) (cs\<lparr>csInternal := ms\<rparr>)" using assms(1) s by (auto simp: NI_def parts_inv_def sent_good_def)
  then show ?thesis using assms(2) NI_coreD by blast
qed

theorem receiveRoutine_keeps:
  assumes e: "receiveRoutine (xW X) inp cs = Some cs'" and ni: "NI X R S cs" and X: "setting_ok X" and ok: "input_ok cs inp"
  shows "keeps X (R \<union> handed cs inp) (S \<union> sent cs) cs'"
proof (cases inp)
  case TxsAvailable
  have "NI X R (S \<union> sent cs) cs" by (rule NI_collect[OF ni, of _ "csInternal cs"]) simp_all
  then show ?thesis using e TxsAvailable handleTxsAvailable_NI[of X cs cs' R] by (auto simp: receiveRoutine_def intro: keeps_NI)
next
  case (PeerMsg mi)
  have "NI X R (S \<union> sent cs) (snd (wal_Write (xW X) (WalMsgInfo mi) cs))" by (rule NI_collect[OF ni, of _ "csInternal cs"]) simp_all
  then show ?thesis using e ok PeerMsg handleMsg_keeps[OF _ _ X] by (simp add: receiveRoutine_def)
next
  case (InternalMsg i)
  let ?mi = "csInternal cs ! i" and ?ms = "take i (csInternal cs) @ drop (Suc i) (csInternal cs)"
  have i: "i < length (csInternal cs)" using ok InternalMsg by simp
  obtain okw cs1 where w: "wal_Write (xW X) (WalMsgInfo ?mi) (cs\<lparr>csInternal := ?ms\<rparr>) = (okw, cs1)" by fastforce
  have h: "handleMsg (xW X) ?mi cs1 = Some cs'" using e InternalMsg i w by (simp add: receiveRoutine_def Let_def split: if_splits)
  have "set ?ms \<subseteq> set (csInternal cs)" using set_take_subset set_drop_subset by fastforce
  then have n: "NI X R (S \<union> sent cs) cs1" by (rule NI_collect[OF ni core_wal(2)[OF w]])
  have "good_bid (vBlockID v)" if "miMsg ?mi = VoteMessage v" for v
  proof -
    have "v \<in> sent cs" using nth_mem[OF i] that by (auto simp: sent_def)
    then show ?thesis using ni by (simp add: NI_def sent_good_def)
  qed
  then have "msg_ok (miMsg ?mi)" using ok InternalMsg by (auto simp: msg_ok_def split: Message.splits)
  then show ?thesis using handleMsg_keeps[OF h n X] InternalMsg by simp
next
  case (Tock ti)
  have n: "NI X R (S \<union> sent cs) (snd (wal_Write (xW X) (WalTimeout ti) cs))" by (rule NI_collect[OF ni, of _ "csInternal cs"]) simp_all
  have "tiHeight ti = xHeight X \<Longrightarrow> tiRound ti \<le> rsRound (snd (wal_Write (xW X) (WalTimeout ti) cs))"
    using ni ok Tock coreD[OF core_wal(1), of "xW X" "WalTimeout ti" cs] by (auto simp: NI_def ticks_inv_def)
  then show ?thesis using handleTimeout_NI[OF _ n, of ti cs'] e Tock by (auto simp: receiveRoutine_def intro: keeps_NI)
qed

end
