(* ===== verification/Agreement.thy ===== *)
theory Agreement
  imports ConsensusTurns
begin

text \<open>
  Agreement. A network of honest nodes runs the receive loop of \<open>consensus/consensus_state.go\<close> at one height, in any
  interleaving, with any loss, delay, duplication and reordering of messages and with any messages of the other
  validators; only the votes of honest validators cannot be forged. Two nodes that have moved on from the height have
  applied blocks with the same hash.
\<close>

section \<open>Starting a node\<close>

text \<open>A node is made from a chain state by \<open>NewState\<close>, gets its event bus and its validator key, and is started.\<close>

definition starts :: "'a setting \<Rightarrow> State \<Rightarrow> 'a ConsensusState \<Rightarrow> bool" where
  "starts X st cs \<longleftrightarrow> (\<exists>config ex store cs0 pv d. NewState (xW X) config st ex store = Some cs0 \<and>
     cs = OnStart (xW X) (SetPrivValidator pv d (SetEventBus cs0)))"

text \<open>The setting of the height that follows on a chain state.\<close>

definition follows :: "'a setting \<Rightarrow> State \<Rightarrow> bool" where
  "follows X st \<longleftrightarrow> xChain X = stChainID st \<and> xVals X = stValidators st \<and> 0 \<le> stLastBlockHeight st \<and> stLastBlockHeight st < 2 ^ 63 \<and>
     xHeight X = height_after st"

lemma follows_state: "follows X st \<Longrightarrow> state_inv X (Some st)"
proof -
  assume f: "follows X st"
  then have h: "0 \<le> stLastBlockHeight st" "stLastBlockHeight st < 2 ^ 63" "xHeight X = height_after st" by (simp_all add: follows_def)
  consider "stLastBlockHeight st = 0" | "0 < stLastBlockHeight st" "stLastBlockHeight st + 1 < 2 ^ 63" | "stLastBlockHeight st = 2 ^ 63 - 1" using h(1,2) by linarith
  then have "xHeight X = (if stLastBlockHeight st = 0 then stInitialHeight st else add64 (stLastBlockHeight st) 1)"
    by cases (use h(3) in \<open>simp_all add: height_after_def add64_def wrap_id in_range_def Let_def, simp_all add: wrap_def\<close>)
  then show ?thesis using h(1) by (simp add: state_inv_def)
qed

lemma starts_NI:
  assumes s: "starts X st cs" and f: "follows X st" and X: "setting_ok X" and mark: "xFrom X \<le> 0"
  shows "NI X {} {} cs"
proof -
  obtain config ex store cs0 pv d where n: "NewState (xW X) config st ex store = Some cs0" and cs: "cs = OnStart (xW X) (SetPrivValidator pv d (SetEventBus cs0))"
    using s by (auto simp: starts_def)
  from n[unfolded NewState_def Let_def] obtain c where c: "c = zeroState config ex store \<or> (\<exists>lc. c = (zeroState config ex store)\<lparr>rsLastCommits := lc\<rparr>)"
    and u: "updateToState (xW X) st c = Some cs0"
    by (elim unwind) (rule that, auto simp: reconstructLastCommit_def bind_Some split: if_splits)
  have "csState c = None" "sent c = {}" "csHeap c = []" "csTicks c = []" using c by (auto simp: zeroState_def sent_def Let_def)
  moreover obtain lc where lc: "enterHeight (xW X) st lc c = Some cs0"
    using u \<open>csState c = None\<close> by (auto simp: updateToState_def bind_Some split: if_splits)
  note e = enterHeight_fields[OF lc]
  obtain votes where v: "NewHeightVoteSet (xChain X) (xHeight X) (xVals X) = Some votes" "rsVotes cs0 = Some votes" using e f by (auto simp: follows_def)
  have "hv_inv (xE X) {} votes \<and> hvChainID votes = xChain X \<and> hvHeight votes = xHeight X \<and> hvValSet votes = xVals X"
    using NewHeightVoteSet_inv[OF v(1), of "xE X" "{}"] X by (auto simp: setting_ok_def)
  then have vi: "votes_inv X {} (Some votes)" by (simp add: votes_inv_def)
  have "NI X {} {} cs0"
    using e v(2) vi f follows_state[OF f] mark calculation
    by (simp add: NI_def sent_inv_def lock_inv_def ticks_inv_def parts_inv_def block_inv_def sent_good_def history_defs follows_def)
  then have "NI X {} {} (cs0\<lparr>csEventBus := True, csPrivValidator := p, csPubKey := k, csWalOpen := w\<rparr>)" for p k w
    by (rule NI_coreD) (simp add: core_def sent_def)
  then have "NI X {} {} ((SetPrivValidator pv d (SetEventBus cs0))\<lparr>csWalOpen := True\<rparr>)"
    by (simp add: SetPrivValidator_def SetEventBus_def updatePrivValidatorPubKey_def)
  then have k: "keeps X {} {} cs" unfolding cs OnStart_def by (intro keeps_scheduleRound0 keeps_NI)
  have "rsHeight cs = rsHeight cs0" unfolding cs OnStart_def scheduleRound0_def
    by (auto simp: scheduleTimeout_def SetPrivValidator_def SetEventBus_def updatePrivValidatorPubKey_def clock_def split: prod.splits)
  then have "rsHeight cs = xHeight X" using e f by (simp add: follows_def)
  then show ?thesis using k by (simp add: keeps_def departed_def)
qed

section \<open>The network\<close>

text \<open>The nodes of the honest validators, by validator index, with the votes each has handled and has sent.\<close>

record 'a net =
  nNode :: "nat \<Rightarrow> 'a ConsensusState"
  nGot :: "nat \<Rightarrow> Vote set"
  nSent :: "nat \<Rightarrow> Vote set"

definition said :: "'a net \<Rightarrow> nat \<Rightarrow> Vote set" where
  "said N i = nSent N i \<union> sent (nNode N i)"

text \<open>A vote that the key of an honest validator verifies repeats one that its node has sent.\<close>

definition authentic :: "(nat \<Rightarrow> 'a setting) \<Rightarrow> nat set \<Rightarrow> 'a net \<Rightarrow> Vote set \<Rightarrow> bool" where
  "authentic X Hon N V \<longleftrightarrow> (\<forall>v\<in>V. \<forall>i\<in>Hon. \<forall>t r. valid_vote (xE (X i)) (xChain (X i), xHeight (X i), r, t, xVals (X i)) i v \<longrightarrow>
     (\<exists>w\<in>said N i. vType w = t \<and> vRound w = r \<and> at_height (X i) w \<and> vBlockID w = vBlockID v))"

inductive net_step :: "(nat \<Rightarrow> 'a setting) \<Rightarrow> nat set \<Rightarrow> 'a net \<Rightarrow> 'a net \<Rightarrow> bool" for X Hon where
  turn: "i \<in> Hon \<Longrightarrow> rsHeight (nNode N i) = xHeight (X i) \<Longrightarrow> input_ok (nNode N i) inp \<Longrightarrow> authentic X Hon N (handed (nNode N i) inp) \<Longrightarrow>
    receiveRoutine (xW (X i)) inp (nNode N i) = Some cs' \<Longrightarrow>
    net_step X Hon N (N\<lparr>nNode := (nNode N)(i := cs'), nGot := (nGot N)(i := nGot N i \<union> handed (nNode N i) inp), nSent := (nSent N)(i := said N i)\<rparr>)"
| maj23: "i \<in> Hon \<Longrightarrow> rsHeight (nNode N i) = xHeight (X i) \<Longrightarrow> rsVotes (nNode N i) = Some hvs \<Longrightarrow> hv_SetPeerMaj23 hvs r t p b = Some (hvs', err) \<Longrightarrow>
    net_step X Hon N (N\<lparr>nNode := (nNode N)(i := (nNode N i)\<lparr>rsVotes := Some hvs'\<rparr>)\<rparr>)"

abbreviation net_steps :: "(nat \<Rightarrow> 'a setting) \<Rightarrow> nat set \<Rightarrow> 'a net \<Rightarrow> 'a net \<Rightarrow> bool" where
  "net_steps X Hon \<equiv> rtranclp (net_step X Hon)"

definition net_start :: "(nat \<Rightarrow> 'a setting) \<Rightarrow> State \<Rightarrow> nat set \<Rightarrow> 'a net \<Rightarrow> bool" where
  "net_start X st Hon N \<longleftrightarrow> (\<forall>i\<in>Hon. starts (X i) st (nNode N i) \<and> nGot N i = {} \<and> nSent N i = {})"

text \<open>One height for all: the chain state they start from, hashing, keys and codec are common; worlds differ in the clock, the
  outcomes of I/O and the application.\<close>

definition one_height :: "(nat \<Rightarrow> 'a setting) \<Rightarrow> State \<Rightarrow> bool" where
  "one_height X st \<longleftrightarrow> (\<forall>i. setting_ok (X i) \<and> follows (X i) st \<and> xOld (X i) = {} \<and> xFrom (X i) = 0 \<and> xE (X i) = xE (X 0) \<and> xK (X i) = xK (X 0))"

text \<open>The same without the condition on the powers of the validators, which the theorems on networks state on their own.\<close>

definition common_height :: "(nat \<Rightarrow> 'a setting) \<Rightarrow> State \<Rightarrow> bool" where
  "common_height X st \<longleftrightarrow> (\<forall>i. world_ok (X i) \<and> follows (X i) st \<and> xOld (X i) = {} \<and> xFrom (X i) = 0 \<and> xE (X i) = xE (X 0) \<and> xK (X i) = xK (X 0))"

lemma one_height_iff: "one_height X st \<longleftrightarrow> common_height X st \<and> vals_shared_power (stValidators st)"
proof -
  have "setting_ok (X i) \<and> follows (X i) st \<longleftrightarrow> world_ok (X i) \<and> follows (X i) st \<and> vals_shared_power (stValidators st)" for i
    by (auto simp: setting_ok_def follows_def)
  then show ?thesis unfolding one_height_def common_height_def by blast
qed

section \<open>Marks\<close>

abbreviation marked :: "'a setting \<Rightarrow> Vote set \<Rightarrow> int \<Rightarrow> 'a setting" where
  "marked X old m \<equiv> X\<lparr>xOld := old, xFrom := m\<rparr>"

lemma marked_quorum [simp]: "quorum_for (marked X old m) R t r b = quorum_for X R t r b"
  by (simp add: quorum_for_def backers_def)

lemma marked_prepared [simp]: "prepared (marked X old m) R r x = prepared X R r x"
  by (simp only: prepared_def marked_quorum)

lemma marked_overruled [simp]: "overruled (marked X old m) R r r' x = overruled X R r r' x"
  by (simp only: overruled_def marked_prepared)

lemma marked_other [simp]: "bhash (marked X old m) b = bhash X b" "setting_ok (marked X old m) = setting_ok X"
  by (simp_all add: bhash_def setting_ok_def world_ok_def)

lemma marked_history [simp]: "commits_once (marked X old m) S = commits_once X S" "commits_prepared (marked X old m) R S = commits_prepared X R S"
  "prepares_loyal (marked X old m) R S = prepares_loyal X R S"
  unfolding commits_once_def commits_prepared_def prepares_loyal_def marked_prepared marked_overruled by simp_all

lemma marked_inv [simp]: "votes_inv (marked X old m) R hv = votes_inv X R hv" "sent_inv (marked X old m) S r s = sent_inv X S r s"
  "lock_inv (marked X old m) R S r lr lb = lock_inv X R S r lr lb" "ticks_inv (marked X old m) r tis = ticks_inv X r tis"
  "parts_inv (marked X old m) cs = parts_inv X cs" "state_inv (marked X old m) nst = state_inv X nst" "decided (marked X old m) R cs = decided X R cs"
  unfolding votes_inv_def sent_inv_def lock_inv_def ticks_inv_def parts_inv_def block_inv_def state_inv_def decided_def marked_overruled marked_quorum by simp_all

lemma marked_keeps:
  assumes "keeps X R S cs" "NI X R S cs \<Longrightarrow> m \<le> rsRound cs"
  shows "keeps (marked X (S \<union> sent cs) m) R S cs"
proof -
  let ?Y = "marked X (S \<union> sent cs) m"
  have h: "history_ok ?Y R (S \<union> sent cs)" if "history_ok X R (S \<union> sent cs)"
    using that by (simp add: history_ok_def) (simp add: sends_later_def)
  show ?thesis using assms(1) unfolding keeps_def
  proof
    assume n: "NI X R S cs"
    then show "NI ?Y R S cs \<or> departed ?Y R S cs"
      using h assms(2) by (simp add: NI_def)
  next
    assume "departed X R S cs"
    then show "NI ?Y R S cs \<or> departed ?Y R S cs" using h by (simp add: departed_def)
  qed
qed

section \<open>The invariant of the network\<close>

definition net_keeps :: "(nat \<Rightarrow> 'a setting) \<Rightarrow> nat set \<Rightarrow> 'a net \<Rightarrow> bool" where
  "net_keeps X Hon N \<longleftrightarrow> (\<forall>i\<in>Hon. keeps (X i) (nGot N i) (nSent N i) (nNode N i))"

lemma keeps_at_height: "keeps X R S cs \<Longrightarrow> rsHeight cs = xHeight X \<Longrightarrow> NI X R S cs"
  by (auto simp: keeps_def departed_def)

lemma net_step_keeps:
  assumes "net_step X Hon N N'" "net_keeps Y Hon N" "\<And>i. setting_ok (Y i)" "\<And>i. \<exists>old m. Y i = marked (X i) old m"
  shows "net_keeps Y Hon N'"
  using assms(1)
proof cases
  case (turn i inp cs')
  obtain old m where y: "Y i = marked (X i) old m" using assms(4) by blast
  have "keeps (Y i) (nGot N i) (nSent N i) (nNode N i)" using assms(2) turn(2) by (simp add: net_keeps_def)
  then have n: "NI (Y i) (nGot N i) (nSent N i) (nNode N i)" using keeps_at_height turn(3) y by force
  have "receiveRoutine (xW (Y i)) inp (nNode N i) = Some cs'" using turn(6) y by simp
  from receiveRoutine_keeps[OF this n assms(3) turn(4)] show ?thesis using assms(2) turn(1) by (auto simp: net_keeps_def said_def)
next
  case (maj23 i hvs r t p b hvs' err)
  obtain old m where y: "Y i = marked (X i) old m" using assms(4) by blast
  have "keeps (Y i) (nGot N i) (nSent N i) (nNode N i)" using assms(2) maj23(2) by (simp add: net_keeps_def)
  then have n: "NI (Y i) (nGot N i) (nSent N i) (nNode N i)" using keeps_at_height maj23(3) y by force
  then have "votes_inv (Y i) (nGot N i) (Some hvs')"
    using maj23(4) hv_SetPeerMaj23_keeps[OF maj23(5), of "xE (Y i)" "nGot N i"] by (auto simp: NI_def votes_inv_def hv_le_def)
  from NI_votes[OF n this order_refl] show ?thesis using assms(2) maj23(1) by (auto simp: net_keeps_def intro: keeps_NI)
qed

lemma net_steps_keeps:
  assumes "net_steps X Hon N N'" "net_keeps Y Hon N" "\<And>i. setting_ok (Y i)" "\<And>i. \<exists>old m. Y i = marked (X i) old m"
  shows "net_keeps Y Hon N'"
  using assms(1,2) by (induction) (auto intro: net_step_keeps[OF _ _ assms(3,4)])

lemma net_start_keeps:
  assumes "net_start X st Hon N" "one_height X st"
  shows "net_keeps X Hon N"
proof -
  have "NI (X i) {} {} (nNode N i) \<and> nGot N i = {} \<and> nSent N i = {}" if "i \<in> Hon" for i
    using assms that by (auto simp: net_start_def one_height_def intro: starts_NI)
  then show ?thesis by (auto simp: net_keeps_def intro: keeps_NI)
qed

lemma net_reach_keeps:
  assumes "one_height X st" "net_start X st Hon N0" "net_steps X Hon N0 N"
  shows "net_keeps X Hon N"
proof (rule net_steps_keeps[OF assms(3) net_start_keeps[OF assms(2,1)]])
  show "setting_ok (X i)" for i using assms(1) by (simp add: one_height_def)
  have "X i = marked (X i) (xOld (X i)) (xFrom (X i))" for i by simp
  then show "\<exists>old m. X i = marked (X i) old m" for i by blast
qed

lemma net_step_said: "net_step X Hon N N' \<Longrightarrow> said N i \<subseteq> said N' i"
proof (induction rule: net_step.induct)
  case (maj23 k N hvs r t p b hvs' err)
  then show ?case by (auto simp: said_def sent_def)
qed (auto simp: said_def)

lemma net_steps_said: "net_steps X Hon N N' \<Longrightarrow> said N i \<subseteq> said N' i"
  by (induction rule: rtranclp_induct) (use net_step_said in blast)+

lemma authentic_mono: "authentic X Hon N V \<Longrightarrow> (\<And>i. said N i \<subseteq> said N' i) \<Longrightarrow> authentic X Hon N' V"
  unfolding authentic_def by blast

lemma authentic_Un: "authentic X Hon N (V \<union> V') \<longleftrightarrow> authentic X Hon N V \<and> authentic X Hon N V'"
  unfolding authentic_def by blast

lemma net_step_authentic:
  assumes "net_step X Hon N N'" "\<And>k. k \<in> Hon \<Longrightarrow> authentic X Hon N (nGot N k)" "k \<in> Hon"
  shows "authentic X Hon N (nGot N' k)"
  using assms(1)
proof cases
  case (turn i inp cs')
  then show ?thesis using assms(2,3) authentic_Un[of X Hon N "nGot N i"] by auto
next
  case (maj23 i hvs r t p b hvs' err)
  then show ?thesis using assms(2,3) by simp
qed

lemma net_steps_authentic:
  assumes "net_start X st Hon N0" "net_steps X Hon N0 N" "k \<in> Hon"
  shows "authentic X Hon N (nGot N k)"
  using assms(2,3)
proof (induction arbitrary: k rule: rtranclp_induct)
  case base
  then show ?case using assms(1) by (simp add: net_start_def authentic_def)
next
  case (step N N')
  have "authentic X Hon N (nGot N' k)" by (rule net_step_authentic[OF step(2)]) (use step in auto)
  then show ?case by (rule authentic_mono) (rule net_step_said[OF step(2)])
qed

section \<open>Two quorums\<close>

lemma one_quorum: "one_height X st \<Longrightarrow> backers (X i) R t r b = backers (X 0) R t r b" "one_height X st \<Longrightarrow> quorum_for (X i) R t r b = quorum_for (X 0) R t r b"
  "one_height X st \<Longrightarrow> xHeight (X i) = xHeight (X 0)"
proof -
  assume o1: "one_height X st"
  have eq: "xE (X i) = xE (X 0)" "xChain (X i) = xChain (X 0)" "xHeight (X i) = xHeight (X 0)" "xVals (X i) = xVals (X 0)"
    using o1 unfolding one_height_def follows_def by metis+
  show b: "backers (X i) R t r b = backers (X 0) R t r b" unfolding backers_def eq ..
  show "quorum_for (X i) R t r b = quorum_for (X 0) R t r b" unfolding quorum_for_def b eq ..
  show "xHeight (X i) = xHeight (X 0)" by (rule eq)
qed

lemma quorums_meet:
  assumes "quorum_for X R t r b" "quorum_for X R' t' r' b'" and few: "100 * card (powered (xVals X) - Hon) < 52 * card (powered (xVals X))"
  shows "\<exists>i\<in>Hon. i \<in> backers X R t r b \<and> i \<in> backers X R' t' r' b'"
proof (rule ccontr)
  let ?P = "powered (xVals X)"
  let ?A = "backers X R t r b \<inter> ?P" and ?B = "backers X R' t' r' b' \<inter> ?P"
  assume "\<not> ?thesis"
  then have "?A \<inter> ?B \<subseteq> ?P - Hon" by blast
  then have "card (?A \<inter> ?B) \<le> card (?P - Hon)" by (intro card_mono) auto
  moreover have "card ?A + card ?B \<le> card ?P + card (?A \<inter> ?B)" by (rule card_inter_ge) auto
  ultimately show False using assms unfolding quorum_for_def by linarith
qed

lemma backer_said:
  assumes "authentic X Hon N R" "i \<in> Hon" "i \<in> backers (X i) R t r b"
  shows "\<exists>w\<in>said N i. vType w = t \<and> vRound w = r \<and> at_height (X i) w \<and> vBlockID w = b"
  using assms unfolding authentic_def backers_def by fastforce

lemma keeps_history: "keeps X R S cs \<Longrightarrow> history_ok X R (S \<union> sent cs)"
  by (auto simp: keeps_def NI_def departed_def)

section \<open>No rival majority after a commit\<close>

text \<open>A node that has voted in round \<open>q\<close> sends no more votes of earlier rounds.\<close>

lemma old_vote:
  assumes k: "net_keeps X Hon A" and o1: "one_height X st" and steps: "net_steps X Hon A F" and i: "i \<in> Hon"
    and p: "p \<in> said A i" "at_height (X i) p" and u: "u \<in> said F i" "at_height (X i) u" "vRound u < vRound p"
  shows "u \<in> said A i"
proof -
  define Y where "Y l = marked (X l) (said A l) (if l = i then vRound p else 0)" for l
  have "keeps (Y l) (nGot A l) (nSent A l) (nNode A l)" if "l \<in> Hon" for l
    unfolding Y_def said_def
  proof (rule marked_keeps)
    show "keeps (X l) (nGot A l) (nSent A l) (nNode A l)" using k that by (simp add: net_keeps_def)
    assume "NI (X l) (nGot A l) (nSent A l) (nNode A l)"
    then show "(if l = i then vRound p else 0) \<le> rsRound (nNode A l)" using p by (fastforce simp: NI_def sent_inv_def said_def)
  qed
  then have a: "net_keeps Y Hon A" by (simp add: net_keeps_def)
  have ok: "setting_ok (Y l)" "\<exists>old m. Y l = marked (X l) old m" for l using o1 by (auto simp: Y_def one_height_def)
  have "keeps (Y i) (nGot F i) (nSent F i) (nNode F i)" using net_steps_keeps[OF steps a ok] i by (simp add: net_keeps_def)
  then have "sends_later (Y i) (said F i)" using keeps_history by (auto simp: history_ok_def said_def)
  then show ?thesis using u by (auto simp: sends_later_def Y_def)
qed

lemma no_rival:
  assumes o1: "one_height X st" and s: "net_start X st Hon N0" and few: "100 * card (powered (xVals (X 0)) - Hon) < 52 * card (powered (xVals (X 0)))"
    and j: "j \<in> Hon" "quorum_for (X 0) (nGot F j) CommitType r b" "bidHash b \<noteq> []"
    and "net_steps X Hon N0 A" "net_steps X Hon A F" "k \<in> Hon" "r < q" "prepared (X 0) (nGot A k) q y"
  shows "y = bidHash b"
  using assms(7-)
proof (induction arbitrary: k q y rule: rtranclp_induct)
  case base
  then have e: "nGot N0 k = {}" using s by (simp add: net_start_def)
  have "powered (xVals (X 0)) \<noteq> {}" using few by auto
  then have "\<not> quorum_for (X 0) {} PrepareType q b'" for b' by (simp add: quorum_for_def backers_def)
  then show ?case using base(4) unfolding prepared_def e by blast
next
  case (step A A')
  have AF: "net_steps X Hon A F" using step(2,4) by simp
  have N0F: "net_steps X Hon N0 F" using step(1) AF by simp
  have kA: "net_keeps X Hon A" by (rule net_reach_keeps[OF o1 s step(1)])
  obtain b' where b': "quorum_for (X 0) (nGot A' k) PrepareType q b'" "bidHash b' = y" using step.prems(4) by (auto simp: prepared_def)
  obtain i where i: "i \<in> Hon" "i \<in> backers (X i) (nGot F j) CommitType r b" "i \<in> backers (X i) (nGot A' k) PrepareType q b'"
    using quorums_meet[OF j(2) b'(1) few] one_quorum(1)[OF o1] by metis
  obtain u where u: "u \<in> said F i" "vType u = CommitType" "vRound u = r" "at_height (X i) u" "vBlockID u = b"
    using backer_said[OF net_steps_authentic[OF s N0F j(1)] i(1,2)] by blast
  have au: "authentic X Hon A (nGot A' k)" by (rule net_step_authentic[OF step(2) net_steps_authentic[OF s step(1)] step.prems(2)])
  obtain p where p: "p \<in> said A i" "vType p = PrepareType" "vRound p = q" "at_height (X i) p" "vBlockID p = b'"
    using backer_said[OF au i(1,3)] by blast
  have uA: "u \<in> said A i" by (rule old_vote[OF kA o1 AF i(1) p(1,4) u(1,4)]) (use u(3) p(3) step.prems(3) in simp)
  have "keeps (X i) (nGot A i) (nSent A i) (nNode A i)" using kA i(1) by (simp add: net_keeps_def)
  then have "prepares_loyal (X i) (nGot A i) (said A i)" using keeps_history by (auto simp: history_ok_def said_def)
  then have "y \<noteq> bidHash b \<longrightarrow> overruled (X i) (nGot A i) r q (bidHash b)"
    using uA u p(1-5) b'(2) j(3) step.prems(3) unfolding prepares_loyal_def by metis
  moreover have "\<not> overruled (X i) (nGot A i) r q (bidHash b)"
    using step.IH[OF AF i(1)] one_quorum(2)[OF o1, of i] unfolding overruled_def prepared_def by metis
  ultimately show ?case by blast
qed

lemma same_decision:
  assumes o1: "one_height X st" and s: "net_start X st Hon N0" and few: "100 * card (powered (xVals (X 0)) - Hon) < 52 * card (powered (xVals (X 0)))"
    and steps: "net_steps X Hon N0 F" and jk: "j \<in> Hon" "k \<in> Hon" and le: "r \<le> r'"
    and q: "quorum_for (X 0) (nGot F j) CommitType r b" "bidHash b \<noteq> []" "quorum_for (X 0) (nGot F k) CommitType r' b'" "bidHash b' \<noteq> []"
  shows "bidHash b' = bidHash b"
proof -
  obtain i where i: "i \<in> Hon" "i \<in> backers (X i) (nGot F j) CommitType r b" "i \<in> backers (X i) (nGot F k) CommitType r' b'"
    using quorums_meet[OF q(1,3) few] one_quorum(1)[OF o1] by metis
  obtain u where u: "u \<in> said F i" "vType u = CommitType" "vRound u = r" "at_height (X i) u" "vBlockID u = b"
    using backer_said[OF net_steps_authentic[OF s steps jk(1)] i(1,2)] by blast
  obtain w where w: "w \<in> said F i" "vType w = CommitType" "vRound w = r'" "at_height (X i) w" "vBlockID w = b'"
    using backer_said[OF net_steps_authentic[OF s steps jk(2)] i(1,3)] by blast
  have "net_keeps X Hon F" by (rule net_reach_keeps[OF o1 s steps])
  then have "history_ok (X i) (nGot F i) (said F i)" unfolding said_def using i(1) by (intro keeps_history) (simp add: net_keeps_def)
  then have h: "commits_once (X i) (said F i)" "commits_prepared (X i) (nGot F i) (said F i)" by (simp_all add: history_ok_def)
  show ?thesis
  proof (cases "r = r'")
    case True
    from h(1)[unfolded commits_once_def, rule_format, OF u(1) w(1)] have "vhash u = vhash w" using u w True by simp
    then show ?thesis using u(5) w(5) by simp
  next
    case False
    from h(2)[unfolded commits_prepared_def, rule_format, OF w(1)] have "prepared (X i) (nGot F i) r' (bidHash b')" using w q(4) by simp
    then have "prepared (X 0) (nGot F i) r' (bidHash b')" unfolding prepared_def using one_quorum(2)[OF o1, of i] by metis
    then show ?thesis using no_rival[OF o1 s few jk(1) q(1,2) steps rtranclp.rtrancl_refl i(1), of r' "bidHash b'"] False le by simp
  qed
qed

lemma departed_decision:
  assumes "net_keeps X Hon F" "j \<in> Hon" "rsHeight (nNode F j) \<noteq> xHeight (X j)" "one_height X st"
  shows "\<exists>r b s. quorum_for (X 0) (nGot F j) CommitType r b \<and> bidHash b \<noteq> [] \<and> csState (nNode F j) = Some s \<and> stLastBlockHeight s = height_after st \<and>
     bidHash (stLastBlockID s) = bidHash b"
proof -
  have "decided (X j) (nGot F j) (nNode F j)" using assms(1-3) by (auto simp: net_keeps_def keeps_def NI_def departed_def)
  moreover have "xHeight (X j) = height_after st" using assms(4) by (simp add: one_height_def follows_def)
  ultimately show ?thesis unfolding decided_def using one_quorum(2)[OF assms(4), of j] by metis
qed

section \<open>Agreement of the machines\<close>

lemma net_agreement:
  assumes "one_height X st" "net_start X st Hon N0" "net_steps X Hon N0 N"
    and "100 * card (powered (stValidators st) - Hon) < 52 * card (powered (stValidators st))"
    and "j \<in> Hon" "k \<in> Hon" "rsHeight (nNode N j) \<noteq> height_after st" "rsHeight (nNode N k) \<noteq> height_after st"
  shows "\<exists>s s'. csState (nNode N j) = Some s \<and> csState (nNode N k) = Some s' \<and> stLastBlockHeight s = height_after st \<and>
    stLastBlockHeight s' = height_after st \<and> bidHash (stLastBlockID s) = bidHash (stLastBlockID s')"
proof -
  have x: "xHeight (X i) = height_after st" "xVals (X i) = stValidators st" for i using assms(1) by (simp_all add: one_height_def follows_def)
  have few: "100 * card (powered (xVals (X 0)) - Hon) < 52 * card (powered (xVals (X 0)))" using assms(4) x(2) by simp
  have kN: "net_keeps X Hon N" by (rule net_reach_keeps[OF assms(1-3)])
  obtain r b s where a: "quorum_for (X 0) (nGot N j) CommitType r b" "bidHash b \<noteq> []" "csState (nNode N j) = Some s" "stLastBlockHeight s = height_after st"
    "bidHash (stLastBlockID s) = bidHash b" using departed_decision[OF kN assms(5) _ assms(1)] assms(7) x by auto
  obtain r' b' s' where a': "quorum_for (X 0) (nGot N k) CommitType r' b'" "bidHash b' \<noteq> []" "csState (nNode N k) = Some s'" "stLastBlockHeight s' = height_after st"
    "bidHash (stLastBlockID s') = bidHash b'" using departed_decision[OF kN assms(6) _ assms(1)] assms(8) x by auto
  have "bidHash b' = bidHash b"
  proof (cases "r \<le> r'")
    case True
    then show ?thesis by (rule same_decision[OF assms(1,2) few assms(3,5,6) _ a(1,2) a'(1,2)])
  next
    case False
    then have "r' \<le> r" by simp
    from same_decision[OF assms(1,2) few assms(3,6,5) this a'(1,2) a(1,2)] show ?thesis by simp
  qed
  then show ?thesis using a a' by auto
qed

end
