(* ===== verification/Messages.thy ===== *)
theory Messages
  imports RoundStates
begin

text \<open>
  The messages of the consensus reactor: their validation (\<open>consensus/reactor.go\<close>) and their conversion to and from
  the protobuf structures (\<open>consensus/msgs.go\<close>), for the network and for the write-ahead log. A bit array comes back from
  the protobuf structure as it was sent: nothing there ties its number of bits to its words.
\<close>

section \<open>Validation\<close>

definition MaxBlockPartsCount :: int where "MaxBlockPartsCount = MaxBlockSizeBytes div BlockPartSizeBytes + 1"

definition step_IsValid :: "int \<Rightarrow> bool" where
  "step_IsValid step \<longleftrightarrow> 1 \<le> step \<and> step \<le> 8"

datatype msg_error =
    MsgNegativeHeight | MsgNegativeRound | MsgInvalidStep | MsgInvalidLastCommitRound | MsgHeightBelowInitial
  | MsgWrongPartSetHeader | MsgEmptyBlockParts | MsgPartsSizeMismatch | MsgTooManyParts
  | MsgNegativePOLRound | MsgEmptyPOL | MsgTooManyVotes | MsgInvalidType | MsgNegativeIndex | MsgWrongBlockID
  | MsgBasic basic_error | MsgPart part_error | MsgNilPart | MsgNilVote | MsgNilSum | MsgOverflow

text \<open>\<open>None\<close> is the panic on a nil part.\<close>

fun msg_ValidateBasic :: "Message \<Rightarrow> msg_error option option" where
  "msg_ValidateBasic (NewRoundStepMessage h r step secs lcr) = Some
     (if h < 0 then Some MsgNegativeHeight
      else if r < 0 then Some MsgNegativeRound
      else if \<not> step_IsValid step then Some MsgInvalidStep
      else if lcr < -1 then Some MsgInvalidLastCommitRound
      else None)"
| "msg_ValidateBasic (NewValidBlockMessage h r psh parts c) = Some
     (if h < 0 then Some MsgNegativeHeight
      else if r < 0 then Some MsgNegativeRound
      else if \<not> psh_ValidateBasic psh then Some MsgWrongPartSetHeader
      else if ba_Size parts = 0 then Some MsgEmptyBlockParts
      else if ba_Size parts \<noteq> psTotal psh then Some MsgPartsSizeMismatch
      else if MaxBlockPartsCount < ba_Size parts then Some MsgTooManyParts
      else None)"
| "msg_ValidateBasic (PrePrepareMessage p) = Some (map_option MsgBasic (pp_ValidateBasic p))"
| "msg_ValidateBasic (PrePreparePOLMessage h r pol) = Some
     (if h < 0 then Some MsgNegativeHeight
      else if r < 0 then Some MsgNegativePOLRound
      else if ba_Size pol = 0 then Some MsgEmptyPOL
      else if int MaxVotesCount < ba_Size pol then Some MsgTooManyVotes
      else None)"
| "msg_ValidateBasic (BlockPartMessage h r part) =
     (if h < 0 then Some (Some MsgNegativeHeight)
      else if r < 0 then Some (Some MsgNegativeRound)
      else map_option (\<lambda>p. map_option MsgPart (part_ValidateBasic p)) part)"
| "msg_ValidateBasic (VoteMessage v) = Some (map_option MsgBasic (vote_ValidateBasic v))"
| "msg_ValidateBasic (HasVoteMessage h r t i) = Some
     (if h < 0 then Some MsgNegativeHeight
      else if r < 0 then Some MsgNegativeRound
      else if \<not> IsVoteTypeValid t then Some MsgInvalidType
      else if i < 0 then Some MsgNegativeIndex
      else None)"
| "msg_ValidateBasic (VoteSetMaj23Message h r t b) = Some
     (if h < 0 then Some MsgNegativeHeight
      else if r < 0 then Some MsgNegativeRound
      else if \<not> IsVoteTypeValid t then Some MsgInvalidType
      else if \<not> bid_ValidateBasic b then Some MsgWrongBlockID
      else None)"
| "msg_ValidateBasic (VoteSetBitsMessage h r t b votes) = Some
     (if h < 0 then Some MsgNegativeHeight
      else if \<not> IsVoteTypeValid t then Some MsgInvalidType
      else if \<not> bid_ValidateBasic b then Some MsgWrongBlockID
      else if int MaxVotesCount < ba_Size votes then Some MsgTooManyVotes
      else None)"

text \<open>\<open>ValidateHeight\<close> of a round step message.\<close>

definition ValidateHeight :: "int \<Rightarrow> int \<Rightarrow> int \<Rightarrow> msg_error option" where
  "ValidateHeight height lastCommitRound initialHeight =
     (if height < initialHeight then Some MsgHeightBelowInitial
      else if height = initialHeight \<and> lastCommitRound \<noteq> -1 then Some MsgInvalidLastCommitRound
      else if initialHeight < height \<and> lastCommitRound < 0 then Some MsgInvalidLastCommitRound
      else None)"

section \<open>Protobuf structures\<close>

datatype pbMessage =
    PbNewRoundStep int int int int int
  | PbNewValidBlock int int PartSetHeader "BitArray option" bool
  | PbPrePrepare PrePrepare
  | PbPrePreparePol int int BitArray
  | PbBlockPart int int Part
  | PbVote "Vote option"
  | PbHasVote int int int int
  | PbVoteSetMaj23 int int int BlockID
  | PbVoteSetBits int int int BlockID BitArray
  | PbNoSum

definition zero_bits :: BitArray where "zero_bits = \<lparr>Bits = 0, Elems = []\<rparr>"

definition ba_ToProto :: "BitArray option \<Rightarrow> BitArray option" where
  "ba_ToProto bA = (case bA of None \<Rightarrow> None | Some b \<Rightarrow> if Elems b = [] then None else Some b)"

text \<open>\<open>FromProto\<close> on \<open>new(BitArray)\<close>: assigning nil to the receiver has no effect outside.\<close>

definition ba_FromProto :: "BitArray option \<Rightarrow> BitArray" where
  "ba_FromProto pb = (case pb of None \<Rightarrow> zero_bits | Some p \<Rightarrow> p)"

definition SafeConvertUint8 :: "int \<Rightarrow> int option" where
  "SafeConvertUint8 a = (if 255 < a then None else if a < 0 then None else Some a)"

text \<open>The outer option is the panic on a nil bit array; a sum is the returned error or the structure.\<close>

fun MsgToProto :: "Message \<Rightarrow> (msg_error + pbMessage) option" where
  "MsgToProto (NewRoundStepMessage h r step secs lcr) = Some (Inr (PbNewRoundStep h r step secs lcr))"
| "MsgToProto (NewValidBlockMessage h r psh parts c) = Some (Inr (PbNewValidBlock h r psh (ba_ToProto parts) c))"
| "MsgToProto (PrePrepareMessage p) = Some (Inr (PbPrePrepare p))"
| "MsgToProto (PrePreparePOLMessage h r pol) = map_option (\<lambda>bits. Inr (PbPrePreparePol h r bits)) (ba_ToProto pol)"
| "MsgToProto (BlockPartMessage h r part) = Some (case part of None \<Rightarrow> Inl MsgNilPart | Some p \<Rightarrow> Inr (PbBlockPart h r p))"
| "MsgToProto (VoteMessage v) = Some (Inr (PbVote (Some v)))"
| "MsgToProto (HasVoteMessage h r t i) = Some (Inr (PbHasVote h r t i))"
| "MsgToProto (VoteSetMaj23Message h r t b) = Some (Inr (PbVoteSetMaj23 h r t b))"
| "MsgToProto (VoteSetBitsMessage h r t b votes) =
     Some (Inr (PbVoteSetBits h r t b (case ba_ToProto votes of None \<Rightarrow> zero_bits | Some bits \<Rightarrow> bits)))"

text \<open>The switch of \<open>MsgFromProto\<close>; the message it builds is validated at the end.\<close>

fun pbToMsg :: "pbMessage \<Rightarrow> msg_error + Message" where
  "pbToMsg (PbNewRoundStep h r step secs lcr) =
     (case SafeConvertUint8 step of None \<Rightarrow> Inl MsgOverflow | Some s \<Rightarrow> Inr (NewRoundStepMessage h r s secs lcr))"
| "pbToMsg (PbNewValidBlock h r psh parts c) =
     (case PartSetHeaderFromProto psh of None \<Rightarrow> Inl MsgWrongPartSetHeader
      | Some p \<Rightarrow> Inr (NewValidBlockMessage h r p (Some (ba_FromProto parts)) c))"
| "pbToMsg (PbPrePrepare p) = (case PrePrepareFromProto p of Inl e \<Rightarrow> Inl (MsgBasic e) | Inr pp \<Rightarrow> Inr (PrePrepareMessage pp))"
| "pbToMsg (PbPrePreparePol h r pol) = Inr (PrePreparePOLMessage h r (Some (ba_FromProto (Some pol))))"
| "pbToMsg (PbBlockPart h r part) = (case PartFromProto part of None \<Rightarrow> Inl MsgNilPart | Some p \<Rightarrow> Inr (BlockPartMessage h r (Some p)))"
| "pbToMsg (PbVote v) =
     (case v of None \<Rightarrow> Inl MsgNilVote
      | Some pv \<Rightarrow> (case VoteFromProto pv of Inl e \<Rightarrow> Inl (MsgBasic e) | Inr vote \<Rightarrow> Inr (VoteMessage vote)))"
| "pbToMsg (PbHasVote h r t i) = Inr (HasVoteMessage h r t i)"
| "pbToMsg (PbVoteSetMaj23 h r t b) =
     (case BlockIDFromProto b of None \<Rightarrow> Inl MsgWrongBlockID | Some bi \<Rightarrow> Inr (VoteSetMaj23Message h r t bi))"
| "pbToMsg (PbVoteSetBits h r t b votes) =
     (case BlockIDFromProto b of None \<Rightarrow> Inl MsgWrongBlockID
      | Some bi \<Rightarrow> Inr (VoteSetBitsMessage h r t bi (Some (ba_FromProto (Some votes)))))"
| "pbToMsg PbNoSum = Inl MsgNilSum"

definition MsgFromProto :: "pbMessage \<Rightarrow> (msg_error + Message) option" where
  "MsgFromProto pb =
     (case pbToMsg pb of
        Inl e \<Rightarrow> Some (Inl e)
      | Inr m \<Rightarrow> map_option (\<lambda>err. case err of Some e \<Rightarrow> Inl e | None \<Rightarrow> Inr m) (msg_ValidateBasic m))"

section \<open>Log entries\<close>

text \<open>A timeout read from a log may have a step outside the eight; it is kept as its number.\<close>

datatype pbWAL =
    PbWalRoundState int int RoundStepType
  | PbWalMsgInfo pbMessage string
  | PbWalTimeout int int int int
  | PbWalEndHeight int
  | PbWalNoSum

datatype walEntry = Entry walMessage | OddTimeout int int int int

definition step_of_code :: "int \<Rightarrow> RoundStepType option" where
  "step_of_code c = find (\<lambda>s. int (step_code s) = c)
     [RoundStepNewHeight, RoundStepNewRound, RoundStepPrePrepare, RoundStepPrepare, RoundStepPrepareWait, RoundStepCommit, RoundStepCommitWait, RoundStepReply]"

fun WALToProto :: "walMessage \<Rightarrow> (msg_error + pbWAL) option" where
  "WALToProto (WalRoundState h r s) = Some (Inr (PbWalRoundState h r s))"
| "WALToProto (WalMsgInfo mi) =
     map_option (\<lambda>res. case res of Inl e \<Rightarrow> Inl e | Inr pb \<Rightarrow> Inr (PbWalMsgInfo pb (miPeerID mi))) (MsgToProto (miMsg mi))"
| "WALToProto (WalTimeout ti) = Some (Inr (PbWalTimeout (tiDuration ti) (tiHeight ti) (tiRound ti) (int (step_code (tiStep ti)))))"
| "WALToProto (WalEndHeight h) = Some (Inr (PbWalEndHeight h))"

fun WALFromProto :: "pbWAL \<Rightarrow> (msg_error + walEntry) option" where
  "WALFromProto (PbWalRoundState h r s) = Some (Inr (Entry (WalRoundState h r s)))"
| "WALFromProto (PbWalMsgInfo pb peer) =
     map_option (\<lambda>res. case res of Inl e \<Rightarrow> Inl e | Inr m \<Rightarrow> Inr (Entry (WalMsgInfo \<lparr>miMsg = m, miPeerID = peer\<rparr>))) (MsgFromProto pb)"
| "WALFromProto (PbWalTimeout d h r step) = Some
     (case SafeConvertUint8 step of None \<Rightarrow> Inl MsgOverflow
      | Some s \<Rightarrow> Inr (case step_of_code s of None \<Rightarrow> OddTimeout d h r s
          | Some st \<Rightarrow> Entry (WalTimeout \<lparr>tiDuration = d, tiHeight = h, tiRound = r, tiStep = st\<rparr>)))"
| "WALFromProto (PbWalEndHeight h) = Some (Inr (Entry (WalEndHeight h)))"
| "WALFromProto PbWalNoSum = Some (Inl MsgNilSum)"

section \<open>Round trips\<close>

text \<open>The arrays a node sends: words for its bits, where the message needs an array.\<close>

fun arrays_ok :: "Message \<Rightarrow> bool" where
  "arrays_ok (NewValidBlockMessage h r psh parts c) = pred_option (\<lambda>b. Elems b \<noteq> []) parts"
| "arrays_ok (PrePreparePOLMessage h r pol) = pred_option (\<lambda>b. Elems b \<noteq> []) pol"
| "arrays_ok (VoteSetBitsMessage h r t b votes) = pred_option (\<lambda>b. Elems b \<noteq> []) votes"
| "arrays_ok _ = True"

text \<open>What the receiver gets: a nil array of votes arrives as an empty one.\<close>

fun received :: "Message \<Rightarrow> Message" where
  "received (VoteSetBitsMessage h r t b None) = VoteSetBitsMessage h r t b (Some zero_bits)"
| "received m = m"

lemma received_valid: "msg_ValidateBasic (received m) = msg_ValidateBasic m"
  by (cases m rule: received.cases) (simp_all add: zero_bits_def ba_Size_def)

lemma pbToMsg_MsgToProto:
  assumes "msg_ValidateBasic m = Some None" "arrays_ok m"
  shows "\<exists>pb. MsgToProto m = Some (Inr pb) \<and> pbToMsg pb = Inr (received m)"
proof (cases m)
  case (NewRoundStepMessage h r s q l)
  then show ?thesis using assms(1) by (auto simp: SafeConvertUint8_def step_IsValid_def split: if_splits)
next
  case (NewValidBlockMessage h r psh parts c)
  then show ?thesis using assms by (cases parts) (auto simp: ba_Size_def ba_ToProto_def ba_FromProto_def PartSetHeaderFromProto_def split: if_splits)
next
  case (PrePreparePOLMessage h r pol)
  then show ?thesis using assms by (cases pol) (auto simp: ba_Size_def ba_ToProto_def ba_FromProto_def split: if_splits)
next
  case (VoteSetBitsMessage h r t b votes)
  then show ?thesis using assms by (cases votes) (auto simp: ba_ToProto_def ba_FromProto_def BlockIDFromProto_eq split: if_splits)
qed (use assms in \<open>auto simp: PrePrepareFromProto_def VoteFromProto_def BlockIDFromProto_eq PartFromProto_def pp_ValidateBasic_def vote_ValidateBasic_def
    part_ValidateBasic_def split: option.splits if_splits\<close>)

lemma MsgFromProto_MsgToProto:
  assumes "msg_ValidateBasic m = Some None" "arrays_ok m"
  shows "\<exists>pb. MsgToProto m = Some (Inr pb) \<and> MsgFromProto pb = Some (Inr (received m))"
proof -
  obtain pb where "MsgToProto m = Some (Inr pb)" "pbToMsg pb = Inr (received m)" using pbToMsg_MsgToProto[OF assms] by blast
  then show ?thesis using assms(1) received_valid[of m] by (auto simp: MsgFromProto_def)
qed

lemma step_of_code_code [simp]: "step_of_code (int (step_code s)) = Some s"
  by (cases s) (simp_all add: step_of_code_def)

lemma SafeConvertUint8_code [simp]: "SafeConvertUint8 (int (step_code s)) = Some (int (step_code s))"
  by (cases s) (simp_all add: SafeConvertUint8_def)

text \<open>A log entry that can be read back: what it holds of a message is what a receiver gets.\<close>

fun loggable :: "walMessage \<Rightarrow> bool" where
  "loggable (WalMsgInfo mi) = (msg_ValidateBasic (miMsg mi) = Some None \<and> arrays_ok (miMsg mi))"
| "loggable _ = True"

fun logged :: "walMessage \<Rightarrow> walMessage" where
  "logged (WalMsgInfo mi) = WalMsgInfo (mi\<lparr>miMsg := received (miMsg mi)\<rparr>)"
| "logged m = m"

lemma WALFromProto_WALToProto:
  assumes "loggable m"
  shows "\<exists>pb. WALToProto m = Some (Inr pb) \<and> WALFromProto pb = Some (Inr (Entry (logged m)))"
proof (cases m)
  case (WalMsgInfo mi)
  then obtain pb where "MsgToProto (miMsg mi) = Some (Inr pb)" "MsgFromProto pb = Some (Inr (received (miMsg mi)))"
    using MsgFromProto_MsgToProto assms by auto
  then show ?thesis using WalMsgInfo by (cases mi) auto
next
  case (WalTimeout ti)
  then show ?thesis by (cases ti) simp
qed simp_all

end
