(* ===== verification/Peers.thy ===== *)
theory Peers
  imports Messages Consensus
begin

text \<open>
  The consensus reactor of \<open>consensus/reactor.go\<close>: what it knows of a peer (\<open>PeerState\<close>, with the round state of
  \<open>consensus/peer_round_state.go\<close>), the handling of a message, and one turn of each gossip routine. The bit arrays of a peer
  are addresses into a heap, because the commits of the round and the catch-up commits may be one array. The gossip routines
  work on a copy of the round state of the peer taken at the start of a turn, so it is an argument of its own beside the
  peer state they update.
\<close>

section \<open>State of a peer\<close>

record PeerRoundState =
  prsHeight :: int
  prsRound :: int
  prsStep :: int
  prsStartTime :: int
  prsProposal :: bool
  prsPartsHeader :: PartSetHeader
  prsParts :: "nat option"
  prsPOLRound :: int
  prsPOL :: "nat option"
  prsPrevotes :: "nat option"
  prsPrecommits :: "nat option"
  prsLastCommitRound :: int
  prsLastCommit :: "nat option"
  prsCatchupCommitRound :: int
  prsCatchupCommit :: "nat option"

record PeerState = PeerRoundState +
  psPeer :: string
  psVotes :: int
  psBlockParts :: int
  psBits :: "BitArray list"

definition bits_at :: "PeerState \<Rightarrow> nat option \<Rightarrow> BitArray option" where
  "bits_at ps p = Option.bind p (\<lambda>i. if i < length (psBits ps) then Some (psBits ps ! i) else None)"

text \<open>Keeping an array behind a new pointer; a nil array is the nil pointer.\<close>

definition keepBits :: "BitArray option \<Rightarrow> PeerState \<Rightarrow> nat option \<times> PeerState" where
  "keepBits bA ps =
     (case bA of None \<Rightarrow> (None, ps) | Some b \<Rightarrow> (Some (length (psBits ps)), ps\<lparr>psBits := psBits ps @ [b]\<rparr>))"

definition putBits :: "nat option \<Rightarrow> BitArray option \<Rightarrow> PeerState \<Rightarrow> PeerState" where
  "putBits p bA ps = (case (p, bA) of (Some i, Some b) \<Rightarrow> ps\<lparr>psBits := (psBits ps)[i := b]\<rparr> | _ \<Rightarrow> ps)"

definition NewPeerState :: "string \<Rightarrow> PeerState" where
  "NewPeerState peer =
     \<lparr>prsHeight = 0, prsRound = -1, prsStep = 0, prsStartTime = zero_time, prsProposal = False, prsPartsHeader = zero_psh, prsParts = None,
      prsPOLRound = -1, prsPOL = None, prsPrevotes = None, prsPrecommits = None, prsLastCommitRound = -1, prsLastCommit = None,
      prsCatchupCommitRound = -1, prsCatchupCommit = None, psPeer = peer, psVotes = 0, psBlockParts = 0, psBits = []\<rparr>"

definition GetRoundState :: "PeerState \<Rightarrow> PeerRoundState" where
  "GetRoundState ps = PeerRoundState.truncate ps"

section \<open>Proposals and parts\<close>

definition SetHasProposal :: "PrePrepare \<Rightarrow> PeerState \<Rightarrow> PeerState" where
  "SetHasProposal proposal ps =
     (if prsHeight ps \<noteq> prHeight proposal \<or> prsRound ps \<noteq> prRound proposal then ps
      else if prsProposal ps then ps
      else let ps1 = ps\<lparr>prsProposal := True\<rparr>
           in if prsParts ps1 \<noteq> None then ps1
              else let header = bidParts (prBlockID proposal);
                       (p, ps2) = keepBits (NewBitArray (psTotal header)) ps1
                   in ps2\<lparr>prsPartsHeader := header, prsParts := p, prsPOLRound := prPOLRound proposal, prsPOL := None\<rparr>)"

definition InitProposalBlockParts :: "PartSetHeader \<Rightarrow> PeerState \<Rightarrow> PeerState" where
  "InitProposalBlockParts header ps =
     (if prsParts ps \<noteq> None then ps
      else let (p, ps1) = keepBits (NewBitArray (psTotal header)) ps in ps1\<lparr>prsPartsHeader := header, prsParts := p\<rparr>)"

text \<open>Setting a bit behind a pointer; \<open>SetIndex\<close> on nil does nothing.\<close>

definition setBit :: "nat option \<Rightarrow> int \<Rightarrow> PeerState \<Rightarrow> PeerState option" where
  "setBit p index ps = map_option (\<lambda>(_, bA). putBits p bA ps) (SetIndex (bits_at ps p) index True)"

definition SetHasProposalBlockPart :: "int \<Rightarrow> int \<Rightarrow> int \<Rightarrow> PeerState \<Rightarrow> PeerState option" where
  "SetHasProposalBlockPart height r index ps =
     (if prsHeight ps \<noteq> height \<or> prsRound ps \<noteq> r then Some ps else setBit (prsParts ps) index ps)"

section \<open>Votes\<close>

definition getVoteBitArray :: "int \<Rightarrow> int \<Rightarrow> int \<Rightarrow> PeerState \<Rightarrow> nat option" where
  "getVoteBitArray height r votesType ps =
     (if \<not> IsVoteTypeValid votesType then None
      else if prsHeight ps = height then
        (if prsRound ps = r then (if votesType = PrepareType then prsPrevotes ps else prsPrecommits ps)
         else if prsCatchupCommitRound ps = r then (if votesType = PrepareType then None else prsCatchupCommit ps)
         else if prsPOLRound ps = r then (if votesType = PrepareType then prsPOL ps else None)
         else None)
      else if prsHeight ps = add64 height 1 then
        (if prsLastCommitRound ps = r then (if votesType = PrepareType then None else prsLastCommit ps) else None)
      else None)"

definition ensureCatchupCommitRound :: "int \<Rightarrow> int \<Rightarrow> int \<Rightarrow> PeerState \<Rightarrow> PeerState" where
  "ensureCatchupCommitRound height r numValidators ps =
     (if prsHeight ps \<noteq> height then ps
      else if prsCatchupCommitRound ps = r then ps
      else let ps1 = ps\<lparr>prsCatchupCommitRound := r\<rparr>
           in if r = prsRound ps1 then ps1\<lparr>prsCatchupCommit := prsPrecommits ps1\<rparr>
              else let (p, ps2) = keepBits (NewBitArray numValidators) ps1 in ps2\<lparr>prsCatchupCommit := p\<rparr>)"

definition ensureVoteBitArrays :: "int \<Rightarrow> int \<Rightarrow> PeerState \<Rightarrow> PeerState" where
  "ensureVoteBitArrays height n ps =
     (if prsHeight ps = height then
        let ps1 = (if prsPrevotes ps = None then let (p, q) = keepBits (NewBitArray n) ps in q\<lparr>prsPrevotes := p\<rparr> else ps);
            ps2 = (if prsPrecommits ps1 = None then let (p, q) = keepBits (NewBitArray n) ps1 in q\<lparr>prsPrecommits := p\<rparr> else ps1);
            ps3 = (if prsCatchupCommit ps2 = None then let (p, q) = keepBits (NewBitArray n) ps2 in q\<lparr>prsCatchupCommit := p\<rparr> else ps2)
        in (if prsPOL ps3 = None then let (p, q) = keepBits (NewBitArray n) ps3 in q\<lparr>prsPOL := p\<rparr> else ps3)
      else if prsHeight ps = add64 height 1 then
        (if prsLastCommit ps = None then let (p, q) = keepBits (NewBitArray n) ps in q\<lparr>prsLastCommit := p\<rparr> else ps)
      else ps)"

definition setHasVote :: "int \<Rightarrow> int \<Rightarrow> int \<Rightarrow> int \<Rightarrow> PeerState \<Rightarrow> PeerState option" where
  "setHasVote height r voteType index ps =
     (case getVoteBitArray height r voteType ps of None \<Rightarrow> Some ps | Some p \<Rightarrow> setBit (Some p) index ps)"

definition SetHasVote :: "Vote \<Rightarrow> PeerState \<Rightarrow> PeerState option" where
  "SetHasVote vote ps = setHasVote (vHeight vote) (vRound vote) (vType vote) (vIndex vote) ps"

definition RecordVote :: "PeerState \<Rightarrow> int \<times> PeerState" where
  "RecordVote ps = (let n = add64 (psVotes ps) 1 in (n, ps\<lparr>psVotes := n\<rparr>))"

definition RecordBlockPart :: "PeerState \<Rightarrow> int \<times> PeerState" where
  "RecordBlockPart ps = (let n = add64 (psBlockParts ps) 1 in (n, ps\<lparr>psBlockParts := n\<rparr>))"

section \<open>Picking a vote\<close>

text \<open>\<open>VoteSetReader\<close> is a vote set, which may be nil, or a stored commit.\<close>

datatype VoteSetReader = ReadVotes "VoteSet option" | ReadReply Reply

fun rd_Height :: "VoteSetReader \<Rightarrow> int" where
  "rd_Height (ReadVotes vs) = (case vs of None \<Rightarrow> 0 | Some v \<Rightarrow> vtHeight v)"
| "rd_Height (ReadReply r) = rpHeight r"

fun rd_Round :: "VoteSetReader \<Rightarrow> int" where
  "rd_Round (ReadVotes vs) = (case vs of None \<Rightarrow> -1 | Some v \<Rightarrow> vtRound v)"
| "rd_Round (ReadReply r) = rpRound r"

fun rd_Type :: "VoteSetReader \<Rightarrow> int" where
  "rd_Type (ReadVotes vs) = (case vs of None \<Rightarrow> 0 | Some v \<Rightarrow> vtType v mod 256)"
| "rd_Type (ReadReply r) = CommitType"

fun rd_Size :: "VoteSetReader \<Rightarrow> int" where
  "rd_Size (ReadVotes vs) = vt_Size vs"
| "rd_Size (ReadReply r) = reply_Size (Some r)"

fun rd_IsReply :: "VoteSetReader \<Rightarrow> bool" where
  "rd_IsReply (ReadVotes vs) = vt_IsReply vs"
| "rd_IsReply (ReadReply r) = reply_IsReply r"

fun rd_BitArray :: "VoteSetReader \<Rightarrow> BitArray option option" where
  "rd_BitArray (ReadVotes vs) = Some (vt_BitArray vs)"
| "rd_BitArray (ReadReply r) = map_option fst (reply_BitArray r)"

fun rd_GetByIndex :: "VoteSetReader \<Rightarrow> int \<Rightarrow> Vote option option" where
  "rd_GetByIndex (ReadVotes vs) i = vt_GetByIndex vs i"
| "rd_GetByIndex (ReadReply r) i = map_option Some (reply_GetByIndex r i)"

text \<open>\<open>Sub\<close> on the peer's array; \<open>rnd\<close> is the random choice.\<close>

definition PickVoteToSend :: "(nat \<Rightarrow> nat) \<Rightarrow> VoteSetReader \<Rightarrow> PeerState \<Rightarrow> (PeerState \<times> Vote option \<times> bool) option" where
  "PickVoteToSend rnd votes ps =
     (if rd_Size votes = 0 then Some (ps, None, False)
      else do {
        let (height, r, size) = (rd_Height votes, rd_Round votes, rd_Size votes);
        let ps1 = (if rd_IsReply votes then ensureCatchupCommitRound height r size ps else ps);
        let ps2 = ensureVoteBitArrays height size ps1;
        (case getVoteBitArray height r (rd_Type votes) ps2 of
           None \<Rightarrow> Some (ps2, None, False)
         | Some p \<Rightarrow> do {
             ours \<leftarrow> rd_BitArray votes;
             lacks \<leftarrow> ba_Sub ours (bits_at ps2 (Some p));
             (index, ok) \<leftarrow> PickRandom rnd lacks;
             if \<not> ok then Some (ps2, None, False)
             else do { vote \<leftarrow> rd_GetByIndex votes (wrap 32 index); Some (ps2, vote, True) }
           })
      })"

text \<open>The vote that was sent, if one was; \<open>ok\<close> is the outcome of \<open>Send\<close>. Marking a nil vote panics.\<close>

definition PickSendVote :: "(nat \<Rightarrow> nat) \<Rightarrow> bool \<Rightarrow> VoteSetReader \<Rightarrow> PeerState \<Rightarrow> (PeerState \<times> Vote option) option" where
  "PickSendVote rnd ok votes ps = do {
     (ps1, vote, picked) \<leftarrow> PickVoteToSend rnd votes ps;
     if picked \<and> ok then do { v \<leftarrow> vote; ps2 \<leftarrow> SetHasVote v ps1; Some (ps2, Some v) }
     else Some (ps1, None)
   }"

section \<open>Messages about the peer\<close>

definition ApplyNewRoundStepMessage :: "int \<Rightarrow> int \<Rightarrow> int \<Rightarrow> int \<Rightarrow> int \<Rightarrow> int \<Rightarrow> PeerState \<Rightarrow> PeerState" where
  "ApplyNewRoundStepMessage now h r step secs lcr ps =
     (if CompareHRS h r step (prsHeight ps) (prsRound ps) (prsStep ps) \<le> 0 then ps
      else
        let psHeight = prsHeight ps; psRound = prsRound ps; psCatchupCommitRound = prsCatchupCommitRound ps; psCatchupCommit = prsCatchupCommit ps;
            ps1 = ps\<lparr>prsHeight := h, prsRound := r, prsStep := step, prsStartTime := now + wrap 64 (wrap 64 (- secs) * 1000000000)\<rparr>;
            ps2 = (if psHeight \<noteq> h \<or> psRound \<noteq> r
                   then ps1\<lparr>prsProposal := False, prsPartsHeader := zero_psh, prsParts := None, prsPOLRound := -1, prsPOL := None,
                            prsPrevotes := None, prsPrecommits := None\<rparr> else ps1);
            ps3 = (if psHeight = h \<and> psRound \<noteq> r \<and> r = psCatchupCommitRound then ps2\<lparr>prsPrecommits := psCatchupCommit\<rparr> else ps2)
        in (if psHeight \<noteq> h
            then (if add64 psHeight 1 = h \<and> psRound = lcr
                  then ps3\<lparr>prsLastCommitRound := lcr, prsLastCommit := prsPrecommits ps3\<rparr>
                  else ps3\<lparr>prsLastCommitRound := lcr, prsLastCommit := None\<rparr>)\<lparr>prsCatchupCommitRound := -1, prsCatchupCommit := None\<rparr>
            else ps3))"

definition ApplyNewValidBlockMessage :: "int \<Rightarrow> int \<Rightarrow> PartSetHeader \<Rightarrow> BitArray option \<Rightarrow> bool \<Rightarrow> PeerState \<Rightarrow> PeerState" where
  "ApplyNewValidBlockMessage h r header parts isCommit ps =
     (if prsHeight ps \<noteq> h then ps
      else if prsRound ps \<noteq> r \<and> \<not> isCommit then ps
      else let (p, ps1) = keepBits parts ps in ps1\<lparr>prsPartsHeader := header, prsParts := p\<rparr>)"

definition ApplyProposalPOLMessage :: "int \<Rightarrow> int \<Rightarrow> BitArray option \<Rightarrow> PeerState \<Rightarrow> PeerState" where
  "ApplyProposalPOLMessage h polRound pol ps =
     (if prsHeight ps \<noteq> h then ps
      else if prsPOLRound ps \<noteq> polRound then ps
      else let (p, ps1) = keepBits pol ps in ps1\<lparr>prsPOL := p\<rparr>)"

definition ApplyHasVoteMessage :: "int \<Rightarrow> int \<Rightarrow> int \<Rightarrow> int \<Rightarrow> PeerState \<Rightarrow> PeerState option" where
  "ApplyHasVoteMessage h r t index ps = (if prsHeight ps \<noteq> h then Some ps else setHasVote h r t index ps)"

definition ApplyVoteSetBitsMessage :: "int \<Rightarrow> int \<Rightarrow> int \<Rightarrow> BitArray option \<Rightarrow> BitArray option \<Rightarrow> PeerState \<Rightarrow> PeerState option" where
  "ApplyVoteSetBitsMessage h r t msgVotes ourVotes ps =
     (case getVoteBitArray h r t ps of
        None \<Rightarrow> Some ps
      | Some p \<Rightarrow> do {
          let votes = bits_at ps (Some p);
          hasVotes \<leftarrow> (if ourVotes = None then Some msgVotes else do { otherVotes \<leftarrow> ba_Sub votes ourVotes; ba_Or otherVotes msgVotes });
          Some (putBits (Some p) (ba_Update votes hasVotes) ps)
        })"

section \<open>One turn of the gossip routines\<close>

definition MustEncode :: "Message \<Rightarrow> pbMessage option" where
  "MustEncode msg = (case MsgToProto msg of Some (Inr pb) \<Rightarrow> Some pb | _ \<Rightarrow> None)"

text \<open>\<open>ok n\<close> is the outcome of the \<open>n\<close>-th send of a turn. A turn returns the messages that were sent; sleeping has no effect.\<close>

definition gossipDataForCatchup ::
  "'a world \<Rightarrow> (nat \<Rightarrow> nat) \<Rightarrow> (nat \<Rightarrow> bool) \<Rightarrow> 'a ConsensusState \<Rightarrow> PeerRoundState \<Rightarrow> PeerState \<Rightarrow> (PeerState \<times> Message list) option" where
  "gossipDataForCatchup W rnd ok rs prs ps = do {
     (index, picked) \<leftarrow> PickRandom rnd (ba_Not (bits_at ps (prsParts prs)));
     if \<not> picked then Some (ps, [])
     else do {
       blockMeta \<leftarrow> LoadBlockMeta (wEnv W) (wCodec W) (csBlockStore rs) (prsHeight prs);
       (case blockMeta of
          None \<Rightarrow> Some (ps, [])
        | Some bm \<Rightarrow>
            if \<not> psh_Equals (bidParts (bmBlockID bm)) (prsPartsHeader prs) then Some (ps, [])
            else do {
              part \<leftarrow> LoadBlockPart (csBlockStore rs) (prsHeight prs) index;
              (case part of
                 None \<Rightarrow> Some (ps, [])
               | Some _ \<Rightarrow> do {
                   let msg = BlockPartMessage (prsHeight prs) (prsRound prs) part;
                   _ \<leftarrow> MustEncode msg;
                   if ok 0 then do { ps1 \<leftarrow> SetHasProposalBlockPart (prsHeight prs) (prsRound prs) index ps; Some (ps1, [msg]) }
                   else Some (ps, [])
                 })
            })
     }
   }"

definition sendProposal :: "(nat \<Rightarrow> bool) \<Rightarrow> 'a ConsensusState \<Rightarrow> PrePrepare \<Rightarrow> PeerState \<Rightarrow> (PeerState \<times> Message list) option" where
  "sendProposal ok rs proposal ps = do {
     let (ps1, msgs) = (if ok 0 then (SetHasProposal proposal ps, [PrePrepareMessage proposal]) else (ps, []));
     if 0 \<le> prPOLRound proposal then do {
       hvs \<leftarrow> rsVotes rs;
       let msg = PrePreparePOLMessage (rsHeight rs) (prPOLRound proposal) (vt_BitArray (Prepares hvs (prPOLRound proposal)));
       _ \<leftarrow> MustEncode msg;
       Some (ps1, if ok 1 then msgs @ [msg] else msgs)
     }
     else Some (ps1, msgs)
   }"

definition gossipDataRoutine ::
  "'a world \<Rightarrow> (nat \<Rightarrow> nat) \<Rightarrow> (nat \<Rightarrow> bool) \<Rightarrow> 'a ConsensusState \<Rightarrow> PeerRoundState \<Rightarrow> PeerState \<Rightarrow> (PeerState \<times> Message list) option" where
  "gossipDataRoutine W rnd ok rs prs ps = do {
     let parts = parts_at rs (rsPrePrepareBlockParts rs);
     (index, picked) \<leftarrow> (case parts of
         None \<Rightarrow> Some (0, False)
       | Some pset \<Rightarrow> if HeaderEqualsTo parts (prsPartsHeader prs)
                     then do { lacks \<leftarrow> ba_Sub (ps_BitArray pset) (ba_Copy (bits_at ps (prsParts prs))); PickRandom rnd lacks }
                     else Some (0, False));
     if picked then do {
       pset \<leftarrow> parts;
       part \<leftarrow> GetPart pset index;
       let msg = BlockPartMessage (rsHeight rs) (rsRound rs) part;
       _ \<leftarrow> MustEncode msg;
       if ok 0 then do { ps1 \<leftarrow> SetHasProposalBlockPart (prsHeight prs) (prsRound prs) index ps; Some (ps1, [msg]) }
       else Some (ps, [])
     }
     else if 0 < bsBase (csBlockStore rs) \<and> 0 < prsHeight prs \<and> prsHeight prs < rsHeight rs \<and> bsBase (csBlockStore rs) \<le> prsHeight prs then
       (if prsParts prs = None then do {
          blockMeta \<leftarrow> LoadBlockMeta (wEnv W) (wCodec W) (csBlockStore rs) (prsHeight prs);
          Some ((case blockMeta of None \<Rightarrow> ps | Some bm \<Rightarrow> InitProposalBlockParts (bidParts (bmBlockID bm)) ps), [])
        }
        else gossipDataForCatchup W rnd ok rs prs ps)
     else if rsHeight rs \<noteq> prsHeight prs \<or> rsRound rs \<noteq> prsRound prs then Some (ps, [])
     else (case rsPrePrepare rs of
         None \<Rightarrow> Some (ps, [])
       | Some proposal \<Rightarrow> if prsProposal prs then Some (ps, []) else sendProposal ok rs proposal ps)
   }"

text \<open>The vote routines try vote sets in turn until a vote is sent. A candidate that is \<open>None\<close> panics when it is reached.\<close>

fun tryVotes :: "(nat \<Rightarrow> nat \<Rightarrow> nat) \<Rightarrow> (nat \<Rightarrow> bool) \<Rightarrow> VoteSetReader option list \<Rightarrow> PeerState \<Rightarrow> (PeerState \<times> Vote option) option" where
  "tryVotes rnd ok [] ps = Some (ps, None)"
| "tryVotes rnd ok (c # cs) ps = do {
     votes \<leftarrow> c;
     (ps1, sent) \<leftarrow> PickSendVote (rnd (length cs)) (ok (length cs)) votes ps;
     if sent \<noteq> None then Some (ps1, sent) else tryVotes rnd ok cs ps1
   }"

definition roundVotes :: "(HeightVoteSet \<Rightarrow> int \<Rightarrow> VoteSet option) \<Rightarrow> int \<Rightarrow> 'a ConsensusState \<Rightarrow> VoteSetReader option list" where
  "roundVotes f r rs = [map_option (\<lambda>hvs. ReadVotes (f hvs r)) (rsVotes rs)]"

definition polVotes :: "int \<Rightarrow> 'a ConsensusState \<Rightarrow> VoteSetReader option list" where
  "polVotes r rs =
     (case rsVotes rs of
        None \<Rightarrow> [None]
      | Some hvs \<Rightarrow> (case Prepares hvs r of None \<Rightarrow> [] | Some vs \<Rightarrow> [Some (ReadVotes (Some vs))]))"

definition gossipVotesForHeight :: "'a ConsensusState \<Rightarrow> PeerRoundState \<Rightarrow> VoteSetReader option list" where
  "gossipVotesForHeight rs prs =
     (let known = prsRound prs \<noteq> -1 \<and> prsRound prs \<le> rsRound rs in
      (if prsStep prs = int (step_code RoundStepNewHeight) then [Some (ReadVotes (rsLastCommits rs))] else [])
      @ (if prsStep prs \<le> int (step_code RoundStepPrePrepare) \<and> known \<and> prsPOLRound prs \<noteq> -1 then polVotes (prsPOLRound prs) rs else [])
      @ (if prsStep prs \<le> int (step_code RoundStepPrepareWait) \<and> known then roundVotes Prepares (prsRound prs) rs else [])
      @ (if prsStep prs \<le> int (step_code RoundStepCommitWait) \<and> known then roundVotes Commits (prsRound prs) rs else [])
      @ (if known then roundVotes Prepares (prsRound prs) rs else [])
      @ (if prsPOLRound prs \<noteq> -1 then polVotes (prsPOLRound prs) rs else []))"

definition gossipVotesRoutine ::
  "(nat \<Rightarrow> nat \<Rightarrow> nat) \<Rightarrow> (nat \<Rightarrow> bool) \<Rightarrow> 'a ConsensusState \<Rightarrow> PeerRoundState \<Rightarrow> PeerState \<Rightarrow> (PeerState \<times> Vote option) option" where
  "gossipVotesRoutine rnd ok rs prs ps =
     (let base = bsBase (csBlockStore rs) in
      tryVotes rnd ok
       ((if rsHeight rs = prsHeight prs then gossipVotesForHeight rs prs else [])
        @ (if prsHeight prs \<noteq> 0 \<and> rsHeight rs = add64 (prsHeight prs) 1 then [Some (ReadVotes (rsLastCommits rs))] else [])
        @ (if 0 < base \<and> prsHeight prs \<noteq> 0 \<and> add64 (prsHeight prs) 2 \<le> rsHeight rs \<and> base \<le> prsHeight prs
           then (case LoadBlockReply (csBlockStore rs) (prsHeight prs) of
                   None \<Rightarrow> [None] | Some None \<Rightarrow> [] | Some (Some commit) \<Rightarrow> [Some (ReadReply commit)])
           else [])) ps)"

text \<open>The four queries of a turn each look at the states anew.\<close>

definition queryVotes :: "int \<Rightarrow> (HeightVoteSet \<Rightarrow> int \<Rightarrow> VoteSet option) \<Rightarrow> int \<Rightarrow> 'a ConsensusState \<Rightarrow> PeerRoundState \<Rightarrow> Message list option" where
  "queryVotes t f r rs prs =
     (if rsHeight rs \<noteq> prsHeight prs then Some []
      else do {
        hvs \<leftarrow> rsVotes rs;
        let (maj23, ok) = TwoThirdsMajority (f hvs r);
        Some (if ok then [VoteSetMaj23Message (prsHeight prs) r t maj23] else [])
      })"

definition queryCatchup :: "'a ConsensusState \<Rightarrow> PeerRoundState \<Rightarrow> Message list option" where
  "queryCatchup rs prs =
     (if prsCatchupCommitRound prs \<noteq> -1 \<and> 0 < prsHeight prs \<and> prsHeight prs \<le> bsHeight (csBlockStore rs) \<and> bsBase (csBlockStore rs) \<le> prsHeight prs
      then map_option (\<lambda>commit. case commit of None \<Rightarrow> [] | Some c \<Rightarrow> [VoteSetMaj23Message (prsHeight prs) (rpRound c) CommitType (rpBlockID c)])
             (LoadCommit (prsHeight prs) rs)
      else Some [])"

definition queryMaj23Routine ::
  "('a ConsensusState \<times> PeerRoundState) \<Rightarrow> ('a ConsensusState \<times> PeerRoundState) \<Rightarrow> ('a ConsensusState \<times> PeerRoundState) \<Rightarrow>
   ('a ConsensusState \<times> PeerRoundState) \<Rightarrow> Message list option" where
  "queryMaj23Routine s1 s2 s3 s4 = do {
     m1 \<leftarrow> queryVotes PrepareType Prepares (prsRound (snd s1)) (fst s1) (snd s1);
     m2 \<leftarrow> queryVotes CommitType Commits (prsRound (snd s2)) (fst s2) (snd s2);
     m3 \<leftarrow> (if 0 \<le> prsPOLRound (snd s3) then queryVotes PrepareType Prepares (prsPOLRound (snd s3)) (fst s3) (snd s3) else Some []);
     m4 \<leftarrow> queryCatchup (fst s4) (snd s4);
     Some (m1 @ m2 @ m3 @ m4)
   }"

section \<open>The reactor\<close>

definition StateChannel :: int where "StateChannel = 2"
definition DataChannel :: int where "DataChannel = 3"
definition VoteChannel :: int where "VoteChannel = 4"
definition VoteSetBitsChannel :: int where "VoteSetBitsChannel = 5"

lemmas channel_defs = StateChannel_def DataChannel_def VoteChannel_def VoteSetBitsChannel_def

text \<open>\<open>rcQueue\<close> is what it has put into \<open>peerMsgQueue\<close>, \<open>rcSent\<close> what it tried to send, \<open>rcStopped\<close> the peers it stopped.\<close>

record 'a Reactor =
  rcState :: "'a ConsensusState"
  rcRunning :: bool
  rcWaitSync :: bool
  rcPeers :: "string \<rightharpoonup> PeerState"
  rcQueue :: "msgInfo list"
  rcSent :: "(string \<times> int \<times> Message) list"
  rcStopped :: "string list"

definition stopPeer :: "string \<Rightarrow> 'a Reactor \<Rightarrow> 'a Reactor" where
  "stopPeer src R = R\<lparr>rcStopped := rcStopped R @ [src]\<rparr>"

definition setPeer :: "string \<Rightarrow> PeerState \<Rightarrow> 'a Reactor \<Rightarrow> 'a Reactor" where
  "setPeer src ps R = R\<lparr>rcPeers := (rcPeers R)(src \<mapsto> ps)\<rparr>"

definition enqueue :: "string \<Rightarrow> Message \<Rightarrow> 'a Reactor \<Rightarrow> 'a Reactor" where
  "enqueue src msg R = R\<lparr>rcQueue := rcQueue R @ [\<lparr>miMsg = msg, miPeerID = src\<rparr>]\<rparr>"

text \<open>Our votes for a block in the vote set of the message; the default case panics.\<close>

definition ourVotesFor :: "HeightVoteSet \<Rightarrow> int \<Rightarrow> int \<Rightarrow> BlockID \<Rightarrow> BitArray option option" where
  "ourVotesFor hvs r t b =
     (if t = PrepareType then Some (vt_BitArrayByBlockID (Prepares hvs r) b)
      else if t = CommitType then Some (vt_BitArrayByBlockID (Commits hvs r) b)
      else None)"

definition receiveState :: "int \<Rightarrow> string \<Rightarrow> Message \<Rightarrow> PeerState \<Rightarrow> 'a Reactor \<Rightarrow> 'a Reactor option" where
  "receiveState now src msg ps R =
     (case msg of
        NewRoundStepMessage h r step secs lcr \<Rightarrow> do {
          st \<leftarrow> csState (rcState R);
          Some (if ValidateHeight h lcr (stInitialHeight st) \<noteq> None then stopPeer src R
                else setPeer src (ApplyNewRoundStepMessage now h r step secs lcr ps) R)
        }
      | NewValidBlockMessage h r header parts isCommit \<Rightarrow> Some (setPeer src (ApplyNewValidBlockMessage h r header parts isCommit ps) R)
      | HasVoteMessage h r t i \<Rightarrow> map_option (\<lambda>ps1. setPeer src ps1 R) (ApplyHasVoteMessage h r t i ps)
      | VoteSetMaj23Message h r t b \<Rightarrow>
          if rsHeight (rcState R) \<noteq> h then Some R
          else do {
            hvs \<leftarrow> rsVotes (rcState R);
            (hvs', err) \<leftarrow> hv_SetPeerMaj23 hvs r t (psPeer ps) b;
            let R1 = R\<lparr>rcState := (rcState R)\<lparr>rsVotes := Some hvs'\<rparr>\<rparr>;
            if err \<noteq> None then Some (stopPeer src R1)
            else do {
              ours \<leftarrow> ourVotesFor hvs' r t b;
              _ \<leftarrow> MustEncode (VoteSetBitsMessage h r t b ours);
              Some (R1\<lparr>rcSent := rcSent R1 @ [(src, VoteSetBitsChannel, VoteSetBitsMessage h r t b ours)]\<rparr>)
            }
          }
      | _ \<Rightarrow> Some R)"

definition receiveData :: "string \<Rightarrow> Message \<Rightarrow> PeerState \<Rightarrow> 'a Reactor \<Rightarrow> 'a Reactor option" where
  "receiveData src msg ps R =
     (case msg of
        PrePrepareMessage p \<Rightarrow> Some (enqueue src msg (setPeer src (SetHasProposal p ps) R))
      | PrePreparePOLMessage h r pol \<Rightarrow> Some (setPeer src (ApplyProposalPOLMessage h r pol ps) R)
      | BlockPartMessage h r part \<Rightarrow> do {
          p \<leftarrow> part;
          ps1 \<leftarrow> SetHasProposalBlockPart h r (partIndex p) ps;
          Some (enqueue src msg (setPeer src ps1 R))
        }
      | _ \<Rightarrow> Some R)"

definition receiveVote :: "string \<Rightarrow> Message \<Rightarrow> PeerState \<Rightarrow> 'a Reactor \<Rightarrow> 'a Reactor option" where
  "receiveVote src msg ps R =
     (case msg of
        VoteMessage v \<Rightarrow> do {
          let cs = rcState R;
          let ps1 = ensureVoteBitArrays (rsHeight cs) (vals_Size (rsValidators cs)) ps;
          let ps2 = ensureVoteBitArrays (sub64 (rsHeight cs) 1) (vt_Size (rsLastCommits cs)) ps1;
          ps3 \<leftarrow> SetHasVote v ps2;
          Some (enqueue src msg (setPeer src ps3 R))
        }
      | _ \<Rightarrow> Some R)"

definition receiveBits :: "string \<Rightarrow> Message \<Rightarrow> PeerState \<Rightarrow> 'a Reactor \<Rightarrow> 'a Reactor option" where
  "receiveBits src msg ps R =
     (case msg of
        VoteSetBitsMessage h r t b votes \<Rightarrow>
          if rsHeight (rcState R) = h then do {
            hvs \<leftarrow> rsVotes (rcState R);
            ours \<leftarrow> ourVotesFor hvs r t b;
            map_option (\<lambda>ps1. setPeer src ps1 R) (ApplyVoteSetBitsMessage h r t votes ours ps)
          }
          else map_option (\<lambda>ps1. setPeer src ps1 R) (ApplyVoteSetBitsMessage h r t votes None ps)
      | _ \<Rightarrow> Some R)"

text \<open>The bytes of a message are the structure they decode to, \<open>None\<close> when they do not.\<close>

definition Receive :: "int \<Rightarrow> int \<Rightarrow> string \<Rightarrow> pbMessage option \<Rightarrow> 'a Reactor \<Rightarrow> 'a Reactor option" where
  "Receive now chID src pb R =
     (if \<not> rcRunning R then Some R
      else (case pb of
          None \<Rightarrow> Some (stopPeer src R)
        | Some p \<Rightarrow> do {
            decoded \<leftarrow> MsgFromProto p;
            (case decoded of
               Inl _ \<Rightarrow> Some (stopPeer src R)
             | Inr msg \<Rightarrow> do {
                 err \<leftarrow> msg_ValidateBasic msg;
                 if err \<noteq> None then Some (stopPeer src R)
                 else do {
                   ps \<leftarrow> rcPeers R src;
                   if chID = StateChannel then receiveState now src msg ps R
                   else if chID = DataChannel then (if rcWaitSync R then Some R else receiveData src msg ps R)
                   else if chID = VoteChannel then (if rcWaitSync R then Some R else receiveVote src msg ps R)
                   else if chID = VoteSetBitsChannel then (if rcWaitSync R then Some R else receiveBits src msg ps R)
                   else Some R
                 }
               })
          }))"

definition InitPeer :: "string \<Rightarrow> 'a Reactor \<Rightarrow> 'a Reactor" where
  "InitPeer peer R = setPeer peer (NewPeerState peer) R"

definition SwitchToConsensus :: "'a world \<Rightarrow> State \<Rightarrow> 'a Reactor \<Rightarrow> 'a Reactor option" where
  "SwitchToConsensus W state R = do {
     cs1 \<leftarrow> (if 0 < stLastBlockHeight state then reconstructLastCommit W state (rcState R) else Some (rcState R));
     cs2 \<leftarrow> updateToState W state cs1;
     Some (R\<lparr>rcState := OnStart W cs2, rcWaitSync := False\<rparr>)
   }"

section \<open>Announcements\<close>

text \<open>\<open>Duration.Seconds\<close> and its conversion to \<open>int64\<close>.\<close>

definition dur_Seconds :: "int \<Rightarrow> float64" where
  "dur_Seconds d = f64_add (f64_of_int (go_div d 1000000000)) (f64_div (f64_of_int (go_mod d 1000000000)) (Fin 1000000000))"

definition f64_to_int :: "float64 \<Rightarrow> int option" where
  "f64_to_int x = (case x of Fin q \<Rightarrow> Some (if q < 0 then \<lceil>q\<rceil> else \<lfloor>q\<rfloor>) | _ \<Rightarrow> None)"

definition makeRoundStepMessage :: "int \<Rightarrow> 'a ConsensusState \<Rightarrow> Message option" where
  "makeRoundStepMessage now rs = do {
     secs \<leftarrow> f64_to_int (dur_Seconds (time_Sub now (rsStartTime rs)));
     Some (NewRoundStepMessage (rsHeight rs) (rsRound rs) (int (step_code (rsStep rs))) secs (rd_Round (ReadVotes (rsLastCommits rs))))
   }"

text \<open>What the listeners of the event switch broadcast; the trust event goes to another reactor.\<close>

definition broadcastMessage :: "int \<Rightarrow> event \<Rightarrow> 'a ConsensusState \<Rightarrow> Message list option" where
  "broadcastMessage now ev rs =
     (case ev of
        FireNewRoundStep \<Rightarrow> map_option (\<lambda>m. [m]) (makeRoundStepMessage now rs)
      | FireValidBlock \<Rightarrow> do {
          pset \<leftarrow> parts_at rs (rsPrePrepareBlockParts rs);
          Some [NewValidBlockMessage (rsHeight rs) (rsRound rs) (ps_Header (Some pset)) (ps_BitArray pset) (rsStep rs = RoundStepReply)]
        }
      | FireVote v \<Rightarrow> Some [HasVoteMessage (vHeight v) (vRound v) (vType v) (vIndex v)]
      | _ \<Rightarrow> Some [])"

definition AddPeer :: "int \<Rightarrow> string \<Rightarrow> 'a Reactor \<Rightarrow> 'a Reactor option" where
  "AddPeer now peer R =
     (if \<not> rcRunning R then Some R
      else do {
        _ \<leftarrow> rcPeers R peer;
        if rcWaitSync R then Some R
        else do {
          msg \<leftarrow> makeRoundStepMessage now (rcState R);
          Some (R\<lparr>rcSent := rcSent R @ [(peer, StateChannel, msg)]\<rparr>)
        }
      })"

end
