(* ===== verification/PeerSafety.thy ===== *)
theory PeerSafety
  imports Peers ConsensusTurns ChainSafety
begin

text \<open>
  Properties of the consensus reactor. The bit arrays a peer state keeps stay well formed, so that handling a message of a
  peer never panics as long as the arrays in it are well formed; what is passed on to the consensus machine is well formed
  in the sense its invariants need.
\<close>

section \<open>Well-formed peer states\<close>

definition ptrs :: "('a) PeerRoundState_scheme \<Rightarrow> nat option set" where
  "ptrs prs = {prsParts prs, prsPOL prs, prsPrevotes prs, prsPrecommits prs, prsLastCommit prs, prsCatchupCommit prs}"

definition peer_ok :: "PeerState \<Rightarrow> bool" where
  "peer_ok ps \<longleftrightarrow> (\<forall>b\<in>set (psBits ps). ba_wf b) \<and> (\<forall>p\<in>ptrs ps. \<forall>i. p = Some i \<longrightarrow> i < length (psBits ps))"

abbreviation fits :: "BitArray option \<Rightarrow> bool" where
  "fits bA \<equiv> pred_option ba_wf bA"

lemma NewBitArray_fits: "n < 2 ^ 62 \<Longrightarrow> fits (NewBitArray n)"
  by (cases "0 < n") (use NewBitArray_wf[of n] in \<open>force simp: NewBitArray_def\<close>)+

text \<open>Keeping an array and pointing a field at it.\<close>

lemma keepBits_ok:
  assumes "fits bA" "peer_ok ps"
  shows "case keepBits bA ps of (p, q) \<Rightarrow> peer_ok q \<and> peer_ok (q\<lparr>prsPrevotes := p\<rparr>) \<and> peer_ok (q\<lparr>prsPrecommits := p\<rparr>) \<and>
    peer_ok (q\<lparr>prsCatchupCommit := p\<rparr>) \<and> peer_ok (q\<lparr>prsPOL := p\<rparr>) \<and> peer_ok (q\<lparr>prsLastCommit := p\<rparr>) \<and> peer_ok (q\<lparr>prsParts := p\<rparr>)"
  using assms by (auto simp: keepBits_def peer_ok_def ptrs_def split: option.splits)

lemma keepBits_frame: "keepBits bA ps = (p, q) \<Longrightarrow> psPeer q = psPeer ps \<and> PeerRoundState.truncate q = PeerRoundState.truncate ps"
  by (auto simp: keepBits_def PeerRoundState.defs split: option.splits)

lemma peer_ok_fields [simp]: "peer_ok (ps\<lparr>prsProposal := x\<rparr>) = peer_ok ps" "peer_ok (ps\<lparr>prsPartsHeader := h\<rparr>) = peer_ok ps"
  "peer_ok (ps\<lparr>prsPOLRound := r\<rparr>) = peer_ok ps" "peer_ok (ps\<lparr>prsCatchupCommitRound := r\<rparr>) = peer_ok ps"
  by (simp_all add: peer_ok_def ptrs_def)

lemma peer_ok_nil: "peer_ok ps \<Longrightarrow> peer_ok (ps\<lparr>prsPOL := None\<rparr>)"
  by (auto simp: peer_ok_def ptrs_def)

lemma bits_at_fits: "peer_ok ps \<Longrightarrow> fits (bits_at ps p)"
  by (auto simp: bits_at_def peer_ok_def split: Option.bind_splits)

lemma SetIndex_fits:
  assumes "fits bA" "0 \<le> i"
  shows "\<exists>ok bA'. SetIndex bA i v = Some (ok, bA') \<and> fits bA'"
proof (cases bA)
  case None
  then show ?thesis by (intro exI[of _ False] exI[of _ None]) (simp add: SetIndex_def)
next
  case (Some b)
  then obtain b' where "ba_put b (nat i) v = Some b'" "ba_wf b'" using ba.put_total[of b "nat i" v] assms(1) by auto
  then show ?thesis using SetIndex_put[of b "nat i" v] assms(2) Some by auto
qed

lemma peer_ok_put: "peer_ok ps \<Longrightarrow> fits bA \<Longrightarrow> peer_ok (putBits p bA ps)"
  unfolding putBits_def by (auto simp: peer_ok_def ptrs_def split: option.splits dest: set_update_subset_insert[THEN subsetD])

lemma setBit_ok:
  assumes "peer_ok ps" "0 \<le> index"
  shows "\<exists>ps'. setBit p index ps = Some ps' \<and> peer_ok ps' \<and> PeerRoundState.truncate ps' = PeerRoundState.truncate ps \<and> psPeer ps' = psPeer ps"
proof -
  obtain ok bA where b: "SetIndex (bits_at ps p) index True = Some (ok, bA)" "fits bA" using SetIndex_fits[OF bits_at_fits[OF assms(1)] assms(2)] by blast
  then have "peer_ok (putBits p bA ps)" using assms(1) by (intro peer_ok_put)
  then show ?thesis using b(1) by (auto simp: setBit_def putBits_def PeerRoundState.defs split: option.splits)
qed

section \<open>The operations keep peer states well formed\<close>

lemma SetHasProposal_ok:
  assumes "peer_ok ps" "psTotal (bidParts (prBlockID p)) < 2 ^ 62"
  shows "peer_ok (SetHasProposal p ps)"
proof -
  have "peer_ok (q\<lparr>prsPartsHeader := h, prsParts := i, prsPOLRound := r, prsPOL := None\<rparr>)"
    if "keepBits (NewBitArray (psTotal (bidParts (prBlockID p)))) (ps\<lparr>prsProposal := True\<rparr>) = (i, q)" for i q h r
    using keepBits_ok[OF NewBitArray_fits[OF assms(2)], of "ps\<lparr>prsProposal := True\<rparr>"] assms(1) that by (auto simp: peer_ok_def ptrs_def)
  then show ?thesis using assms(1) by (simp add: SetHasProposal_def Let_def split: prod.splits)
qed

lemma InitProposalBlockParts_ok:
  assumes "peer_ok ps" "psTotal h < 2 ^ 62"
  shows "peer_ok (InitProposalBlockParts h ps)"
  using keepBits_ok[OF NewBitArray_fits[OF assms(2)] assms(1)] assms(1)
  by (auto simp: InitProposalBlockParts_def peer_ok_def ptrs_def Let_def split: prod.splits)

lemma ensureCatchupCommitRound_ok:
  assumes "peer_ok ps" "n < 2 ^ 62"
  shows "peer_ok (ensureCatchupCommitRound h r n ps)"
proof -
  have "peer_ok (q\<lparr>prsCatchupCommit := i\<rparr>)" if "keepBits (NewBitArray n) (ps\<lparr>prsCatchupCommitRound := r\<rparr>) = (i, q)" for i q
    using keepBits_ok[OF NewBitArray_fits[OF assms(2)], of "ps\<lparr>prsCatchupCommitRound := r\<rparr>"] assms(1) that by auto
  moreover have "peer_ok (ps\<lparr>prsCatchupCommitRound := r, prsCatchupCommit := prsPrecommits ps\<rparr>)" using assms(1) by (auto simp: peer_ok_def ptrs_def)
  ultimately show ?thesis using assms(1) by (auto simp: ensureCatchupCommitRound_def Let_def split: prod.splits)
qed

text \<open>One field of \<open>ensureVoteBitArrays\<close>.\<close>

lemma ensure_field_ok:
  assumes "peer_ok ps" "n < 2 ^ 62"
  shows "peer_ok (if c then let (p, q) = keepBits (NewBitArray n) ps in q\<lparr>prsPrevotes := p\<rparr> else ps)"
    "peer_ok (if c then let (p, q) = keepBits (NewBitArray n) ps in q\<lparr>prsPrecommits := p\<rparr> else ps)"
    "peer_ok (if c then let (p, q) = keepBits (NewBitArray n) ps in q\<lparr>prsCatchupCommit := p\<rparr> else ps)"
    "peer_ok (if c then let (p, q) = keepBits (NewBitArray n) ps in q\<lparr>prsPOL := p\<rparr> else ps)"
    "peer_ok (if c then let (p, q) = keepBits (NewBitArray n) ps in q\<lparr>prsLastCommit := p\<rparr> else ps)"
  using keepBits_ok[OF NewBitArray_fits[OF assms(2)] assms(1)] assms(1) by (auto split: prod.splits)

lemma ensureVoteBitArrays_ok:
  assumes "peer_ok ps" "n < 2 ^ 62"
  shows "peer_ok (ensureVoteBitArrays h n ps)"
proof -
  note f = ensure_field_ok[OF _ assms(2)]
  show ?thesis
    unfolding ensureVoteBitArrays_def
    by (subst Let_def, subst Let_def, subst Let_def) (simp only: f assms(1) split: if_splits, blast intro: f assms(1))
qed

lemma ApplyNewRoundStepMessage_ok: "peer_ok ps \<Longrightarrow> peer_ok (ApplyNewRoundStepMessage now h r step secs lcr ps)"
  by (auto simp: ApplyNewRoundStepMessage_def Let_def peer_ok_def ptrs_def)

lemma ApplyNewValidBlockMessage_ok:
  assumes "peer_ok ps" "fits parts"
  shows "peer_ok (ApplyNewValidBlockMessage h r header parts c ps)"
  using keepBits_ok[OF assms(2,1)] assms(1) by (auto simp: ApplyNewValidBlockMessage_def Let_def peer_ok_def ptrs_def split: prod.splits)

lemma ApplyProposalPOLMessage_ok:
  assumes "peer_ok ps" "fits pol"
  shows "peer_ok (ApplyProposalPOLMessage h r pol ps)"
  using keepBits_ok[OF assms(2,1)] assms(1) by (auto simp: ApplyProposalPOLMessage_def Let_def split: prod.splits)

lemma setHasVote_ok:
  assumes "peer_ok ps" "0 \<le> index"
  shows "\<exists>ps'. setHasVote h r t index ps = Some ps' \<and> peer_ok ps' \<and> psPeer ps' = psPeer ps"
  using setBit_ok[OF assms] assms(1) by (cases "getVoteBitArray h r t ps") (force simp: setHasVote_def)+

lemma Sub_Or_total:
  assumes "fits a" "pred_option (\<lambda>b. Bits b < 2 ^ 62) c"
  shows "\<exists>d. Option.bind (ba_Sub a b) (\<lambda>s. ba_Or s c) = Some d"
proof (cases "a = None \<or> b = None")
  case True
  then have "ba_Sub a b = Some None" by (auto simp: ba_Sub_def split: option.splits)
  then show ?thesis by (cases c) (auto simp: ba_Or_def)
next
  case False
  then obtain x y where xy: "a = Some x" "b = Some y" by auto
  then obtain s where "ba_Sub a b = Some (Some s)" "ba_wf s" using ba_Sub_total[of x y] assms(1) by auto
  then show ?thesis using assms(2) by (cases c) (auto simp: ba_Or_def[of "Some s" None] elim: ba_Or_total[of s])
qed

lemma ApplyVoteSetBitsMessage_ok:
  assumes ok: "peer_ok ps" and small: "pred_option (\<lambda>b. Bits b < 2 ^ 62) votes"
  shows "\<exists>ps'. ApplyVoteSetBitsMessage h r t votes ours ps = Some ps' \<and> peer_ok ps'"
proof -
  have "fits (ba_Update (bits_at ps p) q)" for p q
    using bits_at_fits[OF ok, of p] by (auto simp: ba_Update_def ba_wf_def split: option.splits)
  then have "peer_ok (putBits p (ba_Update (bits_at ps p) q) ps)" for p q by (intro peer_ok_put ok)
  note put = this
  show ?thesis
  proof (cases "getVoteBitArray h r t ps")
    case None
    then show ?thesis using ok by (simp add: ApplyVoteSetBitsMessage_def)
  next
    case (Some a)
    obtain d where "Option.bind (ba_Sub (bits_at ps (Some a)) ours) (\<lambda>s. ba_Or s votes) = Some d"
      using Sub_Or_total[OF bits_at_fits[OF ok] small, of "Some a" ours] by blast
    then show ?thesis using Some put by (simp add: ApplyVoteSetBitsMessage_def Let_def)
  qed
qed

section \<open>Handling a message\<close>

text \<open>The widths of the fields of a decoded structure, and that the words of its arrays match their bits. Nothing in the code
  checks the latter.\<close>

fun pb_typed :: "pbMessage \<Rightarrow> bool" where
  "pb_typed (PbPrePrepare p) = bid_typed (prBlockID p)"
| "pb_typed (PbVote v) = pred_option (\<lambda>v. bid_typed (vBlockID v)) v"
| "pb_typed (PbBlockPart h r part) = (0 \<le> partIndex part)"
| "pb_typed _ = True"

fun pb_fits :: "pbMessage \<Rightarrow> bool" where
  "pb_fits (PbNewValidBlock h r psh parts c) = fits parts"
| "pb_fits (PbPrePreparePol h r pol) = ba_wf pol"
| "pb_fits _ = True"

fun msg_sane :: "Message \<Rightarrow> bool" where
  "msg_sane (NewValidBlockMessage h r psh parts c) = fits parts"
| "msg_sane (PrePrepareMessage p) = (bid_IsComplete (prBlockID p) \<and> bid_typed (prBlockID p))"
| "msg_sane (PrePreparePOLMessage h r pol) = fits pol"
| "msg_sane (BlockPartMessage h r part) = (\<exists>p. part = Some p \<and> 0 \<le> partIndex p)"
| "msg_sane (VoteMessage v) = (good_bid (vBlockID v) \<and> 0 \<le> vIndex v)"
| "msg_sane (HasVoteMessage h r t i) = (0 \<le> i)"
| "msg_sane (VoteSetMaj23Message h r t b) = IsVoteTypeValid t"
| "msg_sane (VoteSetBitsMessage h r t b votes) = (IsVoteTypeValid t \<and> pred_option (\<lambda>b. Bits b < 2 ^ 62) votes)"
| "msg_sane _ = True"

lemma MsgFromProto_total: "\<exists>d. MsgFromProto pb = Some d"
  by (cases pb) (auto simp: MsgFromProto_def split: sum.splits option.splits)

lemma decoded_sane:
  assumes "MsgFromProto pb = Some (Inr m)" "pb_typed pb" "pb_fits pb"
  shows "msg_sane m \<and> msg_ValidateBasic m = Some None"
proof -
  have m: "pbToMsg pb = Inr m" "msg_ValidateBasic m = Some None"
    using assms(1) by (auto simp: MsgFromProto_def split: sum.splits option.splits)
  show ?thesis
  proof (cases pb)
    case (PbNewValidBlock h r psh parts c)
    then show ?thesis using m assms(3)
      by (cases parts) (auto simp: ba_FromProto_def zero_bits_def ba_Size_def split: option.splits if_splits)
  qed (use m assms(2,3) in \<open>auto simp: good_bid_def bid_typed_def ba_FromProto_def pp_ValidateBasic_def vote_ValidateBasic_def PrePrepareFromProto_def
      VoteFromProto_def BlockIDFromProto_eq PartFromProto_def ba_Size_def MaxVotesCount_def split: option.splits sum.splits if_splits\<close>)
qed

definition reactor_ok :: "'a Reactor \<Rightarrow> bool" where
  "reactor_ok R \<longleftrightarrow> csState (rcState R) \<noteq> None \<and> rsVotes (rcState R) \<noteq> None \<and> vals_Size (rsValidators (rcState R)) < 2 ^ 62 \<and>
     vt_Size (rsLastCommits (rcState R)) < 2 ^ 62 \<and> (\<forall>src ps. rcPeers R src = Some ps \<longrightarrow> peer_ok ps)"

text \<open>What handling a message may do besides changing what is known of peers: pass a message on, or note a claim of a majority.\<close>

definition claimed :: "'a ConsensusState \<Rightarrow> 'a ConsensusState \<Rightarrow> bool" where
  "claimed cs cs' \<longleftrightarrow> (\<exists>hvs hvs' r t p b err. rsVotes cs = Some hvs \<and> hv_SetPeerMaj23 hvs r t p b = Some (hvs', err) \<and> cs' = cs\<lparr>rsVotes := Some hvs'\<rparr>)"

lemma claimedI: "rsVotes cs = Some hvs \<Longrightarrow> hv_SetPeerMaj23 hvs r t p b = Some (hvs', err) \<Longrightarrow> claimed cs (cs\<lparr>rsVotes := Some hvs'\<rparr>)"
  unfolding claimed_def by blast

definition passes :: "string \<Rightarrow> 'a Reactor \<Rightarrow> 'a Reactor \<Rightarrow> bool" where
  "passes src R R' \<longleftrightarrow> reactor_ok R' \<and> (\<exists>q. rcQueue R' = rcQueue R @ q \<and> (\<forall>mi\<in>set q. msg_ok (miMsg mi) \<and> miPeerID mi = src)) \<and>
     (rcState R' = rcState R \<or> claimed (rcState R) (rcState R'))"

lemma passes_refl: "reactor_ok R \<Longrightarrow> passes src R R"
  by (auto simp: passes_def)

lemma passes_stop: "reactor_ok R \<Longrightarrow> passes src R (stopPeer src R)"
  by (auto simp: passes_def stopPeer_def reactor_ok_def)

lemma passes_peer: "reactor_ok R \<Longrightarrow> peer_ok ps \<Longrightarrow> passes src R (setPeer src ps R)"
  by (auto simp: passes_def setPeer_def reactor_ok_def)

lemma passes_enqueue: "reactor_ok R \<Longrightarrow> peer_ok ps \<Longrightarrow> msg_ok m \<Longrightarrow> passes src R (enqueue src m (setPeer src ps R))"
  by (auto simp: passes_def setPeer_def enqueue_def reactor_ok_def)

lemma passes_claim:
  assumes "reactor_ok R" "rsVotes (rcState R) = Some hvs" "hv_SetPeerMaj23 hvs r t p b = Some (hvs', err)"
  shows "passes src R (R\<lparr>rcState := (rcState R)\<lparr>rsVotes := Some hvs'\<rparr>, rcSent := s\<rparr>)" "passes src R (stopPeer src (R\<lparr>rcState := (rcState R)\<lparr>rsVotes := Some hvs'\<rparr>\<rparr>))"
  using assms claimedI[OF assms(2,3)] by (auto simp: passes_def reactor_ok_def stopPeer_def)

lemma hv_SetPeerMaj23_total: "IsVoteTypeValid t \<Longrightarrow> \<exists>hvs' err. hv_SetPeerMaj23 hvs r t p b = Some (hvs', err)"
  by (auto simp: hv_SetPeerMaj23_def getVoteSet_def IsVoteTypeValid_def split: option.splits prod.splits)

lemma ourVotesFor_total: "IsVoteTypeValid t \<Longrightarrow> \<exists>b. ourVotesFor hvs r t bid = Some b"
  by (auto simp: ourVotesFor_def IsVoteTypeValid_def)

lemma receiveState_passes:
  assumes "reactor_ok R" "peer_ok ps" "msg_sane m"
  shows "\<exists>R'. receiveState now src m ps R = Some R' \<and> passes src R R'"
proof (cases m)
  case (NewRoundStepMessage h r s q l)
  obtain st where "csState (rcState R) = Some st" using assms(1) by (auto simp: reactor_ok_def)
  then show ?thesis using NewRoundStepMessage assms by (auto simp: receiveState_def intro: passes_stop passes_peer ApplyNewRoundStepMessage_ok)
next
  case (NewValidBlockMessage h r psh parts c)
  then show ?thesis using assms by (auto simp: receiveState_def intro: passes_peer ApplyNewValidBlockMessage_ok)
next
  case (HasVoteMessage h r t i)
  then obtain ps' where "ApplyHasVoteMessage h r t i ps = Some ps'" "peer_ok ps'"
    using setHasVote_ok[OF assms(2)] assms(2,3) by (cases "prsHeight ps = h") (force simp: ApplyHasVoteMessage_def)+
  then show ?thesis using HasVoteMessage assms(1) by (auto simp: receiveState_def intro: passes_peer)
next
  case (VoteSetMaj23Message h r t b)
  show ?thesis
  proof (cases "rsHeight (rcState R) = h")
    case True
    obtain hvs where hvs: "rsVotes (rcState R) = Some hvs" using assms(1) by (auto simp: reactor_ok_def)
    obtain hvs' err where s: "hv_SetPeerMaj23 hvs r t (psPeer ps) b = Some (hvs', err)" using hv_SetPeerMaj23_total assms(3) VoteSetMaj23Message by fastforce
    obtain ours where o: "ourVotesFor hvs' r t b = Some ours" using ourVotesFor_total assms(3) VoteSetMaj23Message by fastforce
    show ?thesis using VoteSetMaj23Message True hvs s o passes_claim[OF assms(1) hvs s, of src]
      by (cases err) (auto simp: receiveState_def MustEncode_def Let_def)
  qed (use VoteSetMaj23Message assms in \<open>auto simp: receiveState_def intro: passes_refl\<close>)
qed (use assms in \<open>auto simp: receiveState_def intro: passes_refl\<close>)

lemma receiveData_passes:
  assumes "reactor_ok R" "peer_ok ps" "msg_sane m"
  shows "\<exists>R'. receiveData src m ps R = Some R' \<and> passes src R R'"
proof (cases m)
  case (PrePrepareMessage p)
  then have "psTotal (bidParts (prBlockID p)) < 2 ^ 62" using assms(3) by (simp add: bid_typed_def)
  from SetHasProposal_ok[OF assms(2) this] show ?thesis
    using PrePrepareMessage assms(1,3) by (auto simp: receiveData_def msg_ok_def intro: passes_enqueue)
next
  case (PrePreparePOLMessage h r pol)
  then show ?thesis using assms by (auto simp: receiveData_def intro: passes_peer ApplyProposalPOLMessage_ok)
next
  case (BlockPartMessage h r part)
  then obtain p where p: "part = Some p" "0 \<le> partIndex p" using assms(3) by auto
  obtain ps' where "SetHasProposalBlockPart h r (partIndex p) ps = Some ps'" "peer_ok ps'"
    using setBit_ok[OF assms(2) p(2), of "prsParts ps"] assms(2)
    by (cases "prsHeight ps \<noteq> h \<or> prsRound ps \<noteq> r") (auto simp: SetHasProposalBlockPart_def)
  then show ?thesis using BlockPartMessage p(1) assms(1) by (auto simp: receiveData_def msg_ok_def intro: passes_enqueue)
qed (use assms in \<open>auto simp: receiveData_def intro: passes_refl\<close>)

lemma receiveVote_passes:
  assumes "reactor_ok R" "peer_ok ps" "msg_sane m"
  shows "\<exists>R'. receiveVote src m ps R = Some R' \<and> passes src R R'"
proof (cases m)
  case (VoteMessage v)
  let ?ps = "ensureVoteBitArrays (sub64 (rsHeight (rcState R)) 1) (vt_Size (rsLastCommits (rcState R)))
    (ensureVoteBitArrays (rsHeight (rcState R)) (vals_Size (rsValidators (rcState R))) ps)"
  have "peer_ok ?ps" using assms(1,2) by (intro ensureVoteBitArrays_ok) (auto simp: reactor_ok_def)
  then obtain ps' where "SetHasVote v ?ps = Some ps'" "peer_ok ps'" using setHasVote_ok[of ?ps "vIndex v"] assms(3) VoteMessage by (force simp: SetHasVote_def)
  then show ?thesis using VoteMessage assms(1,3) by (auto simp: receiveVote_def Let_def msg_ok_def intro: passes_enqueue)
qed (use assms in \<open>auto simp: receiveVote_def intro: passes_refl\<close>)

lemma receiveBits_passes:
  assumes "reactor_ok R" "peer_ok ps" "msg_sane m"
  shows "\<exists>R'. receiveBits src m ps R = Some R' \<and> passes src R R'"
proof (cases m)
  case (VoteSetBitsMessage h r t b votes)
  obtain hvs where hvs: "rsVotes (rcState R) = Some hvs" using assms(1) by (auto simp: reactor_ok_def)
  obtain ours where o: "ourVotesFor hvs r t b = Some ours" using ourVotesFor_total assms(3) VoteSetBitsMessage by fastforce
  obtain ps1 ps2 where "ApplyVoteSetBitsMessage h r t votes ours ps = Some ps1" "peer_ok ps1" "ApplyVoteSetBitsMessage h r t votes None ps = Some ps2" "peer_ok ps2"
    using ApplyVoteSetBitsMessage_ok[OF assms(2)] assms(3) VoteSetBitsMessage by (metis msg_sane.simps(8))
  then show ?thesis using VoteSetBitsMessage hvs o passes_peer[OF assms(1)] by (auto simp: receiveBits_def)
qed (use assms in \<open>auto simp: receiveBits_def intro: passes_refl\<close>)

lemma Receive_passes:
  assumes "reactor_ok R" "rcPeers R src = Some ps" "pb_typed pb" "pb_fits pb"
  shows "\<exists>R'. Receive now chID src (Some pb) R = Some R' \<and> passes src R R'"
proof -
  obtain d where d: "MsgFromProto pb = Some d" using MsgFromProto_total by blast
  have ps: "peer_ok ps" using assms(1,2) by (auto simp: reactor_ok_def)
  show ?thesis
  proof (cases d)
    case (Inl e)
    then show ?thesis using d assms(1) by (auto simp: Receive_def intro: passes_stop passes_refl)
  next
    case (Inr m)
    with d have "MsgFromProto pb = Some (Inr m)" by simp
    from decoded_sane[OF this assms(3,4)] have m: "msg_sane m" "msg_ValidateBasic m = Some None" by auto
    note steps = receiveState_passes[OF assms(1) ps m(1), of now src] receiveData_passes[OF assms(1) ps m(1), of src]
      receiveVote_passes[OF assms(1) ps m(1), of src] receiveBits_passes[OF assms(1) ps m(1), of src] passes_refl[OF assms(1), of src]
    show ?thesis using steps d m(2) Inr assms(2) by (auto simp: Receive_def)
  qed
qed

section \<open>Properties\<close>

text \<open>Property C5: handling a structure of a known peer never panics when the arrays in it have the words for their bits, keeps the
  reactor well formed, passes on only messages that the consensus machine may be given, and changes the machine at most by
  noting that a peer claims a majority.\<close>

theorem Receive_sound:
  assumes "reactor_ok R" "rcPeers R src = Some ps" "pb_typed pb" "pb_fits pb"
  shows "\<exists>R' q. Receive now chID src (Some pb) R = Some R' \<and> reactor_ok R' \<and> rcQueue R' = rcQueue R @ q \<and>
    (\<forall>mi\<in>set q. miPeerID mi = src \<and> (\<forall>cs :: 'a ConsensusState. input_ok cs (PeerMsg mi))) \<and>
    (rcState R' = rcState R \<or> (\<exists>hvs hvs' r t p b err. rsVotes (rcState R) = Some hvs \<and> hv_SetPeerMaj23 hvs r t p b = Some (hvs', err) \<and>
       rcState R' = (rcState R)\<lparr>rsVotes := Some hvs'\<rparr>))"
  using Receive_passes[OF assms, of now chID] unfolding passes_def claimed_def by (metis input_ok.simps(2))

definition sample_reactor :: "nat Reactor" where
  "sample_reactor = \<lparr>rcState = (zeroState DefaultConsensusConfig sample_ex \<lparr>bsDB = Map.empty, bsBase = 1, bsHeight = 1\<rparr>)\<lparr>rsHeight := 2, csState := Some sample_state,
       rsVotes := Some \<lparr>hvChainID = [1], hvHeight = 2, hvValSet = \<lparr>vsValidators = [], vsPrimary = None\<rparr>, hvRound = 0, hvSets = Map.empty, hvCatchup = (\<lambda>_. [])\<rparr>\<rparr>,
     rcRunning = True, rcWaitSync = False, rcPeers = [''p'' \<mapsto> (NewPeerState ''p'')\<lparr>prsHeight := 1, prsRound := 0\<rparr>], rcQueue = [], rcSent = [], rcStopped = []\<rparr>"

lemma sample_reactor_ok: "reactor_ok sample_reactor"
  by (simp add: reactor_ok_def sample_reactor_def zeroState_def Let_def vals_Size_def vt_Size_def peer_ok_def ptrs_def NewPeerState_def)

theorem Receive_sound_witness:
  "\<exists>R'. Receive 0 DataChannel ''p'' (Some (PbPrePreparePol 1 0 \<lparr>Bits = 4, Elems = [5]\<rparr>)) sample_reactor = Some R' \<and> reactor_ok R'"
proof -
  have "rcPeers sample_reactor ''p'' = Some ((NewPeerState ''p'')\<lparr>prsHeight := 1, prsRound := 0\<rparr>)" by (simp add: sample_reactor_def)
  moreover have "pb_fits (PbPrePreparePol 1 0 \<lparr>Bits = 4, Elems = [5]\<rparr>)" by (simp add: ba_wf_def)
  ultimately show ?thesis using Receive_sound[OF sample_reactor_ok, of "''p''" _ "PbPrePreparePol 1 0 \<lparr>Bits = 4, Elems = [5]\<rparr>" 0 DataChannel] by auto
qed

text \<open>Property C40: a peer that is behind a node can stop it: a message with a bit array that has no words passes every check,
  and the next turn of the routine that sends the peer block parts panics, outside any recovery.\<close>

theorem malformed_array_stops_gossip:
  assumes "rcRunning R" "rcPeers R src = Some ps" "0 \<le> prsRound ps" "0 < bsBase (csBlockStore (rcState R))"
    and "bsBase (csBlockStore (rcState R)) \<le> prsHeight ps" "prsHeight ps < rsHeight (rcState R)"
  shows "\<exists>pb m R' ps'. MsgFromProto pb = Some (Inr m) \<and> msg_ValidateBasic m = Some None \<and> Receive now StateChannel src (Some pb) R = Some R' \<and>
    rcPeers R' src = Some ps' \<and> gossipDataRoutine W rnd ok (rcState R') (GetRoundState ps') ps' = None"
proof -
  let ?ours = "parts_at (rcState R) (rsPrePrepareBlockParts (rcState R))"
  obtain n :: int where n: "n = 1 \<or> n = 2" "psTotal (ps_Header ?ours) \<noteq> n" by (cases "psTotal (ps_Header ?ours) = 1") auto
  define psh where "psh = \<lparr>psTotal = n, psHash = replicate 32 0\<rparr>"
  let ?b = "\<lparr>Bits = n, Elems = []\<rparr> :: BitArray"
  let ?pb = "PbNewValidBlock (prsHeight ps) (prsRound ps) psh (Some ?b) False"
  let ?m = "NewValidBlockMessage (prsHeight ps) (prsRound ps) psh (Some ?b) False"
  define ps' where "ps' = ps\<lparr>psBits := psBits ps @ [?b], prsPartsHeader := psh, prsParts := Some (length (psBits ps))\<rparr>"
  have v: "msg_ValidateBasic ?m = Some None"
    using assms(3,4,5) n(1) by (auto simp: psh_ValidateBasic_def psh_def ValidateHash_def srhash_Size_def ba_Size_def MaxBlockPartsCount_def MaxBlockSizeBytes_def BlockPartSizeBytes_def)
  then have f: "MsgFromProto ?pb = Some (Inr ?m)"
    by (auto simp: MsgFromProto_def PartSetHeaderFromProto_def ba_FromProto_def split: if_splits)
  have r: "Receive now StateChannel src (Some ?pb) R = Some (setPeer src ps' R)"
    using assms(1,2) f v by (simp add: Receive_def receiveState_def ApplyNewValidBlockMessage_def keepBits_def ps'_def)
  have neq: "\<not> HeaderEqualsTo ?ours psh" using n(2) by (auto simp: HeaderEqualsTo_def psh_Equals_def psh_def split: option.splits)
  have "PickRandom rnd (ba_Not (bits_at ps' (prsParts ps'))) = None"
    by (simp add: ps'_def bits_at_def ba_Not_def PickRandom_def getTrueIndices_def)
  then have "gossipDataForCatchup W rnd ok (rcState R) (GetRoundState ps') ps' = None"
    by (simp add: gossipDataForCatchup_def GetRoundState_def PeerRoundState.defs)
  then have "gossipDataRoutine W rnd ok (rcState R) (GetRoundState ps') ps' = None"
    using neq assms(4-6) by (auto simp: gossipDataRoutine_def Let_def ps'_def GetRoundState_def PeerRoundState.defs split: option.splits)
  then show ?thesis using f v r by (intro exI[of _ ?pb] exI[of _ ?m] exI[of _ "setPeer src ps' R"] exI[of _ ps']) (simp add: setPeer_def)
qed

theorem malformed_array_stops_gossip_witness:
  "\<exists>pb R' ps'. Receive 0 StateChannel ''p'' (Some pb) sample_reactor = Some R' \<and> rcPeers R' ''p'' = Some ps' \<and>
    gossipDataRoutine \<lparr>wEnv = sample_env, wCodec = sample_codec, wApp = sample_app, wNow = (\<lambda>n. 0), wOk = (\<lambda>n. True)\<rparr> (\<lambda>n. 0) (\<lambda>n. True) (rcState R') (GetRoundState ps') ps' = None"
proof -
  have "rcRunning sample_reactor" "rcPeers sample_reactor ''p'' = Some ((NewPeerState ''p'')\<lparr>prsHeight := 1, prsRound := 0\<rparr>)"
    "bsBase (csBlockStore (rcState sample_reactor)) = 1" "rsHeight (rcState sample_reactor) = 2" by (simp_all add: sample_reactor_def zeroState_def Let_def)
  then show ?thesis using malformed_array_stops_gossip[of sample_reactor "''p''" "(NewPeerState ''p'')\<lparr>prsHeight := 1, prsRound := 0\<rparr>" 0] by simp blast
qed

text \<open>When a peer moves on to the next height, the commits it has are meant to become those of its last height;
  they are read after they were cleared, so the peer is then taken to have none.\<close>

theorem last_commits_are_forgotten:
  assumes "0 \<le> prsHeight ps" "prsHeight ps < MaxInt64"
  shows "prsLastCommit (ApplyNewRoundStepMessage now (prsHeight ps + 1) r step secs (prsRound ps) ps) = None \<and>
    prsLastCommitRound (ApplyNewRoundStepMessage now (prsHeight ps + 1) r step secs (prsRound ps) ps) = prsRound ps"
  using assms by (simp add: ApplyNewRoundStepMessage_def CompareHRS_def Let_def MaxInt64_def add64_small)

theorem last_commits_are_forgotten_witness:
  "prsLastCommit (ApplyNewRoundStepMessage 0 2 0 1 0 0 ((NewPeerState ''p'')\<lparr>prsHeight := 1, prsRound := 0, prsPrecommits := Some 0, psBits := [\<lparr>Bits = 4, Elems = [15]\<rparr>]\<rparr>)) = None"
  using last_commits_are_forgotten[of "(NewPeerState ''p'')\<lparr>prsHeight := 1, prsRound := 0, prsPrecommits := Some 0, psBits := [\<lparr>Bits = 4, Elems = [15]\<rparr>]\<rparr>" 0 0 1 0]
  by (simp add: MaxInt64_def)

end
