(* ===== verification/Reactors.thy ===== *)
theory Reactors
  imports Agreement PeerSafety
begin

text \<open>
  The network of nodes as they run: each is a reactor around its consensus machine. Structures of any peer arrive at
  \<open>Receive\<close>, what it accepts waits in \<open>peerMsgQueue\<close>, and the receive loop takes it from there, in any interleaving with the
  node's own messages, its timeouts and the gossip routines. Such a network refines the network of consensus machines of
  the theory Agreement: the reactor passes on only what the machines may be given.
\<close>

section \<open>The network of reactors\<close>

record 'a rnet =
  rnNode :: "nat \<Rightarrow> 'a Reactor"
  rnGot :: "nat \<Rightarrow> Vote set"
  rnSent :: "nat \<Rightarrow> Vote set"

definition machines :: "'a rnet \<Rightarrow> 'a net" where
  "machines N = \<lparr>nNode = (\<lambda>i. rcState (rnNode N i)), nGot = rnGot N, nSent = rnSent N\<rparr>"

text \<open>The machine of a node after a turn, with the votes it was handed and those it has said.\<close>

definition turned :: "'a rnet \<Rightarrow> nat \<Rightarrow> input \<Rightarrow> 'a ConsensusState \<Rightarrow> msgInfo list \<Rightarrow> 'a rnet" where
  "turned N i inp cs' q =
     N\<lparr>rnNode := (rnNode N)(i := (rnNode N i)\<lparr>rcState := cs', rcQueue := q\<rparr>),
       rnGot := (rnGot N)(i := rnGot N i \<union> handed (rcState (rnNode N i)) inp), rnSent := (rnSent N)(i := said (machines N) i)\<rparr>"

inductive rnet_step :: "(nat \<Rightarrow> 'a setting) \<Rightarrow> nat set \<Rightarrow> 'a rnet \<Rightarrow> 'a rnet \<Rightarrow> bool" for X Hon where
  receive: "i \<in> Hon \<Longrightarrow> rsHeight (rcState (rnNode N i)) = xHeight (X i) \<Longrightarrow> pred_option pb_typed pb \<Longrightarrow> Receive now chID src pb (rnNode N i) = Some R' \<Longrightarrow>
    rnet_step X Hon N (N\<lparr>rnNode := (rnNode N)(i := R')\<rparr>)"
| handle: "i \<in> Hon \<Longrightarrow> rsHeight (rcState (rnNode N i)) = xHeight (X i) \<Longrightarrow> rcQueue (rnNode N i) = mi # q \<Longrightarrow>
    authentic X Hon (machines N) (votes_in (miMsg mi)) \<Longrightarrow> receiveRoutine (xW (X i)) (PeerMsg mi) (rcState (rnNode N i)) = Some cs' \<Longrightarrow>
    rnet_step X Hon N (turned N i (PeerMsg mi) cs' q)"
| own: "i \<in> Hon \<Longrightarrow> rsHeight (rcState (rnNode N i)) = xHeight (X i) \<Longrightarrow> \<forall>mi. inp \<noteq> PeerMsg mi \<Longrightarrow> input_ok (rcState (rnNode N i)) inp \<Longrightarrow>
    authentic X Hon (machines N) (handed (rcState (rnNode N i)) inp) \<Longrightarrow> receiveRoutine (xW (X i)) inp (rcState (rnNode N i)) = Some cs' \<Longrightarrow>
    rnet_step X Hon N (turned N i inp cs' (rcQueue (rnNode N i)))"
| gossip: "i \<in> Hon \<Longrightarrow> rnet_step X Hon N (N\<lparr>rnNode := (rnNode N)(i := (rnNode N i)\<lparr>rcPeers := P, rcSent := S\<rparr>)\<rparr>)"

abbreviation rnet_steps :: "(nat \<Rightarrow> 'a setting) \<Rightarrow> nat set \<Rightarrow> 'a rnet \<Rightarrow> 'a rnet \<Rightarrow> bool" where
  "rnet_steps X Hon \<equiv> rtranclp (rnet_step X Hon)"

definition rnet_start :: "(nat \<Rightarrow> 'a setting) \<Rightarrow> State \<Rightarrow> nat set \<Rightarrow> 'a rnet \<Rightarrow> bool" where
  "rnet_start X st Hon N \<longleftrightarrow> net_start X st Hon (machines N) \<and> (\<forall>i. rcQueue (rnNode N i) = [])"

section \<open>What the reactor passes on\<close>

lemma decoded_msg_ok:
  assumes "MsgFromProto pb = Some (Inr m)" "pb_typed pb"
  shows "msg_ok m"
proof -
  have "pbToMsg pb = Inr m" using assms(1) by (auto simp: MsgFromProto_def split: sum.splits option.splits)
  then show ?thesis using assms(2)
    by (cases pb) (auto simp: msg_ok_def good_bid_def bid_typed_def pp_ValidateBasic_def vote_ValidateBasic_def PrePrepareFromProto_def VoteFromProto_def
        BlockIDFromProto_eq split: option.splits sum.splits if_splits)
qed

definition relays :: "'a Reactor \<Rightarrow> 'a Reactor \<Rightarrow> bool" where
  "relays R R' \<longleftrightarrow> (\<exists>q. rcQueue R' = rcQueue R @ q \<and> (\<forall>mi\<in>set q. msg_ok (miMsg mi))) \<and> (rcState R' = rcState R \<or> claimed (rcState R) (rcState R'))"

lemma relays_simps [simp]: "relays R R" "relays R (stopPeer src R)" "relays R (setPeer src ps R)" "msg_ok m \<Longrightarrow> relays R (enqueue src m (setPeer src ps R))"
  by (auto simp: relays_def stopPeer_def setPeer_def enqueue_def)

lemma relays_claim:
  assumes "rsVotes (rcState R) = Some hvs" "hv_SetPeerMaj23 hvs r t p b = Some (hvs', err)"
  shows "relays R (R\<lparr>rcState := (rcState R)\<lparr>rsVotes := Some hvs'\<rparr>, rcSent := s\<rparr>)" "relays R (stopPeer src (R\<lparr>rcState := (rcState R)\<lparr>rsVotes := Some hvs'\<rparr>\<rparr>))"
  using claimedI[OF assms] by (auto simp: relays_def stopPeer_def)

lemma receiveState_relays: "receiveState now src m ps R = Some R' \<Longrightarrow> relays R R'"
proof (cases m)
  case (VoteSetMaj23Message h r t b)
  assume e: "receiveState now src m ps R = Some R'"
  show ?thesis
  proof (cases "rsHeight (rcState R) = h")
    case True
    obtain hvs hvs' err where h: "rsVotes (rcState R) = Some hvs" "hv_SetPeerMaj23 hvs r t (psPeer ps) b = Some (hvs', err)"
      using e VoteSetMaj23Message True by (auto simp: receiveState_def bind_Some)
    show ?thesis using e VoteSetMaj23Message True h relays_claim[OF h] by (auto simp: receiveState_def bind_Some Let_def split: if_splits)
  qed (use e VoteSetMaj23Message in \<open>simp add: receiveState_def\<close>)
qed (auto simp: receiveState_def bind_Some split: if_splits)

lemma receiveOther_relays:
  "receiveData src m ps R = Some R' \<Longrightarrow> msg_ok m \<Longrightarrow> relays R R'" "receiveVote src m ps R = Some R' \<Longrightarrow> msg_ok m \<Longrightarrow> relays R R'"
  "receiveBits src m ps R = Some R' \<Longrightarrow> relays R R'"
  by (auto simp: receiveData_def receiveVote_def receiveBits_def bind_Some Let_def split: Message.splits if_splits)

lemma Receive_relays:
  assumes "Receive now chID src pb R = Some R'" "pred_option pb_typed pb"
  shows "relays R R'"
proof (cases "rcRunning R \<and> pb \<noteq> None")
  case True
  then obtain p where p: "pb = Some p" "rcRunning R" by auto
  obtain d where d: "MsgFromProto p = Some d" using MsgFromProto_total by blast
  show ?thesis
  proof (cases d)
    case (Inl e)
    then show ?thesis using assms(1) p d by (auto simp: Receive_def)
  next
    case (Inr m)
    then have m: "MsgFromProto p = Some (Inr m)" "msg_ok m" using d decoded_msg_ok[of p m] assms(2) p(1) by auto
    then have v: "msg_ValidateBasic m = Some None" by (auto simp: MsgFromProto_def split: sum.splits option.splits)
    then obtain ps where "rcPeers R src = Some ps" using assms(1) p m(1) by (cases "rcPeers R src") (auto simp: Receive_def)
    then show ?thesis using assms(1) p m v receiveState_relays receiveOther_relays by (auto simp: Receive_def split: if_splits)
  qed
qed (use assms(1) in \<open>auto simp: Receive_def split: if_splits\<close>)

section \<open>Refinement\<close>

definition queues_ok :: "nat set \<Rightarrow> 'a rnet \<Rightarrow> bool" where
  "queues_ok Hon N \<longleftrightarrow> (\<forall>i\<in>Hon. \<forall>mi\<in>set (rcQueue (rnNode N i)). msg_ok (miMsg mi))"

lemma machines_turned: "machines (turned N i inp cs' q) =
    (machines N)\<lparr>nNode := (nNode (machines N))(i := cs'), nGot := (nGot (machines N))(i := nGot (machines N) i \<union> handed (nNode (machines N) i) inp),
      nSent := (nSent (machines N))(i := said (machines N) i)\<rparr>"
  by (auto simp: machines_def turned_def)

lemma machines_same: "rcState R' = rcState (rnNode N i) \<Longrightarrow> machines (N\<lparr>rnNode := (rnNode N)(i := R')\<rparr>) = machines N"
  by (auto simp: machines_def)

lemma rnet_step_refines:
  assumes "rnet_step X Hon N N'" "queues_ok Hon N"
  shows "net_steps X Hon (machines N) (machines N') \<and> queues_ok Hon N'"
  using assms(1)
proof cases
  case (receive i pb now chID src R')
  note r = Receive_relays[OF receive(5,4)]
  have q: "queues_ok Hon N'" using r assms(2) receive(1) by (auto simp: queues_ok_def relays_def)
  have "machines N' = machines N \<or> net_step X Hon (machines N) (machines N')"
  proof (cases "rcState R' = rcState (rnNode N i)")
    case True
    then show ?thesis using machines_same receive(1) by metis
  next
    case False
    then obtain hvs hvs' rr t p b err where c: "rsVotes (rcState (rnNode N i)) = Some hvs" "hv_SetPeerMaj23 hvs rr t p b = Some (hvs', err)"
      "rcState R' = (rcState (rnNode N i))\<lparr>rsVotes := Some hvs'\<rparr>" using r by (auto simp: relays_def claimed_def)
    have "machines N' = (machines N)\<lparr>nNode := (nNode (machines N))(i := (nNode (machines N) i)\<lparr>rsVotes := Some hvs'\<rparr>)\<rparr>"
      using c(3) receive(1) by (auto simp: machines_def)
    moreover have "rsHeight (nNode (machines N) i) = xHeight (X i)" "rsVotes (nNode (machines N) i) = Some hvs" using receive(3) c(1) by (simp_all add: machines_def)
    ultimately show ?thesis using net_step.maj23[OF receive(2) _ _ c(2), of "machines N" X] by simp
  qed
  then show ?thesis using q by auto
next
  case (handle i mi q cs')
  have m: "msg_ok (miMsg mi)" using assms(2) handle(2,4) by (auto simp: queues_ok_def)
  have "net_step X Hon (machines N) (machines N')"
    unfolding handle(1) machines_turned using handle m by (intro net_step.turn) (auto simp: machines_def)
  moreover have "queues_ok Hon N'" using assms(2) handle(1,2,4) by (auto simp: queues_ok_def turned_def)
  ultimately show ?thesis by blast
next
  case (own i inp cs')
  have "net_step X Hon (machines N) (machines N')"
    unfolding own(1) machines_turned using own by (intro net_step.turn) (auto simp: machines_def)
  moreover have "queues_ok Hon N'" using assms(2) own(1,2) by (auto simp: queues_ok_def turned_def)
  ultimately show ?thesis by blast
next
  case (gossip i P S)
  have "machines N' = machines N" unfolding gossip(1) by (rule machines_same) simp
  then show ?thesis using assms(2) gossip by (auto simp: queues_ok_def)
qed

lemma rnet_steps_refine: "rnet_steps X Hon N N' \<Longrightarrow> queues_ok Hon N \<Longrightarrow> net_steps X Hon (machines N) (machines N') \<and> queues_ok Hon N'"
proof (induction rule: rtranclp_induct)
  case (step N1 N2)
  then show ?case using rnet_step_refines[OF step(2)] by (meson rtranclp_trans)
qed simp

lemma rnet_start_queues: "rnet_start X st Hon N \<Longrightarrow> queues_ok Hon N"
  by (simp add: rnet_start_def queues_ok_def)

end
