(* ===== verification/LoneRun.thy ===== *)
theory LoneRun
  imports Reactors
begin

text \<open>
  A network of one validator, run from its start to the second height: it proposes a block, prepares it, locks and
  commits it, stores and applies it. The run is evaluated step by step and witnesses that the hypotheses of the
  agreement theorem can hold.
\<close>

section \<open>Evaluation\<close>

declare flattenLoop.simps [code]

lemma quorum_code [code]: "quorum = Fin (of_int 8631899285793451 / of_int 1125899906842624)"
  unfolding quorum_val by simp

lemma MaxFloat64_code [code]: "MaxFloat64 = Fin (of_int 179769313486231570814527423731704356798070567525844996598917476803157260780028538760589558632766878171540458953514382464234321326889464182768467546703537516986049910576551282076245490090389328944075868508455133942304583236903222948165808559332123348274797826204144723168738177180919299881250404026184124858368)"
  unfolding MaxFloat64_def by simp

text \<open>Whole numbers are exact; evaluating the general rounding there would be slow.\<close>

lemma f64_rnd_code [code]: "f64_rnd x = (let (p, q) = quotient_of x in
    if q = 1 \<and> 0 < p \<and> p < 2 ^ 53 then Fin x
    else if x = 0 then Fin 0
    else (let e = ulp_exp x; y = of_int (round_even (x / pow2 e)) * pow2 e
          in if 2 ^ 1024 \<le> y then PosInf else if y \<le> - (2 ^ 1024) then NegInf else Fin y))"
proof -
  obtain p q where pq: "quotient_of x = (p, q)" by fastforce
  show ?thesis
  proof (cases "q = 1 \<and> 0 < p \<and> p < 2 ^ 53")
    case True
    then have "x = of_int p" using quotient_of_div[OF pq] by simp
    then show ?thesis unfolding pq Let_def prod.case if_P[OF True] using f64_rnd_numeral[of p] True by blast
  next
    case False
    show ?thesis unfolding pq Let_def prod.case if_not_P[OF False] f64_rnd_def[of x] by (rule refl)
  qed
qed

section \<open>The run\<close>

definition lone_block :: Block where
  "lone_block = sample_first\<lparr>bData := \<lparr>dTxs = [], dHash = None\<rparr>, bHeader := (bHeader sample_first)\<lparr>hDataHash := txs_Hash sample_env []\<rparr>\<rparr>"

definition lone_world :: "nat world" where
  "lone_world = \<lparr>wEnv = sample_env, wCodec = sample_codec\<lparr>k_blockDec := (\<lambda>b. if b = [3] then Some lone_block else None)\<rparr>, wApp = sample_app, wNow = (\<lambda>n. 10), wOk = (\<lambda>n. True)\<rparr>"

definition lone_start :: "nat ConsensusState option" where
  "lone_start = map_option (\<lambda>cs. OnStart lone_world (SetPrivValidator sample_pv Map.empty (SetEventBus cs)))
     (NewState lone_world DefaultConsensusConfig sample_state sample_ex \<lparr>bsDB = Map.empty, bsBase = 0, bsHeight = 0\<rparr>)"

definition lone_inputs :: "input list" where
  "lone_inputs = Tock \<lparr>tiDuration = 1000000000, tiHeight = 1, tiRound = 0, tiStep = RoundStepNewHeight\<rparr> # replicate 4 (InternalMsg 0)"

text \<open>The turns are all possible at the height, and the last one leaves it.\<close>

fun leaves :: "'a world \<Rightarrow> int \<Rightarrow> input list \<Rightarrow> 'a ConsensusState \<Rightarrow> bool" where
  "leaves W h [] cs = (rsHeight cs \<noteq> h)"
| "leaves W h (inp # inps) cs = (rsHeight cs = h \<and> input_ok cs inp \<and> (case receiveRoutine W inp cs of None \<Rightarrow> False | Some cs' \<Rightarrow> leaves W h inps cs'))"

lemma lone_leaves: "(case lone_start of None \<Rightarrow> False | Some cs \<Rightarrow> leaves lone_world 1 lone_inputs cs)"
  by code_simp

definition lone_setting :: "nat \<Rightarrow> nat setting" where
  "lone_setting i = \<lparr>xW = lone_world, xChain = [1], xHeight = 1, xVals = sample_vset, xOld = {}, xFrom = 0\<rparr>"

lemma sample_vset_shared: "vals_shared_power sample_vset" "powered sample_vset = {0}"
proof -
  have "length (vsValidators sample_vset) = 1" by code_simp
  moreover have "\<forall>v\<in>set (vsValidators sample_vset). valVotingPower v = f64_div TotalVotingPower (f64_of_int 1)" by code_simp
  ultimately show "vals_shared_power sample_vset" "powered sample_vset = {0}" using equal_power_shared[of sample_vset] by auto
qed

lemma lone_height: "one_height lone_setting sample_state"
proof -
  have "length (e_Sum sample_env b) = 32" for b by (simp add: sample_env_def)
  moreover have "e_timeEnc sample_env (hTime (bHeader lone_block)) \<noteq> None" by code_simp
  moreover have "vals_shared_power sample_vset" by (rule sample_vset_shared)
  moreover have "height_after sample_state = 1" by code_simp
  ultimately show ?thesis
    by (auto simp: one_height_def setting_ok_def world_ok_def follows_def lone_setting_def lone_world_def sample_state_def split: if_splits)
qed

lemma votes_in_iff: "v \<in> votes_in m \<longleftrightarrow> m = VoteMessage v"
  by (auto simp: votes_in_def split: Message.splits)

lemma own_votes:
  assumes "(\<exists>ti. inp = Tock ti) \<or> (\<exists>i. inp = InternalMsg i)" "input_ok (nNode N 0) inp"
  shows "authentic X {0} N (handed (nNode N 0) inp)"
proof -
  have "v \<in> sent (nNode N 0)" if v: "v \<in> handed (nNode N 0) inp" for v
  proof -
    obtain i where "inp = InternalMsg i" "i < length (csInternal (nNode N 0))" "miMsg (csInternal (nNode N 0) ! i) = VoteMessage v"
      using assms v by (auto simp: votes_in_iff)
    then show ?thesis using nth_mem by (fastforce simp: sent_def)
  qed
  then show ?thesis unfolding authentic_def said_def by auto
qed

lemma leaves_run:
  assumes "leaves (xW (X 0)) (xHeight (X 0)) inps (rcState (rnNode N 0))" "\<forall>inp\<in>set inps. (\<exists>ti. inp = Tock ti) \<or> (\<exists>i. inp = InternalMsg i)"
  shows "\<exists>N'. rnet_steps X {0} N N' \<and> rsHeight (rcState (rnNode N' 0)) \<noteq> xHeight (X 0)"
  using assms
proof (induction inps arbitrary: N)
  case (Cons inp inps)
  let ?cs = "rcState (rnNode N 0)"
  obtain cs' where c: "rsHeight ?cs = xHeight (X 0)" "input_ok ?cs inp" "receiveRoutine (xW (X 0)) inp ?cs = Some cs'"
    "leaves (xW (X 0)) (xHeight (X 0)) inps cs'" using Cons.prems(1) by (auto split: option.splits)
  have m: "nNode (machines N) 0 = ?cs" by (simp add: machines_def)
  have "authentic X {0} (machines N) (handed ?cs inp)" using own_votes[of inp "machines N" X] Cons.prems(2) c(2) unfolding m by auto
  moreover have "\<forall>mi. inp \<noteq> PeerMsg mi" using Cons.prems(2) by auto
  ultimately have "rnet_step X {0} N (turned N 0 inp cs' (rcQueue (rnNode N 0)))" by (intro rnet_step.own c) auto
  moreover have "\<exists>N'. rnet_steps X {0} (turned N 0 inp cs' (rcQueue (rnNode N 0))) N' \<and> rsHeight (rcState (rnNode N' 0)) \<noteq> xHeight (X 0)"
    by (rule Cons.IH) (use c(4) Cons.prems(2) in \<open>auto simp: turned_def\<close>)
  ultimately show ?case by (meson converse_rtranclp_into_rtranclp)
qed auto

lemma lone_net: "\<exists>N0 N. rnet_start lone_setting sample_state {0} N0 \<and> rnet_steps lone_setting {0} N0 N \<and> rsHeight (rcState (rnNode N 0)) \<noteq> height_after sample_state"
proof -
  obtain cs where cs: "lone_start = Some cs" "leaves lone_world 1 lone_inputs cs" using lone_leaves by (auto split: option.splits)
  define N0 where "N0 = \<lparr>rnNode = (\<lambda>_. \<lparr>rcState = cs, rcRunning = True, rcWaitSync = False, rcPeers = Map.empty, rcQueue = [], rcSent = [], rcStopped = []\<rparr>),
    rnGot = (\<lambda>_. {}), rnSent = (\<lambda>_. {})\<rparr>"
  obtain cs0 where "NewState lone_world DefaultConsensusConfig sample_state sample_ex \<lparr>bsDB = Map.empty, bsBase = 0, bsHeight = 0\<rparr> = Some cs0"
    "cs = OnStart lone_world (SetPrivValidator sample_pv Map.empty (SetEventBus cs0))" using cs(1) by (auto simp: lone_start_def)
  moreover have "xW (lone_setting 0) = lone_world" by (simp add: lone_setting_def)
  ultimately have "starts (lone_setting 0) sample_state cs" unfolding starts_def by metis
  then have s: "rnet_start lone_setting sample_state {0} N0" by (simp add: rnet_start_def net_start_def N0_def machines_def)
  have "\<exists>N. rnet_steps lone_setting {0} N0 N \<and> rsHeight (rcState (rnNode N 0)) \<noteq> xHeight (lone_setting 0)"
  proof (rule leaves_run)
    show "leaves (xW (lone_setting 0)) (xHeight (lone_setting 0)) lone_inputs (rcState (rnNode N0 0))" using cs(2) by (simp add: N0_def lone_setting_def)
  qed (simp add: lone_inputs_def)
  moreover have "height_after sample_state = 1" by code_simp
  ultimately show ?thesis using s by (auto simp: lone_setting_def)
qed

end
