(* ===== verification/Gossip.thy ===== *)
theory Gossip
  imports PeerSafety ChainSafety
begin

text \<open>
  Gossip makes progress. Each turn of a gossip routine sends a peer one item it lacks and marks it as known, so repeating
  turns sends every missing item exactly once and then stops. The argument is stated once, for any such step, and used for
  the votes of a vote set and for the parts of a proposal block.
\<close>

section \<open>Draining\<close>

text \<open>Repeating a step until it sends nothing, at most \<open>n\<close> times.\<close>

fun drain :: "(nat \<Rightarrow> 's \<Rightarrow> ('s \<times> 'm option) option) \<Rightarrow> nat \<Rightarrow> 's \<Rightarrow> ('s \<times> 'm list) option" where
  "drain step 0 s = Some (s, [])"
| "drain step (Suc n) s = do {
     (s1, sent) \<leftarrow> step n s;
     (case sent of
        None \<Rightarrow> Some (s1, [])
      | Some m \<Rightarrow> do { (s2, ms) \<leftarrow> drain step n s1; Some (s2, m # ms) })
   }"

locale draining =
  fixes step :: "nat \<Rightarrow> 's \<Rightarrow> ('s \<times> 'm option) option" and ready :: "'s \<Rightarrow> bool" and missing :: "'s \<Rightarrow> nat set" and ix :: "'m \<Rightarrow> nat"
    and held :: "'m \<Rightarrow> bool"
  assumes finite_missing: "ready s \<Longrightarrow> finite (missing s)"
    and sends: "ready s \<Longrightarrow> missing s \<noteq> {} \<Longrightarrow>
      \<exists>s' m. step n s = Some (s', Some m) \<and> ready s' \<and> held m \<and> ix m \<in> missing s \<and> missing s' = missing s - {ix m}"
    and rests: "ready s \<Longrightarrow> missing s = {} \<Longrightarrow> \<exists>s'. step n s = Some (s', None) \<and> ready s' \<and> missing s' = {}"
begin

lemma drains:
  assumes "ready s" "card (missing s) < n"
  shows "\<exists>s' ms. drain step n s = Some (s', ms) \<and> ready s' \<and> missing s' = {} \<and> distinct (map ix ms) \<and> ix ` set ms = missing s \<and> (\<forall>m\<in>set ms. held m)"
  using assms
proof (induction n arbitrary: s)
  case (Suc n)
  show ?case
  proof (cases "missing s = {}")
    case True
    then show ?thesis using rests[OF Suc.prems(1), of n] by auto
  next
    case False
    obtain s1 m where m: "step n s = Some (s1, Some m)" "ready s1" "ix m \<in> missing s" "missing s1 = missing s - {ix m}" "held m"
      using sends[OF Suc.prems(1) False, of n] by blast
    have "card (missing s1) < n" using m(3,4) Suc.prems finite_missing[OF Suc.prems(1)] by (simp add: card_Diff_singleton) (metis Suc_pred card_gt_0_iff empty_iff not_less_eq)
    then obtain s2 ms where r: "drain step n s1 = Some (s2, ms)" "ready s2" "missing s2 = {}" "distinct (map ix ms)" "ix ` set ms = missing s1" "\<forall>m\<in>set ms. held m"
      using Suc.IH[OF m(2)] by blast
    have "ix m \<notin> ix ` set ms" using r(5) m(4) by simp
    then show ?thesis using m r by (intro exI[of _ s2] exI[of _ "m # ms"]) auto
  qed
qed simp

end

section \<open>Votes\<close>

text \<open>The array the peer keeps for a vote set of its own height and round.\<close>

definition own_array :: "VoteSet \<Rightarrow> PeerState \<Rightarrow> nat option" where
  "own_array vs ps = (if vtType vs = PrepareType then prsPrevotes ps else prsPrecommits ps)"

definition votes_known :: "VoteSet \<Rightarrow> PeerState \<Rightarrow> nat set" where
  "votes_known vs ps = {i. \<exists>b. bits_at ps (own_array vs ps) = Some b \<and> ba_test b i}"

definition votes_missing :: "VoteSet \<Rightarrow> PeerState \<Rightarrow> nat set" where
  "votes_missing vs ps = {i. i < length (vtVotes vs) \<and> vtVotes vs ! i \<noteq> None \<and> i \<notin> votes_known vs ps}"

text \<open>The peer is at the height and round of the vote set, and its array, if it has one yet, has a bit per validator.\<close>

definition votes_ready :: "env \<Rightarrow> VoteSet \<Rightarrow> PeerState \<Rightarrow> bool" where
  "votes_ready E vs ps \<longleftrightarrow> vt_reach E vs \<and> IsVoteTypeValid (vtType vs) \<and> prsHeight ps = vtHeight vs \<and> prsRound ps = vtRound vs \<and>
     (\<forall>p. own_array vs ps = Some p \<longrightarrow> p < length (psBits ps) \<and> ba_wf (psBits ps ! p) \<and> ba_tidy (psBits ps ! p) \<and>
        Bits (psBits ps ! p) = int (length (vtVotes vs)))"

lemma reach_facts:
  assumes "vt_reach E vs"
  shows "bits_ok (vtBitArray vs) (vtVotes vs)" "vals_Size (vtVals vs) = int (length (vtVotes vs))" "0 < length (vtVotes vs)" "length (vtVotes vs) \<le> 10000"
    "i < length (vtVotes vs) \<Longrightarrow> vtVotes vs ! i = Some v \<Longrightarrow> vIndex v = int i \<and> vHeight v = vtHeight vs \<and> vRound v = vtRound vs \<and> vType v = vtType vs"
proof -
  have inv: "vt_inv E vs" by (rule vt_reach_inv[OF assms])
  then show "bits_ok (vtBitArray vs) (vtVotes vs)" by (simp add: vt_inv_def)
  have v: "votes_ok E (ctx_of vs) (vtVotes vs)" "vals_shared_power (vtVals vs)" using inv by (simp_all add: vt_inv_def)
  then show "vals_Size (vtVals vs) = int (length (vtVotes vs))" "0 < length (vtVotes vs)" "length (vtVotes vs) \<le> 10000"
    using vals_shared_power_size(3,4)[OF v(2)] by (simp_all add: votes_ok_def ctx_of_def vals_Size_def)
  show "vIndex v = int i \<and> vHeight v = vtHeight vs \<and> vRound v = vtRound vs \<and> vType v = vtType vs" if "i < length (vtVotes vs)" "vtVotes vs ! i = Some v"
    using v(1) that by (fastforce simp: votes_ok_def ctx_of_def)
qed

text \<open>Allocating the arrays of the height: nothing that is there changes, and the arrays of the round are there.\<close>

definition grown :: "PeerState \<Rightarrow> PeerState \<Rightarrow> bool" where
  "grown ps q \<longleftrightarrow> (\<exists>xs. psBits q = psBits ps @ xs) \<and> prsHeight q = prsHeight ps \<and> prsRound q = prsRound ps \<and>
     (prsPrevotes ps \<noteq> None \<longrightarrow> prsPrevotes q = prsPrevotes ps) \<and> (prsPrecommits ps \<noteq> None \<longrightarrow> prsPrecommits q = prsPrecommits ps)"

lemma ensureCatchup_grown: "grown ps (ensureCatchupCommitRound h r n ps) \<and> prsPrevotes (ensureCatchupCommitRound h r n ps) = prsPrevotes ps \<and>
    prsPrecommits (ensureCatchupCommitRound h r n ps) = prsPrecommits ps"
  by (auto simp: ensureCatchupCommitRound_def grown_def keepBits_def Let_def split: option.splits)

lemma ensureVoteBitArrays_grown:
  assumes "NewBitArray n = Some z" "prsHeight ps = h"
  shows "grown ps (ensureVoteBitArrays h n ps)"
    "prsPrevotes ps = None \<Longrightarrow> \<exists>i. prsPrevotes (ensureVoteBitArrays h n ps) = Some i \<and> i < length (psBits (ensureVoteBitArrays h n ps)) \<and> psBits (ensureVoteBitArrays h n ps) ! i = z"
    "prsPrecommits ps = None \<Longrightarrow> \<exists>i. prsPrecommits (ensureVoteBitArrays h n ps) = Some i \<and> i < length (psBits (ensureVoteBitArrays h n ps)) \<and> psBits (ensureVoteBitArrays h n ps) ! i = z"
  using assms by (auto simp: ensureVoteBitArrays_def grown_def keepBits_def Let_def nth_append)

lemma ensured:
  assumes "votes_ready E vs ps" "q = ensureVoteBitArrays (vtHeight vs) (int (length (vtVotes vs))) ps1"
    and "ps1 = (if c then ensureCatchupCommitRound (vtHeight vs) (vtRound vs) (int (length (vtVotes vs))) ps else ps)"
  shows "votes_ready E vs q" "own_array vs q \<noteq> None" "votes_known vs q = votes_known vs ps"
proof -
  let ?n = "int (length (vtVotes vs))"
  have r: "vt_reach E vs" using assms(1) by (simp add: votes_ready_def)
  note f = reach_facts[OF r]
  obtain z where z: "NewBitArray ?n = Some z" "ba_wf z" "Bits z = ?n" "\<And>i. \<not> ba_test z i" "ba_tidy z"
    using NewBitArray_wf[of ?n] f(3,4) by auto
  have g1: "grown ps ps1" "own_array vs ps1 = own_array vs ps"
    using ensureCatchup_grown[of ps] unfolding assms(3) by (auto simp: grown_def own_array_def)
  then have h: "prsHeight ps1 = vtHeight vs" using assms(1) by (simp add: grown_def votes_ready_def)
  note g2 = ensureVoteBitArrays_grown[OF z(1) h, folded assms(2)]
  obtain xs where xs: "psBits q = psBits ps @ xs" using g1(1) g2(1) by (auto simp: grown_def)
  have hr: "prsHeight q = vtHeight vs" "prsRound q = vtRound vs" using g1 g2(1) assms(1) by (simp_all add: grown_def votes_ready_def)
  have "votes_ready E vs q \<and> own_array vs q \<noteq> None \<and> votes_known vs q = votes_known vs ps"
  proof (cases "own_array vs ps")
    case None
    then obtain i where i: "own_array vs q = Some i" "i < length (psBits q)" "psBits q ! i = z"
      using g1(2) g2(2,3) by (auto simp: own_array_def split: if_splits)
    then show ?thesis using z(2-5) None hr assms(1) by (auto simp: votes_ready_def votes_known_def bits_at_def)
  next
    case (Some i)
    then have "own_array vs q = Some i" using g1(2) g2(1) by (auto simp: own_array_def grown_def split: if_splits)
    moreover have "i < length (psBits ps)" using assms(1) Some by (auto simp: votes_ready_def)
    ultimately show ?thesis using Some xs hr assms(1) by (auto simp: votes_ready_def votes_known_def bits_at_def nth_append)
  qed
  then show "votes_ready E vs q" "own_array vs q \<noteq> None" "votes_known vs q = votes_known vs ps" by auto
qed

lemma own_array_found: "votes_ready E vs ps \<Longrightarrow> getVoteBitArray (vtHeight vs) (vtRound vs) (vtType vs) ps = own_array vs ps"
  by (auto simp: votes_ready_def getVoteBitArray_def own_array_def)

lemma setBit_known:
  assumes "votes_ready E vs ps" "own_array vs ps = Some p" "i < length (vtVotes vs)"
  shows "\<exists>ps'. setBit (Some p) (int i) ps = Some ps' \<and> votes_ready E vs ps' \<and> votes_known vs ps' = insert i (votes_known vs ps)"
proof -
  have b: "p < length (psBits ps)" "ba_wf (psBits ps ! p)" "ba_tidy (psBits ps ! p)" "Bits (psBits ps ! p) = int (length (vtVotes vs))"
    using assms(1,2) by (auto simp: votes_ready_def)
  have "int i < Bits (psBits ps ! p)" using b(4) assms(3) by simp
  from setIndex_in[OF b(2) this, of True] obtain b' where b': "setIndex (psBits ps ! p) (int i) True = Some (True, b')" "ba_wf b'"
    "Bits b' = Bits (psBits ps ! p)" "\<And>j. ba_test b' j = (if j = i then True else ba_test (psBits ps ! p) j)" "ba_tidy (psBits ps ! p) \<Longrightarrow> ba_tidy b'" by metis
  let ?q = "ps\<lparr>psBits := (psBits ps)[p := b']\<rparr>"
  have "setBit (Some p) (int i) ps = Some ?q" using b(1) b'(1) by (simp add: setBit_def bits_at_def SetIndex_def putBits_def)
  moreover have own: "own_array vs ?q = Some p" using assms(2) by (auto simp: own_array_def split: if_splits)
  then have "votes_ready E vs ?q" using assms(1) b b' by (simp add: votes_ready_def)
  moreover have "votes_known vs ?q = insert i (votes_known vs ps)" using own assms(2) b(1) b'(4) by (auto simp: votes_known_def bits_at_def)
  ultimately show ?thesis by blast
qed

text \<open>Picking a vote: one the peer is not known to have, when there is one.\<close>

lemma PickVoteToSend_picks:
  assumes "votes_ready E vs ps" "\<And>n. 0 < n \<Longrightarrow> rnd n < n"
  shows "\<exists>q. votes_ready E vs q \<and> own_array vs q \<noteq> None \<and> votes_known vs q = votes_known vs ps \<and>
    (if votes_missing vs ps = {} then PickVoteToSend rnd (ReadVotes (Some vs)) ps = Some (q, None, False)
     else \<exists>i v. i \<in> votes_missing vs ps \<and> vtVotes vs ! i = Some v \<and> PickVoteToSend rnd (ReadVotes (Some vs)) ps = Some (q, Some v, True))"
proof -
  let ?n = "int (length (vtVotes vs))"
  define ps1 where "ps1 = (if vt_IsReply (Some vs) then ensureCatchupCommitRound (vtHeight vs) (vtRound vs) ?n ps else ps)"
  define q where "q = ensureVoteBitArrays (vtHeight vs) ?n ps1"
  note e = ensured[OF assms(1) q_def ps1_def]
  have r: "vt_reach E vs" using assms(1) by (simp add: votes_ready_def)
  note f = reach_facts[OF r]
  obtain p where p: "own_array vs q = Some p" using e(2) by blast
  have a: "p < length (psBits q)" "ba_wf (psBits q ! p)" "ba_tidy (psBits q ! p)" "Bits (psBits q ! p) = ?n" using e(1) p by (auto simp: votes_ready_def)
  obtain b where b: "vtBitArray vs = Some b" "ba_wf b" "Bits b = ?n" "\<And>i. i < length (vtVotes vs) \<Longrightarrow> ba_test b i = (vtVotes vs ! i \<noteq> None)"
    using f(1) by (auto simp: bits_ok_def)
  obtain c where c: "ba_Sub (Some b) (Some (psBits q ! p)) = Some (Some c)" "ba_wf c" "\<And>i. ba_test c i \<longleftrightarrow> ba_test b i \<and> \<not> ba_test (psBits q ! p) i"
    using ba_Sub_props[OF b(2) a(2,3)] by metis
  have test_b: "ba_test b i \<longleftrightarrow> i < length (vtVotes vs) \<and> vtVotes vs ! i \<noteq> None" for i
    using ba.mem_bound[OF b(2), of i] b(3,4) by auto
  have known: "votes_known vs ps = {i. ba_test (psBits q ! p) i}" using e(3) p a(1) by (auto simp: votes_known_def bits_at_def)
  have missing: "votes_missing vs ps = {i. ba_test c i}" unfolding votes_missing_def known c(3) test_b by auto
  obtain i ok where i: "PickRandom rnd (Some c) = Some (i, ok)" "ok \<longleftrightarrow> (\<exists>j. ba_test c j)" "ok \<longrightarrow> 0 \<le> i \<and> ba_test c (nat i)"
    using PickRandom_correct[OF c(2) assms(2)] by blast
  have "getVoteBitArray (vtHeight vs) (vtRound vs) (vtType vs mod 256) q = Some p"
    using own_array_found[OF e(1)] e(1) p by (auto simp: votes_ready_def IsVoteTypeValid_def PrepareType_def CommitType_def)
  then have pick: "PickVoteToSend rnd (ReadVotes (Some vs)) ps =
      (if \<not> ok then Some (q, None, False) else Option.bind (vt_GetByIndex (Some vs) (wrap 32 i)) (\<lambda>v. Some (q, v, True)))"
    unfolding PickVoteToSend_def using a(1) b(1) c(1) i(1) f(2,3) by (simp add: vt_Size_def vt_BitArray_def ba_Copy_eq bits_at_def flip: ps1_def q_def)
  show ?thesis
  proof (cases ok)
    case False
    then show ?thesis using e p i(2) pick missing by (intro exI[of _ q]) auto
  next
    case True
    then have m: "nat i \<in> votes_missing vs ps" "0 \<le> i" using i(3) missing by auto
    then have in_i: "nat i < length (vtVotes vs)" "vtVotes vs ! nat i \<noteq> None" by (auto simp: votes_missing_def)
    then have "in_range 32 i" using f(4) m(2) by (simp add: in_range_def)
    then have "vt_GetByIndex (Some vs) (wrap 32 i) = Some (vtVotes vs ! nat i)" using in_i m(2) by (simp add: vt_GetByIndex_def wrap_id slice_get_def)
    then show ?thesis using e p pick True m(1) in_i by (intro exI[of _ q]) auto
  qed
qed

lemma PickSendVote_sends:
  assumes "votes_ready E vs ps" "\<And>n. 0 < n \<Longrightarrow> rnd n < n" "votes_missing vs ps \<noteq> {}"
  shows "\<exists>ps' v. PickSendVote rnd True (ReadVotes (Some vs)) ps = Some (ps', Some v) \<and> votes_ready E vs ps' \<and> nat (vIndex v) \<in> votes_missing vs ps \<and>
    votes_missing vs ps' = votes_missing vs ps - {nat (vIndex v)} \<and> vtVotes vs ! nat (vIndex v) = Some v"
proof -
  obtain q i v where q: "votes_ready E vs q" "own_array vs q \<noteq> None" "votes_known vs q = votes_known vs ps" "i \<in> votes_missing vs ps" "vtVotes vs ! i = Some v"
    "PickVoteToSend rnd (ReadVotes (Some vs)) ps = Some (q, Some v, True)" using PickVoteToSend_picks[OF assms(1,2)] assms(3) by auto
  have i: "i < length (vtVotes vs)" using q(4) by (simp add: votes_missing_def)
  have r: "vt_reach E vs" using assms(1) by (simp add: votes_ready_def)
  note v = reach_facts(5)[OF r i q(5)]
  obtain p where p: "own_array vs q = Some p" using q(2) by blast
  obtain q' where q': "setBit (Some p) (int i) q = Some q'" "votes_ready E vs q'" "votes_known vs q' = insert i (votes_known vs q)"
    using setBit_known[OF q(1) p i] by blast
  have "SetHasVote v q = Some q'" using v q'(1) own_array_found[OF q(1)] p by (simp add: SetHasVote_def setHasVote_def)
  moreover have "votes_missing vs q' = votes_missing vs ps - {i}" using q'(3) q(3) by (auto simp: votes_missing_def)
  ultimately show ?thesis using q q'(2) v by (intro exI[of _ q'] exI[of _ v]) (simp add: PickSendVote_def)
qed

lemma PickSendVote_rests:
  assumes "votes_ready E vs ps" "\<And>n. 0 < n \<Longrightarrow> rnd n < n" "votes_missing vs ps = {}"
  shows "\<exists>ps'. PickSendVote rnd True (ReadVotes (Some vs)) ps = Some (ps', None) \<and> votes_ready E vs ps' \<and> votes_missing vs ps' = {}"
  using PickVoteToSend_picks[OF assms(1,2)] assms(3) by (auto simp: PickSendVote_def votes_missing_def)

text \<open>The source of randomness of every turn stays in its range.\<close>

definition fair :: "(nat \<Rightarrow> nat \<Rightarrow> nat) \<Rightarrow> bool" where
  "fair rnd \<longleftrightarrow> (\<forall>k n. 0 < n \<longrightarrow> rnd k n < n)"

interpretation vote_gossip: draining "\<lambda>n. PickSendVote (rnd n) True (ReadVotes (Some vs))" "\<lambda>ps. fair rnd \<and> votes_ready E vs ps" "votes_missing vs" "\<lambda>v. nat (vIndex v)"
    "\<lambda>v. vtVotes vs ! nat (vIndex v) = Some v" for rnd vs E
proof
  fix ps :: PeerState and n
  show "finite (votes_missing vs ps)" by (simp add: votes_missing_def)
  assume r: "fair rnd \<and> votes_ready E vs ps"
  show "votes_missing vs ps \<noteq> {} \<Longrightarrow> \<exists>s' m. PickSendVote (rnd n) True (ReadVotes (Some vs)) ps = Some (s', Some m) \<and> (fair rnd \<and> votes_ready E vs s') \<and>
      vtVotes vs ! nat (vIndex m) = Some m \<and> nat (vIndex m) \<in> votes_missing vs ps \<and> votes_missing vs s' = votes_missing vs ps - {nat (vIndex m)}"
    using PickSendVote_sends[of E vs ps "rnd n"] r by (auto simp: fair_def)
  show "votes_missing vs ps = {} \<Longrightarrow> \<exists>s'. PickSendVote (rnd n) True (ReadVotes (Some vs)) ps = Some (s', None) \<and> (fair rnd \<and> votes_ready E vs s') \<and> votes_missing vs s' = {}"
    using PickSendVote_rests[of E vs ps "rnd n"] r by (auto simp: fair_def)
qed

section \<open>Block parts\<close>

definition parts_known :: "PeerState \<Rightarrow> nat set" where
  "parts_known ps = {i. \<exists>b. bits_at ps (prsParts ps) = Some b \<and> ba_test b i}"

definition parts_missing :: "PartSet \<Rightarrow> PeerState \<Rightarrow> nat set" where
  "parts_missing pset ps = {i. i < length (setParts pset) \<and> setParts pset ! i \<noteq> None \<and> i \<notin> parts_known ps}"

text \<open>The peer is at our height and round, has the proposal, and expects parts under the header of ours.\<close>

definition parts_ready :: "(bytes \<Rightarrow> bytes) \<Rightarrow> 'a ConsensusState \<Rightarrow> PartSet \<Rightarrow> PeerState \<Rightarrow> bool" where
  "parts_ready H rs pset ps \<longleftrightarrow> parts_at rs (rsPrePrepareBlockParts rs) = Some pset \<and> ps_inv H pset \<and> prsHeight ps = rsHeight rs \<and> prsRound ps = rsRound rs \<and>
     prsProposal ps \<and> prsPartsHeader ps = ps_Header (Some pset) \<and>
     (\<exists>p. prsParts ps = Some p \<and> p < length (psBits ps) \<and> ba_wf (psBits ps ! p) \<and> ba_tidy (psBits ps ! p) \<and> Bits (psBits ps ! p) = setTotal pset)"

definition part_step :: "'a world \<Rightarrow> (nat \<Rightarrow> nat) \<Rightarrow> 'a ConsensusState \<Rightarrow> PeerState \<Rightarrow> (PeerState \<times> Message option) option" where
  "part_step W rnd rs ps = map_option (map_prod id (\<lambda>ms. case ms of [] \<Rightarrow> None | m # _ \<Rightarrow> Some m)) (gossipDataRoutine W rnd (\<lambda>_. True) rs (GetRoundState ps) ps)"

fun part_ix :: "Message \<Rightarrow> nat" where
  "part_ix (BlockPartMessage h r (Some p)) = nat (partIndex p)"
| "part_ix _ = 0"

definition our_part :: "'a ConsensusState \<Rightarrow> PartSet \<Rightarrow> Message \<Rightarrow> bool" where
  "our_part rs pset m \<longleftrightarrow> m = BlockPartMessage (rsHeight rs) (rsRound rs) (setParts pset ! part_ix m)"

lemma snapshot_fields [simp]: "prsHeight (GetRoundState ps) = prsHeight ps" "prsRound (GetRoundState ps) = prsRound ps" "prsParts (GetRoundState ps) = prsParts ps"
  "prsPartsHeader (GetRoundState ps) = prsPartsHeader ps" "prsProposal (GetRoundState ps) = prsProposal ps"
  by (simp_all add: GetRoundState_def PeerRoundState.defs)

lemma psh_Equals_refl: "psh_Equals h h"
  by (simp add: psh_Equals_def)

lemma part_step_cases:
  assumes "parts_ready H rs pset ps" "\<And>n. 0 < n \<Longrightarrow> rnd n < n"
  shows "if parts_missing pset ps = {} then part_step W rnd rs ps = Some (ps, None)
    else \<exists>i ps' m. i \<in> parts_missing pset ps \<and> part_step W rnd rs ps = Some (ps', Some m) \<and> our_part rs pset m \<and> part_ix m = i \<and>
      parts_ready H rs pset ps' \<and> parts_known ps' = insert i (parts_known ps)"
proof -
  have ps: "parts_at rs (rsPrePrepareBlockParts rs) = Some pset" "prsHeight ps = rsHeight rs" "prsRound ps = rsRound rs" "prsProposal ps"
    "prsPartsHeader ps = ps_Header (Some pset)" "ps_inv H pset" using assms(1) by (auto simp: parts_ready_def)
  obtain p where p: "prsParts ps = Some p" "p < length (psBits ps)" "ba_wf (psBits ps ! p)" "ba_tidy (psBits ps ! p)" "Bits (psBits ps ! p) = setTotal pset"
    using assms(1) by (auto simp: parts_ready_def)
  obtain b where b: "setBitArray pset = Some b" "ba_wf b" "Bits b = int (length (setParts pset))" "\<And>i. i < length (setParts pset) \<Longrightarrow> ba_test b i = (setParts pset ! i \<noteq> None)"
    using ps(6) by (auto simp: ps_inv_def bits_ok_def)
  obtain c where c: "ba_Sub (Some b) (Some (psBits ps ! p)) = Some (Some c)" "ba_wf c" "\<And>i. ba_test c i \<longleftrightarrow> ba_test b i \<and> \<not> ba_test (psBits ps ! p) i"
    using ba_Sub_props[OF b(2) p(3,4)] by metis
  have test_b: "ba_test b i \<longleftrightarrow> i < length (setParts pset) \<and> setParts pset ! i \<noteq> None" for i
    using ba.mem_bound[OF b(2), of i] b(3,4) by auto
  have missing: "parts_missing pset ps = {i. ba_test c i}" unfolding parts_missing_def parts_known_def c(3) test_b using p(1,2) by (auto simp: bits_at_def)
  obtain i ok where i: "PickRandom rnd (Some c) = Some (i, ok)" "ok \<longleftrightarrow> (\<exists>j. ba_test c j)" "ok \<longrightarrow> 0 \<le> i \<and> ba_test c (nat i)"
    using PickRandom_correct[OF c(2) assms(2)] by blast
  have pick: "Option.bind (ba_Sub (ps_BitArray pset) (ba_Copy (bits_at ps (prsParts ps)))) (PickRandom rnd) = Some (i, ok)"
    using i(1) b(1) c(1) p(1,2) by (simp add: ps_BitArray_def ba_Copy_eq bits_at_def)
  have eq: "HeaderEqualsTo (Some pset) (ps_Header (Some pset))" by (simp add: HeaderEqualsTo_def psh_Equals_refl)
  show ?thesis
  proof (cases ok)
    case False
    then have "parts_missing pset ps = {}" using missing i(2) by simp
    moreover have "gossipDataRoutine W rnd (\<lambda>_. True) rs (GetRoundState ps) ps = Some (ps, [])"
      using pick False ps eq by (auto simp: gossipDataRoutine_def Let_def split: option.splits)
    ultimately show ?thesis by (simp add: part_step_def)
  next
    case True
    then have m: "nat i \<in> parts_missing pset ps" "0 \<le> i" using missing i(3) by auto
    then obtain part where part: "nat i < length (setParts pset)" "setParts pset ! nat i = Some part" by (auto simp: parts_missing_def)
    have "pred_option (part_ok H (setHash pset) (nat i)) (setParts pset ! nat i)" using ps(6) part(1) by (simp add: ps_inv_def)
    then have ix: "partIndex part = i" using part(2) m(2) by (simp add: part_ok_def)
    have n: "int (length (setParts pset)) = setTotal pset" using ps(6) by (simp add: ps_inv_def)
    have "int (nat i) < Bits (psBits ps ! p)" using p(5) part(1) n by linarith
    from setIndex_in[OF p(3) this, of True] obtain b' where b': "setIndex (psBits ps ! p) (int (nat i)) True = Some (True, b')" "ba_wf b'"
      "Bits b' = Bits (psBits ps ! p)" "\<And>j. ba_test b' j = (if j = nat i then True else ba_test (psBits ps ! p) j)" "ba_tidy (psBits ps ! p) \<Longrightarrow> ba_tidy b'" by metis
    let ?q = "ps\<lparr>psBits := (psBits ps)[p := b']\<rparr>"
    let ?m = "BlockPartMessage (rsHeight rs) (rsRound rs) (Some part)"
    have "setBit (prsParts ps) i ps = Some ?q" using b'(1) m(2) p(1,2) by (simp add: setBit_def bits_at_def SetIndex_def putBits_def)
    then have "gossipDataRoutine W rnd (\<lambda>_. True) rs (GetRoundState ps) ps = Some (?q, [?m])"
      using pick True ps eq part m(2) by (simp add: gossipDataRoutine_def Let_def GetPart_def slice_get_def MustEncode_def SetHasProposalBlockPart_def)
    moreover have "parts_ready H rs pset ?q" using assms(1) p b' by (auto simp: parts_ready_def)
    moreover have "parts_known ?q = insert (nat i) (parts_known ps)" using p(1,2) b'(4) by (auto simp: parts_known_def bits_at_def)
    ultimately show ?thesis using m(1) part(2) ix by (auto simp: part_step_def our_part_def)
  qed
qed

interpretation part_gossip: draining "\<lambda>n. part_step W (rnd n) rs" "\<lambda>ps. fair rnd \<and> parts_ready H rs pset ps" "parts_missing pset" part_ix "our_part rs pset" for W rnd rs H pset
proof
  fix ps :: PeerState and n
  show "finite (parts_missing pset ps)" by (simp add: parts_missing_def)
  assume r: "fair rnd \<and> parts_ready H rs pset ps"
  then have "\<And>k. 0 < k \<Longrightarrow> rnd n k < k" by (simp add: fair_def)
  note c = part_step_cases[OF conjunct2[OF r] this, of W]
  show "\<exists>s' m. part_step W (rnd n) rs ps = Some (s', Some m) \<and> (fair rnd \<and> parts_ready H rs pset s') \<and> our_part rs pset m \<and>
      part_ix m \<in> parts_missing pset ps \<and> parts_missing pset s' = parts_missing pset ps - {part_ix m}" if ne: "parts_missing pset ps \<noteq> {}"
  proof -
    obtain s' m where m: "part_ix m \<in> parts_missing pset ps" "part_step W (rnd n) rs ps = Some (s', Some m)" "our_part rs pset m" "parts_ready H rs pset s'"
      "parts_known s' = insert (part_ix m) (parts_known ps)" using c ne by auto
    moreover have "parts_missing pset s' = parts_missing pset ps - {part_ix m}" using m(5) by (auto simp: parts_missing_def)
    ultimately show ?thesis using r by blast
  qed
  show "\<exists>s'. part_step W (rnd n) rs ps = Some (s', None) \<and> (fair rnd \<and> parts_ready H rs pset s') \<and> parts_missing pset s' = {}" if "parts_missing pset ps = {}"
    using c that r by simp
qed

section \<open>Delivery\<close>

text \<open>Property C6: repeating turns on a vote set of the height and round of a peer sends it, one per turn and each once, exactly the
  votes it is not known to have, and then has nothing left to send.\<close>

theorem gossip_delivers_votes:
  assumes "fair rnd" "votes_ready E vs ps" "length (vtVotes vs) < n"
  shows "\<exists>ps' sent. drain (\<lambda>k. PickSendVote (rnd k) True (ReadVotes (Some vs))) n ps = Some (ps', sent) \<and> distinct sent \<and>
    (\<lambda>v. nat (vIndex v)) ` set sent = votes_missing vs ps \<and> (\<forall>v\<in>set sent. vtVotes vs ! nat (vIndex v) = Some v) \<and> votes_missing vs ps' = {}"
proof -
  have "card (votes_missing vs ps) \<le> card {..<length (vtVotes vs)}" by (intro card_mono) (auto simp: votes_missing_def)
  then have "card (votes_missing vs ps) < n" using assms(3) by simp
  from vote_gossip.drains[OF conjI[OF assms(1,2)] this] show ?thesis by (auto simp: distinct_map)
qed

theorem gossip_delivers_votes_witness:
  "\<exists>vs ps' sent. TwoThirdsMajority (Some vs) = (sample_bid, True) \<and>
    drain (\<lambda>k. PickSendVote (\<lambda>n. n - 1) True (ReadVotes (Some vs))) 20000 ((NewPeerState ''p'')\<lparr>prsHeight := 3, prsRound := 0\<rparr>) = Some (ps', sent) \<and> votes_missing vs ps' = {}"
proof -
  obtain vs where vs: "vt_reach sample_env vs" "ctx_of vs = ctx_of sample_set" "TwoThirdsMajority (Some vs) = (sample_bid, True)" using sample_reach(1) by blast
  have "votes_ready sample_env vs ((NewPeerState ''p'')\<lparr>prsHeight := 3, prsRound := 0\<rparr>)"
    using vs(1,2) by (auto simp: votes_ready_def own_array_def NewPeerState_def ctx_of_def sample_set_def NewVoteSet_def IsVoteTypeValid_def)
  moreover have "fair (\<lambda>k n. n - 1)" by (simp add: fair_def)
  ultimately show ?thesis using gossip_delivers_votes[of "\<lambda>k n. n - 1" sample_env vs _ 20000] reach_facts(4)[OF vs(1)] vs(3) by fastforce
qed

text \<open>Property C7: repeating turns on the parts of the proposal block sends a peer of the same height and round that has the proposal
  exactly the parts it is not known to have, each once, in messages of that height and round.\<close>

theorem gossip_delivers_parts:
  assumes "fair rnd" "parts_ready H rs pset ps" "length (setParts pset) < n"
  shows "\<exists>ps' sent. drain (\<lambda>k. part_step W (rnd k) rs) n ps = Some (ps', sent) \<and> distinct sent \<and> part_ix ` set sent = parts_missing pset ps \<and>
    (\<forall>m\<in>set sent. m = BlockPartMessage (rsHeight rs) (rsRound rs) (setParts pset ! part_ix m)) \<and> parts_missing pset ps' = {}"
proof -
  have "card (parts_missing pset ps) \<le> card {..<length (setParts pset)}" by (intro card_mono) (auto simp: parts_missing_def)
  then have "card (parts_missing pset ps) < n" using assms(3) by simp
  from part_gossip.drains[OF conjI[OF assms(1,2)] this, of W] show ?thesis unfolding our_part_def by (auto simp: distinct_map)
qed

definition sample_world :: "nat world" where
  "sample_world = \<lparr>wEnv = sample_env, wCodec = sample_codec, wApp = sample_app, wNow = (\<lambda>n. 0), wOk = (\<lambda>n. True)\<rparr>"

theorem gossip_delivers_parts_witness:
  "\<exists>pset ps ps' sent. NewPartSetFromData srhash_Sum [1, 2, 3, 4] 2 = Some pset \<and>
    drain (\<lambda>k. part_step sample_world (\<lambda>n. n - 1) ((zeroState DefaultConsensusConfig sample_ex \<lparr>bsDB = Map.empty, bsBase = 0, bsHeight = 0\<rparr>)
      \<lparr>csHeap := [pset], rsPrePrepareBlockParts := Some 0\<rparr>)) 3 ps = Some (ps', sent) \<and> part_ix ` set sent = {0, 1}"
proof -
  let ?rs = "\<lambda>pset. (zeroState DefaultConsensusConfig sample_ex \<lparr>bsDB = Map.empty, bsBase = 0, bsHeight = 0\<rparr>)\<lparr>csHeap := [pset], rsPrePrepareBlockParts := Some 0\<rparr>"
  obtain pset where pset: "NewPartSetFromData srhash_Sum [1, 2, 3, 4] 2 = Some pset" "whole srhash_Sum [1, 2, 3, 4] 2 pset"
    using NewPartSetFromData_whole[of 2 "[1, 2, 3, 4]" srhash_Sum] by auto
  have n: "length (pieces [1, 2, 3, 4] 2) = 2" by (simp add: length_pieces)
  have inv: "ps_inv srhash_Sum pset" using whole_reach[OF _ _ pset(2)] ps_reach_inv by fastforce
  obtain z where z: "NewBitArray 2 = Some z" "ba_wf z" "Bits z = 2" "\<And>i. \<not> ba_test z i" "ba_tidy z" using NewBitArray_wf[of 2] by auto
  define ps where "ps = (NewPeerState ''p'')\<lparr>prsRound := 0, prsProposal := True, prsPartsHeader := ps_Header (Some pset), prsParts := Some 0, psBits := [z]\<rparr>"
  have "parts_ready srhash_Sum (?rs pset) pset ps"
    using inv z pset(2) n by (auto simp: parts_ready_def ps_def NewPeerState_def parts_at_def zeroState_def whole_def Let_def)
  moreover have "fair (\<lambda>k n. n - 1)" by (simp add: fair_def)
  moreover have "length (setParts pset) < 3" using pset(2) n by (simp add: whole_def)
  ultimately obtain ps' sent where d: "drain (\<lambda>k. part_step sample_world (\<lambda>n. n - 1) (?rs pset)) 3 ps = Some (ps', sent)" "part_ix ` set sent = parts_missing pset ps"
    using gossip_delivers_parts[of "\<lambda>k n. n - 1" srhash_Sum "?rs pset" pset ps 3 sample_world] by blast
  have "parts_missing pset ps = {0, 1}"
    using pset(2) n z(4) by (auto simp: parts_missing_def parts_known_def ps_def bits_at_def whole_def)
  then show ?thesis using pset(1) d by metis
qed

end
