(* ===== verification/WriteAhead.thy ===== *)
theory WriteAhead
  imports Messages Consensus ChainSafety
begin

text \<open>
  The write-ahead log: the frames of \<open>consensus/wal.go\<close>, the search for the end of a height over the files of a group, the
  repair of a torn file, and the replay of \<open>consensus/replay.go\<close>. A frame is the checksum and the length of the entry, each in
  four bytes, and the entry. The group of files is read as one stream that reports the end of the data together with a short
  read; a single file reports a short read as success, which only the repair uses. The bytes of an entry come from the generated
  code, which is a parameter.
\<close>

section \<open>Checksum\<close>

text \<open>CRC-32 with the Castagnoli polynomial in its reversed form, as \<open>hash/crc32\<close> computes it.\<close>

definition crc_bit :: "32 word \<Rightarrow> 32 word" where
  "crc_bit c = (if bit c 0 then 0x82F63B78 XOR drop_bit 1 c else drop_bit 1 c)"

definition crc_byte :: "32 word \<Rightarrow> byte \<Rightarrow> 32 word" where
  "crc_byte c b = (crc_bit ^^ 8) (c XOR ucast b)"

definition crc32c :: "bytes \<Rightarrow> 32 word" where
  "crc32c data = NOT (foldl crc_byte (NOT 0) data)"

section \<open>Frames\<close>

definition maxMsgSizeBytes :: nat where "maxMsgSizeBytes = 1048576 + 24"

record walcodec =
  wc_enc :: "int \<Rightarrow> pbWAL \<Rightarrow> bytes"
  wc_dec :: "bytes \<Rightarrow> (int \<times> pbWAL) option"

definition frame :: "bytes \<Rightarrow> bytes" where
  "frame data = be_bytes 4 (crc32c data) @ be_bytes 4 (of_nat (length data) :: 32 word) @ data"

datatype wal_error = WalMsgError msg_error | WalTooBig

text \<open>\<open>Encode\<close> returns the bytes it writes. An entry read from a log is written again with the number of its step.\<close>

fun entryToProto :: "walEntry \<Rightarrow> (msg_error + pbWAL) option" where
  "entryToProto (Entry m) = WALToProto m"
| "entryToProto (OddTimeout d h r s) = Some (Inr (PbWalTimeout d h r s))"

definition wal_Encode :: "walcodec \<Rightarrow> int \<Rightarrow> walEntry \<Rightarrow> (wal_error + bytes) option" where
  "wal_Encode C t e = map_option (\<lambda>res. case res of
       Inl err \<Rightarrow> Inl (WalMsgError err)
     | Inr pb \<Rightarrow> (let data = wc_enc C t pb in if maxMsgSizeBytes < length data mod 2 ^ 32 then Inl WalTooBig else Inr (frame data)))
     (entryToProto e)"

text \<open>Reading \<open>n\<close> bytes: the bytes, padded with the zeros of the buffer, whether an error came with them, and whether it was the
  end of the data.\<close>

definition group_Read :: "nat \<Rightarrow> bytes \<Rightarrow> bytes \<times> bool \<times> bytes" where
  "group_Read n bs = (take n bs @ replicate (n - length bs) 0, n = 0 \<or> length bs < n, drop n bs)"

definition file_Read :: "nat \<Rightarrow> bytes \<Rightarrow> bytes \<times> bool \<times> bytes" where
  "file_Read n bs = (take n bs @ replicate (n - length bs) 0, 0 < n \<and> bs = [], drop n bs)"

datatype decoded = DecEOF | DecCorrupt | DecEntry int walEntry

text \<open>\<open>Decode\<close> over a reader: the entry and the rest of the data. The error of the first read is the end of the data for both
  readers, because four bytes are asked for. \<open>None\<close> would be a panic of the conversion.\<close>

definition wal_Decode :: "(nat \<Rightarrow> bytes \<Rightarrow> bytes \<times> bool \<times> bytes) \<Rightarrow> walcodec \<Rightarrow> bytes \<Rightarrow> (decoded \<times> bytes) option" where
  "wal_Decode rd C bs =
     (let (b1, err1, bs1) = rd 4 bs in
      if err1 then Some (DecEOF, bs1)
      else let crc = be_word b1; (b2, err2, bs2) = rd 4 bs1 in
      if err2 then Some (DecCorrupt, bs2)
      else let len = unat (be_word b2) in
      if maxMsgSizeBytes < len then Some (DecCorrupt, bs2)
      else let (data, err3, bs3) = rd len bs2 in
      if err3 then Some (DecCorrupt, bs3)
      else if crc32c data \<noteq> crc then Some (DecCorrupt, bs3)
      else (case wc_dec C data of
          None \<Rightarrow> Some (DecCorrupt, bs3)
        | Some (t, pb) \<Rightarrow> map_option (\<lambda>res. case res of Inl _ \<Rightarrow> (DecCorrupt, bs3) | Inr e \<Rightarrow> (DecEntry t e, bs3)) (WALFromProto pb)))"

lemma group_Read_shorter: "group_Read n bs = (b, False, bs') \<Longrightarrow> length bs' + n = length bs \<and> 0 < n"
  by (auto simp: group_Read_def)

lemma file_Read_shorter: "file_Read n bs = (b, err, bs') \<Longrightarrow> length bs' \<le> length bs"
  by (auto simp: file_Read_def)

text \<open>Every entry that is read, or refused, uses data up.\<close>

lemma wal_Decode_shorter:
  assumes "wal_Decode rd C bs = Some (d, rest)" "d \<noteq> DecEOF" "rd = group_Read \<or> rd = file_Read"
  shows "length rest < length bs"
proof -
  have le: "rd n xs = (b, err, ys) \<Longrightarrow> length ys \<le> length xs" for n xs b err ys
    using assms(3) by (auto simp: group_Read_def file_Read_def)
  have less: "rd 4 bs = (b, False, ys) \<Longrightarrow> length ys < length bs" for b ys
    using assms(3) by (cases bs) (auto simp: group_Read_def file_Read_def)
  obtain b1 err1 bs1 where 1: "rd 4 bs = (b1, err1, bs1)" by (cases "rd 4 bs")
  obtain b2 err2 bs2 where 2: "rd 4 bs1 = (b2, err2, bs2)" by (cases "rd 4 bs1")
  obtain b3 err3 bs3 where 3: "rd (unat (be_word b2)) bs2 = (b3, err3, bs3)" by (cases "rd (unat (be_word b2)) bs2")
  have e: "\<not> err1" using assms(1,2) 1 by (auto simp: wal_Decode_def)
  have "rest = bs2 \<or> rest = bs3" using assms(1) 1 2 3 e by (auto simp: wal_Decode_def Let_def split: if_splits option.splits prod.splits sum.splits) (metis sum.exhaust)
  then show ?thesis using less[of b1 bs1] le[OF 2] le[OF 3] 1 e by auto
qed

section \<open>Searching the end of a height\<close>

text \<open>One file of the search: it was found, the search is over, or it goes on with the file before.\<close>

datatype searched = EndFound bytes | EndMissing | SearchOn int | SearchFailed

function searchFile :: "walcodec \<Rightarrow> bool \<Rightarrow> int \<Rightarrow> int \<Rightarrow> bytes \<Rightarrow> searched option" where
  "searchFile C ignore height lastHeightFound bs =
     (case wal_Decode group_Read C bs of
        None \<Rightarrow> None
      | Some (DecEOF, rest) \<Rightarrow> Some (if 0 < lastHeightFound \<and> lastHeightFound < height then EndMissing else SearchOn lastHeightFound)
      | Some (DecCorrupt, rest) \<Rightarrow> if ignore then searchFile C ignore height lastHeightFound rest else Some SearchFailed
      | Some (DecEntry t e, rest) \<Rightarrow>
          (case e of
             Entry (WalEndHeight h) \<Rightarrow> if h = height then Some (EndFound rest) else searchFile C ignore height h rest
           | _ \<Rightarrow> searchFile C ignore height lastHeightFound rest))"
  by pat_completeness auto
termination
  by (relation "measure (\<lambda>(C, ignore, height, l, bs). length bs)") (auto dest: wal_Decode_shorter)

declare searchFile.simps [simp del]

text \<open>The readers of the group, from the last file on; a reader goes on into the later files.\<close>

fun searchFiles :: "walcodec \<Rightarrow> bool \<Rightarrow> int \<Rightarrow> int \<Rightarrow> bytes list \<Rightarrow> searched option" where
  "searchFiles C ignore height l [] = Some EndMissing"
| "searchFiles C ignore height l (bs # rest) = do {
     r \<leftarrow> searchFile C ignore height l bs;
     (case r of SearchOn l' \<Rightarrow> searchFiles C ignore height l' rest | _ \<Rightarrow> Some r)
   }"

definition SearchForEndHeight :: "walcodec \<Rightarrow> bool \<Rightarrow> int \<Rightarrow> bytes list \<Rightarrow> searched option" where
  "SearchForEndHeight C ignore height files =
     searchFiles C ignore height (-1) (map (\<lambda>i. concat (drop i files)) (rev [0..<length files]))"

section \<open>Repair\<close>

text \<open>The entries up to the first error, written again; an entry that cannot be written ends the repair with an error.\<close>

function repairWalFile :: "walcodec \<Rightarrow> bytes \<Rightarrow> (wal_error + bytes) option" where
  "repairWalFile C bs =
     (case wal_Decode file_Read C bs of
        None \<Rightarrow> None
      | Some (DecEntry t e, rest) \<Rightarrow> do {
          res \<leftarrow> wal_Encode C t e;
          (case res of
             Inl err \<Rightarrow> Some (Inl err)
           | Inr out \<Rightarrow> map_option (\<lambda>r. case r of Inl err \<Rightarrow> Inl err | Inr outs \<Rightarrow> Inr (out @ outs)) (repairWalFile C rest))
        }
      | Some _ \<Rightarrow> Some (Inr []))"
  by pat_completeness auto
termination
  by (relation "measure (\<lambda>(C, bs). length bs)") (auto dest: wal_Decode_shorter)

declare repairWalFile.simps [simp del]

section \<open>Replay\<close>

definition replayOddTimeout :: "int \<Rightarrow> int \<Rightarrow> int \<Rightarrow> 'a ConsensusState \<Rightarrow> 'a ConsensusState option" where
  "replayOddTimeout h r s cs =
     (if h \<noteq> rsHeight cs \<or> r < rsRound cs \<or> r = rsRound cs \<and> s < int (step_code (rsStep cs)) then Some cs else None)"

text \<open>Without a subscription the recorded steps are only logged.\<close>

fun readReplayMessage :: "'a world \<Rightarrow> walEntry \<Rightarrow> 'a ConsensusState \<Rightarrow> 'a ConsensusState option" where
  "readReplayMessage W (Entry (WalEndHeight h)) cs = Some cs"
| "readReplayMessage W (Entry (WalRoundState h r s)) cs = Some cs"
| "readReplayMessage W (Entry (WalMsgInfo mi)) cs = handleMsg W mi cs"
| "readReplayMessage W (Entry (WalTimeout ti)) cs = handleTimeout W ti cs"
| "readReplayMessage W (OddTimeout d h r s) cs = replayOddTimeout h r s cs"

datatype replay_error = ReplayEndFound | ReplayBelowInitial | ReplayNoEnd | ReplaySearch | ReplayCorrupted

function replayLoop :: "'a world \<Rightarrow> walcodec \<Rightarrow> bytes \<Rightarrow> 'a ConsensusState \<Rightarrow> ('a ConsensusState \<times> replay_error option) option" where
  "replayLoop W C bs cs =
     (case wal_Decode group_Read C bs of
        None \<Rightarrow> None
      | Some (DecEOF, rest) \<Rightarrow> Some (cs, None)
      | Some (DecCorrupt, rest) \<Rightarrow> Some (cs, Some ReplayCorrupted)
      | Some (DecEntry t e, rest) \<Rightarrow> Option.bind (readReplayMessage W e cs) (replayLoop W C rest))"
  by pat_completeness auto
termination
  by (relation "measure (\<lambda>(W, C, bs, cs). length bs)") (auto dest: wal_Decode_shorter)

declare replayLoop.simps [simp del]

text \<open>The replay itself logs the steps it makes and the end of a height it finalizes. Those entries go to the end of the head file,
  behind a torn entry too, when a signature, an end of height or the ticker flushes them. The argument \<open>flushed\<close> are the bytes of
  them that are in the file when the reader comes to the end of what the log held at the start: it reads on into them. Which
  bytes these are depends on the time, so they are arbitrary. Both searches come before the first of them is written.\<close>

definition catchupReplay :: "'a world \<Rightarrow> walcodec \<Rightarrow> bytes list \<Rightarrow> bytes \<Rightarrow> int \<Rightarrow> 'a ConsensusState \<Rightarrow> ('a ConsensusState \<times> replay_error option) option" where
  "catchupReplay W C files flushed csHeight cs = do {
     r1 \<leftarrow> SearchForEndHeight C True csHeight files;
     (case r1 of
        SearchFailed \<Rightarrow> Some (cs, Some ReplaySearch)
      | EndFound _ \<Rightarrow> Some (cs, Some ReplayEndFound)
      | _ \<Rightarrow> do {
          st \<leftarrow> csState cs;
          if csHeight < stInitialHeight st then Some (cs, Some ReplayBelowInitial)
          else do {
            r2 \<leftarrow> SearchForEndHeight C True (if csHeight = stInitialHeight st then 0 else sub64 csHeight 1) files;
            (case r2 of
               SearchFailed \<Rightarrow> Some (cs, Some ReplaySearch)
             | EndFound rest \<Rightarrow> replayLoop W C (rest @ flushed) cs
             | _ \<Rightarrow> Some (cs, Some ReplayNoEnd))
          }
        })
   }"

text \<open>Opening the log: an empty head file gets the end of height 0. The last file of the group is its head.\<close>

definition OpenWAL :: "walcodec \<Rightarrow> int \<Rightarrow> bytes list \<Rightarrow> (wal_error + bytes list) option" where
  "OpenWAL C now files =
     (let old = (if files = [] then [] else butlast files); head = (if files = [] then [] else last files)
      in if head = []
         then map_option (\<lambda>res. case res of Inl e \<Rightarrow> Inl e | Inr bs \<Rightarrow> Inr (old @ [bs])) (wal_Encode C now (Entry (WalEndHeight 0)))
         else Some (Inr (old @ [head])))"

datatype start_error = StartWAL wal_error | StartReplay replay_error

text \<open>\<open>OnStart\<close> with the log of an earlier run: open it, replay it, and on a corrupt entry repair the head file and try once more.
  For each of the two replays the arguments have the bytes it flushes while the reader is reading, and those after it.\<close>

abbreviation appendHead :: "bytes list \<Rightarrow> bytes \<times> bytes \<Rightarrow> bytes list" where
  "appendHead files w \<equiv> butlast files @ [last files @ fst w @ snd w]"

definition startWithLog ::
  "'a world \<Rightarrow> walcodec \<Rightarrow> int \<Rightarrow> bool \<Rightarrow> bytes list \<Rightarrow> bytes \<times> bytes \<Rightarrow> bytes \<times> bytes \<Rightarrow> 'a ConsensusState \<Rightarrow> (start_error + 'a ConsensusState \<times> bytes list) option" where
  "startWithLog W C now doWALCatchup files written1 written2 cs0 = do {
     opened \<leftarrow> OpenWAL C now files;
     (case opened of
        Inl e \<Rightarrow> Some (Inl (StartWAL e))
      | Inr files1 \<Rightarrow> do {
          let cs = cs0\<lparr>csWalOpen := True\<rparr>;
          if \<not> doWALCatchup then Some (Inr (scheduleRound0 W cs, files1))
          else do {
            (cs1, err) \<leftarrow> catchupReplay W C files1 (fst written1) (rsHeight cs) cs;
            let left = appendHead files1 written1;
            if err \<noteq> Some ReplayCorrupted then Some (Inr (scheduleRound0 W cs1, left))
            else do {
              repaired \<leftarrow> repairWalFile C (last left);
              (case repaired of
                 Inl e \<Rightarrow> Some (Inl (StartWAL e))
               | Inr head \<Rightarrow> do {
                   reopened \<leftarrow> OpenWAL C now (butlast left @ [head]);
                   (case reopened of
                      Inl e \<Rightarrow> Some (Inl (StartWAL e))
                    | Inr files2 \<Rightarrow> do {
                        (cs2, err2) \<leftarrow> catchupReplay W C files2 (fst written2) (rsHeight cs1) cs1;
                        if err2 = Some ReplayCorrupted then Some (Inl (StartReplay ReplayCorrupted))
                        else Some (Inr (scheduleRound0 W cs2, appendHead files2 written2))
                      })
                 })
            }
          }
        })
   }"

section \<open>Frames are read back\<close>

lemma length_be_bytes [simp]: "length (be_bytes n w) = n"
  by (simp add: be_bytes_def)

lemma be_word_be_bytes [simp]: "be_word (be_bytes 4 (w :: 32 word)) = w"
proof (rule bit_word_eqI)
  fix n assume "n < LENGTH(32)"
  then have n: "n < 32" by simp
  have e: "be_bytes 4 w = [ucast (drop_bit 24 w), ucast (drop_bit 16 w), ucast (drop_bit 8 w), ucast w]"
    by (simp add: be_bytes_def numeral_eq_Suc)
  have w: "be_word (be_bytes 4 w) = push_bit 8 (push_bit 8 (push_bit 8 (ucast (ucast (drop_bit 24 w) :: byte)) OR ucast (ucast (drop_bit 16 w) :: byte))
      OR ucast (ucast (drop_bit 8 w) :: byte)) OR ucast (ucast w :: byte)" unfolding e be_word_def by simp
  consider "n < 8" | "8 \<le> n" "n < 16" | "16 \<le> n" "n < 24" | "24 \<le> n" using n by linarith
  then have "bit (be_word (be_bytes 4 w)) n = bit w n"
    using n unfolding w by cases (auto simp: bit_simps not_less algebra_simps)
  then show "bit (be_word (be_bytes 4 w)) n = bit w n" .
qed

lemma length_frame [simp]: "length (frame data) = 8 + length data"
  by (simp add: frame_def)

lemma group_Read_exact: "length a = n \<Longrightarrow> 0 < n \<Longrightarrow> group_Read n (a @ bs) = (a, False, bs)"
  by (auto simp: group_Read_def)

lemma file_Read_exact: "length a = n \<Longrightarrow> 0 < n \<Longrightarrow> file_Read n (a @ bs) = (a, False, bs)"
  by (auto simp: file_Read_def)

lemma frame_len: "length data \<le> maxMsgSizeBytes \<Longrightarrow> unat (of_nat (length data) :: 32 word) = length data"
  by (simp add: maxMsgSizeBytes_def unat_of_nat)

lemma wal_Decode_frame:
  assumes "data \<noteq> []" "length data \<le> maxMsgSizeBytes" "wc_dec C data = Some (t, pb)" "WALFromProto pb = Some (Inr e)" "rd = group_Read \<or> rd = file_Read"
  shows "wal_Decode rd C (frame data @ rest) = Some (DecEntry t e, rest)"
proof -
  have r: "length a = n \<Longrightarrow> 0 < n \<Longrightarrow> rd n (a @ bs) = (a, False, bs)" for a n bs
    using assms(5) group_Read_exact file_Read_exact by blast
  have n: "0 < length data" using assms(1) by simp
  show ?thesis unfolding frame_def wal_Decode_def append_assoc
    using assms(2-4) n by (simp add: r frame_len)
qed

text \<open>A torn frame: what is left of it after a crash during its write. The buffer of the repair is padded with zeros.\<close>

lemma group_torn:
  assumes "data \<noteq> []" "length data \<le> maxMsgSizeBytes" "k < length (frame data)"
  shows "wal_Decode group_Read C (take k (frame data)) = Some (if k < 4 then DecEOF else DecCorrupt, [])"
proof -
  consider "k < 4" | "4 \<le> k" "k < 8" | "8 \<le> k" by linarith
  then show ?thesis
  proof cases
    case 1
    then show ?thesis using assms(3) by (simp add: wal_Decode_def group_Read_def)
  next
    case 2
    then have "take k (frame data) = be_bytes 4 (crc32c data) @ take (k - 4) (be_bytes 4 (of_nat (length data) :: 32 word))" by (simp add: frame_def)
    moreover have "k - 4 < 4" using 2 by linarith
    ultimately show ?thesis using 2 by (simp add: wal_Decode_def group_Read_def)
  next
    case 3
    then have "take k (frame data) = be_bytes 4 (crc32c data) @ be_bytes 4 (of_nat (length data) :: 32 word) @ take (k - 8) data" by (simp add: frame_def)
    moreover have "k - 8 < length data" using 3 assms(3) by simp
    ultimately show ?thesis using 3 assms by (simp add: wal_Decode_def group_Read_exact frame_len) (simp add: group_Read_def)
  qed
qed

definition detected :: "bytes \<Rightarrow> nat \<Rightarrow> bool" where
  "detected data k \<longleftrightarrow> crc32c data \<noteq> 0 \<and> (8 < k \<longrightarrow> crc32c (take (k - 8) data @ replicate (length data - (k - 8)) 0) \<noteq> crc32c data)"

lemma file_torn:
  assumes "data \<noteq> []" "length data \<le> maxMsgSizeBytes" "k < length (frame data)" "detected data k"
  shows "\<exists>d. wal_Decode file_Read C (take k (frame data)) = Some (d, []) \<and> (d = DecEOF \<or> d = DecCorrupt)"
proof -
  have c0: "crc32c [] = 0" by (simp add: crc32c_def)
  consider "k = 0" | "0 < k" "k \<le> 4" | "4 < k" "k < 8" | "k = 8" | "8 < k" by linarith
  then show ?thesis
  proof cases
    case 1
    then show ?thesis by (simp add: wal_Decode_def file_Read_def)
  next
    case 2
    then have "length (take k (frame data)) = k" by simp
    then have "take k (frame data) \<noteq> []" "length (take k (frame data)) \<le> 4" using 2 by (metis list.size(3) less_irrefl, simp)
    then show ?thesis by (simp add: wal_Decode_def file_Read_def)
  next
    case 3
    then have t: "take k (frame data) = be_bytes 4 (crc32c data) @ take (k - 4) (be_bytes 4 (of_nat (length data) :: 32 word))" by (simp add: frame_def)
    have ne: "take (k - 4) (be_bytes 4 (of_nat (length data) :: 32 word)) \<noteq> []" using 3 by (simp add: be_bytes_def)
    show ?thesis using 3 ne assms(4) c0 unfolding t by (simp add: wal_Decode_def file_Read_exact) (auto simp: file_Read_def Let_def detected_def)
  next
    case 4
    then have "take k (frame data) = be_bytes 4 (crc32c data) @ be_bytes 4 (of_nat (length data) :: 32 word) @ []" by (simp add: frame_def)
    then show ?thesis using assms(1,2) by (simp add: wal_Decode_def file_Read_exact frame_len) (simp add: file_Read_exact[of _ 4 "[]", simplified] file_Read_def frame_len)
  next
    case 5
    then have t: "take k (frame data) = be_bytes 4 (crc32c data) @ be_bytes 4 (of_nat (length data) :: 32 word) @ take (k - 8) data" by (simp add: frame_def)
    have ne: "take (k - 8) data \<noteq> []" using 5 assms(1) by simp
    have "length data - min (length data) (k - 8) = length data - (k - 8)" by simp
    then show ?thesis using 5 assms ne unfolding t by (simp add: wal_Decode_def file_Read_exact frame_len) (auto simp: file_Read_def Let_def detected_def)
  qed
qed

section \<open>Logs\<close>

text \<open>Entries that the codec reads back and that fit into a frame.\<close>

fun entry_ok :: "walcodec \<Rightarrow> int \<times> walMessage \<Rightarrow> bool" where
  "entry_ok C (t, m) \<longleftrightarrow> loggable m \<and> (\<forall>pb. WALToProto m = Some (Inr pb) \<longrightarrow>
     wc_dec C (wc_enc C t pb) = Some (t, pb) \<and> wc_enc C t pb \<noteq> [] \<and> length (wc_enc C t pb) \<le> maxMsgSizeBytes)"

definition log_of :: "walcodec \<Rightarrow> (int \<times> walMessage) list \<Rightarrow> bytes" where
  "log_of C es = concat (map (\<lambda>(t, m). case wal_Encode C t (Entry m) of Some (Inr bs) \<Rightarrow> bs | _ \<Rightarrow> []) es)"

lemma log_of_Nil [simp]: "log_of C [] = []"
  by (simp add: log_of_def)

lemma MsgToProto_received: "MsgToProto (received m) = MsgToProto m"
  by (cases m rule: received.cases) (simp_all add: ba_ToProto_def zero_bits_def)

lemma WALToProto_logged: "WALToProto (logged m) = WALToProto m"
  by (cases m) (simp_all add: MsgToProto_received)

text \<open>The frame of an entry, at the front of a log.\<close>

lemma entry_frame:
  assumes "entry_ok C (t, m)"
  obtains data where "wal_Encode C t (Entry m) = Some (Inr (frame data))" "wal_Encode C t (Entry (logged m)) = Some (Inr (frame data))"
    "log_of C ((t, m) # es) = frame data @ log_of C es"
    "\<And>rest. wal_Decode group_Read C (frame data @ rest) = Some (DecEntry t (Entry (logged m)), rest)"
    "\<And>rest. wal_Decode file_Read C (frame data @ rest) = Some (DecEntry t (Entry (logged m)), rest)"
proof -
  obtain pb where pb: "WALToProto m = Some (Inr pb)" "WALFromProto pb = Some (Inr (Entry (logged m)))" using WALFromProto_WALToProto assms by auto
  let ?d = "wc_enc C t pb"
  have d: "wc_dec C ?d = Some (t, pb)" "?d \<noteq> []" "length ?d \<le> maxMsgSizeBytes" using assms pb(1) by auto
  then have "length ?d mod 2 ^ 32 = length ?d" by (simp add: maxMsgSizeBytes_def)
  then have e: "wal_Encode C t (Entry m) = Some (Inr (frame ?d))" "wal_Encode C t (Entry (logged m)) = Some (Inr (frame ?d))"
    using pb(1) d(3) by (simp_all add: wal_Encode_def Let_def WALToProto_logged)
  then show ?thesis using wal_Decode_frame[OF d(2,3,1) pb(2)] by (intro that[of ?d]) (simp_all add: log_of_def)
qed

lemma logged_end: "logged m = WalEndHeight h \<longleftrightarrow> m = WalEndHeight h"
  by (cases m) auto

text \<open>The search over a log with a torn end: it finds the first end of the height.\<close>

lemma search_step:
  assumes "entry_ok C (t, m)"
  shows "searchFile C ig h l (log_of C ((t, m) # es) @ rest) =
    (case m of WalEndHeight h' \<Rightarrow> if h' = h then Some (EndFound (log_of C es @ rest)) else searchFile C ig h h' (log_of C es @ rest)
     | _ \<Rightarrow> searchFile C ig h l (log_of C es @ rest))"
  by (rule entry_frame[OF assms, of es]) (cases m, simp_all add: searchFile.simps[of C ig h l "frame _ @ _"])

lemma search_torn:
  assumes "data \<noteq> []" "length data \<le> maxMsgSizeBytes" "k < length (frame data)"
  shows "\<exists>r. searchFile C True h l (take k (frame data)) = Some r \<and> (r = EndMissing \<or> (\<exists>l'. r = SearchOn l'))"
proof -
  have "wal_Decode group_Read C [] = Some (DecEOF, [])" by (simp add: wal_Decode_def group_Read_def)
  then have e: "\<exists>r. searchFile C True h l [] = Some r \<and> (r = EndMissing \<or> (\<exists>l'. r = SearchOn l'))" by (simp add: searchFile.simps[of C True h l "[]"])
  show ?thesis using group_torn[OF assms, of C] e by (cases "k < 4") (auto simp: searchFile.simps[of C True h l "take k (frame data)"])
qed

lemma search_misses:
  assumes "\<forall>e\<in>set es. entry_ok C e" "\<forall>t. (t, WalEndHeight h) \<notin> set es" "data \<noteq> []" "length data \<le> maxMsgSizeBytes" "k < length (frame data)"
  shows "\<exists>r. searchFile C True h l (log_of C es @ take k (frame data)) = Some r \<and> (r = EndMissing \<or> (\<exists>l'. r = SearchOn l'))"
  using assms(1,2)
proof (induction es arbitrary: l)
  case Nil
  then show ?case using search_torn[OF assms(3-5)] by simp
next
  case (Cons e es)
  obtain t m where e: "e = (t, m)" by (cases e)
  have ok: "entry_ok C (t, m)" using Cons.prems(1) e by auto
  have "m \<noteq> WalEndHeight h" using Cons.prems(2) e by auto
  then show ?case using Cons.IH Cons.prems unfolding e search_step[OF ok] by (cases m) auto
qed

lemma search_finds:
  assumes "\<forall>e\<in>set pre. entry_ok C e" "\<forall>t. (t, WalEndHeight h) \<notin> set pre" "entry_ok C (t, WalEndHeight h)"
  shows "searchFile C True h l (log_of C (pre @ (t, WalEndHeight h) # post) @ rest) = Some (EndFound (log_of C post @ rest))"
  using assms(1,2)
proof (induction pre arbitrary: l)
  case Nil
  then show ?case by (simp add: search_step[OF assms(3)])
next
  case (Cons e es)
  obtain t' m where e: "e = (t', m)" by (cases e)
  have ok: "entry_ok C (t', m)" using Cons.prems(1) e by auto
  have "m \<noteq> WalEndHeight h" using Cons.prems(2) e by auto
  then show ?case using Cons.IH Cons.prems unfolding e append_Cons search_step[OF ok] by (cases m) auto
qed

text \<open>The replay of the entries, in the order they were written.\<close>

fun replays :: "'a world \<Rightarrow> walMessage list \<Rightarrow> 'a ConsensusState \<Rightarrow> 'a ConsensusState option" where
  "replays W [] cs = Some cs"
| "replays W (m # ms) cs = Option.bind (readReplayMessage W (Entry m) cs) (replays W ms)"

text \<open>Entries are handled the same whatever bytes follow them.\<close>

lemma replayLoop_entries:
  assumes "\<forall>e\<in>set es. entry_ok C e"
  shows "replayLoop W C (log_of C es @ tail) cs = Option.bind (replays W (map (logged \<circ> snd) es) cs) (replayLoop W C tail)"
  using assms
proof (induction es arbitrary: cs)
  case (Cons e es)
  obtain t m where e: "e = (t, m)" by (cases e)
  have ok: "entry_ok C (t, m)" using Cons.prems(1) e by auto
  have "replayLoop W C (log_of C ((t, m) # es) @ tail) cs = Option.bind (readReplayMessage W (Entry (logged m)) cs) (replayLoop W C (log_of C es @ tail))"
    by (rule entry_frame[OF ok, of es]) (simp add: replayLoop.simps[of W C "frame _ @ _"])
  then show ?case using Cons e by (cases "readReplayMessage W (Entry (logged m)) cs") simp_all
qed simp

lemma replayLoop_log:
  assumes "\<forall>e\<in>set es. entry_ok C e" "data \<noteq> []" "length data \<le> maxMsgSizeBytes" "k < length (frame data)"
  shows "replayLoop W C (log_of C es @ take k (frame data)) cs =
    map_option (\<lambda>cs'. (cs', if k < 4 then None else Some ReplayCorrupted)) (replays W (map (logged \<circ> snd) es) cs)"
proof -
  have "replayLoop W C (take k (frame data)) cs' = Some (cs', if k < 4 then None else Some ReplayCorrupted)" for cs'
    using group_torn[OF assms(2-4), of C] by (simp add: replayLoop.simps[of W C "take k (frame data)"])
  then show ?thesis by (simp add: replayLoop_entries[OF assms(1)] map_option_case bind_split split: option.splits)
qed

lemma repair_log:
  assumes "\<forall>e\<in>set es. entry_ok C e" "data \<noteq> []" "length data \<le> maxMsgSizeBytes" "k < length (frame data)" "detected data k"
  shows "repairWalFile C (log_of C es @ take k (frame data)) = Some (Inr (log_of C es))"
  using assms(1)
proof (induction es)
  case Nil
  then show ?case using file_torn[OF assms(2-5), of C] by (auto simp: repairWalFile.simps[of C "take k (frame data)"])
next
  case (Cons e es)
  obtain t m where e: "e = (t, m)" by (cases e)
  have ok: "entry_ok C (t, m)" using Cons.prems(1) e by auto
  obtain d where d: "wal_Encode C t (Entry (logged m)) = Some (Inr (frame d))" "log_of C ((t, m) # es) = frame d @ log_of C es"
    "\<And>rest. wal_Decode file_Read C (frame d @ rest) = Some (DecEntry t (Entry (logged m)), rest)" by (rule entry_frame[OF ok, of es]) blast
  have ih: "repairWalFile C (log_of C es @ take k (frame data)) = Some (Inr (log_of C es))" using Cons by simp
  show ?case unfolding e d(2) append_assoc by (subst repairWalFile.simps) (simp add: d(1,3) ih)
qed

section \<open>Recovery\<close>

text \<open>Property C8: after a crash in the middle of a write, the replay at the start handles exactly the entries of the current height that
  were written completely, in order, and reports the torn end when its checksum was there, if nothing the replay logs is flushed
  behind the torn entry meanwhile; if something is, the same entries are handled first and the reader then goes on from the torn
  bytes into it. The repair gives back the log without the torn entry, as long as the checksum tells the missing bytes from zeros.\<close>

theorem torn_log_is_recovered:
  assumes "\<forall>e\<in>set (pre @ (t, WalEndHeight h) # post). entry_ok C e" "csState cs = Some st" "stInitialHeight st \<le> rsHeight cs"
    and "h = (if rsHeight cs = stInitialHeight st then 0 else sub64 (rsHeight cs) 1)"
    and "\<forall>u. (u, WalEndHeight h) \<notin> set pre" "\<forall>u. (u, WalEndHeight (rsHeight cs)) \<notin> set (pre @ (t, WalEndHeight h) # post)"
    and "data \<noteq> []" "length data \<le> maxMsgSizeBytes" "k < length (frame data)" "detected data k"
  shows "catchupReplay W C [log_of C (pre @ (t, WalEndHeight h) # post) @ take k (frame data)] [] (rsHeight cs) cs =
      map_option (\<lambda>cs'. (cs', if k < 4 then None else Some ReplayCorrupted)) (replays W (map (logged \<circ> snd) post) cs) \<and>
    (\<forall>flushed. catchupReplay W C [log_of C (pre @ (t, WalEndHeight h) # post) @ take k (frame data)] flushed (rsHeight cs) cs =
      Option.bind (replays W (map (logged \<circ> snd) post) cs) (replayLoop W C (take k (frame data) @ flushed))) \<and>
    repairWalFile C (log_of C (pre @ (t, WalEndHeight h) # post) @ take k (frame data)) = Some (Inr (log_of C (pre @ (t, WalEndHeight h) # post)))"
proof -
  let ?es = "pre @ (t, WalEndHeight h) # post" and ?torn = "take k (frame data)"
  obtain r1 where r1: "searchFile C True (rsHeight cs) (-1) (log_of C ?es @ ?torn) = Some r1" "r1 = EndMissing \<or> (\<exists>l'. r1 = SearchOn l')"
    using search_misses[OF assms(1,6-9)] by blast
  have "searchFile C True h (-1) (log_of C ?es @ ?torn) = Some (EndFound (log_of C post @ ?torn))"
    by (rule search_finds) (use assms(1,5) in auto)
  then have run: "catchupReplay W C [log_of C ?es @ ?torn] flushed (rsHeight cs) cs = replayLoop W C (log_of C post @ ?torn @ flushed) cs" for flushed
    using r1 assms(2-4) by (auto simp: catchupReplay_def SearchForEndHeight_def)
  have "\<forall>e\<in>set post. entry_ok C e" using assms(1) by auto
  then show ?thesis
    using run[of "[]"] replayLoop_log[OF _ assms(7-9), of post C W cs] run replayLoop_entries[of post C W] repair_log[OF assms(1,7-10)] by simp
qed

text \<open>A codec for the entries of a sample log.\<close>

definition sample_walcodec :: walcodec where
  "sample_walcodec = \<lparr>wc_enc = (\<lambda>t pb. case pb of PbWalEndHeight h \<Rightarrow> [1] | _ \<Rightarrow> [2]),
     wc_dec = (\<lambda>bs. if bs = [1] then Some (5, PbWalEndHeight 0) else if bs = [2] then Some (6, PbWalTimeout 7 9 0 4) else None)\<rparr>"

theorem torn_log_is_recovered_witness:
  "\<exists>W (cs :: nat ConsensusState) log. catchupReplay W sample_walcodec [log @ take 8 (frame [1])] [] 1 cs = Some (cs, Some ReplayCorrupted) \<and>
    log = log_of sample_walcodec [(5, WalEndHeight 0), (6, WalTimeout \<lparr>tiDuration = 7, tiHeight = 9, tiRound = 0, tiStep = RoundStepPrepare\<rparr>)] \<and>
    repairWalFile sample_walcodec (log @ take 8 (frame [1])) = Some (Inr log)"
proof -
  let ?ti = "\<lparr>tiDuration = 7, tiHeight = 9, tiRound = 0, tiStep = RoundStepPrepare\<rparr>"
  let ?W = "\<lparr>wEnv = sample_env, wCodec = sample_codec, wApp = sample_app, wNow = (\<lambda>n. 0), wOk = (\<lambda>n. True)\<rparr>"
  define cs where "cs = (zeroState DefaultConsensusConfig sample_ex \<lparr>bsDB = Map.empty, bsBase = 0, bsHeight = 0\<rparr>)\<lparr>rsHeight := 1, csState := Some sample_state\<rparr>"
  have ok: "\<forall>e\<in>set ([] @ (5, WalEndHeight 0) # [(6, WalTimeout ?ti)]). entry_ok sample_walcodec e" by (simp add: sample_walcodec_def maxMsgSizeBytes_def)
  have cs: "csState cs = Some sample_state" "rsHeight cs = 1" "stInitialHeight sample_state = 1" by (simp_all add: cs_def sample_state_def zeroState_def Let_def)
  have det: "detected [1] 8" by code_simp
  have run: "replays ?W (map (logged \<circ> snd) [(6 :: int, WalTimeout ?ti)]) cs = Some cs" using cs(2) by (simp add: handleTimeout_def)
  have "catchupReplay ?W sample_walcodec [log_of sample_walcodec ([] @ (5, WalEndHeight 0) # [(6, WalTimeout ?ti)]) @ take 8 (frame [1])] [] (rsHeight cs) cs =
      map_option (\<lambda>cs'. (cs', if (8 :: nat) < 4 then None else Some ReplayCorrupted)) (replays ?W (map (logged \<circ> snd) [(6 :: int, WalTimeout ?ti)]) cs) \<and>
    (\<forall>flushed. catchupReplay ?W sample_walcodec [log_of sample_walcodec ([] @ (5, WalEndHeight 0) # [(6, WalTimeout ?ti)]) @ take 8 (frame [1])] flushed (rsHeight cs) cs =
      Option.bind (replays ?W (map (logged \<circ> snd) [(6 :: int, WalTimeout ?ti)]) cs) (replayLoop ?W sample_walcodec (take 8 (frame [1]) @ flushed))) \<and>
    repairWalFile sample_walcodec (log_of sample_walcodec ([] @ (5, WalEndHeight 0) # [(6, WalTimeout ?ti)]) @ take 8 (frame [1])) =
      Some (Inr (log_of sample_walcodec ([] @ (5, WalEndHeight 0) # [(6, WalTimeout ?ti)])))"
    by (rule torn_log_is_recovered[OF ok cs(1) _ _ _ _ _ _ _ det]) (use cs in \<open>simp_all add: maxMsgSizeBytes_def\<close>)
  from conjunct1[OF this] conjunct2[OF conjunct2[OF this]] show ?thesis unfolding run cs(2) append_Nil
    by (intro exI[of _ ?W] exI[of _ cs] exI[of _ "log_of sample_walcodec [(5, WalEndHeight 0), (6, WalTimeout ?ti)]"]) simp
qed

end
