(* ===== verification/Handshakes.thy ===== *)
theory Handshakes
  imports BlockStores ChainSafety
begin

text \<open>
  The handshake with the application at the start of a node: \<open>Handshaker\<close> of \<open>consensus/replay.go\<close> with the stubs of
  \<open>consensus/replay_stubs.go\<close>, and the part of \<open>NewNode\<close> that loads the state around it. The application is a parameter; besides
  the calls of block execution it answers \<open>Info\<close> with the height and the hash of its last commit, and \<open>InitChain\<close>. A node
  that crashed while it applied a block finds the application, the block store and the state store at different heights, and
  the handshake has to bring them together.
\<close>

section \<open>The application and what is on disk\<close>

record initRequest =
  irTime :: int
  irChainID :: bytes
  irInitialHeight :: int
  irValidators :: "ValidatorUpdate list"
  irAppState :: bytes

record GenesisFile = GenesisDoc +
  gdAppState :: bytes

record 'a bootApp =
  b_app :: "'a app"
  b_Info :: "'a \<Rightarrow> int \<times> bytes"
  b_InitChain :: "'a \<Rightarrow> initRequest \<Rightarrow> 'a \<times> bytes \<times> ValidatorUpdate list"

record 'a Handshaker =
  hE :: env
  hK :: codec
  hB :: "'a bootApp"
  hGenDoc :: GenesisFile
  hStore :: BlockStore

record 'a persisted =
  dkStore :: dbStore
  dkApp :: 'a
  dkBlocks :: int

datatype hs_error =
    HsNegativeHeight | HsValidatorUpdates | HsNoValidators | HsSave store_error
  | ErrAppBlockHeightTooLow int int | ErrAppBlockHeightTooHigh int int | HsApply apply_error | ErrNoABCIResponsesForHeight | HsLoad

type_synonym ('a, 'r) hs_result = "('a persisted \<times> (hs_error + 'r)) option"

section \<open>The genesis call\<close>

definition sr2pb_ValidatorUpdate :: "Validator \<Rightarrow> ValidatorUpdate option" where
  "sr2pb_ValidatorUpdate val = map_option (\<lambda>pk. \<lparr>vuPubKey = Some pk, vuPower = valVotingPower val, vuType = 0\<rparr>) (valPubKey val)"

definition sr2pb_ValidatorUpdates :: "ValidatorSet \<Rightarrow> ValidatorUpdate list option" where
  "sr2pb_ValidatorUpdates vals = those (map sr2pb_ValidatorUpdate (vsValidators vals))"

abbreviation genesisVals :: "'a Handshaker \<Rightarrow> GenesisValidator list" where
  "genesisVals H \<equiv> (case gdValidators (hGenDoc H) of None \<Rightarrow> [] | Some vs \<Rightarrow> vs)"

text \<open>The state after \<open>InitChain\<close> is changed only before the first block.\<close>

definition initState :: "'a Handshaker \<Rightarrow> State \<Rightarrow> bytes \<Rightarrow> ValidatorUpdate list \<Rightarrow> (hs_error + State) option" where
  "initState H state0 resHash resVals =
     (let state = (if 0 < length resHash then state0\<lparr>stAppHash := resHash\<rparr> else state0);
          finish = (\<lambda>s. Inr (s\<lparr>stLastResultsHash := HashFromByteSlices (e_Sum (hE H)) []\<rparr>)) in
      if 0 < length resVals then do {
        r \<leftarrow> pb2sr_ValidatorUpdates (hE H) resVals;
        (case r of
           Inl _ \<Rightarrow> Some (Inl HsValidatorUpdates)
         | Inr vals \<Rightarrow> do {
             vs \<leftarrow> NewValidatorSet (hE H) vals;
             (_, nxt) \<leftarrow> CopyIteratePrimary (hE H) vs (stLastBlockID state) 0;
             Some (finish (state\<lparr>stValidators := vs, stNextValidators := nxt\<rparr>))
           })
      }
      else if genesisVals H = [] then Some (Inl HsNoValidators)
      else Some (finish state))"

definition sendInitChain :: "'a Handshaker \<Rightarrow> 'a persisted \<Rightarrow> State \<Rightarrow> ('a, State \<times> bytes) hs_result" where
  "sendInitChain H d state = do {
     validators \<leftarrow> newVals (hE H) (genesisVals H);
     validatorSet \<leftarrow> NewValidatorSet (hE H) validators;
     nextVals \<leftarrow> sr2pb_ValidatorUpdates validatorSet;
     let (a, resHash, resVals) = b_InitChain (hB H) (dkApp d) \<lparr>irTime = gdTime (hGenDoc H), irChainID = gdChainID (hGenDoc H),
           irInitialHeight = gdInitialHeight (hGenDoc H), irValidators = nextVals, irAppState = gdAppState (hGenDoc H)\<rparr>;
     let d1 = d\<lparr>dkApp := a\<rparr>;
     if stLastBlockHeight state \<noteq> 0 then Some (d1, Inr (state, resHash))
     else do {
       r \<leftarrow> initState H state resHash resVals;
       (case r of
          Inl e \<Rightarrow> Some (d1, Inl e)
        | Inr state1 \<Rightarrow> do {
            saved \<leftarrow> store_Save (dkStore d1) state1;
            (case saved of
               Inl e \<Rightarrow> Some (d1, Inl (HsSave e))
             | Inr db \<Rightarrow> Some (d1\<lparr>dkStore := db\<rparr>, Inr (state1, resHash)))
          })
     }
   }"

section \<open>Replaying blocks\<close>

text \<open>\<open>ExecBlock\<close> runs a block on the application and commits it, without touching the state store.\<close>

definition ExecBlock :: "'a Handshaker \<Rightarrow> 'a persisted \<Rightarrow> Block \<Rightarrow> ('a persisted \<times> bytes) option" where
  "ExecBlock H d block = do {
     (a1, responses) \<leftarrow> execBlockOnProxyApp (hE H) (hK H) (b_app (hB H)) (dkStore d) (dkApp d) block (gdInitialHeight (hGenDoc H));
     let (a2, hash) = a_Commit (b_app (hB H)) a1;
     Some (d\<lparr>dkApp := a2\<rparr>, hash)
   }"

text \<open>The loop of \<open>replayBlocks\<close> over the heights; the hash an earlier block of the loop left must be the one in the next block.\<close>

fun execBlocks :: "'a Handshaker \<Rightarrow> int list \<Rightarrow> 'a persisted \<Rightarrow> bytes \<Rightarrow> ('a persisted \<times> bytes) option" where
  "execBlocks H [] d appHash = Some (d, appHash)"
| "execBlocks H (i # is) d appHash = do {
     nb \<leftarrow> LoadBlock (hE H) (hK H) (hStore H) i;
     block \<leftarrow> nb;
     if 0 < length appHash \<and> appHash \<noteq> hAppHash (bHeader block) then None
     else do {
       (d1, hash) \<leftarrow> ExecBlock H d block;
       execBlocks H is (d1\<lparr>dkBlocks := dkBlocks d1 + 1\<rparr>) hash
     }
   }"

text \<open>\<open>ApplyBlock\<close> of an executor whose pool is \<open>emptyMempool\<close>: its \<open>Update\<close> does nothing.\<close>

definition replayApply :: "env \<Rightarrow> codec \<Rightarrow> 'b app \<Rightarrow> dbStore \<Rightarrow> 'b \<Rightarrow> State \<Rightarrow> BlockID \<Rightarrow> Block \<Rightarrow> ('b \<times> dbStore \<times> (apply_error + State)) option" where
  "replayApply E K app db a state blockID block = do {
     err \<leftarrow> validateBlock E state block;
     (case err of Some e \<Rightarrow> Some (a, db, Inl (ErrInvalidBlock e)) | None \<Rightarrow> do {
       (a1, responses) \<leftarrow> execBlockOnProxyApp E K app db a block (stInitialHeight state);
       let db1 = SaveABCIResponses db (hHeight (bHeader block)) responses;
       (case validateValidatorUpdates (arValidatorUpdates responses) (stConsensusParams state) of
          Some e \<Rightarrow> Some (a1, db1, Inl (ErrValidatorUpdates e))
        | None \<Rightarrow> do {
            r \<leftarrow> pb2sr_ValidatorUpdates E (arValidatorUpdates responses);
            (case r of Inl _ \<Rightarrow> Some (a1, db1, Inl ErrUpdateKeys) | Inr updates \<Rightarrow> do {
              r2 \<leftarrow> updateState E state blockID (bHeader block) updates;
              (case r2 of Inl e \<Rightarrow> Some (a1, db1, Inl (ErrUpdateState e)) | Inr state1 \<Rightarrow> do {
                let (a2, appHash) = a_Commit app a1;
                _ \<leftarrow> TxPreCheck state1;
                let state2 = state1\<lparr>stAppHash := appHash\<rparr>;
                saved \<leftarrow> store_Save db1 state2;
                Some (case saved of Inl e \<Rightarrow> (a2, db1, Inl (ErrSave e)) | Inr db2 \<Rightarrow> (a2, db2, Inr state2))
              })
            })
          })
     })
   }"

text \<open>\<open>mockProxyApp\<close> answers with the responses of an earlier execution; its state is the number of transactions delivered.
  More transactions than responses panic.\<close>

definition mockProxyApp :: "bytes \<Rightarrow> ABCIResponses \<Rightarrow> nat app" where
  "mockProxyApp appHash rs = \<lparr>a_CheckTx = (\<lambda>n tx recheck. (n, 0)), a_BeginBlock = (\<lambda>n hash header r votes. n),
     a_DeliverTx = (\<lambda>n tx. (Suc n, if n < length (arDeliverTxs rs) then arDeliverTxs rs ! n else \<lparr>drCode = 0, drData = []\<rparr>)),
     a_EndBlock = (\<lambda>n height. (0, arValidatorUpdates rs)), a_Commit = (\<lambda>n. (n, appHash))\<rparr>"

definition mockPanics :: "env \<Rightarrow> State \<Rightarrow> Block \<Rightarrow> ABCIResponses \<Rightarrow> bool" where
  "mockPanics E state block rs \<longleftrightarrow> validateBlock E state block = Some None \<and> length (arDeliverTxs rs) < length (dTxs (bData block))"

definition replayBlock :: "'a Handshaker \<Rightarrow> 'a persisted \<Rightarrow> State \<Rightarrow> int \<Rightarrow> ('a, State) hs_result" where
  "replayBlock H d state height = do {
     nb \<leftarrow> LoadBlock (hE H) (hK H) (hStore H) height;
     nm \<leftarrow> LoadBlockMeta (hE H) (hK H) (hStore H) height;
     meta \<leftarrow> nm;
     block \<leftarrow> nb;
     (a, db, r) \<leftarrow> replayApply (hE H) (hK H) (b_app (hB H)) (dkStore d) (dkApp d) state (bmBlockID meta) block;
     Some (case r of Inl e \<Rightarrow> (d\<lparr>dkApp := a, dkStore := db\<rparr>, Inl (HsApply e))
       | Inr st \<Rightarrow> (d\<lparr>dkApp := a, dkStore := db, dkBlocks := dkBlocks d + 1\<rparr>, Inr st))
   }"

text \<open>The same with the mock application in the place of the real one.\<close>

definition replayBlockMock :: "'a Handshaker \<Rightarrow> 'a persisted \<Rightarrow> State \<Rightarrow> int \<Rightarrow> bytes \<Rightarrow> ABCIResponses \<Rightarrow> ('a, State) hs_result" where
  "replayBlockMock H d state height appHash rs = do {
     nb \<leftarrow> LoadBlock (hE H) (hK H) (hStore H) height;
     nm \<leftarrow> LoadBlockMeta (hE H) (hK H) (hStore H) height;
     meta \<leftarrow> nm;
     block \<leftarrow> nb;
     if mockPanics (hE H) state block rs then None
     else do {
       (_, db, r) \<leftarrow> replayApply (hE H) (hK H) (mockProxyApp appHash rs) (dkStore d) 0 state (bmBlockID meta) block;
       Some (case r of Inl e \<Rightarrow> (d\<lparr>dkStore := db\<rparr>, Inl (HsApply e))
         | Inr st \<Rightarrow> (d\<lparr>dkStore := db, dkBlocks := dkBlocks d + 1\<rparr>, Inr st))
     }
   }"

definition assertAppHash :: "bytes \<Rightarrow> State \<Rightarrow> 'a persisted \<Rightarrow> ('a, bytes) hs_result" where
  "assertAppHash appHash state d = (if appHash = stAppHash state then Some (d, Inr appHash) else None)"

definition replayBlocks :: "'a Handshaker \<Rightarrow> 'a persisted \<Rightarrow> State \<Rightarrow> int \<Rightarrow> int \<Rightarrow> bool \<Rightarrow> ('a, bytes) hs_result" where
  "replayBlocks H d state appBlockHeight storeBlockHeight mutateState = do {
     let finalBlock = (if mutateState then sub64 storeBlockHeight 1 else storeBlockHeight);
     let firstBlock = (if add64 appBlockHeight 1 = 1 then stInitialHeight state else add64 appBlockHeight 1);
     (d1, appHash) \<leftarrow> execBlocks H [firstBlock..finalBlock] d [];
     if mutateState then do {
       (d2, r) \<leftarrow> replayBlock H d1 state storeBlockHeight;
       (case r of Inl e \<Rightarrow> Some (d2, Inl e) | Inr st \<Rightarrow> assertAppHash (stAppHash st) st d2)
     }
     else assertAppHash appHash state d1
   }"

definition LoadABCIResponses :: "dbStore \<Rightarrow> int \<Rightarrow> hs_error + ABCIResponses" where
  "LoadABCIResponses db height = (case dbResponses db height of None \<Rightarrow> Inl ErrNoABCIResponsesForHeight | Some rs \<Rightarrow> Inr rs)"

text \<open>The cases after the genesis call, on the heights of the application, the block store and the state.\<close>

definition replayHeights :: "'a Handshaker \<Rightarrow> 'a persisted \<Rightarrow> State \<Rightarrow> bytes \<Rightarrow> int \<Rightarrow> int \<Rightarrow> ('a, bytes) hs_result" where
  "replayHeights H d state appHash appBlockHeight stateBlockHeight =
     (let storeBlockBase = bsBase (hStore H); storeBlockHeight = bsHeight (hStore H);
          hash_of = map_option (\<lambda>(d, r). (d, case r of Inl e \<Rightarrow> Inl e | Inr st \<Rightarrow> Inr (stAppHash st))) in
      if storeBlockHeight = 0 then assertAppHash appHash state d
      else if appBlockHeight = 0 \<and> stInitialHeight state < storeBlockBase then Some (d, Inl (ErrAppBlockHeightTooLow appBlockHeight storeBlockBase))
      else if 0 < appBlockHeight \<and> appBlockHeight < sub64 storeBlockBase 1 then Some (d, Inl (ErrAppBlockHeightTooLow appBlockHeight storeBlockBase))
      else if storeBlockHeight < appBlockHeight then Some (d, Inl (ErrAppBlockHeightTooHigh storeBlockHeight appBlockHeight))
      else if storeBlockHeight < stateBlockHeight then None
      else if add64 stateBlockHeight 1 < storeBlockHeight then None
      else if storeBlockHeight = stateBlockHeight then
        (if appBlockHeight < storeBlockHeight then replayBlocks H d state appBlockHeight storeBlockHeight False
         else if appBlockHeight = storeBlockHeight then assertAppHash appHash state d
         else None)
      else if storeBlockHeight = add64 stateBlockHeight 1 then
        (if appBlockHeight < stateBlockHeight then replayBlocks H d state appBlockHeight storeBlockHeight True
         else if appBlockHeight = stateBlockHeight then hash_of (replayBlock H d state storeBlockHeight)
         else if appBlockHeight = storeBlockHeight then
           (case LoadABCIResponses (dkStore d) storeBlockHeight of
              Inl e \<Rightarrow> Some (d, Inl e)
            | Inr rs \<Rightarrow> hash_of (replayBlockMock H d state storeBlockHeight appHash rs))
         else None)
      else None)"

definition ReplayBlocks :: "'a Handshaker \<Rightarrow> 'a persisted \<Rightarrow> State \<Rightarrow> bytes \<Rightarrow> int \<Rightarrow> ('a, bytes) hs_result" where
  "ReplayBlocks H d state appHash appBlockHeight = do {
     (d1, r) \<leftarrow> (if appBlockHeight = 0 then sendInitChain H d state else Some (d, Inr (state, appHash)));
     (case r of
        Inl e \<Rightarrow> Some (d1, Inl e)
      | Inr (state1, hash) \<Rightarrow> replayHeights H d1 state1 hash appBlockHeight (stLastBlockHeight state))
   }"

definition Handshake :: "'a Handshaker \<Rightarrow> 'a persisted \<Rightarrow> State \<Rightarrow> ('a, bytes) hs_result" where
  "Handshake H d state =
     (let (blockHeight, appHash) = b_Info (hB H) (dkApp d) in
      if blockHeight < 0 then Some (d, Inl HsNegativeHeight)
      else ReplayBlocks H d state appHash blockHeight)"

text \<open>The state a node starts with: loaded or made from the genesis document, then the handshake, then loaded again.\<close>

definition bootState :: "int \<Rightarrow> 'a Handshaker \<Rightarrow> 'a persisted \<Rightarrow> ('a, State option) hs_result" where
  "bootState now H d = do {
     r \<leftarrow> LoadFromDBOrGenesisDoc (hE H) now (dkStore d) (GenesisDoc.truncate (hGenDoc H));
     (case r of
        Inl _ \<Rightarrow> Some (d, Inl HsLoad)
      | Inr state \<Rightarrow> do {
          (d1, r1) \<leftarrow> Handshake H d state;
          (case r1 of
             Inl e \<Rightarrow> Some (d1, Inl e)
           | Inr _ \<Rightarrow> Some (d1, case store_Load (dkStore d1) of Inl _ \<Rightarrow> Inl HsLoad | Inr s \<Rightarrow> Inr s))
        })
   }"

section \<open>Executing a block again\<close>

lemma loads_responses [simp]:
  "store_Load (SaveABCIResponses db h rs) = store_Load db" "loadValidatorsInfo (SaveABCIResponses db h rs) = loadValidatorsInfo db"
  by (simp_all add: store_Load_def SaveABCIResponses_def loadValidatorsInfo_def fun_eq_iff)

lemma LoadValidators_responses [simp]: "LoadValidators E (SaveABCIResponses db h rs) height = LoadValidators E db height"
  unfolding LoadValidators_def loads_responses ..

lemma exec_responses [simp]: "execBlockOnProxyApp E K app (SaveABCIResponses db h rs) a b i = execBlockOnProxyApp E K app db a b i"
  unfolding execBlockOnProxyApp_def getBeginBlockValidatorInfo_def LoadValidators_responses ..

lemma SaveABCIResponses_again [simp]: "SaveABCIResponses (SaveABCIResponses db h rs) h rs = SaveABCIResponses db h rs"
  by (simp add: SaveABCIResponses_def)

text \<open>A block that \<open>ApplyBlock\<close> has applied is applied in the same way by the replay, on any application that gives the same responses
  and the same hash.\<close>

lemma ApplyBlock_parts:
  assumes "ApplyBlock E K app ex st bid b = Some (ex', st', None)"
  obtains a1 rs a2 hash updates st1 where "validateBlock E st b = Some None"
    "execBlockOnProxyApp E K app (exStore ex) (exApp ex) b (stInitialHeight st) = Some (a1, rs)" "a_Commit app a1 = (a2, hash)"
    "validateValidatorUpdates (arValidatorUpdates rs) (stConsensusParams st) = None" "pb2sr_ValidatorUpdates E (arValidatorUpdates rs) = Some (Inr updates)"
    "updateState E st bid (bHeader b) updates = Some (Inr st1)" "TxPreCheck st1 \<noteq> None" "st' = st1\<lparr>stAppHash := hash\<rparr>"
    "store_Save (SaveABCIResponses (exStore ex) (hHeight (bHeader b)) rs) st' = Some (Inr (exStore ex'))"
proof -
  obtain a1 rs updates st1 ex2 hash where f: "validateBlock E st b = Some None"
    "execBlockOnProxyApp E K app (exStore ex) (exApp ex) b (stInitialHeight st) = Some (a1, rs)"
    "validateValidatorUpdates (arValidatorUpdates rs) (stConsensusParams st) = None" "pb2sr_ValidatorUpdates E (arValidatorUpdates rs) = Some (Inr updates)"
    "updateState E st bid (bHeader b) updates = Some (Inr st1)"
    "exec_Commit E app (ex\<lparr>exApp := a1, exStore := SaveABCIResponses (exStore ex) (hHeight (bHeader b)) rs\<rparr>) st1 b (arDeliverTxs rs) = Some (ex2, hash)"
    and g: "store_Save (exStore ex2) (st1\<lparr>stAppHash := hash\<rparr>) = Some (Inr (exStore ex'))" "st' = st1\<lparr>stAppHash := hash\<rparr>"
    using assms unfolding ApplyBlock_def by (auto simp: bind_eq_Some_conv Let_def case_sum_eq case_option_eq split: prod.split_asm)
  obtain a2 where c: "a_Commit app a1 = (a2, hash)" "exStore ex2 = SaveABCIResponses (exStore ex) (hHeight (bHeader b)) rs" "TxPreCheck st1 \<noteq> None"
    using f(6) by (auto simp: exec_Commit_def Let_def bind_eq_Some_conv split: prod.splits)
  show ?thesis by (rule that[OF f(1,2) c(1) f(3-5) c(3) g(2)]) (use g c(2) in simp)
qed

lemma ApplyBlock_replays:
  assumes "ApplyBlock E K app ex st bid b = Some (ex', st', None)"
    and "execBlockOnProxyApp E K app (exStore ex) (exApp ex) b (stInitialHeight st) = Some (a1, rs)"
    and "execBlockOnProxyApp E K app' db' a' b (stInitialHeight st) = Some (x, rs)" "snd (a_Commit app a1) = snd (a_Commit app' x)"
    and "store_Save (SaveABCIResponses db' (hHeight (bHeader b)) rs) st' = store_Save (SaveABCIResponses (exStore ex) (hHeight (bHeader b)) rs) st'"
  shows "replayApply E K app' db' a' st bid b = Some (fst (a_Commit app' x), exStore ex', Inr st')"
  by (rule ApplyBlock_parts[OF assms(1)]) (use assms(2-) in \<open>auto simp: replayApply_def Let_def split: prod.splits\<close>)

lemma deliver_mock:
  assumes "n + length txs = length (arDeliverTxs rs)"
  shows "deliverTxs (mockProxyApp hash rs) n txs = (n + length txs, drop n (arDeliverTxs rs))"
  using assms
proof (induction txs arbitrary: n)
  case (Cons tx txs)
  then have n: "n < length (arDeliverTxs rs)" by simp
  then show ?case using Cons.IH[of "Suc n"] Cons.prems Cons_nth_drop_Suc[OF n] by (simp add: mockProxyApp_def Let_def)
qed simp

lemma deliver_length: "deliverTxs app a txs = (a', rs) \<Longrightarrow> length rs = length txs"
  by (induction txs arbitrary: a a' rs) (auto simp: Let_def split: prod.splits)

text \<open>The mock application repeats the responses it was made with.\<close>

lemma exec_mock:
  assumes "execBlockOnProxyApp E K app db a b i = Some (a1, rs)"
  shows "execBlockOnProxyApp E K (mockProxyApp hash rs) db 0 b i = Some (0, rs)" "length (arDeliverTxs rs) = length (dTxs (bData b))"
proof -
  obtain r votes h where v: "getBeginBlockValidatorInfo E db b i = Some (r, votes)" "block_Hash E K (Some b) = Some h"
    using assms by (auto simp: execBlockOnProxyApp_def bind_eq_Some_conv)
  obtain x y z where "deliverTxs app (a_BeginBlock app a x (bHeader b) r votes) (dTxs (bData b)) = (y, z)" "arDeliverTxs rs = z"
    using assms v by (cases h) (auto simp: execBlockOnProxyApp_def Let_def split: prod.splits)
  then show l: "length (arDeliverTxs rs) = length (dTxs (bData b))" using deliver_length by metis
  then have "deliverTxs (mockProxyApp hash rs) 0 (dTxs (bData b)) = (length (dTxs (bData b)), arDeliverTxs rs)" using deliver_mock[of 0] by simp
  then show "execBlockOnProxyApp E K (mockProxyApp hash rs) db 0 b i = Some (0, rs)"
    using v by (cases h) (simp add: execBlockOnProxyApp_def, simp add: mockProxyApp_def)
qed

section \<open>States are read back\<close>

lemma vals_roundtrip: "vals_ToProto (Some v) = Some pv \<Longrightarrow> vals_FromProto pv = Some w \<Longrightarrow> w = v"
  by (auto simp: vals_ToProto_def vals_FromProto_def val_FromProto_def vals_IsNilOrEmpty_def Let_def bind_eq_Some_conv split: if_splits option.splits)

lemma nvals_roundtrip: "vals_ToProto v = Some pv \<Longrightarrow> vals_FromProto pv = Some w \<Longrightarrow> Some w = v"
proof (cases v)
  case None
  moreover assume "vals_ToProto v = Some pv" "vals_FromProto pv = Some w"
  ultimately show ?thesis by (auto simp: vals_ToProto_def vals_IsNilOrEmpty_def vals_FromProto_def val_FromProto_def)
qed (use vals_roundtrip in blast)

lemma state_roundtrip:
  assumes "state_ToProto st = Some sm" "StateFromProto sm = Some s" "1 \<le> stLastBlockHeight st"
  shows "s = st"
proof -
  obtain vals nVals lVals where p: "vals_ToProto (Some (stValidators st)) = Some vals" "vals_ToProto (stNextValidators st) = Some nVals"
    "vals_ToProto (Some (stLastValidators st)) = Some lVals" "sm = st\<lparr>stValidators := vals, stNextValidators := Some nVals, stLastValidators := lVals\<rparr>"
    using assms(1,3) by (auto simp: state_ToProto_def bind_eq_Some_conv)
  obtain bi vals' nVals' lVals' where q: "BlockIDFromProto (stLastBlockID st) = Some bi" "vals_FromProto vals = Some vals'" "vals_FromProto nVals = Some nVals'"
    "vals_FromProto lVals = Some lVals'" "s = sm\<lparr>stLastBlockID := bi, stValidators := vals', stNextValidators := Some nVals', stLastValidators := lVals'\<rparr>"
    using assms(2,3) p(4) by (auto simp: StateFromProto_def bind_eq_Some_conv)
  have "bi = stLastBlockID st" using q(1) by (auto simp: BlockIDFromProto_eq split: if_splits)
  moreover have "vals' = stValidators st" "lVals' = stLastValidators st" using vals_roundtrip p q by blast+
  moreover have "Some nVals' = stNextValidators st" using nvals_roundtrip p(2) q(3) by blast
  ultimately show ?thesis using p(4) q(5) by simp
qed

lemma saved_state_loads:
  assumes "store_Save db st = Some (Inr db')" "store_Load db' \<noteq> Inl WrongStoredState" "1 \<le> stLastBlockHeight st"
  shows "store_Load db' = Inr (Some st)"
proof -
  obtain sm where sm: "state_ToProto st = Some sm" "dbState db' = Some sm"
    using assms(1) by (auto simp: store_Save_def Let_def split: sum.splits if_splits)
  then show ?thesis using assms(2,3) state_roundtrip[OF sm(1)] by (auto simp: store_Load_def split: option.splits)
qed

section \<open>Recovery after a crash\<close>

text \<open>Where a node may stop while it applies a block it has stored: before the application has committed the block, with the
  responses saved or not; after the commit, with the validators and the parameters of the next heights written or not; after the
  state was saved. \<open>Save\<close> writes in this order, the state last, but only the last write is synchronous, so any of the earlier ones
  may be missing. What the application did since its last commit is lost.\<close>

datatype crash = BeforeCommit bool | AfterCommit bool bool | AfterSave

definition halfSaved :: "bool \<Rightarrow> bool \<Rightarrow> dbStore \<Rightarrow> dbStore \<Rightarrow> dbStore" where
  "halfSaved vals params db db' =
     db\<lparr>dbValidators := (if vals then dbValidators db' else dbValidators db), dbParams := (if params then dbParams db' else dbParams db)\<rparr>"

definition onDisk :: "env \<Rightarrow> codec \<Rightarrow> 'a app \<Rightarrow> 'a BlockExecutor \<Rightarrow> 'a BlockExecutor \<Rightarrow> State \<Rightarrow> Block \<Rightarrow> crash \<Rightarrow> (dbStore \<times> 'a) option" where
  "onDisk E K app ex ex' st b c = do {
     (a1, rs) \<leftarrow> execBlockOnProxyApp E K app (exStore ex) (exApp ex) b (stInitialHeight st);
     let saved = SaveABCIResponses (exStore ex) (hHeight (bHeader b)) rs;
     Some (case c of
         BeforeCommit responses \<Rightarrow> (if responses then saved else exStore ex, exApp ex)
       | AfterCommit vals params \<Rightarrow> (halfSaved vals params saved (exStore ex'), fst (a_Commit app a1))
       | AfterSave \<Rightarrow> (exStore ex', fst (a_Commit app a1)))
   }"

text \<open>An info never refers to a height above its own. Every \<open>Save\<close> keeps that.\<close>

definition infos_back :: "dbStore \<Rightarrow> bool" where
  "infos_back db \<longleftrightarrow> (\<forall>h v. dbValidators db h = Some v \<longrightarrow> viLastHeightChanged v \<le> h)"

lemma saveValidatorsInfo_writes:
  assumes "saveValidatorsInfo db h c vs = Inr db'"
  obtains v where "db' = db\<lparr>dbValidators := (dbValidators db)(h := Some v)\<rparr>" "viLastHeightChanged v \<le> h"
    "\<And>db2. saveValidatorsInfo db2 h c vs = Inr (db2\<lparr>dbValidators := (dbValidators db2)(h := Some v)\<rparr>)"
  by (rule that[of "\<lparr>viLastHeightChanged = c, viValidatorSet = (if h = c \<or> go_mod h valSetCheckpointInterval = 0 then vals_ToProto vs else None)\<rparr>"])
    (use assms in \<open>auto simp: saveValidatorsInfo_def split: if_splits option.splits\<close>)

lemma Save_keeps_infos:
  assumes "infos_back db" "store_Save db st = Some (Inr db')"
  shows "infos_back db'"
proof -
  have keep: "infos_back db2" if "saveValidatorsInfo db1 h c vs = Inr db2" "infos_back db1" for db1 db2 h c vs
    using that by (elim saveValidatorsInfo_writes) (auto simp: infos_back_def)
  show ?thesis using assms by (auto simp: store_Save_def Let_def infos_back_def[of db'] saveConsensusParamsInfo_def split: if_splits sum.splits
        dest!: keep) (auto simp: infos_back_def)
qed

text \<open>What \<open>Save\<close> writes after a block, apart from the state: one entry each, of heights that no block up to then reads.\<close>

lemma Save_writes:
  assumes "store_Save db st = Some (Inr db')" "0 < stLastBlockHeight st" "stLastBlockHeight st < MaxInt64"
  obtains v k where "dbValidators db' = (dbValidators db)(k := Some v)" "k < 0 \<or> stLastBlockHeight st < k" "dbResponses db' = dbResponses db"
    "\<And>db2. dbResponses db2 = dbResponses db \<Longrightarrow> dbValidators db2 \<in> {dbValidators db, dbValidators db'} \<Longrightarrow> dbParams db2 \<in> {dbParams db, dbParams db'} \<Longrightarrow>
       store_Save db2 st = Some (Inr db')"
proof -
  let ?h = "stLastBlockHeight st"
  have "?h = MaxInt64 - 1 \<or> in_range 64 (?h + 2)" using assms(2,3) by (auto simp: in_range_def MaxInt64_def)
  then have n: "add64 ?h 1 = ?h + 1" "?h + 1 \<noteq> 1" "add64 (?h + 1) 1 < 0 \<or> ?h < add64 (?h + 1) 1"
    using assms(2,3) by (auto simp: add64_def wrap_id in_range_def wrap_def MaxInt64_def)
  obtain db1 sm where s: "saveValidatorsInfo db (add64 (?h + 1) 1) (stLastHeightValidatorsChanged st) (stNextValidators st) = Inr db1" "state_ToProto st = Some sm"
    "db' = (saveConsensusParamsInfo db1 (?h + 1) (stConsensusParams st))\<lparr>dbState := Some sm\<rparr>"
    using assms n by (auto simp: store_Save_def Let_def split: sum.splits)
  from s(1) show ?thesis
  proof (cases rule: saveValidatorsInfo_writes)
    case (1 v)
    show ?thesis
      by (rule that[of "add64 (?h + 1) 1" v]) (use s 1 n in \<open>auto simp: store_Save_def Let_def saveConsensusParamsInfo_def\<close>)
  qed
qed

lemma LoadValidators_halfSaved:
  assumes ib: "infos_back db" and "store_Save db st = Some (Inr db')" "0 < h" "h = stLastBlockHeight st" "h < MaxInt64"
  shows "LoadValidators E (halfSaved vals params db db') (h - 1) = LoadValidators E db (h - 1)"
proof -
  have same: "loadValidatorsInfo (halfSaved vals params db db') k = loadValidatorsInfo db k" if "0 \<le> k" "k < h" for k
    by (rule Save_writes[OF assms(2)]) (use assms(3-) that in \<open>auto simp: loadValidatorsInfo_def halfSaved_def\<close>)
  have "0 \<le> lastStoredHeightFor (h - 1) (viLastHeightChanged v) \<and> lastStoredHeightFor (h - 1) (viLastHeightChanged v) < h"
    if "loadValidatorsInfo db (h - 1) = Some v" for v
  proof -
    have "dbValidators db (h - 1) = Some v" using that by (auto simp: loadValidatorsInfo_def bind_eq_Some_conv split: if_splits)
    then have "viLastHeightChanged v \<le> h - 1" using ib by (simp only: infos_back_def)
    moreover have "go_mod (h - 1) valSetCheckpointInterval = (h - 1) mod 100000" using assms(3) by (simp add: go_mod_nonneg valSetCheckpointInterval_def)
    moreover have m: "(h - 1) mod 100000 \<le> h - 1" "0 \<le> (h - 1) mod 100000" using zmod_le_nonneg_dividend[of "h - 1" 100000] assms(3) by simp_all
    moreover have "in_range 64 (h - 1 - (h - 1) mod 100000)" using m assms(5) unfolding in_range_def MaxInt64_def by simp
    then have "sub64 (h - 1) ((h - 1) mod 100000) = (h - 1) - (h - 1) mod 100000" by (simp add: sub64_def wrap_id)
    ultimately show ?thesis using assms(3) by (auto simp: lastStoredHeightFor_def)
  qed
  moreover have "store_Load (halfSaved vals params db db') = store_Load db" by (simp add: store_Load_def halfSaved_def)
  ultimately show ?thesis using same[of "h - 1"] same assms(3) by (auto simp: LoadValidators_def Let_def split: option.splits)
qed

lemma Load_or_genesis: "store_Load db = Inr (Some st) \<Longrightarrow> LoadFromDBOrGenesisDoc E now db g = Some (Inr st)"
  by (simp add: LoadFromDBOrGenesisDoc_def)

text \<open>The meta of a saved block names it the way the consensus machine does.\<close>

lemma SaveBlock_meta:
  assumes save: "SaveBlock E K bs (Some b) (Some ps) seen = Some bs'" and H: "\<And>bz. length (e_Sum E bz) = 32"
    and ok: "saveable E K b ps seen" and r: "in_range 64 (bsHeight bs)"
  shows "\<exists>m. LoadBlockMeta E K bs' (hHeight (bHeader b)) = Some (Some m) \<and> bmBlockID m = \<lparr>bidHash = header_Hash E K (bHeader b), bidParts = ps_Header (Some ps)\<rparr>"
proof -
  have "LoadBlock E K bs' (hHeight (bHeader b)) = Some (Some b)" using SaveBlock_filed(1)[OF assms] by (simp add: filed_def)
  then obtain m where m: "LoadBlockMeta E K bs' (hHeight (bHeader b)) = Some (Some m)" by (auto simp: LoadBlock_def bind_eq_Some_conv split: option.splits)
  have "bsDB bs' (calcBlockMetaKey (hHeight (bHeader b))) =
       Some (MetaEntry \<lparr>bmBlockID = \<lparr>bidHash = header_Hash E K (bHeader b), bidParts = ps_Header (Some ps)\<rparr>, bmBlockSize = block_Size K b,
         bmHeader = bHeader b, bmNumTxs = int (length (dTxs (bData b)))\<rparr>)" by (rule SaveBlock_db[OF assms])
  then show ?thesis using m
    by (auto simp: LoadBlockMeta_def BlockMetaFromProto_def bind_eq_Some_conv Let_def BlockIDFromProto_eq split: if_splits)
qed

text \<open>What the handshake relies on of an application: \<open>Info\<close> reports its last commit.\<close>

definition reports_commit :: "'a Handshaker \<Rightarrow> 'a \<Rightarrow> int \<Rightarrow> bytes \<Rightarrow> bool" where
  "reports_commit H a height hash \<longleftrightarrow> b_Info (hB H) a = (height, hash)"

lemma store_after_save:
  assumes "bs_run E K bs saved" "SaveBlock E K bs (Some b) (Some ps) seen = Some bs'" "saveable E K b ps seen" "\<And>bz. length (e_Sum E bz) = 32"
  shows "bsHeight bs' = hHeight (bHeader b)" "0 < hHeight (bHeader b)" "0 < bsBase bs'" "bsBase bs' \<le> hHeight (bHeader b)"
    "LoadBlock E K bs' (hHeight (bHeader b)) = Some (Some b)"
    "\<exists>m. LoadBlockMeta E K bs' (hHeight (bHeader b)) = Some (Some m) \<and> bmBlockID m = \<lparr>bidHash = header_Hash E K (bHeader b), bidParts = ps_Header (Some ps)\<rparr>"
proof -
  have inv: "bs_inv E K bs saved" using bs_run_inv[OF assms(1)] assms(4) by blast
  then have r: "in_range 64 (bsHeight bs)" by (simp add: bs_inv_def)
  show "LoadBlock E K bs' (hHeight (bHeader b)) = Some (Some b)" using SaveBlock_filed(1)[OF assms(2,4,3) r] by (simp add: filed_def)
  show "\<exists>m. LoadBlockMeta E K bs' (hHeight (bHeader b)) = Some (Some m) \<and> bmBlockID m = \<lparr>bidHash = header_Hash E K (bHeader b), bidParts = ps_Header (Some ps)\<rparr>"
    by (rule SaveBlock_meta[OF assms(2,4,3) r])
  have "bs_inv E K bs' ((b, seen) # saved)" using bs_inv_save[OF inv assms(3,2)] assms(4) by blast
  then show "0 < bsBase bs'" "bsBase bs' \<le> hHeight (bHeader b)" using bs_inv_height[of E K bs' "(b, seen) # saved" b seen] by (simp_all add: bs_inv_def)
  show "bsHeight bs' = hHeight (bHeader b)" "0 < hHeight (bHeader b)" by (rule SaveBlock_db[OF assms(2,4,3) r], assumption)+
qed

text \<open>The situation of a crash, with what the handshake finds.\<close>

definition crashed :: "'a Handshaker \<Rightarrow> BlockStore \<Rightarrow> (Block \<times> Reply) list \<Rightarrow> Block \<Rightarrow> PartSet \<Rightarrow> Reply \<Rightarrow> 'a BlockExecutor \<Rightarrow> 'a BlockExecutor \<Rightarrow>
    State \<Rightarrow> State \<Rightarrow> 'a \<Rightarrow> ABCIResponses \<Rightarrow> bool" where
  "crashed H bs blocks b ps seen ex ex' st st' a1 rs \<longleftrightarrow>
     bs_run (hE H) (hK H) bs blocks \<and> SaveBlock (hE H) (hK H) bs (Some b) (Some ps) seen = Some (hStore H) \<and>
     saveable (hE H) (hK H) b ps seen \<and> (\<forall>bz. length (e_Sum (hE H) bz) = 32) \<and>
     ApplyBlock (hE H) (hK H) (b_app (hB H)) ex st
      \<lparr>bidHash = header_Hash (hE H) (hK H) (bHeader b), bidParts = ps_Header (Some ps)\<rparr> b = Some (ex', st', None) \<and>
     execBlockOnProxyApp (hE H) (hK H) (b_app (hB H)) (exStore ex) (exApp ex) b (stInitialHeight st) = Some (a1, rs) \<and>
     store_Load (exStore ex) = Inr (Some st) \<and> store_Load (exStore ex') \<noteq> Inl WrongStoredState \<and>
     hHeight (bHeader b) = stLastBlockHeight st + 1 \<and> hHeight (bHeader b) < MaxInt64 \<and> infos_back (exStore ex)"

lemma crashedD:
  assumes "crashed H bs blocks b ps seen ex ex' st st' a1 rs"
  shows "bs_run (hE H) (hK H) bs blocks" "SaveBlock (hE H) (hK H) bs (Some b) (Some ps) seen = Some (hStore H)" "saveable (hE H) (hK H) b ps seen"
    "\<And>bz. length (e_Sum (hE H) bz) = 32"
    "ApplyBlock (hE H) (hK H) (b_app (hB H)) ex st
      \<lparr>bidHash = header_Hash (hE H) (hK H) (bHeader b), bidParts = ps_Header (Some ps)\<rparr> b = Some (ex', st', None)"
    "execBlockOnProxyApp (hE H) (hK H) (b_app (hB H)) (exStore ex) (exApp ex) b (stInitialHeight st) = Some (a1, rs)"
    "store_Load (exStore ex) = Inr (Some st)" "store_Load (exStore ex') \<noteq> Inl WrongStoredState" "hHeight (bHeader b) = stLastBlockHeight st + 1"
    "hHeight (bHeader b) < MaxInt64" "infos_back (exStore ex)"
  using assms by (simp_all add: crashed_def)

lemma crash_heights:
  assumes C: "crashed H bs blocks b ps seen ex ex' st st' a1 rs"
  shows "add64 (stLastBlockHeight st) 1 = hHeight (bHeader b)" "sub64 (bsBase (hStore H)) 1 < hHeight (bHeader b)"
  "\<not> stLastBlockHeight st < sub64 (bsBase (hStore H)) 1" "bsHeight (hStore H) = hHeight (bHeader b)" "0 < hHeight (bHeader b)" "0 < bsBase (hStore H)"
proof -
  note S = store_after_save[OF crashedD(1-4)[OF C]]
  show "bsHeight (hStore H) = hHeight (bHeader b)" "0 < hHeight (bHeader b)" "0 < bsBase (hStore H)" by (rule S)+
  show "add64 (stLastBlockHeight st) 1 = hHeight (bHeader b)" using crashedD(3,9)[OF C] by (simp add: saveable_def add64_def wrap_id)
  show "sub64 (bsBase (hStore H)) 1 < hHeight (bHeader b)" "\<not> stLastBlockHeight st < sub64 (bsBase (hStore H)) 1"
    using S(3,4) crashedD(3,9)[OF C] by (auto simp: saveable_def sub64_def wrap_id in_range_def)
qed

lemma crash_applied:
  assumes C: "crashed H bs blocks b ps seen ex ex' st st' a1 rs"
  shows "snd (a_Commit (b_app (hB H)) a1) = stAppHash st'" "stLastBlockHeight st' = hHeight (bHeader b)" "store_Load (exStore ex') = Inr (Some st')"
proof -
  show h: "stLastBlockHeight st' = hHeight (bHeader b)" by (rule ApplyBlock_ok(2)[OF crashedD(5)[OF C]])
  show "snd (a_Commit (b_app (hB H)) a1) = stAppHash st'" by (rule ApplyBlock_parts[OF crashedD(5)[OF C]]) (use crashedD(6)[OF C] in auto)
  show "store_Load (exStore ex') = Inr (Some st')" by (rule ApplyBlock_parts[OF crashedD(5)[OF C]]) (use saved_state_loads crashedD(8)[OF C] h crash_heights(5)[OF C] in simp)
qed

lemma replay_real:
  assumes C: "crashed H bs blocks b ps seen ex ex' st st' a1 rs"
    and "db = exStore ex \<or> db = SaveABCIResponses (exStore ex) (hHeight (bHeader b)) rs"
  shows "replayBlock H \<lparr>dkStore = db, dkApp = exApp ex, dkBlocks = n\<rparr> st (hHeight (bHeader b)) =
    Some (\<lparr>dkStore = exStore ex', dkApp = fst (a_Commit (b_app (hB H)) a1), dkBlocks = n + 1\<rparr>, Inr st')"
proof -
  have "replayApply (hE H) (hK H) (b_app (hB H)) db (exApp ex) st \<lparr>bidHash = header_Hash (hE H) (hK H) (bHeader b), bidParts = ps_Header (Some ps)\<rparr> b =
      Some (fst (a_Commit (b_app (hB H)) a1), exStore ex', Inr st')"
    by (rule ApplyBlock_replays[OF crashedD(5,6)[OF C]]) (use assms(2) crashedD(6)[OF C] in auto)
  then show ?thesis using store_after_save(5,6)[OF crashedD(1-4)[OF C]] by (auto simp: replayBlock_def)
qed

text \<open>A half saved store is read and completed like the one before \<open>Save\<close>.\<close>

lemma crash_half:
  assumes C: "crashed H bs blocks b ps seen ex ex' st st' a1 rs"
    and db: "db = halfSaved vals params (SaveABCIResponses (exStore ex) (hHeight (bHeader b)) rs) (exStore ex')"
  shows "store_Load db = Inr (Some st)" "LoadABCIResponses db (hHeight (bHeader b)) = Inr rs"
    "execBlockOnProxyApp (hE H) (hK H) app db x b (stInitialHeight st) = execBlockOnProxyApp (hE H) (hK H) app (exStore ex) x b (stInitialHeight st)"
    "store_Save (SaveABCIResponses db (hHeight (bHeader b)) rs) st' = Some (Inr (exStore ex'))"
proof -
  let ?saved = "SaveABCIResponses (exStore ex) (hHeight (bHeader b)) rs"
  have save: "store_Save ?saved st' = Some (Inr (exStore ex'))" by (rule ApplyBlock_parts[OF crashedD(5)[OF C]]) (use crashedD(6)[OF C] in auto)
  have h: "0 < stLastBlockHeight st'" "stLastBlockHeight st' < MaxInt64" "hHeight (bHeader b) = stLastBlockHeight st'"
    using crash_applied(2)[OF C] crash_heights(5)[OF C] crashedD(10)[OF C] by simp_all
  show "store_Load db = Inr (Some st)" using crashedD(7)[OF C] by (simp add: db store_Load_def halfSaved_def SaveABCIResponses_def)
  show "LoadABCIResponses db (hHeight (bHeader b)) = Inr rs" by (simp add: db LoadABCIResponses_def SaveABCIResponses_def halfSaved_def)
  have "infos_back ?saved" using crashedD(11)[OF C] by (simp add: infos_back_def SaveABCIResponses_def)
  then have "LoadValidators (hE H) db (hHeight (bHeader b) - 1) = LoadValidators (hE H) (exStore ex) (hHeight (bHeader b) - 1)"
    using LoadValidators_halfSaved[OF _ save] h by (simp add: db)
  moreover have "sub64 (hHeight (bHeader b)) 1 = hHeight (bHeader b) - 1" using h by (auto simp: sub64_def wrap_id in_range_def MaxInt64_def)
  ultimately have load: "LoadValidators (hE H) db (sub64 (hHeight (bHeader b)) 1) = LoadValidators (hE H) (exStore ex) (sub64 (hHeight (bHeader b)) 1)" by simp
  show "execBlockOnProxyApp (hE H) (hK H) app db x b (stInitialHeight st) = execBlockOnProxyApp (hE H) (hK H) app (exStore ex) x b (stInitialHeight st)"
    unfolding execBlockOnProxyApp_def getBeginBlockValidatorInfo_def load ..
  show "store_Save (SaveABCIResponses db (hHeight (bHeader b)) rs) st' = Some (Inr (exStore ex'))"
    by (rule Save_writes[OF save h(1,2)]) (auto simp: db halfSaved_def SaveABCIResponses_def)
qed

lemma replay_mock:
  assumes C: "crashed H bs blocks b ps seen ex ex' st st' a1 rs"
    and db: "db = halfSaved vals params (SaveABCIResponses (exStore ex) (hHeight (bHeader b)) rs) (exStore ex')"
  shows "replayBlockMock H \<lparr>dkStore = db, dkApp = a, dkBlocks = n\<rparr> st (hHeight (bHeader b)) (stAppHash st') rs =
    Some (\<lparr>dkStore = exStore ex', dkApp = a, dkBlocks = n + 1\<rparr>, Inr st')"
proof -
  let ?mock = "mockProxyApp (stAppHash st') rs"
  have save: "store_Save (SaveABCIResponses (exStore ex) (hHeight (bHeader b)) rs) st' = Some (Inr (exStore ex'))"
    by (rule ApplyBlock_parts[OF crashedD(5)[OF C]]) (use crashedD(6)[OF C] in auto)
  have "replayApply (hE H) (hK H) ?mock db 0 st
      \<lparr>bidHash = header_Hash (hE H) (hK H) (bHeader b), bidParts = ps_Header (Some ps)\<rparr> b = Some (fst (a_Commit ?mock 0), exStore ex', Inr st')"
    by (rule ApplyBlock_replays[OF crashedD(5,6)[OF C]])
      (use crash_applied(1)[OF C] exec_mock(1)[OF crashedD(6)[OF C]] crash_half(3)[OF C db, of ?mock 0] crash_half(4)[OF C db] save in \<open>simp_all add: mockProxyApp_def\<close>)
  moreover have "\<not> mockPanics (hE H) st b rs" using exec_mock(2)[OF crashedD(6)[OF C]] by (simp add: mockPanics_def)
  ultimately show ?thesis using store_after_save(5,6)[OF crashedD(1-4)[OF C]] by (auto simp: replayBlockMock_def)
qed

lemma crash_boots:
  assumes C: "crashed H bs blocks b ps seen ex ex' st st' a1 rs"
    and "onDisk (hE H) (hK H) (b_app (hB H)) ex ex' st b c = Some (db, a)"
    and "case c of BeforeCommit _ \<Rightarrow> 0 < stLastBlockHeight st \<and> reports_commit H a (stLastBlockHeight st) (stAppHash st)
           | _ \<Rightarrow> reports_commit H a (hHeight (bHeader b)) (stAppHash st')"
  shows "\<exists>n. bootState now H \<lparr>dkStore = db, dkApp = a, dkBlocks = 0\<rparr> =
    Some (\<lparr>dkStore = exStore ex', dkApp = fst (a_Commit (b_app (hB H)) a1), dkBlocks = n\<rparr>, Inr (Some st'))"
proof (cases c)
  case (BeforeCommit r)
  then have "db = (if r then SaveABCIResponses (exStore ex) (hHeight (bHeader b)) rs else exStore ex)" "a = exApp ex"
    using assms(2) crashedD(6)[OF C] by (auto simp: onDisk_def)
  then show ?thesis using assms(3) BeforeCommit crash_heights[OF C] crash_applied(3)[OF C] crashedD(7)[OF C] replay_real[OF C, of db 0] crashedD(9)[OF C]
    by (auto simp: bootState_def Load_or_genesis Handshake_def ReplayBlocks_def replayHeights_def reports_commit_def Let_def)
next
  case (AfterCommit vals params)
  then have db: "db = halfSaved vals params (SaveABCIResponses (exStore ex) (hHeight (bHeader b)) rs) (exStore ex')" "a = fst (a_Commit (b_app (hB H)) a1)"
    using assms(2) crashedD(6)[OF C] by (auto simp: onDisk_def)
  show ?thesis using assms(3) AfterCommit crash_heights[OF C] crash_applied(3)[OF C] crash_half(1,2)[OF C db(1)] replay_mock[OF C db(1), of a 0] crashedD(9)[OF C] db(2)
    by (auto simp: bootState_def Load_or_genesis Handshake_def ReplayBlocks_def replayHeights_def reports_commit_def Let_def)
next
  case AfterSave
  then have "db = exStore ex'" "a = fst (a_Commit (b_app (hB H)) a1)" using assms(2) crashedD(6)[OF C] by (auto simp: onDisk_def)
  then show ?thesis using assms(3) AfterSave crash_heights[OF C] crash_applied[OF C] crashedD(10)[OF C]
    by (auto simp: bootState_def Load_or_genesis Handshake_def ReplayBlocks_def replayHeights_def assertAppHash_def reports_commit_def Let_def add64_small in_range_def MaxInt64_def)
qed

text \<open>Property C9: a node that crashes while it applies a block it has stored comes up again with the state, the state store and the
  committed application it would have had without the crash, and the block is committed to the application once. This is for a block
  one above the last height of the state: if the crash is before the application has committed the block, a block after the first of
  the chain; if it is later, with any of the writes of the state store done, also the first block of a chain that starts at height one.
  The application must report its last commit. A first block above height one is the subject of C35.\<close>

theorem crash_is_recovered:
  fixes H :: "'a Handshaker"
  assumes "bs_run (hE H) (hK H) bs blocks" "SaveBlock (hE H) (hK H) bs (Some b) (Some ps) seen = Some (hStore H)" "saveable (hE H) (hK H) b ps seen"
    and "\<forall>bz. length (e_Sum (hE H) bz) = 32"
    and "ApplyBlock (hE H) (hK H) (b_app (hB H)) ex st \<lparr>bidHash = header_Hash (hE H) (hK H) (bHeader b), bidParts = ps_Header (Some ps)\<rparr> b = Some (ex', st', None)"
    and "store_Load (exStore ex) = Inr (Some st)" "store_Load (exStore ex') \<noteq> Inl WrongStoredState" "hHeight (bHeader b) = stLastBlockHeight st + 1"
    and "hHeight (bHeader b) < MaxInt64" "infos_back (exStore ex)" "onDisk (hE H) (hK H) (b_app (hB H)) ex ex' st b c = Some (db, a)"
    and "case c of BeforeCommit _ \<Rightarrow> 0 < stLastBlockHeight st \<and> reports_commit H a (stLastBlockHeight st) (stAppHash st)
           | _ \<Rightarrow> reports_commit H a (hHeight (bHeader b)) (stAppHash st')"
  shows "\<exists>d. bootState now H \<lparr>dkStore = db, dkApp = a, dkBlocks = 0\<rparr> = Some (d, Inr (Some st')) \<and>
    onDisk (hE H) (hK H) (b_app (hB H)) ex ex' st b AfterSave = Some (dkStore d, dkApp d)"
proof -
  obtain a1 rs where exec: "execBlockOnProxyApp (hE H) (hK H) (b_app (hB H)) (exStore ex) (exApp ex) b (stInitialHeight st) = Some (a1, rs)"
    using ApplyBlock_parts[OF assms(5)] by metis
  then have "crashed H bs blocks b ps seen ex ex' st st' a1 rs" using assms(1-10) by (simp add: crashed_def)
  from crash_boots[OF this assms(11,12)] show ?thesis using exec by (fastforce simp: onDisk_def)
qed

subsection \<open>A sample crash\<close>

definition crash_codec :: codec where
  "crash_codec = sample_codec\<lparr>k_blockDec := (\<lambda>b. if b = [3] then Some sample_first else None)\<rparr>"

definition crash_ex :: "nat BlockExecutor" where
  "crash_ex = sample_ex\<lparr>exStore := (exStore sample_ex)\<lparr>dbState := Some sample_state\<rparr>\<rparr>"

definition crash_id :: BlockID where
  "crash_id = \<lparr>bidHash = header_Hash sample_env crash_codec (bHeader sample_first), bidParts = ps_Header (Some store_parts)\<rparr>"

definition crash_next :: State where
  "crash_next = sample_state\<lparr>stLastBlockHeight := 1, stLastBlockID := crash_id, stLastBlockTime := 5, stLastValidators := sample_vset, stAppHash := []\<rparr>"

definition crash_responses :: ABCIResponses where
  "crash_responses = \<lparr>arDeliverTxs = replicate 2 \<lparr>drCode = 0, drData = []\<rparr>, arValidatorUpdates = []\<rparr>"

lemma crash_saveable: "saveable sample_env crash_codec sample_first store_parts store_reply"
proof -
  have "in_range 64 (hHeight (bHeader sample_first))" "ps_IsComplete store_parts" "length (setParts store_parts) = nat (setTotal store_parts)"
    "ValidateHash (setHash store_parts)" "ReplyFromProto store_reply = Inr store_reply" 
    "list_all (\<lambda>p. p \<noteq> None \<and> part_ValidateBasic (the p) = None) (setParts store_parts)"
    "Option.bind (k_blockDec crash_codec (concat (map (partBytes \<circ> the) (setParts store_parts)))) (BlockFromProto sample_env) = Some (Inr sample_first)"
    by code_simp+
  moreover have "fresh_block sample_first" by (simp add: fresh_block_def sample_first_def NewReply_def)
  ultimately show ?thesis by (auto simp: saveable_def list_all_iff)
qed

lemma crash_exec: "execBlockOnProxyApp sample_env crash_codec sample_app (exStore crash_ex) (exApp crash_ex) sample_first (stInitialHeight sample_state) =
   Some (2, crash_responses)" by code_simp

lemma crash_commit: "map_option snd (exec_Commit sample_env sample_app (crash_ex\<lparr>exApp := 2, exStore := SaveABCIResponses (exStore crash_ex) 1 crash_responses\<rparr>)
    crash_next sample_first (replicate 2 \<lparr>drCode = 0, drData = []\<rparr>)) = Some [9, 9]" by code_simp

lemma crash_save: "map_option (map_sum id store_Load) (store_Save (SaveABCIResponses (exStore crash_ex) 1 crash_responses) (crash_next\<lparr>stAppHash := [9, 9]\<rparr>)) =
    Some (Inr (Inr (Some (crash_next\<lparr>stAppHash := [9, 9]\<rparr>))))" by code_simp

lemma crash_apply:
  obtains ex' where "ApplyBlock sample_env crash_codec sample_app crash_ex sample_state crash_id sample_first = Some (ex', crash_next\<lparr>stAppHash := [9, 9]\<rparr>, None)"
    "store_Load (exStore ex') = Inr (Some (crash_next\<lparr>stAppHash := [9, 9]\<rparr>))"
proof -
  let ?ex1 = "crash_ex\<lparr>exApp := 2, exStore := SaveABCIResponses (exStore crash_ex) 1 crash_responses\<rparr>"
  have h: "hHeight (bHeader sample_first) = 1" "validateValidatorUpdates (arValidatorUpdates crash_responses) (stConsensusParams sample_state) = None"
    "pb2sr_ValidatorUpdates sample_env (arValidatorUpdates crash_responses) = Some (Inr [])" "arDeliverTxs crash_responses = replicate 2 \<lparr>drCode = 0, drData = []\<rparr>"
    by (simp_all add: sample_first_def crash_responses_def)
  have u: "updateState sample_env sample_state crash_id (bHeader sample_first) [] = Some (Inr crash_next)"
    by (simp add: updateState_def sample_state_def sample_primary crash_next_def sample_first_def)
  obtain ex2 where c: "exec_Commit sample_env sample_app ?ex1 crash_next sample_first (replicate 2 \<lparr>drCode = 0, drData = []\<rparr>) = Some (ex2, [9, 9])"
    using crash_commit by auto
  then have st: "exStore ex2 = SaveABCIResponses (exStore crash_ex) 1 crash_responses" by (auto simp: exec_Commit_def Let_def bind_eq_Some_conv split: prod.split_asm)
  obtain r where r: "store_Save (exStore ex2) (crash_next\<lparr>stAppHash := [9, 9]\<rparr>) = Some r" "map_sum id store_Load r = Inr (Inr (Some (crash_next\<lparr>stAppHash := [9, 9]\<rparr>)))"
    using crash_save st by auto
  then obtain db where "store_Save (exStore ex2) (crash_next\<lparr>stAppHash := [9, 9]\<rparr>) = Some (Inr db)" "store_Load db = Inr (Some (crash_next\<lparr>stAppHash := [9, 9]\<rparr>))"
    by (cases r) auto
  then show ?thesis using c u h that[of "ex2\<lparr>exStore := db\<rparr>"] by (simp add: ApplyBlock_def sample_valid crash_exec)
qed

definition crash_app :: "nat bootApp" where
  "crash_app = \<lparr>b_app = sample_app, b_Info = (\<lambda>a. if a = 2 then (1, [9, 9]) else (0, [8])), b_InitChain = (\<lambda>a r. (a, [8], []))\<rparr>"

definition crash_genesis :: GenesisFile where
  "crash_genesis = \<lparr>gdTime = 5, gdChainID = [1], gdInitialHeight = 1, gdConsensusParams = None, gdValidators = None, gdAppHash = [8], gdAppState = []\<rparr>"

lemma crash_first: "\<exists>bs. SaveBlock sample_env crash_codec \<lparr>bsDB = Map.empty, bsBase = 0, bsHeight = 0\<rparr> (Some sample_first) (Some store_parts) store_reply = Some bs"
proof -
  have "SaveBlock sample_env crash_codec \<lparr>bsDB = Map.empty, bsBase = 0, bsHeight = 0\<rparr> (Some sample_first) (Some store_parts) store_reply \<noteq> None" by code_simp
  then show ?thesis by blast
qed

theorem crash_is_recovered_witness:
  "\<exists>H d. hB H = crash_app \<and> bootState 7 H \<lparr>dkStore = SaveABCIResponses (exStore crash_ex) 1 crash_responses, dkApp = 2, dkBlocks = 0\<rparr> =
     Some (d, Inr (Some (crash_next\<lparr>stAppHash := [9, 9]\<rparr>))) \<and> dkApp d = 2"
proof -
  obtain bs where bs: "SaveBlock sample_env crash_codec \<lparr>bsDB = Map.empty, bsBase = 0, bsHeight = 0\<rparr> (Some sample_first) (Some store_parts) store_reply = Some bs"
    using crash_first by blast
  obtain ex' where ex: "ApplyBlock sample_env crash_codec sample_app crash_ex sample_state crash_id sample_first = Some (ex', crash_next\<lparr>stAppHash := [9, 9]\<rparr>, None)"
    "store_Load (exStore ex') = Inr (Some (crash_next\<lparr>stAppHash := [9, 9]\<rparr>))" using crash_apply .
  define H where "H = \<lparr>hE = sample_env, hK = crash_codec, hB = crash_app, hGenDoc = crash_genesis, hStore = bs\<rparr>"
  have run: "bs_run (hE H) (hK H) \<lparr>bsDB = Map.empty, bsBase = 0, bsHeight = 0\<rparr> []"
    by (rule bs_run.start) (simp add: NewBlockStore_def LoadBlockStoreState_def)
  have f: "hHeight (bHeader sample_first) = 1" "stLastBlockHeight sample_state = 0" by (simp_all add: sample_first_def sample_state_def)
  have l: "store_Load (exStore crash_ex) = Inr (Some sample_state)" by code_simp
  have s: "length (e_Sum sample_env bz) = 32" for bz by (simp add: sample_env_def)
  have ib: "infos_back (exStore crash_ex)" by (simp add: infos_back_def crash_ex_def sample_ex_def)
  have d: "onDisk (hE H) (hK H) (b_app (hB H)) crash_ex ex' sample_state sample_first (AfterCommit False False) = Some (SaveABCIResponses (exStore crash_ex) 1 crash_responses, 2)"
    using crash_exec f by (simp add: halfSaved_def onDisk_def H_def crash_app_def sample_app_def)
  have "\<exists>d. bootState 7 H \<lparr>dkStore = SaveABCIResponses (exStore crash_ex) 1 crash_responses, dkApp = 2, dkBlocks = 0\<rparr> = Some (d, Inr (Some (crash_next\<lparr>stAppHash := [9, 9]\<rparr>))) \<and>
      onDisk (hE H) (hK H) (b_app (hB H)) crash_ex ex' sample_state sample_first AfterSave = Some (dkStore d, dkApp d)"
    by (rule crash_is_recovered[OF run _ _ _ _ l _ _ _ ib d, where ps = store_parts and seen = store_reply])
      (use bs ex s f crash_saveable in \<open>auto simp: H_def crash_app_def crash_id_def reports_commit_def MaxInt64_def\<close>)
  moreover have "onDisk (hE H) (hK H) (b_app (hB H)) crash_ex ex' sample_state sample_first AfterSave = Some (exStore ex', 2)"
    using crash_exec f by (simp add: onDisk_def H_def crash_app_def sample_app_def)
  ultimately show ?thesis by (intro exI[of _ H]) (auto simp: H_def)
qed

section \<open>Starting above height one\<close>

text \<open>Property C35: on a chain whose initial height is above one, a node that crashes after it has stored the first block and before
  it has saved the state after it never starts again: the first block is more than one above the height 0 of the genesis state.\<close>

theorem first_block_crash_is_fatal:
  assumes "LoadFromDBOrGenesisDoc (hE H) now (dkStore d) (GenesisDoc.truncate (hGenDoc H)) = Some (Inr st)" "stLastBlockHeight st = 0"
    and "1 < stInitialHeight st" "bsHeight (hStore H) = stInitialHeight st" "bsBase (hStore H) = stInitialHeight st"
  shows "bootState now H d \<noteq> Some (d', Inr s)"
proof -
  have "replayHeights H d1 st1 hash app 0 \<noteq> Some (d2, Inr r)" for d1 st1 hash app d2 and r :: bytes
    using assms(3-5) by (auto simp: replayHeights_def Let_def add64_small)
  then have "Handshake H d st \<noteq> Some (d2, Inr r)" for d2 r
    using assms(2) by (auto simp: Handshake_def ReplayBlocks_def bind_eq_Some_conv split: prod.splits sum.splits if_splits)
  then show ?thesis using assms(1) by (auto simp: bootState_def bind_eq_Some_conv split: sum.splits prod.splits)
qed

definition high_state :: State where "high_state = sample_state\<lparr>stInitialHeight := 10\<rparr>"

theorem first_block_crash_is_fatal_witness:
  "\<forall>d' s. bootState 7 \<lparr>hE = sample_env, hK = crash_codec, hB = crash_app, hGenDoc = crash_genesis, hStore = \<lparr>bsDB = Map.empty, bsBase = 10, bsHeight = 10\<rparr>\<rparr>
     \<lparr>dkStore = (exStore sample_ex)\<lparr>dbState := Some high_state\<rparr>, dkApp = 0, dkBlocks = 0\<rparr> \<noteq> Some (d', Inr s)"
proof -
  have "store_Load ((exStore sample_ex)\<lparr>dbState := Some high_state\<rparr>) = Inr (Some high_state)" by code_simp
  then show ?thesis
    by (intro allI first_block_crash_is_fatal[where st = high_state]) (simp_all add: Load_or_genesis high_state_def sample_state_def)
qed

end
