(* ===== verification/FastSync.thy ===== *)
theory FastSync
  imports BlockStores ChainSafety "HOL-Library.AList"
begin

text \<open>
  Fast synchronisation: the block pool and the reactor of \<open>blockchain/pool.go\<close>, \<open>blockchain/reactor.go\<close> and
  \<open>blockchain/msgs.go\<close>. The pool keeps the peers with the heights they report and one requester per height that is being
  fetched; every requester runs a routine of its own, whose turns are the steps between two points at which it gives up the
  lock. The maps of the pool are association lists, in which the order of the keys has no meaning: the order in which a loop
  visits the peers is an argument. The channels to the reactor are the lists of what was sent.
\<close>

section \<open>Peers and requesters\<close>

definition maxTotalRequesters :: int where "maxTotalRequesters = 600"
definition maxPendingRequests :: int where "maxPendingRequests = maxTotalRequesters"
definition maxPendingRequestsPerPeer :: int where "maxPendingRequestsPerPeer = 20"
definition maxDiffBetweenCurrentAndReceivedBlockHeight :: int where "maxDiffBetweenCurrentAndReceivedBlockHeight = 100"

text \<open>The timer of a peer is absent until it is first set; then it is running or stopped.\<close>

record bpPeer =
  bpBase :: int
  bpHeight :: int
  bpNumPending :: int
  bpDidTimeout :: bool
  bpTimer :: "bool option"

datatype phase = PickPeer | Assign string | WaitLoop

record bpRequester =
  rqPeerID :: string
  rqBlock :: "Block option"
  rqRedoCh :: "string option"
  rqPhase :: phase

datatype pool_error = ErrUnexpectedBlock | ErrInvalidPeer | ErrNothingSent

record BlockPool =
  plHeight :: int
  plRequesters :: "(int \<times> bpRequester) list"
  plPeers :: "(string \<times> bpPeer) list"
  plMaxPeerHeight :: int
  plNumPending :: int
  plStopped :: "bpRequester list"
  plRunning :: bool
  plRequestsCh :: "(int \<times> string) list"
  plErrorsCh :: "(pool_error \<times> string) list"

definition NewBlockPool :: "int \<Rightarrow> BlockPool" where
  "NewBlockPool start = \<lparr>plHeight = start, plRequesters = [], plPeers = [], plMaxPeerHeight = 0, plNumPending = 0, plStopped = [],
     plRunning = False, plRequestsCh = [], plErrorsCh = []\<rparr>"

definition newBPPeer :: "int \<Rightarrow> int \<Rightarrow> bpPeer" where
  "newBPPeer b h = \<lparr>bpBase = b, bpHeight = h, bpNumPending = 0, bpDidTimeout = False, bpTimer = None\<rparr>"

definition resetTimeout :: "bpPeer \<Rightarrow> bpPeer" where
  "resetTimeout p = p\<lparr>bpTimer := Some True\<rparr>"

definition incrPending :: "bpPeer \<Rightarrow> bpPeer" where
  "incrPending p = (if bpNumPending p = 0 then resetTimeout p else p)\<lparr>bpNumPending := add32 (bpNumPending p) 1\<rparr>"

text \<open>Stopping a timer that was never set is a nil dereference.\<close>

definition decrPending :: "bpPeer \<Rightarrow> bpPeer option" where
  "decrPending p =
     (let p1 = p\<lparr>bpNumPending := add32 (bpNumPending p) (- 1)\<rparr> in
      if bpNumPending p1 = 0 then map_option (\<lambda>_. p1\<lparr>bpTimer := Some False\<rparr>) (bpTimer p1)
      else Some (resetTimeout p1))"

definition newBPRequester :: bpRequester where
  "newBPRequester = \<lparr>rqPeerID = '''', rqBlock = None, rqRedoCh = None, rqPhase = PickPeer\<rparr>"

text \<open>\<open>setBlock\<close> also signals \<open>gotBlockCh\<close>, on which the routine only goes on waiting.\<close>

definition setBlock :: "Block \<Rightarrow> string \<Rightarrow> bpRequester \<Rightarrow> bpRequester option" where
  "setBlock block peerID r = (if rqBlock r \<noteq> None \<or> rqPeerID r \<noteq> peerID then None else Some (r\<lparr>rqBlock := Some block\<rparr>))"

definition bpr_redo :: "string \<Rightarrow> bpRequester \<Rightarrow> bpRequester" where
  "bpr_redo peerID r = (if rqRedoCh r = None then r\<lparr>rqRedoCh := Some peerID\<rparr> else r)"

section \<open>The pool\<close>

definition sendRequest :: "int \<Rightarrow> string \<Rightarrow> BlockPool \<Rightarrow> BlockPool" where
  "sendRequest height peerID bp = (if \<not> plRunning bp then bp else bp\<lparr>plRequestsCh := plRequestsCh bp @ [(height, peerID)]\<rparr>)"

definition sendError :: "pool_error \<Rightarrow> string \<Rightarrow> BlockPool \<Rightarrow> BlockPool" where
  "sendError err peerID bp = (if \<not> plRunning bp then bp else bp\<lparr>plErrorsCh := plErrorsCh bp @ [(err, peerID)]\<rparr>)"

definition GetStatus :: "BlockPool \<Rightarrow> int \<times> int \<times> int" where
  "GetStatus bp = (plHeight bp, plNumPending bp, int (length (plRequesters bp)))"

text \<open>\<open>late\<close> says that more than five seconds have passed since the start.\<close>

definition IsCaughtUp :: "bool \<Rightarrow> BlockPool \<Rightarrow> bool" where
  "IsCaughtUp late bp =
     (if plPeers bp = [] then False
      else (0 < plHeight bp \<or> late) \<and> (plMaxPeerHeight bp = 0 \<or> sub64 (plMaxPeerHeight bp) 1 \<le> plHeight bp))"

definition PeekTwoBlocks :: "BlockPool \<Rightarrow> Block option \<times> Block option" where
  "PeekTwoBlocks bp = (Option.bind (map_of (plRequesters bp) (plHeight bp)) rqBlock,
     Option.bind (map_of (plRequesters bp) (add64 (plHeight bp) 1)) rqBlock)"

text \<open>The routine of a stopped requester is still there until it takes the signal.\<close>

definition PopRequest :: "BlockPool \<Rightarrow> BlockPool option" where
  "PopRequest bp = do {
     r \<leftarrow> map_of (plRequesters bp) (plHeight bp);
     Some (bp\<lparr>plRequesters := AList.delete (plHeight bp) (plRequesters bp), plHeight := add64 (plHeight bp) 1, plStopped := r # plStopped bp\<rparr>)
   }"

definition updateMaxPeerHeight :: "BlockPool \<Rightarrow> BlockPool" where
  "updateMaxPeerHeight bp = bp\<lparr>plMaxPeerHeight := foldl (\<lambda>m (i, p). if m < bpHeight p then bpHeight p else m) 0 (plPeers bp)\<rparr>"

definition removePeer :: "string \<Rightarrow> BlockPool \<Rightarrow> BlockPool" where
  "removePeer peerID bp =
     (let bp1 = bp\<lparr>plRequesters := map (\<lambda>(h, r). (h, if rqPeerID r = peerID then bpr_redo peerID r else r)) (plRequesters bp)\<rparr> in
      case map_of (plPeers bp) peerID of
        None \<Rightarrow> bp1
      | Some peer \<Rightarrow>
          (let bp2 = bp1\<lparr>plPeers := AList.delete peerID (plPeers bp)\<rparr>
           in if bpHeight peer = plMaxPeerHeight bp then updateMaxPeerHeight bp2 else bp2))"

text \<open>A missing requester is a nil dereference.\<close>

definition RedoRequest :: "int \<Rightarrow> BlockPool \<Rightarrow> (string \<times> BlockPool) option" where
  "RedoRequest height bp = do {
     request \<leftarrow> map_of (plRequesters bp) height;
     Some (rqPeerID request, if rqPeerID request \<noteq> '''' then removePeer (rqPeerID request) bp else bp)
   }"

definition AddBlock :: "string \<Rightarrow> Block \<Rightarrow> BlockPool \<Rightarrow> BlockPool option" where
  "AddBlock peerID block bp =
     (let height = hHeight (bHeader block) in
      case map_of (plRequesters bp) height of
        None \<Rightarrow>
          (let diff0 = sub64 (plHeight bp) height; diff = (if diff0 < 0 then wrap 64 (- diff0) else diff0)
           in Some (if maxDiffBetweenCurrentAndReceivedBlockHeight < diff then sendError ErrUnexpectedBlock peerID bp else bp))
      | Some requester \<Rightarrow>
          (case setBlock block peerID requester of
             None \<Rightarrow> Some (sendError ErrInvalidPeer peerID bp)
           | Some requester' \<Rightarrow>
               (let bp1 = bp\<lparr>plRequesters := AList.update height requester' (plRequesters bp), plNumPending := add32 (plNumPending bp) (- 1)\<rparr> in
                case map_of (plPeers bp) peerID of
                  None \<Rightarrow> Some bp1
                | Some peer \<Rightarrow> map_option (\<lambda>peer'. bp1\<lparr>plPeers := AList.update peerID peer' (plPeers bp)\<rparr>) (decrPending peer))))"

definition SetPeerRange :: "string \<Rightarrow> int \<Rightarrow> int \<Rightarrow> BlockPool \<Rightarrow> BlockPool" where
  "SetPeerRange peerID b height bp =
     (let peer = (case map_of (plPeers bp) peerID of Some p \<Rightarrow> p\<lparr>bpBase := b, bpHeight := height\<rparr> | None \<Rightarrow> newBPPeer b height);
          bp1 = bp\<lparr>plPeers := AList.update peerID peer (plPeers bp)\<rparr>
      in if plMaxPeerHeight bp < height then bp1\<lparr>plMaxPeerHeight := height\<rparr> else bp1)"

fun pickIncrAvailablePeer :: "string list \<Rightarrow> int \<Rightarrow> BlockPool \<Rightarrow> BlockPool \<times> string option" where
  "pickIncrAvailablePeer [] height bp = (bp, None)"
| "pickIncrAvailablePeer (i # order) height bp =
     (case map_of (plPeers bp) i of
        None \<Rightarrow> pickIncrAvailablePeer order height bp
      | Some peer \<Rightarrow>
          if bpDidTimeout peer then pickIncrAvailablePeer order height (removePeer i bp)
          else if maxPendingRequestsPerPeer \<le> bpNumPending peer then pickIncrAvailablePeer order height bp
          else if height < bpBase peer \<or> bpHeight peer < height then pickIncrAvailablePeer order height bp
          else (bp\<lparr>plPeers := AList.update i (incrPending peer) (plPeers bp)\<rparr>, Some i))"

definition makeNextRequester :: "BlockPool \<Rightarrow> BlockPool" where
  "makeNextRequester bp =
     (let nextHeight = add64 (plHeight bp) (int (length (plRequesters bp))) in
      if plMaxPeerHeight bp < nextHeight then bp
      else bp\<lparr>plRequesters := AList.update nextHeight newBPRequester (plRequesters bp), plNumPending := add32 (plNumPending bp) 1\<rparr>)"

fun removeTimedoutPeers :: "string list \<Rightarrow> BlockPool \<Rightarrow> BlockPool" where
  "removeTimedoutPeers [] bp = bp"
| "removeTimedoutPeers (i # order) bp =
     removeTimedoutPeers order
       (case map_of (plPeers bp) i of None \<Rightarrow> bp | Some peer \<Rightarrow> if bpDidTimeout peer then removePeer i bp else bp)"

text \<open>One turn of \<open>makeRequestersRoutine\<close>.\<close>

definition makeRequestersRoutine :: "string list \<Rightarrow> BlockPool \<Rightarrow> BlockPool" where
  "makeRequestersRoutine order bp =
     (if \<not> plRunning bp then bp
      else let (_, numPending, lenRequesters) = GetStatus bp in
        if maxPendingRequests \<le> numPending then removeTimedoutPeers order bp
        else if maxTotalRequesters \<le> lenRequesters then removeTimedoutPeers order bp
        else makeNextRequester bp)"

text \<open>The timer of a peer fires.\<close>

definition onTimeout :: "string \<Rightarrow> BlockPool \<Rightarrow> BlockPool" where
  "onTimeout peerID bp =
     (case map_of (plPeers bp) peerID of
        None \<Rightarrow> bp
      | Some peer \<Rightarrow>
          if bpTimer peer \<noteq> Some True then bp
          else (sendError ErrNothingSent peerID bp)\<lparr>plPeers := AList.update peerID (peer\<lparr>bpDidTimeout := True, bpTimer := Some False\<rparr>) (plPeers bp)\<rparr>)"

definition bpr_reset :: "int \<Rightarrow> bpRequester \<Rightarrow> BlockPool \<Rightarrow> BlockPool" where
  "bpr_reset height r bp =
     (bp\<lparr>plRequesters := AList.update height (r\<lparr>rqPeerID := '''', rqBlock := None, rqRedoCh := None, rqPhase := PickPeer\<rparr>) (plRequesters bp)\<rparr>)
       \<lparr>plNumPending := (if rqBlock r \<noteq> None then add32 (plNumPending bp) 1 else plNumPending bp)\<rparr>"

text \<open>One turn of the \<open>requestRoutine\<close> of the requester of a height: picking a peer, which holds the lock of the pool; recording it
  and sending the request, after the lock was given up; taking a message from \<open>redoCh\<close>.\<close>

definition requestRoutine :: "string list \<Rightarrow> int \<Rightarrow> BlockPool \<Rightarrow> BlockPool" where
  "requestRoutine order height bp =
     (case map_of (plRequesters bp) height of
        None \<Rightarrow> bp
      | Some r \<Rightarrow>
          (case rqPhase r of
             PickPeer \<Rightarrow>
               if \<not> plRunning bp then bp
               else (case pickIncrAvailablePeer order height bp of
                   (bp1, None) \<Rightarrow> bp1
                 | (bp1, Some i) \<Rightarrow>
                     (case map_of (plRequesters bp1) height of
                        None \<Rightarrow> bp1
                      | Some r1 \<Rightarrow> bp1\<lparr>plRequesters := AList.update height (r1\<lparr>rqPhase := Assign i\<rparr>) (plRequesters bp1)\<rparr>))
           | Assign i \<Rightarrow>
               sendRequest height i (bp\<lparr>plRequesters := AList.update height (r\<lparr>rqPeerID := i, rqPhase := WaitLoop\<rparr>) (plRequesters bp)\<rparr>)
           | WaitLoop \<Rightarrow>
               (case rqRedoCh r of
                  None \<Rightarrow> bp
                | Some i \<Rightarrow>
                    if i = rqPeerID r then bpr_reset height r bp
                    else bp\<lparr>plRequesters := AList.update height (r\<lparr>rqRedoCh := None\<rparr>) (plRequesters bp)\<rparr>)))"

text \<open>The routine of a stopped requester takes the signal, or a message from \<open>redoCh\<close> first, when both are there.\<close>

definition stoppedRoutine :: "nat \<Rightarrow> bool \<Rightarrow> BlockPool \<Rightarrow> BlockPool" where
  "stoppedRoutine i redo bp =
     (if length (plStopped bp) \<le> i then bp
      else let r = plStopped bp ! i; bp1 = bp\<lparr>plStopped := take i (plStopped bp) @ drop (Suc i) (plStopped bp)\<rparr> in
        if redo \<and> rqPhase r = WaitLoop \<and> rqRedoCh r = Some (rqPeerID r) \<and> rqBlock r \<noteq> None
        then bp1\<lparr>plNumPending := add32 (plNumPending bp) 1\<rparr> else bp1)"

section \<open>Messages\<close>

datatype bcMessage = BlockRequest int | BlockResponse "Block option" | NoBlockResponse int | StatusRequest | StatusResponse int int

datatype bc_error = BcNegativeHeight | BcNilBlock | BcBlock block_error | BcNegativeBase | BcBaseAboveHeight

definition responseBlock :: "env \<Rightarrow> Block option \<Rightarrow> (bc_error + Block) option" where
  "responseBlock E nb =
     (case nb of
        None \<Rightarrow> Some (Inl BcNilBlock)
      | Some bp \<Rightarrow> map_option (\<lambda>r. case r of Inl e \<Rightarrow> Inl (BcBlock e) | Inr b \<Rightarrow> Inr b) (BlockFromProto E bp))"

fun ValidateMsg :: "env \<Rightarrow> bcMessage \<Rightarrow> bc_error option option" where
  "ValidateMsg E (BlockRequest h) = Some (if h < 0 then Some BcNegativeHeight else None)"
| "ValidateMsg E (BlockResponse nb) = map_option (\<lambda>r. case r of Inl e \<Rightarrow> Some e | Inr _ \<Rightarrow> None) (responseBlock E nb)"
| "ValidateMsg E (NoBlockResponse h) = Some (if h < 0 then Some BcNegativeHeight else None)"
| "ValidateMsg E (StatusResponse b h) = Some
     (if b < 0 then Some BcNegativeBase else if h < 0 then Some BcNegativeHeight else if h < b then Some BcBaseAboveHeight else None)"
| "ValidateMsg E StatusRequest = Some None"

section \<open>The reactor\<close>

text \<open>The reactor with the local variables of \<open>poolRoutine\<close>: the state after the last block and the number of blocks synced.
  \<open>bcStopped\<close> are the peers stopped for an error, \<open>bcSent\<close> the messages sent.\<close>

record 'a BlockchainReactor =
  bcInitial :: State
  bcExec :: "'a BlockExecutor"
  bcStore :: BlockStore
  bcPool :: BlockPool
  bcState :: State
  bcSynced :: nat
  bcSwitched :: bool
  bcStopped :: "string list"
  bcSent :: "(string \<times> bcMessage) list"

definition NewBlockchainReactor :: "State \<Rightarrow> 'a BlockExecutor \<Rightarrow> BlockStore \<Rightarrow> 'a BlockchainReactor option" where
  "NewBlockchainReactor state ex store =
     (if stLastBlockHeight state \<noteq> bsHeight store then None
      else let startHeight = (if add64 (bsHeight store) 1 = 1 then stInitialHeight state else add64 (bsHeight store) 1)
      in Some \<lparr>bcInitial = state, bcExec = ex, bcStore = store, bcPool = NewBlockPool startHeight, bcState = state, bcSynced = 0,
           bcSwitched = False, bcStopped = [], bcSent = []\<rparr>)"

definition bc_OnStart :: "'a BlockchainReactor \<Rightarrow> 'a BlockchainReactor" where
  "bc_OnStart R = R\<lparr>bcPool := (bcPool R)\<lparr>plRunning := True\<rparr>\<rparr>"

definition bc_send :: "string \<Rightarrow> bcMessage \<Rightarrow> 'a BlockchainReactor \<Rightarrow> 'a BlockchainReactor" where
  "bc_send peer msg R = R\<lparr>bcSent := bcSent R @ [(peer, msg)]\<rparr>"

definition statusResponse :: "'a BlockchainReactor \<Rightarrow> bcMessage" where
  "statusResponse R = StatusResponse (bsBase (bcStore R)) (bsHeight (bcStore R))"

definition bc_AddPeer :: "string \<Rightarrow> 'a BlockchainReactor \<Rightarrow> 'a BlockchainReactor" where
  "bc_AddPeer peer R = bc_send peer (statusResponse R) R"

definition bc_RemovePeer :: "string \<Rightarrow> 'a BlockchainReactor \<Rightarrow> 'a BlockchainReactor" where
  "bc_RemovePeer peer R = R\<lparr>bcPool := removePeer peer (bcPool R)\<rparr>"

definition respondToPeer :: "env \<Rightarrow> codec \<Rightarrow> int \<Rightarrow> string \<Rightarrow> 'a BlockchainReactor \<Rightarrow> 'a BlockchainReactor option" where
  "respondToPeer E K height src R = do {
     nb \<leftarrow> LoadBlock E K (bcStore R) height;
     Some (case nb of Some b \<Rightarrow> bc_send src (BlockResponse (Some b)) R | None \<Rightarrow> bc_send src (NoBlockResponse height) R)
   }"

definition bc_Receive :: "env \<Rightarrow> codec \<Rightarrow> string \<Rightarrow> bcMessage \<Rightarrow> 'a BlockchainReactor \<Rightarrow> 'a BlockchainReactor option" where
  "bc_Receive E K src msg R = do {
     err \<leftarrow> ValidateMsg E msg;
     if err \<noteq> None then Some (R\<lparr>bcStopped := bcStopped R @ [src]\<rparr>)
     else (case msg of
         BlockRequest h \<Rightarrow> respondToPeer E K h src R
       | BlockResponse nb \<Rightarrow> do {
           r \<leftarrow> responseBlock E nb;
           (case r of Inl _ \<Rightarrow> Some R | Inr b \<Rightarrow> map_option (\<lambda>bp. R\<lparr>bcPool := bp\<rparr>) (AddBlock src b (bcPool R)))
         }
       | StatusRequest \<Rightarrow> Some (bc_send src (statusResponse R) R)
       | StatusResponse b h \<Rightarrow> Some (R\<lparr>bcPool := SetPeerRange src b h (bcPool R)\<rparr>)
       | NoBlockResponse h \<Rightarrow> Some R)
   }"

text \<open>\<open>poolRoutine\<close> on \<open>didProcessCh\<close>: the first of the next two blocks is verified with the commit in the second. The error of
  a block that was committed is a panic. \<open>PeekTwoBlocks\<close>, \<open>RedoRequest\<close> and \<open>PopRequest\<close> each take the lock of the pool on their own;
  the turn is one step here. In the code another routine may come in between and reset the requester of the peeked block: the
  blocks are then still those that were peeked, but \<open>PopRequest\<close> drops a requester that is counted as pending again.\<close>

definition syncFirst :: "env \<Rightarrow> codec \<Rightarrow> 'a app \<Rightarrow> Block \<Rightarrow> Block \<Rightarrow> 'a BlockchainReactor \<Rightarrow> 'a BlockchainReactor option" where
  "syncFirst E K app b1 b2 R = do {
     firstParts \<leftarrow> block_MakePartSet E K (Some b1) BlockPartSizeBytes;
     (hash, hashed) \<leftarrow> block_Hash E K (Some b1);
     b1' \<leftarrow> hashed;
     let firstID = \<lparr>bidHash = hash, bidParts = ps_Header firstParts\<rparr>;
     reply \<leftarrow> bLastReply b2;
     err \<leftarrow> VerifyReply E (stValidators (bcState R)) (stChainID (bcInitial R)) firstID (hHeight (bHeader b1')) reply;
     if err \<noteq> None then do {
       (peer1, bp1) \<leftarrow> RedoRequest (hHeight (bHeader b1')) (bcPool R);
       (peer2, bp2) \<leftarrow> RedoRequest (hHeight (bHeader b2)) bp1;
       Some (R\<lparr>bcPool := bp2, bcStopped := bcStopped R @ peer1 # (if peer2 \<noteq> peer1 then [peer2] else [])\<rparr>)
     }
     else do {
       bp1 \<leftarrow> PopRequest (bcPool R);
       store \<leftarrow> SaveBlock E K (bcStore R) (Some b1') firstParts reply;
       (ex, state, aerr) \<leftarrow> ApplyBlock E K app (bcExec R) (bcState R) firstID b1';
       if aerr \<noteq> None then None
       else Some (R\<lparr>bcPool := bp1, bcStore := store, bcExec := ex, bcState := state, bcSynced := Suc (bcSynced R)\<rparr>)
     }
   }"

definition trySync :: "env \<Rightarrow> codec \<Rightarrow> 'a app \<Rightarrow> 'a BlockchainReactor \<Rightarrow> 'a BlockchainReactor option" where
  "trySync E K app R =
     (case PeekTwoBlocks (bcPool R) of
        (Some b1, Some b2) \<Rightarrow> syncFirst E K app b1 b2 R
      | _ \<Rightarrow> Some R)"

text \<open>\<open>poolRoutine\<close> on \<open>switchToConsensusTicker\<close>: the consensus reactor gets the state and is told to skip its log if a block was synced.\<close>

definition switchToConsensus :: "bool \<Rightarrow> 'a BlockchainReactor \<Rightarrow> 'a BlockchainReactor" where
  "switchToConsensus late R =
     (if IsCaughtUp late (bcPool R) then R\<lparr>bcPool := (bcPool R)\<lparr>plRunning := False\<rparr>, bcSwitched := True\<rparr> else R)"

section \<open>Runs\<close>

text \<open>Every routine of the reactor and of its pool takes turns; messages and timeouts arrive at any time.\<close>

inductive bc_step :: "env \<Rightarrow> codec \<Rightarrow> 'a app \<Rightarrow> 'a BlockchainReactor \<Rightarrow> 'a BlockchainReactor \<Rightarrow> bool" for E K app where
  receive: "bc_Receive E K src msg R = Some R' \<Longrightarrow> bc_step E K app R R'"
| add_peer: "bc_step E K app R (bc_AddPeer peer R)"
| remove_peer: "bc_step E K app R (bc_RemovePeer peer R)"
| requesters: "bc_step E K app R (R\<lparr>bcPool := makeRequestersRoutine order (bcPool R)\<rparr>)"
| request: "bc_step E K app R (R\<lparr>bcPool := requestRoutine order h (bcPool R)\<rparr>)"
| stopped: "bc_step E K app R (R\<lparr>bcPool := stoppedRoutine i redo (bcPool R)\<rparr>)"
| timeout: "bc_step E K app R (R\<lparr>bcPool := onTimeout peer (bcPool R)\<rparr>)"
| sync: "\<not> bcSwitched R \<Longrightarrow> trySync E K app R = Some R' \<Longrightarrow> bc_step E K app R R'"
| switch: "\<not> bcSwitched R \<Longrightarrow> bc_step E K app R (switchToConsensus late R)"

inductive bc_steps :: "env \<Rightarrow> codec \<Rightarrow> 'a app \<Rightarrow> 'a BlockchainReactor \<Rightarrow> 'a BlockchainReactor \<Rightarrow> bool" for E K app R0 where
  start: "bc_steps E K app R0 R0"
| step: "bc_steps E K app R0 R \<Longrightarrow> bc_step E K app R R' \<Longrightarrow> bc_steps E K app R0 R'"

section \<open>What is applied\<close>

text \<open>An id that names the block the pool got: the hash of its header, once \<open>Hash\<close> has filled the header in (which gives the block that is
  applied), and the header of the part set of its encoding.\<close>

definition block_named :: "env \<Rightarrow> codec \<Rightarrow> BlockID \<Rightarrow> Block \<Rightarrow> Block \<Rightarrow> bool" where
  "block_named E K bid got b \<longleftrightarrow> block_Hash E K (Some got) = Some (bidHash bid, Some b) \<and>
     (\<exists>ps. block_MakePartSet E K (Some got) BlockPartSizeBytes = Some ps \<and> bidParts bid = ps_Header ps)"

text \<open>A turn of the sync either applies the next block, verified with a commit of the validators of the state for the id of that
  block, or leaves the chain alone.\<close>

lemma trySync_cases:
  assumes "trySync E K app R = Some R'"
  obtains (same) "bcState R' = bcState R" "bcStore R' = bcStore R" "bcSynced R' = bcSynced R" "bcInitial R' = bcInitial R" "bcSwitched R' = bcSwitched R"
      "bcPool R' = bcPool R \<or> (\<exists>h h' i i' bp. RedoRequest h (bcPool R) = Some (i, bp) \<and> RedoRequest h' bp = Some (i', bcPool R'))"
  | (applied) b0 b1 b2 bid ps reply ex where "PeekTwoBlocks (bcPool R) = (Some b0, Some b2)" "bLastReply b2 = Some reply" "block_named E K bid b0 b1"
      "VerifyReply E (stValidators (bcState R)) (stChainID (bcInitial R)) bid (hHeight (bHeader b1)) reply = Some None"
      "ApplyBlock E K app (bcExec R) (bcState R) bid b1 = Some (ex, bcState R', None)" "PopRequest (bcPool R) = Some (bcPool R')"
      "SaveBlock E K (bcStore R) (Some b1) ps reply = Some (bcStore R')" "bcSynced R' = Suc (bcSynced R)" "bcInitial R' = bcInitial R" "bcSwitched R' = bcSwitched R"
proof -
  obtain f s where p: "PeekTwoBlocks (bcPool R) = (f, s)" by fastforce
  show ?thesis
  proof (cases "f = None \<or> s = None")
    case True
    then have "R' = R" using assms p by (auto simp: trySync_def split: option.splits)
    then show ?thesis using same by simp
  next
    case False
    then obtain b1 b2 where b: "f = Some b1" "s = Some b2" by auto
    then have "syncFirst E K app b1 b2 R = Some R'" using assms p by (simp add: trySync_def)
    then obtain ps hash b1' reply err where q: "block_MakePartSet E K (Some b1) BlockPartSizeBytes = Some ps" "block_Hash E K (Some b1) = Some (hash, Some b1')"
      "bLastReply b2 = Some reply"
      "VerifyReply E (stValidators (bcState R)) (stChainID (bcInitial R)) \<lparr>bidHash = hash, bidParts = ps_Header ps\<rparr> (hHeight (bHeader b1')) reply = Some err"
      and r: "if err \<noteq> None then (do {
         (peer1, bp1) \<leftarrow> RedoRequest (hHeight (bHeader b1')) (bcPool R);
         (peer2, bp2) \<leftarrow> RedoRequest (hHeight (bHeader b2)) bp1;
         Some (R\<lparr>bcPool := bp2, bcStopped := bcStopped R @ peer1 # (if peer2 \<noteq> peer1 then [peer2] else [])\<rparr>) }) = Some R'
       else (do {
         bp1 \<leftarrow> PopRequest (bcPool R);
         store \<leftarrow> SaveBlock E K (bcStore R) (Some b1') ps reply;
         (ex, state, aerr) \<leftarrow> ApplyBlock E K app (bcExec R) (bcState R) \<lparr>bidHash = hash, bidParts = ps_Header ps\<rparr> b1';
         if aerr \<noteq> None then None
         else Some (R\<lparr>bcPool := bp1, bcStore := store, bcExec := ex, bcState := state, bcSynced := Suc (bcSynced R)\<rparr>) }) = Some R'"
      by (auto simp: syncFirst_def Let_def bind_eq_Some_conv split: prod.splits if_splits)
    show ?thesis
    proof (cases "err = None")
      case True
      then obtain bp1 store ex state where "PopRequest (bcPool R) = Some bp1" "SaveBlock E K (bcStore R) (Some b1') ps reply = Some store"
        "ApplyBlock E K app (bcExec R) (bcState R) \<lparr>bidHash = hash, bidParts = ps_Header ps\<rparr> b1' = Some (ex, state, None)"
        "R' = R\<lparr>bcPool := bp1, bcStore := store, bcExec := ex, bcState := state, bcSynced := Suc (bcSynced R)\<rparr>"
        using r by (auto simp: bind_eq_Some_conv split: prod.splits if_splits)
      then show ?thesis using applied[of b1 b2 reply "\<lparr>bidHash = hash, bidParts = ps_Header ps\<rparr>" b1' ex ps] p b q True by (simp add: block_named_def)
    next
      case False
      then obtain i bp1 i' bp2 where "RedoRequest (hHeight (bHeader b1')) (bcPool R) = Some (i, bp1)" "RedoRequest (hHeight (bHeader b2)) bp1 = Some (i', bp2)"
        "R' = R\<lparr>bcPool := bp2, bcStopped := bcStopped R @ i # (if i' \<noteq> i then [i'] else [])\<rparr>"
        using r by (auto simp: bind_eq_Some_conv split: prod.splits)
      then show ?thesis using same by fastforce
    qed
  qed
qed

lemma SaveBlock_height: "SaveBlock E K bs (Some b) ps r = Some bs' \<Longrightarrow> bsHeight bs' = hHeight (bHeader b)"
  by (auto simp: SaveBlock_def Let_def bind_eq_Some_conv split: if_splits)

abbreviation same_chain :: "'a BlockchainReactor \<Rightarrow> 'a BlockchainReactor \<Rightarrow> bool" where
  "same_chain R R' \<equiv> bcState R' = bcState R \<and> bcExec R' = bcExec R \<and> bcStore R' = bcStore R \<and> bcSynced R' = bcSynced R \<and> bcInitial R' = bcInitial R \<and> bcSwitched R' = bcSwitched R"

lemma Receive_cases:
  assumes "bc_Receive E K src msg R = Some R'"
  shows "same_chain R R' \<and> (bcPool R' = bcPool R \<or> (\<exists>b. AddBlock src b (bcPool R) = Some (bcPool R')) \<or>
    (\<exists>b h. msg = StatusResponse b h \<and> bcPool R' = SetPeerRange src b h (bcPool R)))"
proof -
  obtain err where err: "ValidateMsg E msg = Some err" using assms by (auto simp: bc_Receive_def bind_eq_Some_conv)
  show ?thesis
  proof (cases "err = None")
    case False
    then show ?thesis using assms err by (auto simp: bc_Receive_def)
  next
    case True
    show ?thesis
    proof (cases msg)
      case (BlockRequest h)
      then show ?thesis using assms err True by (auto simp: bc_Receive_def respondToPeer_def bc_send_def bind_eq_Some_conv split: option.splits)
    next
      case (BlockResponse nb)
      then obtain r where "responseBlock E nb = Some r" using assms err True by (auto simp: bc_Receive_def bind_eq_Some_conv)
      then show ?thesis using assms err True BlockResponse by (cases r) (auto simp: bc_Receive_def)
    qed (use assms err True in \<open>auto simp: bc_Receive_def bc_send_def\<close>)
  qed
qed

lemma bc_step_chain:
  assumes "bc_step E K app R R'"
  shows "bcInitial R' = bcInitial R \<and> (bcState R' = bcState R \<and> bcStore R' = bcStore R \<and> bcSynced R' = bcSynced R \<or>
    bcSynced R' = Suc (bcSynced R) \<and> (\<exists>got b bid ps reply ex. block_named E K bid got b \<and> VerifyReply E (stValidators (bcState R)) (stChainID (bcInitial R)) bid (hHeight (bHeader b)) reply = Some None \<and>
      ApplyBlock E K app (bcExec R) (bcState R) bid b = Some (ex, bcState R', None) \<and> SaveBlock E K (bcStore R) (Some b) ps reply = Some (bcStore R')))"
  using assms
proof cases
  case (sync)
  from sync(2) show ?thesis by (cases rule: trySync_cases) (simp, blast)
qed (auto dest: Receive_cases simp: bc_AddPeer_def bc_RemovePeer_def bc_send_def switchToConsensus_def)

text \<open>Property C10: a fast sync applies a chain of blocks, whatever the peers send, and each block only after a commit for that very
  block was verified against the validators of the state it is applied to: the id the commit is verified for is the hash of the applied
  block with the header of the part set of the block received. The block store ends at the height of the state.\<close>

theorem fast_sync_applies_committed:
  assumes "NewBlockchainReactor st ex store = Some R0" "bc_steps E K app (bc_OnStart R0) R"
  shows "\<exists>hist. chain_run E K app st hist (bcState R) \<and> length hist = bcSynced R \<and> bsHeight (bcStore R) = stLastBlockHeight (bcState R) \<and>
    (\<forall>(s, bid, b)\<in>set hist. (\<exists>got. block_named E K bid got b) \<and> (\<exists>reply. VerifyReply E (stValidators s) (stChainID st) bid (hHeight (bHeader b)) reply = Some None))"
proof -
  have R0: "bcState R0 = st" "bcInitial R0 = st" "bcSynced R0 = 0" "bcStore R0 = store" "bsHeight store = stLastBlockHeight st"
    using assms(1) by (auto simp: NewBlockchainReactor_def Let_def split: if_splits)
  from assms(2) have "bcInitial R = st \<and> (\<exists>hist. chain_run E K app st hist (bcState R) \<and> length hist = bcSynced R \<and> bsHeight (bcStore R) = stLastBlockHeight (bcState R) \<and>
    (\<forall>(s, bid, b)\<in>set hist. (\<exists>got. block_named E K bid got b) \<and> (\<exists>reply. VerifyReply E (stValidators s) (stChainID st) bid (hHeight (bHeader b)) reply = Some None)))"
  proof induction
    case start
    then show ?case using R0 chain_run.genesis by (fastforce simp: bc_OnStart_def)
  next
    case (step R R')
    then obtain hist where h: "chain_run E K app st hist (bcState R)" "length hist = bcSynced R" "bsHeight (bcStore R) = stLastBlockHeight (bcState R)"
      "\<forall>(s, bid, b)\<in>set hist. (\<exists>got. block_named E K bid got b) \<and> (\<exists>reply. VerifyReply E (stValidators s) (stChainID st) bid (hHeight (bHeader b)) reply = Some None)" and i: "bcInitial R = st" by blast
    from bc_step_chain[OF step(2)] consider "bcState R' = bcState R" "bcStore R' = bcStore R" "bcSynced R' = bcSynced R" "bcInitial R' = st"
      | got b bid ps reply ex where "block_named E K bid got b" "VerifyReply E (stValidators (bcState R)) (stChainID st) bid (hHeight (bHeader b)) reply = Some None"
        "ApplyBlock E K app (bcExec R) (bcState R) bid b = Some (ex, bcState R', None)" "SaveBlock E K (bcStore R) (Some b) ps reply = Some (bcStore R')"
        "bcSynced R' = Suc (bcSynced R)" "bcInitial R' = st" using i by auto
    then show ?case
    proof cases
      case 1
      then show ?thesis using h by auto
    next
      case 2
      have "bsHeight (bcStore R') = hHeight (bHeader b)" by (rule SaveBlock_height[OF 2(4)])
      then show ?thesis using 2 h chain_run.block[OF h(1) 2(3)] ApplyBlock_ok(2)[OF 2(3)]
        by (intro conjI exI[of _ "(bcState R, bid, b) # hist"]) auto
    qed
  qed
  then show ?thesis by blast
qed

subsection \<open>A sample run\<close>

declare flattenLoop.simps [code]

definition sync_id :: BlockID where
  "sync_id = \<lparr>bidHash = header_Hash sample_env sample_codec (bHeader sample_first), bidParts = \<lparr>psTotal = 1, psHash = leafHash (e_Sum sample_env) [3]\<rparr>\<rparr>"

definition sync_reply :: Reply where
  "sync_reply = (let sig = \<lparr>rsFlag = 2, rsAddress = replicate 20 1, rsTimestamp = 5, rsSignature = []\<rparr>; r = NewReply 1 0 sync_id [sig] in
     NewReply 1 0 sync_id [sig\<lparr>rsSignature := take 64 (the (reply_VoteSignBytes sample_env [1] r 0) @ replicate 64 0)\<rparr>])"

definition sync_second :: Block where
  "sync_second = \<lparr>bHeader = (bHeader sample_first)\<lparr>hHeight := 2, hLastBlockID := sync_id, hLastCommitHash := fst (the (reply_Hash sample_env sync_reply))\<rparr>,
     bData = bData sample_first, bLastReply = Some sync_reply\<rparr>"

text \<open>A peer reports two blocks, both are requested from it and received, and the first one is applied.\<close>

definition sync_turns :: "(nat BlockchainReactor \<Rightarrow> nat BlockchainReactor option) list" where
  "sync_turns =
     (let requesters = (\<lambda>R. Some (R\<lparr>bcPool := makeRequestersRoutine [''p''] (bcPool R)\<rparr>));
          request = (\<lambda>h R. Some (R\<lparr>bcPool := requestRoutine [''p''] h (bcPool R)\<rparr>));
          receive = (\<lambda>m. bc_Receive sample_env sample_codec ''p'' m)
      in [receive (StatusResponse 1 2), requesters, requesters, request 1, request 1, request 2, request 2,
          receive (BlockResponse (Some sample_first)), receive (BlockResponse (Some sync_second)), trySync sample_env sample_codec sample_app])"

fun run_turns :: "('r \<Rightarrow> 'r option) list \<Rightarrow> 'r \<Rightarrow> 'r option" where
  "run_turns [] R = Some R"
| "run_turns (f # fs) R = Option.bind (f R) (run_turns fs)"

definition sync_start :: "nat BlockchainReactor" where
  "sync_start = the (NewBlockchainReactor sample_state sample_ex \<lparr>bsDB = Map.empty, bsBase = 0, bsHeight = 0\<rparr>)"

lemma sync_parts: "block_MakePartSet sample_env sample_codec (Some sample_first) BlockPartSizeBytes = Some (Some (store_parts\<lparr>setBitArray := Some \<lparr>Bits = 1, Elems = [1]\<rparr>\<rparr>))"
  by code_simp

lemma sync_hash: "block_Hash sample_env sample_codec (Some sample_first) = Some (header_Hash sample_env sample_codec (bHeader sample_first), Some sample_first)"
  by code_simp

lemma sync_verified: "VerifyReply sample_env sample_vset [1] sync_id 1 sync_reply = Some None"
proof -
  obtain sig where sig: "rpSignatures sync_reply = [sig]" "rpHeight sync_reply = 1" "rpBlockID sync_reply = sync_id" "\<not> Absent sig" "ForBlock sig"
    by (simp add: sync_reply_def NewReply_def Let_def Absent_def ForBlock_def BlockIDFlagAbsent_def BlockIDFlagCommit_def)
  have "Option.bind (reply_VoteSignBytes sample_env [1] sync_reply 0) (\<lambda>m. pk_VerifySignature sample_env (replicate 32 1) m (rsSignature (hd (rpSignatures sync_reply)))) = Some True"
    by code_simp
  then obtain m where m: "reply_VoteSignBytes sample_env [1] sync_reply 0 = Some m" "pk_VerifySignature sample_env (replicate 32 1) m (rsSignature sig) = Some True"
    using sig(1) by (auto simp: bind_eq_Some_conv)
  have "f64_add (Fin 0) (Fin 10) = Fin 10" using f64_rnd_numeral[of 10] by simp
  then have v: "verifySigs sample_env sample_vset [1] sync_reply 0 [sig] (Fin 0) = Some (Inr (Fin 10))"
    using sig m by (simp add: sample_member_def slice_get_def)
  show ?thesis using sig by (simp add: VerifyReply_def vals_Size_def v third_val f64_le_def del: verifySigs.simps)
qed

lemma sync_saved: "SaveBlock sample_env sample_codec \<lparr>bsDB = Map.empty, bsBase = 0, bsHeight = 0\<rparr> (Some sample_first)
    (Some (store_parts\<lparr>setBitArray := Some \<lparr>Bits = 1, Elems = [1]\<rparr>\<rparr>)) sync_reply \<noteq> None"
  by code_simp

lemma sync_fetched: "map_option (\<lambda>R. (PeekTwoBlocks (bcPool R), PopRequest (bcPool R) \<noteq> None)) (run_turns (butlast sync_turns) (bc_OnStart sync_start)) =
    Some ((Some sample_first, Some sync_second), True)"
  by code_simp

lemma sync_turns_keep:
  assumes "f \<in> set (butlast sync_turns)" "f R = Some R'"
  shows "same_chain R R' \<and> bc_step sample_env sample_codec sample_app R R'"
proof -
  have "(\<exists>m. f = bc_Receive sample_env sample_codec ''p'' m) \<or> f = (\<lambda>R. Some (R\<lparr>bcPool := makeRequestersRoutine [''p''] (bcPool R)\<rparr>)) \<or>
      (\<exists>h. f = (\<lambda>R. Some (R\<lparr>bcPool := requestRoutine [''p''] h (bcPool R)\<rparr>)))"
    using assms(1) by (auto simp: sync_turns_def Let_def)
  then show ?thesis
  proof (elim disjE exE)
    fix m assume "f = bc_Receive sample_env sample_codec ''p'' m"
    then show ?thesis using assms(2) Receive_cases bc_step.receive by fastforce
  qed (use assms(2) bc_step.requesters bc_step.request in fastforce)+
qed

lemma run_turns_steps:
  assumes "run_turns fs R = Some R'" "\<And>f R R'. f \<in> set fs \<Longrightarrow> f R = Some R' \<Longrightarrow> same_chain R R' \<and> bc_step E K app R R'" "bc_steps E K app R0 R"
  shows "same_chain R R' \<and> bc_steps E K app R0 R'"
  using assms
proof (induction fs arbitrary: R)
  case (Cons f fs)
  then obtain R1 where R1: "f R = Some R1" "run_turns fs R1 = Some R'" by (auto simp: bind_eq_Some_conv)
  have s: "same_chain R R1" "bc_steps E K app R0 R1" using Cons.prems(2)[of f R R1] R1(1) Cons.prems(3) by (auto intro: bc_steps.step)
  have k: "\<And>g R R'. g \<in> set fs \<Longrightarrow> g R = Some R' \<Longrightarrow> same_chain R R' \<and> bc_step E K app R R'" by (rule Cons.prems(2)[OF list.set_intros(2)])
  have "same_chain R1 R' \<and> bc_steps E K app R0 R'" by (rule Cons.IH[OF R1(2) k s(2)])
  then show ?case using s(1) by simp
qed simp

lemma sync_applied: "\<exists>x. ApplyBlock sample_env sample_codec sample_app sample_ex sample_state sync_id sample_first = Some x \<and> snd (snd x) = None"
proof -
  let ?s = "next_state\<lparr>stLastBlockID := sync_id\<rparr>"
  have u: "updateState sample_env sample_state sync_id (bHeader sample_first) [] = Some (Inr ?s)"
    by (simp add: updateState_def sample_state_def sample_primary next_state_def sample_first_def)
  have "map_option snd (exec_Commit sample_env sample_app sample_ex1 ?s sample_first (replicate 2 \<lparr>drCode = 0, drData = []\<rparr>)) = Some [9, 9]" by code_simp
  then obtain ex2 where c: "exec_Commit sample_env sample_app sample_ex1 ?s sample_first (replicate 2 \<lparr>drCode = 0, drData = []\<rparr>) = Some (ex2, [9, 9])" by auto
  then have st: "exStore ex2 = exStore sample_ex1" by (auto simp: exec_Commit_def Let_def bind_eq_Some_conv split: prod.split_asm)
  have "map_option isl (store_Save (exStore sample_ex1) (?s\<lparr>stAppHash := [9, 9]\<rparr>)) = Some False" by code_simp
  then obtain db where "store_Save (exStore ex2) (?s\<lparr>stAppHash := [9, 9]\<rparr>) = Some (Inr db)" using st by (auto simp: isl_def) (metis sum.exhaust_sel)
  then show ?thesis using c u by (simp add: ApplyBlock_def sample_valid sample_exec sample_ex1_def[symmetric])
qed

lemma sync_run: "\<exists>R. bc_steps sample_env sample_codec sample_app (bc_OnStart sync_start) R \<and> bcSynced R = 1"
proof -
  let ?K = sample_codec and ?ps = "Some (store_parts\<lparr>setBitArray := Some \<lparr>Bits = 1, Elems = [1]\<rparr>\<rparr>)"
  have s: "bcState (bc_OnStart sync_start) = sample_state" "bcExec (bc_OnStart sync_start) = sample_ex" "bcInitial (bc_OnStart sync_start) = sample_state"
    "bcStore (bc_OnStart sync_start) = \<lparr>bsDB = Map.empty, bsBase = 0, bsHeight = 0\<rparr>" "bcSynced (bc_OnStart sync_start) = 0" "bcSwitched (bc_OnStart sync_start) = False"
    by (simp_all add: bc_OnStart_def sync_start_def NewBlockchainReactor_def sample_state_def Let_def)
  obtain R bp where R: "run_turns (butlast sync_turns) (bc_OnStart sync_start) = Some R" "PeekTwoBlocks (bcPool R) = (Some sample_first, Some sync_second)"
    "PopRequest (bcPool R) = Some bp" using sync_fetched by auto
  from run_turns_steps[OF R(1) sync_turns_keep bc_steps.start] have k: "same_chain (bc_OnStart sync_start) R"
    and run: "bc_steps sample_env ?K sample_app (bc_OnStart sync_start) R" by auto
  obtain store where store: "SaveBlock sample_env ?K \<lparr>bsDB = Map.empty, bsBase = 0, bsHeight = 0\<rparr> (Some sample_first) ?ps sync_reply = Some store" using sync_saved by blast
  obtain ex where ex: "ApplyBlock sample_env ?K sample_app sample_ex sample_state sync_id sample_first = Some ex" "snd (snd ex) = None" using sync_applied by blast
  have f: "stValidators sample_state = sample_vset" "stChainID sample_state = [1]" "hHeight (bHeader sample_first) = 1" "bLastReply sync_second = Some sync_reply"
    "ps_Header ?ps = \<lparr>psTotal = 1, psHash = leafHash (e_Sum sample_env) [3]\<rparr>"
    by (simp_all add: sample_state_def sample_first_def sync_second_def ps_Header_def store_parts_def)
  obtain R' where "trySync sample_env ?K sample_app R = Some R'" "bcSynced R' = 1"
    using s k R(2,3) store ex f sync_parts sync_hash sync_verified by (cases ex) (auto simp: trySync_def syncFirst_def sync_id_def Let_def)
  moreover have "\<not> bcSwitched R" using k s by simp
  ultimately show ?thesis using bc_steps.step[OF run] bc_step.sync by blast
qed

theorem fast_sync_applies_committed_witness:
  "\<exists>R hist. bc_steps sample_env sample_codec sample_app (bc_OnStart sync_start) R \<and> chain_run sample_env sample_codec sample_app sample_state hist (bcState R) \<and> length hist = 1"
proof -
  obtain R where R: "bc_steps sample_env sample_codec sample_app (bc_OnStart sync_start) R" "bcSynced R = 1" using sync_run by blast
  have "NewBlockchainReactor sample_state sample_ex \<lparr>bsDB = Map.empty, bsBase = 0, bsHeight = 0\<rparr> = Some sync_start"
    by (simp add: sync_start_def NewBlockchainReactor_def sample_state_def Let_def)
  from fast_sync_applies_committed[OF this R(1)] show ?thesis using R by auto
qed

section \<open>A height nobody has\<close>

text \<open>Runs in which no peer claims a height from a given one on.\<close>

inductive below_steps :: "env \<Rightarrow> codec \<Rightarrow> 'a app \<Rightarrow> int \<Rightarrow> 'a BlockchainReactor \<Rightarrow> 'a BlockchainReactor \<Rightarrow> bool" for E K app H R0 where
  start: "below_steps E K app H R0 R0"
| step: "below_steps E K app H R0 R \<Longrightarrow> bc_step E K app R R' \<Longrightarrow> \<forall>(i, p)\<in>set (plPeers (bcPool R')). bpHeight p < H \<Longrightarrow> below_steps E K app H R0 R'"

definition phantom_at :: "int \<Rightarrow> BlockPool \<Rightarrow> bool" where
  "phantom_at H bp \<longleftrightarrow> plMaxPeerHeight bp = H \<and> (\<forall>(i, p)\<in>set (plPeers bp). bpHeight p < H)"

lemma set_delete: "set (AList.delete k al) \<subseteq> set al"
  by (auto simp: AList.delete_eq)

lemma set_update: "set (AList.update k v al) \<subseteq> insert (k, v) (set al)"
  by (induction al) auto

lemma phantom_removePeer: "phantom_at H bp \<Longrightarrow> phantom_at H (removePeer i bp)"
  using set_delete by (fastforce simp: phantom_at_def removePeer_def Let_def dest: map_of_SomeD split: option.splits)

lemma phantom_update:
  "phantom_at H bp \<Longrightarrow> bpHeight p < H \<Longrightarrow> plMaxPeerHeight bp' = plMaxPeerHeight bp \<Longrightarrow> plPeers bp' = AList.update i p (plPeers bp) \<Longrightarrow> phantom_at H bp'"
  using set_update by (fastforce simp: phantom_at_def)

lemma phantom_same: "phantom_at H bp \<Longrightarrow> plMaxPeerHeight bp' = plMaxPeerHeight bp \<Longrightarrow> plPeers bp' = plPeers bp \<Longrightarrow> phantom_at H bp'"
  by (simp add: phantom_at_def)

lemma phantom_peer: "phantom_at H bp \<Longrightarrow> map_of (plPeers bp) i = Some p \<Longrightarrow> bpHeight p < H"
  by (auto simp: phantom_at_def dest: map_of_SomeD)

lemma phantom_pick: "phantom_at H bp \<Longrightarrow> phantom_at H (fst (pickIncrAvailablePeer order h bp))"
proof (induction order h bp rule: pickIncrAvailablePeer.induct)
  case (2 i order h bp)
  show ?case
  proof (cases "map_of (plPeers bp) i")
    case (Some p)
    then have "bpHeight (incrPending p) < H" using phantom_peer[OF "2.prems"] by (simp add: incrPending_def resetTimeout_def)
    then show ?thesis using 2 Some phantom_removePeer phantom_update[OF "2.prems"] by simp
  qed (use 2 in simp)
qed simp

lemma phantom_timedout: "phantom_at H bp \<Longrightarrow> phantom_at H (removeTimedoutPeers order bp)"
  by (induction order bp rule: removeTimedoutPeers.induct) (auto simp: phantom_removePeer split: option.splits)

lemma AddBlock_cases:
  assumes "AddBlock i b bp = Some bp'"
  shows "plHeight bp' = plHeight bp \<and> plMaxPeerHeight bp' = plMaxPeerHeight bp \<and> plStopped bp' = plStopped bp \<and>
    (plPeers bp' = plPeers bp \<or> (\<exists>p p'. map_of (plPeers bp) i = Some p \<and> bpHeight p' = bpHeight p \<and> plPeers bp' = AList.update i p' (plPeers bp))) \<and>
    (plRequesters bp' = plRequesters bp \<and> plNumPending bp' = plNumPending bp \<or>
     (\<exists>r r'. map_of (plRequesters bp) (hHeight (bHeader b)) = Some r \<and> rqBlock r = None \<and> rqBlock r' = Some b \<and>
        plRequesters bp' = AList.update (hHeight (bHeader b)) r' (plRequesters bp) \<and> plNumPending bp' = add32 (plNumPending bp) (- 1)))"
proof (cases "map_of (plRequesters bp) (hHeight (bHeader b))")
  case None
  then show ?thesis using assms by (auto simp: AddBlock_def Let_def sendError_def split: if_splits)
next
  case (Some r)
  show ?thesis
  proof (cases "setBlock b i r")
    case None
    then show ?thesis using assms Some by (auto simp: AddBlock_def Let_def sendError_def split: if_splits)
  next
    case s: (Some r')
    then have r: "rqBlock r = None" "rqBlock r' = Some b" by (auto simp: setBlock_def split: if_splits)
    have d: "decrPending p = Some p' \<Longrightarrow> bpHeight p' = bpHeight p" for p p' by (auto simp: decrPending_def resetTimeout_def Let_def split: if_splits)
    show ?thesis
    proof (cases "map_of (plPeers bp) i")
      case None
      then show ?thesis using assms Some s r by (auto simp: AddBlock_def Let_def)
    next
      case (Some p)
      then obtain p' where "decrPending p = Some p'" using assms \<open>map_of (plRequesters bp) _ = Some r\<close> s by (auto simp: AddBlock_def Let_def)
      then show ?thesis using assms Some \<open>map_of (plRequesters bp) _ = Some r\<close> s r d[of p p'] by (auto simp: AddBlock_def Let_def)
    qed
  qed
qed

lemma phantom_AddBlock: "AddBlock i b bp = Some bp' \<Longrightarrow> phantom_at H bp \<Longrightarrow> phantom_at H bp'"
  using AddBlock_cases[of i b bp bp'] phantom_same[of H bp bp'] phantom_update[of H bp] phantom_peer[of H bp] by metis

lemma phantom_Redo: "RedoRequest h bp = Some (i, bp') \<Longrightarrow> phantom_at H bp \<Longrightarrow> phantom_at H bp'"
  by (auto simp: RedoRequest_def bind_eq_Some_conv phantom_removePeer)

lemma phantom_routines:
  assumes "phantom_at H bp"
  shows "phantom_at H (makeRequestersRoutine order bp)" "phantom_at H (requestRoutine order h bp)" "phantom_at H (stoppedRoutine n redo bp)"
    "phantom_at H (onTimeout i bp)"
proof -
  show "phantom_at H (makeRequestersRoutine order bp)"
    using assms phantom_timedout by (auto simp: makeRequestersRoutine_def makeNextRequester_def GetStatus_def Let_def intro: phantom_same)
  show "phantom_at H (stoppedRoutine n redo bp)" using assms by (auto simp: stoppedRoutine_def Let_def intro: phantom_same)
  show "phantom_at H (onTimeout i bp)"
  proof (cases "map_of (plPeers bp) i")
    case (Some p)
    then show ?thesis
      using assms phantom_update[OF assms, of "p\<lparr>bpDidTimeout := True, bpTimer := Some False\<rparr>" "onTimeout i bp" i] phantom_peer[OF assms Some]
      by (cases "bpTimer p = Some True") (auto simp: onTimeout_def sendError_def)
  qed (use assms in \<open>simp add: onTimeout_def\<close>)
  have pick: "pickIncrAvailablePeer order h bp = (bp1, r) \<Longrightarrow> phantom_at H bp1" for bp1 r using phantom_pick[OF assms, of order h] by simp
  show "phantom_at H (requestRoutine order h bp)"
  proof (cases "map_of (plRequesters bp) h")
    case (Some r)
    then show ?thesis using assms pick
      by (cases "rqPhase r") (auto simp: requestRoutine_def sendRequest_def bpr_reset_def intro: phantom_same split: option.splits prod.splits)
  qed (use assms in \<open>simp add: requestRoutine_def\<close>)
qed

lemma PopRequest_cases:
  assumes "PopRequest bp = Some bp'"
  shows "\<exists>r. map_of (plRequesters bp) (plHeight bp) = Some r \<and> plRequesters bp' = AList.delete (plHeight bp) (plRequesters bp) \<and>
    plHeight bp' = add64 (plHeight bp) 1 \<and> plStopped bp' = r # plStopped bp \<and> plNumPending bp' = plNumPending bp \<and>
    plMaxPeerHeight bp' = plMaxPeerHeight bp \<and> plPeers bp' = plPeers bp"
  using assms by (auto simp: PopRequest_def bind_eq_Some_conv)

lemma phantom_step:
  assumes "bc_step E K app R R'" "phantom_at H (bcPool R)" "\<forall>(i, p)\<in>set (plPeers (bcPool R')). bpHeight p < H"
  shows "phantom_at H (bcPool R')"
  using assms(1)
proof cases
  case (receive src msg)
  consider "bcPool R' = bcPool R" | b where "AddBlock src b (bcPool R) = Some (bcPool R')"
    | b h where "bcPool R' = SetPeerRange src b h (bcPool R)" using Receive_cases[OF receive] by blast
  then show ?thesis
  proof cases
    case (3 b h)
    have "h < H"
    proof -
      have "(src, (case map_of (plPeers (bcPool R)) src of Some p \<Rightarrow> p\<lparr>bpBase := b, bpHeight := h\<rparr> | None \<Rightarrow> newBPPeer b h)) \<in> set (plPeers (bcPool R'))"
        unfolding 3 SetPeerRange_def Let_def by (simp add: AList.update_Some_unfold map_of_SomeD update_conv' del: fun_upd_apply) (simp add: map_of_SomeD update_conv)
      then show ?thesis using assms(3) by (force simp: newBPPeer_def split: option.splits)
    qed
    then show ?thesis using assms(2,3) 3 by (auto simp: SetPeerRange_def phantom_at_def Let_def split: if_splits)
  qed (use assms(2) phantom_AddBlock in auto)
next
  case (sync)
  from sync(2) show ?thesis
  proof (cases rule: trySync_cases)
    case same
    then show ?thesis using assms(2) phantom_Redo by metis
  next
    case applied
    then show ?thesis using phantom_same[OF assms(2)] PopRequest_cases by metis
  qed
qed (use assms(2) phantom_routines[OF assms(2)] phantom_removePeer in
    \<open>auto simp: bc_AddPeer_def bc_RemovePeer_def bc_send_def switchToConsensus_def intro: phantom_same\<close>)

lemma update_entries:
  assumes "distinct (map fst al)" "(i, p) \<in> set (AList.update k v al)"
  shows "i = k \<and> p = v \<or> i \<noteq> k \<and> (i, p) \<in> set al"
proof -
  have "map_of (AList.update k v al) i = Some p" using assms AList.distinct_update[OF assms(1)] by (simp add: map_of_eq_Some_iff)
  then show ?thesis using assms(1) by (auto simp: AList.update_conv' map_of_eq_Some_iff split: if_splits)
qed

subsection \<open>The height of the pool\<close>

lemma removePeer_height [simp]: "plHeight (removePeer i bp) = plHeight bp"
  by (simp add: removePeer_def updateMaxPeerHeight_def Let_def split: option.split)

lemma pick_height [simp]: "plHeight (fst (pickIncrAvailablePeer order h bp)) = plHeight bp"
  by (induction order h bp rule: pickIncrAvailablePeer.induct) (simp_all split: option.split)

lemma timedout_height [simp]: "plHeight (removeTimedoutPeers order bp) = plHeight bp"
  by (induction order bp rule: removeTimedoutPeers.induct) (simp_all split: option.split)

lemma requesters_height [simp]: "plHeight (makeRequestersRoutine order bp) = plHeight bp"
  by (simp add: makeRequestersRoutine_def makeNextRequester_def GetStatus_def Let_def)

lemma routine_heights [simp]:
  "plHeight (stoppedRoutine n redo bp) = plHeight bp" "plHeight (onTimeout i bp) = plHeight bp" "plHeight (SetPeerRange i b h bp) = plHeight bp"
  by (simp_all add: stoppedRoutine_def onTimeout_def sendError_def SetPeerRange_def Let_def split: option.split)

lemma SetPeerRange_peers: "\<exists>p. bpHeight p = h \<and> plPeers (SetPeerRange i b h bp) = AList.update i p (plPeers bp)"
  by (rule exI[of _ "case map_of (plPeers bp) i of Some p \<Rightarrow> p\<lparr>bpBase := b, bpHeight := h\<rparr> | None \<Rightarrow> newBPPeer b h"])
    (simp add: SetPeerRange_def newBPPeer_def Let_def split: option.split)

lemma request_height [simp]: "plHeight (requestRoutine order h bp) = plHeight bp"
proof (cases "map_of (plRequesters bp) h")
  case (Some r)
  have pick: "pickIncrAvailablePeer order h bp = (bp1, x) \<Longrightarrow> plHeight bp1 = plHeight bp" for bp1 x using pick_height[of order h bp] by simp
  from Some show ?thesis
    by (cases "rqPhase r") (auto simp: requestRoutine_def sendRequest_def bpr_reset_def dest!: pick split: option.splits prod.splits)
qed (simp add: requestRoutine_def)

lemma Redo_height: "RedoRequest h bp = Some (i, bp') \<Longrightarrow> plHeight bp' = plHeight bp"
  by (auto simp: RedoRequest_def bind_eq_Some_conv)

text \<open>Only the sync moves the height of the pool, and it ends with the switch.\<close>

lemma step_height:
  assumes "bc_step E K app R R'"
  shows "plHeight (bcPool R') = plHeight (bcPool R) \<or> \<not> bcSwitched R' \<and> PopRequest (bcPool R) = Some (bcPool R') \<and> bcSynced R' = Suc (bcSynced R)"
  using assms
proof cases
  case (receive src msg)
  then show ?thesis using Receive_cases[OF receive] AddBlock_cases by fastforce
next
  case sync
  from sync(2) show ?thesis
  proof (cases rule: trySync_cases)
    case same
    then show ?thesis using Redo_height by metis
  next
    case applied
    then show ?thesis using sync(1) by simp
  qed
qed (auto simp: bc_AddPeer_def bc_RemovePeer_def bc_send_def switchToConsensus_def)

lemma step_switches:
  assumes "bc_step E K app R R'" "bcSwitched R'" "\<not> bcSwitched R"
  shows "\<exists>late. IsCaughtUp late (bcPool R)"
  using assms(1)
proof cases
  case (receive src msg)
  then show ?thesis using Receive_cases[OF receive] assms(2,3) by simp
next
  case sync
  from sync(2) show ?thesis by (cases rule: trySync_cases) (use assms(2,3) in simp_all)
qed (use assms(2,3) in \<open>auto simp: bc_AddPeer_def bc_RemovePeer_def bc_send_def switchToConsensus_def split: if_splits\<close>)

text \<open>Property C36: a peer that has once reported a height and then reports a lower one leaves its first report behind as the height
  to reach: as long as no peer claims that height, the node does not leave the fast sync until the height it fetches next is at
  least one below that height.\<close>

theorem withdrawn_height_stalls_sync:
  assumes "bc_Receive E K src (StatusResponse b H) R0 = Some R1" "bc_Receive E K src (StatusResponse b' h) R1 = Some R2"
    and "0 \<le> b" "b \<le> H" "0 \<le> b'" "b' \<le> h" "h < H" "plMaxPeerHeight (bcPool R0) < H" "H \<le> MaxInt64"
    and "distinct (map fst (plPeers (bcPool R0)))" "\<forall>(i, p)\<in>set (plPeers (bcPool R0)). bpHeight p < H" "\<not> bcSwitched R0"
    and "below_steps E K app H R2 R" "plHeight (bcPool R) < H - 1"
  shows "\<not> bcSwitched R"
proof -
  have pools: "bcPool R1 = SetPeerRange src b H (bcPool R0)" "bcPool R2 = SetPeerRange src b' h (bcPool R1)" and "\<not> bcSwitched R2"
    using assms(1-7,12) by (auto simp: bc_Receive_def)
  have m: "plMaxPeerHeight (bcPool R1) = H" using assms(8) by (simp add: pools(1) SetPeerRange_def Let_def)
  obtain p1 where p1: "plPeers (bcPool R1) = AList.update src p1 (plPeers (bcPool R0))" using SetPeerRange_peers pools(1) by metis
  obtain p2 where p2: "bpHeight p2 = h" "plPeers (bcPool R2) = AList.update src p2 (plPeers (bcPool R1))" using SetPeerRange_peers pools(2) by metis
  have "bpHeight p < H" if "(i, p) \<in> set (plPeers (bcPool R2))" for i p
    using that update_entries[OF AList.distinct_update[OF assms(10)], of i p src p2 src p1] update_entries[OF assms(10), of i p src p1] assms(7,11)
    by (auto simp: p1 p2)
  moreover have "plMaxPeerHeight (bcPool R2) = H" using assms(7) m by (simp add: pools(2) SetPeerRange_def Let_def)
  ultimately have "phantom_at H (bcPool R2)" by (auto simp: phantom_at_def)
  with assms(13) \<open>\<not> bcSwitched R2\<close> have "phantom_at H (bcPool R) \<and> (bcSwitched R \<longrightarrow> H - 1 \<le> plHeight (bcPool R))"
  proof induction
    case (step R R')
    then have p: "phantom_at H (bcPool R)" "bcSwitched R \<longrightarrow> H - 1 \<le> plHeight (bcPool R)" by auto
    have "H - 1 \<le> plHeight (bcPool R')" if sw: "bcSwitched R'"
    proof (cases "bcSwitched R")
      case True
      then show ?thesis using p(2) step_height[OF step.hyps(2)] sw by auto
    next
      case False
      then obtain late where "IsCaughtUp late (bcPool R)" using step_switches[OF step.hyps(2) sw] by blast
      then have "H - 1 \<le> plHeight (bcPool R)" using p(1) assms(3,4,7,9) assms(5,6)
        by (auto simp: IsCaughtUp_def phantom_at_def sub64_small MaxInt64_def split: if_splits)
      then show ?thesis using step_height[OF step.hyps(2)] sw by auto
    qed
    then show ?case using phantom_step[OF step.hyps(2) p(1) step.hyps(3)] by blast
  qed simp
  then show ?thesis using assms(14) by auto
qed

theorem withdrawn_height_stalls_sync_witness:
  "\<exists>R1 R2. bc_Receive sample_env sample_codec ''q'' (StatusResponse 0 1000) (bc_OnStart sync_start) = Some R1 \<and>
     bc_Receive sample_env sample_codec ''q'' (StatusResponse 0 0) R1 = Some R2 \<and> \<not> bcSwitched (switchToConsensus True R2)"
proof -
  let ?R0 = "bc_OnStart sync_start"
  obtain R1 where R1: "bc_Receive sample_env sample_codec ''q'' (StatusResponse 0 1000) ?R0 = Some R1" by (simp add: bc_Receive_def)
  obtain R2 where R2: "bc_Receive sample_env sample_codec ''q'' (StatusResponse 0 0) R1 = Some R2" by (simp add: bc_Receive_def)
  have s: "plMaxPeerHeight (bcPool ?R0) = 0" "plPeers (bcPool ?R0) = []" "\<not> bcSwitched ?R0" "plHeight (bcPool ?R0) = 1"
    by (simp_all add: bc_OnStart_def sync_start_def NewBlockchainReactor_def NewBlockPool_def sample_state_def Let_def add64_small)
  have pools: "bcPool R1 = SetPeerRange ''q'' 0 1000 (bcPool ?R0)" "bcPool R2 = SetPeerRange ''q'' 0 0 (bcPool R1)" using R1 R2 by (auto simp: bc_Receive_def)
  then have p: "plPeers (bcPool R2) = [(''q'', newBPPeer 0 0)]" "plHeight (bcPool R2) = 1" using s by (simp_all add: SetPeerRange_def newBPPeer_def Let_def)
  have q: "plPeers (bcPool (switchToConsensus True R2)) = [(''q'', newBPPeer 0 0)]" "plHeight (bcPool (switchToConsensus True R2)) = 1"
    using p by (simp_all add: switchToConsensus_def)
  have "\<not> bcSwitched R2" using R1 R2 s(3) by (auto simp: bc_Receive_def)
  then have run: "below_steps sample_env sample_codec sample_app 1000 R2 (switchToConsensus True R2)"
    by (intro below_steps.step[OF below_steps.start] bc_step.switch) (simp_all add: q newBPPeer_def)
  have "\<not> bcSwitched (switchToConsensus True R2)"
    by (rule withdrawn_height_stalls_sync[OF R1 R2 _ _ _ _ _ _ _ _ _ _ run]) (use s q in \<open>simp_all add: MaxInt64_def\<close>)
  then show ?thesis using R1 R2 by blast
qed

section \<open>The requests of the pool\<close>

text \<open>What the bookkeeping of the pool depends on: the heights that are being fetched, and which of them are still missing.\<close>

definition fetching :: "BlockPool \<Rightarrow> (int \<times> bool) list" where
  "fetching bp = map (\<lambda>(h, r). (h, rqBlock r = None)) (plRequesters bp)"

abbreviation missing :: "BlockPool \<Rightarrow> nat" where
  "missing bp \<equiv> length (filter snd (fetching bp))"

definition pool_ok :: "nat \<Rightarrow> BlockPool \<Rightarrow> bool" where
  "pool_ok n bp \<longleftrightarrow> map fst (fetching bp) = map (\<lambda>i. plHeight bp + int i) [0..<length (fetching bp)] \<and> int (length (fetching bp)) \<le> maxTotalRequesters \<and>
     int (missing bp) \<le> plNumPending bp \<and> plNumPending bp + int (length (plStopped bp)) \<le> int (missing bp) + int n"

lemma fetching_keys: "map fst (fetching bp) = map fst (plRequesters bp)"
  by (simp add: fetching_def comp_def case_prod_beta)

lemma pool_ok_same:
  "pool_ok n bp \<Longrightarrow> fetching bp' = fetching bp \<Longrightarrow> plHeight bp' = plHeight bp \<Longrightarrow> plNumPending bp' = plNumPending bp \<Longrightarrow> plStopped bp' = plStopped bp \<Longrightarrow> pool_ok n bp'"
  by (simp add: pool_ok_def)

lemma pool_ok_distinct: "pool_ok n bp \<Longrightarrow> distinct (map fst (plRequesters bp))"
  unfolding fetching_keys[symmetric] pool_ok_def by (simp add: distinct_map inj_on_def)

lemma fetching_removePeer: "fetching (removePeer i bp) = fetching bp"
  by (simp add: fetching_def removePeer_def updateMaxPeerHeight_def bpr_redo_def Let_def case_prod_beta comp_def split: option.split)

lemma pending_removePeer [simp]: "plNumPending (removePeer i bp) = plNumPending bp" "plStopped (removePeer i bp) = plStopped bp"
  by (simp_all add: removePeer_def updateMaxPeerHeight_def Let_def split: option.split)

lemma pick_same:
  "fetching (fst (pickIncrAvailablePeer order h bp)) = fetching bp \<and> plNumPending (fst (pickIncrAvailablePeer order h bp)) = plNumPending bp \<and>
   plStopped (fst (pickIncrAvailablePeer order h bp)) = plStopped bp"
  by (induction order h bp rule: pickIncrAvailablePeer.induct) (auto simp: fetching_removePeer split: option.split, simp_all add: fetching_def)

lemma timedout_same:
  "fetching (removeTimedoutPeers order bp) = fetching bp \<and> plNumPending (removeTimedoutPeers order bp) = plNumPending bp \<and>
   plStopped (removeTimedoutPeers order bp) = plStopped bp"
  by (induction order bp rule: removeTimedoutPeers.induct) (auto simp: fetching_removePeer split: option.split)

lemma update_known:
  "distinct (map fst al) \<Longrightarrow> map_of al k = Some r \<Longrightarrow> map fst (AList.update k r' al) = map fst al \<and>
   length (filter (\<lambda>(h, r). P r) (AList.update k r' al)) + (if P r then 1 else 0) = length (filter (\<lambda>(h, r). P r) al) + (if P r' then 1 else 0)"
  by (induction al) (auto split: if_splits)

lemma missing_eq: "missing bp = length (filter (\<lambda>(h, r). rqBlock r = None) (plRequesters bp))"
  by (simp add: fetching_def filter_map comp_def case_prod_beta')

lemma pool_ok_update:
  assumes "pool_ok n bp" "map_of (plRequesters bp) h = Some r" "plRequesters bp' = AList.update h r' (plRequesters bp)" "plHeight bp' = plHeight bp"
    "plStopped bp' = plStopped bp"
    "plNumPending bp' = plNumPending bp + (if rqBlock r' = None then 1 else 0) - (if rqBlock r = None then 1 else 0)"
  shows "pool_ok n bp'"
proof -
  note u = update_known[OF pool_ok_distinct[OF assms(1)] assms(2), of r']
  have k: "map fst (fetching bp') = map fst (fetching bp)" using u by (simp add: fetching_keys assms(3))
  then have "length (fetching bp') = length (fetching bp)" by (metis length_map)
  moreover have "int (missing bp') = int (missing bp) + (if rqBlock r' = None then 1 else 0) - (if rqBlock r = None then 1 else 0)"
    using u[of "\<lambda>r. rqBlock r = None"] unfolding missing_eq assms(3) by (auto split: if_splits)
  ultimately show ?thesis using assms(1,4-6) k by (simp add: pool_ok_def)
qed

lemma pending_bounds:
  assumes "pool_ok n bp" "n < 2 ^ 30"
  shows "0 \<le> plNumPending bp" "plNumPending bp < 2 ^ 31 - 1"
proof -
  have "missing bp \<le> length (fetching bp)" by simp
  then have "int (missing bp) \<le> 600" using assms(1) unfolding pool_ok_def maxTotalRequesters_def by linarith
  then show "0 \<le> plNumPending bp" "plNumPending bp < 2 ^ 31 - 1" using assms by (auto simp: pool_ok_def)
qed

lemma pool_ok_AddBlock: "AddBlock i b bp = Some bp' \<Longrightarrow> pool_ok n bp \<Longrightarrow> n < 2 ^ 30 \<Longrightarrow> pool_ok n bp'"
proof -
  assume a: "AddBlock i b bp = Some bp'" and ok: "pool_ok n bp" "n < 2 ^ 30"
  note c = AddBlock_cases[OF a]
  consider "plRequesters bp' = plRequesters bp" "plNumPending bp' = plNumPending bp"
    | r r' where "map_of (plRequesters bp) (hHeight (bHeader b)) = Some r" "rqBlock r = None" "rqBlock r' = Some b"
        "plRequesters bp' = AList.update (hHeight (bHeader b)) r' (plRequesters bp)" "plNumPending bp' = add32 (plNumPending bp) (- 1)" using c by blast
  then show "pool_ok n bp'"
  proof cases
    case 1
    then show ?thesis using pool_ok_same[OF ok(1)] c by (simp add: fetching_def)
  next
    case 2
    then show ?thesis using pool_ok_update[OF ok(1) 2(1,4)] c pending_bounds[OF ok] by (simp add: add32_small)
  qed
qed

lemma update_fresh: "k \<notin> set (map fst al) \<Longrightarrow> AList.update k v al = al @ [(k, v)]"
  by (induction al) auto

lemma pool_ok_makeNext:
  assumes "pool_ok n bp" "n < 2 ^ 30" "int (length (plRequesters bp)) < maxTotalRequesters" "0 \<le> plHeight bp" "plHeight bp + 600 \<le> MaxInt64"
  shows "pool_ok n (makeNextRequester bp)"
proof (cases "plMaxPeerHeight bp < plHeight bp + int (length (plRequesters bp))")
  case True
  then show ?thesis using assms by (simp add: makeNextRequester_def add64_small maxTotalRequesters_def MaxInt64_def)
next
  case False
  let ?l = "length (plRequesters bp)" and ?h = "plHeight bp + int (length (plRequesters bp))"
  have keys: "map fst (plRequesters bp) = map (\<lambda>i. plHeight bp + int i) [0..<?l]"
    using assms(1) fetching_keys[of bp] by (simp add: pool_ok_def) (simp add: fetching_def)
  then have "?h \<notin> set (map fst (plRequesters bp))" unfolding keys by auto
  then have u: "AList.update ?h newBPRequester (plRequesters bp) = plRequesters bp @ [(?h, newBPRequester)]" by (rule update_fresh)
  have "fetching (makeNextRequester bp) = fetching bp @ [(?h, True)]" "plNumPending (makeNextRequester bp) = plNumPending bp + 1"
    using assms False pending_bounds[OF assms(1,2)] u
    by (simp_all add: makeNextRequester_def fetching_def newBPRequester_def add64_small add32_small maxTotalRequesters_def MaxInt64_def Let_def)
  moreover have "plHeight (makeNextRequester bp) = plHeight bp" "plStopped (makeNextRequester bp) = plStopped bp" by (simp_all add: makeNextRequester_def Let_def)
  moreover have "length (fetching bp) = ?l" by (simp add: fetching_def)
  ultimately show ?thesis using assms(1,3) by (simp add: pool_ok_def)
qed

lemma pool_ok_Pop:
  assumes "pool_ok n bp" "PopRequest bp = Some bp'" "PeekTwoBlocks bp = (Some b1, x)" "0 \<le> plHeight bp" "plHeight bp < MaxInt64"
  shows "pool_ok (Suc n) bp' \<and> plHeight bp' = plHeight bp + 1"
proof -
  obtain r where r: "map_of (plRequesters bp) (plHeight bp) = Some r" "plRequesters bp' = AList.delete (plHeight bp) (plRequesters bp)"
    "plHeight bp' = add64 (plHeight bp) 1" "plStopped bp' = r # plStopped bp" "plNumPending bp' = plNumPending bp"
    using PopRequest_cases[OF assms(2)] by blast
  have b: "rqBlock r \<noteq> None" using assms(3) r(1) by (auto simp: PeekTwoBlocks_def)
  obtain h r0 rest where l: "plRequesters bp = (h, r0) # rest" using r(1) by (cases "plRequesters bp") auto
  have keys: "map fst (plRequesters bp) = map (\<lambda>i. plHeight bp + int i) [0..<Suc (length rest)]"
    using assms(1) fetching_keys[of bp] l by (simp add: pool_ok_def) (simp add: fetching_def)
  also have "\<dots> = plHeight bp # map (\<lambda>i. plHeight bp + 1 + int i) [0..<length rest]" by (subst upt_conv_Cons) (simp_all add: map_Suc_upt[symmetric] del: upt_Suc map_Suc_upt)
  finally have k: "h = plHeight bp" "map fst rest = map (\<lambda>i. plHeight bp + 1 + int i) [0..<length rest]" by (simp_all add: l)
  have "plHeight bp \<notin> set (map fst rest)" unfolding k(2) by auto
  then have "AList.delete (plHeight bp) rest = rest" by (simp add: AList.delete_idem)
  then have d: "plRequesters bp' = rest" "r0 = r" using r(1,2) l k(1) by simp_all
  have h': "plHeight bp' = plHeight bp + 1" using r(3) assms(4,5) by (simp add: add64_small MaxInt64_def)
  have f: "fetching bp = (plHeight bp, False) # fetching bp'" using b l k(1) d by (simp add: fetching_def)
  have len: "length (fetching bp') = length rest" "length (fetching bp) = Suc (length rest)" by (simp_all add: fetching_def l d)
  have "map fst (fetching bp') = map (\<lambda>i. plHeight bp' + int i) [0..<length (fetching bp')]" using k(2) d h' by (simp add: fetching_keys len)
  then show ?thesis using assms(1) f r(4,5) h' unfolding pool_ok_def by simp
qed

lemma pool_ok_stopped: "pool_ok n bp \<Longrightarrow> n < 2 ^ 30 \<Longrightarrow> pool_ok n (stoppedRoutine i redo bp)"
  using pending_bounds[of n bp] by (auto simp: stoppedRoutine_def pool_ok_def fetching_def add32_small Let_def)

lemma pool_ok_request:
  assumes "pool_ok n bp" "n < 2 ^ 30"
  shows "pool_ok n (requestRoutine order h bp)"
proof (cases "map_of (plRequesters bp) h")
  case (Some r)
  note P = pending_bounds[OF assms]
  show ?thesis
  proof (cases "rqPhase r")
    case PickPeer
    obtain bp1 x where x: "pickIncrAvailablePeer order h bp = (bp1, x)" by fastforce
    then have ok1: "pool_ok n bp1" using pool_ok_same[OF assms(1), of bp1] pick_same[of order h bp] pick_height[of order h bp] by simp
    have "pool_ok n (bp1\<lparr>plRequesters := AList.update h (r1\<lparr>rqPhase := Assign i\<rparr>) (plRequesters bp1)\<rparr>)" if "map_of (plRequesters bp1) h = Some r1" for r1 i
      by (rule pool_ok_update[OF ok1 that, where r' = "r1\<lparr>rqPhase := Assign i\<rparr>"]) simp_all
    then show ?thesis using Some PickPeer x ok1 assms(1) by (auto simp: requestRoutine_def split: option.split)
  next
    case (Assign i)
    have "pool_ok n (bp\<lparr>plRequesters := AList.update h (r\<lparr>rqPeerID := i, rqPhase := WaitLoop\<rparr>) (plRequesters bp)\<rparr>)"
      by (rule pool_ok_update[OF assms(1) Some, where r' = "r\<lparr>rqPeerID := i, rqPhase := WaitLoop\<rparr>"]) simp_all
    then show ?thesis using Some Assign by (auto simp: requestRoutine_def sendRequest_def fetching_def intro: pool_ok_same)
  next
    case WaitLoop
    have "pool_ok n (bpr_reset h r bp)"
      by (rule pool_ok_update[OF assms(1) Some, where r' = "r\<lparr>rqPeerID := '''', rqBlock := None, rqRedoCh := None, rqPhase := PickPeer\<rparr>"])
        (use P in \<open>auto simp: bpr_reset_def add32_small\<close>)
    moreover have "pool_ok n (bp\<lparr>plRequesters := AList.update h (r\<lparr>rqRedoCh := None\<rparr>) (plRequesters bp)\<rparr>)"
      by (rule pool_ok_update[OF assms(1) Some, where r' = "r\<lparr>rqRedoCh := None\<rparr>"]) simp_all
    ultimately show ?thesis using Some WaitLoop assms(1) by (auto simp: requestRoutine_def split: option.split)
  qed
qed (use assms in \<open>simp add: requestRoutine_def\<close>)

lemma pool_ok_requesters:
  assumes "pool_ok n bp" "n < 2 ^ 30" "0 \<le> plHeight bp" "plHeight bp + 600 \<le> MaxInt64"
  shows "pool_ok n (makeRequestersRoutine order bp)"
proof -
  have "pool_ok n (removeTimedoutPeers order bp)" using pool_ok_same[OF assms(1)] timedout_same[of order bp] by simp
  then show ?thesis using assms pool_ok_makeNext[OF assms(1,2)] by (auto simp: makeRequestersRoutine_def GetStatus_def)
qed

lemma pool_ok_Redo: "RedoRequest h bp = Some (i, bp') \<Longrightarrow> pool_ok n bp \<Longrightarrow> pool_ok n bp'"
  by (auto simp: RedoRequest_def bind_eq_Some_conv fetching_removePeer intro: pool_ok_same)

lemma pool_ok_others:
  assumes "pool_ok n bp"
  shows "pool_ok n (removePeer i bp)" "pool_ok n (SetPeerRange i b h bp)" "pool_ok n (onTimeout i bp)" "pool_ok n (bp\<lparr>plRunning := running\<rparr>)"
proof -
  show "pool_ok n (removePeer i bp)" using pool_ok_same[OF assms] fetching_removePeer by simp
  show "pool_ok n (SetPeerRange i b h bp)" by (rule pool_ok_same[OF assms]) (simp_all add: SetPeerRange_def fetching_def Let_def)
  show "pool_ok n (onTimeout i bp)" by (rule pool_ok_same[OF assms]) (simp_all add: onTimeout_def sendError_def fetching_def split: option.split)
  show "pool_ok n (bp\<lparr>plRunning := running\<rparr>)" by (rule pool_ok_same[OF assms]) (simp_all add: fetching_def)
qed

lemma pool_ok_step:
  assumes "bc_step E K app R R'" "pool_ok (bcSynced R) (bcPool R)" "bcSynced R < 2 ^ 30" "0 \<le> plHeight (bcPool R)" "plHeight (bcPool R) + 600 \<le> MaxInt64"
  shows "pool_ok (bcSynced R') (bcPool R') \<and> plHeight (bcPool R') - int (bcSynced R') = plHeight (bcPool R) - int (bcSynced R)"
  using assms(1)
proof cases
  case (receive src msg)
  then show ?thesis using Receive_cases[OF receive] pool_ok_AddBlock[OF _ assms(2,3)] pool_ok_others[OF assms(2)] AddBlock_cases assms(2) by fastforce
next
  case sync
  from sync(2) show ?thesis
  proof (cases rule: trySync_cases)
    case same
    then show ?thesis using pool_ok_Redo Redo_height assms(2) by metis
  next
    case applied
    then show ?thesis using pool_ok_Pop[OF assms(2) applied(6,1) assms(4)] assms(5) by (simp add: MaxInt64_def)
  qed
next
  case (stopped i redo)
  then show ?thesis using pool_ok_stopped[OF assms(2,3)] by simp
next
  case (requesters order)
  then show ?thesis using pool_ok_requesters[OF assms(2-5)] by simp
next
  case (request order h)
  then show ?thesis using pool_ok_request[OF assms(2,3)] by simp
qed (use assms(2) pool_ok_others[OF assms(2)] in \<open>auto simp: bc_AddPeer_def bc_RemovePeer_def bc_send_def switchToConsensus_def\<close>)

text \<open>Property C11: over every run of the fast sync the pool fetches a window of at most 600 consecutive heights that starts at the next
  height to apply, and its counter of pending requests is never below the number of blocks that are missing
  and at most the number of blocks synced above it. Looking at the next two blocks, verifying and dropping the first is one turn.\<close>

theorem fast_sync_window:
  assumes "NewBlockchainReactor st ex store = Some R0" "bc_steps E K app (bc_OnStart R0) R" "0 \<le> stLastBlockHeight st" "0 < stInitialHeight st"
    and "next_height st + 2 ^ 31 \<le> MaxInt64" "bcSynced R < 2 ^ 30"
  shows "let h = next_height st + int (bcSynced R); reqs = plRequesters (bcPool R); lacking = length (filter (\<lambda>(h, r). rqBlock r = None) reqs) in
    plHeight (bcPool R) = h \<and> map fst reqs = map (\<lambda>i. h + int i) [0..<length reqs] \<and> length reqs \<le> 600 \<and>
    int lacking \<le> plNumPending (bcPool R) \<and> plNumPending (bcPool R) \<le> int (lacking + bcSynced R)"
proof -
  have n: "0 < next_height st" using assms(3,4) by (simp add: next_height_def)
  have R0: "bcSynced (bc_OnStart R0) = 0" "bcPool (bc_OnStart R0) = (NewBlockPool (next_height st))\<lparr>plRunning := True\<rparr>"
    using assms(1,3,5) by (auto simp: NewBlockchainReactor_def bc_OnStart_def next_height_def Let_def add64_small MaxInt64_def split: if_splits)
  from assms(2,6) have "pool_ok (bcSynced R) (bcPool R) \<and> plHeight (bcPool R) = next_height st + int (bcSynced R)"
  proof induction
    case start
    then show ?case using R0 by (simp add: pool_ok_def fetching_def NewBlockPool_def maxTotalRequesters_def)
  next
    case (step R R')
    have le: "bcSynced R \<le> bcSynced R'" using bc_step_chain[OF step.hyps(2)] by auto
    then have IH: "pool_ok (bcSynced R) (bcPool R)" "plHeight (bcPool R) = next_height st + int (bcSynced R)" using step by auto
    have "plHeight (bcPool R) + 600 \<le> MaxInt64" using IH(2) assms(5) le step.prems by simp
    then show ?case using pool_ok_step[OF step.hyps(2) IH(1)] IH(2) n le step.prems by simp
  qed
  then show ?thesis unfolding Let_def missing_eq[symmetric] fetching_keys[symmetric] by (auto simp: pool_ok_def fetching_def maxTotalRequesters_def)
qed

theorem fast_sync_window_witness:
  "\<exists>R. bc_steps sample_env sample_codec sample_app (bc_OnStart sync_start) R \<and> plHeight (bcPool R) = 2 \<and> length (plRequesters (bcPool R)) \<le> 600"
proof -
  obtain R where R: "bc_steps sample_env sample_codec sample_app (bc_OnStart sync_start) R" "bcSynced R = 1" using sync_run by blast
  have new: "NewBlockchainReactor sample_state sample_ex \<lparr>bsDB = Map.empty, bsBase = 0, bsHeight = 0\<rparr> = Some sync_start"
    by (simp add: sync_start_def NewBlockchainReactor_def sample_state_def Let_def)
  have n: "next_height sample_state = 1" "0 \<le> stLastBlockHeight sample_state" "0 < stInitialHeight sample_state" by (simp_all add: next_height_def sample_state_def)
  show ?thesis using fast_sync_window[OF new R(1) n(2,3)] R n(1) by (auto simp: MaxInt64_def Let_def)
qed

end
