(* ===== verification/Spec2Isabelle.thy ===== *)
theory Spec2Isabelle
  imports ChainSafety PrivVal LoneRun Gossip WriteAhead Handshakes FastSync
begin

text \<open>
  A verification library of the BFT state-machine replication engine under \<open>src/\<close>: a Byzantine fault tolerant
  consensus in rounds of pre-prepare, prepare, commit and reply, with validators, votes, blocks, a mempool, an
  application interface, gossip between peers, a write-ahead log and fast sync.

  \<^bold>\<open>The program.\<close> A node checks transactions into its mempool, and the primary of a round proposes a block of them.
  The block is split into parts with Merkle proofs and gossiped with the proposal. Validators sign prepare votes; more than
  the quorum of them lock a validator on the block and let it sign a commit vote; a quorum of commit votes decides the
  block. The block is stored, executed by the application, and yields the state of the next height, whose validators and
  primary follow from it. The receive loop of \<open>consensus/consensus_state.go\<close> takes one input at a time: a message of a
  peer that the reactor has checked, one of its own messages, a timeout, or the news of transactions. Every input is
  logged before it is handled. A node that was down replays its log, brings the application, the block store and the state
  together by a handshake, and fetches the blocks it lacks from peers before it joins the consensus.

  \<^bold>\<open>How code becomes definitions.\<close> A struct is a record, a method a function on it that returns the changed record;
  a panic is \<open>None\<close> of an outer option, an error a value of a datatype. Integers are \<open>int\<close> with the wrap-around of their
  width written out (\<open>add64\<close>, \<open>sub64\<close>, \<open>add32\<close>, \<open>u32\<close> of \<^verbatim>\<open>Prelude\<close>); bytes and words of bit arrays are
  machine words; \<open>float64\<close> is IEEE binary64 with its rounding. Loops over a heap of linked elements have an explicit heap.
  Go routines are turns of a step relation that interleave in any order. The order in which Go visits a map, random
  choices, the clock and the outcome of I/O are arguments.

  \<^bold>\<open>Parameters.\<close> Code that is not in the repository is an argument of the definitions: in the record \<open>env\<close> the
  hash function, the ed25519 scheme, the codec of time stamps and the comparison of messages; in \<open>codec\<close> and \<open>walcodec\<close>
  the generated encodings of blocks, of wrapped values and of log entries; in \<open>app\<close> and \<open>bootApp\<close> the application; in \<open>world\<close>
  the clock and the outcomes of I/O. Hypotheses on them are 32 byte hashes, an injective encoding, and that \<open>Info\<close> of
  the application reports its last commit. Hash functions are never assumed injective: a theorem ends in
  two different strings with the same hash instead. The hash of the program, SHA-256, is defined in \<^verbatim>\<open>Hashing\<close>.

  \<^bold>\<open>Theories.\<close>

  \<^item> \<^verbatim>\<open>Prelude\<close>, \<^verbatim>\<open>Float64\<close>: Go's integers, slices and comparisons; binary64 by exact rationals and one rounding,
    with certificates for concrete values and an error bound for sums.
  \<^item> \<^verbatim>\<open>BitArrays\<close> (\<open>libs/bits\<close>), \<^verbatim>\<open>Hashing\<close> (\<open>crypto/srhash\<close>), \<^verbatim>\<open>Merkle\<close> (\<open>crypto/merkle\<close>): every operation; a bit array
    as a finite set of indices (locale \<open>index_set\<close>); generated proofs verify, a verified proof is for the item at its index,
    the iterative tree hash is the recursive one.
  \<^item> \<^verbatim>\<open>Wire\<close> (\<open>proto/types\<close>, \<open>libs/protoio\<close>), \<^verbatim>\<open>Canonical\<close> (\<open>types/canonical.go\<close>, \<open>types/blockID.go\<close>), \<^verbatim>\<open>Votes\<close>
    (\<open>types/vote.go\<close>, \<open>types/pre_prepare.go\<close>): the bytes that are signed, read back by the generated decoder, so equal sign bytes mean
    equal votes.
  \<^item> \<^verbatim>\<open>PrivVal\<close> (\<open>types/priv_validator.go\<close>): the signer with its state on disk; over every run with restarts it
    never signs two different messages for one step. Locale \<open>signable\<close> covers votes and proposals.
  \<^item> \<^verbatim>\<open>Validators\<close> (\<open>types/validator.go\<close>, \<open>types/validator_set.go\<close>), \<^verbatim>\<open>VoteSets\<close>, \<^verbatim>\<open>Quorum\<close>, \<^verbatim>\<open>VoteSafety\<close>
    (\<open>VoteSet\<close> of \<open>types/vote.go\<close>), \<^verbatim>\<open>Replies\<close> (\<open>types/reply.go\<close>, \<open>VerifyReply\<close>), \<^verbatim>\<open>HeightVotes\<close> (\<open>consensus/height_vote_set.go\<close>):
    choice of the primary, change sets (locale \<open>address_table\<close>), the invariant of a vote set, what its rounded tally says about the
    number of validators with power, intersection of quorums, commits made and verified.
  \<^item> \<^verbatim>\<open>PartSets\<close> (\<open>types/part_set.go\<close>), \<^verbatim>\<open>Blocks\<close> (\<open>types/block.go\<close>, \<open>header.go\<close>, \<open>data.go\<close>, \<open>tx.go\<close>), \<^verbatim>\<open>BlockStores\<close>
    (\<open>store/store.go\<close>): splitting and collecting a block, hashes that bind it, storing and loading.
  \<^item> \<^verbatim>\<open>CLists\<close> (\<open>libs/clist\<close>), \<^verbatim>\<open>Mempool\<close> (\<open>mempool\<close>): the linked list implements a list (locale \<open>element_list\<close>); counters and limits of the pool.
  \<^item> \<^verbatim>\<open>Chain\<close>, \<^verbatim>\<open>BlockTime\<close>, \<^verbatim>\<open>ChainSafety\<close> (\<open>state\<close>, \<open>types/genesis.go\<close>, \<open>libs/time\<close>): state, validation, execution,
    stores; applied blocks form a chain of verified commits, and the last id determines the history.
  \<^item> \<^verbatim>\<open>RoundStates\<close>, \<^verbatim>\<open>Consensus\<close> (\<open>consensus/round_state.go\<close>, \<open>consensus_state.go\<close>): the data and every handler of the consensus
    machine. \<^verbatim>\<open>ConsensusLocks\<close>, \<^verbatim>\<open>ConsensusSteps\<close>, \<^verbatim>\<open>Decisions\<close>, \<^verbatim>\<open>ConsensusTurns\<close>: the invariant of one node at one
    height - which votes it signs and how its lock moves - is kept by every handler, and the height is left only with a decision.
  \<^item> \<^verbatim>\<open>Agreement\<close>: networks of such machines; \<^verbatim>\<open>Messages\<close>, \<^verbatim>\<open>Peers\<close>, \<^verbatim>\<open>PeerSafety\<close> (\<open>consensus/msgs.go\<close>, \<open>reactor.go\<close>,
    \<open>peer_round_state.go\<close>): messages with their checks and conversions, the knowledge about a peer, \<open>Receive\<close> and the gossip routines;
    \<^verbatim>\<open>Reactors\<close>: networks of reactors refine networks of machines; \<^verbatim>\<open>Gossip\<close> (locale \<open>draining\<close>): gossip sends what a peer lacks,
    each item once, and stops; \<^verbatim>\<open>LoneRun\<close>: a complete run of one validator through one height, which witnesses the hypotheses.
  \<^item> \<^verbatim>\<open>WriteAhead\<close> (\<open>consensus/wal.go\<close>, \<open>replay.go\<close>): frames with their checksum, search, repair, replay; a torn
    log is recovered. \<^verbatim>\<open>Handshakes\<close> (\<open>replay.go\<close>, \<open>replay_stubs.go\<close>, \<open>node/node.go\<close>): a crash while a block is applied is recovered,
    except around a first block above height one, where it is fatal.
    \<^verbatim>\<open>FastSync\<close> (\<open>blockchain\<close>): a block is applied only with a verified commit for its own id, and the window of requests is kept.

  This theory states the properties of the whole network: agreement, the refinement it rests on, and what backs a decision.

  \<^bold>\<open>What agreement assumes.\<close> The theorem is about the nodes of one height, from \<open>NewState\<close> on until a node leaves the height.
  The validators that have voting power share the constant total of 10 equally, up to the rounding of the division
  (\<open>vals_shared_power\<close>): this is how \<open>NewValidatorSet\<close> and the updates of \<open>crtrust\<close> set the powers, where a demoted validator
  stays in the set with power 0. There are at most ten thousand validators. Less than 52 per cent of those with power are
  faulty: a majority needs at least 76 per cent of them, because the quorum is computed as two thirds of 10, plus 1, so two
  majorities share 52 per cent. With other powers the theorems on majorities say nothing; an application may set such powers,
  and so does \<open>crtrust\<close> when the validators it has demoted so far are not the ones it demotes now. The messages
  that arrive are arbitrary structures of the generated types, but a vote that carries a valid signature of an honest
  validator was signed by it (\<open>authentic\<close>). The inputs a node gives to itself - timeouts and its own queued messages -
  are well formed (\<open>input_ok\<close>). Termination of the consensus is not claimed: it depends on clocks and on fair delivery.

  \<^bold>\<open>Bounds.\<close> Recursion is structural or ends by a measure, such as the bytes that remain in a log. Loops that follow the
  links of \<^verbatim>\<open>CLists\<close>, there and in \<^verbatim>\<open>Mempool\<close>, get as fuel the number of elements ever allocated, which the invariant of
  the list makes enough (\<open>cl_inv_length\<close>). The loop that climbs a Merkle tree is a partial function whose result is
  proved for every generated tree. \<open>drain\<close> of \<^verbatim>\<open>Gossip\<close> repeats a step a given number of times, and its theorems say how often is enough.
  Heights, counters and sizes are bounded where a theorem would fail by overflow, and the bound is a hypothesis.

  \<^bold>\<open>Not modelled.\<close> The peer-to-peer layer under \<open>gossip\<close>, RPC, the event bus with its generated query parser,
  indexers, commands and configuration files are I/O and glue around the modelled parts. The trust reactor of \<open>crtrust\<close> scores
  the peers: it receives notices from the consensus, which are recorded in the model, and feeds validator updates back through
  \<open>EndBlock\<close> of the \<open>kvstore\<close> application, which set the power of a validator to 0 or to 10 divided by the number of the others. Its
  scores are not modelled; the updates come from the application, which is a parameter, and are modelled from there on. The timeout ticker is covered by letting timeouts arrive at any time.
  The mempool reactor, the console of \<open>consensus/replay_file.go\<close>, the rotation of log files and the proof operators
  for client queries are left out; generated encodings other than those of the signed messages are parameters.
  Locks are not modelled as such: a turn is what the code does while it holds them. One turn is more than that: in \<^verbatim>\<open>FastSync\<close> the
  next two blocks are looked at, verified and the first dropped in one step, where the code takes the lock of the pool each time.
  A crash in \<^verbatim>\<open>Handshakes\<close> may come between any two writes of the state store, but storing a block is one write. The bytes a replay
  itself appends to the log are arbitrary in \<^verbatim>\<open>WriteAhead\<close>. Limits of memory, such as a slice too large to allocate, are not
  modelled; a negative length is a panic.
\<close>

section \<open>Agreement\<close>

text \<open>Property C1: two honest nodes that have left a height have applied blocks with the same hash at that height. The nodes
  run the reactor and the receive loop of the consensus machine from \<open>NewState\<close> on, in any interleaving and with any messages
  arriving from any peer. Hypotheses: the validators that have voting power share the total of ten equally (others may have
  power zero, and there are at most ten thousand), less than 52 per cent of those with power are faulty, and the votes of the
  honest validators are not forged. A faulty validator without power is harmless and is not counted.\<close>

theorem agreement:
  assumes "common_height X st" "vals_shared_power (stValidators st)" "rnet_start X st Hon N0" "rnet_steps X Hon N0 N"
    and "100 * card (powered (stValidators st) - Hon) < 52 * card (powered (stValidators st))"
    and "j \<in> Hon" "k \<in> Hon" "rsHeight (rcState (rnNode N j)) \<noteq> height_after st" "rsHeight (rcState (rnNode N k)) \<noteq> height_after st"
  shows "\<exists>s s'. csState (rcState (rnNode N j)) = Some s \<and> csState (rcState (rnNode N k)) = Some s' \<and> stLastBlockHeight s = height_after st \<and>
    stLastBlockHeight s' = height_after st \<and> bidHash (stLastBlockID s) = bidHash (stLastBlockID s')"
proof -
  have o: "one_height X st" using assms(1,2) by (simp add: one_height_iff)
  have s: "net_start X st Hon (machines N0)" using assms(3) by (simp add: rnet_start_def)
  have r: "net_steps X Hon (machines N0) (machines N)" using rnet_steps_refine[OF assms(4) rnet_start_queues[OF assms(3)]] by simp
  show ?thesis using net_agreement[OF o s r assms(5-7)] assms(8,9) by (simp add: machines_def)
qed

theorem agreement_witness:
  "\<exists>N0 N s. rnet_start lone_setting sample_state {0} N0 \<and> rnet_steps lone_setting {0} N0 N \<and>
    csState (rcState (rnNode N 0)) = Some s \<and> stLastBlockHeight s = 1"
proof -
  obtain N0 N where n: "rnet_start lone_setting sample_state {0} N0" "rnet_steps lone_setting {0} N0 N" "rsHeight (rcState (rnNode N 0)) \<noteq> height_after sample_state"
    using lone_net by blast
  have "100 * card (powered (stValidators sample_state) - {0}) < 52 * card (powered (stValidators sample_state))"
    by (simp add: sample_state_def sample_vset_shared(2))
  from agreement[OF lone_height[unfolded one_height_iff, THEN conjunct1] lone_height[unfolded one_height_iff, THEN conjunct2] n(1,2) this _ _ n(3) n(3)] have "\<exists>s. csState (rcState (rnNode N 0)) = Some s \<and> stLastBlockHeight s = height_after sample_state" by auto
  moreover have "height_after sample_state = 1" by code_simp
  ultimately show ?thesis using n(1,2) by auto
qed

text \<open>Property C3: the network of reactors refines the network of consensus machines: whatever structures arrive at \<open>Receive\<close>, every
  run of the reactors is, on their machines, a run in which each machine is only given inputs it may be given, and the
  messages that wait in the queues are such inputs.\<close>

theorem reactors_refine_machines:
  assumes "rnet_start X st Hon N0" "rnet_steps X Hon N0 N"
  shows "net_steps X Hon (machines N0) (machines N) \<and> (\<forall>i\<in>Hon. \<forall>mi\<in>set (rcQueue (rnNode N i)). \<forall>cs :: 'a ConsensusState. input_ok cs (PeerMsg mi))"
  using rnet_steps_refine[OF assms(2) rnet_start_queues[OF assms(1)]] by (simp add: queues_ok_def)

theorem reactors_refine_machines_witness:
  "\<exists>N0 N. net_steps lone_setting {0} (machines N0) (machines N) \<and> rsHeight (nNode (machines N) 0) \<noteq> height_after sample_state"
  using lone_net reactors_refine_machines by (fastforce simp: machines_def)

text \<open>Property C4: a node that has left a height has applied a block of that height for which it was handed valid commit votes, in one
  round, of at least 76 per cent of the validators that have voting power. These share the total of ten equally; others may
  have power zero, and the set has at most ten thousand validators.\<close>

theorem decision_is_backed:
  assumes "common_height X st" "vals_shared_power (stValidators st)" "rnet_start X st Hon N0" "rnet_steps X Hon N0 N"
    and "j \<in> Hon" "rsHeight (rcState (rnNode N j)) \<noteq> height_after st"
  shows "\<exists>r b s. csState (rcState (rnNode N j)) = Some s \<and> stLastBlockHeight s = height_after st \<and> bidHash (stLastBlockID s) = bidHash b \<and> bidHash b \<noteq> [] \<and>
    76 * card (powered (stValidators st)) \<le> 100 * card {i\<in>powered (stValidators st). \<exists>v\<in>rnGot N j.
      valid_vote (xE (X 0)) (stChainID st, height_after st, r, CommitType, stValidators st) i v \<and> vBlockID v = b}"
proof -
  have o: "one_height X st" using assms(1,2) by (simp add: one_height_iff)
  have x: "xHeight (X i) = height_after st" "xVals (X i) = stValidators st" "xChain (X i) = stChainID st" for i using o by (simp_all add: one_height_def follows_def)
  have "net_start X st Hon (machines N0)" using assms(3) by (simp add: rnet_start_def)
  moreover have "net_steps X Hon (machines N0) (machines N)" using rnet_steps_refine[OF assms(4) rnet_start_queues[OF assms(3)]] by simp
  ultimately have k: "net_keeps X Hon (machines N)" by (rule net_reach_keeps[OF o])
  have "rsHeight (nNode (machines N) j) \<noteq> xHeight (X j)" using assms(6) x(1) by (simp add: machines_def)
  moreover have "backers (X 0) (rnGot N j) CommitType r b \<inter> powered (stValidators st) = {i\<in>powered (stValidators st). \<exists>v\<in>rnGot N j.
      valid_vote (xE (X 0)) (stChainID st, height_after st, r, CommitType, stValidators st) i v \<and> vBlockID v = b}" for r b
    by (auto simp: backers_def x)
  ultimately show ?thesis using departed_decision[OF k assms(5) _ o] by (auto simp: quorum_for_def machines_def x)
qed

theorem decision_is_backed_witness:
  "\<exists>N0 N s. rnet_steps lone_setting {0} N0 N \<and> csState (rcState (rnNode N 0)) = Some s \<and> stLastBlockHeight s = height_after sample_state"
  using lone_net decision_is_backed[OF lone_height[unfolded one_height_iff, THEN conjunct1] lone_height[unfolded one_height_iff, THEN conjunct2]]
  by (metis insertI1)

end
